(* ===== verification/Supra_Prelude.thy ===== *)
theory Supra_Prelude
  imports Main "HOL-Library.Word"
begin

text \<open>
  Shared ground of the development: the result type that stands for Rust's
  \<open>Result\<close> together with a panic, checked and saturating machine arithmetic, the model
  of \<open>BTreeMap\<close> as a key-sorted association list, decimal printing, byte encodings,
  and two interfaces as locales: finite maps (\<open>assoc_map\<close>) and transition systems
  with an invariant (\<open>safe_system\<close>).
\<close>

section \<open>Results\<close>

text \<open>
  \<open>Ok\<close> and \<open>Err\<close> are Rust's; \<open>Panic\<close> is the abort of a failed overflow check (the
  workspace enables \<open>overflow-checks\<close> in every profile) or of an index out of range.
\<close>

datatype ('a, 'e) outcome = Ok 'a | Err 'e | Panic

fun bind_outcome :: "('a, 'e) outcome \<Rightarrow> ('a \<Rightarrow> ('b, 'e) outcome) \<Rightarrow> ('b, 'e) outcome" where
  "bind_outcome (Ok x) f = f x"
| "bind_outcome (Err e) f = Err e"
| "bind_outcome Panic f = Panic"

fun is_Ok :: "('a, 'e) outcome \<Rightarrow> bool" where
  "is_Ok (Ok _) = True"
| "is_Ok (Err _) = False"
| "is_Ok Panic = False"

lemma bind_outcome_Ok_iff: "bind_outcome r f = Ok y \<longleftrightarrow> (\<exists>x. r = Ok x \<and> f x = Ok y)"
  by (cases r) auto

lemma is_Ok_iff: "is_Ok r \<longleftrightarrow> (\<exists>x. r = Ok x)"
  by (cases r) auto

definition map_err :: "('e \<Rightarrow> 'f) \<Rightarrow> ('a, 'e) outcome \<Rightarrow> ('a, 'f) outcome" where
  "map_err f r = (case r of Ok x \<Rightarrow> Ok x | Err e \<Rightarrow> Err (f e) | Panic \<Rightarrow> Panic)"

lemma map_err_simps [simp]:
  "map_err f (Ok x) = Ok x" "map_err f (Err e) = Err (f e)" "map_err f Panic = Panic"
  by (simp_all add: map_err_def)

lemma map_err_Ok_iff: "map_err f r = Ok x \<longleftrightarrow> r = Ok x"
  by (cases r) simp_all

section \<open>Machine integers as bounded naturals\<close>

definition u32_max :: nat where "u32_max = 2 ^ 32 - 1"
definition u64_max :: nat where "u64_max = 2 ^ 64 - 1"
definition i64_min :: int where "i64_min = - (2 ^ 63)"
definition i64_max :: int where "i64_max = 2 ^ 63 - 1"

definition in_i64 :: "int \<Rightarrow> bool" where
  "in_i64 x \<longleftrightarrow> i64_min \<le> x \<and> x \<le> i64_max"

text \<open>\<open>+\<close> on \<open>u64\<close> under overflow checks, and \<open>checked_add\<close>.\<close>

definition u64_add :: "nat \<Rightarrow> nat \<Rightarrow> (nat, 'e) outcome" where
  "u64_add a b = (if a + b \<le> u64_max then Ok (a + b) else Panic)"

definition checked_add_u64 :: "nat \<Rightarrow> nat \<Rightarrow> nat option" where
  "checked_add_u64 a b = (if a + b \<le> u64_max then Some (a + b) else None)"

definition div_ceil :: "nat \<Rightarrow> nat \<Rightarrow> nat" where
  "div_ceil a b = a div b + (if a mod b = 0 then 0 else 1)"

lemma div_ceil_bounds:
  assumes "0 < b"
  shows "a \<le> b * div_ceil a b \<and> (0 < a \<longrightarrow> b * div_ceil a b < a + b)"
proof -
  obtain q r where qr: "a div b = q" "a mod b = r" by blast
  have "b * q + r = a" using mult_div_mod_eq [of b a] by (simp add: qr)
  moreover have "r < b" using assms qr(2) by auto
  ultimately show ?thesis using assms
    by (auto simp: div_ceil_def qr distrib_left)
qed

lemmas div_ceil_upper = div_ceil_bounds [THEN conjunct1]

lemma div_ceil_lower: "0 < b \<Longrightarrow> 0 < a \<Longrightarrow> b * div_ceil a b < a + b"
  using div_ceil_bounds by blast

lemma div_ceil_0 [simp]: "div_ceil 0 b = 0"
  by (simp add: div_ceil_def)

lemma count_list_replicate: "count_list (replicate n x) y = (if x = y then n else 0)"
  by (induction n) auto

lemma find_SomeD: "List.find P xs = Some x \<Longrightarrow> x \<in> set xs \<and> P x"
  by (induction xs) (auto split: if_splits)

section \<open>Adjacent pairs\<close>

text \<open>Rust's \<open>windows(2)\<close>.\<close>

fun windows2 :: "'a list \<Rightarrow> ('a \<times> 'a) list" where
  "windows2 (x # y # xs) = (x, y) # windows2 (y # xs)"
| "windows2 _ = []"

lemma windows2_sorted_wrt:
  assumes "transp R"
  shows "list_all (\<lambda>(x, y). R x y) (windows2 xs) \<longleftrightarrow> sorted_wrt R xs"
proof (induction xs rule: windows2.induct)
  case (1 x y xs)
  have "R x y \<Longrightarrow> sorted_wrt R (y # xs) \<Longrightarrow> \<forall>z \<in> set (y # xs). R x z"
    using assms by (auto dest: transpD)
  then show ?case using 1 by auto
qed auto

section \<open>Extrema by key\<close>

text \<open>\<open>max_by_key\<close> returns the last maximum, \<open>min_by_key\<close> the first minimum.\<close>

definition max_by_key :: "('a \<Rightarrow> 'b::linorder) \<Rightarrow> 'a list \<Rightarrow> 'a option" where
  "max_by_key f xs = (case xs of [] \<Rightarrow> None
     | x # ys \<Rightarrow> Some (foldl (\<lambda>b y. if f b \<le> f y then y else b) x ys))"

definition min_by_key :: "('a \<Rightarrow> 'b::linorder) \<Rightarrow> 'a list \<Rightarrow> 'a option" where
  "min_by_key f xs = (case xs of [] \<Rightarrow> None
     | x # ys \<Rightarrow> Some (foldl (\<lambda>b y. if f y < f b then y else b) x ys))"

lemma foldl_max_by_key:
  "foldl (\<lambda>b y. if f b \<le> f y then y else b) x ys \<in> set (x # ys) \<and>
   (\<forall>y \<in> set (x # ys). f y \<le> (f (foldl (\<lambda>b y. if f b \<le> f y then y else b) x ys) :: 'b::linorder))"
  by (induction ys arbitrary: x) (fastforce simp: linorder_not_le)+

lemma foldl_min_by_key:
  "foldl (\<lambda>b y. if f y < f b then y else b) x ys \<in> set (x # ys) \<and>
   (\<forall>y \<in> set (x # ys). (f (foldl (\<lambda>b y. if f y < f b then y else b) x ys) :: 'b::linorder) \<le> f y)"
  by (induction ys arbitrary: x) (fastforce simp: linorder_not_less)+

lemma max_by_key_Some:
  "max_by_key f xs = Some m \<Longrightarrow> m \<in> set xs \<and> (\<forall>y \<in> set xs. f y \<le> f m)"
  using foldl_max_by_key [of f "hd xs" "tl xs"] by (cases xs) (auto simp: max_by_key_def)

lemma min_by_key_Some:
  "min_by_key f xs = Some m \<Longrightarrow> m \<in> set xs \<and> (\<forall>y \<in> set xs. f m \<le> f y)"
  using foldl_min_by_key [of f "hd xs" "tl xs"] by (cases xs) (auto simp: min_by_key_def)

lemma max_by_key_None [simp]: "max_by_key f xs = None \<longleftrightarrow> xs = []"
  by (cases xs) (simp_all add: max_by_key_def)

lemma min_by_key_None [simp]: "min_by_key f xs = None \<longleftrightarrow> xs = []"
  by (cases xs) (simp_all add: min_by_key_def)

section \<open>Ordered maps\<close>

text \<open>
  The interface of a finite map with an invariant. Clients see it through \<open>get\<close>; the
  laws are those of a partial function.
\<close>

locale assoc_map =
  fixes get :: "'m \<Rightarrow> 'k \<Rightarrow> 'v option"
    and put :: "'k \<Rightarrow> 'v \<Rightarrow> 'm \<Rightarrow> 'm"
    and del :: "'k \<Rightarrow> 'm \<Rightarrow> 'm"
    and invar :: "'m \<Rightarrow> bool"
  assumes get_put: "invar m \<Longrightarrow> get (put k v m) = (get m)(k \<mapsto> v)"
    and get_del: "invar m \<Longrightarrow> get (del k m) = (get m)(k := None)"
    and invar_put: "invar m \<Longrightarrow> invar (put k v m)"
    and invar_del: "invar m \<Longrightarrow> invar (del k m)"
begin

lemma get_put_same: "invar m \<Longrightarrow> get (put k v m) k = Some v"
  by (simp add: get_put)

lemma get_put_other: "invar m \<Longrightarrow> j \<noteq> k \<Longrightarrow> get (put k v m) j = get m j"
  by (simp add: get_put)

lemma get_del_same: "invar m \<Longrightarrow> get (del k m) k = None"
  by (simp add: get_del)

lemma put_put: "invar m \<Longrightarrow> get (put k v (put k w m)) = get (put k v m)"
  by (simp add: get_put invar_put)

lemma put_comm:
  "invar m \<Longrightarrow> j \<noteq> k \<Longrightarrow> get (put j v (put k w m)) = get (put k w (put j v m))"
  by (simp add: get_put invar_put fun_upd_twist)

text \<open>Storing a list of pairs is \<open>map_upds\<close>: later pairs win.\<close>

lemma get_fold_put:
  "invar m \<Longrightarrow> invar (fold (\<lambda>(k, v). put k v) kvs m) \<and>
    get (fold (\<lambda>(k, v). put k v) kvs m) = get m ++ map_of (rev kvs)"
proof (induction kvs arbitrary: m)
  case Nil
  then show ?case by simp
next
  case (Cons kv kvs)
  obtain k v where kv: "kv = (k, v)" by force
  have "invar (put k v m)" using Cons.prems by (rule invar_put)
  from Cons.IH [OF this] show ?case
    by (auto simp: kv get_put [OF Cons.prems] map_add_def fun_eq_iff split: option.splits)
qed

end

text \<open>\<open>BTreeMap\<close>: an association list whose keys ascend strictly.\<close>

type_synonym ('k, 'v) btree = "('k \<times> 'v) list"

fun bt_insert :: "'k::linorder \<Rightarrow> 'v \<Rightarrow> ('k, 'v) btree \<Rightarrow> ('k, 'v) btree" where
  "bt_insert k v [] = [(k, v)]"
| "bt_insert k v ((j, w) # m) =
     (if k < j then (k, v) # (j, w) # m
      else if k = j then (k, v) # m
      else (j, w) # bt_insert k v m)"

fun bt_remove :: "'k::linorder \<Rightarrow> ('k, 'v) btree \<Rightarrow> ('k, 'v) btree" where
  "bt_remove k [] = []"
| "bt_remove k ((j, w) # m) = (if k = j then m else (j, w) # bt_remove k m)"

definition bt_sorted :: "('k::linorder, 'v) btree \<Rightarrow> bool" where
  "bt_sorted m \<longleftrightarrow> sorted_wrt (<) (map fst m)"

definition bt_of_list :: "('k::linorder \<times> 'v) list \<Rightarrow> ('k, 'v) btree" where
  "bt_of_list kvs = fold (\<lambda>(k, v). bt_insert k v) kvs []"

lemma bt_insert_keys: "set (map fst (bt_insert k v m)) = insert k (set (map fst m))"
  by (induction k v m rule: bt_insert.induct) (simp_all add: insert_commute)

lemma bt_insert_sorted: "bt_sorted m \<Longrightarrow> bt_sorted (bt_insert k v m)"
proof (induction m)
  case Nil
  then show ?case by (simp add: bt_sorted_def)
next
  case (Cons jw m)
  obtain j w where jw: "jw = (j, w)" by force
  from Cons have IH: "bt_sorted (bt_insert k v m)" by (simp add: bt_sorted_def)
  have "\<forall>x \<in> set (map fst m). j < x" using Cons.prems by (simp add: bt_sorted_def jw)
  then show ?case using IH Cons.prems bt_insert_keys [of k v m]
    by (auto simp: bt_sorted_def jw)
qed

lemma bt_insert_get: "map_of (bt_insert k v m) = (map_of m)(k \<mapsto> v)"
  by (induction m) (auto simp: fun_eq_iff)

lemma bt_remove_keys: "set (map fst (bt_remove k m)) \<subseteq> set (map fst m)"
  by (induction k m rule: bt_remove.induct) (simp_all add: subset_insertI subset_insertI2)

lemma bt_remove_sorted: "bt_sorted m \<Longrightarrow> bt_sorted (bt_remove k m)"
proof (induction m)
  case Nil
  then show ?case by (simp add: bt_sorted_def)
next
  case (Cons jw m)
  obtain j w where jw: "jw = (j, w)" by force
  from Cons have IH: "bt_sorted (bt_remove k m)" by (simp add: bt_sorted_def)
  have "\<forall>x \<in> set (map fst m). j < x" using Cons.prems by (simp add: bt_sorted_def jw)
  then show ?case using IH Cons.prems bt_remove_keys [of k m]
    by (force simp: bt_sorted_def jw)
qed

lemma bt_remove_get: "bt_sorted m \<Longrightarrow> map_of (bt_remove k m) = (map_of m)(k := None)"
proof (induction m)
  case Nil
  then show ?case by auto
next
  case (Cons jw m)
  obtain j w where jw: "jw = (j, w)" by force
  have "k = j \<Longrightarrow> map_of m k = None" using Cons.prems
    by (auto simp: bt_sorted_def jw map_of_eq_None_iff)
  moreover have "bt_sorted m" using Cons.prems by (simp add: bt_sorted_def)
  ultimately show ?case using Cons.IH by (auto simp: jw fun_eq_iff)
qed

interpretation bt: assoc_map map_of bt_insert bt_remove bt_sorted
  by unfold_locales (simp_all add: bt_insert_get bt_remove_get bt_insert_sorted bt_remove_sorted)

lemma bt_sorted_Nil [simp]: "bt_sorted []"
  by (simp add: bt_sorted_def)

lemma bt_sorted_distinct: "bt_sorted m \<Longrightarrow> distinct (map fst m)"
  by (simp add: bt_sorted_def strict_sorted_iff)

lemma bt_of_list_sorted: "bt_sorted (bt_of_list kvs)"
  unfolding bt_of_list_def using bt.get_fold_put [of "[]" kvs] by simp

lemma bt_of_list_get: "map_of (bt_of_list kvs) = map_of (rev kvs)"
  unfolding bt_of_list_def using bt.get_fold_put [of "[]" kvs] by simp

text \<open>A sorted association list is determined by its lookups.\<close>

lemma bt_ext: "bt_sorted m \<Longrightarrow> bt_sorted n \<Longrightarrow> map_of m = map_of n \<Longrightarrow> m = n"
proof -
  assume s: "bt_sorted m" "bt_sorted n" and eq: "map_of m = map_of n"
  have d: "distinct (map fst m)" "distinct (map fst n)" using s by (simp_all add: bt_sorted_distinct)
  then have set_eq: "set m = set n" using eq by (simp add: map_of_inject_set)
  have "inj_on fst (set m \<union> set n)" using d(2) by (simp add: set_eq distinct_map)
  moreover have "sorted (map fst m)" "sorted (map fst n)" using s by (simp_all add: bt_sorted_def strict_sorted_iff)
  ultimately show ?thesis using d set_eq by (intro map_sorted_distinct_set_unique [of fst]) auto
qed

lemma bt_insert_map:
  "map (\<lambda>(k, v). (k, f v)) (bt_insert k v m) = bt_insert k (f v) (map (\<lambda>(k, v). (k, f v)) m)"
  by (induction k v m rule: bt_insert.induct) auto

lemma bt_insert_set: "set (bt_insert k v m) \<subseteq> insert (k, v) (set m)"
  by (induction k v m rule: bt_insert.induct) auto

lemma bt_of_list_map:
  "map (\<lambda>(k, v). (k, f v)) (bt_of_list kvs) = bt_of_list (map (\<lambda>(k, v). (k, f v)) kvs)"
proof -
  have "map (\<lambda>(k, v). (k, f v)) (fold (\<lambda>(k, v). bt_insert k v) kvs m) =
      fold (\<lambda>(k, v). bt_insert k v) (map (\<lambda>(k, v). (k, f v)) kvs) (map (\<lambda>(k, v). (k, f v)) m)" for m
    by (induction kvs arbitrary: m) (auto simp: bt_insert_map)
  from this [of "[]"] show ?thesis by (simp add: bt_of_list_def)
qed

lemma bt_of_list_keys: "set (map fst (bt_of_list kvs)) = set (map fst kvs)"
proof -
  have "set (map fst (fold (\<lambda>(k, v). bt_insert k v) kvs m)) = set (map fst kvs) \<union> set (map fst m)" for m
  proof (induction kvs arbitrary: m)
    case (Cons kv kvs)
    then show ?case using bt_insert_keys [of "fst kv" "snd kv" m] by (auto simp: split_beta)
  qed simp
  from this [of "[]"] show ?thesis by (simp add: bt_of_list_def)
qed

lemma bt_of_list_length: "distinct (map fst kvs) \<Longrightarrow> length (bt_of_list kvs) = length kvs"
  using distinct_card [of "map fst kvs"] distinct_card [of "map fst (bt_of_list kvs)"]
    bt_sorted_distinct [OF bt_of_list_sorted, of kvs] bt_of_list_keys [of kvs] by simp

section \<open>Binary search\<close>

text \<open>
  \<open>binary_search_by_key\<close> on a slice: the index of a match, or the index at which the key
  would be inserted.
\<close>

datatype search = Found nat | Insert_At nat

function bsearch :: "'k::linorder list \<Rightarrow> 'k \<Rightarrow> nat \<Rightarrow> nat \<Rightarrow> search" where
  "bsearch ks k lo hi =
     (if lo < hi then
        let mid = lo + (hi - lo) div 2 in
        if ks ! mid = k then Found mid
        else if ks ! mid < k then bsearch ks k (mid + 1) hi
        else bsearch ks k lo mid
      else Insert_At lo)"
  by pat_completeness auto

termination
  by (relation "measure (\<lambda>(ks, k, lo, hi). hi - lo)") auto

declare bsearch.simps [simp del]

definition binary_search :: "'k::linorder list \<Rightarrow> 'k \<Rightarrow> search" where
  "binary_search ks k = bsearch ks k 0 (length ks)"

fun search_result :: "'k::linorder list \<Rightarrow> 'k \<Rightarrow> search \<Rightarrow> bool" where
  "search_result ks k (Found i) \<longleftrightarrow> i < length ks \<and> ks ! i = k"
| "search_result ks k (Insert_At i) \<longleftrightarrow>
     i \<le> length ks \<and> (\<forall>j < i. ks ! j < k) \<and> (\<forall>j. i \<le> j \<and> j < length ks \<longrightarrow> k < ks ! j)"

lemma bsearch_result:
  assumes "sorted_wrt (<) ks" "lo \<le> hi" "hi \<le> length ks"
    and "\<forall>j < lo. ks ! j < k" "\<forall>j. hi \<le> j \<and> j < length ks \<longrightarrow> k < ks ! j"
  shows "search_result ks k (bsearch ks k lo hi)"
  using assms
proof (induction ks k lo hi rule: bsearch.induct)
  case (1 ks k lo hi)
  let ?mid = "lo + (hi - lo) div 2"
  show ?case
  proof (cases "lo < hi")
    case False
    with "1.prems" show ?thesis by (subst bsearch.simps) auto
  next
    case True
    then have mid: "?mid < hi" "lo \<le> ?mid" by linarith+
    have mono: "\<And>i j. i < j \<Longrightarrow> j < length ks \<Longrightarrow> ks ! i < ks ! j"
      using "1.prems"(1) by (simp add: sorted_wrt_iff_nth_less)
    consider "ks ! ?mid = k" | "ks ! ?mid < k" | "k < ks ! ?mid" by fastforce
    then show ?thesis
    proof cases
      case 1
      then show ?thesis using True mid "1.prems"(3) by (subst bsearch.simps) simp
    next
      case 2
      have below: "\<forall>j < ?mid + 1. ks ! j < k"
      proof (intro allI impI)
        fix j assume "j < ?mid + 1"
        then consider "j = ?mid" | "j < ?mid" by linarith
        then show "ks ! j < k"
        proof cases
          case 1
          with 2 show ?thesis by simp
        next
          case lt: 2
          have "ks ! j < ks ! ?mid" using lt mid "1.prems"(3) by (intro mono) simp_all
          with 2 show ?thesis by simp
        qed
      qed
      have ne: "ks ! ?mid \<noteq> k" using 2 by simp
      show ?thesis
        using "1.IH"(1) [OF True refl ne 2 "1.prems"(1) _ "1.prems"(3) below "1.prems"(5)] True mid 2 ne
        by (subst bsearch.simps) (simp add: Let_def)
    next
      case 3
      have above: "\<forall>j. ?mid \<le> j \<and> j < length ks \<longrightarrow> k < ks ! j"
      proof (intro allI impI)
        fix j assume j: "?mid \<le> j \<and> j < length ks"
        then consider "j = ?mid" | "?mid < j" by linarith
        then show "k < ks ! j"
        proof cases
          case 1
          with 3 show ?thesis by simp
        next
          case 2
          have "ks ! ?mid < ks ! j" using 2 j by (intro mono) simp_all
          with 3 show ?thesis by simp
        qed
      qed
      have "\<not> ks ! ?mid < k" "ks ! ?mid \<noteq> k" using 3 by auto
      then show ?thesis
        using "1.IH"(2) [OF True refl _ _ "1.prems"(1) mid(2) _ "1.prems"(4) above] True mid "1.prems"(3)
        by (subst bsearch.simps) (simp add: Let_def)
    qed
  qed
qed

lemma binary_search_result:
  "sorted_wrt (<) ks \<Longrightarrow> search_result ks k (binary_search ks k)"
  unfolding binary_search_def by (rule bsearch_result) auto

text \<open>Inserting and removing at the index that the search reports are the map operations.\<close>

lemma bt_insert_found:
  "bt_sorted m \<Longrightarrow> i < length m \<Longrightarrow> fst (m ! i) = k \<Longrightarrow> bt_insert k v m = m[i := (k, v)]"
proof (induction m arbitrary: i)
  case Nil
  then show ?case by simp
next
  case (Cons x m)
  obtain j w where x: "x = (j, w)" by force
  show ?case
  proof (cases i)
    case 0
    with Cons.prems show ?thesis by (simp add: x)
  next
    case (Suc i')
    with Cons.prems have "j < k" by (auto simp: x bt_sorted_def)
    moreover have "bt_insert k v m = m[i' := (k, v)]"
      using Cons Suc by (auto simp: bt_sorted_def)
    ultimately show ?thesis by (auto simp: x Suc)
  qed
qed

lemma bt_insert_at:
  "i \<le> length m \<Longrightarrow> \<forall>j < i. fst (m ! j) < k \<Longrightarrow> \<forall>j. i \<le> j \<and> j < length m \<longrightarrow> k < fst (m ! j) \<Longrightarrow>
   bt_insert k v m = take i m @ (k, v) # drop i m"
proof (induction m arbitrary: i)
  case Nil
  then show ?case by simp
next
  case (Cons x m)
  obtain j w where x: "x = (j, w)" by force
  show ?case
  proof (cases i)
    case 0
    with Cons.prems(3) have "k < j" by (auto simp: x)
    with 0 show ?thesis by (simp add: x)
  next
    case (Suc i')
    with Cons.prems(2) have "j < k" by (auto simp: x)
    moreover have "bt_insert k v m = take i' m @ (k, v) # drop i' m"
    proof (rule Cons.IH)
      show "i' \<le> length m" using Cons.prems(1) Suc by simp
      show "\<forall>j<i'. fst (m ! j) < k" using Cons.prems(2) Suc by fastforce
      show "\<forall>j. i' \<le> j \<and> j < length m \<longrightarrow> k < fst (m ! j)" using Cons.prems(3) Suc by fastforce
    qed
    ultimately show ?thesis by (auto simp: x Suc)
  qed
qed

lemma bt_remove_found:
  "bt_sorted m \<Longrightarrow> i < length m \<Longrightarrow> fst (m ! i) = k \<Longrightarrow> bt_remove k m = take i m @ drop (Suc i) m"
proof (induction m arbitrary: i)
  case Nil
  then show ?case by simp
next
  case (Cons x m)
  obtain j w where x: "x = (j, w)" by force
  show ?case
  proof (cases i)
    case 0
    with Cons.prems show ?thesis by (simp add: x)
  next
    case (Suc i')
    with Cons.prems have "j < k" by (auto simp: x bt_sorted_def)
    moreover have "bt_remove k m = take i' m @ drop (Suc i') m"
      using Cons Suc by (auto simp: bt_sorted_def)
    ultimately show ?thesis by (auto simp: x Suc)
  qed
qed

lemma bt_remove_absent: "k \<notin> fst ` set m \<Longrightarrow> bt_remove k m = m"
  by (induction k m rule: bt_remove.induct) simp_all

lemma search_absent: "search_result ks k (Insert_At i) \<Longrightarrow> k \<notin> set ks"
  by (auto simp: in_set_conv_nth) (metis less_irrefl linorder_not_less)

text \<open>A sorted association list is determined by the map it stands for.\<close>

lemma bt_unique:
  assumes "bt_sorted m" "bt_sorted n" "map_of m = map_of n"
  shows "m = n"
proof -
  note dist = bt_sorted_distinct [OF assms(1)] bt_sorted_distinct [OF assms(2)]
  have sets: "set m = set n"
    unfolding set_map_of_compr [OF dist(1)] set_map_of_compr [OF dist(2)] assms(3) ..
  have sorted: "sorted (map fst m)" "sorted (map fst n)"
    using assms(1,2) by (simp_all only: bt_sorted_def strict_sorted_iff)
  have "inj_on fst (set m \<union> set n)" using dist(1) sets by (simp add: distinct_map)
  from map_sorted_distinct_set_unique [OF this sorted(1) dist(1) sorted(2) dist(2) sets]
  show ?thesis .
qed

section \<open>Transition systems with an invariant\<close>

inductive reach :: "('s \<Rightarrow> bool) \<Rightarrow> ('s \<Rightarrow> 'l \<Rightarrow> 's \<Rightarrow> bool) \<Rightarrow> 's \<Rightarrow> bool"
  for init :: "'s \<Rightarrow> bool" and step :: "'s \<Rightarrow> 'l \<Rightarrow> 's \<Rightarrow> bool" where
  reach_init: "init s \<Longrightarrow> reach init step s"
| reach_step: "reach init step s \<Longrightarrow> step s l t \<Longrightarrow> reach init step t"

inductive run :: "('s \<Rightarrow> 'l \<Rightarrow> 's \<Rightarrow> bool) \<Rightarrow> 's \<Rightarrow> 'l list \<Rightarrow> 's \<Rightarrow> bool"
  for step :: "'s \<Rightarrow> 'l \<Rightarrow> 's \<Rightarrow> bool" where
  run_nil: "run step s [] s"
| run_cons: "step s l t \<Longrightarrow> run step t ls u \<Longrightarrow> run step s (l # ls) u"

inductive_simps run_Nil_iff: "run step s [] t"
inductive_simps run_Cons_iff: "run step s (l # ls) t"

locale safe_system =
  fixes init :: "'s \<Rightarrow> bool"
    and step :: "'s \<Rightarrow> 'l \<Rightarrow> 's \<Rightarrow> bool"
    and inv :: "'s \<Rightarrow> bool"
  assumes inv_init: "init s \<Longrightarrow> inv s"
    and inv_step: "inv s \<Longrightarrow> step s l t \<Longrightarrow> inv t"
begin

lemma reach_inv: "reach init step s \<Longrightarrow> inv s"
  by (induction rule: reach.induct) (auto intro: inv_init inv_step)

lemma run_inv: "run step s ls t \<Longrightarrow> inv s \<Longrightarrow> inv t"
  by (induction rule: run.induct) (auto intro: inv_step)

end

section \<open>Bytes and text\<close>

type_synonym byte = "8 word"

text \<open>A Rust \<open>String\<close> is its UTF-8 bytes, so \<open>length\<close> is \<open>str::len\<close>.\<close>

definition char_byte :: "char \<Rightarrow> byte" where
  "char_byte c = word_of_nat (of_char c)"

definition str_bytes :: "string \<Rightarrow> byte list" where
  "str_bytes s = map char_byte s"

lemma of_char_bound: "(of_char c :: nat) < 256"
  using of_char_mod_256 [of c] by (metis mod_less_divisor zero_less_numeral)

lemma char_byte_inj: "char_byte c = char_byte d \<longleftrightarrow> c = d"
proof
  assume "char_byte c = char_byte d"
  then have "unat (word_of_nat (of_char c) :: byte) = unat (word_of_nat (of_char d) :: byte)"
    by (simp add: char_byte_def)
  then have "(of_char c :: nat) = of_char d"
    using of_char_bound [of c] of_char_bound [of d] by (simp add: unat_of_nat)
  then show "c = d" by simp
qed simp

lemma str_bytes_inj [simp]: "str_bytes s = str_bytes t \<longleftrightarrow> s = t"
  by (auto simp: str_bytes_def char_byte_inj intro: map_injective [OF _ injI])

lemma length_str_bytes [simp]: "length (str_bytes s) = length s"
  by (simp add: str_bytes_def)

text \<open>Little-endian bytes of a fixed width, Rust's \<open>to_le_bytes\<close>.\<close>

fun le_bytes :: "nat \<Rightarrow> nat \<Rightarrow> byte list" where
  "le_bytes 0 v = []"
| "le_bytes (Suc n) v = word_of_nat (v mod 256) # le_bytes n (v div 256)"

fun of_le_bytes :: "byte list \<Rightarrow> nat" where
  "of_le_bytes [] = 0"
| "of_le_bytes (b # bs) = unat b + 256 * of_le_bytes bs"

lemma length_le_bytes [simp]: "length (le_bytes n v) = n"
  by (induction n arbitrary: v) auto

lemma of_le_bytes_le_bytes: "v < 256 ^ n \<Longrightarrow> of_le_bytes (le_bytes n v) = v"
proof (induction n arbitrary: v)
  case 0
  then show ?case by simp
next
  case (Suc n)
  from Suc.prems have "v div 256 < 256 ^ n"
    by (simp add: less_mult_imp_div_less mult.commute)
  then show ?case using Suc.IH by (simp add: unat_of_nat)
qed

lemma le_bytes_inj: "v < 256 ^ n \<Longrightarrow> w < 256 ^ n \<Longrightarrow> le_bytes n v = le_bytes n w \<longleftrightarrow> v = w"
  using of_le_bytes_le_bytes by metis

text \<open>Decimal text, Rust's \<open>to_string\<close> on an unsigned integer.\<close>

definition digit_char :: "nat \<Rightarrow> char" where
  "digit_char d = char_of (48 + d)"

fun show_nat :: "nat \<Rightarrow> string" where
  "show_nat n = (if n < 10 then [digit_char n] else show_nat (n div 10) @ [digit_char (n mod 10)])"

declare show_nat.simps [simp del]

definition is_digit :: "char \<Rightarrow> bool" where
  "is_digit c \<longleftrightarrow> 48 \<le> (of_char c :: nat) \<and> (of_char c :: nat) \<le> 57"

lemma of_char_digit: "d < 10 \<Longrightarrow> (of_char (digit_char d) :: nat) = 48 + d"
  by (simp add: digit_char_def)

lemma digit_char_is_digit: "d < 10 \<Longrightarrow> is_digit (digit_char d)"
  by (simp add: is_digit_def of_char_digit)

lemma show_nat_digits: "\<forall>c \<in> set (show_nat n). is_digit c"
proof (induction n rule: show_nat.induct)
  case (1 n)
  then show ?case by (subst show_nat.simps) (auto simp: digit_char_is_digit)
qed

lemma show_nat_not_Nil [simp]: "show_nat n \<noteq> []"
  by (subst show_nat.simps) simp

definition read_nat :: "string \<Rightarrow> nat" where
  "read_nat s = foldl (\<lambda>a c. 10 * a + (of_char c - 48)) 0 s"

lemma read_show_nat: "read_nat (show_nat n) = n"
proof (induction n rule: show_nat.induct)
  case (1 n)
  show ?case
  proof (cases "n < 10")
    case True
    then show ?thesis by (subst show_nat.simps) (simp add: read_nat_def of_char_digit)
  next
    case False
    with 1 have "read_nat (show_nat (n div 10)) = n div 10" by simp
    with False show ?thesis
      by (subst show_nat.simps) (simp add: read_nat_def of_char_digit)
  qed
qed

lemma show_nat_inj: "show_nat m = show_nat n \<longleftrightarrow> m = n"
  using read_show_nat by metis

text \<open>A run of digits followed by a non-digit splits in one way only.\<close>

lemma digits_split:
  assumes "\<forall>c \<in> set p. is_digit c" "\<forall>c \<in> set q. is_digit c"
    and "\<not> is_digit x" "\<not> is_digit y"
    and "p @ x # r = q @ y # s"
  shows "p = q \<and> x = y \<and> r = s"
  using assms
proof (induction p arbitrary: q)
  case Nil
  then show ?case by (cases q) auto
next
  case (Cons a p)
  then show ?case by (cases q) auto
qed

text \<open>A text whose first character, if any, is no digit.\<close>

definition stops :: "string \<Rightarrow> bool" where
  "stops r \<longleftrightarrow> r = [] \<or> \<not> is_digit (hd r)"

lemma stops_simps [simp]: "stops []" "stops (c # r) \<longleftrightarrow> \<not> is_digit c"
  by (simp_all add: stops_def)

lemma stops_append: "stops s \<Longrightarrow> s \<noteq> [] \<Longrightarrow> stops (s @ r)"
  by (simp add: stops_def)

lemma show_nat_split:
  assumes "show_nat m @ r = show_nat n @ r'" "stops r" "stops r'"
  shows "m = n \<and> r = r'"
proof -
  have head: "\<exists>x t. q @ [CHR '','' ] = x # t \<and> \<not> is_digit x" if "stops q" for q
    using that by (cases q) (auto simp: stops_def is_digit_def)
  obtain x t y u where x: "r @ [CHR '','' ] = x # t" "\<not> is_digit x" "r' @ [CHR '','' ] = y # u" "\<not> is_digit y"
    using head [OF assms(2)] head [OF assms(3)] by blast
  have "show_nat m @ x # t = show_nat n @ y # u"
    using assms(1) by (metis append_assoc x(1,3))
  then have "show_nat m = show_nat n \<and> x = y \<and> t = u"
    using digits_split [OF show_nat_digits show_nat_digits x(2,4)] by blast
  then show ?thesis using x(1,3) by (metis append_same_eq show_nat_inj)
qed

lemma of_char_inj_nat: "(of_char c :: nat) = of_char d \<longleftrightarrow> c = d"
  by simp

lemma digit_char_of: "is_digit c \<Longrightarrow> digit_char (of_char c - 48) = c"
  by (simp add: digit_char_def is_digit_def)

lemma read_nat_snoc: "read_nat (s @ [c]) = 10 * read_nat s + (of_char c - 48)"
  by (simp add: read_nat_def)

lemma read_nat_pos:
  "\<forall>c \<in> set s. is_digit c \<Longrightarrow> s \<noteq> [] \<Longrightarrow> hd s \<noteq> CHR ''0'' \<Longrightarrow> 0 < read_nat s"
proof (induction s rule: rev_induct)
  case (snoc c s)
  show ?case
  proof (cases "s = []")
    case True
    have "(of_char (CHR ''0'') :: nat) = 48" "c \<noteq> CHR ''0''" using snoc.prems True by simp_all
    then have "(of_char c :: nat) \<noteq> 48" using of_char_inj_nat [of c "CHR ''0''"] by metis
    then show ?thesis using snoc.prems True by (auto simp: read_nat_def is_digit_def)
  next
    case False
    then have "0 < read_nat s" using snoc by simp
    then show ?thesis by (simp add: read_nat_snoc)
  qed
qed simp

lemma show_read_nat:
  "\<forall>c \<in> set s. is_digit c \<Longrightarrow> s \<noteq> [] \<Longrightarrow> (hd s = CHR ''0'' \<longrightarrow> length s = 1) \<Longrightarrow> show_nat (read_nat s) = s"
proof (induction s rule: rev_induct)
  case (snoc c s)
  have c: "(of_char c :: nat) - 48 < 10" "is_digit c" using snoc.prems(1) by (auto simp: is_digit_def)
  show ?case
  proof (cases "s = []")
    case True
    then show ?thesis using c by (subst show_nat.simps) (simp add: read_nat_def digit_char_of)
  next
    case False
    then have h: "hd s \<noteq> CHR ''0''" using snoc.prems(3) by auto
    then have pos: "0 < read_nat s" using read_nat_pos [of s] snoc.prems(1) False by simp
    have IH: "show_nat (read_nat s) = s" using snoc h False by simp
    have "\<not> read_nat (s @ [c]) < 10" using pos by (simp add: read_nat_snoc)
    moreover have "read_nat (s @ [c]) div 10 = read_nat s" "read_nat (s @ [c]) mod 10 = of_char c - 48"
      using c(1) by (simp_all add: read_nat_snoc)
    ultimately show ?thesis using IH c(2) by (subst show_nat.simps) (simp add: digit_char_of)
  qed
qed simp

definition strip_suffix :: "string \<Rightarrow> string \<Rightarrow> string option" where
  "strip_suffix suf s =
     (if length suf \<le> length s \<and> drop (length s - length suf) s = suf
      then Some (take (length s - length suf) s) else None)"

definition starts_with :: "string \<Rightarrow> string \<Rightarrow> bool" where
  "starts_with p s \<longleftrightarrow> take (length p) s = p"

definition strip_prefix :: "string \<Rightarrow> string \<Rightarrow> string option" where
  "strip_prefix p s = (if take (length p) s = p then Some (drop (length p) s) else None)"

lemma strip_prefix_append [simp]: "strip_prefix p (p @ s) = Some s"
  by (simp add: strip_prefix_def)

lemma strip_suffix_append [simp]: "strip_suffix q (s @ q) = Some s"
  by (simp add: strip_suffix_def)

section \<open>Identifiers\<close>

text \<open>
  ULIDs are 128-bit numbers ordered by value. Each entity kind of \<open>id.rs\<close> gets its own
  type over that number, so the model cannot confuse them either; minting a fresh one
  (clock and randomness) is an argument of the operations that mint.
\<close>

type_synonym ulid = "128 word"

datatype session_id = SessionId (session_raw: ulid)
datatype turn_id = TurnId (turn_raw: ulid)
datatype agent_id = AgentId (agent_raw: ulid)
datatype claim_id = ClaimId (claim_raw: ulid)
datatype segment_id = SegmentId (segment_raw: ulid)
datatype finding_id = FindingId (finding_raw: ulid)

definition ulid_timestamp_ms :: "ulid \<Rightarrow> nat" where
  "ulid_timestamp_ms u = unat u div 2 ^ 80"

lemma ulid_timestamp_bound: "ulid_timestamp_ms u < 256 ^ 8"
proof -
  have "unat u < 2 ^ 128" using unsigned_less [of u] by simp
  then have "unat u div 2 ^ 80 < 2 ^ 48" by (simp add: less_mult_imp_div_less)
  then show ?thesis by (simp add: ulid_timestamp_ms_def)
qed

instantiation agent_id :: linorder
begin
definition less_eq_agent_id :: "agent_id \<Rightarrow> agent_id \<Rightarrow> bool" where
  "x \<le> y \<longleftrightarrow> agent_raw x \<le> agent_raw y"
definition less_agent_id :: "agent_id \<Rightarrow> agent_id \<Rightarrow> bool" where
  "x < y \<longleftrightarrow> agent_raw x < agent_raw y"
instance
  by standard (auto simp: less_eq_agent_id_def less_agent_id_def agent_id.expand)
end

instantiation turn_id :: linorder
begin
definition less_eq_turn_id :: "turn_id \<Rightarrow> turn_id \<Rightarrow> bool" where
  "x \<le> y \<longleftrightarrow> turn_raw x \<le> turn_raw y"
definition less_turn_id :: "turn_id \<Rightarrow> turn_id \<Rightarrow> bool" where
  "x < y \<longleftrightarrow> turn_raw x < turn_raw y"
instance
  by standard (auto simp: less_eq_turn_id_def less_turn_id_def turn_id.expand)
end

instantiation claim_id :: linorder
begin
definition less_eq_claim_id :: "claim_id \<Rightarrow> claim_id \<Rightarrow> bool" where
  "x \<le> y \<longleftrightarrow> claim_raw x \<le> claim_raw y"
definition less_claim_id :: "claim_id \<Rightarrow> claim_id \<Rightarrow> bool" where
  "x < y \<longleftrightarrow> claim_raw x < claim_raw y"
instance
  by standard (auto simp: less_eq_claim_id_def less_claim_id_def claim_id.expand)
end

end
