(* ===== verification/Cohort.thy ===== *)
theory Cohort
  imports Supra_Prelude "HOL-Library.Multiset"
begin

text \<open>
  \<open>crates/supra_types/src/cohort.rs\<close>: quorum arithmetic, tiers and admission under a
  peer limit, bounded verdicts, and the incremental tally of one claim. \<open>usize\<close> counts
  are naturals; the subtraction of \<open>pending\<close> is exact under \<open>tally_ok\<close>, which every
  tally built by \<open>tally_new\<close> and \<open>tally_record\<close> satisfies.
\<close>

section \<open>Quorum arithmetic\<close>

definition PEER_CEILING :: nat where "PEER_CEILING = 80"
definition DEFAULT_PEER_LIMIT :: nat where "DEFAULT_PEER_LIMIT = 16"
definition MAX_REQUESTS_PER_MINUTE :: nat where "MAX_REQUESTS_PER_MINUTE = 15"

definition quorum :: "nat \<Rightarrow> nat" where
  "quorum k = (if k = 0 then 0 else div_ceil (2 * k) 3)"

definition byzantine_tolerance :: "nat \<Rightarrow> nat" where
  "byzantine_tolerance k = (if k = 0 then 0 else (k - 1) div 3)"

definition shards_needed :: "nat \<Rightarrow> nat" where
  "shards_needed k = div_ceil k MAX_REQUESTS_PER_MINUTE"

lemma quorum_bounds: "2 * k \<le> 3 * quorum k" "3 * quorum k < 2 * k + 3"
  using div_ceil_bounds [of 3 "2 * k"] by (auto simp: quorum_def)

lemma quorum_0 [simp]: "quorum 0 = 0"
  by (simp add: quorum_def)

lemma quorum_least: "quorum k \<le> q \<longleftrightarrow> 2 * k \<le> 3 * q"
  using quorum_bounds [of k] by auto

lemma quorum_le: "quorum k \<le> k"
  by (simp add: quorum_least)

lemma quorum_pos: "0 < k \<Longrightarrow> 0 < quorum k"
  using quorum_bounds(1) [of k] by linarith

lemma byzantine_bound: "0 < k \<Longrightarrow> 3 * byzantine_tolerance k + 1 \<le> k"
proof -
  assume "0 < k"
  moreover have "3 * ((k - 1) div 3) \<le> k - 1" by simp
  ultimately show ?thesis by (simp add: byzantine_tolerance_def)
qed

section \<open>Tiers\<close>

datatype tier = E0 | E1 | E2 | E3 | E4 | E5

fun tier_rank :: "tier \<Rightarrow> nat" where
  "tier_rank E0 = 0" | "tier_rank E1 = 1" | "tier_rank E2 = 2"
| "tier_rank E3 = 3" | "tier_rank E4 = 4" | "tier_rank E5 = 5"

instantiation tier :: linorder
begin
definition less_eq_tier :: "tier \<Rightarrow> tier \<Rightarrow> bool" where
  "s \<le> t \<longleftrightarrow> tier_rank s \<le> tier_rank t"
definition less_tier :: "tier \<Rightarrow> tier \<Rightarrow> bool" where
  "s < t \<longleftrightarrow> tier_rank s < tier_rank t"
instance
proof
  fix s t :: tier
  show "s \<le> t \<Longrightarrow> t \<le> s \<Longrightarrow> s = t"
    by (cases s; cases t) (simp_all add: less_eq_tier_def)
qed (auto simp: less_eq_tier_def less_tier_def)
end

definition tier_all :: "tier list" where
  "tier_all = [E0, E1, E2, E3, E4, E5]"

fun k_range :: "tier \<Rightarrow> nat \<times> nat" where
  "k_range E0 = (1, 1)"
| "k_range E1 = (2, 2)"
| "k_range E2 = (3, 5)"
| "k_range E3 = (7, 12)"
| "k_range E4 = (16, 32)"
| "k_range E5 = (33, PEER_CEILING)"

definition tier_containing :: "nat \<Rightarrow> tier option" where
  "tier_containing k = List.find (\<lambda>t. fst (k_range t) \<le> k \<and> k \<le> snd (k_range t)) tier_all"

definition largest_within :: "nat \<Rightarrow> tier option" where
  "largest_within limit = List.find (\<lambda>t. fst (k_range t) \<le> limit) (rev tier_all)"

definition k_for_limit :: "tier \<Rightarrow> nat \<Rightarrow> nat" where
  "k_for_limit t limit =
     (let (low, high) = k_range t
      in if low > limit then 0 else if high < limit then high else limit)"

definition is_blind_rederivation :: "tier \<Rightarrow> bool" where
  "is_blind_rederivation t \<longleftrightarrow> t = E0"

definition has_byzantine_tolerance :: "tier \<Rightarrow> bool" where
  "has_byzantine_tolerance t \<longleftrightarrow> byzantine_tolerance (fst (k_range t)) > 0"

definition admit :: "tier \<Rightarrow> nat \<Rightarrow> (tier \<times> nat) option" where
  "admit requested limit =
     (case largest_within limit of
        None \<Rightarrow> None
      | Some ceiling \<Rightarrow>
          (let t = min requested ceiling in Some (t, k_for_limit t limit)))"

lemmas tier_simps = less_eq_tier_def less_tier_def min_def max_def

lemma tier_containing_iff:
  "tier_containing k = Some t \<longleftrightarrow> fst (k_range t) \<le> k \<and> k \<le> snd (k_range t)"
  by (cases t) (auto simp: tier_containing_def tier_all_def PEER_CEILING_def)

lemma largest_within_None: "largest_within limit = None \<longleftrightarrow> limit = 0"
  by (auto simp: largest_within_def tier_all_def)

lemma largest_within_greatest:
  "largest_within limit = Some c \<Longrightarrow> fst (k_range t) \<le> limit \<longleftrightarrow> t \<le> c"
  by (cases t; auto simp: largest_within_def tier_all_def less_eq_tier_def split: if_splits)

lemma k_for_limit_contained:
  assumes "fst (k_range t) \<le> limit"
  shows "tier_containing (k_for_limit t limit) = Some t \<and> k_for_limit t limit \<le> limit
    \<and> k_for_limit t limit \<le> PEER_CEILING"
  using assms by (cases t) (auto simp: tier_containing_iff k_for_limit_def PEER_CEILING_def)

lemma admit_Some:
  assumes "admit requested limit = Some (t, k)"
  shows "t \<le> requested" "fst (k_range t) \<le> limit" "k = k_for_limit t limit"
    "\<And>u. u \<le> requested \<Longrightarrow> fst (k_range u) \<le> limit \<Longrightarrow> u \<le> t"
proof -
  from assms obtain c where c: "largest_within limit = Some c" and t: "t = min requested c"
    and k: "k = k_for_limit t limit"
    by (auto simp: admit_def Let_def split: option.splits)
  show "t \<le> requested" and "k = k_for_limit t limit" using t k by auto
  show "fst (k_range t) \<le> limit" using largest_within_greatest [OF c, of t] t by simp
  show "\<And>u. u \<le> requested \<Longrightarrow> fst (k_range u) \<le> limit \<Longrightarrow> u \<le> t"
    using largest_within_greatest [OF c] t by simp
qed

section \<open>Verdicts\<close>

datatype vote = Yes | No | Abstain

datatype confidence = Low | Medium | High

fun confidence_rank :: "confidence \<Rightarrow> nat" where
  "confidence_rank Low = 0" | "confidence_rank Medium = 1" | "confidence_rank High = 2"

record verdict =
  v_vote :: vote
  v_confidence :: confidence
  v_reason :: string
  v_evidence_ref :: "string option"

definition MAX_REASON_BYTES :: nat where "MAX_REASON_BYTES = 140"
definition MAX_EVIDENCE_BYTES :: nat where "MAX_EVIDENCE_BYTES = 40"

datatype verdict_error = ReasonTooLong nat | EvidenceRefTooLong nat

definition verdict_new ::
    "vote \<Rightarrow> confidence \<Rightarrow> string \<Rightarrow> string option \<Rightarrow> (verdict, verdict_error) outcome" where
  "verdict_new vote confidence reason evidence_ref =
     (if length reason > MAX_REASON_BYTES then Err (ReasonTooLong (length reason))
      else case evidence_ref of
        Some reference \<Rightarrow>
          if length reference > MAX_EVIDENCE_BYTES then Err (EvidenceRefTooLong (length reference))
          else Ok \<lparr>v_vote = vote, v_confidence = confidence, v_reason = reason,
                   v_evidence_ref = evidence_ref\<rparr>
      | None \<Rightarrow> Ok \<lparr>v_vote = vote, v_confidence = confidence, v_reason = reason,
                    v_evidence_ref = evidence_ref\<rparr>)"

text \<open>A stored verdict goes back through the constructor (\<open>TryFrom<VerdictRepr>\<close>).\<close>

definition verdict_try_from :: "verdict \<Rightarrow> (verdict, verdict_error) outcome" where
  "verdict_try_from repr =
     verdict_new (v_vote repr) (v_confidence repr) (v_reason repr) (v_evidence_ref repr)"

definition verdict_ok :: "verdict \<Rightarrow> bool" where
  "verdict_ok v \<longleftrightarrow> length (v_reason v) \<le> MAX_REASON_BYTES \<and>
     (case v_evidence_ref v of None \<Rightarrow> True | Some r \<Rightarrow> length r \<le> MAX_EVIDENCE_BYTES)"

lemma verdict_try_from_ok: "verdict_try_from v = Ok w \<longleftrightarrow> verdict_ok v \<and> w = v"
  by (auto simp: verdict_try_from_def verdict_new_def verdict_ok_def split: option.splits if_splits)

section \<open>The tally of one claim\<close>

datatype quorum_status = Open | Reached | Unreachable

record quorum_tally =
  t_k :: nat
  t_needed :: nat
  t_yes :: nat
  t_no :: nat
  t_abstain :: nat

datatype tally_error = Overfull nat

definition tally_new :: "nat \<Rightarrow> quorum_tally" where
  "tally_new k = \<lparr>t_k = k, t_needed = quorum k, t_yes = 0, t_no = 0, t_abstain = 0\<rparr>"

definition tally_pending :: "quorum_tally \<Rightarrow> nat" where
  "tally_pending t = t_k t - t_yes t - t_no t - t_abstain t"

definition is_reached :: "quorum_tally \<Rightarrow> bool" where
  "is_reached t \<longleftrightarrow> t_yes t \<ge> t_needed t"

definition is_unreachable :: "quorum_tally \<Rightarrow> bool" where
  "is_unreachable t \<longleftrightarrow> t_yes t + tally_pending t < t_needed t"

definition tally_status :: "quorum_tally \<Rightarrow> quorum_status" where
  "tally_status t =
     (if is_reached t then Reached else if is_unreachable t then Unreachable else Open)"

fun tally_count :: "vote \<Rightarrow> quorum_tally \<Rightarrow> quorum_tally" where
  "tally_count Yes t = t\<lparr>t_yes := t_yes t + 1\<rparr>"
| "tally_count No t = t\<lparr>t_no := t_no t + 1\<rparr>"
| "tally_count Abstain t = t\<lparr>t_abstain := t_abstain t + 1\<rparr>"

text \<open>\<open>record\<close> returns the status and the updated tally; an error leaves it as it was.\<close>

definition tally_record ::
    "quorum_tally \<Rightarrow> vote \<Rightarrow> (quorum_status \<times> quorum_tally, tally_error) outcome" where
  "tally_record t v =
     (if tally_pending t = 0 then Err (Overfull (t_k t))
      else let t' = tally_count v t in Ok (tally_status t', t'))"

fun tally_record_all ::
    "quorum_tally \<Rightarrow> vote list \<Rightarrow> (quorum_tally, tally_error) outcome" where
  "tally_record_all t [] = Ok t"
| "tally_record_all t (v # vs) =
     bind_outcome (tally_record t v) (\<lambda>(_, t'). tally_record_all t' vs)"

definition tally_ok :: "quorum_tally \<Rightarrow> bool" where
  "tally_ok t \<longleftrightarrow> t_needed t = quorum (t_k t) \<and> t_yes t + t_no t + t_abstain t \<le> t_k t"

lemma tally_ok_new [simp]: "tally_ok (tally_new k)"
  by (simp add: tally_ok_def tally_new_def)

lemma tally_pending_exact:
  "tally_ok t \<Longrightarrow> t_yes t + t_no t + t_abstain t + tally_pending t = t_k t"
  by (simp add: tally_ok_def tally_pending_def)

lemma tally_count_fields [simp]:
  "t_k (tally_count v t) = t_k t"
  "t_needed (tally_count v t) = t_needed t"
  "t_yes (tally_count v t) = t_yes t + (if v = Yes then 1 else 0)"
  "t_no (tally_count v t) = t_no t + (if v = No then 1 else 0)"
  "t_abstain (tally_count v t) = t_abstain t + (if v = Abstain then 1 else 0)"
  by (cases v; simp)+

lemma tally_pending_count: "tally_pending (tally_count v t) = tally_pending t - 1"
  by (cases v) (simp_all add: tally_pending_def)

lemma tally_record_Ok_iff:
  "tally_record t v = Ok (s, t') \<longleftrightarrow>
     tally_pending t \<noteq> 0 \<and> t' = tally_count v t \<and> s = tally_status t'"
  by (auto simp: tally_record_def Let_def)

lemma tally_record_ok: "tally_ok t \<Longrightarrow> tally_record t v = Ok (s, t') \<Longrightarrow> tally_ok t'"
  by (cases v) (auto simp: tally_record_Ok_iff tally_ok_def tally_pending_def)

text \<open>A run of votes succeeds exactly when there is room, and only the counts matter.\<close>

lemma tally_record_all_Ok_iff:
  "tally_record_all t vs = Ok t' \<longleftrightarrow>
     length vs \<le> tally_pending t \<and>
     t' = t\<lparr>t_yes := t_yes t + count_list vs Yes, t_no := t_no t + count_list vs No,
            t_abstain := t_abstain t + count_list vs Abstain\<rparr>"
proof (induction vs arbitrary: t)
  case Nil
  then show ?case by auto
next
  case (Cons v vs)
  show ?case
  proof (cases "tally_pending t")
    case 0
    then show ?thesis by (simp add: tally_record_def)
  next
    case (Suc n)
    then have "tally_record_all t (v # vs) = tally_record_all (tally_count v t) vs"
      by (simp add: tally_record_def Let_def)
    then show ?thesis using Cons.IH [of "tally_count v t"] Suc tally_pending_count [of v t]
      by (cases v) simp_all
  qed
qed

lemma tally_record_all_append:
  "tally_record_all t (us @ vs) = bind_outcome (tally_record_all t us) (\<lambda>t'. tally_record_all t' vs)"
  by (induction us arbitrary: t) (auto simp: tally_record_def Let_def)

lemma count_list_votes: "count_list vs Yes + count_list vs No + count_list vs Abstain = length vs"
proof (induction vs)
  case (Cons v vs)
  then show ?case by (cases v) simp_all
qed simp

lemma tally_record_all_ok: "tally_ok t \<Longrightarrow> tally_record_all t vs = Ok t' \<Longrightarrow> tally_ok t'"
  using count_list_votes [of vs]
  by (auto simp: tally_record_all_Ok_iff tally_ok_def tally_pending_def)

lemma tally_pending_record_all:
  "tally_record_all t vs = Ok t' \<Longrightarrow> tally_pending t' = tally_pending t - length vs"
  using count_list_votes [of vs]
  by (auto simp: tally_record_all_Ok_iff tally_pending_def)


lemma tally_record_all_total:
  "length vs \<le> tally_pending t \<Longrightarrow> \<exists>t'. tally_record_all t vs = Ok t'"
  by (simp add: tally_record_all_Ok_iff)

lemma tally_status_cases:
  "tally_status t = Reached \<longleftrightarrow> t_needed t \<le> t_yes t"
  "tally_status t = Unreachable \<longleftrightarrow> t_yes t + tally_pending t < t_needed t"
  "tally_status t = Open \<longleftrightarrow> t_yes t < t_needed t \<and> t_needed t \<le> t_yes t + tally_pending t"
  by (auto simp: tally_status_def is_reached_def is_unreachable_def)

lemma tally_status_mono:
  assumes "tally_record_all t vs = Ok t'"
  shows "tally_status t = Reached \<Longrightarrow> tally_status t' = Reached"
    and "tally_status t = Unreachable \<Longrightarrow> tally_status t' = Unreachable"
proof -
  from assms have len: "length vs \<le> tally_pending t"
    and t': "t_yes t' = t_yes t + count_list vs Yes" "t_needed t' = t_needed t"
    by (auto simp: tally_record_all_Ok_iff)
  have "tally_pending t' + length vs = tally_pending t"
    using tally_pending_record_all [OF assms] len by simp
  then show "tally_status t = Reached \<Longrightarrow> tally_status t' = Reached"
    and "tally_status t = Unreachable \<Longrightarrow> tally_status t' = Unreachable"
    using t' count_list_votes [of vs] by (auto simp: tally_status_cases)
qed

section \<open>Properties\<close>

text \<open>
  Agreement and availability of the threshold: the votes of two quorums of one cohort
  share more peers than the cohort tolerates faulty ones, so two quorums always share a
  correct peer; and the peers left when every tolerated fault stays silent are still a
  quorum.
\<close>

theorem quorum_intersection:
  assumes "finite P" "card P = k" "0 < k"
    and "A \<subseteq> P" "quorum k \<le> card A" "B \<subseteq> P" "quorum k \<le> card B"
  shows "byzantine_tolerance k < card (A \<inter> B) \<and> quorum k \<le> k - byzantine_tolerance k"
proof -
  have fin: "finite A" "finite B" using assms by (auto intro: finite_subset)
  have "card A + card B = card (A \<union> B) + card (A \<inter> B)" by (rule card_Un_Int [OF fin])
  moreover have "card (A \<union> B) \<le> k" using assms by (metis Un_least card_mono)
  ultimately have "2 * quorum k \<le> k + card (A \<inter> B)" using assms by linarith
  then have "k \<le> 3 * card (A \<inter> B)" using quorum_bounds(1) [of k] by linarith
  moreover have "3 * byzantine_tolerance k + 1 \<le> k" using assms by (intro byzantine_bound) simp
  ultimately show ?thesis using quorum_bounds(2) [of k] by auto
qed

theorem quorum_intersection_witness:
  "byzantine_tolerance 4 < card ({1, 2, 3} \<inter> {2, 3, 4 :: nat}) \<and>
   quorum 4 \<le> 4 - byzantine_tolerance 4"
  by (rule quorum_intersection [of "{1, 2, 3, 4 :: nat}"])
    (simp_all add: quorum_def div_ceil_def)

text \<open>
  The threshold is the exact rational \<open>ceil(2k/3)\<close>: a vote count reaches it exactly
  when it is at least two thirds of the cohort, it is a strict majority, and it never
  demands unanimity of three or more peers.
\<close>

theorem quorum_exact:
  "(quorum k \<le> q \<longleftrightarrow> 2 * k \<le> 3 * q) \<and> (0 < k \<longrightarrow> k < 2 * quorum k) \<and>
   (2 < k \<longrightarrow> quorum k < k) \<and> quorum 3 = 2"
  using quorum_least [of k q] quorum_bounds [of k] by (auto simp: quorum_def div_ceil_def)

theorem quorum_exact_witness: "(quorum 3 \<le> 2 \<longleftrightarrow> 2 * 3 \<le> 3 * (2::nat)) \<and> 3 < 2 * quorum 3 \<and> quorum 3 < 3"
  using quorum_exact [of 3 2] by simp

text \<open>
  Admission is total for a non-zero limit and only ever reduces the tier: the tier
  that runs is the greatest one that is at most the requested one and whose smallest cohort
  fits the limit, its size belongs to exactly that tier (so the sizes 6 and 13 to 15 are
  never produced), and it respects both ceilings. A zero limit admits nothing.
\<close>

theorem admit_spec:
  "(admit requested limit = None \<longleftrightarrow> limit = 0) \<and>
   (\<forall>t k. admit requested limit = Some (t, k) \<longrightarrow>
      t \<le> requested \<and> tier_containing k = Some t \<and> 0 < k \<and> k \<le> limit \<and> k \<le> PEER_CEILING \<and>
      (\<forall>u. u \<le> requested \<and> fst (k_range u) \<le> limit \<longrightarrow> u \<le> t))"
proof -
  have "admit requested limit = None \<longleftrightarrow> limit = 0"
    using largest_within_None [of limit] by (auto simp: admit_def Let_def split: option.splits)
  moreover have "0 < k" if "tier_containing k = Some t" for k t
    using that by (cases t) (auto simp: tier_containing_iff)
  ultimately show ?thesis
    using admit_Some [of requested limit] k_for_limit_contained by metis
qed

theorem admit_spec_witness:
  "admit E3 6 = Some (E2, 5) \<and> tier_containing 5 = Some E2 \<and> admit E4 14 = Some (E3, 12)"
proof -
  have *: "admit E3 6 = Some (E2, 5)" "admit E4 14 = Some (E3, 12)"
    by (simp_all add: admit_def largest_within_def tier_all_def k_for_limit_def tier_simps)
  then show ?thesis using admit_spec [of E3 6] by blast
qed

text \<open>
  C2. The tally implements its specification: after any sequence of votes that fits the
  cohort, the status is determined by the vote counts alone, as the rational comparison of
  the favourable votes with two thirds of the cohort; the order of votes is irrelevant.
\<close>

theorem tally_status_refines:
  assumes "tally_record_all (tally_new k) vs = Ok t"
  shows "tally_status t =
    (if 2 * k \<le> 3 * count_list vs Yes then Reached
     else if 3 * (k - (count_list vs No + count_list vs Abstain)) < 2 * k then Unreachable
     else Open) \<and>
    (\<forall>us. mset us = mset vs \<longrightarrow> tally_record_all (tally_new k) us = Ok t)"
proof -
  from assms have len: "length vs \<le> k"
    and t: "t_yes t = count_list vs Yes" "t_needed t = quorum k"
    by (auto simp: tally_record_all_Ok_iff tally_new_def tally_pending_def)
  have "tally_pending t = k - length vs"
    using tally_pending_record_all [OF assms] by (simp add: tally_new_def tally_pending_def)
  then have yp: "count_list vs Yes + tally_pending t = k - (count_list vs No + count_list vs Abstain)"
    using count_list_votes [of vs] len t by linarith
  have less: "\<And>q. q < quorum k \<longleftrightarrow> 3 * q < 2 * k" using quorum_least by (metis not_le)
  have "tally_status t =
    (if 2 * k \<le> 3 * count_list vs Yes then Reached
     else if 3 * (k - (count_list vs No + count_list vs Abstain)) < 2 * k then Unreachable
     else Open)"
    by (simp add: tally_status_def is_reached_def is_unreachable_def t(2) quorum_least less t(1) yp)
  moreover have "tally_record_all (tally_new k) us = Ok t" if "mset us = mset vs" for us
  proof -
    have "count_list us v = count_list vs v" for v using that by (metis count_mset)
    moreover have "length us = length vs" using that by (metis size_mset)
    ultimately show ?thesis using assms by (simp add: tally_record_all_Ok_iff)
  qed
  ultimately show ?thesis by blast
qed

theorem tally_status_refines_witness:
  "\<exists>t. tally_record_all (tally_new 3) [Yes, No, Yes] = Ok t \<and> tally_status t = Reached"
proof -
  have "length [Yes, No, Yes] \<le> tally_pending (tally_new 3)"
    by (simp add: tally_new_def tally_pending_def)
  then obtain t where t: "tally_record_all (tally_new 3) [Yes, No, Yes] = Ok t"
    using tally_record_all_total by blast
  then show ?thesis using tally_status_refines [OF t] by auto
qed

text \<open>
  Deciding early is sound and decides as soon as possible: once a claim is reached or
  unreachable no further vote changes that, while an open claim can still be carried to
  either outcome by the votes that are pending, and no claim is open once every peer voted.
\<close>

theorem tally_early_decision:
  assumes "tally_record_all (tally_new k) us = Ok t"
  shows "(\<forall>vs t'. tally_record_all t vs = Ok t' \<longrightarrow>
      (tally_status t = Reached \<longrightarrow> tally_status t' = Reached) \<and>
      (tally_status t = Unreachable \<longrightarrow> tally_status t' = Unreachable)) \<and>
    (tally_status t = Open \<longrightarrow> length us < k \<and>
      (\<exists>vs t'. tally_record_all t vs = Ok t' \<and> tally_status t' = Reached) \<and>
      (\<exists>vs t'. tally_record_all t vs = Ok t' \<and> tally_status t' = Unreachable))"
proof (intro conjI allI impI)
  fix vs t' assume "tally_record_all t vs = Ok t'"
  then show "tally_status t = Reached \<Longrightarrow> tally_status t' = Reached"
    and "tally_status t = Unreachable \<Longrightarrow> tally_status t' = Unreachable"
    by (auto dest: tally_status_mono)
next
  assume op: "tally_status t = Open"
  let ?n = "tally_pending t"
  have "?n = k - length us" using tally_pending_record_all [OF assms]
    by (simp add: tally_new_def tally_pending_def)
  with op show "length us < k" by (auto simp: tally_status_cases)
  have run: "\<exists>t'. tally_record_all t (replicate ?n v) = Ok t' \<and> tally_pending t' = 0 \<and>
      t_yes t' = t_yes t + count_list (replicate ?n v) Yes \<and> t_needed t' = t_needed t" for v
    using tally_record_all_total [of "replicate ?n v" t] tally_pending_record_all
    by (fastforce simp: tally_record_all_Ok_iff)
  note count_list_replicate [simp]
  show "\<exists>vs t'. tally_record_all t vs = Ok t' \<and> tally_status t' = Reached"
    and "\<exists>vs t'. tally_record_all t vs = Ok t' \<and> tally_status t' = Unreachable"
    using run [of Yes] run [of No] op by (force simp: tally_status_cases)+
qed

theorem tally_early_decision_witness:
  "\<exists>t. tally_record_all (tally_new 3) [No] = Ok t \<and> tally_status t = Open \<and>
    (\<exists>vs t'. tally_record_all t vs = Ok t' \<and> tally_status t' = Unreachable)"
proof -
  have "length [No] \<le> tally_pending (tally_new 3)"
    by (simp add: tally_new_def tally_pending_def)
  then obtain t where t: "tally_record_all (tally_new 3) [No] = Ok t"
    using tally_record_all_total by blast
  moreover from t have "tally_status t = Open"
    by (auto simp add: tally_record_def tally_new_def tally_pending_def tally_status_def
        is_reached_def is_unreachable_def quorum_def div_ceil_def Let_def)
  ultimately show ?thesis using tally_early_decision [OF t] by blast
qed

end
