(* ===== verification/Estimate.thy ===== *)
theory Estimate
  imports Cohort
begin

text \<open>
  \<open>crates/supra_cohort\<close>: signal bands, the ladder that turns evidence into a tier, the
  admission record, escalation, and task profiles. \<open>Reversibility\<close> is declared here
  because the ladder is its first user; the permission model builds on it.
\<close>

section \<open>Reversibility classes\<close>

datatype reversibility = R0 | R1 | R2 | R3

fun reversibility_rank :: "reversibility \<Rightarrow> nat" where
  "reversibility_rank R0 = 0" | "reversibility_rank R1 = 1"
| "reversibility_rank R2 = 2" | "reversibility_rank R3 = 3"

instantiation reversibility :: linorder
begin
definition less_eq_reversibility :: "reversibility \<Rightarrow> reversibility \<Rightarrow> bool" where
  "x \<le> y \<longleftrightarrow> reversibility_rank x \<le> reversibility_rank y"
definition less_reversibility :: "reversibility \<Rightarrow> reversibility \<Rightarrow> bool" where
  "x < y \<longleftrightarrow> reversibility_rank x < reversibility_rank y"
instance
proof
  fix x y :: reversibility
  show "x \<le> y \<Longrightarrow> y \<le> x \<Longrightarrow> x = y"
    by (cases x; cases y) (simp_all add: less_eq_reversibility_def)
qed (auto simp: less_eq_reversibility_def less_reversibility_def)
end

section \<open>Signal bands\<close>

datatype blast_band = Isolated | Contained | Wide
datatype churn_band = Calm | Active | Hot
datatype anchor_band = NoAnchors | Few | Many

definition blast_of :: "nat \<Rightarrow> blast_band" where
  "blast_of dependents =
     (if dependents \<le> 1 then Isolated else if dependents \<le> 10 then Contained else Wide)"

definition churn_of :: "nat \<Rightarrow> churn_band" where
  "churn_of commits = (if commits = 0 then Calm else if commits \<le> 5 then Active else Hot)"

definition anchor_of :: "nat \<Rightarrow> anchor_band" where
  "anchor_of anchors = (if anchors = 0 then NoAnchors else if anchors \<le> 4 then Few else Many)"

fun blast_rank :: "blast_band \<Rightarrow> nat" where
  "blast_rank Isolated = 0" | "blast_rank Contained = 1" | "blast_rank Wide = 2"

fun churn_rank :: "churn_band \<Rightarrow> nat" where
  "churn_rank Calm = 0" | "churn_rank Active = 1" | "churn_rank Hot = 2"

fun anchor_rank :: "anchor_band \<Rightarrow> nat" where
  "anchor_rank NoAnchors = 0" | "anchor_rank Few = 1" | "anchor_rank Many = 2"

record signals =
  s_blast :: blast_band
  s_churn :: churn_band
  s_anchors :: anchor_band
  s_reversibility :: reversibility
  s_active_findings :: nat
  s_repeat_failures :: nat

definition signals_minimal :: signals where
  "signals_minimal = \<lparr>s_blast = Isolated, s_churn = Calm, s_anchors = NoAnchors,
     s_reversibility = R0, s_active_findings = 0, s_repeat_failures = 0\<rparr>"

section \<open>Sensitive areas\<close>

record area_flags =
  sensitive_area :: bool
  force_full :: bool

definition area_none :: area_flags where
  "area_none = \<lparr>sensitive_area = False, force_full = False\<rparr>"

text \<open>
  \<open>to_lowercase\<close> on the ASCII letters. The full Unicode mapping produces an ASCII letter
  from a non-ASCII character only for the Kelvin sign and for the dotted capital I (which
  leaves a combining dot behind), and neither can complete one of the words below, so the
  comparison has the same result.
\<close>

definition ascii_lower :: "char \<Rightarrow> char" where
  "ascii_lower c = (let n = of_char c :: nat in if 65 \<le> n \<and> n \<le> 90 then char_of (n + 32) else c)"

fun split_on :: "(char \<Rightarrow> bool) \<Rightarrow> string \<Rightarrow> string list" where
  "split_on p [] = [[]]"
| "split_on p (c # cs) =
     (if p c then [] # split_on p cs
      else case split_on p cs of [] \<Rightarrow> [[c]] | w # ws \<Rightarrow> (c # w) # ws)"

definition sensitive_component :: "string \<Rightarrow> bool" where
  "sensitive_component component =
     (let lower = map ascii_lower component;
          stem = (case strip_suffix ''.rs'' lower of
                    Some s \<Rightarrow> s
                  | None \<Rightarrow> (case strip_suffix ''.ts'' lower of Some s \<Rightarrow> s | None \<Rightarrow> lower));
          stem = (case strip_suffix ''.py'' stem of Some s \<Rightarrow> s | None \<Rightarrow> stem)
      in stem = ''auth'' \<or> stem = ''crypto'' \<or> starts_with ''migrat'' stem)"

definition area_of_paths :: "string list \<Rightarrow> area_flags" where
  "area_of_paths paths =
     \<lparr>sensitive_area = list_ex (\<lambda>path.
        list_ex sensitive_component
          (filter (\<lambda>c. c \<noteq> []) (split_on (\<lambda>c. c = CHR ''/'' \<or> c = CHR 0x5C) path))) paths,
      force_full = False\<rparr>"

section \<open>The ladder\<close>

definition estimate :: "signals \<Rightarrow> area_flags \<Rightarrow> tier" where
  "estimate signals areas =
     (let t = E0;
          t = (if force_full areas \<or> s_repeat_failures signals \<ge> 2 then max t E5 else t);
          t = (if sensitive_area areas \<or> s_active_findings signals > 0 then max t E4 else t);
          t = (if s_blast signals = Wide \<or> s_churn signals = Hot then max t E3 else t);
          t = (if s_blast signals = Contained \<or> s_anchors signals = Many \<or>
                  s_churn signals = Active \<or> s_reversibility signals = R3
               then max t E2 else t);
          t = (if s_reversibility signals \<ge> R1 \<or> s_anchors signals = Few then max t E1 else t)
      in t)"

section \<open>Admission and escalation\<close>

record admission =
  a_requested :: tier
  a_tier :: tier
  a_k :: nat
  a_needed :: nat
  a_faulty :: nat
  a_shards :: nat
  a_limit :: nat

definition admission_decide :: "tier \<Rightarrow> nat \<Rightarrow> admission option" where
  "admission_decide requested limit =
     (case admit requested limit of
        None \<Rightarrow> None
      | Some (t, k) \<Rightarrow>
          Some \<lparr>a_requested = requested, a_tier = t, a_k = k, a_needed = quorum k,
                a_faulty = byzantine_tolerance k, a_shards = shards_needed k, a_limit = limit\<rparr>)"

definition admission_reduced :: "admission \<Rightarrow> bool" where
  "admission_reduced a \<longleftrightarrow> tier_rank (a_tier a) \<noteq> tier_rank (a_requested a)"

datatype escalation = UnreachableQuorum | BlindMismatch | FindingConfirmed

fun insufficient_next :: "tier \<Rightarrow> tier" where
  "insufficient_next E0 = E2" | "insufficient_next E1 = E2"
| "insufficient_next E2 = E3" | "insufficient_next E3 = E4"
| "insufficient_next E4 = E5" | "insufficient_next E5 = E5"

fun finding_next :: "tier \<Rightarrow> tier" where
  "finding_next E0 = E1" | "finding_next E1 = E2" | "finding_next E2 = E3"
| "finding_next E3 = E4" | "finding_next E4 = E5" | "finding_next E5 = E5"

fun next_tier :: "escalation \<Rightarrow> tier \<Rightarrow> tier" where
  "next_tier UnreachableQuorum current = insufficient_next current"
| "next_tier BlindMismatch current = insufficient_next current"
| "next_tier FindingConfirmed current = finding_next current"

section \<open>Task profiles\<close>

record task_shape =
  tool_classes :: "string list"
  areas :: "string list"
  shape_reversibility :: string

text \<open>\<open>chars().count()\<close>: the bytes of a UTF-8 string that are not continuation bytes.\<close>

definition is_continuation :: "char \<Rightarrow> bool" where
  "is_continuation c \<longleftrightarrow> 128 \<le> (of_char c :: nat) \<and> (of_char c :: nat) < 192"

definition char_count :: "string \<Rightarrow> nat" where
  "char_count s = length (filter (\<lambda>c. \<not> is_continuation c) s)"

fun encode_values :: "string list \<Rightarrow> string" where
  "encode_values [] = []"
| "encode_values (v # vs) =
     show_nat (char_count v) @ '':'' @ v @ '','' @ encode_values vs"

definition shape_key :: "task_shape \<Rightarrow> string" where
  "shape_key s = encode_values (tool_classes s) @ ''|'' @ encode_values (areas s) @ ''|'' @
     encode_values [shape_reversibility s]"

record task_profile =
  p_repeat_failures :: nat
  p_last_tier :: tier

definition profile_fresh :: task_profile where
  "profile_fresh = \<lparr>p_repeat_failures = 0, p_last_tier = E0\<rparr>"

definition profile_succeeded :: "task_profile \<Rightarrow> tier \<Rightarrow> task_profile" where
  "profile_succeeded p t = p\<lparr>p_repeat_failures := 0, p_last_tier := t\<rparr>"

definition profile_failed :: "task_profile \<Rightarrow> tier \<Rightarrow> task_profile" where
  "profile_failed p t =
     p\<lparr>p_repeat_failures := (if p_repeat_failures p \<ge> 2 then 2 else p_repeat_failures p + 1),
       p_last_tier := t\<rparr>"

section \<open>Lemmas\<close>

lemma le_if_max: "(u :: tier) \<le> (if b then max t v else t) \<longleftrightarrow> u \<le> t \<or> b \<and> u \<le> v"
  by (simp add: le_max_iff_disj)

lemma R1_le: "R1 \<le> x \<longleftrightarrow> x \<noteq> R0"
  by (cases x) (simp_all add: less_eq_reversibility_def)

lemma estimate_ge:
  "estimate s a \<ge> E5 \<longleftrightarrow> force_full a \<or> s_repeat_failures s \<ge> 2"
  "estimate s a \<ge> E4 \<longleftrightarrow> estimate s a \<ge> E5 \<or> sensitive_area a \<or> s_active_findings s > 0"
  "estimate s a \<ge> E3 \<longleftrightarrow> estimate s a \<ge> E4 \<or> s_blast s = Wide \<or> s_churn s = Hot"
  "estimate s a \<ge> E2 \<longleftrightarrow> estimate s a \<ge> E3 \<or> s_blast s = Contained \<or> s_anchors s = Many \<or>
     s_churn s = Active \<or> s_reversibility s = R3"
  "estimate s a \<ge> E1 \<longleftrightarrow> estimate s a \<ge> E2 \<or> s_reversibility s \<noteq> R0 \<or> s_anchors s = Few"
  unfolding estimate_def Let_def le_if_max R1_le by (simp_all add: less_eq_tier_def)

lemma tier_le_iff_all:
  "(s :: tier) \<le> t \<longleftrightarrow> (\<forall>u \<in> {E1, E2, E3, E4, E5}. u \<le> s \<longrightarrow> u \<le> t)"
  by (cases s; cases t) (simp_all add: less_eq_tier_def)

lemma char_count_append [simp]: "char_count (s @ t) = char_count s + char_count t"
  by (simp add: char_count_def)

lemma comma_split:
  assumes "char_count v = char_count w" "v @ CHR '','' # r = w @ CHR '','' # s"
  shows "v = w \<and> r = s"
proof -
  have comma: "char_count (CHR '','' # t) = Suc (char_count t)" for t
    by (simp add: char_count_def is_continuation_def)
  from assms(2) obtain u where
    u: "v = w @ u \<and> u @ CHR '','' # r = CHR '','' # s \<or> w = v @ u \<and> CHR '','' # r = u @ CHR '','' # s"
    by (auto simp: append_eq_append_conv2)
  then have "u = []"
    using assms(1) by (cases u) (auto simp: comma)
  with u show ?thesis by auto
qed

definition no_digit_head :: "string \<Rightarrow> bool" where
  "no_digit_head s \<longleftrightarrow> s = [] \<or> \<not> is_digit (hd s)"

lemma show_nat_head: "is_digit (hd (show_nat n))"
  using show_nat_digits [of n] by (cases "show_nat n") auto

lemma encode_values_split:
  "encode_values vs @ r = encode_values ws @ s \<Longrightarrow> no_digit_head r \<Longrightarrow> no_digit_head s \<Longrightarrow>
   vs = ws \<and> r = s"
proof (induction vs arbitrary: ws)
  case Nil
  show ?case
  proof (cases ws)
    case Nil
    then show ?thesis using Nil.prems by simp
  next
    case (Cons w ws')
    then have "r = show_nat (char_count w) @ '':'' @ w @ '','' @ encode_values ws' @ s"
      using Nil.prems(1) by simp
    then have "r \<noteq> []" "is_digit (hd r)" by (simp_all add: show_nat_head)
    then show ?thesis using Nil.prems(2) by (simp add: no_digit_head_def)
  qed
next
  case (Cons v vs)
  note eq = Cons.prems(1)
  show ?case
  proof (cases ws)
    case Nil
    then have "s = show_nat (char_count v) @ '':'' @ v @ '','' @ encode_values vs @ r"
      using eq by simp
    then have "s \<noteq> []" "is_digit (hd s)" by (simp_all add: show_nat_head)
    then show ?thesis using Cons.prems(3) by (simp add: no_digit_head_def)
  next
    case (Cons w ws')
    have colon: "\<not> is_digit CHR '':''" by (simp add: is_digit_def)
    have "show_nat (char_count v) @ CHR '':'' # (v @ CHR '','' # encode_values vs @ r) =
        show_nat (char_count w) @ CHR '':'' # (w @ CHR '','' # encode_values ws' @ s)"
      using eq Cons by simp
    then have *: "show_nat (char_count v) = show_nat (char_count w)"
      "v @ CHR '','' # encode_values vs @ r = w @ CHR '','' # encode_values ws' @ s"
      using digits_split [OF show_nat_digits show_nat_digits colon colon] by blast+
    then have "char_count v = char_count w" by (simp add: show_nat_inj)
    from comma_split [OF this *(2)] show ?thesis using Cons.IH Cons.prems Cons by blast
  qed
qed

lemma next_tier_gt: "t \<noteq> E5 \<Longrightarrow> t < next_tier e t"
  by (cases e; cases t) (simp_all add: less_tier_def)

section \<open>Properties\<close>

text \<open>
  The ladder composes by maximum: a tier at least \<open>t\<close> is estimated exactly when some
  rule whose floor is at least \<open>t\<close> matches, so the result does not depend on the order of
  the rules.
\<close>

theorem estimate_characterised:
  "(E5 \<le> estimate s a \<longleftrightarrow> force_full a \<or> 2 \<le> s_repeat_failures s) \<and>
   (E4 \<le> estimate s a \<longleftrightarrow> E5 \<le> estimate s a \<or> sensitive_area a \<or> 0 < s_active_findings s) \<and>
   (E3 \<le> estimate s a \<longleftrightarrow> E4 \<le> estimate s a \<or> s_blast s = Wide \<or> s_churn s = Hot) \<and>
   (E2 \<le> estimate s a \<longleftrightarrow> E3 \<le> estimate s a \<or> s_blast s = Contained \<or> s_anchors s = Many \<or>
      s_churn s = Active \<or> s_reversibility s = R3) \<and>
   (E1 \<le> estimate s a \<longleftrightarrow> E2 \<le> estimate s a \<or> R1 \<le> s_reversibility s \<or> s_anchors s = Few)"
  unfolding R1_le by (intro conjI) (rule estimate_ge)+

text \<open>
  More evidence never lowers the tier: if every signal of one task is at least the
  corresponding signal of another, so is the estimate.
\<close>

theorem estimate_mono:
  assumes "blast_rank (s_blast s) \<le> blast_rank (s_blast t)"
    and "churn_rank (s_churn s) \<le> churn_rank (s_churn t)"
    and "anchor_rank (s_anchors s) \<le> anchor_rank (s_anchors t)"
    and "s_reversibility s \<le> s_reversibility t"
    and "s_active_findings s \<le> s_active_findings t"
    and "s_repeat_failures s \<le> s_repeat_failures t"
    and "sensitive_area a \<longrightarrow> sensitive_area b" "force_full a \<longrightarrow> force_full b"
  shows "estimate s a \<le> estimate t b"
proof -
  have b: "s_blast s = Wide \<Longrightarrow> s_blast t = Wide"
    "s_blast s = Contained \<Longrightarrow> s_blast t = Contained \<or> s_blast t = Wide"
    using assms(1) by (cases "s_blast t"; simp)+
  have c: "s_churn s = Hot \<Longrightarrow> s_churn t = Hot"
    "s_churn s = Active \<Longrightarrow> s_churn t = Active \<or> s_churn t = Hot"
    using assms(2) by (cases "s_churn t"; simp)+
  have n: "s_anchors s = Many \<Longrightarrow> s_anchors t = Many"
    "s_anchors s = Few \<Longrightarrow> s_anchors t = Few \<or> s_anchors t = Many"
    using assms(3) by (cases "s_anchors t"; simp)+
  have r: "s_reversibility s = R3 \<Longrightarrow> s_reversibility t = R3"
    "s_reversibility s \<noteq> R0 \<Longrightarrow> s_reversibility t \<noteq> R0"
    using assms(4) by (cases "s_reversibility s"; cases "s_reversibility t";
        simp add: less_eq_reversibility_def)+
  have 5: "E5 \<le> estimate s a \<Longrightarrow> E5 \<le> estimate t b"
    using assms(6,8) by (auto simp: estimate_ge(1))
  have 4: "E4 \<le> estimate s a \<Longrightarrow> E4 \<le> estimate t b"
    using 5 assms(5,7) by (auto simp: estimate_ge(2))
  have 3: "E3 \<le> estimate s a \<Longrightarrow> E3 \<le> estimate t b"
    using 4 b c by (auto simp: estimate_ge(3))
  have 2: "E2 \<le> estimate s a \<Longrightarrow> E2 \<le> estimate t b"
    using 3 b c n r estimate_ge(3) [of t b] by (auto simp: estimate_ge(4))
  have "E1 \<le> estimate s a \<Longrightarrow> E1 \<le> estimate t b"
    using 2 n r estimate_ge(4) [of t b] by (auto simp: estimate_ge(5))
  with 5 4 3 2 show ?thesis by (subst tier_le_iff_all) auto
qed

theorem estimate_mono_witness:
  "estimate signals_minimal area_none \<le>
   estimate (signals_minimal\<lparr>s_blast := Contained\<rparr>) area_none"
  by (rule estimate_mono) (simp_all add: signals_minimal_def)

text \<open>
  The shape key is injective: no two task shapes share a key, whatever delimiters
  their fields contain, because every field is preceded by its length in characters.
\<close>

theorem shape_key_injective: "shape_key s = shape_key t \<longleftrightarrow> s = t"
proof
  assume eq: "shape_key s = shape_key t"
  have bar: "no_digit_head (CHR ''|'' # r)" for r by (simp add: no_digit_head_def is_digit_def)
  from eq have 1: "tool_classes s = tool_classes t \<and>
      CHR ''|'' # encode_values (areas s) @ CHR ''|'' # encode_values [shape_reversibility s] =
      CHR ''|'' # encode_values (areas t) @ CHR ''|'' # encode_values [shape_reversibility t]"
    using bar by (intro encode_values_split) (simp_all add: shape_key_def)
  then have 2: "areas s = areas t \<and>
      CHR ''|'' # encode_values [shape_reversibility s] = CHR ''|'' # encode_values [shape_reversibility t]"
    using bar by (intro encode_values_split) simp_all
  then have "encode_values [shape_reversibility s] @ [] = encode_values [shape_reversibility t] @ []"
    by simp
  then have "[shape_reversibility s] = [shape_reversibility t] \<and> [] = ([] :: string)"
    by (rule encode_values_split) (simp_all add: no_digit_head_def)
  with 1 2 show "s = t" by simp
qed simp

text \<open>
  Escalation makes progress and stops: every trigger raises the tier strictly until it
  saturates at E5, an unreachable quorum or a blind mismatch earns at least E2, and five
  escalations of any kinds from any tier reach E5.
\<close>

theorem escalation_progress:
  "t \<le> next_tier e t \<and> (t \<noteq> E5 \<longrightarrow> t < next_tier e t) \<and> next_tier e E5 = E5 \<and>
   (e \<noteq> FindingConfirmed \<longrightarrow> E2 \<le> next_tier e t) \<and>
   (length es = 5 \<longrightarrow> fold next_tier es t = E5)"
proof -
  have rank: "min 5 (tier_rank t + length es) \<le> tier_rank (fold next_tier es t)" for es and t
  proof (induction es arbitrary: t)
    case Nil
    then show ?case by simp
  next
    case (Cons e es)
    have "min 5 (tier_rank t + 1) \<le> tier_rank (next_tier e t)"
      by (cases e; cases t) simp_all
    with Cons.IH [of "next_tier e t"] show ?case by simp
  qed
  have "length es = 5 \<Longrightarrow> fold next_tier es t = E5"
    using rank [where es = es and t = t] by (cases "fold next_tier es t") simp_all
  then show ?thesis using next_tier_gt [of t e]
    by (cases e; cases t) (simp_all add: less_eq_tier_def less_tier_def)
qed

theorem escalation_progress_witness:
  "E1 < next_tier UnreachableQuorum E1 \<and>
   fold next_tier (replicate 5 FindingConfirmed) E0 = E5"
  using escalation_progress [of E1 UnreachableQuorum]
    escalation_progress [of E0 FindingConfirmed "replicate 5 FindingConfirmed"] by simp

text \<open>
  Repeated failure escalates a task shape to full scrutiny and one success lifts it:
  after any history the recorded failures are the consecutive ones capped at two, and two
  of them, fed to the ladder, earn E5 whatever else the task shows.
\<close>

theorem profile_escalates:
  assumes "s_repeat_failures s = p_repeat_failures (profile_failed (profile_failed p t) u)"
  shows "estimate s a = E5 \<and>
    p_repeat_failures (profile_failed (profile_failed p t) u) = 2 \<and>
    p_repeat_failures (profile_failed (profile_succeeded p t) u) = 1"
proof -
  have two: "p_repeat_failures (profile_failed (profile_failed p t) u) = 2"
    by (auto simp: profile_failed_def)
  then have "E5 \<le> estimate s a" using assms estimate_ge(1) by simp
  then have "estimate s a = E5" by (cases "estimate s a") (simp_all add: less_eq_tier_def)
  with two show ?thesis by (simp add: profile_failed_def profile_succeeded_def)
qed

theorem profile_escalates_witness:
  "estimate (signals_minimal\<lparr>s_repeat_failures := 2\<rparr>) area_none = E5"
  using profile_escalates [of "signals_minimal\<lparr>s_repeat_failures := 2\<rparr>" profile_fresh E0 E0 area_none]
  by (simp add: profile_failed_def profile_fresh_def)

section \<open>Divergences from the documentation\<close>

text \<open>
  The tier table puts a blast radius of two in E1, the bands put it in E2; and the
  documentation of \<open>AreaFlags\<close> says paths are matched by substring, while
  \<open>area_of_paths\<close> matches whole components.
\<close>

lemma blast_two_is_E2: "E2 \<le> estimate (s\<lparr>s_blast := blast_of 2\<rparr>) a"
  using estimate_ge(4) [of "s\<lparr>s_blast := blast_of 2\<rparr>" a] by (simp add: blast_of_def)

lemma author_is_not_sensitive:
  "\<not> sensitive_area (area_of_paths [''src/author.rs'']) \<and> sensitive_area (area_of_paths [''src/Auth.rs''])"
  by code_simp

end
