(* ===== verification/Permission.thy ===== *)
theory Permission
  imports Estimate
begin

text \<open>
  The permission model: the two axes and the mode matrix of
  \<open>crates/supra_types/src/permission.rs\<close>, the effect catalogue of
  \<open>crates/supra_permission/src/catalogue.rs\<close>, and the gate with its batched questions
  of \<open>crates/supra_permission/src/gate.rs\<close>.
\<close>

section \<open>Authority\<close>

datatype invoker = Inv_Agent | Inv_Host | Inv_User
datatype tool_class = TC_Agent | TC_Host | TC_User

fun invoker_rank :: "invoker \<Rightarrow> nat" where
  "invoker_rank Inv_Agent = 0" | "invoker_rank Inv_Host = 1" | "invoker_rank Inv_User = 2"

fun class_rank :: "tool_class \<Rightarrow> nat" where
  "class_rank TC_Agent = 0" | "class_rank TC_Host = 1" | "class_rank TC_User = 2"

definition permits :: "tool_class \<Rightarrow> invoker \<Rightarrow> bool" where
  "permits c i \<longleftrightarrow> class_rank c \<le> invoker_rank i"

section \<open>Consent\<close>

fun damped :: "reversibility \<Rightarrow> reversibility" where
  "damped R0 = R0" | "damped R1 = R0" | "damped R2 = R1" | "damped R3 = R2"

datatype decision = D_Run | D_Prompt | D_Refuse

datatype mode = Plan | Ask_Mode | Auto | Yolo

fun mode_label :: "mode \<Rightarrow> string" where
  "mode_label Plan = ''plan''" | "mode_label Ask_Mode = ''ask''"
| "mode_label Auto = ''auto''" | "mode_label Yolo = ''yolo''"

fun mode_decide :: "mode \<Rightarrow> reversibility \<Rightarrow> decision" where
  "mode_decide Plan r = (case r of R0 \<Rightarrow> D_Run | R1 \<Rightarrow> D_Refuse | R2 \<Rightarrow> D_Refuse | R3 \<Rightarrow> D_Refuse)"
| "mode_decide Ask_Mode r = (case r of R0 \<Rightarrow> D_Run | R1 \<Rightarrow> D_Prompt | R2 \<Rightarrow> D_Prompt | R3 \<Rightarrow> D_Prompt)"
| "mode_decide Auto r = (case r of R3 \<Rightarrow> D_Prompt | R0 \<Rightarrow> D_Run | R1 \<Rightarrow> D_Run | R2 \<Rightarrow> D_Run)"
| "mode_decide Yolo r = D_Run"

definition decide :: "tool_class \<Rightarrow> invoker \<Rightarrow> mode \<Rightarrow> reversibility \<Rightarrow> decision" where
  "decide class invoker mode reversibility =
     (if \<not> permits class invoker then D_Refuse else mode_decide mode reversibility)"

section \<open>Rules\<close>

datatype rule_source = Src_Builtin | Src_User | Src_Project | Src_Cli | Src_Session

fun rule_source_rank :: "rule_source \<Rightarrow> nat" where
  "rule_source_rank Src_Builtin = 0" | "rule_source_rank Src_User = 1"
| "rule_source_rank Src_Project = 2" | "rule_source_rank Src_Cli = 3"
| "rule_source_rank Src_Session = 4"

fun rule_source_text :: "rule_source \<Rightarrow> string" where
  "rule_source_text Src_Builtin = ''builtin''" | "rule_source_text Src_User = ''user''"
| "rule_source_text Src_Project = ''project''" | "rule_source_text Src_Cli = ''cli''"
| "rule_source_text Src_Session = ''session''"

datatype rule_effect = Allow | Deny

record rule =
  r_source :: rule_source
  r_effect :: rule_effect

definition resolve :: "rule list \<Rightarrow> rule_effect option" where
  "resolve rules =
     (if list_ex (\<lambda>r. r_effect r = Deny) rules then Some Deny
      else map_option r_effect
        (max_by_key (\<lambda>r. rule_source_rank (r_source r)) (filter (\<lambda>r. r_effect r = Allow) rules)))"

section \<open>The effect catalogue\<close>

datatype recovery_basis = Snapshot | GitClean

datatype effect =
    Eff_Read
  | ScratchWork
  | RecoverableEdit recovery_basis
  | StructuralEdit recovery_basis
  | BlindEdit
  | OutsideEdit string
  | NetworkPost string
  | ForcePush string
  | Eff_Remove string
  | DropData string
  | EscapeHatch string

fun effect_reversibility :: "effect \<Rightarrow> reversibility" where
  "effect_reversibility Eff_Read = R0"
| "effect_reversibility ScratchWork = R0"
| "effect_reversibility (RecoverableEdit _) = R1"
| "effect_reversibility (StructuralEdit _) = R1"
| "effect_reversibility BlindEdit = R2"
| "effect_reversibility (OutsideEdit _) = R2"
| "effect_reversibility (NetworkPost _) = R3"
| "effect_reversibility (ForcePush _) = R3"
| "effect_reversibility (Eff_Remove _) = R3"
| "effect_reversibility (DropData _) = R3"
| "effect_reversibility (EscapeHatch _) = R3"

fun is_structural :: "effect \<Rightarrow> bool" where
  "is_structural (StructuralEdit _) = True"
| "is_structural _ = False"

fun is_escape_hatch :: "effect \<Rightarrow> bool" where
  "is_escape_hatch (EscapeHatch _) = True"
| "is_escape_hatch _ = False"

fun effect_display :: "effect \<Rightarrow> string" where
  "effect_display Eff_Read = ''read''"
| "effect_display ScratchWork = ''scratch work''"
| "effect_display (RecoverableEdit Snapshot) = ''edit (journal snapshot)''"
| "effect_display (RecoverableEdit GitClean) = ''edit (git clean)''"
| "effect_display (StructuralEdit Snapshot) = ''structural splice (journal snapshot)''"
| "effect_display (StructuralEdit GitClean) = ''structural splice (git clean)''"
| "effect_display BlindEdit = ''edit (no safety net)''"
| "effect_display (OutsideEdit path) = ''edit outside the index: '' @ path"
| "effect_display (NetworkPost target) = ''network POST: '' @ target"
| "effect_display (ForcePush target) = ''force-push: '' @ target"
| "effect_display (Eff_Remove target) = ''remove: '' @ target"
| "effect_display (DropData target) = ''drop data: '' @ target"
| "effect_display (EscapeHatch what) = ''disable '' @ what"

section \<open>The gate\<close>

record request =
  q_effect :: effect
  q_class :: tool_class
  q_invoker :: invoker
  q_summary :: string

datatype ask_reason = Matrix | EscapeHatchAsk

datatype refuse_reason =
    RuleRefusal rule_source
  | Authority
  | PlanRefusal
  | NotAnswered string

datatype gate_outcome = Run | Ask request ask_reason | Refuse refuse_reason

definition gate :: "request \<Rightarrow> mode \<Rightarrow> rule list \<Rightarrow> gate_outcome" where
  "gate request mode rules =
     (let resolved = resolve rules in
      if resolved = Some Deny then
        Refuse (RuleRefusal
          (case List.find (\<lambda>r. r_effect r = Deny) rules of
             None \<Rightarrow> Src_Builtin | Some r \<Rightarrow> r_source r))
      else if \<not> permits (q_class request) (q_invoker request) then Refuse Authority
      else if is_escape_hatch (q_effect request) then Ask request EscapeHatchAsk
      else if resolved = Some Allow then Run
      else
        let reversibility =
          (if is_structural (q_effect request)
           then damped (effect_reversibility (q_effect request))
           else effect_reversibility (q_effect request))
        in case decide (q_class request) (q_invoker request) mode reversibility of
             D_Run \<Rightarrow> Run
           | D_Prompt \<Rightarrow> Ask request Matrix
           | D_Refuse \<Rightarrow> Refuse PlanRefusal)"

section \<open>Batched questions\<close>

datatype permission_error = Denied rule_source | EmptyBatch

type_synonym batch = "request list"

definition batch_collect :: "gate_outcome list \<Rightarrow> (batch, permission_error) outcome" where
  "batch_collect outcomes =
     (let items = List.map_filter (\<lambda>q. case q of Ask request _ \<Rightarrow> Some request | _ \<Rightarrow> None) outcomes
      in if items = [] then Err EmptyBatch else Ok items)"

text \<open>The answers are padded with \<open>false\<close>, as the infinite \<open>repeat\<close> chained to them does.\<close>

definition batch_resolve :: "batch \<Rightarrow> bool list \<Rightarrow> gate_outcome list" where
  "batch_resolve items answers =
     map (\<lambda>(request, answer). if answer then Run else Refuse (NotAnswered (q_summary request)))
       (zip items (answers @ replicate (length items) False))"

section \<open>Lemmas\<close>

lemma resolve_simps:
  "resolve rules = Some Deny \<longleftrightarrow> (\<exists>r \<in> set rules. r_effect r = Deny)"
  "resolve rules = Some Allow \<longleftrightarrow>
     (\<forall>r \<in> set rules. r_effect r = Allow) \<and> rules \<noteq> []"
  "resolve rules = None \<longleftrightarrow> rules = []"
proof -
  have all: "\<not> list_ex (\<lambda>r. r_effect r = Deny) rs \<longleftrightarrow> (\<forall>r \<in> set rs. r_effect r = Allow)" for rs
    by (auto simp: list_ex_iff) (metis rule_effect.exhaust)
  show "resolve rules = Some Deny \<longleftrightarrow> (\<exists>r \<in> set rules. r_effect r = Deny)"
    by (auto simp: resolve_def list_ex_iff dest: max_by_key_Some)
  show "resolve rules = Some Allow \<longleftrightarrow> (\<forall>r \<in> set rules. r_effect r = Allow) \<and> rules \<noteq> []"
  proof (cases "list_ex (\<lambda>r. r_effect r = Deny) rules")
    case True
    then show ?thesis using all by (auto simp: resolve_def)
  next
    case False
    then have "\<forall>r \<in> set rules. r_effect r = Allow" by (rule all [THEN iffD1])
    then have "filter (\<lambda>r. r_effect r = Allow) rules = rules" by (rule filter_True)
    moreover have "r_effect m = Allow" if "max_by_key f rules = Some m" for f :: "rule \<Rightarrow> nat" and m
      using max_by_key_Some [OF that] False all by blast
    ultimately show ?thesis using False all [of rules]
      by (cases rules) (auto simp: resolve_def max_by_key_def)
  qed
  show "resolve rules = None \<longleftrightarrow> rules = []"
    using all [of rules] by (auto simp: resolve_def filter_empty_conv split: if_splits)
qed

lemma gate_cases:
  "gate q m rules =
     (if \<exists>r \<in> set rules. r_effect r = Deny then
        Refuse (RuleRefusal (r_source (the (List.find (\<lambda>r. r_effect r = Deny) rules))))
      else if \<not> permits (q_class q) (q_invoker q) then Refuse Authority
      else if is_escape_hatch (q_effect q) then Ask q EscapeHatchAsk
      else if rules \<noteq> [] then Run
      else case mode_decide m (if is_structural (q_effect q) then damped (effect_reversibility (q_effect q))
                               else effect_reversibility (q_effect q)) of
             D_Run \<Rightarrow> Run | D_Prompt \<Rightarrow> Ask q Matrix | D_Refuse \<Rightarrow> Refuse PlanRefusal)"
proof (cases "\<exists>r \<in> set rules. r_effect r = Deny")
  case True
  then have "List.find (\<lambda>r. r_effect r = Deny) rules \<noteq> None" by (auto simp: find_None_iff)
  then show ?thesis using True by (auto simp: gate_def resolve_simps)
next
  case False
  then have "\<forall>r \<in> set rules. r_effect r = Allow" by (metis rule_effect.exhaust)
  then show ?thesis using False
    by (simp add: gate_def resolve_simps(1,2) decide_def Let_def cong: if_cong)
qed

section \<open>Properties\<close>

text \<open>
  The documented consent of each mode, by effect: Plan and Ask run what has no side effect, Auto runs
  what can be undone, Yolo runs everything.
\<close>

fun side_effect_free :: "effect \<Rightarrow> bool" where
  "side_effect_free Eff_Read = True"
| "side_effect_free ScratchWork = True"
| "side_effect_free _ = False"

fun irreversible :: "effect \<Rightarrow> bool" where
  "irreversible (NetworkPost _) = True"
| "irreversible (ForcePush _) = True"
| "irreversible (Eff_Remove _) = True"
| "irreversible (DropData _) = True"
| "irreversible (EscapeHatch _) = True"
| "irreversible _ = False"

fun consents :: "mode \<Rightarrow> effect \<Rightarrow> bool" where
  "consents Plan e = side_effect_free e"
| "consents Ask_Mode e = side_effect_free e"
| "consents Auto e = (\<not> irreversible e)"
| "consents Yolo e = True"

text \<open>
  C1. What the gate lets run without a question: exactly the requests no rule denies, whose
  caller holds the authority of the tool's class, that do not ask a guard to step aside,
  and that are either pre-granted by an allow rule or among the effects the mode is documented to run.
  Structural edits in the modes Plan and Ask are excepted: there the code departs from the documentation
  of the modes, see \<open>plan_runs_structural_edit\<close> and \<open>ask_runs_structural_edit\<close>.
\<close>

theorem gate_run_iff:
  assumes "is_structural (q_effect q) \<longrightarrow> m = Auto \<or> m = Yolo"
  shows "gate q m rules = Run \<longleftrightarrow>
     (\<forall>r \<in> set rules. r_effect r \<noteq> Deny) \<and> permits (q_class q) (q_invoker q) \<and>
     \<not> is_escape_hatch (q_effect q) \<and> (rules \<noteq> [] \<or> consents m (q_effect q))"
proof -
  have "mode_decide m (if is_structural (q_effect q) then damped (effect_reversibility (q_effect q))
                       else effect_reversibility (q_effect q)) = D_Run \<longleftrightarrow> consents m (q_effect q)"
    using assms by (cases m; cases "q_effect q") simp_all
  then show ?thesis by (cases "consents m (q_effect q)") (auto simp only: gate_cases split: decision.splits if_splits)
qed

theorem gate_run_iff_witness:
  "gate \<lparr>q_effect = StructuralEdit Snapshot, q_class = TC_Agent, q_invoker = Inv_Agent, q_summary = ''s''\<rparr> Auto [] = Run \<and>
   gate \<lparr>q_effect = BlindEdit, q_class = TC_Agent, q_invoker = Inv_Agent, q_summary = ''b''\<rparr> Plan [] \<noteq> Run"
  using gate_run_iff [of "\<lparr>q_effect = StructuralEdit Snapshot, q_class = TC_Agent, q_invoker = Inv_Agent, q_summary = ''s''\<rparr>" Auto "[]"]
    gate_run_iff [of "\<lparr>q_effect = BlindEdit, q_class = TC_Agent, q_invoker = Inv_Agent, q_summary = ''b''\<rparr>" Plan "[]"]
  by (simp add: permits_def)

text \<open>
  No mode and no allow rule widens authority, and no mode, no rule and no authority
  waives the escape-hatch question: a caller without the class's authority is refused with
  the reason saying so (unless a rule denies first), and a permitted request to disable a
  guard is always asked.
\<close>

theorem gate_mandatory_checks:
  assumes "\<forall>r \<in> set rules. r_effect r = Allow"
  shows "(\<not> permits (q_class q) (q_invoker q) \<longrightarrow> gate q m rules = Refuse Authority) \<and>
    (permits (q_class q) (q_invoker q) \<and> is_escape_hatch (q_effect q) \<longrightarrow>
       gate q m rules = Ask q EscapeHatchAsk)"
  using assms by (auto simp: gate_cases)

theorem gate_mandatory_checks_witness:
  "gate \<lparr>q_effect = EscapeHatch ''sandbox'', q_class = TC_User, q_invoker = Inv_User,
        q_summary = ''s''\<rparr> Yolo [\<lparr>r_source = Src_Session, r_effect = Allow\<rparr>] =
   Ask \<lparr>q_effect = EscapeHatch ''sandbox'', q_class = TC_User, q_invoker = Inv_User,
        q_summary = ''s''\<rparr> EscapeHatchAsk"
  using gate_mandatory_checks [of "[\<lparr>r_source = Src_Session, r_effect = Allow\<rparr>]"
      "\<lparr>q_effect = EscapeHatch ''sandbox'', q_class = TC_User, q_invoker = Inv_User, q_summary = ''s''\<rparr>" Yolo]
  by (simp add: permits_def)

text \<open>
  A deny is absolute: one denying rule of any source, anywhere in the list, refuses the
  request in every mode, and adding rules of any kind around it does not lift the refusal.
\<close>

theorem gate_deny_absolute:
  assumes "d \<in> set rules" "r_effect d = Deny"
  shows "\<exists>src. gate q m (before @ rules @ after) = Refuse (RuleRefusal src) \<and>
    (\<exists>r \<in> set (before @ rules @ after). r_effect r = Deny \<and> r_source r = src)"
proof -
  let ?rs = "before @ rules @ after"
  have ex: "\<exists>r \<in> set ?rs. r_effect r = Deny" using assms by auto
  then obtain r where r: "List.find (\<lambda>r. r_effect r = Deny) ?rs = Some r"
    by (cases "List.find (\<lambda>r. r_effect r = Deny) ?rs") (auto simp: find_None_iff)
  then have "r \<in> set ?rs \<and> r_effect r = Deny" by (rule find_SomeD)
  moreover have "gate q m ?rs = Refuse (RuleRefusal (r_source r))"
    by (simp only: gate_cases if_P [OF ex] r option.sel)
  ultimately show ?thesis by blast
qed

theorem gate_deny_absolute_witness:
  "\<exists>src. gate \<lparr>q_effect = Eff_Read, q_class = TC_Agent, q_invoker = Inv_User, q_summary = []\<rparr> Yolo
      ([\<lparr>r_source = Src_Session, r_effect = Allow\<rparr>] @ [\<lparr>r_source = Src_Builtin, r_effect = Deny\<rparr>] @ [])
     = Refuse (RuleRefusal src)"
  using gate_deny_absolute [of "\<lparr>r_source = Src_Builtin, r_effect = Deny\<rparr>"
      "[\<lparr>r_source = Src_Builtin, r_effect = Deny\<rparr>]"
      "\<lparr>q_effect = Eff_Read, q_class = TC_Agent, q_invoker = Inv_User, q_summary = []\<rparr>" Yolo
      "[\<lparr>r_source = Src_Session, r_effect = Allow\<rparr>]" "[]"] by auto

fun mode_rank :: "mode \<Rightarrow> nat" where
  "mode_rank Plan = 0" | "mode_rank Ask_Mode = 1" | "mode_rank Auto = 2" | "mode_rank Yolo = 3"

text \<open>
  Modes are ordered by consent: whatever runs in a mode also runs in every more
  permissive one, a plan never asks a matrix question, and \<open>yolo\<close> never does either.
\<close>

theorem gate_mode_monotone:
  "(mode_rank m \<le> mode_rank n \<and> gate q m rules = Run \<longrightarrow> gate q n rules = Run) \<and>
   gate q Plan rules \<noteq> Ask q Matrix \<and> gate q Yolo rules \<noteq> Ask q Matrix"
proof -
  have "mode_decide m r = D_Run \<Longrightarrow> mode_rank m \<le> mode_rank n \<Longrightarrow> mode_decide n r = D_Run" for r
    by (cases m; cases n; cases r) simp_all
  moreover have "mode_decide Plan r \<noteq> D_Prompt" for r by (cases r) simp_all
  ultimately show ?thesis by (auto simp: gate_cases split: decision.splits)
qed

theorem gate_mode_monotone_witness:
  "gate \<lparr>q_effect = BlindEdit, q_class = TC_Agent, q_invoker = Inv_Host, q_summary = []\<rparr> Yolo [] = Run"
proof -
  let ?q = "\<lparr>q_effect = BlindEdit, q_class = TC_Agent, q_invoker = Inv_Host, q_summary = []\<rparr>"
  have "gate ?q Auto [] = Run" by (simp add: gate_cases permits_def)
  then show ?thesis using gate_mode_monotone [of Auto Yolo ?q "[]"] by simp
qed

text \<open>
  Batched consent: a batch holds exactly the requests that were asked, in order; its
  resolution has one outcome per item; an item runs exactly when its own answer is yes, so
  an unanswered item is refused; and a batch without questions is an error.
\<close>

theorem batch_consent:
  assumes "batch_collect outcomes = Ok items"
  shows "items = [request. Ask request _ \<leftarrow> outcomes] \<and>
    length (batch_resolve items answers) = length items \<and>
    (\<forall>i < length items.
       (batch_resolve items answers ! i = Run \<longleftrightarrow> i < length answers \<and> answers ! i) \<and>
       (batch_resolve items answers ! i \<noteq> Run \<longrightarrow>
          batch_resolve items answers ! i = Refuse (NotAnswered (q_summary (items ! i)))))"
proof (intro conjI allI impI)
  have "List.map_filter (\<lambda>q. case q of Ask request _ \<Rightarrow> Some request | _ \<Rightarrow> None) os =
      [request. Ask request _ \<leftarrow> os]" for os
    by (induction os) (auto simp: List.map_filter_def split: gate_outcome.splits)
  then show "items = [request. Ask request _ \<leftarrow> outcomes]"
    using assms by (auto simp: batch_collect_def Let_def split: if_splits)
  show "length (batch_resolve items answers) = length items"
    by (simp add: batch_resolve_def)
  fix i assume "i < length items"
  then have nth: "batch_resolve items answers ! i =
      (if i < length answers \<and> answers ! i then Run else Refuse (NotAnswered (q_summary (items ! i))))"
    by (auto simp: batch_resolve_def nth_append)
  then show "batch_resolve items answers ! i = Run \<longleftrightarrow> i < length answers \<and> answers ! i"
    and "batch_resolve items answers ! i \<noteq> Run \<Longrightarrow>
      batch_resolve items answers ! i = Refuse (NotAnswered (q_summary (items ! i)))"
    by auto
qed

theorem batch_consent_witness:
  "batch_resolve [\<lparr>q_effect = BlindEdit, q_class = TC_Agent, q_invoker = Inv_Host, q_summary = ''e''\<rparr>] [] ! 0
    = Refuse (NotAnswered ''e'')"
proof -
  let ?q = "\<lparr>q_effect = BlindEdit, q_class = TC_Agent, q_invoker = Inv_Host, q_summary = ''e''\<rparr>"
  have "batch_collect [Run, Ask ?q Matrix] = Ok [?q]"
    by (simp add: batch_collect_def List.map_filter_def)
  from batch_consent [OF this, of "[]"] show ?thesis by simp
qed

section \<open>Divergence from the documentation\<close>

text \<open>
  \<open>Mode::Plan\<close> is documented as read-only, refusing anything with a side effect. Damping
  rates a structural edit R0, so the gate runs it in plan mode without a question.
\<close>

lemma plan_runs_structural_edit:
  "permits c i \<Longrightarrow>
   gate \<lparr>q_effect = StructuralEdit b, q_class = c, q_invoker = i, q_summary = s\<rparr> Plan [] = Run"
  by (simp add: gate_cases)

lemma ask_runs_structural_edit:
  "permits c i \<Longrightarrow>
   gate \<lparr>q_effect = StructuralEdit b, q_class = c, q_invoker = i, q_summary = s\<rparr> Ask_Mode [] = Run"
  by (simp add: gate_cases)

end
