(* ===== verification/Hashing.thy ===== *)
theory Hashing
  imports Supra_Prelude
begin

text \<open>
  \<open>crates/supra_types/src/hash.rs\<close> and \<open>sealed.rs\<close>: the canonical encoding as the
  bytes fed to the hasher, the hex form of a digest, sequence numbers and sealed values.
  BLAKE3 is a third-party crate: it is the argument \<open>H\<close> of every definition that hashes,
  from the preimage to the 32 digest bytes. What the encoding must provide for the digests
  to mean anything is that two values never share a preimage; that is the law of the
  locale \<open>sealable\<close>, the counterpart of the trait \<open>Sealable\<close>.
\<close>

section \<open>Content hashes\<close>

definition HASH_LEN :: nat where "HASH_LEN = 32"
definition HEX_LEN :: nat where "HEX_LEN = 2 * HASH_LEN"

datatype content_hash = ContentHash (hash_bytes: "byte list")

definition hash_ok :: "content_hash \<Rightarrow> bool" where
  "hash_ok h \<longleftrightarrow> length (hash_bytes h) = HASH_LEN"

datatype parse_hash_error = HashLength nat | NotHex nat

definition hex_digit :: "nat \<Rightarrow> char" where
  "hex_digit d = (if d < 10 then char_of (48 + d) else char_of (87 + d))"

text \<open>\<open>{byte:02x}\<close>\<close>

definition byte_hex :: "byte \<Rightarrow> string" where
  "byte_hex b = [hex_digit (unat b div 16), hex_digit (unat b mod 16)]"

definition hash_display :: "content_hash \<Rightarrow> string" where
  "hash_display h = concat (map byte_hex (hash_bytes h))"

definition hash_short :: "content_hash \<Rightarrow> string" where
  "hash_short h = take 12 (hash_display h)"

definition hex_value :: "char \<Rightarrow> nat option" where
  "hex_value c =
     (let n = of_char c :: nat in
      if 48 \<le> n \<and> n \<le> 57 then Some (n - 48)
      else if 97 \<le> n \<and> n \<le> 102 then Some (n - 87)
      else if 65 \<le> n \<and> n \<le> 70 then Some (n - 55)
      else None)"

text \<open>
  \<open>u8::from_str_radix(pair, 16)\<close> on a two-character pair. The standard library accepts a
  leading plus sign, so \<open>+f\<close> parses as 15.
\<close>

definition parse_pair :: "char \<Rightarrow> char \<Rightarrow> byte option" where
  "parse_pair a b =
     (if a = CHR ''+'' then map_option word_of_nat (hex_value b)
      else case (hex_value a, hex_value b) of
        (Some x, Some y) \<Rightarrow> Some (word_of_nat (16 * x + y))
      | _ \<Rightarrow> None)"

text \<open>
  The loop of \<open>from_hex\<close> from byte offset \<open>start\<close>; it stops at the first bad pair. A pair
  that is not on character boundaries is reported at the same offset as one that does not
  parse, so the byte view loses nothing.
\<close>

fun parse_pairs :: "nat \<Rightarrow> string \<Rightarrow> (byte list, parse_hash_error) outcome" where
  "parse_pairs start (a # b # rest) =
     (case parse_pair a b of
        None \<Rightarrow> Err (NotHex start)
      | Some x \<Rightarrow> bind_outcome (parse_pairs (start + 2) rest) (\<lambda>xs. Ok (x # xs)))"
| "parse_pairs start _ = Ok []"

definition hash_from_hex :: "string \<Rightarrow> (content_hash, parse_hash_error) outcome" where
  "hash_from_hex text =
     (if length text \<noteq> HEX_LEN then Err (HashLength (length text))
      else bind_outcome (parse_pairs 0 text) (\<lambda>bytes. Ok (ContentHash bytes)))"

lemma hex_value_digit: "d < 16 \<Longrightarrow> hex_value (hex_digit d) = Some d"
  by (auto simp: hex_value_def hex_digit_def Let_def)

lemma hex_digit_not_plus: "d < 16 \<Longrightarrow> hex_digit d \<noteq> CHR ''+''"
proof
  assume "d < 16" "hex_digit d = CHR ''+''"
  then have "(of_char (hex_digit d) :: nat) = of_char CHR ''+''" by simp
  with \<open>d < 16\<close> show False by (auto simp: hex_digit_def split: if_splits)
qed

lemma unat_byte_bound: "unat (b :: byte) < 256"
  using unsigned_less [of b] by simp

lemma parse_pair_byte_hex:
  "parse_pair (hex_digit (unat b div 16)) (hex_digit (unat b mod 16)) = Some b"
proof -
  have d: "unat b div 16 < 16" using unat_byte_bound [of b] by (simp add: less_mult_imp_div_less)
  have m: "unat b mod 16 < 16" by simp
  have "16 * (unat b div 16) + unat b mod 16 = unat b" by simp
  then show ?thesis
    by (simp add: parse_pair_def hex_value_digit [OF d] hex_value_digit [OF m] hex_digit_not_plus [OF d])
qed

lemma parse_pairs_display: "parse_pairs n (concat (map byte_hex bs)) = Ok bs"
  by (induction bs arbitrary: n) (simp_all add: byte_hex_def parse_pair_byte_hex)

lemma length_hash_display: "length (hash_display h) = 2 * length (hash_bytes h)"
  by (simp add: hash_display_def length_concat byte_hex_def o_def sum_list_triv)

lemma parse_pairs_length: "parse_pairs n s = Ok bs \<Longrightarrow> length bs = length s div 2"
  by (induction n s arbitrary: bs rule: parse_pairs.induct)
    (auto simp: bind_outcome_Ok_iff split: option.splits)

section \<open>The canonical writer\<close>

text \<open>
  A writer is the byte sequence fed to the hasher so far; every method appends. The length
  is written as \<open>u64\<close>, so the encoding is faithful below \<open>2 ^ 64\<close> bytes, which
  \<open>fits\<close> states.
\<close>

type_synonym writer = "byte list"

definition for_kind :: "byte \<Rightarrow> writer" where
  "for_kind kind = [kind]"

definition w_bytes :: "byte \<Rightarrow> byte list \<Rightarrow> writer" where
  "w_bytes tag value = tag # le_bytes 8 (length value) @ value"

definition w_str :: "byte \<Rightarrow> string \<Rightarrow> writer" where
  "w_str tag value = w_bytes tag (str_bytes value)"

definition w_u64 :: "byte \<Rightarrow> nat \<Rightarrow> writer" where
  "w_u64 tag value = w_bytes tag (le_bytes 8 value)"

definition w_u8 :: "byte \<Rightarrow> byte \<Rightarrow> writer" where
  "w_u8 tag value = w_bytes tag [value]"

definition w_bool :: "byte \<Rightarrow> bool \<Rightarrow> writer" where
  "w_bool tag value = w_u8 tag (if value then 1 else 0)"

definition w_count :: "byte \<Rightarrow> nat \<Rightarrow> writer" where
  "w_count tag len = w_u64 tag len"

definition w_opt_str :: "byte \<Rightarrow> string option \<Rightarrow> writer" where
  "w_opt_str tag value =
     (case value of None \<Rightarrow> w_u8 tag 0 | Some text \<Rightarrow> w_u8 tag 1 @ w_str tag text)"

definition w_nested :: "byte \<Rightarrow> byte \<Rightarrow> writer \<Rightarrow> writer" where
  "w_nested tag kind canonical = w_u8 tag kind @ canonical"

definition fits :: "'a list \<Rightarrow> bool" where
  "fits xs \<longleftrightarrow> length xs < 256 ^ 8"

lemma w_bytes_split:
  assumes "fits v" "fits w" "w_bytes t v @ r = w_bytes u w @ s"
  shows "t = u \<and> v = w \<and> r = s"
proof -
  from assms(3) have "le_bytes 8 (length v) = le_bytes 8 (length w)" "t = u"
    and rest: "v @ r = w @ s"
    by (auto simp: w_bytes_def append_eq_append_conv)
  then have "length v = length w" using assms(1,2) by (simp add: fits_def le_bytes_inj)
  with rest \<open>t = u\<close> show ?thesis by simp
qed

lemma w_str_split:
  "fits v \<Longrightarrow> fits w \<Longrightarrow> w_str t v @ r = w_str u w @ s \<Longrightarrow> t = u \<and> v = w \<and> r = s"
  using w_bytes_split [of "str_bytes v" "str_bytes w"] by (simp add: w_str_def fits_def)

lemma w_u64_split:
  "v < 256 ^ 8 \<Longrightarrow> w < 256 ^ 8 \<Longrightarrow> w_u64 t v @ r = w_u64 u w @ s \<Longrightarrow> t = u \<and> v = w \<and> r = s"
  unfolding w_u64_def using w_bytes_split [of "le_bytes 8 v" "le_bytes 8 w" t r u s]
  by (simp add: fits_def le_bytes_inj)

lemma w_u8_split: "w_u8 t v @ r = w_u8 u w @ s \<longleftrightarrow> t = u \<and> v = w \<and> r = s"
  using w_bytes_split [of "[v]" "[w]"] by (auto simp: w_u8_def fits_def)

lemma w_bool_split: "w_bool t v @ r = w_bool u w @ s \<longleftrightarrow> t = u \<and> v = w \<and> r = s"
  by (auto simp: w_bool_def w_u8_split)

lemma w_opt_str_split:
  assumes "\<forall>x. v = Some x \<longrightarrow> fits x" "\<forall>x. w = Some x \<longrightarrow> fits x"
    and "w_opt_str t v @ r = w_opt_str u w @ s"
  shows "t = u \<and> v = w \<and> r = s"
  using assms by (cases v; cases w) (auto simp: w_opt_str_def w_u8_split dest: w_str_split)

text \<open>The same facts as rewrite rules, collected for the proofs about encodings.\<close>

named_theorems enc_split

lemma w_bytes_iff:
  "fits v \<Longrightarrow> fits w \<Longrightarrow> w_bytes t v @ r = w_bytes u w @ s \<longleftrightarrow> t = u \<and> v = w \<and> r = s"
  using w_bytes_split by blast

lemma w_str_iff [enc_split]:
  "fits v \<Longrightarrow> fits w \<Longrightarrow> w_str t v @ r = w_str u w @ s \<longleftrightarrow> t = u \<and> v = w \<and> r = s"
  using w_str_split by blast

lemma w_u64_iff:
  "v < 256 ^ 8 \<Longrightarrow> w < 256 ^ 8 \<Longrightarrow> w_u64 t v @ r = w_u64 u w @ s \<longleftrightarrow> t = u \<and> v = w \<and> r = s"
  using w_u64_split by blast

lemma w_count_iff [enc_split]:
  "fits xs \<Longrightarrow> fits ys \<Longrightarrow> w_count t (length xs) @ r = w_count u (length ys) @ s \<longleftrightarrow>
   t = u \<and> length xs = length ys \<and> r = s"
  unfolding w_count_def fits_def by (rule w_u64_iff)

lemma w_opt_str_iff [enc_split]:
  "\<forall>x. v = Some x \<longrightarrow> fits x \<Longrightarrow> \<forall>x. w = Some x \<longrightarrow> fits x \<Longrightarrow>
   w_opt_str t v @ r = w_opt_str u w @ s \<longleftrightarrow> t = u \<and> v = w \<and> r = s"
  using w_opt_str_split by blast

lemmas w_byte_iffs [enc_split] = w_u8_split w_bool_split

section \<open>Sealable values\<close>

locale sealable =
  fixes kind :: byte
    and enc :: "'a \<Rightarrow> byte list"
    and ok :: "'a \<Rightarrow> bool"
  assumes enc_split: "ok x \<Longrightarrow> ok y \<Longrightarrow> enc x @ r = enc y @ s \<Longrightarrow> x = y \<and> r = s"
begin

lemma enc_inj: "ok x \<Longrightarrow> ok y \<Longrightarrow> enc x = enc y \<longleftrightarrow> x = y"
  using enc_split [of x y "[]" "[]"] by auto

lemma nested_split:
  "ok x \<Longrightarrow> ok y \<Longrightarrow> w_nested t kind (enc x) @ r = w_nested u kind (enc y) @ s \<Longrightarrow>
   t = u \<and> x = y \<and> r = s"
  using enc_split [of x y r s] by (auto simp: w_nested_def w_u8_split)

lemma nested_iff:
  "ok x \<Longrightarrow> ok y \<Longrightarrow> w_nested t kind (enc x) @ r = w_nested u kind (enc y) @ s \<longleftrightarrow>
   t = u \<and> x = y \<and> r = s"
  using nested_split by blast

text \<open>A counted sequence of nested values splits in one way.\<close>

lemma nested_list_split:
  "length xs = length ys \<Longrightarrow> (\<forall>x \<in> set xs. ok x) \<Longrightarrow> (\<forall>y \<in> set ys. ok y) \<Longrightarrow>
   concat (map (\<lambda>x. w_nested t kind (enc x)) xs) @ r =
   concat (map (\<lambda>x. w_nested t kind (enc x)) ys) @ s \<Longrightarrow> xs = ys \<and> r = s"
proof (induction xs ys rule: list_induct2)
  case Nil
  then show ?case by simp
next
  case (Cons x xs y ys)
  then have "w_nested t kind (enc x) @ concat (map (\<lambda>x. w_nested t kind (enc x)) xs) @ r =
      w_nested t kind (enc y) @ concat (map (\<lambda>x. w_nested t kind (enc x)) ys) @ s"
    by simp
  with Cons.prems have "x = y"
    "concat (map (\<lambda>x. w_nested t kind (enc x)) xs) @ r = concat (map (\<lambda>x. w_nested t kind (enc x)) ys) @ s"
    using nested_split by (metis list.set_intros(1))+
  with Cons show ?case by simp
qed

text \<open>Values of one kind have equal preimages only when they are equal.\<close>

lemma preimage_inj: "ok x \<Longrightarrow> ok y \<Longrightarrow> for_kind kind @ enc x = for_kind kind @ enc y \<longleftrightarrow> x = y"
  by (simp add: for_kind_def enc_inj)

end

section \<open>Sealed values\<close>

definition hash_of :: "(byte list \<Rightarrow> byte list) \<Rightarrow> byte \<Rightarrow> byte list \<Rightarrow> content_hash" where
  "hash_of H kind canonical = ContentHash (H (for_kind kind @ canonical))"

text \<open>\<open>SeqNo::next\<close>: the overflow check aborts at \<open>u64::MAX\<close>.\<close>

definition seq_next :: "nat \<Rightarrow> (nat, 'e) outcome" where
  "seq_next s = u64_add s 1"

record 'a sealed =
  sl_seq :: nat
  sl_hash :: content_hash
  sl_value :: 'a

definition seal_at ::
    "(byte list \<Rightarrow> byte list) \<Rightarrow> byte \<Rightarrow> ('a \<Rightarrow> byte list) \<Rightarrow> nat \<Rightarrow> 'a \<Rightarrow> 'a sealed" where
  "seal_at H kind enc seq value =
     \<lparr>sl_seq = seq, sl_hash = hash_of H kind (enc value), sl_value = value\<rparr>"

definition sealed_verify ::
    "(byte list \<Rightarrow> byte list) \<Rightarrow> byte \<Rightarrow> ('a \<Rightarrow> byte list) \<Rightarrow> 'a sealed \<Rightarrow> bool" where
  "sealed_verify H kind enc s \<longleftrightarrow> hash_of H kind (enc (sl_value s)) = sl_hash s"

datatype seal_error = HashMismatch nat content_hash content_hash

text \<open>Deserialisation recomputes the digest and refuses a mismatch.\<close>

definition sealed_deserialize ::
    "(byte list \<Rightarrow> byte list) \<Rightarrow> byte \<Rightarrow> ('a \<Rightarrow> byte list) \<Rightarrow> 'a sealed \<Rightarrow>
     ('a sealed, seal_error) outcome" where
  "sealed_deserialize H kind enc repr =
     (let computed = hash_of H kind (enc (sl_value repr)) in
      if computed \<noteq> sl_hash repr
      then Err (HashMismatch (sl_seq repr) (sl_hash repr) computed)
      else Ok \<lparr>sl_seq = sl_seq repr, sl_hash = sl_hash repr, sl_value = sl_value repr\<rparr>)"

lemma seal_at_verify [simp]: "sealed_verify H kind enc (seal_at H kind enc seq v)"
  by (simp add: sealed_verify_def seal_at_def)

lemma sealed_verify_iff: "sealed_verify H kind enc s \<longleftrightarrow> s = seal_at H kind enc (sl_seq s) (sl_value s)"
  by (cases s) (auto simp: sealed_verify_def seal_at_def)

lemma sealed_deserialize_Ok:
  "sealed_deserialize H kind enc s = Ok t \<longleftrightarrow> sealed_verify H kind enc s \<and> t = s"
  by (auto simp: sealed_deserialize_def sealed_verify_def Let_def)

section \<open>Properties\<close>

text \<open>
  The hex form round-trips: reading what a digest displays gives the digest back, the
  display has 64 characters and identifies the digest, and whatever \<open>from_hex\<close> accepts is
  a digest of 32 bytes.
\<close>

theorem hash_hex_roundtrip:
  "(hash_ok h \<longrightarrow> hash_from_hex (hash_display h) = Ok h \<and> length (hash_display h) = HEX_LEN) \<and>
   (\<forall>s g. hash_from_hex s = Ok g \<longrightarrow> hash_ok g \<and> length s = HEX_LEN)"
proof (intro conjI allI impI)
  assume "hash_ok h"
  then show len: "length (hash_display h) = HEX_LEN"
    by (simp add: length_hash_display hash_ok_def HEX_LEN_def)
  have "parse_pairs 0 (hash_display h) = Ok (hash_bytes h)"
    unfolding hash_display_def by (rule parse_pairs_display)
  with len show "hash_from_hex (hash_display h) = Ok h"
    by (simp add: hash_from_hex_def)
next
  fix s g assume "hash_from_hex s = Ok g"
  then show "length s = HEX_LEN" "hash_ok g"
    by (auto simp: hash_from_hex_def bind_outcome_Ok_iff hash_ok_def HEX_LEN_def
        dest!: parse_pairs_length split: if_splits)
qed

theorem hash_hex_roundtrip_witness:
  "hash_from_hex (hash_display (ContentHash (replicate 32 171))) = Ok (ContentHash (replicate 32 171))"
  using hash_hex_roundtrip [of "ContentHash (replicate 32 171)"] by (simp add: hash_ok_def HASH_LEN_def)

section \<open>Divergence from the documentation\<close>

text \<open>
  \<open>from_hex\<close> is documented to refuse everything but 64 hex digits. A plus sign in the
  first position of a pair is accepted, so two texts read as the same digest and one of
  them is not hexadecimal.
\<close>

lemma from_hex_accepts_plus:
  "hash_from_hex (concat (replicate 32 ''+f'')) = Ok (ContentHash (replicate 32 15)) \<and>
   hash_from_hex (concat (replicate 32 ''0f'')) = Ok (ContentHash (replicate 32 15))"
  by code_simp

end
