(* ===== verification/Segments.thy ===== *)
theory Segments
  imports Hashing
begin

text \<open>
  \<open>crates/supra_types/src/segment.rs\<close>: blocks, memory-index entries, segment kinds and
  segments, their constructors and their canonical encodings. Each encoding is an
  interpretation of the locale \<open>sealable\<close>, from the innermost type outwards, as the
  \<open>nested\<close> calls of the code compose them.
\<close>

section \<open>Blocks\<close>

text \<open>Canonical JSON is held as text; T13's serialiser produces it.\<close>

type_synonym canonical_json = string

definition json_empty_object :: canonical_json where
  "json_empty_object = ''{}''"

datatype role = User | Assistant

fun role_discriminant :: "role \<Rightarrow> byte" where
  "role_discriminant User = 0"
| "role_discriminant Assistant = 1"

datatype block =
    Text string
  | Thinking string "string option"
  | ToolUse string string canonical_json
  | ToolResult string string bool

fun is_tool_traffic :: "block \<Rightarrow> bool" where
  "is_tool_traffic (ToolUse _ _ _) = True"
| "is_tool_traffic (ToolResult _ _ _) = True"
| "is_tool_traffic _ = False"

fun block_discriminant :: "block \<Rightarrow> byte" where
  "block_discriminant (Text _) = 0"
| "block_discriminant (Thinking _ _) = 1"
| "block_discriminant (ToolUse _ _ _) = 2"
| "block_discriminant (ToolResult _ _ _) = 3"

fun block_fields :: "block \<Rightarrow> writer" where
  "block_fields (Text t) = w_str 1 t"
| "block_fields (Thinking t signature) = w_str 1 t @ w_opt_str 2 signature"
| "block_fields (ToolUse call_id name input) = w_str 1 call_id @ w_str 2 name @ w_str 3 input"
| "block_fields (ToolResult call_id content is_error) =
     w_str 1 call_id @ w_str 2 content @ w_bool 3 is_error"

definition block_canonical :: "block \<Rightarrow> writer" where
  "block_canonical b = w_u8 0 (block_discriminant b) @ block_fields b"

text \<open>Every string of a block is below the \<open>u64\<close> length field.\<close>

fun block_ok :: "block \<Rightarrow> bool" where
  "block_ok (Text t) = fits t"
| "block_ok (Thinking t signature) = (fits t \<and> (\<forall>x. signature = Some x \<longrightarrow> fits x))"
| "block_ok (ToolUse call_id name input) = (fits call_id \<and> fits name \<and> fits input)"
| "block_ok (ToolResult call_id content _) = (fits call_id \<and> fits content)"

definition BLOCK_KIND :: byte where "BLOCK_KIND = 2"

interpretation block_seal: sealable BLOCK_KIND block_canonical block_ok
proof
  fix x y r s
  assume ok: "block_ok x" "block_ok y"
    and eq: "block_canonical x @ r = block_canonical y @ s"
  from eq have "block_discriminant x = block_discriminant y"
    and "block_fields x @ r = block_fields y @ s"
    by (auto simp: block_canonical_def w_u8_split)
  then show "x = y \<and> r = s" using ok
    by (cases x; cases y) (simp_all add: enc_split)
qed

section \<open>Memory-index entries\<close>

record memory_index_entry =
  me_turn :: turn_id
  me_topic :: string
  me_gist :: string

definition MAX_CONTENT_BYTES :: nat where "MAX_CONTENT_BYTES = 80"

datatype segment_error =
    IndexEntryTooLong nat
  | IndexSegmentHasBlocks nat
  | InterleavedToolTraffic nat

definition entry_new ::
    "turn_id \<Rightarrow> string \<Rightarrow> string \<Rightarrow> (memory_index_entry, segment_error) outcome" where
  "entry_new turn topic gist =
     (let bytes = length topic + length gist in
      if bytes > MAX_CONTENT_BYTES then Err (IndexEntryTooLong bytes)
      else Ok \<lparr>me_turn = turn, me_topic = topic, me_gist = gist\<rparr>)"

definition entry_try_from :: "memory_index_entry \<Rightarrow> (memory_index_entry, segment_error) outcome" where
  "entry_try_from repr = entry_new (me_turn repr) (me_topic repr) (me_gist repr)"

definition ulid_le_bytes :: "ulid \<Rightarrow> byte list" where
  "ulid_le_bytes u = le_bytes 16 (unat u)"

definition entry_canonical :: "memory_index_entry \<Rightarrow> writer" where
  "entry_canonical e =
     w_u64 1 (ulid_timestamp_ms (turn_raw (me_turn e))) @
     w_bytes 2 (ulid_le_bytes (turn_raw (me_turn e))) @
     w_str 3 (me_topic e) @ w_str 4 (me_gist e)"

definition entry_ok :: "memory_index_entry \<Rightarrow> bool" where
  "entry_ok e \<longleftrightarrow> length (me_topic e) + length (me_gist e) \<le> MAX_CONTENT_BYTES"

definition ENTRY_KIND :: byte where "ENTRY_KIND = 3"

lemma ulid_le_bytes_inj: "ulid_le_bytes u = ulid_le_bytes v \<longleftrightarrow> u = v"
proof -
  have "unat w < 256 ^ 16" for w :: ulid using unsigned_less [of w] by simp
  then show ?thesis by (simp add: ulid_le_bytes_def le_bytes_inj word_unat_eq_iff del: power_numeral)
qed

lemma fits_ulid [simp]: "fits (ulid_le_bytes u)"
  by (simp add: fits_def ulid_le_bytes_def)

lemma entry_fits: "entry_ok e \<Longrightarrow> fits (me_topic e) \<and> fits (me_gist e)"
  by (auto simp: entry_ok_def fits_def MAX_CONTENT_BYTES_def)

lemma w_ulid_iff [enc_split]:
  "w_bytes t (ulid_le_bytes u) @ r = w_bytes t' (ulid_le_bytes v) @ s \<longleftrightarrow> t = t' \<and> u = v \<and> r = s"
  by (simp add: w_bytes_iff ulid_le_bytes_inj)

interpretation entry_seal: sealable ENTRY_KIND entry_canonical entry_ok
proof
  fix x y r s
  assume ok: "entry_ok x" "entry_ok y" and eq: "entry_canonical x @ r = entry_canonical y @ s"
  note fits = entry_fits [OF ok(1)] entry_fits [OF ok(2)]
  from eq have "turn_raw (me_turn x) = turn_raw (me_turn y) \<and> me_topic x = me_topic y \<and>
      me_gist x = me_gist y \<and> r = s"
    unfolding entry_canonical_def append_assoc
    by (simp add: w_u64_iff [OF ulid_timestamp_bound ulid_timestamp_bound] enc_split fits)
  then show "x = y \<and> r = s" by (cases x; cases y) (simp add: turn_id.expand)
qed

section \<open>Segment kinds\<close>

datatype segment_kind =
    ToolManifest
  | SystemContract
  | MemoryIndex memory_index_entry
  | Turn turn_id role

fun is_session_frozen :: "segment_kind \<Rightarrow> bool" where
  "is_session_frozen ToolManifest = True"
| "is_session_frozen SystemContract = True"
| "is_session_frozen _ = False"

fun kind_discriminant :: "segment_kind \<Rightarrow> byte" where
  "kind_discriminant ToolManifest = 0"
| "kind_discriminant SystemContract = 1"
| "kind_discriminant (MemoryIndex _) = 2"
| "kind_discriminant (Turn _ _) = 3"

fun kind_fields :: "segment_kind \<Rightarrow> writer" where
  "kind_fields ToolManifest = []"
| "kind_fields SystemContract = []"
| "kind_fields (MemoryIndex entry) = w_nested 1 ENTRY_KIND (entry_canonical entry)"
| "kind_fields (Turn turn role) =
     w_bytes 1 (ulid_le_bytes (turn_raw turn)) @ w_u8 2 (role_discriminant role)"

definition kind_canonical :: "segment_kind \<Rightarrow> writer" where
  "kind_canonical k = w_u8 0 (kind_discriminant k) @ kind_fields k"

fun kind_ok :: "segment_kind \<Rightarrow> bool" where
  "kind_ok (MemoryIndex e) = entry_ok e"
| "kind_ok _ = True"

definition SEGMENT_KIND_KIND :: byte where "SEGMENT_KIND_KIND = 4"

lemma role_discriminant_inj: "role_discriminant a = role_discriminant b \<longleftrightarrow> a = b"
  by (cases a; cases b) simp_all

interpretation kind_seal: sealable SEGMENT_KIND_KIND kind_canonical kind_ok
proof
  fix x y r s
  assume ok: "kind_ok x" "kind_ok y" and eq: "kind_canonical x @ r = kind_canonical y @ s"
  from eq have "kind_discriminant x = kind_discriminant y" "kind_fields x @ r = kind_fields y @ s"
    by (auto simp: kind_canonical_def w_u8_split)
  then show "x = y \<and> r = s" using ok
    by (cases x; cases y)
      (simp_all add: enc_split entry_seal.nested_iff role_discriminant_inj turn_id.expand)
qed

section \<open>Segments\<close>

record segment =
  sg_id :: segment_id
  sg_kind :: segment_kind
  sg_blocks :: "block list"

text \<open>The loop of \<open>first_interleaving\<close>, with its two flags and the running index.\<close>

fun interleaving_loop :: "nat \<Rightarrow> bool \<Rightarrow> bool \<Rightarrow> block list \<Rightarrow> nat option" where
  "interleaving_loop index seen_run in_run [] = None"
| "interleaving_loop index seen_run in_run (b # bs) =
     (if is_tool_traffic b then
        if \<not> in_run then
          if seen_run then Some index else interleaving_loop (index + 1) True True bs
        else interleaving_loop (index + 1) seen_run in_run bs
      else interleaving_loop (index + 1) seen_run False bs)"

definition first_interleaving :: "block list \<Rightarrow> nat option" where
  "first_interleaving blocks = interleaving_loop 0 False False blocks"

fun is_memory_index :: "segment_kind \<Rightarrow> bool" where
  "is_memory_index (MemoryIndex _) = True"
| "is_memory_index _ = False"

definition segment_new ::
    "segment_id \<Rightarrow> segment_kind \<Rightarrow> block list \<Rightarrow> (segment, segment_error) outcome" where
  "segment_new seg_id kind blocks =
     (if is_memory_index kind \<and> blocks \<noteq> [] then Err (IndexSegmentHasBlocks (length blocks))
      else case first_interleaving blocks of
        Some at \<Rightarrow> Err (InterleavedToolTraffic at)
      | None \<Rightarrow> Ok \<lparr>sg_id = seg_id, sg_kind = kind, sg_blocks = blocks\<rparr>)"

definition segment_try_from :: "segment \<Rightarrow> (segment, segment_error) outcome" where
  "segment_try_from repr = segment_new (sg_id repr) (sg_kind repr) (sg_blocks repr)"

fun lookback_loop :: "nat \<Rightarrow> bool \<Rightarrow> block list \<Rightarrow> nat" where
  "lookback_loop positions in_run [] = positions"
| "lookback_loop positions in_run (b # bs) =
     (if is_tool_traffic b then
        if \<not> in_run then lookback_loop (positions + 1) True bs
        else lookback_loop positions in_run bs
      else lookback_loop (positions + 1) False bs)"

definition lookback_positions :: "segment \<Rightarrow> nat" where
  "lookback_positions s = lookback_loop 0 False (sg_blocks s)"

definition segment_canonical :: "segment \<Rightarrow> writer" where
  "segment_canonical s =
     w_bytes 1 (ulid_le_bytes (segment_raw (sg_id s))) @
     w_nested 2 SEGMENT_KIND_KIND (kind_canonical (sg_kind s)) @
     w_count 3 (length (sg_blocks s)) @
     concat (map (\<lambda>b. w_nested 4 BLOCK_KIND (block_canonical b)) (sg_blocks s))"

definition segment_ok :: "segment \<Rightarrow> bool" where
  "segment_ok s \<longleftrightarrow> kind_ok (sg_kind s) \<and> fits (sg_blocks s) \<and> (\<forall>b \<in> set (sg_blocks s). block_ok b)"

definition SEGMENT_KIND :: byte where "SEGMENT_KIND = 1"

interpretation segment_seal: sealable SEGMENT_KIND segment_canonical segment_ok
proof
  fix x y r s
  assume ok: "segment_ok x" "segment_ok y"
    and eq: "segment_canonical x @ r = segment_canonical y @ s"
  let ?bs = "\<lambda>x. concat (map (\<lambda>b. w_nested 4 BLOCK_KIND (block_canonical b)) (sg_blocks x))"
  from eq ok have head: "segment_raw (sg_id x) = segment_raw (sg_id y)" "sg_kind x = sg_kind y"
    "length (sg_blocks x) = length (sg_blocks y)" and rest: "?bs x @ r = ?bs y @ s"
    by (simp_all add: segment_canonical_def segment_ok_def enc_split kind_seal.nested_iff)
  have "sg_blocks x = sg_blocks y \<and> r = s"
    by (rule block_seal.nested_list_split [OF head(3) _ _ rest]) (use ok in \<open>simp_all add: segment_ok_def\<close>)
  with head show "x = y \<and> r = s" by (cases x; cases y) (simp add: segment_id.expand)
qed

section \<open>Lemmas on runs of tool traffic\<close>

abbreviation tool_free :: "block list \<Rightarrow> bool" where
  "tool_free bs \<equiv> (\<forall>b \<in> set bs. \<not> is_tool_traffic b)"

abbreviation all_tool :: "block list \<Rightarrow> bool" where
  "all_tool bs \<equiv> (\<forall>b \<in> set bs. is_tool_traffic b)"

lemma interleaving_after_run:
  "interleaving_loop i True False bs = None \<longleftrightarrow> tool_free bs"
  by (induction bs arbitrary: i) auto

lemma interleaving_in_run:
  "interleaving_loop i True True bs = None \<longleftrightarrow> tool_free (dropWhile is_tool_traffic bs)"
  by (induction bs arbitrary: i) (auto simp: interleaving_after_run)

lemma interleaving_dropWhile:
  "interleaving_loop i False False bs = None \<longleftrightarrow>
     tool_free (dropWhile is_tool_traffic (dropWhile (\<lambda>b. \<not> is_tool_traffic b) bs))"
  by (induction bs arbitrary: i) (auto simp: interleaving_in_run)

lemma dropWhile_tool_free: "tool_free bs \<Longrightarrow> dropWhile is_tool_traffic bs = bs"
  by (cases bs) auto

lemma first_interleaving_None:
  "interleaving_loop i False False bs = None \<longleftrightarrow>
     (\<exists>pre run rest. bs = pre @ run @ rest \<and> tool_free pre \<and> all_tool run \<and> tool_free rest)"
proof
  let ?mid = "dropWhile (\<lambda>b. \<not> is_tool_traffic b) bs"
  assume "interleaving_loop i False False bs = None"
  then have "tool_free (dropWhile is_tool_traffic ?mid)" by (simp only: interleaving_dropWhile)
  moreover have "bs = takeWhile (\<lambda>b. \<not> is_tool_traffic b) bs @
      takeWhile is_tool_traffic ?mid @ dropWhile is_tool_traffic ?mid" by simp
  moreover have "tool_free (takeWhile (\<lambda>b. \<not> is_tool_traffic b) bs)" "all_tool (takeWhile is_tool_traffic ?mid)"
    by (auto dest: set_takeWhileD)
  ultimately show "\<exists>pre run rest. bs = pre @ run @ rest \<and> tool_free pre \<and> all_tool run \<and> tool_free rest"
    by (intro exI conjI)
next
  assume "\<exists>pre run rest. bs = pre @ run @ rest \<and> tool_free pre \<and> all_tool run \<and> tool_free rest"
  then obtain pre run rest where
    bs: "bs = pre @ run @ rest" "tool_free pre" "all_tool run" "tool_free rest" by blast
  show "interleaving_loop i False False bs = None"
  proof (cases run)
    case Nil
    then have "dropWhile (\<lambda>b. \<not> is_tool_traffic b) bs = []" using bs by auto
    then have "dropWhile is_tool_traffic (dropWhile (\<lambda>b. \<not> is_tool_traffic b) bs) = []"
      by (simp only: dropWhile.simps)
    then show ?thesis by (simp only: interleaving_dropWhile list.set ball_empty)
  next
    case (Cons t ts)
    then have "dropWhile (\<lambda>b. \<not> is_tool_traffic b) bs = run @ rest" using bs by simp
    then show ?thesis using bs by (simp add: interleaving_dropWhile dropWhile_tool_free)
  qed
qed

lemma lookback_loop_tool_free: "tool_free bs \<Longrightarrow> lookback_loop n r bs = n + length bs"
  by (induction bs arbitrary: n r) auto

lemma lookback_loop_run: "all_tool bs \<Longrightarrow> lookback_loop n True (bs @ cs) = lookback_loop n True cs"
  by (induction bs) auto

lemma lookback_loop_prefix:
  "tool_free bs \<Longrightarrow> lookback_loop n False (bs @ cs) = lookback_loop (n + length bs) False cs"
  by (induction bs arbitrary: n) auto

lemma segment_new_Ok:
  "segment_new i k bs = Ok s \<longleftrightarrow>
     s = \<lparr>sg_id = i, sg_kind = k, sg_blocks = bs\<rparr> \<and> (is_memory_index k \<longrightarrow> bs = []) \<and>
     first_interleaving bs = None"
  by (auto simp: segment_new_def split: option.splits)

lemma interleaving_some_bound:
  "interleaving_loop i sr ir bs = Some at \<Longrightarrow> i \<le> at \<and> at < i + length bs \<and> is_tool_traffic (bs ! (at - i))"
proof (induction bs arbitrary: i sr ir)
  case Nil
  then show ?case by simp
next
  case (Cons b bs)
  have step: "interleaving_loop (Suc i) sr' ir' bs = Some at \<Longrightarrow>
      i \<le> at \<and> at < i + length (b # bs) \<and> is_tool_traffic ((b # bs) ! (at - i))" for sr' ir'
    using Cons.IH [of "Suc i" sr' ir'] by (auto simp: nth_Cons' Suc_le_eq)
  show ?case using Cons.prems step by (auto split: if_splits)
qed

section \<open>Properties\<close>

text \<open>
  C31. The canonical encoding of a segment determines it: two segments whose strings and
  counts fit the length fields have the same preimage (kind byte and encoding) only when
  they are equal, so equal content hashes of different segments would be a collision of the
  hash function itself; and the preimage of a segment is never that of a block, an index
  entry or a kind.
\<close>

theorem segment_preimage_injective:
  assumes "segment_ok s" "segment_ok t"
  shows "(for_kind SEGMENT_KIND @ segment_canonical s = for_kind SEGMENT_KIND @ segment_canonical t
      \<longleftrightarrow> s = t) \<and>
    for_kind SEGMENT_KIND @ segment_canonical s \<notin>
      range (\<lambda>b. for_kind BLOCK_KIND @ block_canonical b) \<union>
      range (\<lambda>e. for_kind ENTRY_KIND @ entry_canonical e) \<union>
      range (\<lambda>k. for_kind SEGMENT_KIND_KIND @ kind_canonical k)"
  using segment_seal.preimage_inj [OF assms]
  by (auto simp: for_kind_def SEGMENT_KIND_def BLOCK_KIND_def ENTRY_KIND_def SEGMENT_KIND_KIND_def)

theorem segment_preimage_injective_witness:
  "for_kind SEGMENT_KIND @ segment_canonical
      \<lparr>sg_id = SegmentId 1, sg_kind = ToolManifest, sg_blocks = [Text ''ab'', Text ''c'']\<rparr> \<noteq>
   for_kind SEGMENT_KIND @ segment_canonical
      \<lparr>sg_id = SegmentId 1, sg_kind = ToolManifest, sg_blocks = [Text ''a'', Text ''bc'']\<rparr>"
proof -
  let ?s = "\<lparr>sg_id = SegmentId 1, sg_kind = ToolManifest, sg_blocks = [Text ''ab'', Text ''c'']\<rparr>"
  let ?t = "\<lparr>sg_id = SegmentId 1, sg_kind = ToolManifest, sg_blocks = [Text ''a'', Text ''bc'']\<rparr>"
  have "segment_ok ?s" "segment_ok ?t" by (simp_all add: segment_ok_def fits_def)
  from segment_preimage_injective [OF this] show ?thesis by simp
qed

text \<open>
  What the constructor accepts: a segment is built exactly when its tool traffic forms
  at most one consecutive run (prose before and after it, none inside) and, for a memory
  index, it carries no blocks; re-reading a stored segment through the constructor accepts
  exactly what the constructor could have built; and a rejected sequence is reported at a
  tool block.
\<close>

theorem segment_new_spec:
  "(is_Ok (segment_new i k bs) \<longleftrightarrow>
      (is_memory_index k \<longrightarrow> bs = []) \<and>
      (\<exists>pre run rest. bs = pre @ run @ rest \<and> tool_free pre \<and> all_tool run \<and> tool_free rest)) \<and>
   (\<forall>s. segment_new i k bs = Ok s \<longrightarrow> segment_try_from s = Ok s) \<and>
   (\<forall>at. segment_new i k bs = Err (InterleavedToolTraffic at) \<longrightarrow>
      at < length bs \<and> is_tool_traffic (bs ! at))"
proof (intro conjI allI impI)
  show "is_Ok (segment_new i k bs) \<longleftrightarrow>
      (is_memory_index k \<longrightarrow> bs = []) \<and>
      (\<exists>pre run rest. bs = pre @ run @ rest \<and> tool_free pre \<and> all_tool run \<and> tool_free rest)"
    using first_interleaving_None [of 0 bs]
    by (simp add: is_Ok_iff segment_new_Ok first_interleaving_def)
next
  fix s assume "segment_new i k bs = Ok s"
  then show "segment_try_from s = Ok s" by (auto simp: segment_new_Ok segment_try_from_def)
next
  fix at assume "segment_new i k bs = Err (InterleavedToolTraffic at)"
  then have "first_interleaving bs = Some at"
    by (auto simp: segment_new_def split: if_splits option.splits)
  then show "at < length bs" "is_tool_traffic (bs ! at)"
    using interleaving_some_bound [of 0 False False bs at] by (auto simp: first_interleaving_def)
qed

theorem segment_new_spec_witness:
  "\<not> is_Ok (segment_new (SegmentId 1) (Turn (TurnId 1) Assistant)
     [ToolUse ''a'' ''read'' ''{}'', Text ''prose'', ToolResult ''a'' ''ok'' False]) \<and>
   is_tool_traffic ([ToolUse ''a'' ''read'' ''{}'', Text ''prose'', ToolResult ''a'' ''ok'' False] ! 2)"
proof -
  let ?bs = "[ToolUse ''a'' ''read'' ''{}'', Text ''prose'', ToolResult ''a'' ''ok'' False]"
  have "segment_new (SegmentId 1) (Turn (TurnId 1) Assistant) ?bs = Err (InterleavedToolTraffic 2)"
    by (simp add: segment_new_def first_interleaving_def)
  then show ?thesis
    using segment_new_spec [of "SegmentId 1" "Turn (TurnId 1) Assistant" ?bs, THEN conjunct2, THEN conjunct2]
    by simp
qed

text \<open>
  The lookback cost of a constructed segment is its number of prose blocks plus one for
  its whole run of tool traffic, if it has any.
\<close>

theorem lookback_positions_spec:
  assumes "segment_new i k bs = Ok s"
  shows "lookback_positions s =
    length (filter (\<lambda>b. \<not> is_tool_traffic b) bs) + (if \<exists>b \<in> set bs. is_tool_traffic b then 1 else 0)"
proof -
  from assms have s: "sg_blocks s = bs" and "interleaving_loop 0 False False bs = None"
    by (simp_all add: segment_new_Ok first_interleaving_def)
  from this(2) have "\<exists>pre run rest. bs = pre @ run @ rest \<and> tool_free pre \<and> all_tool run \<and> tool_free rest"
    by (rule first_interleaving_None [THEN iffD1])
  then obtain pre run rest where bs: "bs = pre @ run @ rest" "tool_free pre" "all_tool run" "tool_free rest"
    by (elim exE conjE)
  have "filter (\<lambda>b. \<not> is_tool_traffic b) bs = pre @ rest" using bs by (simp add: filter_id_conv)
  then show ?thesis using bs(2-4)
    by (cases run) (auto simp: lookback_positions_def s bs(1) lookback_loop_prefix
        lookback_loop_run lookback_loop_tool_free)
qed

theorem lookback_positions_spec_witness:
  "lookback_positions \<lparr>sg_id = SegmentId 1, sg_kind = ToolManifest,
     sg_blocks = [Text ''x'', ToolUse ''a'' ''r'' ''{}'', ToolResult ''a'' ''ok'' False]\<rparr> = 2"
proof -
  let ?bs = "[Text ''x'', ToolUse ''a'' ''r'' ''{}'', ToolResult ''a'' ''ok'' False]"
  have "segment_new (SegmentId 1) ToolManifest ?bs =
      Ok \<lparr>sg_id = SegmentId 1, sg_kind = ToolManifest, sg_blocks = ?bs\<rparr>"
    by (simp add: segment_new_Ok first_interleaving_def)
  from lookback_positions_spec [OF this] show ?thesis by simp
qed

end
