(* ===== verification/Ephemeral.thy ===== *)
theory Ephemeral
  imports Segments
begin

text \<open>
  \<open>crates/supra_types/src/ephemeral.rs\<close>: the volatile state block, a vector of slots that
  the code keeps sorted by binary search. It refines the map interface \<open>assoc_map\<close>.
\<close>

section \<open>Slots\<close>

datatype ephemeral_key =
    Timestamp
  | WorkingDir
  | GitBranch
  | GitCleanKey
  | ContextPercent
  | PermissionMode
  | SandboxTier
  | TodoState
  | CohortSize

definition EPHEMERAL_ALL :: "ephemeral_key list" where
  "EPHEMERAL_ALL = [Timestamp, WorkingDir, GitBranch, GitCleanKey, ContextPercent,
     PermissionMode, SandboxTier, TodoState, CohortSize]"

fun ephemeral_rank :: "ephemeral_key \<Rightarrow> nat" where
  "ephemeral_rank Timestamp = 0" | "ephemeral_rank WorkingDir = 1"
| "ephemeral_rank GitBranch = 2" | "ephemeral_rank GitCleanKey = 3"
| "ephemeral_rank ContextPercent = 4" | "ephemeral_rank PermissionMode = 5"
| "ephemeral_rank SandboxTier = 6" | "ephemeral_rank TodoState = 7"
| "ephemeral_rank CohortSize = 8"

instantiation ephemeral_key :: linorder
begin
definition less_eq_ephemeral_key :: "ephemeral_key \<Rightarrow> ephemeral_key \<Rightarrow> bool" where
  "x \<le> y \<longleftrightarrow> ephemeral_rank x \<le> ephemeral_rank y"
definition less_ephemeral_key :: "ephemeral_key \<Rightarrow> ephemeral_key \<Rightarrow> bool" where
  "x < y \<longleftrightarrow> ephemeral_rank x < ephemeral_rank y"
instance
proof
  fix x y :: ephemeral_key
  show "x \<le> y \<Longrightarrow> y \<le> x \<Longrightarrow> x = y"
    by (cases x; cases y) (simp_all add: less_eq_ephemeral_key_def)
qed (auto simp: less_eq_ephemeral_key_def less_ephemeral_key_def)
end

fun ephemeral_label :: "ephemeral_key \<Rightarrow> string" where
  "ephemeral_label Timestamp = ''time''" | "ephemeral_label WorkingDir = ''cwd''"
| "ephemeral_label GitBranch = ''branch''" | "ephemeral_label GitCleanKey = ''clean''"
| "ephemeral_label ContextPercent = ''context''" | "ephemeral_label PermissionMode = ''mode''"
| "ephemeral_label SandboxTier = ''sandbox''" | "ephemeral_label TodoState = ''todo''"
| "ephemeral_label CohortSize = ''peers''"

section \<open>The block\<close>

type_synonym ephemeral_block = "(ephemeral_key \<times> string) list"

definition eph_set :: "ephemeral_key \<Rightarrow> string \<Rightarrow> ephemeral_block \<Rightarrow> ephemeral_block" where
  "eph_set key value entries =
     (case binary_search (map fst entries) key of
        Found at \<Rightarrow> entries[at := (fst (entries ! at), value)]
      | Insert_At at \<Rightarrow> take at entries @ (key, value) # drop at entries)"

definition eph_get :: "ephemeral_block \<Rightarrow> ephemeral_key \<Rightarrow> string option" where
  "eph_get entries key =
     (case binary_search (map fst entries) key of
        Found at \<Rightarrow> Some (snd (entries ! at))
      | Insert_At _ \<Rightarrow> None)"

definition eph_clear :: "ephemeral_key \<Rightarrow> ephemeral_block \<Rightarrow> ephemeral_block" where
  "eph_clear key entries =
     (case binary_search (map fst entries) key of
        Found at \<Rightarrow> take at entries @ drop (Suc at) entries
      | Insert_At _ \<Rightarrow> entries)"

definition eph_deserialize :: "(ephemeral_key \<times> string) list \<Rightarrow> ephemeral_block" where
  "eph_deserialize entries = fold (\<lambda>(key, value). eph_set key value) entries []"

definition eph_render :: "ephemeral_block \<Rightarrow> string" where
  "eph_render entries =
     concat (map (\<lambda>(key, value). ephemeral_label key @ '': '' @ value @ [CHR 0x0A]) entries)"

definition eph_estimated_tokens :: "ephemeral_block \<Rightarrow> nat" where
  "eph_estimated_tokens entries = div_ceil (length (eph_render entries)) 4"

section \<open>The block is a finite map\<close>

lemma eph_search:
  "bt_sorted m \<Longrightarrow> search_result (map fst m) k (binary_search (map fst m) k)"
  by (simp add: binary_search_result bt_sorted_def)

lemma eph_set_refines: "bt_sorted m \<Longrightarrow> eph_set k v m = bt_insert k v m"
  using eph_search [of m k]
  by (cases "binary_search (map fst m) k")
    (auto simp: eph_set_def bt_insert_found bt_insert_at)

lemma eph_clear_refines: "bt_sorted m \<Longrightarrow> eph_clear k m = bt_remove k m"
  using eph_search [of m k]
  by (cases "binary_search (map fst m) k")
    (auto simp: eph_clear_def bt_remove_found bt_remove_absent simp del: search_result.simps(2)
      dest: search_absent)

lemma eph_get_refines: "bt_sorted m \<Longrightarrow> eph_get m k = map_of m k"
proof (cases "binary_search (map fst m) k")
  case (Found i)
  assume m: "bt_sorted m"
  with Found eph_search [OF m, of k] have i: "i < length m" "fst (m ! i) = k" by auto
  then have "(k, snd (m ! i)) \<in> set m" by (metis nth_mem prod.collapse)
  then have "map_of m k = Some (snd (m ! i))" by (rule map_of_is_SomeI [OF bt_sorted_distinct [OF m]])
  then show ?thesis using Found by (simp add: eph_get_def)
next
  case (Insert_At i)
  assume m: "bt_sorted m"
  then have "k \<notin> set (map fst m)"
    using search_absent eph_search [OF m, of k] Insert_At by metis
  then have "map_of m k = None" by (simp add: map_of_eq_None_iff)
  then show ?thesis using Insert_At by (simp add: eph_get_def)
qed

lemma eph_get_eq: "bt_sorted m \<Longrightarrow> eph_get m = map_of m"
  by (simp add: eph_get_refines fun_eq_iff)

interpretation eph: assoc_map eph_get eph_set eph_clear bt_sorted
  by unfold_locales
    (simp_all add: eph_get_eq eph_set_refines eph_clear_refines bt_insert_sorted bt_remove_sorted
      bt_insert_get bt_remove_get)

lemma eph_deserialize_map:
  "bt_sorted (eph_deserialize kvs) \<and> eph_get (eph_deserialize kvs) = map_of (rev kvs)"
proof -
  have "eph_get [] = Map.empty" by (simp add: eph_get_eq)
  then show ?thesis unfolding eph_deserialize_def using eph.get_fold_put [of "[]" kvs] by simp
qed

definition slots_of :: "(ephemeral_key \<Rightarrow> string option) \<Rightarrow> ephemeral_block" where
  "slots_of g = List.map_filter (\<lambda>k. map_option (Pair k) (g k)) EPHEMERAL_ALL"

lemma EPHEMERAL_ALL_sorted: "sorted_wrt (<) EPHEMERAL_ALL"
  by (simp add: EPHEMERAL_ALL_def less_ephemeral_key_def)

lemma EPHEMERAL_ALL_complete: "k \<in> set EPHEMERAL_ALL"
  by (cases k) (simp_all add: EPHEMERAL_ALL_def)

lemma map_filter_slots:
  "sorted_wrt (<) ks \<Longrightarrow>
     bt_sorted (List.map_filter (\<lambda>k. map_option (Pair k) (g k)) ks) \<and>
     map_of (List.map_filter (\<lambda>k. map_option (Pair k) (g k)) ks) k =
       (if k \<in> set ks then g k else None) \<and>
     set (map fst (List.map_filter (\<lambda>k. map_option (Pair k) (g k)) ks)) \<subseteq> set ks"
  for k :: "'k::linorder"
proof (induction ks)
  case Nil
  then show ?case by (simp add: List.map_filter_def)
next
  case (Cons j ks)
  then show ?case
    by (cases "g j") (auto simp: bt_sorted_def map_filter_simps)
qed

lemma slots_of_map: "bt_sorted (slots_of g) \<and> map_of (slots_of g) = g"
  unfolding slots_of_def using map_filter_slots [OF EPHEMERAL_ALL_sorted, of g]
  by (simp add: fun_eq_iff EPHEMERAL_ALL_complete)

lemma eph_normal: "bt_sorted m \<Longrightarrow> m = slots_of (eph_get m)"
  using slots_of_map [of "map_of m"] by (simp add: bt_unique eph_get_eq)

section \<open>Properties\<close>

text \<open>
  The volatile block behaves as a finite map however it was written: deserialising any
  entry list, in any order and with duplicate keys, yields a sorted block in which the last
  value of a key wins, and any sequence of further writes and clears keeps reads consistent.
\<close>

theorem ephemeral_is_a_map:
  "bt_sorted (eph_deserialize kvs) \<and> eph_get (eph_deserialize kvs) k = map_of (rev kvs) k \<and>
   eph_get (eph_set j v (eph_deserialize kvs)) k = (if k = j then Some v else map_of (rev kvs) k) \<and>
   eph_get (eph_clear j (eph_deserialize kvs)) k = (if k = j then None else map_of (rev kvs) k) \<and>
   bt_sorted (eph_set j v (eph_deserialize kvs)) \<and> bt_sorted (eph_clear j (eph_deserialize kvs))"
  using eph_deserialize_map [of kvs]
  by (simp add: eph.get_put eph.get_del eph.invar_put eph.invar_del)

text \<open>
  Rendering is deterministic: a well-formed block is the list of its set slots in the
  fixed slot order, so two blocks that hold the same values render to the same text whatever
  the order of the writes that built them.
\<close>

theorem ephemeral_render_canonical:
  assumes "bt_sorted m"
  shows "eph_render m = concat (map (\<lambda>k. case eph_get m k of None \<Rightarrow> []
      | Some v \<Rightarrow> ephemeral_label k @ '': '' @ v @ [CHR 0x0A]) EPHEMERAL_ALL)"
proof -
  have "eph_render (List.map_filter (\<lambda>k. map_option (Pair k) (g k)) ks) =
      concat (map (\<lambda>k. case g k of None \<Rightarrow> [] | Some v \<Rightarrow> ephemeral_label k @ '': '' @ v @ [CHR 0x0A]) ks)"
    for g ks
    by (induction ks) (auto simp: eph_render_def map_filter_simps split: option.splits)
  then have "eph_render (slots_of (eph_get m)) = concat (map (\<lambda>k. case eph_get m k of None \<Rightarrow> []
      | Some v \<Rightarrow> ephemeral_label k @ '': '' @ v @ [CHR 0x0A]) EPHEMERAL_ALL)"
    by (simp only: slots_of_def)
  then show ?thesis using eph_normal [OF assms] by simp
qed

theorem ephemeral_render_canonical_witness:
  "eph_render (eph_deserialize [(TodoState, ''b''), (Timestamp, ''a'')]) =
     ''time: a'' @ [CHR 0x0A] @ ''todo: b'' @ [CHR 0x0A]"
proof -
  have m: "eph_deserialize [(TodoState, ''b''), (Timestamp, ''a'')] = [(Timestamp, ''a''), (TodoState, ''b'')]"
    by code_simp
  have "bt_sorted [(Timestamp, ''a''), (TodoState, ''b'')]"
    by (simp add: bt_sorted_def less_ephemeral_key_def)
  from ephemeral_render_canonical [OF this] show ?thesis
    unfolding m by (simp add: EPHEMERAL_ALL_def eph_get_eq [OF \<open>bt_sorted _\<close>])
qed

end
