(* ===== verification/Ledger.thy ===== *)
theory Ledger
  imports Segments
begin

text \<open>
  \<open>crates/supra_prompt/src/ledger.rs\<close> and \<open>generation.rs\<close>: the append-only prompt ledger,
  its prefix hash, generation seals, snapshots with their validation, and the generation
  rewrite. \<open>H\<close> is the hash function throughout.
\<close>

section \<open>Errors\<close>

text \<open>
  \<open>InvalidSnapshot\<close> carries a message in the code; here it carries the data the message
  prints.
\<close>

datatype snapshot_fault =
    EntrySequence nat nat
  | EntrySeal nat
  | RepeatedSegment segment_id
  | NextSequence nat nat
  | CounterWithoutSeal nat
  | GenerationCannotAdvance
  | GenerationCounter nat nat nat
  | SealedSegmentsDiffer nat
  | SealedHashDiffers nat content_hash content_hash
  | OffsetBeyondLedger nat nat
  | OffsetBeforeIndex nat nat

datatype prompt_error =
    IndexEntryOverBudget turn_id nat
  | EvictionFailed turn_id string
  | RecallCorrupt turn_id
  | RecallMissing turn_id
  | GenerationUnverified nat string string
  | DuplicateSegment segment_id
  | RegionOrder string string
  | InvalidSnapshot snapshot_fault

section \<open>State\<close>

record generation =
  g_generation :: nat
  g_segments :: "segment_id list"
  g_prefix_hash :: content_hash

record ledger_snapshot =
  ls_entries :: "segment sealed list"
  ls_next_seq :: nat
  ls_generation :: nat
  ls_latest_generation :: "generation option"

record prompt_ledger =
  l_entries :: "segment sealed list"
  l_next_seq :: nat
  l_generation :: nat
  l_latest_generation :: "generation option"

definition ledger_new :: prompt_ledger where
  "ledger_new = \<lparr>l_entries = [], l_next_seq = 0, l_generation = 0, l_latest_generation = None\<rparr>"

abbreviation entry_id :: "segment sealed \<Rightarrow> segment_id" where
  "entry_id e \<equiv> sg_id (sl_value e)"

section \<open>Operations\<close>

definition seal_segment :: "(byte list \<Rightarrow> byte list) \<Rightarrow> nat \<Rightarrow> segment \<Rightarrow> segment sealed" where
  "seal_segment H seq s = seal_at H SEGMENT_KIND segment_canonical seq s"

definition entry_verify :: "(byte list \<Rightarrow> byte list) \<Rightarrow> segment sealed \<Rightarrow> bool" where
  "entry_verify H e = sealed_verify H SEGMENT_KIND segment_canonical e"

definition ledger_append ::
    "(byte list \<Rightarrow> byte list) \<Rightarrow> prompt_ledger \<Rightarrow> segment \<Rightarrow>
     (nat \<times> prompt_ledger, prompt_error) outcome" where
  "ledger_append H l segment =
     (if list_ex (\<lambda>e. entry_id e = sg_id segment) (l_entries l)
      then Err (DuplicateSegment (sg_id segment))
      else
        let seq = l_next_seq l in
        bind_outcome (seq_next seq) (\<lambda>next.
          Ok (seq, l\<lparr>l_next_seq := next, l_entries := l_entries l @ [seal_segment H seq segment]\<rparr>)))"

definition PREFIX_HASH_KIND :: byte where "PREFIX_HASH_KIND = 0x20"

definition pairs_canonical :: "(nat \<times> content_hash) list \<Rightarrow> writer" where
  "pairs_canonical pairs =
     w_u64 1 (length pairs) @
     concat (map (\<lambda>(seq, h). w_u64 2 seq @ w_bytes 3 (hash_bytes h)) pairs)"

definition hash_sequence ::
    "(byte list \<Rightarrow> byte list) \<Rightarrow> (nat \<times> content_hash) list \<Rightarrow> content_hash" where
  "hash_sequence H pairs = hash_of H PREFIX_HASH_KIND (pairs_canonical pairs)"

abbreviation entry_pairs :: "segment sealed list \<Rightarrow> (nat \<times> content_hash) list" where
  "entry_pairs es \<equiv> map (\<lambda>e. (sl_seq e, sl_hash e)) es"

definition prefix_hash :: "(byte list \<Rightarrow> byte list) \<Rightarrow> prompt_ledger \<Rightarrow> content_hash" where
  "prefix_hash H l = hash_sequence H (entry_pairs (l_entries l))"

definition seal_generation ::
    "(byte list \<Rightarrow> byte list) \<Rightarrow> prompt_ledger \<Rightarrow> (generation \<times> prompt_ledger, prompt_error) outcome" where
  "seal_generation H l =
     (let seal = \<lparr>g_generation = l_generation l, g_segments = map entry_id (l_entries l),
                  g_prefix_hash = prefix_hash H l\<rparr>
      in bind_outcome (u64_add (l_generation l) 1) (\<lambda>next.
           Ok (seal, l\<lparr>l_generation := next, l_latest_generation := Some seal\<rparr>)))"

definition verify_generation ::
    "(byte list \<Rightarrow> byte list) \<Rightarrow> prompt_ledger \<Rightarrow> generation \<Rightarrow> (unit, prompt_error) outcome" where
  "verify_generation H l seal =
     (let found = prefix_hash H l in
      if found \<noteq> g_prefix_hash seal
      then Err (GenerationUnverified (g_generation seal) (hash_display (g_prefix_hash seal))
             (hash_display found))
      else Ok ())"

definition clear_for_rewrite :: "prompt_ledger \<Rightarrow> prompt_ledger" where
  "clear_for_rewrite l = l\<lparr>l_entries := []\<rparr>"

section \<open>Snapshots\<close>

definition ledger_to_snapshot :: "prompt_ledger \<Rightarrow> ledger_snapshot" where
  "ledger_to_snapshot l =
     \<lparr>ls_entries = l_entries l, ls_next_seq = l_next_seq l, ls_generation = l_generation l,
      ls_latest_generation = l_latest_generation l\<rparr>"

text \<open>The loop over the entries, with the running index and the set of ids seen.\<close>

fun validate_entries ::
    "(byte list \<Rightarrow> byte list) \<Rightarrow> nat \<Rightarrow> segment_id list \<Rightarrow> segment sealed list \<Rightarrow>
     (unit, prompt_error) outcome" where
  "validate_entries H index ids [] = Ok ()"
| "validate_entries H index ids (e # es) =
     (if sl_seq e \<noteq> index then Err (InvalidSnapshot (EntrySequence index (sl_seq e)))
      else if \<not> entry_verify H e then Err (InvalidSnapshot (EntrySeal (sl_seq e)))
      else if entry_id e \<in> set ids then Err (InvalidSnapshot (RepeatedSegment (entry_id e)))
      else validate_entries H (index + 1) (entry_id e # ids) es)"

definition validate_latest ::
    "(byte list \<Rightarrow> byte list) \<Rightarrow> ledger_snapshot \<Rightarrow> (unit, prompt_error) outcome" where
  "validate_latest H s =
     (case ls_latest_generation s of
        None \<Rightarrow>
          if ls_generation s \<noteq> 0 then Err (InvalidSnapshot (CounterWithoutSeal (ls_generation s)))
          else Ok ()
      | Some seal \<Rightarrow>
          (case checked_add_u64 (g_generation seal) 1 of
             None \<Rightarrow> Err (InvalidSnapshot GenerationCannotAdvance)
           | Some expected \<Rightarrow>
               if ls_generation s \<noteq> expected
               then Err (InvalidSnapshot (GenerationCounter (ls_generation s) expected (g_generation seal)))
               else if g_segments seal \<noteq> map entry_id (ls_entries s)
               then Err (InvalidSnapshot (SealedSegmentsDiffer (g_generation seal)))
               else
                 let found = hash_sequence H (entry_pairs (ls_entries s)) in
                 if g_prefix_hash seal \<noteq> found
                 then Err (InvalidSnapshot (SealedHashDiffers (g_generation seal) (g_prefix_hash seal) found))
                 else Ok ()))"

definition validate_snapshot ::
    "(byte list \<Rightarrow> byte list) \<Rightarrow> ledger_snapshot \<Rightarrow> (unit, prompt_error) outcome" where
  "validate_snapshot H s =
     bind_outcome (validate_entries H 0 [] (ls_entries s)) (\<lambda>_.
       if ls_next_seq s \<noteq> length (ls_entries s)
       then Err (InvalidSnapshot (NextSequence (ls_next_seq s) (length (ls_entries s))))
       else validate_latest H s)"

definition ledger_from_snapshot ::
    "(byte list \<Rightarrow> byte list) \<Rightarrow> ledger_snapshot \<Rightarrow> (prompt_ledger, prompt_error) outcome" where
  "ledger_from_snapshot H s =
     bind_outcome (validate_snapshot H s) (\<lambda>_.
       Ok \<lparr>l_entries = ls_entries s, l_next_seq = ls_next_seq s, l_generation = ls_generation s,
           l_latest_generation = ls_latest_generation s\<rparr>)"

section \<open>The generation rewrite\<close>

fun reappend ::
    "(byte list \<Rightarrow> byte list) \<Rightarrow> prompt_ledger \<Rightarrow> segment list \<Rightarrow> prompt_error list \<Rightarrow>
     (prompt_ledger \<times> prompt_error list, prompt_error) outcome" where
  "reappend H l [] skipped = Ok (l, skipped)"
| "reappend H l (s # live) skipped =
     (case ledger_append H l s of
        Ok (_, l') \<Rightarrow> reappend H l' live skipped
      | Err error \<Rightarrow> reappend H l live (skipped @ [error])
      | Panic \<Rightarrow> Panic)"

definition rewrite ::
    "(byte list \<Rightarrow> byte list) \<Rightarrow> prompt_ledger \<Rightarrow>
     ((generation \<times> generation \<times> prompt_error list) \<times> prompt_ledger, prompt_error) outcome" where
  "rewrite H l =
     bind_outcome (seal_generation H l) (\<lambda>(before, l1).
       let live = map sl_value (l_entries l1) in
       bind_outcome (reappend H (clear_for_rewrite l1) live []) (\<lambda>(l2, skipped).
         bind_outcome (seal_generation H l2) (\<lambda>(after, l3).
           Ok ((before, after, skipped), l3))))"

definition verify_rewrite :: "generation \<Rightarrow> generation \<Rightarrow> (unit, prompt_error) outcome" where
  "verify_rewrite before after =
     (if g_segments before \<noteq> g_segments after
      then Err (GenerationUnverified (g_generation after) (hash_display (g_prefix_hash before))
             (hash_display (g_prefix_hash after)))
      else Ok ())"

definition needs_rewrite :: "nat \<Rightarrow> bool" where
  "needs_rewrite usage_percent \<longleftrightarrow> usage_percent \<ge> 92"

section \<open>The ledger as a transition system\<close>

datatype ledger_op = Op_Append segment | Op_Seal | Op_Clear | Op_Rewrite

inductive ledger_step ::
    "(byte list \<Rightarrow> byte list) \<Rightarrow> prompt_ledger \<Rightarrow> ledger_op \<Rightarrow> prompt_ledger \<Rightarrow> bool"
  for H :: "byte list \<Rightarrow> byte list" where
  step_append: "ledger_append H l s = Ok (seq, l') \<Longrightarrow> ledger_step H l (Op_Append s) l'"
| step_seal: "seal_generation H l = Ok (g, l') \<Longrightarrow> ledger_step H l Op_Seal l'"
| step_clear: "ledger_step H l Op_Clear (clear_for_rewrite l)"
| step_rewrite: "rewrite H l = Ok (r, l') \<Longrightarrow> ledger_step H l Op_Rewrite l'"

definition ledger_init :: "(byte list \<Rightarrow> byte list) \<Rightarrow> prompt_ledger \<Rightarrow> bool" where
  "ledger_init H l \<longleftrightarrow> l = ledger_new \<or> (\<exists>s. ledger_from_snapshot H s = Ok l)"

text \<open>Positions are consecutive and end below the next one; the seal matches the counter.\<close>

definition entries_wf :: "(byte list \<Rightarrow> byte list) \<Rightarrow> nat \<Rightarrow> segment sealed list \<Rightarrow> bool" where
  "entries_wf H next es \<longleftrightarrow>
     length es \<le> next \<and> map sl_seq es = [next - length es ..< next] \<and>
     distinct (map entry_id es) \<and> list_all (entry_verify H) es"

definition ledger_wf :: "(byte list \<Rightarrow> byte list) \<Rightarrow> prompt_ledger \<Rightarrow> bool" where
  "ledger_wf H l \<longleftrightarrow> entries_wf H (l_next_seq l) (l_entries l) \<and>
     l_generation l = (case l_latest_generation l of None \<Rightarrow> 0 | Some g \<Rightarrow> g_generation g + 1) \<and>
     (\<forall>g. l_latest_generation l = Some g \<longrightarrow> g_generation g < u64_max)"

section \<open>Lemmas on the operations\<close>

lemma id_present: "list_ex (\<lambda>e. entry_id e = i) es \<longleftrightarrow> i \<in> set (map entry_id es)"
  by (induction es) auto

lemma append_Ok:
  "ledger_append H l s = Ok (q, l') \<longleftrightarrow>
     sg_id s \<notin> set (map entry_id (l_entries l)) \<and> q = l_next_seq l \<and> l_next_seq l < u64_max \<and>
     l' = l\<lparr>l_next_seq := l_next_seq l + 1,
            l_entries := l_entries l @ [seal_segment H (l_next_seq l) s]\<rparr>"
  by (auto simp: ledger_append_def id_present bind_outcome_Ok_iff seq_next_def u64_add_def Let_def
      split: if_splits)

lemma seal_Ok:
  "seal_generation H l = Ok (g, l') \<longleftrightarrow>
     l_generation l < u64_max \<and>
     g = \<lparr>g_generation = l_generation l, g_segments = map entry_id (l_entries l),
          g_prefix_hash = prefix_hash H l\<rparr> \<and>
     l' = l\<lparr>l_generation := l_generation l + 1, l_latest_generation := Some g\<rparr>"
  by (auto simp: seal_generation_def bind_outcome_Ok_iff u64_add_def Let_def split: if_splits)

lemma seal_segment_simps [simp]:
  "sl_seq (seal_segment H n s) = n" "sl_value (seal_segment H n s) = s"
  "entry_verify H (seal_segment H n s)"
  "sl_hash (seal_segment H n s) = hash_of H SEGMENT_KIND (segment_canonical s)"
  by (simp_all add: seal_segment_def seal_at_def entry_verify_def sealed_verify_def)

lemma entries_wf_snoc:
  "entries_wf H n es \<Longrightarrow> sg_id s \<notin> set (map entry_id es) \<Longrightarrow>
   entries_wf H (Suc n) (es @ [seal_segment H n s])"
  by (auto simp: entries_wf_def)

lemma entries_wf_Nil [simp]: "entries_wf H n []"
  by (simp add: entries_wf_def)

lemma append_wf:
  "ledger_wf H l \<Longrightarrow> ledger_append H l s = Ok (q, l') \<Longrightarrow> ledger_wf H l'"
  by (auto simp: ledger_wf_def append_Ok entries_wf_snoc)

lemma seal_wf: "ledger_wf H l \<Longrightarrow> seal_generation H l = Ok (g, l') \<Longrightarrow> ledger_wf H l'"
  by (auto simp: ledger_wf_def seal_Ok)

lemma clear_wf: "ledger_wf H l \<Longrightarrow> ledger_wf H (clear_for_rewrite l)"
  by (auto simp: ledger_wf_def clear_for_rewrite_def)

lemma reappend_wf:
  "ledger_wf H l \<Longrightarrow> reappend H l live sk = Ok (l', sk') \<Longrightarrow> ledger_wf H l'"
proof (induction H l live sk rule: reappend.induct)
  case (1 H l skipped)
  then show ?case by simp
next
  case (2 H l s live skipped)
  then show ?case
    by (cases "ledger_append H l s") (auto dest: append_wf split: prod.splits)
qed

lemma reappend_fresh:
  assumes "reappend H l live sk = Ok (l', sk')"
    and "distinct (map entry_id (l_entries l) @ map sg_id live)"
  shows "sk' = sk \<and> map sl_value (l_entries l') = map sl_value (l_entries l) @ live \<and>
     l_next_seq l' = l_next_seq l + length live \<and> l_generation l' = l_generation l \<and>
     l_latest_generation l' = l_latest_generation l"
  using assms
proof (induction H l live sk rule: reappend.induct)
  case (1 H l skipped)
  then show ?case by simp
next
  case (2 H l s live skipped)
  show ?case
  proof (cases "ledger_append H l s")
    case (Ok r)
    then obtain q l1 where r: "ledger_append H l s = Ok (q, l1)" by (cases r) auto
    from r have l1: "l1 = l\<lparr>l_next_seq := l_next_seq l + 1,
            l_entries := l_entries l @ [seal_segment H (l_next_seq l) s]\<rparr>"
      by (simp only: append_Ok)
    have "reappend H l1 live skipped = Ok (l', sk')" using "2.prems"(1) r by simp
    moreover have "distinct (map entry_id (l_entries l1) @ map sg_id live)"
      using "2.prems"(2) by (auto simp: l1)
    ultimately show ?thesis using "2.IH"(1) [OF r refl] by (simp add: l1)
  next
    case (Err e)
    have "\<not> list_ex (\<lambda>e. entry_id e = sg_id s) (l_entries l)"
      unfolding id_present using "2.prems"(2) by auto
    with Err show ?thesis
      by (auto simp: ledger_append_def Let_def seq_next_def u64_add_def split: if_splits)
  next
    case Panic
    then show ?thesis using "2.prems"(1) by simp
  qed
qed

lemma rewrite_Ok:
  assumes "ledger_wf H l" "rewrite H l = Ok ((before, after, skipped), l')"
  shows "seal_generation H l = Ok (before, l\<lparr>l_generation := l_generation l + 1,
           l_latest_generation := Some before\<rparr>)"
    "\<exists>l2. seal_generation H l2 = Ok (after, l') \<and> ledger_wf H l2 \<and> l_generation l2 = l_generation l + 1 \<and>
       map sl_value (l_entries l2) = map sl_value (l_entries l) \<and>
       l_next_seq l2 = l_next_seq l + length (l_entries l)"
    "skipped = []"
proof -
  from assms(2) obtain l1 l2 where
    1: "seal_generation H l = Ok (before, l1)" and
    2: "reappend H (clear_for_rewrite l1) (map sl_value (l_entries l1)) [] = Ok (l2, skipped)" and
    3: "seal_generation H l2 = Ok (after, l')"
    by (auto simp: rewrite_def bind_outcome_Ok_iff Let_def)
  from 1 have l1: "l1 = l\<lparr>l_generation := l_generation l + 1, l_latest_generation := Some before\<rparr>"
    by (simp only: seal_Ok)
  with 1 show "seal_generation H l = Ok (before, l\<lparr>l_generation := l_generation l + 1,
           l_latest_generation := Some before\<rparr>)" by simp
  have "distinct (map entry_id (l_entries (clear_for_rewrite l1)) @ map sg_id (map sl_value (l_entries l1)))"
    using assms(1) by (simp add: clear_for_rewrite_def l1 ledger_wf_def entries_wf_def comp_def)
  from reappend_fresh [OF 2 this] have r: "skipped = []"
    "map sl_value (l_entries l2) = map sl_value (l_entries l)"
    "l_next_seq l2 = l_next_seq l + length (l_entries l)" "l_generation l2 = l_generation l + 1"
    by (simp_all add: clear_for_rewrite_def l1)
  have "ledger_wf H l2" by (rule reappend_wf [OF clear_wf [OF seal_wf [OF assms(1) 1]] 2])
  with 3 r show "\<exists>l2. seal_generation H l2 = Ok (after, l') \<and> ledger_wf H l2 \<and>
       l_generation l2 = l_generation l + 1 \<and> map sl_value (l_entries l2) = map sl_value (l_entries l) \<and>
       l_next_seq l2 = l_next_seq l + length (l_entries l)" by (intro exI conjI)
  show "skipped = []" by (rule r(1))
qed

lemma reappend_total:
  "l_next_seq l + length live \<le> u64_max \<Longrightarrow> is_Ok (reappend H l live sk)"
proof (induction H l live sk rule: reappend.induct)
  case (2 H l s live skipped)
  show ?case
  proof (cases "ledger_append H l s")
    case (Ok r)
    then obtain q l1 where r: "ledger_append H l s = Ok (q, l1)" by (cases r) auto
    then have "l_next_seq l1 = l_next_seq l + 1" by (simp add: append_Ok)
    then show ?thesis using "2.IH"(1) [OF r refl] "2.prems" r by simp
  next
    case (Err e)
    then show ?thesis using "2.IH"(2) [OF Err] "2.prems" by simp
  next
    case Panic
    then show ?thesis using "2.prems"
      by (simp add: ledger_append_def seq_next_def u64_add_def Let_def split: if_splits)
  qed
qed simp

lemma rewrite_total:
  assumes "ledger_wf H l" "l_generation l + 2 \<le> u64_max" "l_next_seq l + length (l_entries l) \<le> u64_max"
  shows "is_Ok (rewrite H l)"
proof -
  obtain g l1 where 1: "seal_generation H l = Ok (g, l1)" and
    l1: "l1 = l\<lparr>l_generation := l_generation l + 1, l_latest_generation := Some g\<rparr>"
    using assms(2) by (auto simp: seal_Ok)
  have "is_Ok (reappend H (clear_for_rewrite l1) (map sl_value (l_entries l1)) [])"
    using assms(3) by (intro reappend_total) (simp add: clear_for_rewrite_def l1)
  then obtain l2 sk where 2: "reappend H (clear_for_rewrite l1) (map sl_value (l_entries l1)) [] = Ok (l2, sk)"
    by (auto simp: is_Ok_iff)
  have "distinct (map entry_id (l_entries (clear_for_rewrite l1)) @ map sg_id (map sl_value (l_entries l1)))"
    using assms(1) by (simp add: clear_for_rewrite_def l1 ledger_wf_def entries_wf_def comp_def)
  from reappend_fresh [OF 2 this] have "l_generation l2 = l_generation l + 1"
    by (simp add: clear_for_rewrite_def l1)
  with assms(2) have "\<exists>r. seal_generation H l2 = Ok r" by (auto simp: seal_Ok)
  with 1 2 show ?thesis by (auto simp: rewrite_def Let_def)
qed

section \<open>Lemmas on snapshots\<close>

lemma validate_entries_Ok:
  "validate_entries H i ids es = Ok () \<longleftrightarrow>
     map sl_seq es = [i ..< i + length es] \<and> list_all (entry_verify H) es \<and>
     distinct (map entry_id es) \<and> set ids \<inter> set (map entry_id es) = {}"
  by (induction es arbitrary: i ids) (auto simp: upt_conv_Cons simp del: upt_Suc)

definition snapshot_ok :: "(byte list \<Rightarrow> byte list) \<Rightarrow> ledger_snapshot \<Rightarrow> bool" where
  "snapshot_ok H s \<longleftrightarrow>
     map sl_seq (ls_entries s) = [0 ..< length (ls_entries s)] \<and>
     list_all (entry_verify H) (ls_entries s) \<and> distinct (map entry_id (ls_entries s)) \<and>
     ls_next_seq s = length (ls_entries s) \<and>
     (case ls_latest_generation s of
        None \<Rightarrow> ls_generation s = 0
      | Some g \<Rightarrow> ls_generation s = g_generation g + 1 \<and> g_generation g < u64_max \<and>
          g_segments g = map entry_id (ls_entries s) \<and>
          g_prefix_hash g = hash_sequence H (entry_pairs (ls_entries s)))"

lemma validate_snapshot_Ok: "validate_snapshot H s = Ok () \<longleftrightarrow> snapshot_ok H s"
proof -
  have "validate_latest H s = Ok () \<longleftrightarrow>
     (case ls_latest_generation s of
        None \<Rightarrow> ls_generation s = 0
      | Some g \<Rightarrow> ls_generation s = g_generation g + 1 \<and> g_generation g < u64_max \<and>
          g_segments g = map entry_id (ls_entries s) \<and>
          g_prefix_hash g = hash_sequence H (entry_pairs (ls_entries s)))"
    by (auto simp: validate_latest_def checked_add_u64_def Let_def split: option.splits if_splits)
  then show ?thesis
    by (auto simp: validate_snapshot_def snapshot_ok_def bind_outcome_Ok_iff validate_entries_Ok)
qed

lemma from_snapshot_Ok:
  "ledger_from_snapshot H s = Ok l \<longleftrightarrow> snapshot_ok H s \<and> s = ledger_to_snapshot l"
  by (cases s; cases l)
    (auto simp: ledger_from_snapshot_def bind_outcome_Ok_iff validate_snapshot_Ok ledger_to_snapshot_def)

lemma validate_entries_no_panic: "validate_entries H i ids es \<noteq> Panic"
  by (induction es arbitrary: i ids) auto

lemma from_snapshot_no_panic: "ledger_from_snapshot H s \<noteq> Panic"
  using validate_entries_no_panic [of H 0 "[]" "ls_entries s"]
  by (cases "validate_entries H 0 [] (ls_entries s)")
    (auto simp: ledger_from_snapshot_def validate_snapshot_def validate_latest_def Let_def
      split: option.splits)

lemma restored_wf: "ledger_from_snapshot H s = Ok l \<Longrightarrow> ledger_wf H l"
  by (cases l) (auto simp: from_snapshot_Ok snapshot_ok_def ledger_wf_def entries_wf_def
      ledger_to_snapshot_def split: option.splits)

lemma new_wf: "ledger_wf H ledger_new"
  by (simp add: ledger_wf_def ledger_new_def)

interpretation ledger: safe_system "ledger_init H" "ledger_step H" "ledger_wf H"
  for H :: "byte list \<Rightarrow> byte list"
proof
  show "ledger_init H l \<Longrightarrow> ledger_wf H l" for l
    by (auto simp: ledger_init_def new_wf dest: restored_wf)
next
  fix l op l' assume "ledger_wf H l" "ledger_step H l op l'"
  from this(2,1) show "ledger_wf H l'"
  proof cases
    case (step_rewrite r)
    assume wf: "ledger_wf H l"
    obtain b a sk where r: "r = (b, a, sk)" by (cases r)
    from rewrite_Ok(2) [OF wf step_rewrite(2) [unfolded r]] show ?thesis by (blast intro: seal_wf)
  qed (auto intro: append_wf seal_wf clear_wf)
qed

section \<open>The prefix hash\<close>

definition pairs_ok :: "(nat \<times> content_hash) list \<Rightarrow> bool" where
  "pairs_ok ps \<longleftrightarrow> fits ps \<and> (\<forall>(seq, h) \<in> set ps. seq \<le> u64_max \<and> fits (hash_bytes h))"

lemma w_u64_le_iff:
  "v \<le> u64_max \<Longrightarrow> w \<le> u64_max \<Longrightarrow>
   w_u64 t v @ r = w_u64 u w @ s \<longleftrightarrow> t = u \<and> v = w \<and> r = s"
  by (rule w_u64_iff) (simp_all add: u64_max_def)

lemma pairs_body_split:
  "length ps = length qs \<Longrightarrow>
   \<forall>(seq, h) \<in> set ps. seq \<le> u64_max \<and> fits (hash_bytes h) \<Longrightarrow>
   \<forall>(seq, h) \<in> set qs. seq \<le> u64_max \<and> fits (hash_bytes h) \<Longrightarrow>
   concat (map (\<lambda>(seq, h). w_u64 2 seq @ w_bytes 3 (hash_bytes h)) ps) @ r =
   concat (map (\<lambda>(seq, h). w_u64 2 seq @ w_bytes 3 (hash_bytes h)) qs) @ s \<Longrightarrow> ps = qs \<and> r = s"
proof (induction ps qs rule: list_induct2)
  case Nil
  then show ?case by simp
next
  case (Cons p ps q qs)
  obtain a g b h where pq: "p = (a, g)" "q = (b, h)" by (cases p; cases q)
  have "a = b \<and> hash_bytes g = hash_bytes h \<and>
      concat (map (\<lambda>(seq, h). w_u64 2 seq @ w_bytes 3 (hash_bytes h)) ps) @ r =
      concat (map (\<lambda>(seq, h). w_u64 2 seq @ w_bytes 3 (hash_bytes h)) qs) @ s"
    using Cons.prems by (simp add: pq w_u64_le_iff w_bytes_iff)
  then show ?case using Cons by (simp add: pq content_hash.expand)
qed

interpretation pairs_seal: sealable PREFIX_HASH_KIND pairs_canonical pairs_ok
proof
  fix x y r s
  assume ok: "pairs_ok x" "pairs_ok y" and eq: "pairs_canonical x @ r = pairs_canonical y @ s"
  let ?body = "\<lambda>ps. concat (map (\<lambda>(seq, h). w_u64 2 seq @ w_bytes 3 (hash_bytes h)) ps)"
  from eq ok have len: "length x = length y" and rest: "?body x @ r = ?body y @ s"
    by (simp_all add: pairs_canonical_def pairs_ok_def fits_def w_u64_iff)
  show "x = y \<and> r = s"
    by (rule pairs_body_split [OF len _ _ rest]) (use ok in \<open>simp_all add: pairs_ok_def\<close>)
qed

text \<open>The messages that are hashed for a sequence of entries.\<close>

definition entry_message :: "segment sealed \<Rightarrow> byte list" where
  "entry_message e = for_kind SEGMENT_KIND @ segment_canonical (sl_value e)"

definition sequence_message :: "segment sealed list \<Rightarrow> byte list" where
  "sequence_message es = for_kind PREFIX_HASH_KIND @ pairs_canonical (entry_pairs es)"

definition ledger_messages :: "segment sealed list \<Rightarrow> byte list set" where
  "ledger_messages es = insert (sequence_message es) (entry_message ` set es)"

definition entries_small :: "segment sealed list \<Rightarrow> bool" where
  "entries_small es \<longleftrightarrow> fits es \<and> (\<forall>e \<in> set es. segment_ok (sl_value e) \<and> sl_seq e \<le> u64_max)"

lemma entry_hash: "entry_verify H e \<Longrightarrow> sl_hash e = ContentHash (H (entry_message e))"
  by (simp add: entry_verify_def sealed_verify_def hash_of_def entry_message_def)

lemma hash_sequence_message: "hash_sequence H (entry_pairs es) = ContentHash (H (sequence_message es))"
  by (simp add: hash_sequence_def hash_of_def sequence_message_def)

lemma entry_values:
  assumes "list_all (entry_verify H) es" "list_all (entry_verify H) fs"
    and "\<forall>e \<in> set es \<union> set fs. segment_ok (sl_value e)"
    and "inj_on H (entry_message ` (set es \<union> set fs))" "entry_pairs es = entry_pairs fs"
  shows "map sl_value es = map sl_value fs"
proof (rule nth_equalityI)
  show "length (map sl_value es) = length (map sl_value fs)"
    using arg_cong [OF assms(5), of length] by simp
next
  fix i assume "i < length (map sl_value es)"
  then have i: "i < length es" "i < length fs" using arg_cong [OF assms(5), of length] by simp_all
  have mem: "es ! i \<in> set es" "fs ! i \<in> set fs" using i by simp_all
  have "entry_pairs es ! i = entry_pairs fs ! i" using assms(5) by (rule arg_cong)
  then have "sl_hash (es ! i) = sl_hash (fs ! i)" using i by simp
  moreover have "sl_hash (es ! i) = ContentHash (H (entry_message (es ! i)))"
    "sl_hash (fs ! i) = ContentHash (H (entry_message (fs ! i)))"
    using assms(1,2) mem by (simp_all add: list_all_iff entry_hash)
  ultimately have "H (entry_message (es ! i)) = H (entry_message (fs ! i))" by simp
  then have "entry_message (es ! i) = entry_message (fs ! i)"
    by (rule inj_onD [OF assms(4)]) (use mem in \<open>auto intro!: imageI\<close>)
  then have "sl_value (es ! i) = sl_value (fs ! i)"
    using segment_seal.preimage_inj [OF assms(3) [THEN bspec, OF UnI1, OF mem(1)]
      assms(3) [THEN bspec, OF UnI2, OF mem(2)]] by (simp only: entry_message_def)
  with i show "map sl_value es ! i = map sl_value fs ! i" by simp
qed

lemma pairs_ok_entries:
  assumes "\<forall>m. length (H m) = HASH_LEN" "list_all (entry_verify H) es" "entries_small es"
  shows "pairs_ok (entry_pairs es)"
proof -
  have "length (hash_bytes (sl_hash e)) = HASH_LEN" if "e \<in> set es" for e
  proof -
    have "sl_hash e = ContentHash (H (entry_message e))"
      using assms(2) that by (intro entry_hash) (simp add: list_all_iff)
    then show ?thesis using assms(1) by simp
  qed
  then show ?thesis using assms(3)
    by (auto simp: pairs_ok_def entries_small_def fits_def HASH_LEN_def)
qed

section \<open>Properties\<close>

text \<open>
  C3. The ledger is append-only and gap-free: whatever sequence of appends, seals, clears
  and rewrites led to it, from an empty or a restored ledger, its entries carry consecutive
  sequence numbers that end just below the next one, their ids are distinct, every entry's
  content hashes to its recorded digest, and the generation counter follows the last seal.
\<close>

theorem ledger_gap_free:
  assumes "reach (ledger_init H) (ledger_step H) l"
  shows "map sl_seq (l_entries l) = [l_next_seq l - length (l_entries l) ..< l_next_seq l] \<and>
    distinct (map entry_id (l_entries l)) \<and> (\<forall>e \<in> set (l_entries l). entry_verify H e) \<and>
    l_generation l = (case l_latest_generation l of None \<Rightarrow> 0 | Some g \<Rightarrow> g_generation g + 1)"
  using ledger.reach_inv [OF assms] by (simp add: ledger_wf_def entries_wf_def list_all_iff)

lemma ledger_reach_wf: "reach (ledger_init H) (ledger_step H) l \<Longrightarrow> ledger_wf H l"
  by (rule ledger.reach_inv)

text \<open>A ledger with one segment, for the witnesses.\<close>

definition example_hash :: "byte list \<Rightarrow> byte list" where
  "example_hash m = replicate 31 0 @ [word_of_nat (length m)]"

definition example_segment :: segment where
  "example_segment = \<lparr>sg_id = SegmentId 7, sg_kind = ToolManifest, sg_blocks = []\<rparr>"

definition example_ledger :: "(byte list \<Rightarrow> byte list) \<Rightarrow> prompt_ledger" where
  "example_ledger H = ledger_new\<lparr>l_next_seq := 1, l_entries := [seal_segment H 0 example_segment]\<rparr>"

lemma example_ledger_append: "ledger_append H ledger_new example_segment = Ok (0, example_ledger H)"
  by (simp add: append_Ok ledger_new_def example_ledger_def u64_max_def)

lemma example_ledger_reach: "reach (ledger_init H) (ledger_step H) (example_ledger H)"
proof (rule reach_step)
  show "reach (ledger_init H) (ledger_step H) ledger_new"
    by (rule reach_init) (simp add: ledger_init_def)
  show "ledger_step H ledger_new (Op_Append example_segment) (example_ledger H)"
    using example_ledger_append by (rule step_append)
qed

theorem ledger_gap_free_witness:
  "map sl_seq (l_entries (example_ledger example_hash)) = [0 ..< 1]"
  using ledger_gap_free [OF example_ledger_reach [of example_hash]]
  by (simp add: example_ledger_def ledger_new_def)

text \<open>
  C5. A generation seal is tamper-evident: when the hash function does not collide on the
  messages of the two prefixes, a sealed generation verifies against a ledger exactly when
  the ledger holds the same segments at the same positions in the same order.
\<close>

theorem generation_seal_exact:
  assumes wf: "reach (ledger_init H) (ledger_step H) l0" "reach (ledger_init H) (ledger_step H) l"
    and seal: "seal_generation H l0 = Ok (seal, l0')"
    and small: "entries_small (l_entries l0)" "entries_small (l_entries l)"
    and len: "\<forall>m. length (H m) = HASH_LEN"
    and inj: "inj_on H (ledger_messages (l_entries l0) \<union> ledger_messages (l_entries l))"
  shows "verify_generation H l seal = Ok () \<longleftrightarrow>
    map (\<lambda>e. (sl_seq e, sl_value e)) (l_entries l) = map (\<lambda>e. (sl_seq e, sl_value e)) (l_entries l0)"
proof
  have v: "list_all (entry_verify H) (l_entries l0)" "list_all (entry_verify H) (l_entries l)"
    using ledger_reach_wf [OF wf(1)] ledger_reach_wf [OF wf(2)]
    by (simp_all add: ledger_wf_def entries_wf_def)
  have ok: "pairs_ok (entry_pairs (l_entries l))" "pairs_ok (entry_pairs (l_entries l0))"
    using pairs_ok_entries [OF len] v small by blast+
  assume "verify_generation H l seal = Ok ()"
  then have "H (sequence_message (l_entries l)) = H (sequence_message (l_entries l0))"
    using seal by (simp add: verify_generation_def seal_Ok prefix_hash_def hash_sequence_message
        split: if_splits)
  then have "sequence_message (l_entries l) = sequence_message (l_entries l0)"
    by (rule inj_onD [OF inj]) (simp_all add: ledger_messages_def)
  then have pairs: "entry_pairs (l_entries l) = entry_pairs (l_entries l0)"
    unfolding sequence_message_def using pairs_seal.preimage_inj [OF ok] by simp
  have "map sl_value (l_entries l) = map sl_value (l_entries l0)"
  proof (rule entry_values [OF v(2) v(1) _ _ pairs])
    show "\<forall>e \<in> set (l_entries l) \<union> set (l_entries l0). segment_ok (sl_value e)"
      using small by (auto simp: entries_small_def)
    show "inj_on H (entry_message ` (set (l_entries l) \<union> set (l_entries l0)))"
      by (rule inj_on_subset [OF inj]) (auto simp: ledger_messages_def)
  qed
  moreover have "map sl_seq (l_entries l) = map sl_seq (l_entries l0)"
    using arg_cong [OF pairs, of "map fst"] by (simp add: comp_def)
  ultimately show "map (\<lambda>e. (sl_seq e, sl_value e)) (l_entries l) = map (\<lambda>e. (sl_seq e, sl_value e)) (l_entries l0)"
    by (simp add: list_eq_iff_nth_eq)
next
  have v: "list_all (entry_verify H) (l_entries l0)" "list_all (entry_verify H) (l_entries l)"
    using ledger_reach_wf [OF wf(1)] ledger_reach_wf [OF wf(2)]
    by (simp_all add: ledger_wf_def entries_wf_def)
  have pairs: "entry_pairs es = map (\<lambda>(q, s). (q, ContentHash (H (for_kind SEGMENT_KIND @ segment_canonical s))))
      (map (\<lambda>e. (sl_seq e, sl_value e)) es)" if "list_all (entry_verify H) es" for es
    using that by (induction es) (simp_all add: entry_hash [unfolded entry_message_def])
  assume "map (\<lambda>e. (sl_seq e, sl_value e)) (l_entries l) = map (\<lambda>e. (sl_seq e, sl_value e)) (l_entries l0)"
  then have "entry_pairs (l_entries l) = entry_pairs (l_entries l0)"
    by (simp only: pairs [OF v(1)] pairs [OF v(2)])
  with seal show "verify_generation H l seal = Ok ()"
    by (simp add: verify_generation_def seal_Ok prefix_hash_def)
qed

text \<open>
  A rewrite moves content and never rewords it: with room in the counters it succeeds,
  nothing is skipped, the segments and their order are unchanged, the pair of seals verifies,
  the old seal describes the ledger before and the new one the ledger after.
\<close>

theorem rewrite_moves_content:
  assumes "reach (ledger_init H) (ledger_step H) l"
    and "l_generation l + 2 \<le> u64_max" "l_next_seq l + length (l_entries l) \<le> u64_max"
  shows "\<exists>before after l'. rewrite H l = Ok ((before, after, []), l') \<and>
    map sl_value (l_entries l') = map sl_value (l_entries l) \<and>
    verify_rewrite before after = Ok () \<and>
    verify_generation H l before = Ok () \<and> verify_generation H l' after = Ok () \<and>
    g_generation after = g_generation before + 1 \<and> l_generation l' = l_generation l + 2"
proof -
  note wf = ledger_reach_wf [OF assms(1)]
  obtain before after sk l' where r: "rewrite H l = Ok ((before, after, sk), l')"
    using rewrite_total [OF wf assms(2,3)] by (auto simp: is_Ok_iff)
  from rewrite_Ok(2) [OF wf r] obtain l2 where
    l2: "seal_generation H l2 = Ok (after, l')" "l_generation l2 = l_generation l + 1"
      "map sl_value (l_entries l2) = map sl_value (l_entries l)" by blast
  have before: "before = \<lparr>g_generation = l_generation l, g_segments = map entry_id (l_entries l),
      g_prefix_hash = prefix_hash H l\<rparr>" using rewrite_Ok(1) [OF wf r] by (simp only: seal_Ok)
  have "map entry_id (l_entries l2) = map entry_id (l_entries l)"
    using arg_cong [OF l2(3), of "map sg_id"] by (simp add: comp_def)
  moreover have "prefix_hash H l' = prefix_hash H l2" "l_entries l' = l_entries l2"
    "l_generation l' = l_generation l2 + 1" "g_generation after = l_generation l2"
    "g_segments after = map entry_id (l_entries l2)" "g_prefix_hash after = prefix_hash H l2"
    using l2(1) by (simp_all add: seal_Ok prefix_hash_def)
  ultimately have "verify_rewrite before after = Ok ()" "verify_generation H l before = Ok ()"
    "verify_generation H l' after = Ok ()" "map sl_value (l_entries l') = map sl_value (l_entries l)"
    "g_generation after = g_generation before + 1" "l_generation l' = l_generation l + 2"
    using before l2 by (simp_all add: verify_rewrite_def verify_generation_def)
  with r rewrite_Ok(3) [OF wf r] show ?thesis by blast
qed

text \<open>
  What can be resumed: the snapshot of a ledger that the program can reach restores, to
  the very same ledger, exactly when the next sequence number is its length and its last
  seal, if any, describes the live sequence.
\<close>

theorem ledger_resume_exact:
  assumes "reach (ledger_init H) (ledger_step H) l"
  shows "ledger_from_snapshot H (ledger_to_snapshot l) = Ok l \<longleftrightarrow>
    l_next_seq l = length (l_entries l) \<and>
    (case l_latest_generation l of None \<Rightarrow> True
     | Some g \<Rightarrow> g_segments g = map entry_id (l_entries l) \<and> g_prefix_hash g = prefix_hash H l)"
  using ledger_reach_wf [OF assms]
  by (auto simp: from_snapshot_Ok snapshot_ok_def ledger_to_snapshot_def ledger_wf_def
      entries_wf_def prefix_hash_def split: option.splits)

text \<open>
  A rewritten ledger cannot be resumed: although the rewrite is documented to restart
  sequence numbers at zero, it leaves the next number where it was, so after the rewrite of
  any ledger that holds a segment the snapshot is refused.
\<close>

theorem rewritten_ledger_not_resumable:
  assumes "reach (ledger_init H) (ledger_step H) l" "l_entries l \<noteq> []"
    and "rewrite H l = Ok (seals, l')"
  shows "sl_seq (hd (l_entries l')) = l_next_seq l \<and>
    (\<exists>e. ledger_from_snapshot H (ledger_to_snapshot l') = Err e)"
proof -
  note wf = ledger_reach_wf [OF assms(1)]
  obtain before after sk where s: "seals = (before, after, sk)" by (cases seals)
  from rewrite_Ok(2) [OF wf assms(3) [unfolded s]] obtain l2 where
    l2: "seal_generation H l2 = Ok (after, l')" "ledger_wf H l2"
      "map sl_value (l_entries l2) = map sl_value (l_entries l)"
      "l_next_seq l2 = l_next_seq l + length (l_entries l)" by blast
  have len: "length (l_entries l2) = length (l_entries l)"
    using arg_cong [OF l2(3), of length] by simp
  have l': "l_entries l' = l_entries l2" "l_next_seq l' = l_next_seq l2"
    using l2(1) by (simp_all add: seal_Ok)
  have "length (l_entries l) \<le> l_next_seq l" using wf by (simp add: ledger_wf_def entries_wf_def)
  moreover have "0 < length (l_entries l)" using assms(2) by simp
  ultimately have pos: "0 < length (l_entries l)" "0 < l_next_seq l" by linarith+
  have seqs: "map sl_seq (l_entries l2) = [l_next_seq l ..< l_next_seq l + length (l_entries l)]"
    using l2(2) by (simp add: ledger_wf_def entries_wf_def l2(4) len)
  have "l_entries l2 \<noteq> []" using len pos by auto
  then have hd: "sl_seq (hd (l_entries l2)) = l_next_seq l"
    using arg_cong [OF seqs, of hd] pos by (simp add: hd_map)
  have "\<not> is_Ok (ledger_from_snapshot H (ledger_to_snapshot l'))"
  proof
    assume "is_Ok (ledger_from_snapshot H (ledger_to_snapshot l'))"
    then have "snapshot_ok H (ledger_to_snapshot l')" by (auto simp: is_Ok_iff from_snapshot_Ok)
    then show False using pos(2) len
      by (simp add: snapshot_ok_def ledger_to_snapshot_def l' l2(4))
  qed
  then have "\<exists>e. ledger_from_snapshot H (ledger_to_snapshot l') = Err e"
    using from_snapshot_no_panic [of H "ledger_to_snapshot l'"]
    by (cases "ledger_from_snapshot H (ledger_to_snapshot l')") auto
  with hd l' show ?thesis by simp
qed

lemma example_entries: "l_entries (example_ledger H) = [seal_segment H 0 example_segment]"
  by (simp add: example_ledger_def)

lemma new_reach: "reach (ledger_init H) (ledger_step H) ledger_new"
  by (rule reach_init) (simp add: ledger_init_def)

theorem ledger_resume_exact_witness:
  "ledger_from_snapshot example_hash (ledger_to_snapshot (example_ledger example_hash)) =
     Ok (example_ledger example_hash)"
  using ledger_resume_exact [OF example_ledger_reach [of example_hash]]
  by (simp add: example_ledger_def ledger_new_def)

theorem rewrite_moves_content_witness:
  "\<exists>before after l'. rewrite example_hash (example_ledger example_hash) = Ok ((before, after, []), l') \<and>
     map sl_value (l_entries l') = [example_segment] \<and> l_generation l' = 2"
  using rewrite_moves_content [OF example_ledger_reach [of example_hash]]
  by (auto simp: example_ledger_def ledger_new_def u64_max_def)

theorem rewritten_ledger_not_resumable_witness:
  "\<exists>seals l' e. rewrite example_hash (example_ledger example_hash) = Ok (seals, l') \<and>
     sl_seq (hd (l_entries l')) = 1 \<and>
     ledger_from_snapshot example_hash (ledger_to_snapshot l') = Err e"
proof -
  have "is_Ok (rewrite example_hash (example_ledger example_hash))"
    by (rule rewrite_total [OF ledger_reach_wf [OF example_ledger_reach]])
      (simp_all add: example_ledger_def ledger_new_def u64_max_def)
  then obtain seals l' where r: "rewrite example_hash (example_ledger example_hash) = Ok (seals, l')"
    by (auto simp: is_Ok_iff)
  have "l_entries (example_ledger example_hash) \<noteq> []" by (simp add: example_entries)
  from rewritten_ledger_not_resumable [OF example_ledger_reach this r] obtain e where
    "sl_seq (hd (l_entries l')) = l_next_seq (example_ledger example_hash)"
    "ledger_from_snapshot example_hash (ledger_to_snapshot l') = Err e" by blast
  moreover have "l_next_seq (example_ledger example_hash) = 1" by (simp add: example_ledger_def)
  ultimately show ?thesis using r by metis
qed

theorem generation_seal_exact_witness:
  "\<exists>seal. seal_generation example_hash ledger_new = Ok (seal, ledger_new\<lparr>l_generation := 1,
       l_latest_generation := Some seal\<rparr>) \<and>
     verify_generation example_hash (example_ledger example_hash) seal \<noteq> Ok ()"
proof -
  obtain seal where s: "seal_generation example_hash ledger_new =
      Ok (seal, ledger_new\<lparr>l_generation := 1, l_latest_generation := Some seal\<rparr>)"
    by (auto simp: seal_Ok ledger_new_def u64_max_def)
  have small: "entries_small (l_entries ledger_new)" "entries_small (l_entries (example_ledger example_hash))"
    by (simp_all add: entries_small_def example_entries ledger_new_def fits_def segment_ok_def
        example_segment_def u64_max_def)
  have len: "\<forall>m. length (example_hash m) = HASH_LEN" by (simp add: example_hash_def HASH_LEN_def)
  let ?e = "seal_segment example_hash 0 example_segment"
  have "length (sequence_message []) = 18" "length (sequence_message [?e]) = 76"
    "length (entry_message ?e) = 63"
    by (simp_all add: sequence_message_def entry_message_def example_segment_def example_hash_def
        for_kind_def pairs_canonical_def segment_canonical_def kind_canonical_def w_u64_def w_bytes_def
        w_nested_def w_u8_def w_count_def ulid_le_bytes_def hash_of_def)
  then have "example_hash (sequence_message []) \<noteq> example_hash (sequence_message [?e])"
    "example_hash (sequence_message []) \<noteq> example_hash (entry_message ?e)"
    "example_hash (sequence_message [?e]) \<noteq> example_hash (entry_message ?e)"
    by (simp_all add: example_hash_def)
  then have inj: "inj_on example_hash
      (ledger_messages (l_entries ledger_new) \<union> ledger_messages (l_entries (example_ledger example_hash)))"
    by (auto simp: ledger_messages_def example_entries ledger_new_def)
  show ?thesis
    using generation_seal_exact [OF new_reach example_ledger_reach s small len inj] s
    by (auto simp: ledger_new_def example_entries)
qed

end
