(* ===== verification/Turn_Store.thy ===== *)
theory Turn_Store
  imports Segments "HOL-Library.Product_Lexorder"
begin

text \<open>
  \<open>crates/supra_store/src/turns.rs\<close>: the table of evicted turns. The table is a map from
  the primary key to its row (kept sorted by key); SQLite itself enters as a fault that may
  strike a read or the write of an operation, and a failed transaction leaves the table
  unchanged. \<open>H\<close> is the hash function and \<open>U\<close> the text form of a ULID.
\<close>

section \<open>Errors\<close>

datatype store_error =
    StoreCorrupt turn_id content_hash content_hash
  | StoreConflict turn_id content_hash content_hash
  | StoreNotFound turn_id
  | StoreMalformed string
  | StoreSqlite string

fun is_damage :: "store_error \<Rightarrow> bool" where
  "is_damage (StoreCorrupt _ _ _) = True"
| "is_damage (StoreMalformed _) = True"
| "is_damage _ = False"

fun store_error_text :: "(ulid \<Rightarrow> string) \<Rightarrow> store_error \<Rightarrow> string" where
  "store_error_text U (StoreCorrupt t stored computed) =
     ''turn '' @ U (turn_raw t) @ '' does not match the digest recorded when it was evicted (stored '' @
     hash_display stored @ '', read back as '' @ hash_display computed @
     ''); the store is damaged and the turn cannot be recalled''"
| "store_error_text U (StoreConflict t stored offered) =
     ''turn '' @ U (turn_raw t) @ '' was already evicted with different content (stored '' @
     hash_display stored @ '', offered '' @ hash_display offered @ ''); a turn has one body''"
| "store_error_text U (StoreNotFound t) = ''turn '' @ U (turn_raw t) @ '' has not been evicted''"
| "store_error_text U (StoreMalformed detail) = ''a stored row is malformed: '' @ detail"
| "store_error_text U (StoreSqlite e) = ''store operation failed: '' @ e"

section \<open>The table\<close>

record turn_row =
  tr_body :: "byte list"
  tr_hash :: "byte list"
  tr_byte_len :: int
  tr_stored_at :: int

type_synonym turn_table = "(turn_id, turn_row) btree"

datatype db_fault = NoFault | ReadFault string | WriteFault string

definition TURN_BODY_KIND :: byte where "TURN_BODY_KIND = 0x10"

definition body_canonical :: "byte list \<Rightarrow> writer" where
  "body_canonical body = w_bytes 1 body"

definition body_digest :: "(byte list \<Rightarrow> byte list) \<Rightarrow> byte list \<Rightarrow> content_hash" where
  "body_digest H body = hash_of H TURN_BODY_KIND (body_canonical body)"

interpretation body_seal: sealable TURN_BODY_KIND body_canonical fits
  by unfold_locales (auto simp: body_canonical_def w_bytes_iff)

definition decode_digest ::
    "(ulid \<Rightarrow> string) \<Rightarrow> byte list \<Rightarrow> turn_id \<Rightarrow> (content_hash, store_error) outcome" where
  "decode_digest U bytes turn =
     (if length bytes = HASH_LEN then Ok (ContentHash bytes)
      else Err (StoreMalformed (''turn '' @ U (turn_raw turn) @ '' records a '' @
             show_nat (length bytes) @ ''-byte digest, expected '' @ show_nat HASH_LEN)))"

definition read_fault :: "db_fault \<Rightarrow> store_error option" where
  "read_fault f = (case f of ReadFault e \<Rightarrow> Some (StoreSqlite e) | _ \<Rightarrow> None)"

definition store_evict_turn ::
    "(byte list \<Rightarrow> byte list) \<Rightarrow> (ulid \<Rightarrow> string) \<Rightarrow> db_fault \<times> nat \<Rightarrow> turn_id \<Rightarrow> byte list \<Rightarrow>
     turn_table \<Rightarrow> (content_hash \<times> turn_table, store_error) outcome" where
  "store_evict_turn H U env turn body table =
     (let (fault, now_ms) = env; digest = body_digest H body in
      if int (length body) > i64_max then
        Err (StoreMalformed (''a turn body of '' @ show_nat (length body) @
               '' bytes is beyond what SQLite stores''))
      else case read_fault fault of
        Some e \<Rightarrow> Err e
      | None \<Rightarrow>
          (case map_of table turn of
             Some row \<Rightarrow>
               bind_outcome (decode_digest U (tr_hash row) turn) (\<lambda>stored.
                 if stored = digest then
                   if body_digest H (tr_body row) = digest then Ok (digest, table)
                   else Err (StoreCorrupt turn stored (body_digest H (tr_body row)))
                 else Err (StoreConflict turn stored digest))
           | None \<Rightarrow>
               (case fault of
                  WriteFault e \<Rightarrow> Err (StoreSqlite e)
                | _ \<Rightarrow> Ok (digest, bt_insert turn
                    \<lparr>tr_body = body, tr_hash = hash_bytes digest, tr_byte_len = int (length body),
                     tr_stored_at = min (int now_ms) i64_max\<rparr> table))))"

definition store_recall_turn ::
    "(byte list \<Rightarrow> byte list) \<Rightarrow> (ulid \<Rightarrow> string) \<Rightarrow> db_fault \<Rightarrow> turn_id \<Rightarrow> turn_table \<Rightarrow>
     (byte list, store_error) outcome" where
  "store_recall_turn H U fault turn table =
     (case read_fault fault of
        Some e \<Rightarrow> Err e
      | None \<Rightarrow>
          (case map_of table turn of
             None \<Rightarrow> Err (StoreNotFound turn)
           | Some row \<Rightarrow>
               bind_outcome (decode_digest U (tr_hash row) turn) (\<lambda>stored.
                 let computed = body_digest H (tr_body row) in
                 if computed \<noteq> stored then Err (StoreCorrupt turn stored computed)
                 else Ok (tr_body row))))"

definition store_has_turn :: "db_fault \<Rightarrow> turn_id \<Rightarrow> turn_table \<Rightarrow> (bool, store_error) outcome" where
  "store_has_turn fault turn table =
     (case read_fault fault of Some e \<Rightarrow> Err e | None \<Rightarrow> Ok (map_of table turn \<noteq> None))"

record evicted_turn =
  ev_turn :: turn_id
  ev_digest :: content_hash
  ev_byte_len :: nat
  ev_stored_at_ms :: int

definition row_metadata ::
    "(ulid \<Rightarrow> string) \<Rightarrow> turn_id \<Rightarrow> turn_row \<Rightarrow> (evicted_turn, store_error) outcome" where
  "row_metadata U turn row =
     bind_outcome (decode_digest U (tr_hash row) turn) (\<lambda>digest.
       if tr_byte_len row < 0
       then Err (StoreMalformed (''turn '' @ U (turn_raw turn) @ '' records a negative byte length''))
       else Ok \<lparr>ev_turn = turn, ev_digest = digest, ev_byte_len = nat (tr_byte_len row),
                ev_stored_at_ms = tr_stored_at row\<rparr>)"

definition turn_metadata ::
    "(ulid \<Rightarrow> string) \<Rightarrow> db_fault \<Rightarrow> turn_id \<Rightarrow> turn_table \<Rightarrow> (evicted_turn, store_error) outcome" where
  "turn_metadata U fault turn table =
     (case read_fault fault of
        Some e \<Rightarrow> Err e
      | None \<Rightarrow> (case map_of table turn of
                   None \<Rightarrow> Err (StoreNotFound turn)
                 | Some row \<Rightarrow> row_metadata U turn row))"

definition evicted_turn_count :: "db_fault \<Rightarrow> turn_table \<Rightarrow> (nat, store_error) outcome" where
  "evicted_turn_count fault table =
     (case read_fault fault of Some e \<Rightarrow> Err e | None \<Rightarrow> Ok (length table))"

text \<open>SQLite's integer \<open>sum\<close> raises an error on overflow instead of wrapping.\<close>

definition evicted_bytes :: "db_fault \<Rightarrow> turn_table \<Rightarrow> (nat, store_error) outcome" where
  "evicted_bytes fault table =
     (case read_fault fault of
        Some e \<Rightarrow> Err e
      | None \<Rightarrow>
          let total = sum_list (map (\<lambda>(_, row). tr_byte_len row) table) in
          if \<not> in_i64 total then Err (StoreSqlite ''integer overflow'')
          else if total < 0 then Err (StoreMalformed ''a total size is not a size'')
          else Ok (nat total))"

fun collect_metadata ::
    "(ulid \<Rightarrow> string) \<Rightarrow> (turn_id \<times> turn_row) list \<Rightarrow> (evicted_turn list, store_error) outcome" where
  "collect_metadata U [] = Ok []"
| "collect_metadata U ((turn, row) # rows) =
     bind_outcome (row_metadata U turn row) (\<lambda>m.
       bind_outcome (collect_metadata U rows) (\<lambda>ms. Ok (m # ms)))"

definition evicted_turns ::
    "(ulid \<Rightarrow> string) \<Rightarrow> db_fault \<Rightarrow> turn_table \<Rightarrow> (evicted_turn list, store_error) outcome" where
  "evicted_turns U fault table =
     (case read_fault fault of
        Some e \<Rightarrow> Err e
      | None \<Rightarrow> collect_metadata U (sort_key (\<lambda>(turn, row). (tr_stored_at row, turn)) table))"

section \<open>The interface of a turn archive\<close>

text \<open>
  What a client may rely on: a successful eviction makes the turn recallable with a body of
  the same digest, and nothing a later eviction does, whatever its environment, changes what
  an archived turn reads back as.
\<close>

locale turn_archive =
  fixes evict :: "'e \<Rightarrow> turn_id \<Rightarrow> byte list \<Rightarrow> 's \<Rightarrow> (content_hash \<times> 's, store_error) outcome"
    and recall :: "turn_id \<Rightarrow> 's \<Rightarrow> (byte list, store_error) outcome"
    and digest :: "byte list \<Rightarrow> content_hash"
    and invar :: "'s \<Rightarrow> bool"
  assumes evict_recall: "invar s \<Longrightarrow> evict e t b s = Ok (d, s') \<Longrightarrow>
      d = digest b \<and> (\<exists>b'. recall t s' = Ok b' \<and> digest b' = digest b)"
    and evict_keeps: "invar s \<Longrightarrow> evict e u c s = Ok (d, s') \<Longrightarrow> recall t s = Ok b \<Longrightarrow> recall t s' = Ok b"
    and evict_invar: "invar s \<Longrightarrow> evict e t b s = Ok (d, s') \<Longrightarrow> invar s'"
begin

lemma history_keeps:
  "invar s \<Longrightarrow> recall t s = Ok b \<Longrightarrow>
   recall t (fold (\<lambda>(e, u, c) s. case evict e u c s of Ok (_, s') \<Rightarrow> s' | _ \<Rightarrow> s) ops s) = Ok b"
proof (induction ops arbitrary: s)
  case Nil
  then show ?case by simp
next
  case (Cons op ops)
  obtain e u c where op: "op = (e, u, c)" by (cases op)
  show ?case
  proof (cases "evict e u c s")
    case (Ok r)
    obtain d s' where r: "r = (d, s')" by (cases r)
    with Ok Cons.prems have "invar s'" "recall t s' = Ok b"
      by (auto intro: evict_invar evict_keeps)
    then show ?thesis using Cons.IH by (simp add: op Ok r)
  qed (use Cons in \<open>simp_all add: op\<close>)
qed

lemma lossless:
  assumes "invar s" "evict e t b s = Ok (d, s')"
    and "\<And>b'. digest b' = digest b \<Longrightarrow> recall t s' = Ok b' \<Longrightarrow> b' = b"
  shows "recall t (fold (\<lambda>(e, u, c) s. case evict e u c s of Ok (_, s') \<Rightarrow> s' | _ \<Rightarrow> s) ops s') = Ok b"
proof -
  from evict_recall [OF assms(1,2)] assms(3) have "recall t s' = Ok b" by blast
  then show ?thesis by (rule history_keeps [OF evict_invar [OF assms(1,2)]])
qed

end

section \<open>The table implements it\<close>

definition table_ok :: "turn_table \<Rightarrow> bool" where
  "table_ok table \<longleftrightarrow> bt_sorted table"

lemma recall_intact:
  "store_recall_turn H U NoFault t table = Ok b \<longleftrightarrow>
     (\<exists>row. map_of table t = Some row \<and> tr_body row = b \<and> length (tr_hash row) = HASH_LEN \<and>
        ContentHash (tr_hash row) = body_digest H b)"
  by (auto simp: store_recall_turn_def read_fault_def decode_digest_def bind_outcome_Ok_iff Let_def
      split: option.splits if_splits)

lemma recall_body:
  "store_recall_turn H U NoFault t table = Ok b \<Longrightarrow> map_option tr_body (map_of table t) = Some b"
  by (auto simp: recall_intact)

lemma evict_table:
  "store_evict_turn H U env t b table = Ok (d, table') \<Longrightarrow>
     map_option tr_body (map_of table' t) =
       (case map_of table t of Some row \<Rightarrow> Some (tr_body row) | None \<Rightarrow> Some b)"
  by (cases env) (auto simp: store_evict_turn_def Let_def decode_digest_def bind_outcome_Ok_iff bt_insert_get
      split: option.splits if_splits db_fault.splits)

lemma evict_Ok:
  "store_evict_turn H U (fault, now) t b table = Ok (d, table') \<Longrightarrow>
     d = body_digest H b \<and>
     (case map_of table t of
        Some row \<Rightarrow> table' = table \<and> length (tr_hash row) = HASH_LEN \<and> ContentHash (tr_hash row) = d \<and>
          body_digest H (tr_body row) = d
      | None \<Rightarrow> table' = bt_insert t \<lparr>tr_body = b, tr_hash = hash_bytes d, tr_byte_len = int (length b),
          tr_stored_at = min (int now) i64_max\<rparr> table)"
  by (auto simp: store_evict_turn_def Let_def decode_digest_def bind_outcome_Ok_iff
      split: option.splits if_splits db_fault.splits)

lemma length_body_digest:
  "\<forall>m. length (H m) = HASH_LEN \<Longrightarrow> length (hash_bytes (body_digest H b)) = HASH_LEN"
  by (simp add: body_digest_def hash_of_def)

text \<open>
  The digest type has 32 bytes, so the function is brought to that width; on a function that
  already has it this is the identity.
\<close>

definition width32 :: "(byte list \<Rightarrow> byte list) \<Rightarrow> byte list \<Rightarrow> byte list" where
  "width32 H m = take HASH_LEN (H m @ replicate HASH_LEN 0)"

lemma width32_length: "length (width32 H m) = HASH_LEN"
  by (simp add: width32_def min_def)

lemma width32_id: "\<forall>m. length (H m) = HASH_LEN \<Longrightarrow> width32 H = H"
  by (simp add: width32_def fun_eq_iff)

interpretation archive: turn_archive
    "store_evict_turn (width32 H) U"
    "store_recall_turn (width32 H) U NoFault"
    "body_digest (width32 H)" table_ok
  for H :: "byte list \<Rightarrow> byte list" and U :: "ulid \<Rightarrow> string"
proof
  let ?H = "width32 H"
  have len: "\<forall>m. length (?H m) = HASH_LEN" by (simp add: width32_length)
  fix s s' :: turn_table and e :: "db_fault \<times> nat" and t b d
  obtain fault now where e: "e = (fault, now)" by (cases e)
  assume ev: "store_evict_turn ?H U e t b s = Ok (d, s')"
  note ok = evict_Ok [OF ev [unfolded e]]
  show "d = body_digest ?H b \<and>
      (\<exists>b'. store_recall_turn ?H U NoFault t s' = Ok b' \<and> body_digest ?H b' = body_digest ?H b)"
  proof (cases "map_of s t")
    case None
    with ok have "map_of s' t = Some \<lparr>tr_body = b, tr_hash = hash_bytes d, tr_byte_len = int (length b),
          tr_stored_at = min (int now) i64_max\<rparr>" by (simp add: bt_insert_get)
    then have "store_recall_turn ?H U NoFault t s' = Ok b"
      using ok length_body_digest [OF len, of b] by (simp add: recall_intact)
    with ok show ?thesis by blast
  next
    case (Some row)
    with ok show ?thesis by (auto simp: recall_intact)
  qed
  show "table_ok s \<Longrightarrow> table_ok s'"
    using ok by (cases "map_of s t") (simp_all add: table_ok_def bt_insert_sorted)
  fix u c
  assume "store_recall_turn ?H U NoFault u s = Ok c"
  then show "store_recall_turn ?H U NoFault u s' = Ok c"
    using ok by (cases "map_of s t") (auto simp: recall_intact bt_insert_get)
qed

section \<open>Properties\<close>

definition evict_all ::
    "(byte list \<Rightarrow> byte list) \<Rightarrow> (ulid \<Rightarrow> string) \<Rightarrow>
     ((db_fault \<times> nat) \<times> turn_id \<times> byte list) list \<Rightarrow> turn_table \<Rightarrow> turn_table" where
  "evict_all H U = fold (\<lambda>(e, u, c) s. case store_evict_turn H U e u c s of Ok (_, s') \<Rightarrow> s' | _ \<Rightarrow> s)"

text \<open>
  C4. Eviction is lossless: once a turn's eviction succeeds, and unless the digest collides
  with that of another body, recalling it returns exactly the bytes that were evicted, after
  any later sequence of evictions of this or other turns, whichever of them fail.
\<close>

theorem store_lossless:
  assumes "\<forall>m. length (H m) = HASH_LEN" "bt_sorted table"
    and "store_evict_turn H U env turn body table = Ok (d, table')"
    and "\<forall>other. body_digest H other = body_digest H body \<longrightarrow>
      (\<exists>row. map_of table turn = Some row \<and> tr_body row = other) \<longrightarrow> other = body"
  shows "store_recall_turn H U NoFault turn (evict_all H U ops table') = Ok body"
proof -
  have H: "width32 H = H" by (rule width32_id [OF assms(1)])
  have "b' = body" if b': "body_digest H b' = body_digest H body"
      "store_recall_turn H U NoFault turn table' = Ok b'" for b'
  proof (cases "map_of table turn")
    case None
    then show ?thesis using evict_table [OF assms(3)] recall_body [OF b'(2)] by simp
  next
    case (Some row)
    then have "tr_body row = b'" using evict_table [OF assms(3)] recall_body [OF b'(2)] by simp
    with Some b'(1) assms(4) show ?thesis by blast
  qed
  then show ?thesis
    unfolding evict_all_def
  proof (rule archive.lossless [where H = H, unfolded H, rotated 2])
    show "table_ok table" using assms(2) by (simp only: table_ok_def)
    show "store_evict_turn H U env turn body table = Ok (d, table')" by (rule assms(3))
  qed
qed

theorem store_lossless_witness:
  "store_recall_turn (\<lambda>_. replicate 32 1) (\<lambda>_. []) NoFault (TurnId 1)
     (evict_all (\<lambda>_. replicate 32 1) (\<lambda>_. []) [((NoFault, 5), TurnId 2, [9]), ((WriteFault [], 6), TurnId 3, [])]
       (bt_insert (TurnId 1) \<lparr>tr_body = [7], tr_hash = replicate 32 1, tr_byte_len = 1, tr_stored_at = 4\<rparr> []))
   = Ok [7]"
proof (rule store_lossless [where table = "[]" and env = "(NoFault, 4)" and body = "[7]"
      and d = "ContentHash (replicate 32 1)"])
  show "store_evict_turn (\<lambda>_. replicate 32 1) (\<lambda>_. []) (NoFault, 4) (TurnId 1) [7] [] =
     Ok (ContentHash (replicate 32 1), bt_insert (TurnId 1)
       \<lparr>tr_body = [7], tr_hash = replicate 32 1, tr_byte_len = 1, tr_stored_at = 4\<rparr> [])"
    by (simp add: store_evict_turn_def read_fault_def body_digest_def hash_of_def i64_max_def Let_def)
qed (simp_all add: HASH_LEN_def)

text \<open>
  A recall never returns altered bytes: whatever the row in the table is, the bytes that
  come back hash to the digest recorded beside them, and a row whose bytes do not is reported
  as damage by the recall, and by a retried eviction of the original body, which is then
  refused instead of certified.
\<close>

theorem recall_verified:
  "(\<forall>b. store_recall_turn H U NoFault turn table = Ok b \<longrightarrow>
      (\<exists>row. map_of table turn = Some row \<and> b = tr_body row \<and>
         tr_hash row = hash_bytes (body_digest H b))) \<and>
   (\<forall>row body. map_of table turn = Some row \<longrightarrow> length (tr_hash row) = HASH_LEN \<longrightarrow>
      ContentHash (tr_hash row) = body_digest H body \<longrightarrow> body_digest H (tr_body row) \<noteq> body_digest H body \<longrightarrow>
      int (length body) \<le> i64_max \<longrightarrow>
      (\<exists>e. store_recall_turn H U NoFault turn table = Err e \<and> is_damage e) \<and>
      (\<exists>e. store_evict_turn H U (NoFault, now) turn body table = Err e \<and> is_damage e))"
proof (intro conjI allI impI)
  fix b assume "store_recall_turn H U NoFault turn table = Ok b"
  then obtain row where "map_of table turn = Some row" "tr_body row = b"
    "ContentHash (tr_hash row) = body_digest H b" by (auto simp: recall_intact)
  then show "\<exists>row. map_of table turn = Some row \<and> b = tr_body row \<and>
      tr_hash row = hash_bytes (body_digest H b)"
    by (intro exI [of _ row]) (metis content_hash.sel)
next
  fix row body
  assume row: "map_of table turn = Some row" "length (tr_hash row) = HASH_LEN"
    "ContentHash (tr_hash row) = body_digest H body" "body_digest H (tr_body row) \<noteq> body_digest H body"
    "int (length body) \<le> i64_max"
  then show "\<exists>e. store_recall_turn H U NoFault turn table = Err e \<and> is_damage e"
    by (simp add: store_recall_turn_def read_fault_def decode_digest_def Let_def)
  from row show "\<exists>e. store_evict_turn H U (NoFault, now) turn body table = Err e \<and> is_damage e"
    by (simp add: store_evict_turn_def read_fault_def decode_digest_def Let_def)
qed

theorem recall_verified_witness:
  "\<exists>e. store_recall_turn (\<lambda>m. replicate 31 0 @ [word_of_nat (length m)]) (\<lambda>_. []) NoFault (TurnId 1)
     [(TurnId 1, \<lparr>tr_body = [7, 7], tr_hash = replicate 31 0 @ [11], tr_byte_len = 1, tr_stored_at = 4\<rparr>)] = Err e
     \<and> is_damage e"
proof -
  let ?H = "\<lambda>m :: byte list. replicate 31 0 @ [word_of_nat (length m)] :: byte list"
  let ?row = "\<lparr>tr_body = [7, 7], tr_hash = replicate 31 0 @ [11], tr_byte_len = 1, tr_stored_at = 4\<rparr>"
  have "ContentHash (tr_hash ?row) = body_digest ?H [8]" "body_digest ?H (tr_body ?row) \<noteq> body_digest ?H [8]"
    by (simp_all add: body_digest_def hash_of_def body_canonical_def w_bytes_def for_kind_def)
  then show ?thesis
    using recall_verified [of ?H "\<lambda>_. []" "TurnId 1" "[(TurnId 1, ?row)]"]
    by (auto simp: HASH_LEN_def i64_max_def)
qed

end
