(* ===== verification/Evict.thy ===== *)
theory Evict
  imports Ledger Turn_Store
begin

text \<open>
  \<open>crates/supra_prompt/src/evict.rs\<close>: what an evicted turn keeps, the index entry that
  replaces it, and eviction and recall through the turn archive of \<open>Turn_Store\<close>.
\<close>

section \<open>What is kept\<close>

datatype thinking_disposition = Keep | Drop

fun is_tool_use :: "block \<Rightarrow> bool" where
  "is_tool_use (ToolUse _ _ _) = True"
| "is_tool_use _ = False"

definition disposition_decide :: "block list \<Rightarrow> thinking_disposition" where
  "disposition_decide blocks = (if list_ex is_tool_use blocks then Keep else Drop)"

fun is_unsigned_thinking :: "block \<Rightarrow> bool" where
  "is_unsigned_thinking (Thinking _ None) = True"
| "is_unsigned_thinking _ = False"

fun render_body :: "block list \<Rightarrow> thinking_disposition \<Rightarrow> block list" where
  "render_body blocks Keep = blocks"
| "render_body blocks Drop = filter (\<lambda>b. \<not> is_unsigned_thinking b) blocks"

definition plan_eviction :: "segment sealed \<Rightarrow> block list \<times> thinking_disposition" where
  "plan_eviction entry =
     (let blocks = sg_blocks (sl_value entry); disposition = disposition_decide blocks
      in (render_body blocks disposition, disposition))"

section \<open>The index entry\<close>

definition index_entry ::
    "turn_id \<Rightarrow> string \<Rightarrow> string \<Rightarrow> (memory_index_entry, prompt_error) outcome" where
  "index_entry turn topic gist =
     (let bytes = length topic + length gist in
      case entry_new turn topic gist of
        Ok e \<Rightarrow> Ok e
      | Err _ \<Rightarrow> Err (IndexEntryOverBudget turn bytes)
      | Panic \<Rightarrow> Panic)"

definition index_segment :: "memory_index_entry \<Rightarrow> segment_id \<Rightarrow> segment option" where
  "index_segment entry sid =
     (case segment_new sid (MemoryIndex entry) [] of Ok s \<Rightarrow> Some s | _ \<Rightarrow> None)"

section \<open>Eviction and recall\<close>

definition prompt_evict_turn ::
    "(byte list \<Rightarrow> byte list) \<Rightarrow> (ulid \<Rightarrow> string) \<Rightarrow> db_fault \<times> nat \<Rightarrow> turn_table \<Rightarrow> turn_id \<Rightarrow> byte list \<Rightarrow>
     (content_hash \<times> turn_table, prompt_error) outcome" where
  "prompt_evict_turn H U env store turn body =
     (case store_evict_turn H U env turn body store of
        Ok r \<Rightarrow> Ok r
      | Err error \<Rightarrow> Err (EvictionFailed turn (store_error_text U error))
      | Panic \<Rightarrow> Panic)"

definition prompt_recall_turn ::
    "(byte list \<Rightarrow> byte list) \<Rightarrow> (ulid \<Rightarrow> string) \<Rightarrow> db_fault \<Rightarrow> turn_table \<Rightarrow> turn_id \<Rightarrow>
     (byte list, prompt_error) outcome" where
  "prompt_recall_turn H U fault store turn =
     (case store_recall_turn H U fault turn store of
        Ok body \<Rightarrow> Ok body
      | Err (StoreNotFound _) \<Rightarrow> Err (RecallMissing turn)
      | Err (StoreCorrupt _ _ _) \<Rightarrow> Err (RecallCorrupt turn)
      | Err other \<Rightarrow> Err (EvictionFailed turn (store_error_text U other))
      | Panic \<Rightarrow> Panic)"

section \<open>Lemmas\<close>

lemma tool_traffic_not_thinking: "is_unsigned_thinking b \<Longrightarrow> \<not> is_tool_traffic b"
  by (cases b) auto

lemma filter_keeps_one_run:
  assumes "\<forall>b. P b \<or> \<not> is_tool_traffic b" "interleaving_loop 0 False False bs = None"
  shows "interleaving_loop 0 False False (filter P bs) = None"
proof -
  obtain pre run rest where bs: "bs = pre @ run @ rest"
    and parts: "tool_free pre" "all_tool run" "tool_free rest"
    using assms(2) [unfolded first_interleaving_None] by (elim exE conjE)
  have "filter P bs = filter P pre @ filter P run @ filter P rest" by (simp add: bs)
  moreover have "tool_free (filter P pre)" "all_tool (filter P run)" "tool_free (filter P rest)"
    using parts by auto
  ultimately show ?thesis unfolding first_interleaving_None by (intro exI conjI)
qed

lemma prompt_evict_Ok:
  "prompt_evict_turn H U env store t b = Ok r \<longleftrightarrow> store_evict_turn H U env t b store = Ok r"
  by (cases "store_evict_turn H U env t b store") (simp_all add: prompt_evict_turn_def)

lemma prompt_recall_Ok:
  "prompt_recall_turn H U f store t = Ok b \<longleftrightarrow> store_recall_turn H U f t store = Ok b"
  by (auto simp: prompt_recall_turn_def split: outcome.splits store_error.splits)

section \<open>Properties\<close>

text \<open>
  Eviction drops only what the API declares omissible: a turn with a tool call is kept
  verbatim; any other turn loses exactly its unsigned thinking, so every signed thinking
  block, text and tool result survives in order; and a body built this way is again accepted
  by the segment constructor.
\<close>

theorem eviction_keeps_required:
  assumes "segment_new i k bs = Ok s"
  shows "(list_ex is_tool_use bs \<longrightarrow> plan_eviction (seal_segment H n s) = (bs, Keep)) \<and>
    (\<not> list_ex is_tool_use bs \<longrightarrow>
       plan_eviction (seal_segment H n s) = (filter (\<lambda>b. \<not> is_unsigned_thinking b) bs, Drop)) \<and>
    is_Ok (segment_new j k (fst (plan_eviction (seal_segment H n s))))"
proof -
  from assms have s: "sg_blocks s = bs" "is_memory_index k \<longrightarrow> bs = []"
    and runs: "interleaving_loop 0 False False bs = None"
    by (auto simp: segment_new_Ok first_interleaving_def)
  have "interleaving_loop 0 False False (filter (\<lambda>b. \<not> is_unsigned_thinking b) bs) = None"
    by (rule filter_keeps_one_run [OF _ runs]) (use tool_traffic_not_thinking in blast)
  with runs s show ?thesis
    by (auto simp: plan_eviction_def disposition_decide_def is_Ok_iff segment_new_Ok
        first_interleaving_def Let_def)
qed

theorem eviction_keeps_required_witness:
  "plan_eviction (seal_segment (\<lambda>_. []) 0 \<lparr>sg_id = SegmentId 1, sg_kind = Turn (TurnId 2) Assistant,
       sg_blocks = [Thinking ''a'' None, Thinking ''b'' (Some ''sig''), Text ''c'']\<rparr>) =
     ([Thinking ''b'' (Some ''sig''), Text ''c''], Drop)"
  using eviction_keeps_required [of "SegmentId 1" "Turn (TurnId 2) Assistant"
      "[Thinking ''a'' None, Thinking ''b'' (Some ''sig''), Text ''c'']"]
  by (simp add: segment_new_def first_interleaving_def)

text \<open>
  Commit before drop is recoverable: when the prompt layer's eviction of a turn succeeds,
  a recall through the prompt layer returns the same bytes, at once and after any later
  evictions; when it fails, the archive is as it was and the error names the turn; and a turn
  that was never archived is reported missing, not damaged.
\<close>

theorem evicted_turn_recalls:
  assumes "\<forall>m. length (H m) = HASH_LEN" "bt_sorted store" "map_of store turn = None"
  shows "(\<forall>d store' ops. prompt_evict_turn H U env store turn body = Ok (d, store') \<longrightarrow>
      prompt_recall_turn H U NoFault (evict_all H U ops store') turn = Ok body) \<and>
    (\<forall>e. prompt_evict_turn H U env store turn body = Err e \<longrightarrow> (\<exists>msg. e = EvictionFailed turn msg)) \<and>
    prompt_recall_turn H U NoFault store turn = Err (RecallMissing turn)"
proof (intro conjI allI impI)
  fix d store' ops assume "prompt_evict_turn H U env store turn body = Ok (d, store')"
  then have ev: "store_evict_turn H U env turn body store = Ok (d, store')"
    by (simp only: prompt_evict_Ok)
  obtain f n where e: "env = (f, n)" by (cases env)
  from evict_Ok [OF ev [unfolded e]] assms(3)
  have "map_of store' turn = Some \<lparr>tr_body = body, tr_hash = hash_bytes d, tr_byte_len = int (length body),
      tr_stored_at = min (int n) i64_max\<rparr>" "d = body_digest H body"
    by (simp_all add: bt_insert_get)
  then have "store_recall_turn H U NoFault turn store' = Ok body"
    using length_body_digest [OF assms(1)] by (simp add: recall_intact)
  moreover have "table_ok store'"
    using evict_Ok [OF ev [unfolded e]] assms(2,3) by (simp add: table_ok_def bt_insert_sorted)
  ultimately have "store_recall_turn H U NoFault turn (evict_all H U ops store') = Ok body"
    unfolding evict_all_def
    by (intro archive.history_keeps [where H = H, unfolded width32_id [OF assms(1)]])
  then show "prompt_recall_turn H U NoFault (evict_all H U ops store') turn = Ok body"
    by (simp only: prompt_recall_Ok)
next
  fix e assume "prompt_evict_turn H U env store turn body = Err e"
  then show "\<exists>msg. e = EvictionFailed turn msg"
    by (cases "store_evict_turn H U env turn body store") (auto simp: prompt_evict_turn_def)
next
  show "prompt_recall_turn H U NoFault store turn = Err (RecallMissing turn)"
    using assms(3) by (simp add: prompt_recall_turn_def store_recall_turn_def read_fault_def)
qed

theorem evicted_turn_recalls_witness:
  "prompt_recall_turn (\<lambda>_. replicate 32 1) (\<lambda>_. []) NoFault
     (evict_all (\<lambda>_. replicate 32 1) (\<lambda>_. []) [((NoFault, 9), TurnId 1, [8])]
       [(TurnId 1, \<lparr>tr_body = [7], tr_hash = replicate 32 1, tr_byte_len = 1, tr_stored_at = 4\<rparr>)])
     (TurnId 1) = Ok [7]"
proof -
  have "prompt_evict_turn (\<lambda>_. replicate 32 1) (\<lambda>_. []) (NoFault, 4) [] (TurnId 1) [7] =
     Ok (ContentHash (replicate 32 1),
       [(TurnId 1, \<lparr>tr_body = [7], tr_hash = replicate 32 1, tr_byte_len = 1, tr_stored_at = 4\<rparr>)])"
    by (simp add: prompt_evict_turn_def store_evict_turn_def read_fault_def body_digest_def hash_of_def
        i64_max_def Let_def)
  then show ?thesis
    using evicted_turn_recalls [of "\<lambda>_. replicate 32 1" "[]" "TurnId 1" "\<lambda>_. []" "(NoFault, 4)" "[7]"]
    by (auto simp: HASH_LEN_def)
qed

section \<open>Divergence from the documentation\<close>

text \<open>
  \<open>index_segment\<close> is documented to return nothing for an entry over the content budget. The
  constructor it calls does not look at the entry, so a segment comes back for every entry.
\<close>

lemma index_segment_total:
  "index_segment entry sid = Some \<lparr>sg_id = sid, sg_kind = MemoryIndex entry, sg_blocks = []\<rparr>"
  by (simp add: index_segment_def segment_new_def first_interleaving_def)

end
