(* ===== verification/Cache_Plan.thy ===== *)
theory Cache_Plan
  imports Ledger
begin

text \<open>
  Prompt-cache arithmetic (\<open>crates/supra_types/src/cache.rs\<close>), the placement of the four
  breakpoints over a ledger (\<open>crates/supra_prompt/src/breakpoints.rs\<close>), and the policy of
  each provider (\<open>crates/supra_llm/src/policy.rs\<close>).
\<close>

section \<open>Cache arithmetic\<close>

definition READ_MULTIPLIER_PERCENT :: nat where "READ_MULTIPLIER_PERCENT = 10"
definition UNCACHED_MULTIPLIER_PERCENT :: nat where "UNCACHED_MULTIPLIER_PERCENT = 100"
definition MAX_BREAKPOINTS :: nat where "MAX_BREAKPOINTS = 4"
definition LOOKBACK_BLOCKS :: nat where "LOOKBACK_BLOCKS = 20"

datatype cache_ttl = FiveMinutes | OneHour

fun ttl_rank :: "cache_ttl \<Rightarrow> nat" where
  "ttl_rank FiveMinutes = 0" | "ttl_rank OneHour = 1"

fun write_multiplier_percent :: "cache_ttl \<Rightarrow> nat" where
  "write_multiplier_percent FiveMinutes = 125" | "write_multiplier_percent OneHour = 200"

fun ttl_seconds :: "cache_ttl \<Rightarrow> nat" where
  "ttl_seconds FiveMinutes = 300" | "ttl_seconds OneHour = 3600"

datatype breakpoint = Bp1Tools | Bp2System | Bp3MemoryIndex | Bp4PreviousTurn

definition BREAKPOINT_ALL :: "breakpoint list" where
  "BREAKPOINT_ALL = [Bp1Tools, Bp2System, Bp3MemoryIndex, Bp4PreviousTurn]"

fun breakpoint_ttl :: "breakpoint \<Rightarrow> cache_ttl" where
  "breakpoint_ttl Bp1Tools = OneHour" | "breakpoint_ttl Bp2System = OneHour"
| "breakpoint_ttl Bp3MemoryIndex = OneHour" | "breakpoint_ttl Bp4PreviousTurn = FiveMinutes"

fun breakpoint_position :: "breakpoint \<Rightarrow> nat" where
  "breakpoint_position Bp1Tools = 1" | "breakpoint_position Bp2System = 2"
| "breakpoint_position Bp3MemoryIndex = 3" | "breakpoint_position Bp4PreviousTurn = 4"

fun is_rolling :: "breakpoint \<Rightarrow> bool" where
  "is_rolling Bp4PreviousTurn = True"
| "is_rolling _ = False"

definition ttl_order_is_valid :: "breakpoint list \<Rightarrow> bool" where
  "ttl_order_is_valid bps =
     (if length bps > MAX_BREAKPOINTS then False
      else list_all (\<lambda>(x, y). ttl_rank (breakpoint_ttl x) \<ge> ttl_rank (breakpoint_ttl y)) (windows2 bps))"

datatype minimum_cacheable = Tokens512 | Tokens1024 | Tokens2048 | Tokens4096

fun minimum_tokens :: "minimum_cacheable \<Rightarrow> nat" where
  "minimum_tokens Tokens512 = 512" | "minimum_tokens Tokens1024 = 1024"
| "minimum_tokens Tokens2048 = 2048" | "minimum_tokens Tokens4096 = 4096"

text \<open>\<open>saturating_sub\<close> on \<open>u32\<close> is subtraction of naturals.\<close>

definition padding_needed :: "nat \<Rightarrow> minimum_cacheable \<Rightarrow> nat" where
  "padding_needed prefix_tokens minimum = minimum_tokens minimum - prefix_tokens"

section \<open>The plan\<close>

record plan =
  bp1_tools :: nat
  bp2_system :: nat
  bp3_memory :: nat
  bp4_previous :: nat

definition plan_offsets :: "plan \<Rightarrow> nat list" where
  "plan_offsets p = [bp1_tools p, bp2_system p, bp3_memory p, bp4_previous p]"

fun plan_step ::
    "nat \<Rightarrow> nat \<times> nat \<times> nat \<Rightarrow> segment_kind \<Rightarrow> (nat \<times> nat \<times> nat, prompt_error) outcome" where
  "plan_step index (bp1, bp2, bp3) ToolManifest =
     (if bp2 > 0 then Err (RegionOrder ''tools'' ''system'')
      else if bp3 > 0 then Err (RegionOrder ''tools'' ''memory'')
      else Ok (index + 1, bp2, bp3))"
| "plan_step index (bp1, bp2, bp3) SystemContract =
     (if bp3 > 0 then Err (RegionOrder ''system'' ''memory'')
      else Ok (bp1, index + 1, bp3))"
| "plan_step index (bp1, bp2, bp3) (MemoryIndex _) = Ok (bp1, bp2, index + 1)"
| "plan_step index (bp1, bp2, bp3) (Turn _ _) = Ok (bp1, bp2, bp3)"

fun plan_loop ::
    "nat \<Rightarrow> nat \<times> nat \<times> nat \<Rightarrow> segment_kind list \<Rightarrow> (nat \<times> nat \<times> nat, prompt_error) outcome" where
  "plan_loop index bps [] = Ok bps"
| "plan_loop index bps (k # ks) =
     bind_outcome (plan_step index bps k) (\<lambda>bps'. plan_loop (index + 1) bps' ks)"

definition plan_breakpoints_at :: "segment sealed list \<Rightarrow> nat \<Rightarrow> (plan, prompt_error) outcome" where
  "plan_breakpoints_at segments previous_turn_end =
     (if previous_turn_end > length segments
      then Err (InvalidSnapshot (OffsetBeyondLedger previous_turn_end (length segments)))
      else bind_outcome (plan_loop 0 (0, 0, 0) (map (\<lambda>e. sg_kind (sl_value e)) segments))
        (\<lambda>(bp1, bp2, bp3).
           if previous_turn_end < bp3 then Err (InvalidSnapshot (OffsetBeforeIndex previous_turn_end bp3))
           else Ok \<lparr>bp1_tools = bp1, bp2_system = bp2, bp3_memory = bp3,
                    bp4_previous = previous_turn_end\<rparr>))"

definition plan_breakpoints :: "segment sealed list \<Rightarrow> (plan, prompt_error) outcome" where
  "plan_breakpoints segments = plan_breakpoints_at segments (length segments)"

definition positions_from :: "segment sealed list \<Rightarrow> nat \<Rightarrow> nat" where
  "positions_from segments offset =
     sum_list (map (\<lambda>e. lookback_positions (sl_value e)) (drop offset segments))"

text \<open>Slicing from an offset beyond the length panics.\<close>

fun lookback_check ::
    "segment sealed list \<Rightarrow> (nat \<times> breakpoint) list \<Rightarrow> (unit, breakpoint) outcome" where
  "lookback_check segments [] = Ok ()"
| "lookback_check segments ((offset, bp) # rest) =
     (if offset > length segments then Panic
      else if positions_from segments offset > LOOKBACK_BLOCKS then Err bp
      else lookback_check segments rest)"

definition check_lookback :: "plan \<Rightarrow> segment sealed list \<Rightarrow> (unit, breakpoint) outcome" where
  "check_lookback p segments = lookback_check segments (zip (plan_offsets p) BREAKPOINT_ALL)"

definition truncate_for_policy :: "breakpoint list \<Rightarrow> nat \<Rightarrow> breakpoint list" where
  "truncate_for_policy breakpoints max_breakpoints = take max_breakpoints breakpoints"

definition find_reversal :: "plan \<Rightarrow> (breakpoint \<times> breakpoint) option" where
  "find_reversal p =
     map_option snd (List.find (\<lambda>((x, y), _). x > y)
       (zip (windows2 (plan_offsets p)) (windows2 BREAKPOINT_ALL)))"

definition plan_validate :: "plan \<Rightarrow> segment sealed list \<Rightarrow> (unit, breakpoint) outcome" where
  "plan_validate p segments =
     (if find_reversal p \<noteq> None then
        (case List.find (\<lambda>((x, y), _). x > y) (zip (windows2 (plan_offsets p)) BREAKPOINT_ALL) of
           Some (_, bp) \<Rightarrow> Err bp
         | None \<Rightarrow> check_lookback p segments)
      else check_lookback p segments)"

section \<open>Provider policies\<close>

datatype provider_kind = Anthropic | OpenAI | Google

definition PROVIDER_ALL :: "provider_kind list" where
  "PROVIDER_ALL = [Anthropic, OpenAI, Google]"

fun provider_name :: "provider_kind \<Rightarrow> string" where
  "provider_name Anthropic = ''anthropic''" | "provider_name OpenAI = ''openai''"
| "provider_name Google = ''google''"

definition provider_parse :: "string \<Rightarrow> provider_kind option" where
  "provider_parse text =
     (if text = ''anthropic'' then Some Anthropic
      else if text = ''openai'' then Some OpenAI
      else if text = ''google'' then Some Google
      else None)"

record cache_policy =
  cp_kind :: provider_kind
  cp_max_breakpoints :: nat
  cp_explicit_ttl :: bool
  cp_minimum :: minimum_cacheable
  cp_min_thinking_tokens :: nat

definition policy_anthropic :: cache_policy where
  "policy_anthropic = \<lparr>cp_kind = Anthropic, cp_max_breakpoints = 4, cp_explicit_ttl = True,
     cp_minimum = Tokens1024, cp_min_thinking_tokens = 1024\<rparr>"

definition policy_openai :: cache_policy where
  "policy_openai = \<lparr>cp_kind = OpenAI, cp_max_breakpoints = 1, cp_explicit_ttl = False,
     cp_minimum = Tokens1024, cp_min_thinking_tokens = 0\<rparr>"

definition policy_google :: cache_policy where
  "policy_google = \<lparr>cp_kind = Google, cp_max_breakpoints = 1, cp_explicit_ttl = False,
     cp_minimum = Tokens4096, cp_min_thinking_tokens = 0\<rparr>"

fun policy_for_kind :: "provider_kind \<Rightarrow> cache_policy" where
  "policy_for_kind Anthropic = policy_anthropic"
| "policy_for_kind OpenAI = policy_openai"
| "policy_for_kind Google = policy_google"

definition ttl_for :: "cache_policy \<Rightarrow> breakpoint \<Rightarrow> cache_ttl" where
  "ttl_for p bp = (if cp_explicit_ttl p then breakpoint_ttl bp else FiveMinutes)"

definition accepts_breakpoints :: "cache_policy \<Rightarrow> breakpoint list \<Rightarrow> bool" where
  "accepts_breakpoints p bps \<longleftrightarrow> length bps \<le> cp_max_breakpoints p \<and> ttl_order_is_valid bps"

definition thinking_allowed :: "cache_policy \<Rightarrow> nat \<Rightarrow> bool" where
  "thinking_allowed p budget \<longleftrightarrow> budget = 0 \<or> budget \<ge> cp_min_thinking_tokens p"

section \<open>Lemmas on the regions\<close>

fun region_rank :: "segment_kind \<Rightarrow> nat option" where
  "region_rank ToolManifest = Some 0"
| "region_rank SystemContract = Some 1"
| "region_rank (MemoryIndex _) = Some 2"
| "region_rank (Turn _ _) = None"

text \<open>One past the last index of a region, 0 when the region is empty.\<close>

definition region_end :: "nat \<Rightarrow> segment_kind list \<Rightarrow> nat" where
  "region_end r ks = length (dropWhile (\<lambda>k. region_rank k \<noteq> Some r) (rev ks))"

definition regions_ordered :: "segment_kind list \<Rightarrow> bool" where
  "regions_ordered ks \<longleftrightarrow> sorted (List.map_filter region_rank ks)"

lemma region_end_snoc:
  "region_end r (ks @ [k]) = (if region_rank k = Some r then length ks + 1 else region_end r ks)"
  by (simp add: region_end_def)

lemma region_end_Nil [simp]: "region_end r [] = 0"
  by (simp add: region_end_def)

lemma region_end_pos: "0 < region_end r ks \<longleftrightarrow> r \<in> set (List.map_filter region_rank ks)"
  by (induction ks rule: rev_induct)
    (auto simp: region_end_snoc map_filter_def split: option.splits)

lemma region_end_le: "region_end r ks \<le> length ks"
  unfolding region_end_def by (metis length_dropWhile_le length_rev)

lemma plan_loop_append:
  "plan_loop i bps (ks @ js) = bind_outcome (plan_loop i bps ks) (\<lambda>b. plan_loop (i + length ks) b js)"
proof (induction ks arbitrary: i bps)
  case Nil
  then show ?case by simp
next
  case (Cons k ks)
  then show ?case by (cases "plan_step i bps k") simp_all
qed

lemma region_rank_le: "region_rank k = Some r \<Longrightarrow> r \<le> 2"
  by (cases k) auto

lemma set_map_filter: "set (List.map_filter f ks) = {r. \<exists>k \<in> set ks. f k = Some r}"
  by (force simp: map_filter_def)

lemma region_ranks_bounded: "x \<in> set (List.map_filter region_rank ks) \<Longrightarrow> x \<le> 2"
  by (auto simp: set_map_filter region_rank_le)

lemma regions_snoc:
  "regions_ordered (ks @ [k]) \<longleftrightarrow> regions_ordered ks \<and>
     (case region_rank k of None \<Rightarrow> True | Some r \<Rightarrow> \<forall>x \<in> set (List.map_filter region_rank ks). x \<le> r)"
  by (auto simp: regions_ordered_def map_filter_def sorted_append split: option.splits)

lemma plan_loop_spec:
  "plan_loop 0 (0, 0, 0) ks = Ok bps \<longleftrightarrow>
     regions_ordered ks \<and> bps = (region_end 0 ks, region_end 1 ks, region_end 2 ks)"
proof (induction ks arbitrary: bps rule: rev_induct)
  case Nil
  then show ?case by (auto simp: regions_ordered_def map_filter_def)
next
  case (snoc k ks)
  have le: "\<And>x. x \<in> set (List.map_filter region_rank ks) \<Longrightarrow> x \<noteq> 1 \<Longrightarrow> x \<noteq> 2 \<Longrightarrow> x = 0"
    using region_ranks_bounded [of _ ks] by fastforce
  let ?S = "set (List.map_filter region_rank ks)"
  have pos: "0 < region_end r ks \<longleftrightarrow> r \<in> ?S" for r by (rule region_end_pos)
  have zero: "(\<forall>x \<in> ?S. x = 0) \<longleftrightarrow> region_end 1 ks = 0 \<and> region_end 2 ks = 0"
    using pos [of 1] pos [of 2] le by (metis gr0I not_numeral_le_zero one_neq_zero less_numeral_extra(3) zero_neq_numeral)
  have one: "(\<forall>x \<in> ?S. x \<le> Suc 0) \<longleftrightarrow> region_end 2 ks = 0"
    using pos [of 2] region_ranks_bounded [of _ ks]
    by (metis One_nat_def Suc_1 gr0I le_SucE less_numeral_extra(3) not_less_eq_eq order_refl)
  have two: "\<forall>x \<in> ?S. x \<le> 2" using region_ranks_bounded by blast
  show ?case
    by (cases k) (auto simp: plan_loop_append bind_outcome_Ok_iff snoc region_end_snoc regions_snoc
        zero one two)
qed

section \<open>Lemmas on validation\<close>

abbreviation entry_kinds :: "segment sealed list \<Rightarrow> segment_kind list" where
  "entry_kinds segments \<equiv> map (\<lambda>e. sg_kind (sl_value e)) segments"

lemma plan_at_Ok:
  "plan_breakpoints_at segments p = Ok plan \<longleftrightarrow>
     regions_ordered (entry_kinds segments) \<and> region_end 2 (entry_kinds segments) \<le> p \<and>
     p \<le> length segments \<and>
     plan = \<lparr>bp1_tools = region_end 0 (entry_kinds segments), bp2_system = region_end 1 (entry_kinds segments),
             bp3_memory = region_end 2 (entry_kinds segments), bp4_previous = p\<rparr>"
  by (auto simp: plan_breakpoints_at_def bind_outcome_Ok_iff plan_loop_spec split: if_splits)

lemma plan_validate_unfold:
  "plan_validate p segments =
     (if bp1_tools p > bp2_system p then Err Bp1Tools
      else if bp2_system p > bp3_memory p then Err Bp2System
      else if bp3_memory p > bp4_previous p then Err Bp3MemoryIndex
      else check_lookback p segments)"
  by (simp add: plan_validate_def find_reversal_def plan_offsets_def BREAKPOINT_ALL_def)

lemma lookback_check_Ok:
  "\<forall>(offset, bp) \<in> set obs. offset \<le> length segments \<Longrightarrow>
   lookback_check segments obs = Ok () \<longleftrightarrow>
     (\<forall>(offset, bp) \<in> set obs. positions_from segments offset \<le> LOOKBACK_BLOCKS)"
  by (induction segments obs rule: lookback_check.induct) auto

lemma lookback_check_no_panic:
  "\<forall>(offset, bp) \<in> set obs. offset \<le> length segments \<Longrightarrow> lookback_check segments obs \<noteq> Panic"
  by (induction segments obs rule: lookback_check.induct) auto

lemma positions_from_antimono: "i \<le> j \<Longrightarrow> positions_from segments j \<le> positions_from segments i"
proof (induction segments arbitrary: i j)
  case (Cons s segments)
  show ?case
  proof (cases j)
    case (Suc j')
    then show ?thesis
      using Cons.IH [of 0 j'] Cons.IH [of "i - 1" j'] Cons.prems
      by (cases i) (auto simp: positions_from_def)
  qed (use Cons.prems in simp)
qed (simp add: positions_from_def)

lemma take_breakpoints_valid: "ttl_order_is_valid (take n BREAKPOINT_ALL)"
proof -
  have "n = 0 \<or> n = 1 \<or> n = 2 \<or> n = 3 \<or> 4 \<le> n" by linarith
  then show ?thesis
    by (auto simp: BREAKPOINT_ALL_def ttl_order_is_valid_def MAX_BREAKPOINTS_def numeral_2_eq_2
        numeral_3_eq_3)
qed

lemma ttl_order_sorted:
  "ttl_order_is_valid bps \<longleftrightarrow> length bps \<le> 4 \<and>
     sorted_wrt (\<lambda>x y. ttl_rank (breakpoint_ttl x) \<ge> ttl_rank (breakpoint_ttl y)) bps"
proof -
  have "transp (\<lambda>x y. ttl_rank (breakpoint_ttl x) \<ge> ttl_rank (breakpoint_ttl y))"
    by (auto intro!: transpI)
  from windows2_sorted_wrt [OF this, of bps] show ?thesis
    by (auto simp: ttl_order_is_valid_def MAX_BREAKPOINTS_def)
qed

section \<open>Properties\<close>

text \<open>
  The plan puts every breakpoint where it is documented: it is accepted exactly when the
  tool, system and index regions come in that order and the turn boundary lies between the
  index and the end of the ledger; each of the first three offsets is then one past the last
  segment of its region.
\<close>

theorem plan_offsets_exact:
  "plan_breakpoints_at segments p = Ok plan \<longleftrightarrow>
     sorted (List.map_filter region_rank (entry_kinds segments)) \<and>
     region_end 2 (entry_kinds segments) \<le> p \<and> p \<le> length segments \<and>
     plan = \<lparr>bp1_tools = region_end 0 (entry_kinds segments), bp2_system = region_end 1 (entry_kinds segments),
             bp3_memory = region_end 2 (entry_kinds segments), bp4_previous = p\<rparr>"
  unfolding plan_at_Ok regions_ordered_def ..

text \<open>
  Validation never reads outside the ledger and accepts exactly the right plans: a plan
  laid over a ledger is valid when its offsets ascend and everything after the first
  breakpoint is within the lookback window; the later breakpoints then are too.
\<close>

theorem plan_validate_exact:
  assumes "plan_breakpoints_at segments p = Ok plan"
  shows "(plan_validate plan segments = Ok () \<longleftrightarrow>
      sorted (plan_offsets plan) \<and> positions_from segments (bp1_tools plan) \<le> LOOKBACK_BLOCKS) \<and>
    plan_validate plan segments \<noteq> Panic"
proof -
  let ?obs = "zip (plan_offsets plan) BREAKPOINT_ALL"
  from assms have len: "\<forall>(offset, bp) \<in> set ?obs. offset \<le> length segments"
    using region_end_le [of _ "entry_kinds segments"]
    by (auto simp: plan_at_Ok plan_offsets_def BREAKPOINT_ALL_def)
  then have no_panic: "check_lookback plan segments \<noteq> Panic"
    unfolding check_lookback_def by (rule lookback_check_no_panic)
  have "check_lookback plan segments = Ok () \<longleftrightarrow>
      (\<forall>offset \<in> set (plan_offsets plan). positions_from segments offset \<le> LOOKBACK_BLOCKS)"
    unfolding check_lookback_def lookback_check_Ok [OF len] by (simp add: plan_offsets_def BREAKPOINT_ALL_def)
  moreover have "sorted (plan_offsets plan) \<Longrightarrow>
      (\<forall>offset \<in> set (plan_offsets plan). positions_from segments offset \<le> LOOKBACK_BLOCKS) \<longleftrightarrow>
      positions_from segments (bp1_tools plan) \<le> LOOKBACK_BLOCKS"
    using positions_from_antimono [of "bp1_tools plan" _ segments]
    by (auto simp: plan_offsets_def intro: order_trans)
  ultimately show ?thesis using no_panic
    by (auto simp: plan_validate_unfold plan_offsets_def)
qed

text \<open>
  A ledger without a memory index can never be validated: the offset of an absent region
  is 0, which lies before the system contract's, so every plan of a ledger that holds a
  system contract and no evicted turn yet, in whatever order-conforming shape, is refused at
  the second breakpoint as if its regions ran backwards.
\<close>

theorem plan_without_index_refused:
  assumes "plan_breakpoints_at segments p = Ok plan"
    and "SystemContract \<in> set (entry_kinds segments)"
    and "\<forall>k \<in> set (entry_kinds segments). \<not> is_memory_index k"
  shows "plan_validate plan segments = Err Bp2System"
proof -
  let ?R = "List.map_filter region_rank (entry_kinds segments)"
  have "region_rank k = Some 2 \<longleftrightarrow> is_memory_index k" for k by (cases k) auto
  then have "2 \<notin> set ?R" using assms(3) by (auto simp: set_map_filter)
  then have bp3: "region_end 2 (entry_kinds segments) = 0" using region_end_pos by blast
  have "1 \<in> set ?R" using assms(2) by (force simp: set_map_filter)
  then have bp2: "0 < region_end 1 (entry_kinds segments)" using region_end_pos by blast
  have "region_end 0 ks \<le> region_end 1 ks" if "regions_ordered ks" "0 < region_end 1 ks" for ks
    using that
  proof (induction ks rule: rev_induct)
    case (snoc k ks)
    show ?case
    proof (cases "0 < region_end 1 ks")
      case True
      then have "1 \<in> set (List.map_filter region_rank ks)" by (simp only: region_end_pos)
      then have "region_rank k \<noteq> Some 0" using snoc.prems(1) by (auto simp: regions_snoc)
      then show ?thesis using True snoc region_end_le [of 0 ks]
        by (auto simp: region_end_snoc regions_snoc)
    next
      case False
      then show ?thesis using snoc.prems region_end_le [of 0 ks] by (auto simp: region_end_snoc split: if_splits)
    qed
  qed simp
  then have "region_end 0 (entry_kinds segments) \<le> region_end 1 (entry_kinds segments)"
    using assms(1) bp2 by (simp add: plan_at_Ok)
  then show ?thesis using assms(1) bp2 bp3 by (simp add: plan_at_Ok plan_validate_unfold)
qed

text \<open>
  Truncating to a provider's capacity is always transmittable: every prefix of the four
  breakpoints that fits the provider passes its checks, the frozen breakpoints are the ones
  kept, a valid sequence has at most four entries with non-increasing lifetimes, and provider
  names parse back to their provider and nothing else does.
\<close>

theorem truncated_plan_transmittable:
  "accepts_breakpoints (policy_for_kind k)
     (truncate_for_policy BREAKPOINT_ALL (cp_max_breakpoints (policy_for_kind k))) \<and>
   (n \<le> cp_max_breakpoints (policy_for_kind k) \<longrightarrow>
     accepts_breakpoints (policy_for_kind k) (truncate_for_policy BREAKPOINT_ALL n)) \<and>
   (accepts_breakpoints (policy_for_kind k) bps \<longrightarrow> length bps \<le> 4 \<and>
     sorted_wrt (\<lambda>x y. ttl_rank (breakpoint_ttl x) \<ge> ttl_rank (breakpoint_ttl y)) bps) \<and>
   (provider_parse s = Some k \<longleftrightarrow> s = provider_name k)"
  using take_breakpoints_valid
  by (cases k) (auto simp: accepts_breakpoints_def truncate_for_policy_def ttl_order_sorted
      provider_parse_def min_def)

lemma padding_reaches_threshold:
  "minimum_tokens m \<le> n + padding_needed n m \<and>
   (\<forall>pad. minimum_tokens m \<le> n + pad \<longrightarrow> padding_needed n m \<le> pad)"
  by (auto simp: padding_needed_def)

section \<open>Witnesses\<close>

definition example_segments :: "segment sealed list" where
  "example_segments = map2 (\<lambda>n k. seal_segment (\<lambda>_. []) n \<lparr>sg_id = SegmentId 1, sg_kind = k, sg_blocks = []\<rparr>)
     [0, 1, 2] [ToolManifest, SystemContract, Turn (TurnId 1) User]"

lemma example_segments_kinds:
  "entry_kinds example_segments = [ToolManifest, SystemContract, Turn (TurnId 1) User]"
  "length example_segments = 3"
  by (simp_all add: example_segments_def)

lemma example_segments_plan:
  "plan_breakpoints_at example_segments 3 =
     Ok \<lparr>bp1_tools = 1, bp2_system = 2, bp3_memory = 0, bp4_previous = 3\<rparr>"
  by (simp add: plan_breakpoints_at_def example_segments_kinds)

theorem plan_validate_exact_witness:
  "plan_validate \<lparr>bp1_tools = 1, bp2_system = 2, bp3_memory = 0, bp4_previous = 3\<rparr> example_segments \<noteq> Ok ()"
  using plan_validate_exact [OF example_segments_plan] by (simp add: plan_offsets_def)

theorem plan_without_index_refused_witness:
  "plan_validate \<lparr>bp1_tools = 1, bp2_system = 2, bp3_memory = 0, bp4_previous = 3\<rparr> example_segments
     = Err Bp2System"
  using plan_without_index_refused [OF example_segments_plan] by (simp add: example_segments_kinds)

theorem truncated_plan_transmittable_witness:
  "accepts_breakpoints (policy_for_kind Anthropic) (truncate_for_policy BREAKPOINT_ALL 3)"
  using truncated_plan_transmittable [of Anthropic 3] by (simp add: policy_anthropic_def)

section \<open>Divergence from the documentation\<close>

text \<open>A region that follows a turn is not refused; the turn then lies inside the region.\<close>

lemma turn_before_tools_accepted:
  "plan_loop 0 (0, 0, 0) [Turn t r, ToolManifest] = Ok (2, 0, 0)"
  by simp

end
