(* ===== verification/Money.thy ===== *)
theory Money
  imports Supra_Prelude
begin

text \<open>
  \<open>crates/supra_types/src/money.rs\<close>: amounts in millionths of a dollar. An amount is an
  \<open>int\<close> in the range of \<open>i64\<close>; every arithmetic operation that the overflow checks guard
  returns \<open>Panic\<close> outside that range.
\<close>

type_synonym micro_usd = int

definition PER_DOLLAR :: int where "PER_DOLLAR = 1000000"

definition i64_checked :: "int \<Rightarrow> (int, 'e) outcome" where
  "i64_checked x = (if in_i64 x then Ok x else Panic)"

text \<open>Rust's \<open>/\<close> on signed integers truncates toward zero.\<close>

definition trunc_div :: "int \<Rightarrow> int \<Rightarrow> int" where
  "trunc_div x d = sgn x * sgn d * (\<bar>x\<bar> div \<bar>d\<bar>)"

definition for_tokens :: "nat \<Rightarrow> int \<Rightarrow> nat \<Rightarrow> (micro_usd, unit) outcome" where
  "for_tokens tokens per_mtok_micros multiplier_percent =
     bind_outcome (i64_checked (int tokens * per_mtok_micros)) (\<lambda>x.
       bind_outcome (i64_checked (x * int multiplier_percent)) (\<lambda>y.
         Ok (trunc_div y (PER_DOLLAR * 100))))"

text \<open>\<open>abs_diff\<close> and \<open>unsigned_abs\<close> are exact in \<open>u64\<close>; the product saturates.\<close>

definition drift_percent_from :: "micro_usd \<Rightarrow> micro_usd \<Rightarrow> nat" where
  "drift_percent_from self reference =
     (let magnitude = nat \<bar>reference\<bar> in
      if magnitude = 0 then 0
      else
        let percent = min (nat \<bar>self - reference\<bar> * 100) u64_max div magnitude
        in if percent \<le> u32_max then percent else u32_max)"

definition money_add :: "micro_usd \<Rightarrow> micro_usd \<Rightarrow> (micro_usd, unit) outcome" where
  "money_add x y = i64_checked (x + y)"

definition money_add_assign :: "micro_usd \<Rightarrow> micro_usd \<Rightarrow> (micro_usd, unit) outcome" where
  "money_add_assign x y = i64_checked (x + y)"

definition money_sub :: "micro_usd \<Rightarrow> micro_usd \<Rightarrow> (micro_usd, unit) outcome" where
  "money_sub x y = i64_checked (x - y)"

definition money_sum :: "micro_usd list \<Rightarrow> (micro_usd, unit) outcome" where
  "money_sum xs = foldl (\<lambda>acc x. bind_outcome acc (\<lambda>a. money_add a x)) (Ok 0) xs"

text \<open>\<open>{:03}\<close>\<close>

definition pad3 :: "nat \<Rightarrow> string" where
  "pad3 n = replicate (3 - length (show_nat n)) (CHR ''0'') @ show_nat n"

definition money_display :: "micro_usd \<Rightarrow> string" where
  "money_display x =
     (let sign = (if x < 0 then ''-'' else ''''); millis = nat \<bar>x\<bar> div 1000
      in sign @ ''$'' @ show_nat (millis div 1000) @ ''.'' @ pad3 (millis mod 1000))"

section \<open>Lemmas\<close>

lemma trunc_div_bounds:
  assumes "0 < d"
  shows "\<bar>trunc_div x d\<bar> * d \<le> \<bar>x\<bar> \<and> \<bar>x\<bar> < (\<bar>trunc_div x d\<bar> + 1) * d \<and>
    (0 \<le> x \<longrightarrow> 0 \<le> trunc_div x d) \<and> (x \<le> 0 \<longrightarrow> trunc_div x d \<le> 0)"
proof -
  obtain q r where qr: "\<bar>x\<bar> div d = q" "\<bar>x\<bar> mod d = r" by blast
  have eq: "d * q + r = \<bar>x\<bar>" using mult_div_mod_eq [of d "\<bar>x\<bar>"] by (simp add: qr)
  have r: "0 \<le> r" "r < d" using assms qr(2) by auto
  have q: "0 \<le> q" using assms qr(1) by (metis abs_ge_zero pos_imp_zdiv_nonneg_iff)
  have t: "trunc_div x d = sgn x * q" using assms by (simp add: trunc_div_def qr)
  have "\<bar>trunc_div x d\<bar> = q \<or> x = 0 \<and> q = 0" using q qr(1) assms
    by (auto simp: t abs_mult abs_sgn_eq)
  then have "\<bar>trunc_div x d\<bar> = q" using t by auto
  then show ?thesis using eq r q t by (auto simp: algebra_simps sgn_if)
qed

lemma trunc_div_mono: "0 < d \<Longrightarrow> x \<le> y \<Longrightarrow> 0 \<le> x \<Longrightarrow> trunc_div x d \<le> trunc_div y d"
  by (auto simp: trunc_div_def sgn_if zdiv_mono1 pos_imp_zdiv_nonneg_iff)

lemma for_tokens_Ok:
  "for_tokens t r m = Ok c \<longleftrightarrow> in_i64 (int t * r) \<and> in_i64 (int t * r * int m) \<and>
     c = trunc_div (int t * r * int m) (PER_DOLLAR * 100)"
  by (auto simp: for_tokens_def i64_checked_def bind_outcome_Ok_iff split: if_splits)

lemma foldl_bind_Panic: "foldl (\<lambda>acc x. bind_outcome acc (\<lambda>a. money_add a x)) Panic xs = Panic"
  by (induction xs) simp_all

lemma money_add_Ok: "money_add a x = Ok y \<longleftrightarrow> in_i64 (a + x) \<and> y = a + x"
  by (auto simp: money_add_def i64_checked_def)

lemma money_add_not_Err: "money_add a x \<noteq> Err e"
  by (simp add: money_add_def i64_checked_def)

lemma money_sum_from:
  "foldl (\<lambda>acc x. bind_outcome acc (\<lambda>a. money_add a x)) (Ok a) xs = Ok s \<Longrightarrow> s = a + sum_list xs"
proof (induction xs arbitrary: a)
  case (Cons x xs)
  show ?case
  proof (cases "money_add a x")
    case (Ok y)
    then have "y = a + x" by (simp only: money_add_Ok)
    with Ok Cons.prems Cons.IH [of y] show ?thesis by simp
  qed (use Cons.prems money_add_not_Err in \<open>auto simp: foldl_bind_Panic\<close>)
qed simp

lemma le_div_int:
  fixes A B k :: int
  assumes "0 < B"
  shows "k \<le> A div B \<longleftrightarrow> k * B \<le> A"
proof
  assume "k \<le> A div B"
  then have "k * B \<le> A div B * B" using assms by (intro mult_right_mono) simp_all
  also have "\<dots> \<le> A" using assms pos_mod_sign [of B A] div_mult_mod_eq [of A B] by linarith
  finally show "k * B \<le> A" .
next
  assume "k * B \<le> A"
  then have "k * B div B \<le> A div B" using assms by (intro zdiv_mono1)
  then show "k \<le> A div B" using assms by simp
qed

lemma money_sum_total:
  "\<forall>x \<in> set xs. 0 \<le> x \<Longrightarrow> 0 \<le> a \<Longrightarrow> in_i64 (a + sum_list xs) \<Longrightarrow>
   foldl (\<lambda>acc x. bind_outcome acc (\<lambda>a. money_add a x)) (Ok a) xs = Ok (a + sum_list xs)"
proof (induction xs arbitrary: a)
  case (Cons x xs)
  have "0 \<le> sum_list xs" using Cons.prems by (intro sum_list_nonneg) simp
  then have "in_i64 (a + x)" using Cons.prems by (simp add: in_i64_def i64_min_def)
  then show ?case using Cons by (simp add: money_add_def i64_checked_def add.assoc)
qed simp

section \<open>Properties\<close>

text \<open>
  Pricing is exact to below one micro-dollar: when the products fit the machine integer
  the cost is the exact rational cost truncated toward zero, so it never exceeds it and
  misses less than one micro-dollar; it grows with the number of tokens; otherwise the
  computation aborts instead of wrapping.
\<close>

theorem for_tokens_exact:
  assumes "0 \<le> rate" "in_i64 (int tokens * rate * int percent)" "in_i64 (int tokens * rate)"
  shows "\<exists>c. for_tokens tokens rate percent = Ok c \<and> 0 \<le> c \<and>
      c * 100000000 \<le> int tokens * rate * int percent \<and>
      int tokens * rate * int percent < (c + 1) * 100000000 \<and>
      (\<forall>fewer c'. fewer \<le> tokens \<longrightarrow> for_tokens fewer rate percent = Ok c' \<longrightarrow> c' \<le> c)"
proof -
  let ?x = "int tokens * rate * int percent"
  let ?c = "trunc_div ?x (PER_DOLLAR * 100)"
  have x: "0 \<le> ?x" using assms(1) by (intro mult_nonneg_nonneg) simp_all
  have d: "0 < PER_DOLLAR * 100" by (simp add: PER_DOLLAR_def)
  note b = trunc_div_bounds [OF d, of ?x]
  have ok: "for_tokens tokens rate percent = Ok ?c" using assms(2,3) by (simp add: for_tokens_Ok)
  have c: "0 \<le> ?c" using b x by blast
  have mono: "c' \<le> ?c" if "fewer \<le> tokens" "for_tokens fewer rate percent = Ok c'" for fewer c'
  proof -
    have "int fewer * rate * int percent \<le> ?x"
      using that(1) assms(1) by (intro mult_right_mono) simp_all
    moreover have "0 \<le> int fewer * rate * int percent"
      using assms(1) by (intro mult_nonneg_nonneg) simp_all
    ultimately show ?thesis using that(2) by (simp add: for_tokens_Ok trunc_div_mono [OF d])
  qed
  have D: "PER_DOLLAR * 100 = 100000000" by (simp add: PER_DOLLAR_def)
  have "\<bar>?c\<bar> = ?c" "\<bar>?x\<bar> = ?x" using c x by (simp_all only: abs_of_nonneg)
  with b have "?c * 100000000 \<le> ?x" "?x < (?c + 1) * 100000000" by (simp_all only: D)
  with ok c mono show ?thesis by blast
qed

theorem for_tokens_exact_witness:
  "\<exists>c. for_tokens 1234567 3000000 125 = Ok c \<and> c * 100000000 \<le> 1234567 * 3000000 * 125 \<and>
     1234567 * 3000000 * 125 < (c + 1) * 100000000"
  using for_tokens_exact [of 3000000 1234567 125] by (auto simp: in_i64_def i64_min_def i64_max_def)

text \<open>
  Drift is the truncated percentage it claims to be: against a zero reference it is zero,
  and for every pair of amounts whose difference is below \<open>2 ^ 57\<close> micro-dollars it is the
  exact quotient, clamped to \<open>u32\<close>; in particular it exceeds ten exactly when the difference
  is at least eleven percent of the reference.
\<close>

theorem drift_exact:
  assumes "\<bar>self - reference\<bar> < 2 ^ 57" "reference \<noteq> 0"
  shows "drift_percent_from self reference = min (nat (\<bar>self - reference\<bar> * 100 div \<bar>reference\<bar>)) u32_max \<and>
    (10 < drift_percent_from self reference \<longleftrightarrow> 11 * \<bar>reference\<bar> \<le> 100 * \<bar>self - reference\<bar>) \<and>
    drift_percent_from self 0 = 0"
proof -
  have "nat \<bar>self - reference\<bar> * 100 \<le> u64_max" using assms(1) by (simp add: u64_max_def)
  moreover have "nat (\<bar>self - reference\<bar> * 100 div \<bar>reference\<bar>) = nat \<bar>self - reference\<bar> * 100 div nat \<bar>reference\<bar>"
    by (simp add: nat_div_distrib nat_mult_distrib)
  ultimately have drift: "drift_percent_from self reference =
      min (nat (\<bar>self - reference\<bar> * 100 div \<bar>reference\<bar>)) u32_max"
    using assms(2) by (simp add: drift_percent_from_def Let_def min_def)
  have "10 < nat (\<bar>self - reference\<bar> * 100 div \<bar>reference\<bar>) \<longleftrightarrow>
      11 \<le> \<bar>self - reference\<bar> * 100 div \<bar>reference\<bar>" by linarith
  also have "\<dots> \<longleftrightarrow> 11 * \<bar>reference\<bar> \<le> 100 * \<bar>self - reference\<bar>"
  proof -
    have pos: "0 < \<bar>reference\<bar>" using assms(2) by simp
    show ?thesis
      unfolding le_div_int [OF pos] by (simp only: mult.commute [of _ 100])
  qed
  finally have ten: "10 < nat (\<bar>self - reference\<bar> * 100 div \<bar>reference\<bar>) \<longleftrightarrow>
      11 * \<bar>reference\<bar> \<le> 100 * \<bar>self - reference\<bar>" .
  have "10 < min n u32_max \<longleftrightarrow> 10 < n" for n by (simp add: u32_max_def)
  then have "10 < drift_percent_from self reference \<longleftrightarrow> 11 * \<bar>reference\<bar> \<le> 100 * \<bar>self - reference\<bar>"
    by (simp only: drift ten)
  moreover have "drift_percent_from self 0 = 0" by (simp add: drift_percent_from_def)
  ultimately show ?thesis using drift by blast
qed

theorem drift_exact_witness: "drift_percent_from 111 100 = 11 \<and> 10 < drift_percent_from 111 100"
  using drift_exact [of 111 100] by (simp add: u32_max_def)

end
