(* ===== verification/Lineage.thy ===== *)
theory Lineage
  imports Supra_Prelude
begin

text \<open>
  \<open>crates/supra_types/src/lineage.rs\<close>: the chain of agents from the host to a peer, its one
  extension operation, and the re-validation of a stored chain.
\<close>

datatype lineage = Lineage (lin_chain: "agent_id list")

datatype lineage_error = SelfSpawn agent_id nat | MaxDepthExceeded nat | EmptyLineage

definition LINEAGE_MAX_DEPTH :: nat where "LINEAGE_MAX_DEPTH = 1"

definition lineage_root :: "agent_id \<Rightarrow> lineage" where
  "lineage_root host = Lineage [host]"

text \<open>A chain always holds its root, so the subtraction does not go below zero.\<close>

definition lineage_depth :: "lineage \<Rightarrow> nat" where
  "lineage_depth l = length (lin_chain l) - 1"

definition agent_nil :: agent_id where "agent_nil = AgentId 0"

definition lineage_root_id :: "lineage \<Rightarrow> agent_id" where
  "lineage_root_id l = (case lin_chain l of [] \<Rightarrow> agent_nil | a # _ \<Rightarrow> a)"

definition lineage_agent_id :: "lineage \<Rightarrow> agent_id" where
  "lineage_agent_id l = (if lin_chain l = [] then agent_nil else last (lin_chain l))"

definition lineage_parent_id :: "lineage \<Rightarrow> agent_id option" where
  "lineage_parent_id l =
     (if length (lin_chain l) < 2 then None else Some (lin_chain l ! (length (lin_chain l) - 2)))"

definition lineage_contains :: "lineage \<Rightarrow> agent_id \<Rightarrow> bool" where
  "lineage_contains l i \<longleftrightarrow> i \<in> set (lin_chain l)"

definition would_self_spawn :: "lineage \<Rightarrow> agent_id \<Rightarrow> bool" where
  "would_self_spawn l i \<longleftrightarrow> lineage_contains l i"

definition can_extend :: "lineage \<Rightarrow> bool" where
  "can_extend l \<longleftrightarrow> lineage_depth l < LINEAGE_MAX_DEPTH"

fun position_of :: "'a \<Rightarrow> 'a list \<Rightarrow> nat option" where
  "position_of x [] = None"
| "position_of x (y # ys) = (if y = x then Some 0 else map_option Suc (position_of x ys))"

definition lineage_child :: "lineage \<Rightarrow> agent_id \<Rightarrow> (lineage, lineage_error) outcome" where
  "lineage_child l i =
     (case position_of i (lin_chain l) of
        Some at \<Rightarrow> Err (SelfSpawn i at)
      | None \<Rightarrow>
          let depth = lineage_depth l + 1 in
          if depth > LINEAGE_MAX_DEPTH then Err (MaxDepthExceeded depth)
          else Ok (Lineage (lin_chain l @ [i])))"

fun extend_all :: "lineage \<Rightarrow> agent_id list \<Rightarrow> (lineage, lineage_error) outcome" where
  "extend_all l [] = Ok l"
| "extend_all l (i # ids) = bind_outcome (lineage_child l i) (\<lambda>l'. extend_all l' ids)"

definition lineage_try_from :: "agent_id list \<Rightarrow> (lineage, lineage_error) outcome" where
  "lineage_try_from chain =
     (case chain of [] \<Rightarrow> Err EmptyLineage | root # rest \<Rightarrow> extend_all (lineage_root root) rest)"

fun lineage_error_text :: "(ulid \<Rightarrow> string) \<Rightarrow> lineage_error \<Rightarrow> string" where
  "lineage_error_text U (SelfSpawn i at) =
     ''agent '' @ U (agent_raw i) @ '' is already at depth '' @ show_nat at @
     '' of this lineage: a model may not spawn itself''"
| "lineage_error_text U (MaxDepthExceeded attempted) =
     ''lineage depth '' @ show_nat attempted @ '' exceeds the maximum of '' @ show_nat LINEAGE_MAX_DEPTH @
     '': peers are siblings, not a tree''"
| "lineage_error_text U EmptyLineage = ''a lineage must contain at least its root''"

section \<open>Lemmas\<close>

lemma position_of_None [simp]: "position_of x xs = None \<longleftrightarrow> x \<notin> set xs"
  by (induction xs) auto

lemma position_of_Some: "position_of x xs = Some i \<Longrightarrow> i < length xs \<and> xs ! i = x \<and> x \<notin> set (take i xs)"
  by (induction xs arbitrary: i) (auto split: if_splits)

lemma lineage_child_Ok:
  "lineage_child l i = Ok l' \<longleftrightarrow>
     i \<notin> set (lin_chain l) \<and> length (lin_chain l) \<le> 1 \<and> l' = Lineage (lin_chain l @ [i])"
  by (auto simp: lineage_child_def lineage_depth_def LINEAGE_MAX_DEPTH_def Let_def
      split: option.splits dest: position_of_Some)

definition lineage_flat :: "lineage \<Rightarrow> bool" where
  "lineage_flat l \<longleftrightarrow> lin_chain l \<noteq> [] \<and> length (lin_chain l) \<le> 2 \<and> distinct (lin_chain l)"

interpretation lineages: safe_system "\<lambda>l. \<exists>h. l = lineage_root h"
    "\<lambda>l i l'. lineage_child l i = Ok l'" lineage_flat
  by unfold_locales (auto simp: lineage_flat_def lineage_root_def lineage_child_Ok)

lemma extend_all_Ok:
  "lin_chain l \<noteq> [] \<Longrightarrow> extend_all l ids = Ok l' \<longleftrightarrow>
     ids = [] \<and> l' = l \<or>
     (\<exists>i. ids = [i] \<and> length (lin_chain l) = 1 \<and> i \<notin> set (lin_chain l) \<and> l' = Lineage (lin_chain l @ [i]))"
proof (induction l ids rule: extend_all.induct)
  case (1 l)
  then show ?case by auto
next
  case (2 l i ids)
  have len: "length (lin_chain l) \<le> 1 \<longleftrightarrow> length (lin_chain l) = 1"
    using "2.prems" by (cases "lin_chain l") auto
  show ?case
  proof (cases "lineage_child l i")
    case (Ok m)
    then have m: "m = Lineage (lin_chain l @ [i])" "i \<notin> set (lin_chain l)" "length (lin_chain l) = 1"
      using lineage_child_Ok [of l i m] len by simp_all
    have "lin_chain m \<noteq> []" by (simp add: m(1))
    from "2.IH" [OF this] show ?thesis using Ok m by auto
  next
    case (Err e)
    then show ?thesis using lineage_child_Ok [of l i] len by auto
  next
    case Panic
    then show ?thesis using lineage_child_Ok [of l i] len by auto
  qed
qed

section \<open>Properties\<close>

text \<open>
  The peer hierarchy is flat, also after a restart: a stored chain is accepted exactly
  when it is the host alone or the host and one different peer, and what is restored is that
  chain; every lineage built from a host by spawning has this shape; and a refused extension
  is reported as a self-spawn when the agent is already in the chain and as nesting otherwise.
\<close>

theorem lineage_is_flat:
  "(lineage_try_from ids = Ok l \<longleftrightarrow>
      lin_chain l = ids \<and> distinct ids \<and> (length ids = 1 \<or> length ids = 2)) \<and>
   (reach (\<lambda>l. \<exists>h. l = lineage_root h) (\<lambda>l i l'. lineage_child l i = Ok l') m \<longrightarrow>
      lineage_try_from (lin_chain m) = Ok m \<and> lineage_depth m \<le> LINEAGE_MAX_DEPTH \<and>
      (\<forall>i. (\<exists>at. lineage_child m i = Err (SelfSpawn i at)) \<longleftrightarrow> would_self_spawn m i) \<and>
      (\<forall>i. \<not> would_self_spawn m i \<longrightarrow> (is_Ok (lineage_child m i) \<longleftrightarrow> can_extend m)))"
proof (intro conjI impI)
  have tf: "lineage_try_from ids = Ok l \<longleftrightarrow>
      lin_chain l = ids \<and> distinct ids \<and> (length ids = 1 \<or> length ids = 2)" for ids l
  proof (cases ids)
    case Nil
    then show ?thesis by (simp add: lineage_try_from_def)
  next
    case (Cons h rest)
    obtain c where l: "l = Lineage c" by (cases l)
    show ?thesis
    proof (cases rest)
      case Nil
      with Cons show ?thesis by (auto simp: lineage_try_from_def lineage_root_def l)
    next
      case rest: (Cons p more)
      have "lineage_try_from ids = Ok l \<longleftrightarrow> more = [] \<and> p \<noteq> h \<and> c = [h, p]"
        by (auto simp: Cons rest lineage_try_from_def lineage_root_def extend_all_Ok l simp del: extend_all.simps)
      then show ?thesis by (auto simp: Cons rest l)
    qed
  qed
  then show "lineage_try_from ids = Ok l \<longleftrightarrow>
      lin_chain l = ids \<and> distinct ids \<and> (length ids = 1 \<or> length ids = 2)" .
  assume "reach (\<lambda>l. \<exists>h. l = lineage_root h) (\<lambda>l i l'. lineage_child l i = Ok l') m"
  then have m: "lineage_flat m" by (rule lineages.reach_inv)
  then have len: "length (lin_chain m) = 1 \<or> length (lin_chain m) = 2"
    by (cases "lin_chain m") (auto simp: lineage_flat_def le_Suc_eq numeral_2_eq_2)
  with m show "lineage_try_from (lin_chain m) = Ok m" by (simp add: tf lineage_flat_def)
  show "lineage_depth m \<le> LINEAGE_MAX_DEPTH"
    using len by (auto simp: lineage_depth_def LINEAGE_MAX_DEPTH_def)
  show "\<forall>i. (\<exists>at. lineage_child m i = Err (SelfSpawn i at)) \<longleftrightarrow> would_self_spawn m i"
    by (auto simp: lineage_child_def would_self_spawn_def lineage_contains_def Let_def
        split: option.splits dest: position_of_Some)
  show "\<forall>i. \<not> would_self_spawn m i \<longrightarrow> (is_Ok (lineage_child m i) \<longleftrightarrow> can_extend m)"
    using len by (auto simp: is_Ok_iff lineage_child_Ok would_self_spawn_def lineage_contains_def
        can_extend_def lineage_depth_def LINEAGE_MAX_DEPTH_def)
qed

theorem lineage_is_flat_witness:
  "lineage_try_from [AgentId 1, AgentId 2] = Ok (Lineage [AgentId 1, AgentId 2]) \<and>
   \<not> is_Ok (lineage_child (Lineage [AgentId 1, AgentId 2]) (AgentId 3))"
proof -
  let ?init = "\<lambda>l. \<exists>h. l = lineage_root h"
  let ?step = "\<lambda>l i l'. lineage_child l i = Ok l'"
  have "reach ?init ?step (lineage_root (AgentId 1))" by (rule reach_init) blast
  then have r: "reach ?init ?step (Lineage [AgentId 1, AgentId 2])"
    by (rule reach_step [where l = "AgentId 2"]) (simp add: lineage_child_Ok lineage_root_def)
  show ?thesis
    using lineage_is_flat [of "[AgentId 1, AgentId 2]" "Lineage [AgentId 1, AgentId 2]"
        "Lineage [AgentId 1, AgentId 2]"] r
    by (simp add: would_self_spawn_def lineage_contains_def can_extend_def lineage_depth_def
        LINEAGE_MAX_DEPTH_def)
qed

end
