(* ===== verification/Guard.thy ===== *)
theory Guard
  imports Lineage Hashing
begin

text \<open>
  \<open>crates/supra_guard\<close>: the process identity, the environment marker, and the seven layers
  that judge a spawn. The operating system and HMAC-SHA256 are the fields of
  \<open>guard_env\<close>; the process-wide identity and key are the fields of \<open>guard_state\<close>.
\<close>

section \<open>Environment and state\<close>

type_synonym file_id = "nat \<times> nat"

datatype file_lookup = LookupError | NoSuchFile | FileIs file_id

record guard_env =
  file_identity :: "string \<Rightarrow> file_lookup"
  canonicalize :: "string \<Rightarrow> string option"
  hmac_sha256 :: "byte list \<Rightarrow> string \<Rightarrow> byte list"
  debug_text :: "string \<Rightarrow> string"
  ulid_text :: "ulid \<Rightarrow> string"

record process_identity =
  pi_path :: string
  pi_file :: file_id

record guard_state =
  gs_identity :: "process_identity option"
  gs_key :: "byte list option"

datatype refusal =
    NoIdentity string
  | OwnBinary string
  | SameFile
  | BadMarker string
  | BadLineage string
  | SelfVote agent_id agent_id
  | NoEntropy string

section \<open>Identity\<close>

text \<open>\<open>OnceLock::set\<close> keeps the first value; \<open>establish\<close> returns the one it just read.\<close>

definition establish ::
    "string option \<Rightarrow> file_id option \<Rightarrow> guard_state \<Rightarrow> process_identity option \<times> guard_state" where
  "establish self_path self_identity st =
     (case (self_path, self_identity) of
        (Some p, Some f) \<Rightarrow>
          let identity = \<lparr>pi_path = p, pi_file = f\<rparr> in
          (Some identity,
           if gs_identity st = None then st\<lparr>gs_identity := Some identity\<rparr> else st)
      | _ \<Rightarrow> (None, st))"

definition is_established :: "guard_state \<Rightarrow> bool" where
  "is_established st \<longleftrightarrow> gs_identity st \<noteq> None"

definition is_own_file :: "guard_env \<Rightarrow> process_identity \<Rightarrow> string \<Rightarrow> (bool, unit) outcome" where
  "is_own_file env identity path =
     (case file_identity env path of
        LookupError \<Rightarrow> Err ()
      | NoSuchFile \<Rightarrow> Ok False
      | FileIs found \<Rightarrow> Ok (found = pi_file identity))"

text \<open>\<open>Path::file_name\<close>: the last component, unless it is \<open>..\<close> or there is none.\<close>

fun path_components :: "string \<Rightarrow> string list" where
  "path_components [] = [[]]"
| "path_components (c # cs) =
     (if c = CHR ''/'' then [] # path_components cs
      else case path_components cs of [] \<Rightarrow> [[c]] | w # ws \<Rightarrow> (c # w) # ws)"

definition file_name :: "string \<Rightarrow> string option" where
  "file_name path =
     (case rev (filter (\<lambda>c. c \<noteq> [] \<and> c \<noteq> ''.'') (path_components path)) of
        [] \<Rightarrow> None
      | c # _ \<Rightarrow> if c = ''..'' then None else Some c)"

definition is_own_name :: "process_identity \<Rightarrow> string \<Rightarrow> bool" where
  "is_own_name identity name \<longleftrightarrow> file_name (pi_path identity) = Some name"

section \<open>The marker\<close>

definition MARKER_ENV :: string where "MARKER_ENV = ''SUPRA_SPAWN''"
definition MARKER_VERSION :: string where "MARKER_VERSION = ''1''"

definition hex_lower :: "byte list \<Rightarrow> string" where
  "hex_lower bytes = concat (map (\<lambda>b. [hex_digit (unat b div 16), hex_digit (unat b mod 16)]) bytes)"

definition hex_val :: "char \<Rightarrow> nat option" where
  "hex_val c =
     (let n = of_char c :: nat in
      if 48 \<le> n \<and> n \<le> 57 then Some (n - 48)
      else if 97 \<le> n \<and> n \<le> 102 then Some (n - 97 + 10)
      else if 65 \<le> n \<and> n \<le> 70 then Some (n - 65 + 10)
      else None)"

fun unhex_pairs :: "string \<Rightarrow> (byte list, refusal) outcome" where
  "unhex_pairs (a # b # rest) =
     (case hex_val a of
        None \<Rightarrow> Err (BadMarker ''the tag is not hex'')
      | Some hi \<Rightarrow>
          (case hex_val b of
             None \<Rightarrow> Err (BadMarker ''the tag is not hex'')
           | Some lo \<Rightarrow> bind_outcome (unhex_pairs rest) (\<lambda>out. Ok (word_of_nat (16 * hi + lo) # out))))"
| "unhex_pairs _ = Ok []"

definition unhex :: "string \<Rightarrow> (byte list, refusal) outcome" where
  "unhex text =
     (if length text mod 2 \<noteq> 0 then Err (BadMarker ''the tag is not even-length hex'')
      else unhex_pairs text)"

definition split_once :: "string \<Rightarrow> (string \<times> string) option" where
  "split_once s =
     (case dropWhile (\<lambda>c. c \<noteq> CHR '':'') s of
        [] \<Rightarrow> None
      | _ # rest \<Rightarrow> Some (takeWhile (\<lambda>c. c \<noteq> CHR '':'') s, rest))"

text \<open>\<open>splitn(3, ':')\<close>: the third part is whatever follows the second colon.\<close>

definition split_marker :: "string \<Rightarrow> (string \<times> string \<times> string) option" where
  "split_marker marker =
     (case split_once marker of
        None \<Rightarrow> None
      | Some (version, rest) \<Rightarrow>
          (case split_once rest of
             None \<Rightarrow> None
           | Some (nonce, tag) \<Rightarrow> Some (version, nonce, tag)))"

definition marker_tag :: "guard_env \<Rightarrow> byte list \<Rightarrow> string \<Rightarrow> string" where
  "marker_tag env key body = hex_lower (hmac_sha256 env key body)"

text \<open>\<open>entropy\<close> is what the operating system returns, if anything.\<close>

definition generate_key :: "byte list option \<Rightarrow> guard_state \<Rightarrow> (unit, refusal) outcome \<times> guard_state" where
  "generate_key entropy st =
     (if gs_key st \<noteq> None then (Ok (), st)
      else case entropy of
        None \<Rightarrow> (Err (NoEntropy ''marker key generation''), st)
      | Some key \<Rightarrow> (Ok (), st\<lparr>gs_key := Some key\<rparr>))"

definition has_key :: "guard_state \<Rightarrow> bool" where
  "has_key st \<longleftrightarrow> gs_key st \<noteq> None"

definition marker_issue ::
    "guard_env \<Rightarrow> guard_state \<Rightarrow> byte list option \<Rightarrow> (string option, refusal) outcome" where
  "marker_issue env st entropy =
     (case gs_key st of
        None \<Rightarrow> Ok None
      | Some key \<Rightarrow>
          (case entropy of
             None \<Rightarrow> Err (NoEntropy ''marker issuance'')
           | Some nonce \<Rightarrow>
               let body = MARKER_VERSION @ '':'' @ hex_lower nonce
               in Ok (Some (body @ '':'' @ marker_tag env key body))))"

definition verify_with ::
    "guard_env \<Rightarrow> byte list option \<Rightarrow> string option \<Rightarrow> (unit, refusal) outcome" where
  "verify_with env key marker =
     (case marker of
        None \<Rightarrow> Err (BadMarker ''no marker in the environment'')
      | Some m \<Rightarrow>
          (case split_marker m of
             None \<Rightarrow> Err (BadMarker ''not shaped as version:nonce:tag'')
           | Some (version, nonce_hex, presented) \<Rightarrow>
               if version \<noteq> MARKER_VERSION then
                 Err (BadMarker (''unknown marker version '' @ debug_text env version @
                   ''; this build reads version '' @ debug_text env MARKER_VERSION))
               else if length nonce_hex \<noteq> 32 \<or> \<not> list_all (\<lambda>c. hex_val c \<noteq> None) nonce_hex then
                 Err (BadMarker ''the nonce is not 16 hex bytes'')
               else case key of
                 None \<Rightarrow> Err (BadMarker ''this process holds no marker key'')
               | Some k \<Rightarrow>
                   bind_outcome (unhex presented) (\<lambda>tag.
                     if tag = hmac_sha256 env k (version @ '':'' @ nonce_hex) then Ok ()
                     else Err (BadMarker ''the tag does not authenticate under this process key''))))"

definition marker_verify :: "guard_env \<Rightarrow> guard_state \<Rightarrow> string option \<Rightarrow> (unit, refusal) outcome" where
  "marker_verify env st marker = verify_with env (gs_key st) marker"

section \<open>The seven layers\<close>

record spawn_request =
  sr_argv :: "string list"
  sr_marker :: "string option"
  sr_lineage :: "lineage option"
  sr_child :: "agent_id option"
  sr_claim_proposer :: "agent_id option"
  sr_voter :: "agent_id option"

type_synonym guard_verdict = "refusal list"

fun str_contains :: "string \<Rightarrow> string \<Rightarrow> bool" where
  "str_contains p [] \<longleftrightarrow> p = []"
| "str_contains p (c # cs) \<longleftrightarrow> take (length p) (c # cs) = p \<or> str_contains p cs"

fun layer_of :: "refusal \<Rightarrow> nat" where
  "layer_of (NoIdentity detail) = (if str_contains ''marker key'' detail then 2 else 1)"
| "layer_of (OwnBinary _) = 3"
| "layer_of SameFile = 4"
| "layer_of (BadMarker _) = 5"
| "layer_of (BadLineage _) = 6"
| "layer_of (SelfVote _ _) = 7"
| "layer_of (NoEntropy _) = 2"

definition verdict_allowed :: "guard_verdict \<Rightarrow> bool" where
  "verdict_allowed refusals \<longleftrightarrow> refusals = []"

definition refused_layers :: "guard_verdict \<Rightarrow> nat list" where
  "refused_layers refusals = map layer_of refusals"

definition own_binary_detail ::
    "guard_env \<Rightarrow> process_identity \<Rightarrow> string list \<Rightarrow> string option" where
  "own_binary_detail env identity argv =
     (case argv of
        [] \<Rightarrow> None
      | program # _ \<Rightarrow>
          let base = last (path_components program) in
          if is_own_name identity base
          then Some (''argv[0] '' @ debug_text env program @ '' names this binary'')
          else case canonicalize env program of
            None \<Rightarrow> None
          | Some path \<Rightarrow>
              (case file_name path of
                 None \<Rightarrow> None
               | Some resolved \<Rightarrow>
                   if is_own_name identity resolved
                   then Some (''argv[0] '' @ debug_text env program @ '' resolves to this binary'')
                   else None))"

definition layer1 :: "guard_state \<Rightarrow> refusal list" where
  "layer1 st = (if gs_identity st = None then [NoIdentity ''no process identity established''] else [])"

definition layer2 :: "guard_state \<Rightarrow> refusal list" where
  "layer2 st = (if \<not> has_key st then [NoIdentity ''no marker key generated''] else [])"

definition layer3 :: "guard_env \<Rightarrow> guard_state \<Rightarrow> spawn_request \<Rightarrow> refusal list" where
  "layer3 env st req =
     (case gs_identity st of
        None \<Rightarrow> []
      | Some identity \<Rightarrow>
          (case own_binary_detail env identity (sr_argv req) of
             None \<Rightarrow> [] | Some detail \<Rightarrow> [OwnBinary detail]))"

definition layer4 :: "guard_env \<Rightarrow> guard_state \<Rightarrow> spawn_request \<Rightarrow> refusal list" where
  "layer4 env st req =
     (case gs_identity st of
        None \<Rightarrow> []
      | Some identity \<Rightarrow>
          (case sr_argv req of
             [] \<Rightarrow> []
           | program # _ \<Rightarrow>
               (case is_own_file env identity program of
                  Ok True \<Rightarrow> [SameFile]
                | Ok False \<Rightarrow> []
                | _ \<Rightarrow> [OwnBinary (debug_text env program @ '' cannot be resolved'')])))"

definition layer5 :: "guard_env \<Rightarrow> guard_state \<Rightarrow> spawn_request \<Rightarrow> refusal list" where
  "layer5 env st req =
     (if is_Ok (marker_verify env st (sr_marker req)) then []
      else [BadMarker (case sr_marker req of
              None \<Rightarrow> ''no '' @ MARKER_ENV @ '' in the environment''
            | Some _ \<Rightarrow> MARKER_ENV @ '' does not authenticate under this process key'')])"

definition layer6 :: "guard_env \<Rightarrow> spawn_request \<Rightarrow> refusal list" where
  "layer6 env req =
     (case (sr_lineage req, sr_child req) of
        (Some lineage, Some child) \<Rightarrow>
          (case lineage_child lineage child of
             Err error \<Rightarrow>
               [BadLineage ((case error of
                    SelfSpawn _ _ \<Rightarrow> ''a model may not spawn itself: ''
                  | MaxDepthExceeded _ \<Rightarrow> ''peers may not nest: ''
                  | EmptyLineage \<Rightarrow> ''the lineage has no root: '') @ lineage_error_text (ulid_text env) error)]
           | _ \<Rightarrow> [])
      | _ \<Rightarrow> [])"

definition layer7 :: "spawn_request \<Rightarrow> refusal list" where
  "layer7 req =
     (case (sr_claim_proposer req, sr_voter req) of
        (Some proposer, Some voter) \<Rightarrow> if proposer = voter then [SelfVote voter proposer] else []
      | _ \<Rightarrow> [])"

definition judge :: "guard_env \<Rightarrow> guard_state \<Rightarrow> spawn_request \<Rightarrow> guard_verdict" where
  "judge env st req =
     layer1 st @ layer2 st @ layer3 env st req @ layer4 env st req @ layer5 env st req @
     layer6 env req @ layer7 req"

section \<open>Lemmas\<close>

lemma hex_val_digit: "d < 16 \<Longrightarrow> hex_val (hex_digit d) = Some d"
  by (auto simp: hex_val_def hex_digit_def Let_def)

lemma byte_halves: "unat (b :: byte) div 16 < 16" "unat b mod 16 < 16"
  using unat_byte_bound [of b] by (simp_all add: less_mult_imp_div_less)

lemma unhex_pairs_hex_lower: "unhex_pairs (hex_lower bs) = Ok bs"
proof (induction bs)
  case Nil
  then show ?case by (simp add: hex_lower_def)
next
  case (Cons b bs)
  have "16 * (unat b div 16) + unat b mod 16 = unat b" by simp
  moreover have "word_of_nat (unat b) = b" by simp
  ultimately have "word_of_nat (16 * (unat b div 16) + unat b mod 16) = b" by (simp only:)
  moreover have "hex_lower (b # bs) = hex_digit (unat b div 16) # hex_digit (unat b mod 16) # hex_lower bs"
    by (simp add: hex_lower_def)
  ultimately show ?case
    using Cons by (simp only: unhex_pairs.simps hex_val_digit [OF byte_halves(1)] hex_val_digit [OF byte_halves(2)]
        option.simps bind_outcome.simps)
qed

lemma length_hex_lower: "length (hex_lower bs) = 2 * length bs"
  by (induction bs) (simp_all add: hex_lower_def)

lemma unhex_hex_lower: "unhex (hex_lower bs) = Ok bs"
  by (simp add: unhex_def length_hex_lower unhex_pairs_hex_lower)

lemma hex_lower_digits: "c \<in> set (hex_lower bs) \<Longrightarrow> hex_val c \<noteq> None"
  using hex_val_digit byte_halves by (fastforce simp: hex_lower_def)

lemma hex_not_colon: "hex_val c \<noteq> None \<Longrightarrow> c \<noteq> CHR '':''"
  by (auto simp: hex_val_def)

lemma split_once_prefix: "\<forall>c \<in> set p. c \<noteq> CHR '':'' \<Longrightarrow> split_once (p @ CHR '':'' # r) = Some (p, r)"
  by (simp add: split_once_def dropWhile_append3 takeWhile_append2)

lemma split_once_Some: "split_once s = Some (p, r) \<Longrightarrow> s = p @ CHR '':'' # r \<and> (\<forall>c \<in> set p. c \<noteq> CHR '':'')"
proof -
  assume s: "split_once s = Some (p, r)"
  let ?P = "\<lambda>c. c \<noteq> CHR '':''"
  obtain x where d: "dropWhile ?P s = x # r" and p: "p = takeWhile ?P s"
    using s by (auto simp: split_once_def split: list.splits)
  have "x = CHR '':''" using hd_dropWhile [of ?P s] d by simp
  then show ?thesis using takeWhile_dropWhile_id [of ?P s] d p by (auto dest: set_takeWhileD)
qed

lemma split_marker_Some:
  "split_marker m = Some (v, n, t) \<longleftrightarrow>
     m = v @ '':'' @ n @ '':'' @ t \<and> (\<forall>c \<in> set v. c \<noteq> CHR '':'') \<and> (\<forall>c \<in> set n. c \<noteq> CHR '':'')"
proof
  assume "split_marker m = Some (v, n, t)"
  then obtain r where "split_once m = Some (v, r)" "split_once r = Some (n, t)"
    by (auto simp: split_marker_def split: option.splits)
  from split_once_Some [OF this(1)] split_once_Some [OF this(2)]
  show "m = v @ '':'' @ n @ '':'' @ t \<and> (\<forall>c \<in> set v. c \<noteq> CHR '':'') \<and> (\<forall>c \<in> set n. c \<noteq> CHR '':'')"
    by simp
next
  assume "m = v @ '':'' @ n @ '':'' @ t \<and> (\<forall>c \<in> set v. c \<noteq> CHR '':'') \<and> (\<forall>c \<in> set n. c \<noteq> CHR '':'')"
  then show "split_marker m = Some (v, n, t)"
    by (simp add: split_marker_def split_once_prefix)
qed

lemma verify_with_Ok:
  "verify_with env key (Some m) = Ok () \<longleftrightarrow>
     (\<exists>k nonce tag. key = Some k \<and> m = MARKER_VERSION @ '':'' @ nonce @ '':'' @ tag \<and>
        length nonce = 32 \<and> (\<forall>c \<in> set nonce. hex_val c \<noteq> None) \<and>
        unhex tag = Ok (hmac_sha256 env k (MARKER_VERSION @ '':'' @ nonce)))"
proof
  assume "verify_with env key (Some m) = Ok ()"
  then show "\<exists>k nonce tag. key = Some k \<and> m = MARKER_VERSION @ '':'' @ nonce @ '':'' @ tag \<and>
        length nonce = 32 \<and> (\<forall>c \<in> set nonce. hex_val c \<noteq> None) \<and>
        unhex tag = Ok (hmac_sha256 env k (MARKER_VERSION @ '':'' @ nonce))"
  proof (cases "split_marker m")
    case None
    with \<open>verify_with env key (Some m) = Ok ()\<close> show ?thesis by (simp add: verify_with_def)
  next
    case (Some parts)
    obtain v n t where parts: "parts = (v, n, t)" by (cases parts)
    note m = Some [unfolded parts]
    from \<open>verify_with env key (Some m) = Ok ()\<close> obtain k where
      "v = MARKER_VERSION" "length n = 32" "list_all (\<lambda>c. hex_val c \<noteq> None) n" "key = Some k"
      "unhex t = Ok (hmac_sha256 env k (MARKER_VERSION @ '':'' @ n))"
      by (auto simp: verify_with_def m bind_outcome_Ok_iff split: option.splits if_splits)
    then show ?thesis
      using m [unfolded split_marker_Some]
      by (intro exI [of _ k] exI [of _ n] exI [of _ t]) (simp add: list_all_iff)
  qed
next
  assume "\<exists>k nonce tag. key = Some k \<and> m = MARKER_VERSION @ '':'' @ nonce @ '':'' @ tag \<and>
        length nonce = 32 \<and> (\<forall>c \<in> set nonce. hex_val c \<noteq> None) \<and>
        unhex tag = Ok (hmac_sha256 env k (MARKER_VERSION @ '':'' @ nonce))"
  then obtain k nonce tag where k: "key = Some k" and m: "m = MARKER_VERSION @ '':'' @ nonce @ '':'' @ tag"
    and n: "length nonce = 32" "\<forall>c \<in> set nonce. hex_val c \<noteq> None"
    and tag: "unhex tag = Ok (hmac_sha256 env k (MARKER_VERSION @ '':'' @ nonce))" by blast
  have "split_marker m = Some (MARKER_VERSION, nonce, tag)"
    unfolding split_marker_Some using m n(2) hex_not_colon by (auto simp: MARKER_VERSION_def)
  then show "verify_with env key (Some m) = Ok ()"
    using k n tag by (auto simp: verify_with_def list_all_iff)
qed

lemmas layer_defs = layer1_def layer2_def layer3_def layer5_def layer6_def layer7_def

lemma layer4_cases: "layer4 env st req \<in> {[], [SameFile]} \<union> range (\<lambda>d. [OwnBinary d])"
proof (cases "gs_identity st")
  case (Some i)
  show ?thesis
  proof (cases "sr_argv req")
    case (Cons program rest)
    show ?thesis
    proof (cases "is_own_file env i program")
      case (Ok b)
      then show ?thesis using Some Cons by (cases b) (simp_all add: layer4_def)
    qed (use Some Cons in \<open>simp_all add: layer4_def\<close>)
  qed (use Some in \<open>simp add: layer4_def\<close>)
qed (simp add: layer4_def)

lemma layer_numbers:
  "set (map layer_of (layer1 st)) \<subseteq> {1}" "set (map layer_of (layer2 st)) \<subseteq> {2}"
  "set (map layer_of (layer3 env st req)) \<subseteq> {3}" "set (map layer_of (layer4 env st req)) \<subseteq> {3, 4}"
  "set (map layer_of (layer5 env st req)) \<subseteq> {5}" "set (map layer_of (layer6 env req)) \<subseteq> {6}"
  "set (map layer_of (layer7 req)) \<subseteq> {7}"
  using layer4_cases [of env st req]
  by (auto simp: layer_defs split: option.splits outcome.splits)

lemma layer_short:
  "length (layer1 st) \<le> 1" "length (layer2 st) \<le> 1" "length (layer3 env st req) \<le> 1"
  "length (layer4 env st req) \<le> 1" "length (layer5 env st req) \<le> 1" "length (layer6 env req) \<le> 1"
  "length (layer7 req) \<le> 1"
  using layer4_cases [of env st req]
  by (auto simp: layer_defs split: option.splits outcome.splits)

lemma layer6_Nil:
  "layer6 env req = [] \<longleftrightarrow>
     \<not> (\<exists>l c e. sr_lineage req = Some l \<and> sr_child req = Some c \<and> lineage_child l c = Err e)"
  by (auto simp: layer6_def split: option.splits outcome.splits)

lemma layer7_Nil:
  "layer7 req = [] \<longleftrightarrow> \<not> (\<exists>a. sr_claim_proposer req = Some a \<and> sr_voter req = Some a)"
  by (auto simp: layer7_def split: option.splits)

lemma sorted_short: "length xs \<le> 1 \<Longrightarrow> sorted (map f xs)"
  by (cases xs) auto

section \<open>Properties\<close>

text \<open>
  The marker authenticates exactly what the host minted: a marker issued under the
  process key verifies, whatever the nonce; and a presented marker verifies only when it has
  the current version, a 32-digit nonce, and a tag that decodes to the MAC of exactly that
  version and nonce under a key this process holds - never without a key.
\<close>

theorem marker_authenticates:
  "(gs_key st = Some k \<and> length nonce = 16 \<longrightarrow>
      (\<exists>m. marker_issue env st (Some nonce) = Ok (Some m) \<and> marker_verify env st (Some m) = Ok ())) \<and>
   (marker_verify env st (Some m) = Ok () \<longleftrightarrow>
      (\<exists>k n tag. gs_key st = Some k \<and> m = ''1:'' @ n @ '':'' @ tag \<and> length n = 32 \<and>
         (\<forall>c \<in> set n. hex_val c \<noteq> None) \<and> unhex tag = Ok (hmac_sha256 env k (''1:'' @ n)))) \<and>
   marker_verify env st None \<noteq> Ok ()"
proof (intro conjI impI)
  assume k: "gs_key st = Some k \<and> length nonce = 16"
  let ?n = "hex_lower nonce"
  let ?m = "MARKER_VERSION @ '':'' @ ?n @ '':'' @ marker_tag env k (MARKER_VERSION @ '':'' @ ?n)"
  have "marker_issue env st (Some nonce) = Ok (Some ?m)"
    using k by (simp add: marker_issue_def Let_def)
  moreover have "marker_verify env st (Some ?m) = Ok ()"
    unfolding marker_verify_def verify_with_Ok using k
    by (intro exI [of _ k] exI [of _ ?n] exI [of _ "marker_tag env k (MARKER_VERSION @ '':'' @ ?n)"])
      (auto simp: length_hex_lower marker_tag_def unhex_hex_lower dest: hex_lower_digits)
  ultimately show "\<exists>m. marker_issue env st (Some nonce) = Ok (Some m) \<and> marker_verify env st (Some m) = Ok ()"
    by blast
next
  show "marker_verify env st (Some m) = Ok () \<longleftrightarrow>
      (\<exists>k n tag. gs_key st = Some k \<and> m = ''1:'' @ n @ '':'' @ tag \<and> length n = 32 \<and>
         (\<forall>c \<in> set n. hex_val c \<noteq> None) \<and> unhex tag = Ok (hmac_sha256 env k (''1:'' @ n)))"
    unfolding marker_verify_def verify_with_Ok by (simp add: MARKER_VERSION_def)
  show "marker_verify env st None \<noteq> Ok ()" by (simp add: marker_verify_def verify_with_def)
qed

definition example_env :: guard_env where
  "example_env = \<lparr>file_identity = (\<lambda>_. NoSuchFile), canonicalize = (\<lambda>_. None),
     hmac_sha256 = (\<lambda>k b. k), debug_text = (\<lambda>s. s), ulid_text = (\<lambda>_. [])\<rparr>"

theorem marker_authenticates_witness:
  "\<exists>m. marker_issue example_env \<lparr>gs_identity = None, gs_key = Some [7]\<rparr> (Some (replicate 16 0)) = Ok (Some m) \<and>
     marker_verify example_env \<lparr>gs_identity = None, gs_key = Some [7]\<rparr> (Some m) = Ok ()"
  by (rule marker_authenticates [THEN conjunct1, rule_format, where k = "[7]"]) simp

text \<open>
  C6. What the guard lets through: a spawn is allowed exactly when the process knows its own
  identity and holds a marker key, the program neither names nor is this binary and could be
  looked up, the presented marker authenticates, the child (if any) extends the lineage, and
  the voter (if any) is not the proposer of the claim. Nothing else, and no mode, enters.
\<close>

theorem judge_allows_iff:
  "verdict_allowed (judge env st req) \<longleftrightarrow>
     (\<exists>identity key. gs_identity st = Some identity \<and> gs_key st = Some key \<and>
        own_binary_detail env identity (sr_argv req) = None \<and>
        (sr_argv req = [] \<or> is_own_file env identity (hd (sr_argv req)) = Ok False) \<and>
        marker_verify env st (sr_marker req) = Ok ()) \<and>
     \<not> (\<exists>l c e. sr_lineage req = Some l \<and> sr_child req = Some c \<and> lineage_child l c = Err e) \<and>
     \<not> (\<exists>a. sr_claim_proposer req = Some a \<and> sr_voter req = Some a)"
proof -
  have 1: "layer1 st = [] \<longleftrightarrow> (\<exists>i. gs_identity st = Some i)" by (auto simp: layer1_def)
  have 2: "layer2 st = [] \<longleftrightarrow> (\<exists>k. gs_key st = Some k)" by (auto simp: layer2_def has_key_def)
  have 3: "layer3 env st req = [] \<longleftrightarrow>
      (\<forall>i. gs_identity st = Some i \<longrightarrow> own_binary_detail env i (sr_argv req) = None)"
    by (auto simp: layer3_def split: option.splits)
  have 4: "layer4 env st req = [] \<longleftrightarrow> (\<forall>i. gs_identity st = Some i \<longrightarrow>
      sr_argv req = [] \<or> is_own_file env i (hd (sr_argv req)) = Ok False)"
    by (auto simp: layer4_def split: option.splits list.splits outcome.splits bool.splits)
  have 5: "layer5 env st req = [] \<longleftrightarrow> marker_verify env st (sr_marker req) = Ok ()"
    by (auto simp: layer5_def is_Ok_iff)
  have "verdict_allowed (judge env st req) \<longleftrightarrow> layer1 st = [] \<and> layer2 st = [] \<and> layer3 env st req = [] \<and>
      layer4 env st req = [] \<and> layer5 env st req = [] \<and> layer6 env req = [] \<and> layer7 req = []"
    by (simp add: verdict_allowed_def judge_def)
  then show ?thesis unfolding 1 2 3 4 5 layer6_Nil layer7_Nil by auto
qed

text \<open>
  Every layer is judged, whatever the others say: the refusals are reported in layer
  order and name a layer exactly when its own condition fails, so one refusal never hides
  another, and an unidentified or unkeyed guard refuses everything.
\<close>

theorem judge_reports_every_layer:
  "sorted (refused_layers (judge env st req)) \<and>
   (1 \<in> set (refused_layers (judge env st req)) \<longleftrightarrow> gs_identity st = None) \<and>
   (2 \<in> set (refused_layers (judge env st req)) \<longleftrightarrow> gs_key st = None) \<and>
   (5 \<in> set (refused_layers (judge env st req)) \<longleftrightarrow> marker_verify env st (sr_marker req) \<noteq> Ok ()) \<and>
   (6 \<in> set (refused_layers (judge env st req)) \<longleftrightarrow>
      (\<exists>l c e. sr_lineage req = Some l \<and> sr_child req = Some c \<and> lineage_child l c = Err e)) \<and>
   (7 \<in> set (refused_layers (judge env st req)) \<longleftrightarrow>
      (\<exists>a. sr_claim_proposer req = Some a \<and> sr_voter req = Some a)) \<and>
   length (judge env st req) \<le> 7"
proof (intro conjI)
  have sub: "set (refused_layers (judge env st req)) = set (map layer_of (layer1 st)) \<union>
      set (map layer_of (layer2 st)) \<union> set (map layer_of (layer3 env st req)) \<union>
      set (map layer_of (layer4 env st req)) \<union> set (map layer_of (layer5 env st req)) \<union>
      set (map layer_of (layer6 env req)) \<union> set (map layer_of (layer7 req))"
    by (simp only: refused_layers_def judge_def map_append set_append Un_assoc)
  show "sorted (refused_layers (judge env st req))"
    unfolding refused_layers_def judge_def map_append
    using sorted_short [OF layer_short(1) [of st], of layer_of] sorted_short [OF layer_short(2) [of st], of layer_of]
      sorted_short [OF layer_short(3) [of env st req], of layer_of]
      sorted_short [OF layer_short(4) [of env st req], of layer_of]
      sorted_short [OF layer_short(5) [of env st req], of layer_of]
      sorted_short [OF layer_short(6) [of env req], of layer_of]
      sorted_short [OF layer_short(7) [of req], of layer_of]
      layer_numbers(1) [of st] layer_numbers(2) [of st] layer_numbers(3,4,5) [of env st req]
      layer_numbers(6) [of env req] layer_numbers(7) [of req]
    by (fastforce simp: sorted_append)
  show "1 \<in> set (refused_layers (judge env st req)) \<longleftrightarrow> gs_identity st = None"
    unfolding sub using layer_numbers(2) [of st] layer_numbers(3,4,5) [of env st req]
      layer_numbers(6) [of env req] layer_numbers(7) [of req] by (auto simp: layer1_def)
  show "2 \<in> set (refused_layers (judge env st req)) \<longleftrightarrow> gs_key st = None"
    unfolding sub using layer_numbers(1) [of st] layer_numbers(3,4,5) [of env st req]
      layer_numbers(6) [of env req] layer_numbers(7) [of req] by (auto simp: layer2_def has_key_def)
  show "5 \<in> set (refused_layers (judge env st req)) \<longleftrightarrow> marker_verify env st (sr_marker req) \<noteq> Ok ()"
    unfolding sub using layer_numbers(1,2) [of st] layer_numbers(3,4) [of env st req]
      layer_numbers(6) [of env req] layer_numbers(7) [of req] by (auto simp: layer5_def is_Ok_iff)
  show "6 \<in> set (refused_layers (judge env st req)) \<longleftrightarrow>
      (\<exists>l c e. sr_lineage req = Some l \<and> sr_child req = Some c \<and> lineage_child l c = Err e)"
  proof -
    have "6 \<in> set (refused_layers (judge env st req)) \<longleftrightarrow> layer6 env req \<noteq> []"
      unfolding sub using layer_numbers(1,2) [of st] layer_numbers(3,4,5) [of env st req]
        layer_numbers(6) [of env req] layer_numbers(7) [of req] by (cases "layer6 env req") auto
    then show ?thesis by (simp only: layer6_Nil not_not)
  qed
  show "7 \<in> set (refused_layers (judge env st req)) \<longleftrightarrow>
      (\<exists>a. sr_claim_proposer req = Some a \<and> sr_voter req = Some a)"
  proof -
    have "7 \<in> set (refused_layers (judge env st req)) \<longleftrightarrow> layer7 req \<noteq> []"
      unfolding sub using layer_numbers(1,2) [of st] layer_numbers(3,4,5) [of env st req]
        layer_numbers(6) [of env req] layer_numbers(7) [of req] by (cases "layer7 req") auto
    then show ?thesis by (simp only: layer7_Nil not_not)
  qed
  show "length (judge env st req) \<le> 7"
    using layer_short(1,2) [of st] layer_short(3,4,5) [of env st req] layer_short(6) [of env req]
      layer_short(7) [of req] by (simp add: judge_def)
qed

section \<open>Divergence from the documentation\<close>

text \<open>
  \<open>establish\<close> is documented to return, on later calls, what the first call stored. It
  returns the identity it has just read; the stored one does stay the first.
\<close>

lemma establish_returns_the_fresh_identity:
  "gs_identity st = Some old \<Longrightarrow> establish (Some p) (Some f) st = (Some \<lparr>pi_path = p, pi_file = f\<rparr>, st)"
  by (simp add: establish_def)

end
