(* ===== verification/Blackboard.thy ===== *)
theory Blackboard
  imports Cohort Turn_Store "HOL-Library.List_Lexorder" "HOL-Library.Char_ord"
begin

text \<open>
  \<open>crates/supra_blackboard\<close>: the claims of a cohort, their validators and votes, in memory
  (\<open>board.rs\<close>) and in the three tables of \<open>schema.rs\<close>. A table is a map from its primary
  key to its row, with the CHECK constraints of the schema; an id column holds the id (its
  fixed-width text is one to one). SQLite enters as a fault that may strike a transaction, which
  then changes nothing. The details of malformed-row errors are held as the data they print.
  An operation that fails returns no board: the caller keeps the one it had.
\<close>

section \<open>Errors\<close>

datatype malformed =
    BodyTooLong nat
  | Irreproducible claim_id
  | UnknownStatus claim_id string
  | BadVote string
  | ClosedConcurrently claim_id

datatype blackboard_error =
    BB_Malformed malformed
  | BB_Store string
  | BB_Sqlite string
  | UnknownClaim claim_id
  | DuplicateVote agent_id claim_id
  | NotInCohort agent_id claim_id
  | ClaimClosed claim_id
  | BB_Tally tally_error
  | NotAProposer agent_id claim_id

section \<open>The tables\<close>

record claim_row =
  cr_turn :: turn_id
  cr_proposer :: agent_id
  cr_body :: string
  cr_k :: int
  cr_created_at :: int
  cr_status :: string

record vote_row =
  vr_vote :: string
  vr_reason :: string
  vr_evidence :: "string option"

record bb_db =
  db_claims :: "(claim_id, claim_row) btree"
  db_votes :: "(claim_id \<times> agent_id, vote_row) btree"
  db_validators :: "(claim_id \<times> agent_id, unit) btree"

definition db_empty :: bb_db where
  "db_empty = \<lparr>db_claims = [], db_votes = [], db_validators = []\<rparr>"

text \<open>SQLite's \<open>length\<close> counts the characters of a UTF-8 text before its first NUL.\<close>

definition sql_length :: "string \<Rightarrow> nat" where
  "sql_length s = length (filter (\<lambda>c. (of_char c :: nat) div 64 \<noteq> 2) (takeWhile (\<lambda>c. (of_char c :: nat) \<noteq> 0) s))"

definition claim_check :: "claim_row \<Rightarrow> bool" where
  "claim_check r \<longleftrightarrow> sql_length (cr_body r) > 0 \<and> sql_length (cr_body r) \<le> 2048 \<and>
     cr_k r \<ge> 1 \<and> cr_k r \<le> 80 \<and> cr_created_at r \<ge> 0 \<and>
     cr_status r \<in> {''open'', ''reached'', ''unreachable''}"

definition vote_check :: "vote_row \<Rightarrow> bool" where
  "vote_check r \<longleftrightarrow> vr_vote r \<in> {''yes'', ''no'', ''abstain''} \<and> sql_length (vr_reason r) \<le> 140 \<and>
     (case vr_evidence r of None \<Rightarrow> True | Some e \<Rightarrow> sql_length e \<le> 40)"

fun insert_validators ::
    "claim_id \<Rightarrow> agent_id list \<Rightarrow> bb_db \<Rightarrow> (bb_db, blackboard_error) outcome" where
  "insert_validators claim [] db = Ok db"
| "insert_validators claim (agent # rest) db =
     (if map_of (db_validators db) (claim, agent) \<noteq> None then Err (BB_Store ''UNIQUE constraint failed'')
      else insert_validators claim rest
             (db\<lparr>db_validators := bt_insert (claim, agent) () (db_validators db)\<rparr>))"

definition insert_claim ::
    "claim_id \<Rightarrow> turn_id \<Rightarrow> agent_id \<Rightarrow> string \<Rightarrow> nat \<Rightarrow> string \<Rightarrow> agent_id list \<Rightarrow> int \<Rightarrow> bb_db \<Rightarrow>
     (bb_db, blackboard_error) outcome" where
  "insert_claim claim turn proposer body k status validators now_ms db =
     (let row = \<lparr>cr_turn = turn, cr_proposer = proposer, cr_body = body, cr_k = min (int k) i64_max,
                 cr_created_at = now_ms, cr_status = status\<rparr> in
      if \<not> claim_check row then Err (BB_Store ''CHECK constraint failed'')
      else if map_of (db_claims db) claim \<noteq> None then Err (BB_Store ''UNIQUE constraint failed'')
      else insert_validators claim validators (db\<lparr>db_claims := bt_insert claim row (db_claims db)\<rparr>))"

definition update_status :: "claim_id \<Rightarrow> string \<Rightarrow> bb_db \<Rightarrow> bool \<times> bb_db" where
  "update_status claim status db =
     (case map_of (db_claims db) claim of
        Some row \<Rightarrow>
          if cr_status row = ''open''
          then (True, db\<lparr>db_claims := bt_insert claim (row\<lparr>cr_status := status\<rparr>) (db_claims db)\<rparr>)
          else (False, db)
      | None \<Rightarrow> (False, db))"

fun vote_text :: "vote \<Rightarrow> string" where
  "vote_text Yes = ''yes''" | "vote_text No = ''no''" | "vote_text Abstain = ''abstain''"

definition vote_from_text :: "string \<Rightarrow> vote option" where
  "vote_from_text s =
     (if s = ''yes'' then Some Yes else if s = ''no'' then Some No
      else if s = ''abstain'' then Some Abstain else None)"

definition insert_vote ::
    "claim_id \<Rightarrow> agent_id \<Rightarrow> verdict \<Rightarrow> bb_db \<Rightarrow> (bb_db, blackboard_error) outcome" where
  "insert_vote claim voter verdict db =
     (let row = \<lparr>vr_vote = vote_text (v_vote verdict), vr_reason = v_reason verdict,
                 vr_evidence = v_evidence_ref verdict\<rparr> in
      if \<not> vote_check row then Err (BB_Store ''CHECK constraint failed'')
      else if map_of (db_votes db) (claim, voter) \<noteq> None then Err (BB_Store ''UNIQUE constraint failed'')
      else Ok (db\<lparr>db_votes := bt_insert (claim, voter) row (db_votes db)\<rparr>))"

text \<open>\<open>WHERE claim_id = ?1 ORDER BY\<close> the second key column.\<close>

definition rows_of :: "'c \<Rightarrow> ('c \<times> 'a, 'r) btree \<Rightarrow> ('a, 'r) btree" where
  "rows_of c m = map (\<lambda>((_, a), r). (a, r)) (filter (\<lambda>((c', _), _). c' = c) m)"

record stored_claim =
  st_claim :: claim_id
  st_turn :: turn_id
  st_proposer :: agent_id
  st_body :: string
  st_k :: nat
  st_status :: string

fun read_votes :: "(agent_id \<times> vote_row) list \<Rightarrow> ((agent_id \<times> vote) list, blackboard_error) outcome" where
  "read_votes [] = Ok []"
| "read_votes ((voter, row) # rest) =
     (case vote_from_text (vr_vote row) of
        None \<Rightarrow> Err (BB_Malformed (BadVote (vr_vote row)))
      | Some v \<Rightarrow> bind_outcome (read_votes rest) (\<lambda>vs. Ok ((voter, v) # vs)))"

fun read_all ::
    "bb_db \<Rightarrow> (claim_id \<times> claim_row) list \<Rightarrow>
     ((stored_claim \<times> agent_id list \<times> (agent_id \<times> vote) list) list, blackboard_error) outcome" where
  "read_all db [] = Ok []"
| "read_all db ((claim, row) # rest) =
     bind_outcome (read_votes (rows_of claim (db_votes db))) (\<lambda>votes.
       bind_outcome (read_all db rest) (\<lambda>claims.
         Ok ((\<lparr>st_claim = claim, st_turn = cr_turn row, st_proposer = cr_proposer row,
               st_body = cr_body row, st_k = (if cr_k row < 0 then 0 else nat (cr_k row)),
               st_status = cr_status row\<rparr>,
              map fst (rows_of claim (db_validators db)), votes) # claims)))"

section \<open>Transactions\<close>

datatype tx_fault = Tx_Ok | Tx_Open string | Tx_Statement string | Tx_Commit string

definition with_tx ::
    "tx_fault \<Rightarrow> bb_db \<Rightarrow> (bb_db \<Rightarrow> (bb_db, blackboard_error) outcome) \<Rightarrow>
     (bb_db, blackboard_error) outcome" where
  "with_tx fault db work =
     (case fault of
        Tx_Open e \<Rightarrow> Err (BB_Sqlite e)
      | Tx_Statement e \<Rightarrow> Err (BB_Store e)
      | Tx_Commit e \<Rightarrow> bind_outcome (work db) (\<lambda>_. Err (BB_Sqlite e))
      | Tx_Ok \<Rightarrow> work db)"

section \<open>The board\<close>

definition MAX_BODY_BYTES :: nat where "MAX_BODY_BYTES = 2048"

record claim_state =
  cs_turn :: turn_id
  cs_proposer :: agent_id
  cs_body :: string
  cs_k :: nat
  cs_tally :: quorum_tally
  cs_status :: quorum_status
  cs_validators :: "(agent_id, vote option) btree"

record board =
  b_db :: bb_db
  b_claims :: "(claim_id, claim_state) btree"

record vote_outcome =
  o_claim :: claim_id
  o_status :: quorum_status
  o_tally :: quorum_tally

definition vote_outcome_reached :: "vote_outcome \<Rightarrow> bool" where
  "vote_outcome_reached o' \<longleftrightarrow> o_status o' = Reached"

definition ordinary_tally :: "nat \<Rightarrow> quorum_tally" where
  "ordinary_tally k =
     (case tally_record (tally_new k) Yes of Ok (_, tally) \<Rightarrow> tally | _ \<Rightarrow> tally_new k)"

definition status_text :: "quorum_status \<Rightarrow> string" where
  "status_text s = (case s of Open \<Rightarrow> ''open'' | Reached \<Rightarrow> ''reached'' | Unreachable \<Rightarrow> ''unreachable'')"

fun hydrate_votes ::
    "(agent_id \<times> vote) list \<Rightarrow> (agent_id, vote option) btree \<times> quorum_tally \<times> bool \<Rightarrow>
     (agent_id, vote option) btree \<times> quorum_tally \<times> bool" where
  "hydrate_votes [] st = st"
| "hydrate_votes ((voter, v) # rest) (validators, tally, inconsistent) =
     (case map_of validators voter of
        Some None \<Rightarrow>
          (case tally_record tally v of
             Ok (_, tally') \<Rightarrow> hydrate_votes rest (bt_insert voter (Some v) validators, tally', inconsistent)
           | _ \<Rightarrow> hydrate_votes rest (bt_insert voter (Some v) validators, tally, True))
      | _ \<Rightarrow> hydrate_votes rest (validators, tally, True))"

definition hydrate_claim ::
    "stored_claim \<Rightarrow> agent_id list \<Rightarrow> (agent_id \<times> vote) list \<Rightarrow> (claim_state, blackboard_error) outcome" where
  "hydrate_claim stored validators votes =
     (let k = max (st_k stored) 1;
          blind_rederivation = (k = 1 \<and> validators = [st_proposer stored]);
          (slots, tally, inconsistent) =
            hydrate_votes votes (bt_of_list (map (\<lambda>a. (a, None)) validators),
              (if blind_rederivation then tally_new k else ordinary_tally k), False)
      in if inconsistent then Err (BB_Malformed (Irreproducible (st_claim stored)))
         else
           let state = \<lambda>status. Ok \<lparr>cs_turn = st_turn stored, cs_proposer = st_proposer stored,
                 cs_body = st_body stored, cs_k = k, cs_tally = tally, cs_status = status,
                 cs_validators = slots\<rparr>
           in if st_status stored = ''open'' then state (tally_status tally)
              else if st_status stored = ''reached'' then state Reached
              else if st_status stored = ''unreachable'' then state Unreachable
              else Err (BB_Malformed (UnknownStatus (st_claim stored) (st_status stored))))"

fun hydrate_all ::
    "(stored_claim \<times> agent_id list \<times> (agent_id \<times> vote) list) list \<Rightarrow> (claim_id, claim_state) btree \<Rightarrow>
     ((claim_id, claim_state) btree, blackboard_error) outcome" where
  "hydrate_all [] claims = Ok claims"
| "hydrate_all ((stored, validators, votes) # rest) claims =
     bind_outcome (hydrate_claim stored validators votes) (\<lambda>state.
       hydrate_all rest (bt_insert (st_claim stored) state claims))"

text \<open>On a migrated store; the transaction only reads.\<close>

definition board_open :: "tx_fault \<Rightarrow> bb_db \<Rightarrow> (board, blackboard_error) outcome" where
  "board_open fault db =
     bind_outcome (with_tx fault db (\<lambda>db. bind_outcome (read_all db (db_claims db)) (\<lambda>rows.
         bind_outcome (hydrate_all rows []) (\<lambda>_. Ok db)))) (\<lambda>_.
       bind_outcome (read_all db (db_claims db)) (\<lambda>rows.
         bind_outcome (hydrate_all rows []) (\<lambda>claims. Ok \<lparr>b_db = db, b_claims = claims\<rparr>)))"

text \<open>The environment of a publish: the fault, the id it generates and the clock.\<close>

type_synonym publish_env = "tx_fault \<times> claim_id \<times> int"

definition board_publish ::
    "publish_env \<Rightarrow> turn_id \<Rightarrow> agent_id \<Rightarrow> agent_id list \<Rightarrow> string \<Rightarrow> board \<Rightarrow>
     (claim_id \<times> board, blackboard_error) outcome" where
  "board_publish env turn proposer validators body b =
     (let (fault, claim, now_ms) = env; k = length validators + 1 in
      if proposer \<in> set validators then Err (NotAProposer proposer claim)
      else if length body > MAX_BODY_BYTES then Err (BB_Malformed (BodyTooLong (length body)))
      else bind_outcome (with_tx fault (b_db b)
               (insert_claim claim turn proposer body k ''open'' validators now_ms)) (\<lambda>db.
             Ok (claim, \<lparr>b_db = db, b_claims = bt_insert claim
                 \<lparr>cs_turn = turn, cs_proposer = proposer, cs_body = body, cs_k = k,
                  cs_tally = ordinary_tally k, cs_status = Open,
                  cs_validators = bt_of_list (map (\<lambda>a. (a, None)) validators)\<rparr> (b_claims b)\<rparr>)))"

definition board_publish_blind ::
    "publish_env \<Rightarrow> turn_id \<Rightarrow> agent_id \<Rightarrow> string \<Rightarrow> board \<Rightarrow> (claim_id \<times> board, blackboard_error) outcome" where
  "board_publish_blind env turn proposer body b =
     (let (fault, claim, now_ms) = env in
      if length body > MAX_BODY_BYTES then Err (BB_Malformed (BodyTooLong (length body)))
      else bind_outcome (with_tx fault (b_db b)
               (insert_claim claim turn proposer body 1 ''open'' [proposer] now_ms)) (\<lambda>db.
             Ok (claim, \<lparr>b_db = db, b_claims = bt_insert claim
                 \<lparr>cs_turn = turn, cs_proposer = proposer, cs_body = body, cs_k = 1,
                  cs_tally = tally_new 1, cs_status = Open,
                  cs_validators = bt_of_list [(proposer, None)]\<rparr> (b_claims b)\<rparr>)))"

definition record_vote ::
    "tx_fault \<Rightarrow> claim_id \<Rightarrow> agent_id \<Rightarrow> verdict \<Rightarrow> claim_state \<Rightarrow> board \<Rightarrow>
     (vote_outcome \<times> board, blackboard_error) outcome" where
  "record_vote fault claim voter verdict state b =
     (case map_of (cs_validators state) voter of
        None \<Rightarrow> Err (NotInCohort voter claim)
      | Some (Some _) \<Rightarrow> Err (DuplicateVote voter claim)
      | Some None \<Rightarrow>
          (case tally_record (cs_tally state) (v_vote verdict) of
             Err e \<Rightarrow> Err (BB_Tally e)
           | Panic \<Rightarrow> Panic
           | Ok (status, tally) \<Rightarrow>
               bind_outcome (with_tx fault (b_db b) (\<lambda>db.
                   bind_outcome (insert_vote claim voter verdict db) (\<lambda>db.
                     if status \<noteq> Open then
                       (case update_status claim (status_text status) db of
                          (True, db) \<Rightarrow> Ok db
                        | (False, _) \<Rightarrow> Err (BB_Malformed (ClosedConcurrently claim)))
                     else Ok db))) (\<lambda>db.
                 Ok (\<lparr>o_claim = claim, o_status = status, o_tally = tally\<rparr>,
                     \<lparr>b_db = db, b_claims = bt_insert claim
                        (state\<lparr>cs_validators := bt_insert voter (Some (v_vote verdict)) (cs_validators state),
                               cs_tally := tally, cs_status := status\<rparr>) (b_claims b)\<rparr>))))"

definition board_vote ::
    "tx_fault \<Rightarrow> claim_id \<Rightarrow> agent_id \<Rightarrow> verdict \<Rightarrow> board \<Rightarrow> (vote_outcome \<times> board, blackboard_error) outcome" where
  "board_vote fault claim voter verdict b =
     (case map_of (b_claims b) claim of
        None \<Rightarrow> Err (UnknownClaim claim)
      | Some state \<Rightarrow>
          if cs_status state \<noteq> Open then Err (ClaimClosed claim)
          else if voter = cs_proposer state then Err (NotAProposer voter claim)
          else record_vote fault claim voter verdict state b)"

definition board_vote_blind ::
    "tx_fault \<Rightarrow> claim_id \<Rightarrow> agent_id \<Rightarrow> verdict \<Rightarrow> board \<Rightarrow> (vote_outcome \<times> board, blackboard_error) outcome" where
  "board_vote_blind fault claim voter verdict b =
     (case map_of (b_claims b) claim of
        None \<Rightarrow> Err (UnknownClaim claim)
      | Some state \<Rightarrow>
          if cs_status state \<noteq> Open then Err (ClaimClosed claim)
          else if cs_proposer state \<noteq> voter \<or> cs_k state \<noteq> 1 \<or> length (cs_validators state) \<noteq> 1
          then Err (NotInCohort voter claim)
          else record_vote fault claim voter verdict state b)"

definition board_outcome :: "claim_id \<Rightarrow> board \<Rightarrow> vote_outcome option" where
  "board_outcome claim b =
     map_option (\<lambda>s. \<lparr>o_claim = claim, o_status = cs_status s, o_tally = cs_tally s\<rparr>) (map_of (b_claims b) claim)"

definition board_claim :: "claim_id \<Rightarrow> board \<Rightarrow> stored_claim option" where
  "board_claim claim b =
     map_option (\<lambda>s. \<lparr>st_claim = claim, st_turn = cs_turn s, st_proposer = cs_proposer s,
       st_body = cs_body s, st_k = cs_k s, st_status = status_text (cs_status s)\<rparr>) (map_of (b_claims b) claim)"

definition cast_votes :: "(agent_id, vote option) btree \<Rightarrow> (agent_id \<times> vote) list" where
  "cast_votes m = concat (map (\<lambda>(a, v). case v of None \<Rightarrow> [] | Some v \<Rightarrow> [(a, v)]) m)"

definition board_votes :: "claim_id \<Rightarrow> board \<Rightarrow> (agent_id \<times> vote) list option" where
  "board_votes claim b = map_option (cast_votes \<circ> cs_validators) (map_of (b_claims b) claim)"

fun count_proposals ::
    "turn_id \<Rightarrow> (claim_id \<times> claim_state) list \<Rightarrow> (agent_id, nat) btree \<Rightarrow> (agent_id, nat) btree" where
  "count_proposals turn [] counts = counts"
| "count_proposals turn ((_, s) # rest) counts =
     count_proposals turn rest
       (if cs_turn s = turn then
          (case map_of counts (cs_proposer s) of
             Some n \<Rightarrow> bt_insert (cs_proposer s) (n + 1) counts
           | None \<Rightarrow> counts)
        else counts)"

definition next_proposer :: "(ulid \<Rightarrow> string) \<Rightarrow> turn_id \<Rightarrow> agent_id list \<Rightarrow> board \<Rightarrow> agent_id option" where
  "next_proposer U turn candidates b =
     map_option fst (min_by_key (\<lambda>(agent, n). (n, U (agent_raw agent)))
       (count_proposals turn (b_claims b) (bt_of_list (map (\<lambda>a. (a, 0)) candidates))))"

definition board_reachable :: "claim_id \<Rightarrow> board \<Rightarrow> bool option" where
  "board_reachable claim b = map_option (\<lambda>s. cs_status s \<noteq> Unreachable) (map_of (b_claims b) claim)"

definition all_claims :: "board \<Rightarrow> claim_id list" where
  "all_claims b = map fst (b_claims b)"


section \<open>Reading a table by its first key column\<close>

lemma rows_of_get: "map_of (rows_of c m) a = map_of m (c, a)"
  by (induction m) (auto simp: rows_of_def)

lemma rows_of_sorted: "bt_sorted m \<Longrightarrow> bt_sorted (rows_of c m)"
  by (induction m) (fastforce simp: rows_of_def bt_sorted_def split: if_splits)+

lemma rows_of_insert: "bt_sorted m \<Longrightarrow> rows_of c (bt_insert (c, a) r m) = bt_insert a r (rows_of c m)"
  by (rule bt_ext) (auto simp: rows_of_sorted bt_insert_sorted rows_of_get bt_insert_get fun_eq_iff)

lemma rows_of_other: "c' \<noteq> c \<Longrightarrow> rows_of c' (bt_insert (c, a) r m) = rows_of c' m"
  by (induction "(c, a)" r m rule: bt_insert.induct) (auto simp: rows_of_def)

lemma rows_of_Nil [simp]: "rows_of c [] = []"
  by (simp add: rows_of_def)

section \<open>Votes of a slot map\<close>

lemma cast_votes_simps [simp]:
  "cast_votes [] = []"
  "cast_votes ((a, None) # m) = cast_votes m"
  "cast_votes ((a, Some v) # m) = (a, v) # cast_votes m"
  by (simp_all add: cast_votes_def)

lemma cast_votes_set: "(a, v) \<in> set (cast_votes m) \<longleftrightarrow> (a, Some v) \<in> set m"
  by (induction m) (auto simp: cast_votes_def split: option.splits)

lemma cast_votes_keys: "fst ` set (cast_votes m) \<subseteq> fst ` set m"
  by (force simp: cast_votes_set)

lemma cast_votes_sorted: "bt_sorted m \<Longrightarrow> bt_sorted (cast_votes m)"
proof (induction m)
  case (Cons x m)
  obtain a v where x: "x = (a, v)" by force
  have "\<forall>b \<in> fst ` set (cast_votes m). a < b"
  proof -
    have "\<forall>b \<in> fst ` set m. a < b" using Cons.prems by (auto simp: bt_sorted_def x)
    then show ?thesis using cast_votes_keys [of m] by blast
  qed
  moreover have "bt_sorted (cast_votes m)" using Cons by (simp add: bt_sorted_def)
  ultimately show ?case by (cases v) (auto simp: bt_sorted_def x)
qed simp

lemma cast_votes_get: "bt_sorted m \<Longrightarrow> map_of (cast_votes m) a = Option.bind (map_of m a) (\<lambda>v. v)"
proof (induction m)
  case (Cons x m)
  obtain b v where x: "x = (b, v)" by force
  have "map_of m b = None" using Cons.prems by (auto simp: bt_sorted_def x map_of_eq_None_iff)
  moreover have "bt_sorted m" using Cons.prems by (simp add: bt_sorted_def)
  ultimately show ?case using Cons.IH by (cases v) (auto simp: x)
qed simp

lemma cast_votes_insert: "bt_sorted m \<Longrightarrow> cast_votes (bt_insert a (Some v) m) = bt_insert a v (cast_votes m)"
  by (rule bt_ext)
    (auto simp: cast_votes_sorted bt_insert_sorted cast_votes_get bt_insert_get fun_eq_iff)

lemma cast_votes_none: "\<forall>v \<in> snd ` set m. v = None \<Longrightarrow> cast_votes m = []"
  by (induction m) (auto simp: cast_votes_def)

lemma fresh_slots: "cast_votes (bt_of_list (map (\<lambda>a. (a, None)) as)) = []"
proof (rule cast_votes_none)
  have "\<forall>v \<in> snd ` set (fold (\<lambda>(k, v). bt_insert k v) (map (\<lambda>a. (a, None)) as) m). v = None"
    if "\<forall>v \<in> snd ` set m. v = None" for m
    using that
  proof (induction as arbitrary: m)
    case (Cons a as)
    have "\<forall>v \<in> snd ` set (bt_insert a None m). v = None"
      using bt_insert_set [of a None m] Cons.prems by auto
    from Cons.IH [OF this] show ?case by simp
  qed simp
  from this [of "[]"] show "\<forall>v \<in> snd ` set (bt_of_list (map (\<lambda>a. (a, None)) as)). v = None"
    by (simp add: bt_of_list_def)
qed

lemma vote_roundtrip [simp]: "vote_from_text (vote_text v) = Some v"
  by (cases v) (simp_all add: vote_from_text_def)

lemma read_votes_insert:
  "read_votes rows = Ok vs \<Longrightarrow> vote_from_text (vr_vote row) = Some v \<Longrightarrow>
   read_votes (bt_insert a row rows) = Ok (bt_insert a v vs)"
proof (induction a row rows arbitrary: vs rule: bt_insert.induct)
  case (2 a row b r rows)
  from "2.prems"(1) obtain w ws where w: "vote_from_text (vr_vote r) = Some w"
      "read_votes rows = Ok ws" "vs = (b, w) # ws"
    by (cases "read_votes rows") (auto split: option.splits)
  show ?case using "2.IH" [OF _ _ w(2) "2.prems"(2)] "2.prems" w by auto
qed simp

lemma read_votes_keys: "read_votes rows = Ok vs \<Longrightarrow> map fst vs = map fst rows"
proof (induction rows arbitrary: vs)
  case (Cons r rows)
  then show ?case by (cases r; cases "read_votes rows") (auto split: option.splits)
qed simp


section \<open>The invariant\<close>

definition blind :: "claim_state \<Rightarrow> bool" where
  "blind s \<longleftrightarrow> cs_k s = 1 \<and> map fst (cs_validators s) = [cs_proposer s]"

text \<open>The tally a claim starts with: an ordinary publication is the proposer's own yes.\<close>

definition base_tally :: "claim_state \<Rightarrow> quorum_tally" where
  "base_tally s = (if blind s then tally_new (cs_k s) else ordinary_tally (cs_k s))"

definition state_ok :: "claim_state \<Rightarrow> bool" where
  "state_ok s \<longleftrightarrow> bt_sorted (cs_validators s) \<and>
     (blind s \<or> cs_proposer s \<notin> fst ` set (cs_validators s) \<and> cs_k s = length (cs_validators s) + 1) \<and>
     tally_record_all (base_tally s) (map snd (cast_votes (cs_validators s))) = Ok (cs_tally s) \<and>
     (if cs_validators s = [] then cs_status s \<noteq> Unreachable else cs_status s = tally_status (cs_tally s))"

definition row_matches :: "claim_state \<Rightarrow> claim_row \<Rightarrow> bool" where
  "row_matches s row \<longleftrightarrow> cr_turn row = cs_turn s \<and> cr_proposer row = cs_proposer s \<and>
     cr_body row = cs_body s \<and> cr_k row = int (cs_k s) \<and>
     cr_status row = (if cs_validators s = [] then ''open'' else status_text (cs_status s))"

definition claim_stored :: "bb_db \<Rightarrow> claim_id \<Rightarrow> claim_state \<Rightarrow> bool" where
  "claim_stored db c s \<longleftrightarrow> (\<exists>row. map_of (db_claims db) c = Some row \<and> row_matches s row) \<and>
     rows_of c (db_validators db) = map (\<lambda>(a, _). (a, ())) (cs_validators s) \<and>
     read_votes (rows_of c (db_votes db)) = Ok (cast_votes (cs_validators s))"

definition claim_absent :: "bb_db \<Rightarrow> claim_id \<Rightarrow> bool" where
  "claim_absent db c \<longleftrightarrow> map_of (db_claims db) c = None \<and>
     rows_of c (db_validators db) = [] \<and> rows_of c (db_votes db) = []"

definition db_sorted :: "bb_db \<Rightarrow> bool" where
  "db_sorted db \<longleftrightarrow> bt_sorted (db_claims db) \<and> bt_sorted (db_votes db) \<and> bt_sorted (db_validators db)"

definition board_inv :: "board \<Rightarrow> bool" where
  "board_inv b \<longleftrightarrow> bt_sorted (b_claims b) \<and> db_sorted (b_db b) \<and>
     (\<forall>c. case map_of (b_claims b) c of
        None \<Rightarrow> claim_absent (b_db b) c
      | Some s \<Rightarrow> state_ok s \<and> claim_stored (b_db b) c s)"

lemma board_inv_claim:
  "board_inv b \<Longrightarrow> map_of (b_claims b) c = Some s \<Longrightarrow> state_ok s \<and> claim_stored (b_db b) c s"
  by (auto simp: board_inv_def dest: spec [of _ c])

lemma board_inv_absent: "board_inv b \<Longrightarrow> map_of (b_claims b) c = None \<Longrightarrow> claim_absent (b_db b) c"
  by (auto simp: board_inv_def dest: spec [of _ c])

text \<open>Changing one claim and leaving what the tables hold of the others.\<close>

definition same_elsewhere :: "claim_id \<Rightarrow> bb_db \<Rightarrow> bb_db \<Rightarrow> bool" where
  "same_elsewhere c db db' \<longleftrightarrow> (\<forall>d. d \<noteq> c \<longrightarrow> map_of (db_claims db') d = map_of (db_claims db) d \<and>
     rows_of d (db_validators db') = rows_of d (db_validators db) \<and>
     rows_of d (db_votes db') = rows_of d (db_votes db))"

lemma same_elsewhere_refl: "same_elsewhere c db db"
  by (simp add: same_elsewhere_def)

lemma same_elsewhere_trans: "same_elsewhere c x y \<Longrightarrow> same_elsewhere c y z \<Longrightarrow> same_elsewhere c x z"
  by (simp add: same_elsewhere_def)

lemma board_inv_update:
  assumes inv: "board_inv b" and db: "db_sorted db'" "same_elsewhere c (b_db b) db'"
    and s: "state_ok s" "claim_stored db' c s"
  shows "board_inv \<lparr>b_db = db', b_claims = bt_insert c s (b_claims b)\<rparr>"
proof -
  have "case map_of (bt_insert c s (b_claims b)) d of
      None \<Rightarrow> claim_absent db' d | Some s \<Rightarrow> state_ok s \<and> claim_stored db' d s" for d
  proof (cases "d = c")
    case True
    with s show ?thesis by (simp add: bt_insert_get)
  next
    case False
    with db(2) board_inv_claim [OF inv, of d] board_inv_absent [OF inv, of d] show ?thesis
      by (auto simp: bt_insert_get same_elsewhere_def claim_stored_def claim_absent_def split: option.splits)
  qed
  moreover have "bt_sorted (b_claims b)" using inv by (simp add: board_inv_def)
  ultimately show ?thesis using db(1)
    unfolding board_inv_def board.select_convs by (intro conjI allI) (simp_all add: bt_insert_sorted)
qed

lemma with_tx_Ok: "with_tx fault db work = Ok db' \<Longrightarrow> fault = Tx_Ok \<and> work db = Ok db'"
  by (cases fault) (auto simp: with_tx_def bind_outcome_Ok_iff)

section \<open>Publishing\<close>

lemma insert_validators_spec:
  "insert_validators c as db = Ok db' \<Longrightarrow> db_sorted db \<Longrightarrow>
     db_sorted db' \<and> same_elsewhere c db db' \<and> distinct as \<and>
     db_claims db' = db_claims db \<and> db_votes db' = db_votes db \<and>
     (\<forall>a \<in> set as. map_of (db_validators db) (c, a) = None) \<and>
     rows_of c (db_validators db') = fold (\<lambda>(k, v). bt_insert k v) (map (\<lambda>a. (a, ())) as) (rows_of c (db_validators db))"
proof (induction as arbitrary: db)
  case Nil
  then show ?case by (simp add: same_elsewhere_refl)
next
  case (Cons a as)
  let ?db = "db\<lparr>db_validators := bt_insert (c, a) () (db_validators db)\<rparr>"
  from Cons.prems have new: "map_of (db_validators db) (c, a) = None"
    and rest: "insert_validators c as ?db = Ok db'"
    by (cases "map_of (db_validators db) (c, a)"; simp)+
  have sorted: "db_sorted ?db" using Cons.prems(2) by (simp add: db_sorted_def bt_insert_sorted)
  have same: "same_elsewhere c db ?db" by (simp add: same_elsewhere_def rows_of_other)
  note IH = Cons.IH [OF rest sorted]
  have rows: "rows_of c (db_validators ?db) = bt_insert a () (rows_of c (db_validators db))"
    using Cons.prems(2) by (simp add: db_sorted_def rows_of_insert)
  have notin: "a \<notin> set as"
  proof
    assume "a \<in> set as"
    with IH have "map_of (db_validators ?db) (c, a) = None" by blast
    then show False by (simp add: bt_insert_get)
  qed
  have fresh: "\<forall>x \<in> set as. map_of (db_validators db) (c, x) = None"
  proof
    fix x assume x: "x \<in> set as"
    with IH have "map_of (db_validators ?db) (c, x) = None" by blast
    then show "map_of (db_validators db) (c, x) = None" using x notin by (simp add: bt_insert_get split: if_splits)
  qed
  from IH have "same_elsewhere c ?db db'" by blast
  with same have "same_elsewhere c db db'" by (rule same_elsewhere_trans)
  then show ?case using IH new notin fresh rows by simp
qed

lemma insert_claim_spec:
  assumes "insert_claim c turn p body k status as now db = Ok db'" "db_sorted db"
    and "rows_of c (db_validators db) = []"
  shows "db_sorted db' \<and> same_elsewhere c db db' \<and> distinct as \<and> map_of (db_claims db) c = None \<and>
    1 \<le> k \<and> k \<le> 80 \<and>
    map_of (db_claims db') c = Some \<lparr>cr_turn = turn, cr_proposer = p, cr_body = body, cr_k = int k,
      cr_created_at = now, cr_status = status\<rparr> \<and>
    db_votes db' = db_votes db \<and> rows_of c (db_validators db') = bt_of_list (map (\<lambda>a. (a, ())) as)"
proof -
  let ?row = "\<lparr>cr_turn = turn, cr_proposer = p, cr_body = body, cr_k = min (int k) i64_max,
      cr_created_at = now, cr_status = status\<rparr>"
  let ?db = "db\<lparr>db_claims := bt_insert c ?row (db_claims db)\<rparr>"
  from assms(1) have check: "claim_check ?row" and new: "map_of (db_claims db) c = None"
    and ins: "insert_validators c as ?db = Ok db'"
    by (auto simp: insert_claim_def Let_def split: if_splits)
  have k: "1 \<le> k" "k \<le> 80" "min (int k) i64_max = int k"
    using check by (auto simp: claim_check_def i64_max_def min_def split: if_splits)
  have sorted: "db_sorted ?db" using assms(2) by (simp add: db_sorted_def bt_insert_sorted)
  note vals = insert_validators_spec [OF ins sorted]
  have "same_elsewhere c db ?db" by (simp add: same_elsewhere_def bt_insert_get)
  with vals have "same_elsewhere c db db'" by (blast intro: same_elsewhere_trans)
  then show ?thesis using vals new k assms(3) by (simp add: bt_of_list_def bt_insert_get)
qed

lemma map_unit_slots:
  "map (\<lambda>(a, _). (a, ())) (bt_of_list (map (\<lambda>a. (a, None :: vote option)) as)) = bt_of_list (map (\<lambda>a. (a, ())) as)"
  using bt_of_list_map [of "\<lambda>_. ()" "map (\<lambda>a. (a, None :: vote option)) as"] by (simp add: o_def)

lemma slots_keys: "fst ` set (bt_of_list (map (\<lambda>a. (a, x)) as)) = set as"
  using bt_of_list_keys [of "map (\<lambda>a. (a, x)) as"] by (simp add: o_def)

lemma ordinary_tally_1: "k \<ge> 1 \<Longrightarrow> ordinary_tally k = tally_count Yes (tally_new k)"
  by (simp add: ordinary_tally_def tally_record_def tally_pending_def tally_new_def Let_def)

lemma ordinary_open: "k \<ge> 2 \<Longrightarrow> tally_status (ordinary_tally k) = Open"
  using quorum_bounds [of k] quorum_le [of k]
  by (auto simp: ordinary_tally_1 tally_status_cases tally_new_def tally_pending_def)

lemma ordinary_reached: "tally_status (ordinary_tally 1) = Reached"
  using quorum_le [of 1] by (simp add: ordinary_tally_1 tally_status_cases tally_new_def)

lemma blind_open: "tally_status (tally_new 1) = Open"
  using quorum_bounds(1) [of 1] quorum_le [of 1]
  by (auto simp: tally_status_cases tally_new_def tally_pending_def)


lemma published_inv:
  assumes inv: "board_inv b"
    and ins: "insert_claim c turn p body k ''open'' as now (b_db b) = Ok db"
    and kind: "k = 1 \<and> as = [p] \<and> t = tally_new 1 \<or> k = length as + 1 \<and> p \<notin> set as \<and> t = ordinary_tally k"
  shows "board_inv \<lparr>b_db = db, b_claims = bt_insert c \<lparr>cs_turn = turn, cs_proposer = p, cs_body = body,
    cs_k = k, cs_tally = t, cs_status = Open, cs_validators = bt_of_list (map (\<lambda>a. (a, None)) as)\<rparr> (b_claims b)\<rparr>"
    (is "board_inv \<lparr>b_db = db, b_claims = bt_insert c ?s (b_claims b)\<rparr>")
proof -
  have sorted: "db_sorted (b_db b)" using inv by (simp add: board_inv_def)
  have absent: "claim_absent (b_db b) c"
  proof (cases "map_of (b_claims b) c")
    case None
    with inv show ?thesis by (rule board_inv_absent)
  next
    case (Some s)
    with board_inv_claim [OF inv] obtain row where "map_of (db_claims (b_db b)) c = Some row"
      by (auto simp: claim_stored_def)
    with ins show ?thesis by (auto simp: insert_claim_def Let_def split: if_splits)
  qed
  then have novals: "rows_of c (db_validators (b_db b)) = []" by (simp add: claim_absent_def)
  note spec = insert_claim_spec [OF ins sorted novals]
  have dist: "distinct as" using spec by blast
  have keys: "fst ` set (cs_validators ?s) = set as" by (simp only: claim_state.select_convs slots_keys)
  have len: "length (cs_validators ?s) = length as"
    using bt_of_list_length [of "map (\<lambda>a. (a, None :: vote option)) as"] dist by (simp add: o_def)
  have bl: "blind ?s \<longleftrightarrow> k = 1 \<and> as = [p]"
  proof
    assume "blind ?s"
    then have "k = 1" and f: "map fst (cs_validators ?s) = [p]" by (simp_all add: blind_def)
    have "set as = {p}" using keys f by (metis list.set(1) list.set(2) set_map)
    moreover have "length as = 1" using len arg_cong [OF f, of length] by simp
    ultimately show "k = 1 \<and> as = [p]" using \<open>k = 1\<close> by (cases as) auto
  next
    assume "k = 1 \<and> as = [p]"
    then show "blind ?s" by (simp add: blind_def bt_of_list_def)
  qed
  have cast: "cast_votes (cs_validators ?s) = []" by (simp only: claim_state.select_convs fresh_slots)
  have ok: "state_ok ?s"
  proof -
    have "blind ?s \<or> cs_proposer ?s \<notin> fst ` set (cs_validators ?s) \<and> cs_k ?s = length (cs_validators ?s) + 1"
      using kind unfolding bl keys len by auto
    moreover have "t = base_tally ?s" using kind unfolding base_tally_def bl by auto
    moreover have "tally_status t = Open" if "as \<noteq> []"
      using kind that blind_open ordinary_open [of k] by (cases as) auto
    moreover have "cs_validators ?s = [] \<longleftrightarrow> as = []"
      by (metis len length_0_conv)
    ultimately show ?thesis by (simp add: state_ok_def fresh_slots bt_of_list_sorted bt_of_list_def [of "[]"])
  qed
  have st: "claim_stored db c ?s"
  proof -
    have "read_votes (rows_of c (db_votes db)) = Ok []" using spec absent by (simp add: claim_absent_def)
    moreover have "rows_of c (db_validators db) = map (\<lambda>(a, _). (a, ())) (cs_validators ?s)"
      using spec by (simp only: claim_state.select_convs map_unit_slots)
    ultimately show ?thesis using spec unfolding claim_stored_def cast by (simp add: row_matches_def status_text_def)
  qed
  show ?thesis using board_inv_update [OF inv _ _ ok st] spec by blast
qed

lemma board_publish_inv:
  assumes "board_publish env turn p as body b = Ok (c, b')" "board_inv b"
  shows "board_inv b'"
proof -
  obtain fault claim now where env: "env = (fault, claim, now)" by (cases env)
  from assms(1) obtain db where p: "p \<notin> set as" and c: "claim = c"
    and ins: "insert_claim c turn p body (length as + 1) ''open'' as now (b_db b) = Ok db"
    and b': "b' = \<lparr>b_db = db, b_claims = bt_insert c \<lparr>cs_turn = turn, cs_proposer = p, cs_body = body,
      cs_k = length as + 1, cs_tally = ordinary_tally (length as + 1), cs_status = Open,
      cs_validators = bt_of_list (map (\<lambda>a. (a, None)) as)\<rparr> (b_claims b)\<rparr>"
    by (auto simp: board_publish_def env Let_def bind_outcome_Ok_iff dest!: with_tx_Ok split: if_splits)
  show ?thesis unfolding b' by (rule published_inv [OF assms(2) ins]) (use p in simp)
qed

lemma board_publish_blind_inv:
  assumes "board_publish_blind env turn p body b = Ok (c, b')" "board_inv b"
  shows "board_inv b'"
proof -
  obtain fault claim now where env: "env = (fault, claim, now)" by (cases env)
  from assms(1) obtain db where c: "claim = c"
    and ins: "insert_claim c turn p body 1 ''open'' [p] now (b_db b) = Ok db"
    and b': "b' = \<lparr>b_db = db, b_claims = bt_insert c \<lparr>cs_turn = turn, cs_proposer = p, cs_body = body,
      cs_k = 1, cs_tally = tally_new 1, cs_status = Open,
      cs_validators = bt_of_list (map (\<lambda>a. (a, None)) [p])\<rparr> (b_claims b)\<rparr>"
    by (auto simp: board_publish_blind_def env Let_def bind_outcome_Ok_iff dest!: with_tx_Ok split: if_splits)
  show ?thesis unfolding b' by (rule published_inv [OF assms(2) ins]) simp
qed


section \<open>Voting\<close>

lemma tally_record_all_perm:
  assumes "mset us = mset ws" "tally_record_all t us = Ok t'"
  shows "tally_record_all t ws = Ok t'"
proof -
  have "count_list us = count_list ws" using assms(1) by (simp add: fun_eq_iff flip: count_mset)
  moreover have "length us = length ws" using assms(1) by (rule mset_eq_length)
  ultimately show ?thesis using assms(2) by (simp add: tally_record_all_Ok_iff)
qed

lemma tally_record_all_add:
  assumes "tally_record_all t vs = Ok t1" "tally_record t1 v = Ok (s, t2)" "mset ws = add_mset v (mset vs)"
  shows "tally_record_all t ws = Ok t2"
proof (rule tally_record_all_perm)
  show "mset (vs @ [v]) = mset ws" using assms(3) by simp
  show "tally_record_all t (vs @ [v]) = Ok t2" using assms(1,2) by (simp add: tally_record_all_append)
qed

lemma bt_insert_mset:
  "a \<notin> fst ` set m \<Longrightarrow> mset (map snd (bt_insert a v m)) = add_mset v (mset (map snd m))"
  by (induction a v m rule: bt_insert.induct) auto

lemma bt_insert_same_keys:
  assumes "bt_sorted m" "a \<in> fst ` set m"
  shows "map fst (bt_insert a v m) = map fst m"
proof (rule strict_sorted_equal)
  show "sorted_wrt (<) (map fst (bt_insert a v m))"
    using bt_insert_sorted [OF assms(1)] by (simp add: bt_sorted_def)
  show "sorted_wrt (<) (map fst m)" using assms(1) by (simp add: bt_sorted_def)
  show "set (map fst (bt_insert a v m)) = set (map fst m)"
    using assms(2) by (simp only: bt_insert_keys) auto
qed

lemma voted_state_ok:
  assumes ok: "state_ok s" and slot: "map_of (cs_validators s) a = Some None"
    and rec: "tally_record (cs_tally s) v = Ok (st, t)"
  shows "state_ok (s\<lparr>cs_validators := bt_insert a (Some v) (cs_validators s), cs_tally := t, cs_status := st\<rparr>)"
    (is "state_ok ?s")
proof -
  have sorted: "bt_sorted (cs_validators s)" using ok by (simp add: state_ok_def)
  have mem: "a \<in> fst ` set (cs_validators s)" using map_of_SomeD [OF slot] by force
  have keys: "map fst (cs_validators ?s) = map fst (cs_validators s)"
    using bt_insert_same_keys [OF sorted mem] by simp
  have len: "length (cs_validators ?s) = length (cs_validators s)" using arg_cong [OF keys, of length] by simp
  have bl: "blind ?s = blind s" unfolding blind_def keys by simp
  have base: "base_tally ?s = base_tally s" unfolding base_tally_def bl by simp
  have "map_of (cast_votes (cs_validators s)) a = None" using sorted slot by (simp add: cast_votes_get)
  then have "a \<notin> fst ` set (cast_votes (cs_validators s))" by (simp add: map_of_eq_None_iff)
  then have "mset (map snd (cast_votes (cs_validators ?s))) =
      add_mset v (mset (map snd (cast_votes (cs_validators s))))"
    using sorted by (simp add: cast_votes_insert bt_insert_mset del: mset_map)
  with ok rec have tally: "tally_record_all (base_tally s) (map snd (cast_votes (cs_validators ?s))) = Ok t"
    by (auto simp: state_ok_def intro: tally_record_all_add)
  have "fst ` set (cs_validators ?s) = fst ` set (cs_validators s)"
    using arg_cong [OF keys, of set] by simp
  moreover have "cs_validators ?s \<noteq> []" using mem len by auto
  moreover have "st = tally_status t" using rec by (simp add: tally_record_Ok_iff)
  moreover have "bt_sorted (cs_validators ?s)" using sorted by (simp add: bt_insert_sorted)
  ultimately show ?thesis using ok tally len unfolding state_ok_def base bl by simp
qed

lemma insert_vote_spec:
  assumes "insert_vote c a v db = Ok db'" "db_sorted db"
    and "read_votes (rows_of c (db_votes db)) = Ok vs"
  shows "db_sorted db' \<and> same_elsewhere c db db' \<and> db_claims db' = db_claims db \<and>
    db_validators db' = db_validators db \<and> read_votes (rows_of c (db_votes db')) = Ok (bt_insert a (v_vote v) vs)"
proof -
  let ?row = "\<lparr>vr_vote = vote_text (v_vote v), vr_reason = v_reason v, vr_evidence = v_evidence_ref v\<rparr>"
  from assms(1) have "db' = db\<lparr>db_votes := bt_insert (c, a) ?row (db_votes db)\<rparr>"
    by (auto simp: insert_vote_def Let_def split: if_splits)
  moreover have "read_votes (bt_insert a ?row (rows_of c (db_votes db))) = Ok (bt_insert a (v_vote v) vs)"
    by (rule read_votes_insert [OF assms(3)]) simp
  ultimately show ?thesis using assms(2)
    by (simp add: db_sorted_def same_elsewhere_def bt_insert_sorted rows_of_insert rows_of_other)
qed

lemma update_status_spec:
  assumes "update_status c st db = (True, db')" "db_sorted db" "map_of (db_claims db) c = Some row"
  shows "db_sorted db' \<and> same_elsewhere c db db' \<and> db_validators db' = db_validators db \<and>
    db_votes db' = db_votes db \<and> map_of (db_claims db') c = Some (row\<lparr>cr_status := st\<rparr>)"
  using assms
  by (auto simp: update_status_def db_sorted_def same_elsewhere_def bt_insert_sorted bt_insert_get split: if_splits)

lemma record_vote_inv:
  assumes vote: "record_vote fault c a v s b = Ok (res, b')" and inv: "board_inv b"
    and s: "map_of (b_claims b) c = Some s"
  shows "board_inv b'"
proof -
  from vote obtain st t where slot: "map_of (cs_validators s) a = Some None"
    and rec: "tally_record (cs_tally s) (v_vote v) = Ok (st, t)"
    by (auto simp: record_vote_def split: option.splits outcome.splits)
  let ?s = "s\<lparr>cs_validators := bt_insert a (Some (v_vote v)) (cs_validators s), cs_tally := t, cs_status := st\<rparr>"
  from vote slot rec obtain db2 where tx: "bind_outcome (insert_vote c a v (b_db b)) (\<lambda>db. if st \<noteq> Open then
        (case update_status c (status_text st) db of (True, db) \<Rightarrow> Ok db
         | (False, _) \<Rightarrow> Err (BB_Malformed (ClosedConcurrently c))) else Ok db) = Ok db2"
    and b': "b' = \<lparr>b_db = db2, b_claims = bt_insert c ?s (b_claims b)\<rparr>"
    by (auto simp: record_vote_def bind_outcome_Ok_iff [of "with_tx _ _ _"] dest!: with_tx_Ok)
  from tx obtain db1 where ins: "insert_vote c a v (b_db b) = Ok db1"
    and fin: "(if st \<noteq> Open then (case update_status c (status_text st) db1 of (True, db) \<Rightarrow> Ok db
         | (False, _) \<Rightarrow> Err (BB_Malformed (ClosedConcurrently c))) else Ok db1) = Ok db2"
    unfolding bind_outcome_Ok_iff by blast
  from fin have upd: "if st \<noteq> Open then update_status c (status_text st) db1 = (True, db2) else db2 = db1"
    by (auto split: if_splits prod.splits bool.splits)
  note ok = board_inv_claim [OF inv s]
  then obtain row where row: "map_of (db_claims (b_db b)) c = Some row" "row_matches s row"
    by (auto simp: claim_stored_def)
  have sorted: "db_sorted (b_db b)" "bt_sorted (cs_validators s)" using inv ok by (simp_all add: board_inv_def state_ok_def)
  have votes: "read_votes (rows_of c (db_votes (b_db b))) = Ok (cast_votes (cs_validators s))"
    using ok by (simp add: claim_stored_def)
  note d1 = insert_vote_spec [OF ins sorted(1) votes]
  have mem: "a \<in> fst ` set (cs_validators s)" using map_of_SomeD [OF slot] by force
  have d2: "db_sorted db2 \<and> same_elsewhere c db1 db2 \<and> db_validators db2 = db_validators db1 \<and>
      db_votes db2 = db_votes db1 \<and>
      map_of (db_claims db2) c = Some (if st \<noteq> Open then row\<lparr>cr_status := status_text st\<rparr> else row)"
  proof (cases "st = Open")
    case True
    with upd d1 row show ?thesis by (simp add: same_elsewhere_refl)
  next
    case False
    then have u: "update_status c (status_text st) db1 = (True, db2)" using upd by simp
    have s1: "db_sorted db1" "map_of (db_claims db1) c = Some row" using d1 row by simp_all
    show ?thesis using update_status_spec [OF u s1] False by simp
  qed
  have "same_elsewhere c (b_db b) db2" using d1 d2 by (blast intro: same_elsewhere_trans)
  moreover have "claim_stored db2 c ?s"
  proof -
    have ne: "cs_validators s \<noteq> []" "bt_insert a (Some (v_vote v)) (cs_validators s) \<noteq> []"
      using mem bt_insert_keys [of a "Some (v_vote v)" "cs_validators s"] by auto
    have "cs_status s = Open \<or> st \<noteq> Open"
    proof -
      have "tally_record_all (cs_tally s) [v_vote v] = Ok t" using rec by simp
      from tally_status_mono [OF this] have "st = Open \<Longrightarrow> tally_status (cs_tally s) = Open"
        using rec by (cases "tally_status (cs_tally s)") (auto simp: tally_record_Ok_iff)
      then show ?thesis using ok ne by (auto simp: state_ok_def)
    qed
    then have "row_matches ?s (if st \<noteq> Open then row\<lparr>cr_status := status_text st\<rparr> else row)"
      using row(2) ne by (auto simp: row_matches_def)
    moreover have "map (\<lambda>(a, _). (a, ())) (bt_insert a (Some (v_vote v)) (cs_validators s)) =
        map (\<lambda>(a, _). (a, ())) (cs_validators s)"
    proof -
      have unit: "map (\<lambda>(a, _). (a, ())) m = map (\<lambda>k. (k, ())) (map fst m)" for m :: "(agent_id, vote option) btree"
        by (simp add: split_beta)
      show ?thesis unfolding unit bt_insert_same_keys [OF sorted(2) mem] ..
    qed
    ultimately show ?thesis using d1 d2 ok sorted(2)
      by (simp add: claim_stored_def cast_votes_insert)
  qed
  moreover have "state_ok ?s" using voted_state_ok [OF _ slot rec] ok by blast
  ultimately show ?thesis unfolding b' using board_inv_update [OF inv, of db2 c ?s] d2 by blast
qed

lemma board_vote_inv:
  "board_vote fault c a v b = Ok (res, b') \<Longrightarrow> board_inv b \<Longrightarrow> board_inv b'"
  by (auto simp: board_vote_def intro: record_vote_inv split: option.splits if_splits)

lemma board_vote_blind_inv:
  "board_vote_blind fault c a v b = Ok (res, b') \<Longrightarrow> board_inv b \<Longrightarrow> board_inv b'"
  by (auto simp: board_vote_blind_def intro: record_vote_inv split: option.splits if_splits)


section \<open>Reopening\<close>

definition restarted :: "claim_state \<Rightarrow> claim_state" where
  "restarted s = s\<lparr>cs_status := tally_status (cs_tally s)\<rparr>"

lemma map_of_rev: "distinct (map fst kvs) \<Longrightarrow> map_of (rev kvs) = map_of kvs"
  by (subst map_of_inject_set) (simp_all add: rev_map [symmetric])

lemma fresh_slot_get:
  "map_of (bt_of_list (map (\<lambda>a. (a, x)) ks)) a = (if a \<in> set ks then Some x else None)"
proof -
  have "map_of (map (\<lambda>a. (a, x)) ks) a = (if a \<in> set ks then Some x else None)" for ks by (induction ks) auto
  from this [of "rev ks"] show ?thesis by (simp add: bt_of_list_get rev_map)
qed

lemma hydrate_votes_spec:
  "distinct (map fst vs) \<Longrightarrow> \<forall>a \<in> fst ` set vs. map_of m a = Some None \<Longrightarrow>
   tally_record_all t (map snd vs) = Ok t' \<Longrightarrow>
   hydrate_votes vs (m, t, bad) = (fold (\<lambda>(k, v). bt_insert k v) (map (\<lambda>(a, v). (a, Some v)) vs) m, t', bad)"
proof (induction vs arbitrary: m t)
  case (Cons av vs)
  obtain a v where av: "av = (a, v)" by force
  from Cons.prems(3) obtain st t1 where rec: "tally_record t v = Ok (st, t1)" "tally_record_all t1 (map snd vs) = Ok t'"
    by (auto simp: av bind_outcome_Ok_iff)
  have "\<forall>b \<in> fst ` set vs. map_of (bt_insert a (Some v) m) b = Some None"
    using Cons.prems(1,2) by (auto simp: av bt_insert_get)
  with Cons.IH [OF _ this rec(2)] Cons.prems(1,2) rec(1) show ?case by (simp add: av)
qed simp

lemma hydrate_slots:
  assumes "bt_sorted m"
  shows "fold (\<lambda>(k, v). bt_insert k v) (map (\<lambda>(a, v). (a, Some v)) (cast_votes m))
      (bt_of_list (map (\<lambda>a. (a, None)) (map fst m))) = m" (is "fold _ ?kvs ?init = m")
proof (rule bt_ext [OF _ assms])
  note get = bt.get_fold_put [OF bt_of_list_sorted, of ?kvs "map (\<lambda>a. (a, None)) (map fst m)"]
  show "bt_sorted (fold (\<lambda>(k, v). bt_insert k v) ?kvs ?init)" using get by blast
  have dist: "distinct (map fst (cast_votes m))" "distinct (map fst m)"
    using cast_votes_sorted [OF assms] assms by (simp_all add: bt_sorted_distinct)
  have fst_kvs: "map fst ?kvs = map fst (cast_votes m)" by (simp add: split_beta)
  have "map_of (rev ?kvs) = map_of ?kvs" using dist(1) fst_kvs by (metis map_of_rev)
  moreover have "map_of ?kvs a = map_option Some (Option.bind (map_of m a) (\<lambda>v. v))" for a
    using cast_votes_get [OF assms, of a] by (simp add: map_of_map)
  moreover have "map_of ?init a = (if map_of m a = None then None else Some None)" for a
    unfolding fresh_slot_get by (auto simp: map_of_eq_None_iff)
  moreover have "map_of (fold (\<lambda>(k, v). bt_insert k v) ?kvs ?init) = map_of ?init ++ map_of (rev ?kvs)"
    using get by blast
  ultimately show "map_of (fold (\<lambda>(k, v). bt_insert k v) ?kvs ?init) = map_of m"
    by (auto simp: fun_eq_iff map_add_def split: option.splits bind_split)
qed

text \<open>What \<open>read_all\<close> returns for a claim hydrates to its state, with the status of its tally.\<close>

lemma hydrate_claim_spec:
  assumes ok: "state_ok s" and row: "row_matches s row"
  shows "hydrate_claim \<lparr>st_claim = c, st_turn = cr_turn row, st_proposer = cr_proposer row,
      st_body = cr_body row, st_k = (if cr_k row < 0 then 0 else nat (cr_k row)), st_status = cr_status row\<rparr>
      (map fst (cs_validators s)) (cast_votes (cs_validators s)) = Ok (restarted s)"
proof -
  have sorted: "bt_sorted (cs_validators s)" using ok by (simp add: state_ok_def)
  have k: "1 \<le> cs_k s" using ok by (auto simp: state_ok_def blind_def)
  have dist: "distinct (map fst (cast_votes (cs_validators s)))"
    using cast_votes_sorted [OF sorted] by (rule bt_sorted_distinct)
  have none: "\<forall>a \<in> fst ` set (cast_votes (cs_validators s)).
      map_of (bt_of_list (map (\<lambda>a. (a, None :: vote option)) (map fst (cs_validators s)))) a = Some None"
  proof
    fix a assume "a \<in> fst ` set (cast_votes (cs_validators s))"
    then have "a \<in> set (map fst (cs_validators s))" using cast_votes_keys by auto
    then show "map_of (bt_of_list (map (\<lambda>a. (a, None :: vote option)) (map fst (cs_validators s)))) a = Some None"
      unfolding fresh_slot_get by (rule if_P)
  qed
  have tally: "tally_record_all (base_tally s) (map snd (cast_votes (cs_validators s))) = Ok (cs_tally s)"
    using ok by (simp add: state_ok_def)
  note votes = hydrate_votes_spec [OF dist none tally, of False, unfolded hydrate_slots [OF sorted]]
  have bl: "(cs_k s = 1 \<and> map fst (cs_validators s) = [cs_proposer s]) = blind s" by (simp add: blind_def)
  have status: "if cs_validators s = [] then cr_status row = ''open''
      else cs_status s = tally_status (cs_tally s) \<and> cr_status row = status_text (cs_status s)"
    using ok row by (simp add: state_ok_def row_matches_def)
  have kk: "max (if cr_k row < 0 then 0 else nat (cr_k row)) 1 = cs_k s"
    using row k by (simp add: row_matches_def)
  have init: "(if blind s then tally_new (cs_k s) else ordinary_tally (cs_k s)) = base_tally s"
    by (simp add: base_tally_def)
  have fields: "cr_turn row = cs_turn s" "cr_proposer row = cs_proposer s" "cr_body row = cs_body s"
    using row by (simp_all add: row_matches_def)
  show ?thesis
    using status
    unfolding hydrate_claim_def stored_claim.select_convs kk Let_def fields bl init votes
    by (cases "cs_validators s = []"; cases "tally_status (cs_tally s)")
      (simp_all add: restarted_def status_text_def)
qed

lemma read_and_hydrate:
  assumes inv: "board_inv b"
  shows "\<forall>(c, row) \<in> set rs. map_of (db_claims (b_db b)) c = Some row \<Longrightarrow>
    \<exists>rows. read_all (b_db b) rs = Ok rows \<and>
      (\<forall>acc. hydrate_all rows acc =
         Ok (fold (\<lambda>(c, s). bt_insert c s) (map (\<lambda>(c, _). (c, restarted (the (map_of (b_claims b) c)))) rs) acc))"
proof (induction rs)
  case (Cons r rs)
  obtain c row where r: "r = (c, row)" by force
  from Cons obtain rows where rows: "read_all (b_db b) rs = Ok rows"
    "\<And>acc. hydrate_all rows acc =
      Ok (fold (\<lambda>(c, s). bt_insert c s) (map (\<lambda>(c, _). (c, restarted (the (map_of (b_claims b) c)))) rs) acc)" by auto
  have row: "map_of (db_claims (b_db b)) c = Some row" using Cons.prems by (simp add: r)
  then obtain s where s: "map_of (b_claims b) c = Some s"
    using board_inv_absent [OF inv] by (cases "map_of (b_claims b) c") (auto simp: claim_absent_def)
  from board_inv_claim [OF inv s] row have ok: "state_ok s" "row_matches s row"
    and vals: "rows_of c (db_validators (b_db b)) = map (\<lambda>(a, _). (a, ())) (cs_validators s)"
    and votes: "read_votes (rows_of c (db_votes (b_db b))) = Ok (cast_votes (cs_validators s))"
    by (auto simp: claim_stored_def)
  have "map fst (rows_of c (db_validators (b_db b))) = map fst (cs_validators s)"
    unfolding vals by (simp add: split_beta)
  then show ?case using rows votes hydrate_claim_spec [OF ok, of c] s by (simp add: r)
qed simp

lemma board_open_inv:
  assumes inv: "board_inv b"
  shows "board_open Tx_Ok (b_db b) = Ok (b\<lparr>b_claims := map (\<lambda>(c, s). (c, restarted s)) (b_claims b)\<rparr>)"
proof -
  let ?rs = "db_claims (b_db b)"
  have sorted: "bt_sorted ?rs" "bt_sorted (b_claims b)" using inv by (simp_all add: board_inv_def db_sorted_def)
  have get: "\<forall>(c, row) \<in> set ?rs. map_of ?rs c = Some row"
    using bt_sorted_distinct [OF sorted(1)] by auto
  obtain rows where rows: "read_all (b_db b) ?rs = Ok rows"
    "\<And>acc. hydrate_all rows acc =
      Ok (fold (\<lambda>(c, s). bt_insert c s) (map (\<lambda>(c, _). (c, restarted (the (map_of (b_claims b) c)))) ?rs) acc)"
    using read_and_hydrate [OF inv get] by blast
  let ?kvs = "map (\<lambda>(c, _). (c, restarted (the (map_of (b_claims b) c)))) ?rs"
  have "bt_of_list ?kvs = map (\<lambda>(c, s). (c, restarted s)) (b_claims b)"
  proof (rule bt_ext [OF bt_of_list_sorted])
    show "bt_sorted (map (\<lambda>(c, s). (c, restarted s)) (b_claims b))"
      using sorted(2) by (simp add: bt_sorted_def split_beta o_def)
    have dist: "distinct (map fst ?kvs)" using bt_sorted_distinct [OF sorted(1)] by (simp add: split_beta o_def)
    have "map_of ?kvs c = map_option restarted (map_of (b_claims b) c)" for c
    proof (cases "map_of (b_claims b) c")
      case None
      then have "map_of ?rs c = None" using board_inv_absent [OF inv] by (simp add: claim_absent_def)
      moreover have "map fst ?kvs = map fst ?rs" by (simp add: split_beta)
      ultimately have "map_of ?kvs c = None" by (simp only: map_of_eq_None_iff flip: set_map) simp
      then show ?thesis using None by simp
    next
      case (Some s)
      with board_inv_claim [OF inv] obtain row where "map_of ?rs c = Some row" by (auto simp: claim_stored_def)
      then have "(c, restarted (the (map_of (b_claims b) c))) \<in> set ?kvs" by (force dest: map_of_SomeD)
      then show ?thesis using dist Some by simp
    qed
    then show "map_of (bt_of_list ?kvs) = map_of (map (\<lambda>(c, s). (c, restarted s)) (b_claims b))"
      by (simp add: bt_of_list_get map_of_rev [OF dist] fun_eq_iff map_of_map)
  qed
  then show ?thesis using rows by (simp add: board_open_def with_tx_def bt_of_list_def)
qed

lemma restarted_inv:
  assumes "board_inv b"
  shows "board_inv (b\<lparr>b_claims := map (\<lambda>(c, s). (c, restarted s)) (b_claims b)\<rparr>)"
proof -
  have ok: "state_ok (restarted s)" "claim_stored db c (restarted s)" if "state_ok s" "claim_stored db c s" for db c s
  proof -
    have bl: "blind (restarted s) = blind s" "base_tally (restarted s) = base_tally s"
      by (simp_all add: restarted_def blind_def base_tally_def)
    have "tally_status (cs_tally s) = Reached" if "cs_validators s = []"
    proof -
      have "cs_tally s = ordinary_tally 1" using \<open>state_ok s\<close> that by (auto simp: state_ok_def base_tally_def blind_def)
      then show ?thesis by (simp only: ordinary_reached)
    qed
    then show "state_ok (restarted s)" using that(1) unfolding state_ok_def bl by (simp add: restarted_def)
    show "claim_stored db c (restarted s)"
      using that by (auto simp: claim_stored_def row_matches_def restarted_def state_ok_def)
  qed
  have "case map_of (map (\<lambda>(c, s). (c, restarted s)) (b_claims b)) c of
      None \<Rightarrow> claim_absent (b_db b) c | Some s \<Rightarrow> state_ok s \<and> claim_stored (b_db b) c s" for c
  proof (cases "map_of (b_claims b) c")
    case None
    then show ?thesis using board_inv_absent [OF assms None] by (simp add: map_of_map)
  next
    case (Some s)
    then show ?thesis using board_inv_claim [OF assms Some] ok [of s "b_db b" c] by (simp add: map_of_map)
  qed
  moreover have "bt_sorted (map (\<lambda>(c, s). (c, restarted s)) (b_claims b))"
    using assms by (simp add: board_inv_def bt_sorted_def split_beta o_def)
  moreover have "b_db (b\<lparr>b_claims := m\<rparr>) = b_db b" "b_claims (b\<lparr>b_claims := m\<rparr>) = m" for m by simp_all
  ultimately show ?thesis using assms unfolding board_inv_def by metis
qed

section \<open>The board as a transition system\<close>

datatype board_op =
    BO_Publish publish_env turn_id agent_id "agent_id list" string
  | BO_Publish_Blind publish_env turn_id agent_id string
  | BO_Vote tx_fault claim_id agent_id verdict
  | BO_Vote_Blind tx_fault claim_id agent_id verdict
  | BO_Restart

text \<open>A failed operation leaves the board as it was.\<close>

definition kept :: "'r \<Rightarrow> ('a \<times> 'r, 'e) outcome \<Rightarrow> 'r" where
  "kept b r = (case r of Ok (_, b') \<Rightarrow> b' | _ \<Rightarrow> b)"

fun board_apply :: "board_op \<Rightarrow> board \<Rightarrow> board" where
  "board_apply (BO_Publish env turn p as body) b = kept b (board_publish env turn p as body b)"
| "board_apply (BO_Publish_Blind env turn p body) b = kept b (board_publish_blind env turn p body b)"
| "board_apply (BO_Vote fault c a v) b = kept b (board_vote fault c a v b)"
| "board_apply (BO_Vote_Blind fault c a v) b = kept b (board_vote_blind fault c a v b)"
| "board_apply BO_Restart b = (case board_open Tx_Ok (b_db b) of Ok b' \<Rightarrow> b' | _ \<Rightarrow> b)"

definition board_step :: "board \<Rightarrow> board_op \<Rightarrow> board \<Rightarrow> bool" where
  "board_step b l b' \<longleftrightarrow> b' = board_apply l b"

definition board_new :: board where
  "board_new = \<lparr>b_db = db_empty, b_claims = []\<rparr>"

lemma kept_inv: "P b \<Longrightarrow> (\<And>x b'. r = Ok (x, b') \<Longrightarrow> P b') \<Longrightarrow> P (kept b r)"
  by (auto simp: kept_def split: outcome.splits)

lemma board_new_inv: "board_inv board_new"
  by (simp add: board_inv_def board_new_def db_empty_def db_sorted_def claim_absent_def)

lemma board_apply_inv:
  assumes inv: "board_inv b"
  shows "board_inv (board_apply l b)"
proof (cases l)
  case BO_Publish
  then show ?thesis by (simp, intro kept_inv [of board_inv, OF inv]) (erule board_publish_inv [OF _ inv])
next
  case BO_Publish_Blind
  then show ?thesis by (simp, intro kept_inv [of board_inv, OF inv]) (erule board_publish_blind_inv [OF _ inv])
next
  case BO_Vote
  then show ?thesis by (simp, intro kept_inv [of board_inv, OF inv]) (erule board_vote_inv [OF _ inv])
next
  case BO_Vote_Blind
  then show ?thesis by (simp, intro kept_inv [of board_inv, OF inv]) (erule board_vote_blind_inv [OF _ inv])
next
  case BO_Restart
  then show ?thesis by (simp add: board_open_inv [OF inv] restarted_inv [OF inv])
qed

interpretation blackboard: safe_system "\<lambda>b. b = board_new" board_step board_inv
  by unfold_locales (auto simp: board_new_inv board_step_def board_apply_inv)

abbreviation board_reach :: "board \<Rightarrow> bool" where
  "board_reach \<equiv> reach (\<lambda>b. b = board_new) board_step"


lemma board_reach_inv: "board_reach b \<Longrightarrow> board_inv b"
  by (rule blackboard.reach_inv)

section \<open>What a tally counts\<close>

definition yes_set :: "claim_state \<Rightarrow> agent_id set" where
  "yes_set s = (if blind s then {} else {cs_proposer s}) \<union> {a. map_of (cs_validators s) a = Some (Some Yes)}"

definition pending_set :: "claim_state \<Rightarrow> agent_id set" where
  "pending_set s = {a. map_of (cs_validators s) a = Some None}"

lemma count_snd:
  "distinct (map fst xs) \<Longrightarrow> count_list (map snd xs) y = card {a. (a, y) \<in> set xs}"
proof (induction xs)
  case (Cons x xs)
  obtain a z where x: "x = (a, z)" by force
  have fin: "finite {b. (b, y) \<in> set xs}"
    by (rule finite_subset [of _ "fst ` set xs"]) force+
  have "a \<notin> {b. (b, y) \<in> set xs}" using Cons.prems by (force simp: x)
  moreover have "{b. (b, y) \<in> set (x # xs)} = (if z = y then insert a {b. (b, y) \<in> set xs} else {b. (b, y) \<in> set xs})"
    by (auto simp: x)
  ultimately show ?case using Cons fin by (simp add: x)
qed simp

lemma cast_count: "bt_sorted m \<Longrightarrow> count_list (map snd (cast_votes m)) v = card {a. map_of m a = Some (Some v)}"
proof -
  assume s: "bt_sorted m"
  have "{a. (a, v) \<in> set (cast_votes m)} = {a. map_of m a = Some (Some v)}"
    using bt_sorted_distinct [OF s] by (auto simp: cast_votes_set)
  then show ?thesis using count_snd [OF bt_sorted_distinct [OF cast_votes_sorted [OF s]], of v] by simp
qed

lemma cast_length: "length (cast_votes m) + length (filter (\<lambda>(_, v). v = None) m) = length m"
  by (induction m) (auto simp: cast_votes_def split: option.splits)

lemma pending_card:
  assumes "bt_sorted m"
  shows "card {a. map_of m a = Some None} = length (filter (\<lambda>(_, v). v = None) m)"
proof -
  have d: "distinct (map fst m)" using assms by (rule bt_sorted_distinct)
  have "{a. map_of m a = Some None} = set (map fst (filter (\<lambda>(_, v). v = None) m))"
    using d by (force simp: image_iff)
  moreover have "distinct (map fst (filter (\<lambda>(_, v). v = None) m))" using d by (rule distinct_map_filter)
  ultimately show ?thesis by (metis distinct_card length_map)
qed

lemma base_tally_fields:
  "state_ok s \<Longrightarrow> t_k (base_tally s) = cs_k s \<and> t_needed (base_tally s) = quorum (cs_k s) \<and>
     t_yes (base_tally s) = (if blind s then 0 else 1) \<and> t_no (base_tally s) = 0 \<and> t_abstain (base_tally s) = 0"
  by (auto simp: state_ok_def base_tally_def ordinary_tally_1 tally_new_def)

lemma tally_meaning:
  assumes ok: "state_ok s"
  shows "t_k (cs_tally s) = cs_k s" "t_needed (cs_tally s) = quorum (cs_k s)"
    "t_yes (cs_tally s) = card (yes_set s)" "tally_pending (cs_tally s) = card (pending_set s)"
    "cs_k s = card (insert (cs_proposer s) (fst ` set (cs_validators s)))"
proof -
  let ?m = "cs_validators s" and ?yes = "{a. map_of (cs_validators s) a = Some (Some Yes)}"
  have sorted: "bt_sorted ?m" using ok by (simp add: state_ok_def)
  have rec: "tally_record_all (base_tally s) (map snd (cast_votes ?m)) = Ok (cs_tally s)"
    using ok by (simp add: state_ok_def)
  note base = base_tally_fields [OF ok]
  from rec base show "t_k (cs_tally s) = cs_k s" "t_needed (cs_tally s) = quorum (cs_k s)"
    by (auto simp: tally_record_all_Ok_iff)
  have fin: "finite ?yes" by (rule finite_subset [of _ "fst ` set ?m"]) (force dest: map_of_SomeD)+
  have notin: "cs_proposer s \<notin> ?yes" if "\<not> blind s"
    using ok that by (force simp: state_ok_def dest: map_of_SomeD)
  have "t_yes (cs_tally s) = t_yes (base_tally s) + card ?yes"
    using rec by (simp add: tally_record_all_Ok_iff cast_count [OF sorted])
  then show "t_yes (cs_tally s) = card (yes_set s)"
    using base fin notin by (simp add: yes_set_def)
  have "tally_pending (cs_tally s) = tally_pending (base_tally s) - length (cast_votes ?m)"
    using tally_pending_record_all [OF rec] by simp
  moreover have "tally_pending (base_tally s) = length ?m"
    using ok base by (auto simp: tally_pending_def state_ok_def blind_def dest: arg_cong [of _ _ length])
  ultimately show "tally_pending (cs_tally s) = card (pending_set s)"
    using cast_length [of ?m] pending_card [OF sorted] by (simp add: pending_set_def)
  have "card (fst ` set ?m) = length ?m"
    using distinct_card [OF bt_sorted_distinct [OF sorted]] by simp
  moreover have "cs_k s = 1 \<and> fst ` set ?m = {cs_proposer s}" if "blind s"
  proof -
    have "set (map fst ?m) = {cs_proposer s}" using that by (simp add: blind_def)
    then show ?thesis using that by (simp add: blind_def)
  qed
  ultimately show "cs_k s = card (insert (cs_proposer s) (fst ` set ?m))"
    using ok by (cases "blind s") (auto simp: state_ok_def)
qed

section \<open>Recording a vote\<close>

lemma sql_length_le: "sql_length s \<le> length s"
  unfolding sql_length_def
  by (rule order_trans [OF length_filter_le]) (rule length_takeWhile_le)

lemma vote_row_fits:
  "verdict_ok v \<Longrightarrow> vote_check \<lparr>vr_vote = vote_text (v_vote v), vr_reason = v_reason v, vr_evidence = v_evidence_ref v\<rparr>"
  using sql_length_le [of "v_reason v"] sql_length_le [of "the (v_evidence_ref v)"]
  by (cases "v_vote v"; cases "v_evidence_ref v")
    (auto simp: vote_check_def verdict_ok_def MAX_REASON_BYTES_def MAX_EVIDENCE_BYTES_def)

lemma record_vote_total:
  assumes inv: "board_inv b" and s: "map_of (b_claims b) c = Some s" and open': "cs_status s = Open"
    and slot: "map_of (cs_validators s) a = Some None" and v: "verdict_ok v"
  shows "\<exists>db. record_vote Tx_Ok c a v s b =
    Ok (\<lparr>o_claim = c, o_status = tally_status (tally_count (v_vote v) (cs_tally s)),
         o_tally = tally_count (v_vote v) (cs_tally s)\<rparr>,
        \<lparr>b_db = db, b_claims = bt_insert c
           (s\<lparr>cs_validators := bt_insert a (Some (v_vote v)) (cs_validators s),
              cs_tally := tally_count (v_vote v) (cs_tally s),
              cs_status := tally_status (tally_count (v_vote v) (cs_tally s))\<rparr>) (b_claims b)\<rparr>)"
proof -
  note ok = board_inv_claim [OF inv s]
  have sorted: "bt_sorted (cs_validators s)" using ok by (simp add: state_ok_def)
  let ?t = "tally_count (v_vote v) (cs_tally s)"
  have "a \<in> pending_set s" using slot by (simp add: pending_set_def)
  moreover have "finite (pending_set s)" unfolding pending_set_def
    by (rule finite_subset [of _ "fst ` set (cs_validators s)"]) (force dest: map_of_SomeD)+
  ultimately have "card (pending_set s) \<noteq> 0" by auto
  with tally_meaning(4) [of s] ok have rec: "tally_record (cs_tally s) (v_vote v) = Ok (tally_status ?t, ?t)"
    by (simp add: tally_record_Ok_iff)
  let ?row = "\<lparr>vr_vote = vote_text (v_vote v), vr_reason = v_reason v, vr_evidence = v_evidence_ref v\<rparr>"
  let ?db = "(b_db b)\<lparr>db_votes := bt_insert (c, a) ?row (db_votes (b_db b))\<rparr>"
  have "map_of (db_votes (b_db b)) (c, a) = None"
  proof -
    have rd: "read_votes (rows_of c (db_votes (b_db b))) = Ok (cast_votes (cs_validators s))"
      using ok by (simp add: claim_stored_def)
    have "map_of (cast_votes (cs_validators s)) a = None" using slot by (simp add: cast_votes_get [OF sorted])
    then have "a \<notin> set (map fst (rows_of c (db_votes (b_db b))))"
      using read_votes_keys [OF rd] by (simp add: map_of_eq_None_iff flip: set_map)
    then have "map_of (rows_of c (db_votes (b_db b))) a = None" by (simp add: map_of_eq_None_iff)
    then show ?thesis by (simp add: rows_of_get)
  qed
  then have ins: "insert_vote c a v (b_db b) = Ok ?db"
    using vote_row_fits [OF v] by (simp add: insert_vote_def Let_def)
  obtain row where row: "map_of (db_claims (b_db b)) c = Some row" "row_matches s row"
    using ok by (auto simp: claim_stored_def)
  have "cs_validators s \<noteq> []" using slot by auto
  then have "cr_status row = ''open''" using row(2) open' by (simp add: row_matches_def status_text_def)
  then have "\<exists>db. update_status c st ?db = (True, db)" for st
    using row(1) by (simp add: update_status_def)
  then obtain db where "update_status c (status_text (tally_status ?t)) ?db = (True, db)" by blast
  then show ?thesis using slot rec ins
    by (cases "tally_status ?t = Open") (simp_all add: record_vote_def with_tx_def)
qed


section \<open>Proposers\<close>

definition proposals :: "turn_id \<Rightarrow> (claim_id \<times> claim_state) list \<Rightarrow> agent_id \<Rightarrow> nat" where
  "proposals turn claims a = length (filter (\<lambda>(_, s). cs_turn s = turn \<and> cs_proposer s = a) claims)"

lemma count_proposals_get:
  "map_of (count_proposals turn claims counts) a =
     (case map_of counts a of None \<Rightarrow> None | Some n \<Rightarrow> Some (n + proposals turn claims a))"
proof (induction turn claims counts rule: count_proposals.induct)
  case (2 turn c s rest counts)
  then show ?case
    by (auto simp: proposals_def bt_insert_get split: option.splits)
qed (simp add: proposals_def split: option.splits)

lemma count_proposals_sorted: "bt_sorted counts \<Longrightarrow> bt_sorted (count_proposals turn claims counts)"
  by (induction turn claims counts rule: count_proposals.induct) (auto simp: bt_insert_sorted split: option.splits)

section \<open>Properties\<close>

text \<open>
  C8. A quorum is one of distinct agents of the claim's cohort: on every reachable board, a claim
  whose status is reached has yes votes of at least two thirds of a cohort of the published
  size, one for each of as many different members (the proposer counts for the publication, a
  validator for its one vote); a claim is unreachable only when even all outstanding validators
  together with these fall short; and a claim with validators stands as its votes say.
\<close>

theorem board_quorum_sound:
  assumes "board_reach b" "map_of (b_claims b) c = Some s"
  shows "yes_set s \<subseteq> insert (cs_proposer s) (fst ` set (cs_validators s)) \<and>
    cs_k s = card (insert (cs_proposer s) (fst ` set (cs_validators s))) \<and>
    (cs_status s = Reached \<longrightarrow> 2 * cs_k s \<le> 3 * card (yes_set s)) \<and>
    (cs_status s = Unreachable \<longrightarrow> 3 * (card (yes_set s) + card (pending_set s)) < 2 * cs_k s) \<and>
    (cs_validators s \<noteq> [] \<longrightarrow> cs_status s = Open \<longrightarrow> 3 * card (yes_set s) < 2 * cs_k s)"
proof -
  have ok: "state_ok s" using board_inv_claim [OF board_reach_inv [OF assms(1)] assms(2)] by simp
  note m = tally_meaning [OF ok]
  have reached: "tally_status (cs_tally s) = Reached \<longleftrightarrow> 2 * cs_k s \<le> 3 * card (yes_set s)"
    by (simp add: tally_status_cases m(2,3) quorum_least)
  have unreachable: "tally_status (cs_tally s) = Unreachable \<longleftrightarrow>
      3 * (card (yes_set s) + card (pending_set s)) < 2 * cs_k s"
    using quorum_least [of "cs_k s" "card (yes_set s) + card (pending_set s)"]
    by (simp add: tally_status_cases m(2,3,4) not_le [symmetric])
  have none: "2 * cs_k s \<le> 3 * card (yes_set s)" if "cs_validators s = []"
    using ok that by (auto simp: state_ok_def yes_set_def blind_def)
  have "yes_set s \<subseteq> insert (cs_proposer s) (fst ` set (cs_validators s))"
  proof
    fix a assume "a \<in> yes_set s"
    then show "a \<in> insert (cs_proposer s) (fst ` set (cs_validators s))"
      using map_of_SomeD [of "cs_validators s" a] by (force simp: yes_set_def split: if_splits)
  qed
  then show ?thesis
    using ok m(5) reached unreachable none by (cases "cs_validators s = []") (auto simp: state_ok_def)
qed

text \<open>
  Voting, without faults, on every reachable board: a well-formed verdict is recorded exactly
  when the claim is open and the voter is a validator of it that has not voted and not its
  proposer; the answer is the standing after counting this vote, the slot of the voter and the
  standing are all that changes, and every other case is its own refusal (the tally never
  overflows, no constraint of the tables is violated, and the status update finds its row).
\<close>

theorem board_vote_spec:
  assumes "board_reach b" "verdict_ok v"
  shows "case map_of (b_claims b) c of
      None \<Rightarrow> board_vote Tx_Ok c a v b = Err (UnknownClaim c)
    | Some s \<Rightarrow>
        if cs_status s \<noteq> Open then board_vote Tx_Ok c a v b = Err (ClaimClosed c)
        else if a = cs_proposer s then board_vote Tx_Ok c a v b = Err (NotAProposer a c)
        else case map_of (cs_validators s) a of
            None \<Rightarrow> board_vote Tx_Ok c a v b = Err (NotInCohort a c)
          | Some (Some _) \<Rightarrow> board_vote Tx_Ok c a v b = Err (DuplicateVote a c)
          | Some None \<Rightarrow> \<exists>b'. board_vote Tx_Ok c a v b =
                Ok (\<lparr>o_claim = c, o_status = tally_status (tally_count (v_vote v) (cs_tally s)),
                     o_tally = tally_count (v_vote v) (cs_tally s)\<rparr>, b') \<and>
              map_of (b_claims b') = (map_of (b_claims b))(c \<mapsto>
                s\<lparr>cs_validators := bt_insert a (Some (v_vote v)) (cs_validators s),
                  cs_tally := tally_count (v_vote v) (cs_tally s),
                  cs_status := tally_status (tally_count (v_vote v) (cs_tally s))\<rparr>)"
proof (cases "map_of (b_claims b) c")
  case None
  then show ?thesis by (simp add: board_vote_def)
next
  case (Some s)
  show ?thesis
  proof (cases "cs_status s = Open \<and> a \<noteq> cs_proposer s \<and> map_of (cs_validators s) a = Some None")
    case True
    with record_vote_total [OF board_reach_inv [OF assms(1)] Some _ _ assms(2), of a] obtain db where
      "record_vote Tx_Ok c a v s b =
        Ok (\<lparr>o_claim = c, o_status = tally_status (tally_count (v_vote v) (cs_tally s)),
             o_tally = tally_count (v_vote v) (cs_tally s)\<rparr>,
            \<lparr>b_db = db, b_claims = bt_insert c
               (s\<lparr>cs_validators := bt_insert a (Some (v_vote v)) (cs_validators s),
                  cs_tally := tally_count (v_vote v) (cs_tally s),
                  cs_status := tally_status (tally_count (v_vote v) (cs_tally s))\<rparr>) (b_claims b)\<rparr>)" by blast
    then show ?thesis using True Some by (simp add: board_vote_def bt_insert_get)
  next
    case False
    then show ?thesis using Some
      by (cases "map_of (cs_validators s) a") (auto simp: board_vote_def record_vote_def split: option.splits)
  qed
qed

text \<open>
  C33. A restart forgets nothing: opening a board on the tables of any reachable board gives that
  board back, with every roster, vote, tally and standing, except that a claim published without
  validators, which is open in memory, comes back as reached.
\<close>

theorem board_restart_exact:
  assumes "board_reach b"
  shows "board_open Tx_Ok (b_db b) = Ok (b\<lparr>b_claims := map (\<lambda>(c, s). (c,
      if cs_validators s = [] then s\<lparr>cs_status := Reached\<rparr> else s)) (b_claims b)\<rparr>)"
proof -
  note inv = board_reach_inv [OF assms]
  have dist: "distinct (map fst (b_claims b))" using inv by (simp add: board_inv_def bt_sorted_distinct)
  have "restarted s = (if cs_validators s = [] then s\<lparr>cs_status := Reached\<rparr> else s)" if "(c, s) \<in> set (b_claims b)" for c s
  proof -
    have ok: "state_ok s" using board_inv_claim [OF inv, of c s] that dist by simp
    show ?thesis
    proof (cases "cs_validators s = []")
      case True
      then have "cs_tally s = ordinary_tally 1" using ok by (auto simp: state_ok_def base_tally_def blind_def)
      then have "tally_status (cs_tally s) = Reached" by (simp only: ordinary_reached)
      then show ?thesis using True by (simp add: restarted_def)
    next
      case False
      then show ?thesis using ok by (simp add: state_ok_def restarted_def)
    qed
  qed
  then have "map (\<lambda>(c, s). (c, restarted s)) (b_claims b) =
      map (\<lambda>(c, s). (c, if cs_validators s = [] then s\<lparr>cs_status := Reached\<rparr> else s)) (b_claims b)"
    by (intro map_cong) auto
  then show ?thesis by (simp only: board_open_inv [OF inv])
qed

text \<open>
  Roles rotate: the next proposer is the candidate with the fewest claims of the turn, by text
  of its id among equals, and there is one exactly when there are candidates.
\<close>

theorem next_proposer_least:
  "(next_proposer U turn cands b = None \<longleftrightarrow> cands = []) \<and>
   (next_proposer U turn cands b = Some a \<longrightarrow> a \<in> set cands \<and>
      (\<forall>c \<in> set cands. (proposals turn (b_claims b) a, U (agent_raw a)) \<le>
                       (proposals turn (b_claims b) c, U (agent_raw c))))"
proof -
  let ?init = "bt_of_list (map (\<lambda>a. (a, 0)) cands)"
  let ?counts = "count_proposals turn (b_claims b) ?init"
  have get: "map_of ?counts c = (if c \<in> set cands then Some (proposals turn (b_claims b) c) else None)" for c
    by (simp add: count_proposals_get fresh_slot_get)
  have dist: "distinct (map fst ?counts)"
    by (intro bt_sorted_distinct count_proposals_sorted bt_of_list_sorted)
  have mem: "(c, n) \<in> set ?counts \<longleftrightarrow> c \<in> set cands \<and> n = proposals turn (b_claims b) c" for c n
    unfolding map_of_eq_Some_iff [OF dist, symmetric] get by auto
  have "?counts = [] \<longleftrightarrow> cands = []"
  proof
    assume "?counts = []"
    then have "c \<notin> set cands" for c using mem [of c] by auto
    then show "cands = []" by (cases cands) auto
  next
    assume "cands = []"
    then show "?counts = []" using mem by (cases ?counts) auto
  qed
  moreover have "a \<in> set cands \<and>
      (\<forall>c \<in> set cands. (proposals turn (b_claims b) a, U (agent_raw a)) \<le>
                       (proposals turn (b_claims b) c, U (agent_raw c)))"
    if next_a: "next_proposer U turn cands b = Some a"
  proof -
    from next_a obtain n where "min_by_key (\<lambda>(agent, n). (n, U (agent_raw agent))) ?counts = Some (a, n)"
      unfolding next_proposer_def by auto
    from min_by_key_Some [OF this] have a: "(a, n) \<in> set ?counts"
      and least: "\<forall>x \<in> set ?counts. (n, U (agent_raw a)) \<le> (case x of (agent, m) \<Rightarrow> (m, U (agent_raw agent)))"
      by simp_all
    show ?thesis
    proof (intro conjI ballI)
      show "a \<in> set cands" using a mem by simp
      fix c assume "c \<in> set cands"
      then have "(c, proposals turn (b_claims b) c) \<in> set ?counts" using mem by simp
      then show "(proposals turn (b_claims b) a, U (agent_raw a)) \<le>
          (proposals turn (b_claims b) c, U (agent_raw c))"
        using least a mem by fastforce
    qed
  qed
  moreover have "next_proposer U turn cands b = None \<longleftrightarrow> ?counts = []"
    by (simp only: next_proposer_def map_option_is_None min_by_key_None)
  ultimately show ?thesis by simp
qed


text \<open>
  A claim published without validators is open in memory although its quorum of one is met, and
  no vote can ever close it (after a restart it is reached).
\<close>

theorem publish_without_validators_stuck:
  assumes "board_publish (Tx_Ok, c, now) turn p [] body b = Ok (c', b')"
  shows "\<exists>s. map_of (b_claims b') c = Some s \<and> cs_status s = Open \<and> tally_status (cs_tally s) = Reached \<and>
    (\<forall>fault a v. board_vote fault c a v b' \<in> {Err (NotAProposer a c), Err (NotInCohort a c)} \<and>
       board_vote_blind fault c a v b' = Err (NotInCohort a c))"
proof -
  from assms obtain db where "b' = \<lparr>b_db = db, b_claims = bt_insert c
      \<lparr>cs_turn = turn, cs_proposer = p, cs_body = body, cs_k = 1, cs_tally = ordinary_tally 1,
       cs_status = Open, cs_validators = []\<rparr> (b_claims b)\<rparr>"
    by (auto simp: board_publish_def Let_def bind_outcome_Ok_iff bt_of_list_def split: if_splits)
  then show ?thesis using ordinary_reached
    by (simp add: bt_insert_get board_vote_def board_vote_blind_def record_vote_def)
qed

section \<open>Witnesses\<close>

text \<open>A board on which the first agent has published one claim for the second to check.\<close>

abbreviation example_board :: board where
  "example_board \<equiv> board_apply
     (BO_Publish (Tx_Ok, ClaimId 1, 0) (TurnId 1) (AgentId 1) [AgentId 2] ''x'') board_new"

abbreviation example_verdict :: verdict where
  "example_verdict \<equiv> \<lparr>v_vote = Yes, v_confidence = High, v_reason = ''checked'', v_evidence_ref = None\<rparr>"

lemma example_reach: "board_reach example_board"
  by (rule reach_step [OF reach_init, of _ board_new _ "BO_Publish (Tx_Ok, ClaimId 1, 0) (TurnId 1) (AgentId 1) [AgentId 2] ''x''"])
    (simp_all add: board_step_def)

lemma example_claim:
  "b_claims example_board = [(ClaimId 1, \<lparr>cs_turn = TurnId 1, cs_proposer = AgentId 1, cs_body = ''x'', cs_k = 2,
     cs_tally = \<lparr>t_k = 2, t_needed = 2, t_yes = 1, t_no = 0, t_abstain = 0\<rparr>, cs_status = Open,
     cs_validators = [(AgentId 2, None)]\<rparr>)]"
  by code_simp

theorem board_vote_spec_witness:
  "\<exists>b'. board_vote Tx_Ok (ClaimId 1) (AgentId 2) example_verdict example_board =
     Ok (\<lparr>o_claim = ClaimId 1, o_status = Reached,
          o_tally = \<lparr>t_k = 2, t_needed = 2, t_yes = 2, t_no = 0, t_abstain = 0\<rparr>\<rparr>, b')"
  using board_vote_spec [OF example_reach, of example_verdict "ClaimId 1" "AgentId 2", unfolded example_claim]
  by (auto simp: verdict_ok_def MAX_REASON_BYTES_def tally_status_def is_reached_def)

theorem board_quorum_sound_witness:
  "\<exists>s. map_of (b_claims example_board) (ClaimId 1) = Some s \<and> 3 * card (yes_set s) < 2 * cs_k s"
proof -
  let ?s = "\<lparr>cs_turn = TurnId 1, cs_proposer = AgentId 1, cs_body = ''x'', cs_k = 2,
     cs_tally = \<lparr>t_k = 2, t_needed = 2, t_yes = 1, t_no = 0, t_abstain = 0\<rparr>, cs_status = Open,
     cs_validators = [(AgentId 2, None)]\<rparr>"
  have s: "map_of (b_claims example_board) (ClaimId 1) = Some ?s" unfolding example_claim by simp
  with board_quorum_sound [OF example_reach s] show ?thesis by (intro exI conjI) (assumption, simp)
qed

theorem board_restart_exact_witness:
  "board_open Tx_Ok (b_db example_board) = Ok example_board"
proof -
  have "map (\<lambda>(c, s). (c, if cs_validators s = [] then s\<lparr>cs_status := Reached\<rparr> else s)) (b_claims example_board) =
      b_claims example_board"
    unfolding example_claim by simp
  then show ?thesis unfolding board_restart_exact [OF example_reach] by simp
qed

theorem next_proposer_least_witness:
  "next_proposer (\<lambda>u. show_nat (unat u)) (TurnId 1) [AgentId 1, AgentId 2] example_board = Some (AgentId 2) \<and>
   proposals (TurnId 1) (b_claims example_board) (AgentId 2) \<le> proposals (TurnId 1) (b_claims example_board) (AgentId 1)"
proof -
  have "next_proposer (\<lambda>u. show_nat (unat u)) (TurnId 1) [AgentId 1, AgentId 2] example_board = Some (AgentId 2)"
    by code_simp
  with next_proposer_least [of "\<lambda>u. show_nat (unat u)" "TurnId 1" "[AgentId 1, AgentId 2]" example_board "AgentId 2"]
  show ?thesis by (auto simp: less_eq_prod_def)
qed

end
