(* ===== verification/Topics.thy ===== *)
theory Topics
  imports Cache_Plan Permission Money
begin

text \<open>
  The event taxonomy of \<open>crates/supra_types/src/event.rs\<close> and the topic bitset of
  \<open>crates/supra_eventbus/src/topic.rs\<close>.
\<close>

section \<open>Topics\<close>

datatype topic =
    Topic_Session | Topic_Turn | Topic_Prompt | Topic_Cache | Topic_Provider | Topic_Cohort
  | Topic_Tool | Topic_Gate | Topic_Guard | Topic_Journal | Topic_Digest

definition TOPIC_ALL :: "topic list" where
  "TOPIC_ALL = [Topic_Session, Topic_Turn, Topic_Prompt, Topic_Cache, Topic_Provider, Topic_Cohort,
     Topic_Tool, Topic_Gate, Topic_Guard, Topic_Journal, Topic_Digest]"

section \<open>Events\<close>

datatype cache_break_cause =
    ToolManifestChanged | SystemContractChanged | MemoryIndexChanged | HistoryRewritten
  | VolatileDataInPrefix | ThinkingBudgetChanged | NonDeterministicSerialisation

datatype event =
    SessionStarted session_id
  | SessionResumed session_id
  | SessionEnded session_id
  | TurnStarted turn_id
  | TurnCompleted turn_id
  | TurnFailed turn_id string
  | SegmentSealed nat content_hash
  | BreakpointPlaced breakpoint
  | PrefixPadded nat nat
  | TurnsEvicted nat nat
  | RecallServed turn_id
  | GenerationRewritten nat micro_usd
  | CacheHit
  | CacheWrite bool
  | CacheBreak cache_break_cause string
  | RequestSent agent_id
  | FirstByte agent_id
  | WarmupComplete nat
  | FanOut nat nat
  | StreamDelta nat
  | ThinkingDelta nat
  | RequestFailed agent_id bool
  | RateLimited nat
  | UsageReported agent_id nat nat nat nat micro_usd
  | UsageDrift micro_usd micro_usd nat
  | CohortTierEstimated tier nat nat
  | PeerSpawned agent_id nat
  | SpawnRefused agent_id agent_id
  | ClaimPublished claim_id agent_id
  | RoleRotated agent_id
  | VoteCast claim_id agent_id vote confidence
  | QuorumReached claim_id nat nat
  | QuorumUnreachable claim_id nat nat
  | CohortAborted string
  | ToolRequested string invoker
  | PermissionDecision string decision reversibility
  | ToolStarted string
  | ToolCompleted string nat
  | ToolFailed string string
  | GateCompleted string bool
  | FindingRaised finding_id string nat
  | Ev_FindingConfirmed finding_id agent_id
  | GuardLayerTriggered nat string
  | SnapshotTaken nat
  | Undone nat
  | DigestUpdated nat
  | AnchorsServed nat

definition event_topic :: "event \<Rightarrow> topic" where
  "event_topic e = (case e of
      SessionStarted _ \<Rightarrow> Topic_Session | SessionResumed _ \<Rightarrow> Topic_Session | SessionEnded _ \<Rightarrow> Topic_Session
    | TurnStarted _ \<Rightarrow> Topic_Turn | TurnCompleted _ \<Rightarrow> Topic_Turn | TurnFailed _ _ \<Rightarrow> Topic_Turn
    | SegmentSealed _ _ \<Rightarrow> Topic_Prompt | BreakpointPlaced _ \<Rightarrow> Topic_Prompt | PrefixPadded _ _ \<Rightarrow> Topic_Prompt
    | TurnsEvicted _ _ \<Rightarrow> Topic_Prompt | RecallServed _ \<Rightarrow> Topic_Prompt | GenerationRewritten _ _ \<Rightarrow> Topic_Prompt
    | CacheHit \<Rightarrow> Topic_Cache | CacheWrite _ \<Rightarrow> Topic_Cache | CacheBreak _ _ \<Rightarrow> Topic_Cache
    | RequestSent _ \<Rightarrow> Topic_Provider | FirstByte _ \<Rightarrow> Topic_Provider | WarmupComplete _ \<Rightarrow> Topic_Provider
    | FanOut _ _ \<Rightarrow> Topic_Provider | StreamDelta _ \<Rightarrow> Topic_Provider | ThinkingDelta _ \<Rightarrow> Topic_Provider
    | RequestFailed _ _ \<Rightarrow> Topic_Provider | RateLimited _ \<Rightarrow> Topic_Provider
    | UsageReported _ _ _ _ _ _ \<Rightarrow> Topic_Provider | UsageDrift _ _ _ \<Rightarrow> Topic_Provider
    | CohortTierEstimated _ _ _ \<Rightarrow> Topic_Cohort | PeerSpawned _ _ \<Rightarrow> Topic_Cohort | SpawnRefused _ _ \<Rightarrow> Topic_Cohort
    | ClaimPublished _ _ \<Rightarrow> Topic_Cohort | RoleRotated _ \<Rightarrow> Topic_Cohort | VoteCast _ _ _ _ \<Rightarrow> Topic_Cohort
    | QuorumReached _ _ _ \<Rightarrow> Topic_Cohort | QuorumUnreachable _ _ _ \<Rightarrow> Topic_Cohort | CohortAborted _ \<Rightarrow> Topic_Cohort
    | ToolRequested _ _ \<Rightarrow> Topic_Tool | PermissionDecision _ _ _ \<Rightarrow> Topic_Tool | ToolStarted _ \<Rightarrow> Topic_Tool
    | ToolCompleted _ _ \<Rightarrow> Topic_Tool | ToolFailed _ _ \<Rightarrow> Topic_Tool
    | GateCompleted _ _ \<Rightarrow> Topic_Gate | FindingRaised _ _ _ \<Rightarrow> Topic_Gate | Ev_FindingConfirmed _ _ \<Rightarrow> Topic_Gate
    | GuardLayerTriggered _ _ \<Rightarrow> Topic_Guard
    | SnapshotTaken _ \<Rightarrow> Topic_Journal | Undone _ \<Rightarrow> Topic_Journal
    | DigestUpdated _ \<Rightarrow> Topic_Digest | AnchorsServed _ \<Rightarrow> Topic_Digest)"

section \<open>The bitset\<close>

unbundle bit_operations_syntax

type_synonym topic_set = "16 word"

fun topic_index :: "topic \<Rightarrow> nat" where
  "topic_index Topic_Session = 0" | "topic_index Topic_Turn = 1" | "topic_index Topic_Prompt = 2"
| "topic_index Topic_Cache = 3" | "topic_index Topic_Provider = 4" | "topic_index Topic_Cohort = 5"
| "topic_index Topic_Tool = 6" | "topic_index Topic_Gate = 7" | "topic_index Topic_Guard = 8"
| "topic_index Topic_Journal = 9" | "topic_index Topic_Digest = 10"

definition TOPIC_WIDTH :: nat where "TOPIC_WIDTH = length TOPIC_ALL"

definition ts_none :: topic_set where "ts_none = 0"

definition ts_all :: topic_set where
  "ts_all = fold (\<lambda>index bits. bits OR push_bit index 1) [0 ..< TOPIC_WIDTH] 0"

definition ts_of :: "topic \<Rightarrow> topic_set" where
  "ts_of t = push_bit (topic_index t) 1"

definition ts_with :: "topic_set \<Rightarrow> topic \<Rightarrow> topic_set" where
  "ts_with s t = s OR ts_of t"

definition ts_without :: "topic_set \<Rightarrow> topic \<Rightarrow> topic_set" where
  "ts_without s t = s AND NOT (ts_of t)"

definition ts_contains :: "topic_set \<Rightarrow> topic \<Rightarrow> bool" where
  "ts_contains s t \<longleftrightarrow> s AND ts_of t \<noteq> 0"

definition ts_is_empty :: "topic_set \<Rightarrow> bool" where
  "ts_is_empty s \<longleftrightarrow> s = 0"

definition ts_len :: "topic_set \<Rightarrow> nat" where
  "ts_len s = length (filter (bit s) [0 ..< 16])"

definition ts_union :: "topic_set \<Rightarrow> topic_set \<Rightarrow> topic_set" where
  "ts_union s t = s OR t"

definition ts_intersection :: "topic_set \<Rightarrow> topic_set \<Rightarrow> topic_set" where
  "ts_intersection s t = s AND t"

definition ts_from_iter :: "topic list \<Rightarrow> topic_set" where
  "ts_from_iter topics = foldl ts_with ts_none topics"

section \<open>The bitset refines a set of topics\<close>

definition ts_abs :: "topic_set \<Rightarrow> topic set" where
  "ts_abs s = {t. ts_contains s t}"

text \<open>No bit is set that stands for no topic.\<close>

definition ts_ok :: "topic_set \<Rightarrow> bool" where
  "ts_ok s \<longleftrightarrow> (\<forall>n. bit s n \<longrightarrow> n < TOPIC_WIDTH)"

lemma TOPIC_WIDTH_11: "TOPIC_WIDTH = 11"
  by (simp add: TOPIC_WIDTH_def TOPIC_ALL_def)

lemma topic_index_bound: "topic_index t < 11"
  by (cases t) simp_all

lemma topic_index_inj: "topic_index s = topic_index t \<longleftrightarrow> s = t"
  by (cases s; cases t) simp_all

lemma topic_indices: "map topic_index TOPIC_ALL = [0 ..< 11]"
  by (simp add: TOPIC_ALL_def upt_rec)

lemma topic_index_surj: "n < 11 \<Longrightarrow> \<exists>t. topic_index t = n"
proof -
  assume "n < 11"
  then have "n \<in> set (map topic_index TOPIC_ALL)" unfolding topic_indices by simp
  then show ?thesis by auto
qed

lemma bit_push_one: "bit (push_bit k (1 :: topic_set)) n \<longleftrightarrow> n = k \<and> n < 16"
  by (auto simp: bit_exp_iff)

lemma bit_ts_of: "bit (ts_of t) n \<longleftrightarrow> n = topic_index t"
  using topic_index_bound [of t] by (auto simp: ts_of_def bit_push_one simp del: push_bit_of_1)

lemma ts_contains_bit: "ts_contains s t \<longleftrightarrow> bit s (topic_index t)"
  by (simp only: ts_contains_def ts_of_def bit_iff_and_push_bit_not_eq_0)

lemma ts_abs_bit: "t \<in> ts_abs s \<longleftrightarrow> bit s (topic_index t)"
  by (simp add: ts_abs_def ts_contains_bit)

lemma bit_all_loop:
  "bit (fold (\<lambda>index bits. bits OR push_bit index 1) [0 ..< k] (0 :: topic_set)) n \<longleftrightarrow> n < k \<and> n < 16"
  by (induction k) (auto simp: bit_or_iff bit_push_one less_Suc_eq simp del: push_bit_of_1)

lemma bit_ts_with: "bit (ts_with s t) n \<longleftrightarrow> bit s n \<or> n = topic_index t"
  by (simp add: ts_with_def bit_or_iff bit_ts_of)

lemma ts_from_iter_bits: "bit (foldl ts_with s ts) n \<longleftrightarrow> bit s n \<or> n \<in> topic_index ` set ts"
  by (induction ts arbitrary: s) (auto simp: bit_ts_with)

lemma ts_len_card: "ts_ok s \<Longrightarrow> ts_len s = card (ts_abs s)"
proof -
  assume ok: "ts_ok s"
  have "filter (bit s) [0 ..< 16] = filter (bit s) [0 ..< 11]"
  proof -
    have "[0 ..< 16] = [0 ..< 11] @ [11 ..< 16 :: nat]" by (simp add: upt_rec)
    moreover have "filter (bit s) [11 ..< 16] = []"
      using ok by (auto simp: ts_ok_def TOPIC_WIDTH_11 filter_empty_conv)
    ultimately show ?thesis by simp
  qed
  moreover have "length (filter (bit s) [0 ..< 11]) = card {n. n < 11 \<and> bit s n}"
    using distinct_card [of "filter (bit s) [0 ..< 11]"] by (simp add: Collect_conj_eq [symmetric] conj_commute)
  moreover have "{n. n < 11 \<and> bit s n} = topic_index ` ts_abs s"
  proof (intro equalityI subsetI)
    fix n assume "n \<in> {n. n < 11 \<and> bit s n}"
    then obtain t where "topic_index t = n" "bit s n" using topic_index_surj by blast
    then show "n \<in> topic_index ` ts_abs s" by (auto simp: ts_abs_bit)
  qed (auto simp: ts_abs_bit topic_index_bound)
  moreover have "card (topic_index ` ts_abs s) = card (ts_abs s)"
    by (rule card_image) (auto simp: inj_on_def topic_index_inj)
  ultimately show ?thesis by (simp add: ts_len_def)
qed

lemma ts_ok_bits: "bit s n \<Longrightarrow> ts_ok s \<Longrightarrow> \<exists>t. topic_index t = n"
  using topic_index_surj by (auto simp: ts_ok_def TOPIC_WIDTH_11)

section \<open>Properties\<close>

text \<open>
  The bitset is a set of topics: every operation does on the bits what the set operation does
  on the topics, the full set holds every topic, a set built from a list holds exactly its
  members, and on the sets that these operations build, emptiness and the number of bits are
  those of the set and two sets with the same topics are equal.
\<close>

theorem topic_set_refines:
  "ts_abs ts_none = {} \<and> ts_abs ts_all = UNIV \<and> ts_abs (ts_of t) = {t} \<and>
   ts_abs (ts_with s t) = insert t (ts_abs s) \<and> ts_abs (ts_without s t) = ts_abs s - {t} \<and>
   ts_abs (ts_union s u) = ts_abs s \<union> ts_abs u \<and> ts_abs (ts_intersection s u) = ts_abs s \<inter> ts_abs u \<and>
   ts_abs (ts_from_iter ts) = set ts \<and> ts_ok (ts_from_iter ts) \<and> ts_ok ts_all \<and>
   (ts_ok s \<and> ts_ok u \<longrightarrow> ts_len s = card (ts_abs s) \<and> (ts_is_empty s \<longleftrightarrow> ts_abs s = {}) \<and>
      (ts_abs s = ts_abs u \<longleftrightarrow> s = u))"
proof (intro conjI impI)
  show "ts_abs ts_none = {}" "ts_abs (ts_of t) = {t}" "ts_abs (ts_with s t) = insert t (ts_abs s)"
    "ts_abs (ts_union s u) = ts_abs s \<union> ts_abs u" "ts_abs (ts_intersection s u) = ts_abs s \<inter> ts_abs u"
    by (auto simp: ts_abs_bit ts_none_def bit_ts_of bit_ts_with topic_index_inj ts_union_def
        ts_intersection_def bit_or_iff bit_and_iff)
  show "ts_abs ts_all = UNIV"
  proof -
    have "topic_index t < 16" for t using topic_index_bound [of t] by simp
    then show ?thesis
      by (auto simp: ts_abs_bit ts_all_def bit_all_loop TOPIC_WIDTH_11 topic_index_bound
          simp del: push_bit_of_1)
  qed
  show "ts_abs (ts_without s t) = ts_abs s - {t}"
  proof -
    have "topic_index u < 16" for u using topic_index_bound [of u] by simp
    then show ?thesis
      by (auto simp: ts_abs_bit ts_without_def bit_and_iff bit_not_iff bit_ts_of topic_index_inj)
  qed
  show "ts_abs (ts_from_iter ts) = set ts"
    by (auto simp: ts_abs_bit ts_from_iter_def ts_from_iter_bits ts_none_def topic_index_inj image_iff)
  show "ts_ok (ts_from_iter ts)"
    using topic_index_bound
    by (auto simp: ts_ok_def ts_from_iter_def ts_from_iter_bits ts_none_def TOPIC_WIDTH_11)
  show "ts_ok ts_all" by (simp add: ts_ok_def ts_all_def bit_all_loop del: push_bit_of_1)
  assume ok: "ts_ok s \<and> ts_ok u"
  then show "ts_len s = card (ts_abs s)" by (simp add: ts_len_card)
  have bits: "bit x n \<longleftrightarrow> (\<exists>t. topic_index t = n \<and> t \<in> ts_abs x)" if "ts_ok x" for x n
    using that ts_ok_bits by (auto simp: ts_abs_bit)
  have inj: "x = y" if "ts_ok x" "ts_ok y" "ts_abs x = ts_abs y" for x y
    by (rule bit_eqI) (simp only: bits [OF that(1)] bits [OF that(2)] that(3))
  have "ts_ok 0" "ts_abs 0 = {}" by (simp_all add: ts_ok_def ts_abs_bit set_eq_iff)
  with ok inj [of s 0] show "ts_is_empty s \<longleftrightarrow> ts_abs s = {}"
    by (auto simp: ts_is_empty_def)
  from ok inj [of s u] show "ts_abs s = ts_abs u \<longleftrightarrow> s = u" by blast
qed

theorem topic_set_refines_witness:
  "ts_len (ts_from_iter [Topic_Turn, Topic_Cache, Topic_Turn]) = 2"
proof -
  have "ts_ok (ts_from_iter [Topic_Turn, Topic_Cache, Topic_Turn])"
    "ts_abs (ts_from_iter [Topic_Turn, Topic_Cache, Topic_Turn]) = {Topic_Turn, Topic_Cache}"
    using topic_set_refines [of Topic_Turn 0 0 "[Topic_Turn, Topic_Cache, Topic_Turn]"] by auto
  then show ?thesis
    using topic_set_refines [of Topic_Turn "ts_from_iter [Topic_Turn, Topic_Cache, Topic_Turn]"
        "ts_from_iter [Topic_Turn, Topic_Cache, Topic_Turn]" "[]"] by simp
qed

end
