(* ===== verification/Bus.thy ===== *)
theory Bus
  imports Topics
begin

text \<open>
  \<open>crates/supra_eventbus/src/bus.rs\<close>: subscriptions with bounded rings, the fan-out of
  \<open>publish\<close>, and the accounting of dropped events. A contended queue lock is the argument
  \<open>busy\<close> of an offer. The registry holds weak references: an id whose slot is absent from
  the heap is a dropped subscription. Counters are unbounded here (the code's \<open>u64\<close> counters
  wrap after \<open>2 ^ 64\<close> events).
\<close>

section \<open>Slots\<close>

definition DEFAULT_CAPACITY :: nat where "DEFAULT_CAPACITY = 1024"

definition EVENT_SEQ_FIRST :: nat where "EVENT_SEQ_FIRST = 0"

definition event_seq_display :: "nat \<Rightarrow> string" where
  "event_seq_display s = ''e'' @ show_nat s"

record delivery =
  d_seq :: nat
  d_event :: event
  d_missed_before :: nat

datatype recv_error = Recv_Empty | Recv_Timeout | Recv_Closed

record slot =
  bq_topics :: topic_set
  bq_ring :: "delivery list"
  bq_capacity :: nat
  bq_closed :: bool
  bq_pending_missed :: nat
  bq_missed_total :: nat

definition slot_new :: "topic_set \<Rightarrow> nat \<Rightarrow> slot" where
  "slot_new topics capacity =
     \<lparr>bq_topics = topics, bq_ring = [], bq_capacity = capacity, bq_closed = False,
      bq_pending_missed = 0, bq_missed_total = 0\<rparr>"

definition count_loss :: "slot \<Rightarrow> slot" where
  "count_loss s = s\<lparr>bq_pending_missed := bq_pending_missed s + 1, bq_missed_total := bq_missed_total s + 1\<rparr>"

text \<open>The loop that makes room, with the loss and the running total.\<close>

fun drop_oldest :: "nat \<Rightarrow> delivery list \<Rightarrow> nat \<Rightarrow> nat \<Rightarrow> delivery list \<times> nat \<times> nat" where
  "drop_oldest capacity [] loss missed_total = ([], loss, missed_total)"
| "drop_oldest capacity (d # ring) loss missed_total =
     (if length (d # ring) \<ge> capacity
      then drop_oldest capacity ring (loss + (d_missed_before d + 1)) (missed_total + 1)
      else (d # ring, loss, missed_total))"

definition carry_loss :: "nat \<Rightarrow> delivery list \<Rightarrow> nat \<Rightarrow> delivery list \<times> nat" where
  "carry_loss loss ring pending =
     (if loss > 0 then
        (case ring of
           front # rest \<Rightarrow> (front\<lparr>d_missed_before := d_missed_before front + loss\<rparr> # rest, pending)
         | [] \<Rightarrow> ([], pending + loss))
      else (ring, pending))"

definition slot_offer :: "bool \<Rightarrow> nat \<Rightarrow> event \<Rightarrow> slot \<Rightarrow> slot" where
  "slot_offer busy seq event s =
     (if busy then count_loss s
      else if bq_capacity s = 0 then count_loss s
      else
        let (ring, loss, missed_total) = drop_oldest (bq_capacity s) (bq_ring s) 0 (bq_missed_total s);
            (ring, pending) = carry_loss loss ring (bq_pending_missed s)
        in s\<lparr>bq_ring := ring @ [\<lparr>d_seq = seq, d_event = event, d_missed_before = pending\<rparr>],
             bq_pending_missed := 0, bq_missed_total := missed_total\<rparr>)"

definition slot_close :: "slot \<Rightarrow> slot" where
  "slot_close s = s\<lparr>bq_closed := True\<rparr>"

definition slot_try_recv :: "slot \<Rightarrow> (delivery, recv_error) outcome \<times> slot" where
  "slot_try_recv s =
     (case bq_ring s of
        d # ring \<Rightarrow> (Ok d, s\<lparr>bq_ring := ring\<rparr>)
      | [] \<Rightarrow> (Err (if bq_closed s then Recv_Closed else Recv_Empty), s))"

text \<open>The state is the one in which the wait ended; \<open>timed_out\<close> is the wait's own answer.\<close>

definition slot_recv_timeout :: "bool \<Rightarrow> slot \<Rightarrow> (delivery, recv_error) outcome \<times> slot" where
  "slot_recv_timeout timed_out s =
     (case bq_ring s of
        d # ring \<Rightarrow> (Ok d, s\<lparr>bq_ring := ring\<rparr>)
      | [] \<Rightarrow> (Err (if bq_closed s then Recv_Closed else if timed_out then Recv_Timeout else Recv_Empty), s))"

definition slot_drain :: "slot \<Rightarrow> delivery list \<times> slot" where
  "slot_drain s = (bq_ring s, s\<lparr>bq_ring := []\<rparr>)"

section \<open>The bus\<close>

record bus =
  bus_registry :: "nat list"
  bus_slots :: "nat \<Rightarrow> slot option"
  bus_next_seq :: nat

definition bus_new :: bus where
  "bus_new = \<lparr>bus_registry = [], bus_slots = Map.empty, bus_next_seq = 0\<rparr>"

definition prune :: "bus \<Rightarrow> bus" where
  "prune b = b\<lparr>bus_registry := filter (\<lambda>i. bus_slots b i \<noteq> None) (bus_registry b)\<rparr>"

definition subscribe_with_capacity :: "nat \<Rightarrow> topic_set \<Rightarrow> nat \<Rightarrow> bus \<Rightarrow> bus" where
  "subscribe_with_capacity i topics capacity b =
     (let b = prune b in
      b\<lparr>bus_registry := bus_registry b @ [i],
        bus_slots := (bus_slots b)(i \<mapsto> slot_new topics capacity)\<rparr>)"

definition subscribe :: "nat \<Rightarrow> topic_set \<Rightarrow> bus \<Rightarrow> bus" where
  "subscribe i topics b = subscribe_with_capacity i topics DEFAULT_CAPACITY b"

fun publish_loop ::
    "(nat \<Rightarrow> bool) \<Rightarrow> nat \<Rightarrow> event \<Rightarrow> nat list \<Rightarrow> (nat \<Rightarrow> slot option) \<Rightarrow> nat list \<times> (nat \<Rightarrow> slot option)" where
  "publish_loop busy seq event [] heap = ([], heap)"
| "publish_loop busy seq event (i # rest) heap =
     (case heap i of
        Some s \<Rightarrow>
          let heap' = (if ts_contains (bq_topics s) (event_topic event)
                       then heap(i \<mapsto> slot_offer (busy i) seq event s) else heap);
              (kept, heap'') = publish_loop busy seq event rest heap'
          in (i # kept, heap'')
      | None \<Rightarrow> publish_loop busy seq event rest heap)"

definition publish :: "(nat \<Rightarrow> bool) \<Rightarrow> event \<Rightarrow> bus \<Rightarrow> nat \<times> bus" where
  "publish busy event b =
     (let seq = bus_next_seq b;
          (registry, heap) = publish_loop busy seq event (bus_registry b) (bus_slots b)
      in (seq, \<lparr>bus_registry = registry, bus_slots = heap, bus_next_seq = seq + 1\<rparr>))"

definition published :: "bus \<Rightarrow> nat" where
  "published b = bus_next_seq b"

definition subscriber_count :: "bus \<Rightarrow> nat \<times> bus" where
  "subscriber_count b = (let b = prune b in (length (bus_registry b), b))"

fun close_loop :: "nat list \<Rightarrow> (nat \<Rightarrow> slot option) \<Rightarrow> nat \<Rightarrow> slot option" where
  "close_loop [] heap = heap"
| "close_loop (i # rest) heap =
     close_loop rest (case heap i of Some s \<Rightarrow> heap(i \<mapsto> slot_close s) | None \<Rightarrow> heap)"

definition bus_drop :: "bus \<Rightarrow> bus" where
  "bus_drop b = b\<lparr>bus_slots := close_loop (bus_registry b) (bus_slots b)\<rparr>"

text \<open>Dropping a subscription handle removes its slot; receiving changes one slot.\<close>

definition drop_subscription :: "nat \<Rightarrow> bus \<Rightarrow> bus" where
  "drop_subscription i b = b\<lparr>bus_slots := (bus_slots b)(i := None)\<rparr>"

definition update_slot :: "nat \<Rightarrow> slot \<Rightarrow> bus \<Rightarrow> bus" where
  "update_slot i s b = b\<lparr>bus_slots := (bus_slots b)(i \<mapsto> s)\<rparr>"

section \<open>Exact gaps\<close>

text \<open>
  The specification of the accounting: walking through the deliveries, each one is preceded in
  the offered events by exactly as many lost ones as its gap says, and \<open>pending\<close> lost ones
  follow the last.
\<close>

fun accounts :: "(nat \<times> nat) list \<Rightarrow> nat list \<Rightarrow> nat \<Rightarrow> bool" where
  "accounts [] offered pending \<longleftrightarrow> length offered = pending"
| "accounts ((seq, missed) # ds) offered pending \<longleftrightarrow>
     missed < length offered \<and> offered ! missed = seq \<and> accounts ds (drop (Suc missed) offered) pending"

definition delivery_keys :: "delivery list \<Rightarrow> (nat \<times> nat) list" where
  "delivery_keys ds = map (\<lambda>d. (d_seq d, d_missed_before d)) ds"

lemma delivery_keys_simps [simp]:
  "delivery_keys [] = []" "delivery_keys (d # ds) = (d_seq d, d_missed_before d) # delivery_keys ds"
  "delivery_keys (ds @ es) = delivery_keys ds @ delivery_keys es"
  by (simp_all add: delivery_keys_def)

lemma accounts_lost: "accounts ds off p \<Longrightarrow> accounts ds (off @ [x]) (Suc p)"
  by (induction ds off p rule: accounts.induct) (auto simp: nth_append)

lemma accounts_push: "accounts ds off p \<Longrightarrow> accounts (ds @ [(x, p)]) (off @ [x]) 0"
  by (induction ds off p rule: accounts.induct) (auto simp: nth_append)

lemma accounts_merge:
  "accounts (ds @ (q, m) # (q', m') # r) off p \<Longrightarrow> accounts (ds @ (q', m' + Suc m) # r) off p"
proof (induction ds arbitrary: off)
  case Nil
  then show ?case by (auto simp: add.commute less_diff_conv)
next
  case (Cons d ds)
  then show ?case by (cases d) auto
qed

lemma accounts_merge_last:
  "accounts (ds @ [(q, m)]) off p \<Longrightarrow> accounts ds off (p + Suc m)"
proof (induction ds arbitrary: off)
  case Nil
  then show ?case by auto
next
  case (Cons d ds)
  then show ?case by (cases d) auto
qed

lemma accounts_total: "accounts ds off p \<Longrightarrow> length off = sum_list (map (Suc \<circ> snd) ds) + p"
  by (induction ds off p rule: accounts.induct) auto

lemma accounts_subset: "accounts ds off p \<Longrightarrow> set (map fst ds) \<subseteq> set off"
proof (induction ds off p rule: accounts.induct)
  case (2 seq missed ds off p)
  then show ?case using set_drop_subset [of "Suc missed" off] by (auto dest: nth_mem)
qed simp

lemma accounts_sorted: "accounts ds off p \<Longrightarrow> sorted_wrt (<) off \<Longrightarrow> sorted_wrt (<) (map fst ds)"
proof (induction ds off p rule: accounts.induct)
  case (2 seq missed ds off p)
  have s: "sorted_wrt (<) (drop (Suc missed) off)" using "2.prems"(2) by (rule sorted_wrt_drop)
  have "off = take missed off @ seq # drop (Suc missed) off"
    using "2.prems"(1) id_take_nth_drop [of missed off] by simp
  then have "sorted_wrt (<) (take missed off @ seq # drop (Suc missed) off)" using "2.prems"(2) by simp
  then have "\<forall>x \<in> set (drop (Suc missed) off). seq < x" by (simp add: sorted_wrt_append)
  then show ?case using 2 s accounts_subset by (fastforce simp: image_subset_iff)
qed simp

text \<open>Making room keeps the accounts, when the loss is carried to the next delivery.\<close>

lemma drop_oldest_accounts:
  "drop_oldest c ring loss t = (ring', loss', t') \<Longrightarrow>
   carry_loss loss ring p = (ringc, pc) \<Longrightarrow> accounts (got @ delivery_keys ringc) off pc \<Longrightarrow>
   carry_loss loss' ring' p = (ringd, pd) \<Longrightarrow> accounts (got @ delivery_keys ringd) off pd"
proof (induction c ring loss t arbitrary: ringc pc rule: drop_oldest.induct)
  case (1 c loss t)
  then show ?case by simp
next
  case (2 c d ring loss t)
  show ?case
  proof (cases "length (d # ring) \<ge> c")
    case False
    with 2 show ?thesis by simp
  next
    case True
    have front: "accounts (got @ (d_seq d, d_missed_before d + loss) # delivery_keys ring) off p"
      using "2.prems"(2,3) by (auto simp: carry_loss_def split: if_splits)
    have "accounts (got @ delivery_keys (fst (carry_loss (loss + (d_missed_before d + 1)) ring p))) off
        (snd (carry_loss (loss + (d_missed_before d + 1)) ring p))"
    proof (cases ring)
      case Nil
      from accounts_merge_last [OF front [unfolded Nil, simplified]] show ?thesis
        by (simp add: Nil carry_loss_def add_ac)
    next
      case (Cons e ring'')
      from accounts_merge [OF front [unfolded Cons, simplified]] show ?thesis
        by (simp add: Cons carry_loss_def add_ac)
    qed
    then show ?thesis
      using "2.IH" [OF True] "2.prems"(1,4) True by (simp add: prod_eq_iff)
  qed
qed

lemma drop_oldest_shape:
  "drop_oldest c ring loss t = (ring', loss', t') \<Longrightarrow>
     (\<exists>k. ring' = drop k ring) \<and> t' + length ring' = t + length ring \<and>
     length ring' = (if c \<le> length ring then c - 1 else length ring)"
proof (induction c ring loss t rule: drop_oldest.induct)
  case (2 c d ring loss t)
  show ?case
  proof (cases "length (d # ring) \<ge> c")
    case True
    with 2 obtain k where "ring' = drop k ring" "t' + length ring' = t + 1 + length ring"
      "length ring' = (if c \<le> length ring then c - 1 else length ring)" by auto
    then show ?thesis using True by (intro conjI exI [of _ "Suc k"]) auto
  next
    case False
    with "2.prems" show ?thesis by (auto intro: exI [of _ 0])
  qed
qed (auto intro: exI [of _ 0])

lemma carry_loss_shape:
  "carry_loss loss ring p = (ring', p') \<Longrightarrow>
     map d_seq ring' = map d_seq ring \<and> map d_event ring' = map d_event ring \<and> length ring' = length ring"
  by (auto simp: carry_loss_def split: if_splits list.splits)

section \<open>The invariant of one subscription\<close>

text \<open>
  \<open>log\<close> is everything published so far, \<open>start\<close> the length it had at the subscription, and
  \<open>got\<close> the deliveries handed out.
\<close>

definition offered :: "topic_set \<Rightarrow> event list \<Rightarrow> nat \<Rightarrow> nat list" where
  "offered topics log start =
     filter (\<lambda>n. ts_contains topics (event_topic (log ! n))) [start ..< length log]"

definition slot_inv :: "event list \<Rightarrow> nat \<Rightarrow> delivery list \<Rightarrow> slot \<Rightarrow> bool" where
  "slot_inv log start got s \<longleftrightarrow> start \<le> length log \<and>
     accounts (delivery_keys (got @ bq_ring s)) (offered (bq_topics s) log start) (bq_pending_missed s) \<and>
     length (bq_ring s) \<le> bq_capacity s \<and>
     (\<forall>d \<in> set (got @ bq_ring s). d_event d = log ! d_seq d) \<and>
     bq_missed_total s + length (got @ bq_ring s) = length (offered (bq_topics s) log start)"

lemma offered_snoc:
  "start \<le> length log \<Longrightarrow> offered topics (log @ [ev]) start =
     offered topics log start @ (if ts_contains topics (event_topic ev) then [length log] else [])"
proof -
  assume "start \<le> length log"
  then have "[start ..< length (log @ [ev])] = [start ..< length log] @ [length log]" by simp
  moreover have "filter (\<lambda>n. ts_contains topics (event_topic ((log @ [ev]) ! n))) [start ..< length log] =
      filter (\<lambda>n. ts_contains topics (event_topic (log ! n))) [start ..< length log]"
    by (rule filter_cong) (auto simp: nth_append)
  ultimately show ?thesis by (simp add: offered_def)
qed

lemma offered_bound: "n \<in> set (offered topics log start) \<Longrightarrow> start \<le> n \<and> n < length log"
  by (auto simp: offered_def)

lemma offered_sorted: "sorted_wrt (<) (offered topics log start)"
  unfolding offered_def by (simp add: sorted_wrt_filter strict_sorted_iff)

lemma slot_inv_bound:
  "slot_inv log start got s \<Longrightarrow> d \<in> set (got @ bq_ring s) \<Longrightarrow> d_seq d < length log"
  using accounts_subset [of "delivery_keys (got @ bq_ring s)"] offered_bound
  unfolding slot_inv_def delivery_keys_def by (fastforce simp: image_subset_iff)

lemma slot_new_inv: "slot_inv log (length log) [] (slot_new topics capacity)"
  by (simp add: slot_inv_def slot_new_def offered_def)

lemma slot_inv_skip:
  assumes "slot_inv log start got s" "\<not> ts_contains (bq_topics s) (event_topic ev)"
  shows "slot_inv (log @ [ev]) start got s"
  using assms slot_inv_bound [OF assms(1)]
  by (auto simp: slot_inv_def offered_snoc nth_append)

lemma count_loss_inv:
  assumes "slot_inv log start got s" "ts_contains (bq_topics s) (event_topic ev)"
  shows "slot_inv (log @ [ev]) start got (count_loss s)"
  using assms slot_inv_bound [OF assms(1)]
  by (auto simp: slot_inv_def count_loss_def offered_snoc nth_append accounts_lost)

lemma map_pair_in: "map f xs = map f ys \<Longrightarrow> length xs = length ys \<Longrightarrow> y \<in> set xs \<Longrightarrow> \<exists>x \<in> set ys. f y = f x"
  by (metis (no_types, lifting) imageE image_eqI set_map)

lemma offer_inv:
  assumes inv: "slot_inv log start got s" and match: "ts_contains (bq_topics s) (event_topic ev)"
  shows "slot_inv (log @ [ev]) start got (slot_offer busy (length log) ev s)"
proof (cases "busy \<or> bq_capacity s = 0")
  case True
  then show ?thesis using count_loss_inv [OF assms] by (auto simp: slot_offer_def)
next
  case False
  obtain ring loss t where dr: "drop_oldest (bq_capacity s) (bq_ring s) 0 (bq_missed_total s) = (ring, loss, t)"
    by (metis prod_cases3)
  obtain ringc pc where cl: "carry_loss loss ring (bq_pending_missed s) = (ringc, pc)" by force
  define d where "d = \<lparr>d_seq = length log, d_event = ev, d_missed_before = pc\<rparr>"
  have s': "slot_offer busy (length log) ev s =
      s\<lparr>bq_ring := ringc @ [d], bq_pending_missed := 0, bq_missed_total := t\<rparr>"
    using False by (simp add: slot_offer_def dr cl d_def)
  have start: "carry_loss 0 (bq_ring s) (bq_pending_missed s) = (bq_ring s, bq_pending_missed s)"
    by (simp add: carry_loss_def)
  have "accounts (delivery_keys got @ delivery_keys ringc) (offered (bq_topics s) log start) pc"
    using drop_oldest_accounts [OF dr start _ cl] inv by (simp add: slot_inv_def)
  from accounts_push [OF this, of "length log"]
  have acc: "accounts (delivery_keys (got @ ringc @ [d])) (offered (bq_topics s) (log @ [ev]) start) 0"
    using inv match by (simp add: offered_snoc slot_inv_def d_def)
  from drop_oldest_shape [OF dr] obtain k where k: "ring = drop k (bq_ring s)"
    and t: "t + length ring = bq_missed_total s + length (bq_ring s)"
    and len: "length ring < bq_capacity s"
    using False inv by (auto simp: slot_inv_def split: if_splits)
  note shape = carry_loss_shape [OF cl]
  have old: "d_event e = log ! d_seq e \<and> d_seq e < length log" if "e \<in> set (got @ bq_ring s)" for e
    using inv slot_inv_bound [OF inv that] that by (auto simp: slot_inv_def)
  have "map (\<lambda>e. (d_seq e, d_event e)) ringc = map (\<lambda>e. (d_seq e, d_event e)) ring"
    using shape by (auto simp: list_eq_iff_nth_eq)
  then have "\<exists>e' \<in> set ring. d_seq e = d_seq e' \<and> d_event e = d_event e'" if "e \<in> set ringc" for e
    using map_pair_in [of "\<lambda>e. (d_seq e, d_event e)" ringc ring e] shape that by auto
  then have new: "d_event e = log ! d_seq e \<and> d_seq e < length log" if "e \<in> set (got @ ringc)" for e
    using that old set_drop_subset [of k "bq_ring s"] by (fastforce simp: k)
  have "d_event e = (log @ [ev]) ! d_seq e" if "e \<in> set (got @ ringc @ [d])" for e
    using that new by (auto simp: d_def nth_append)
  then show ?thesis
    using inv acc t len shape match
    by (simp add: slot_inv_def s' offered_snoc)
qed

lemma recv_inv:
  assumes "slot_inv log start got s" "bq_ring s = d # ring"
  shows "slot_inv log start (got @ [d]) (s\<lparr>bq_ring := ring\<rparr>)"
  using assms by (simp add: slot_inv_def)

lemma drain_inv:
  assumes "slot_inv log start got s"
  shows "slot_inv log start (got @ bq_ring s) (s\<lparr>bq_ring := []\<rparr>)"
  using assms by (simp add: slot_inv_def)

lemma close_inv: "slot_inv log start got s \<Longrightarrow> slot_inv log start got (slot_close s)"
  by (simp add: slot_inv_def slot_close_def)

section \<open>The bus as a transition system\<close>

record world =
  w_bus :: bus
  w_log :: "event list"
  w_start :: "nat \<Rightarrow> nat"
  w_got :: "nat \<Rightarrow> delivery list"

datatype bus_op =
    Op_Subscribe nat topic_set nat
  | Op_Publish event "nat \<Rightarrow> bool"
  | Op_Recv nat
  | Op_Drain nat
  | Op_Drop nat
  | Op_Close

definition world_new :: world where
  "world_new = \<lparr>w_bus = bus_new, w_log = [], w_start = (\<lambda>_. 0), w_got = (\<lambda>_. [])\<rparr>"

text \<open>A fresh id is neither live nor still referenced by the registry.\<close>

inductive world_step :: "world \<Rightarrow> bus_op \<Rightarrow> world \<Rightarrow> bool" where
  ws_subscribe: "bus_slots (w_bus w) i = None \<Longrightarrow> i \<notin> set (bus_registry (w_bus w)) \<Longrightarrow>
    world_step w (Op_Subscribe i topics capacity)
      (w\<lparr>w_bus := subscribe_with_capacity i topics capacity (w_bus w),
         w_start := (w_start w)(i := length (w_log w)), w_got := (w_got w)(i := [])\<rparr>)"
| ws_publish: "publish busy ev (w_bus w) = (seq, b) \<Longrightarrow>
    world_step w (Op_Publish ev busy) (w\<lparr>w_bus := b, w_log := w_log w @ [ev]\<rparr>)"
| ws_recv: "bus_slots (w_bus w) i = Some s \<Longrightarrow> slot_try_recv s = (Ok d, s') \<Longrightarrow>
    world_step w (Op_Recv i)
      (w\<lparr>w_bus := update_slot i s' (w_bus w), w_got := (w_got w)(i := w_got w i @ [d])\<rparr>)"
| ws_drain: "bus_slots (w_bus w) i = Some s \<Longrightarrow> slot_drain s = (ds, s') \<Longrightarrow>
    world_step w (Op_Drain i)
      (w\<lparr>w_bus := update_slot i s' (w_bus w), w_got := (w_got w)(i := w_got w i @ ds)\<rparr>)"
| ws_drop: "world_step w (Op_Drop i) (w\<lparr>w_bus := drop_subscription i (w_bus w)\<rparr>)"
| ws_close: "world_step w Op_Close (w\<lparr>w_bus := bus_drop (w_bus w)\<rparr>)"

definition world_inv :: "world \<Rightarrow> bool" where
  "world_inv w \<longleftrightarrow> bus_next_seq (w_bus w) = length (w_log w) \<and> distinct (bus_registry (w_bus w)) \<and>
     (\<forall>i s. bus_slots (w_bus w) i = Some s \<longrightarrow> i \<in> set (bus_registry (w_bus w)) \<and>
        slot_inv (w_log w) (w_start w i) (w_got w i) s)"

lemma publish_loop_spec:
  "distinct ids \<Longrightarrow> publish_loop busy seq ev ids heap = (kept, heap') \<Longrightarrow>
     kept = filter (\<lambda>i. heap i \<noteq> None) ids \<and>
     heap' = (\<lambda>i. case heap i of
        None \<Rightarrow> None
      | Some s \<Rightarrow> Some (if i \<in> set ids \<and> ts_contains (bq_topics s) (event_topic ev)
                        then slot_offer (busy i) seq ev s else s))"
proof (induction ids arbitrary: heap kept heap')
  case Nil
  then show ?case by (auto simp: fun_eq_iff split: option.splits)
next
  case (Cons i ids)
  show ?case
  proof (cases "heap i")
    case None
    have d: "distinct ids" "i \<notin> set ids" using Cons.prems(1) by simp_all
    have "publish_loop busy seq ev ids heap = (kept, heap')" using Cons.prems(2) None by simp
    note IH = Cons.IH [OF d(1) this]
    have "heap' j = (case heap j of
        None \<Rightarrow> None
      | Some s \<Rightarrow> Some (if j \<in> set (i # ids) \<and> ts_contains (bq_topics s) (event_topic ev)
                        then slot_offer (busy j) seq ev s else s))" for j
      using IH d(2) None by (cases "j = i") (auto split: option.splits)
    then show ?thesis using IH None by auto
  next
    case (Some s)
    let ?h = "if ts_contains (bq_topics s) (event_topic ev)
       then heap(i \<mapsto> slot_offer (busy i) seq ev s) else heap"
    obtain k where k: "publish_loop busy seq ev ids ?h = (k, heap')" "kept = i # k"
      using Cons.prems(2) Some by (auto simp: Let_def split: prod.splits)
    have d: "distinct ids" "i \<notin> set ids" using Cons.prems(1) by simp_all
    note IH = Cons.IH [OF d(1) k(1)]
    have "filter (\<lambda>j. ?h j \<noteq> None) ids = filter (\<lambda>j. heap j \<noteq> None) ids"
      using Some by (intro filter_cong) auto
    then have "kept = filter (\<lambda>j. heap j \<noteq> None) (i # ids)" using IH k(2) Some by simp
    moreover have "heap' = (\<lambda>j. case heap j of
        None \<Rightarrow> None
      | Some s \<Rightarrow> Some (if j \<in> set (i # ids) \<and> ts_contains (bq_topics s) (event_topic ev)
                        then slot_offer (busy j) seq ev s else s))"
    proof
      fix j
      have "heap' j = (case ?h j of
        None \<Rightarrow> None
      | Some s \<Rightarrow> Some (if j \<in> set ids \<and> ts_contains (bq_topics s) (event_topic ev)
                        then slot_offer (busy j) seq ev s else s))" using IH by simp
      then show "heap' j = (case heap j of
        None \<Rightarrow> None
      | Some s \<Rightarrow> Some (if j \<in> set (i # ids) \<and> ts_contains (bq_topics s) (event_topic ev)
                        then slot_offer (busy j) seq ev s else s))"
        using d(2) Some by (cases "j = i") (auto split: option.splits)
    qed
    ultimately show ?thesis by simp
  qed
qed

lemma close_loop_spec:
  "close_loop ids heap i = (case heap i of None \<Rightarrow> None
     | Some s \<Rightarrow> Some (if i \<in> set ids then slot_close s else s))"
  by (induction ids arbitrary: heap) (auto simp: slot_close_def split: option.splits)

lemma publish_inv:
  assumes "world_inv w" "publish busy ev (w_bus w) = (seq, b)"
  shows "world_inv (w\<lparr>w_bus := b, w_log := w_log w @ [ev]\<rparr>)"
proof -
  have n: "bus_next_seq (w_bus w) = length (w_log w)" using assms(1) by (simp add: world_inv_def)
  obtain reg heap where pl: "publish_loop busy (length (w_log w)) ev (bus_registry (w_bus w)) (bus_slots (w_bus w)) = (reg, heap)"
    by force
  then have b: "b = \<lparr>bus_registry = reg, bus_slots = heap, bus_next_seq = length (w_log w) + 1\<rparr>"
    using assms(2) by (auto simp: publish_def n Let_def)
  have dist: "distinct (bus_registry (w_bus w))" using assms(1) by (simp add: world_inv_def)
  note spec = publish_loop_spec [OF dist pl]
  have "i \<in> set reg \<and> slot_inv (w_log w @ [ev]) (w_start w i) (w_got w i) s" if "heap i = Some s" for i s
  proof -
    from that spec obtain s0 where s0: "bus_slots (w_bus w) i = Some s0"
      by (auto split: option.splits)
    then have inv: "i \<in> set (bus_registry (w_bus w))" "slot_inv (w_log w) (w_start w i) (w_got w i) s0"
      using assms(1) by (simp_all add: world_inv_def)
    have "s = (if ts_contains (bq_topics s0) (event_topic ev)
        then slot_offer (busy i) (length (w_log w)) ev s0 else s0)"
      using that spec s0 inv(1) by simp
    then show ?thesis using inv s0 spec by (auto intro: offer_inv slot_inv_skip)
  qed
  moreover have "distinct reg" using dist spec by simp
  ultimately show ?thesis unfolding world_inv_def b by simp
qed

interpretation bus: safe_system "\<lambda>w. w = world_new" world_step world_inv
proof
  show "w = world_new \<Longrightarrow> world_inv w" for w
    by (simp add: world_new_def world_inv_def bus_new_def)
next
  fix w l w' assume inv: "world_inv w" and step: "world_step w l w'"
  from step show "world_inv w'"
  proof cases
    case (ws_subscribe i topics capacity)
    with inv have "\<forall>j s. bus_slots (w_bus w) j = Some s \<longrightarrow> j \<noteq> i" using ws_subscribe(3) by auto
    with inv ws_subscribe slot_new_inv show ?thesis
      by (auto simp: world_inv_def subscribe_with_capacity_def prune_def Let_def)
  next
    case (ws_publish busy ev seq b)
    with inv show ?thesis by (simp add: publish_inv)
  next
    case (ws_recv i s d s')
    from ws_recv(4) obtain ring where "bq_ring s = d # ring" "s' = s\<lparr>bq_ring := ring\<rparr>"
      by (auto simp: slot_try_recv_def split: list.splits)
    with inv ws_recv show ?thesis by (auto simp: world_inv_def update_slot_def recv_inv)
  next
    case (ws_drain i s ds s')
    with inv show ?thesis by (auto simp: world_inv_def update_slot_def slot_drain_def drain_inv)
  next
    case (ws_drop i)
    with inv show ?thesis by (auto simp: world_inv_def drop_subscription_def)
  next
    case ws_close
    with inv show ?thesis
      by (auto simp: world_inv_def bus_drop_def close_loop_spec close_inv split: option.splits)
  qed
qed

section \<open>Properties\<close>

text \<open>
  C10. Every subscriber sees exactly its events, in publish order, with exact gaps: whatever the
  interleaving of subscriptions, publishes, contended locks, receives and drops, the deliveries
  handed out and buffered carry ascending sequence numbers of published events of the
  subscription's topics; between two of them lie exactly as many lost matching events as the
  later one reports; and the loss counter is the number of matching events published since the
  subscription less the deliveries.
\<close>

theorem bus_gaps_are_exact:
  assumes "reach (\<lambda>w. w = world_new) world_step w" "bus_slots (w_bus w) i = Some s"
  shows "accounts (delivery_keys (w_got w i @ bq_ring s)) (offered (bq_topics s) (w_log w) (w_start w i))
      (bq_pending_missed s) \<and>
    sorted_wrt (<) (map d_seq (w_got w i @ bq_ring s)) \<and>
    (\<forall>d \<in> set (w_got w i @ bq_ring s). d_seq d < length (w_log w) \<and> d_event d = w_log w ! d_seq d \<and>
       ts_contains (bq_topics s) (event_topic (d_event d))) \<and>
    bq_missed_total s + length (w_got w i @ bq_ring s) = length (offered (bq_topics s) (w_log w) (w_start w i)) \<and>
    bq_missed_total s = sum_list (map d_missed_before (w_got w i @ bq_ring s)) + bq_pending_missed s \<and>
    length (bq_ring s) \<le> bq_capacity s"
proof -
  let ?ds = "w_got w i @ bq_ring s" and ?off = "offered (bq_topics s) (w_log w) (w_start w i)"
  have inv: "slot_inv (w_log w) (w_start w i) (w_got w i) s"
    using bus.reach_inv [OF assms(1)] assms(2) by (simp add: world_inv_def)
  then have acc: "accounts (delivery_keys ?ds) ?off (bq_pending_missed s)"
    and missed: "bq_missed_total s + length ?ds = length ?off" "length (bq_ring s) \<le> bq_capacity s"
    and ev: "\<forall>d \<in> set ?ds. d_event d = w_log w ! d_seq d" by (simp_all add: slot_inv_def)
  have keys: "map fst (delivery_keys ds) = map d_seq ds" for ds by (simp add: delivery_keys_def)
  have sorted: "sorted_wrt (<) (map d_seq ?ds)"
    using accounts_sorted [OF acc offered_sorted] by (simp only: keys)
  have mem: "d_seq d \<in> set ?off" if "d \<in> set ?ds" for d
    using accounts_subset [OF acc] that by (auto simp only: keys set_map)
  then have "d_seq d < length (w_log w) \<and> ts_contains (bq_topics s) (event_topic (d_event d))"
    if "d \<in> set ?ds" for d
    using that ev by (auto simp: offered_def)
  moreover have "length ?off = sum_list (map d_missed_before ?ds) + length ?ds + bq_pending_missed s"
  proof -
    have "sum_list (map (Suc \<circ> snd) (delivery_keys ds)) = sum_list (map d_missed_before ds) + length ds" for ds
      by (induction ds) (simp_all add: delivery_keys_def)
    then show ?thesis using accounts_total [OF acc] by (simp only:)
  qed
  ultimately show ?thesis using acc sorted missed ev by auto
qed

text \<open>
  A subscription with room for one delivery, two published events: the second is buffered with a
  gap of one.
\<close>

theorem bus_gaps_are_exact_witness:
  "\<exists>w s. reach (\<lambda>w. w = world_new) world_step w \<and> bus_slots (w_bus w) 0 = Some s \<and>
     map d_seq (w_got w 0 @ bq_ring s) = [1] \<and> bq_missed_total s = 1 \<and>
     sum_list (map d_missed_before (w_got w 0 @ bq_ring s)) + bq_pending_missed s = 1"
proof -
  let ?init = "\<lambda>w. w = world_new"
  have all: "ts_contains ts_all (event_topic CacheHit)"
    by (simp add: ts_contains_bit ts_all_def bit_all_loop TOPIC_WIDTH_11 topic_index_bound
        less_trans [OF topic_index_bound] del: push_bit_of_1)
  define w1 where "w1 = world_new\<lparr>w_bus := subscribe_with_capacity 0 ts_all 1 (w_bus world_new),
     w_start := (w_start world_new)(0 := length (w_log world_new)), w_got := (w_got world_new)(0 := [])\<rparr>"
  define w2 where "w2 = w1\<lparr>w_bus := snd (publish (\<lambda>_. False) CacheHit (w_bus w1)), w_log := w_log w1 @ [CacheHit]\<rparr>"
  define w3 where "w3 = w2\<lparr>w_bus := snd (publish (\<lambda>_. False) CacheHit (w_bus w2)), w_log := w_log w2 @ [CacheHit]\<rparr>"
  define s where "s = the (bus_slots (w_bus w3) 0)"
  have "world_step world_new (Op_Subscribe 0 ts_all 1) w1"
    unfolding w1_def by (rule ws_subscribe) (simp_all add: world_new_def bus_new_def)
  then have r1: "reach ?init world_step w1" by (intro reach_step [OF reach_init]) auto
  have "world_step w1 (Op_Publish CacheHit (\<lambda>_. False)) w2"
    unfolding w2_def by (rule ws_publish) (rule prod.collapse [symmetric])
  with r1 have r2: "reach ?init world_step w2" by (rule reach_step)
  have "world_step w2 (Op_Publish CacheHit (\<lambda>_. False)) w3"
    unfolding w3_def by (rule ws_publish) (rule prod.collapse [symmetric])
  with r2 have r3: "reach ?init world_step w3" by (rule reach_step)
  note eval = world_new_def bus_new_def subscribe_with_capacity_def prune_def Let_def slot_new_def
    publish_def slot_offer_def all carry_loss_def
  have b1: "w_bus w1 = \<lparr>bus_registry = [0], bus_slots = [0 \<mapsto> slot_new ts_all 1], bus_next_seq = 0\<rparr>"
    "w_got w1 = (\<lambda>_. [])"
    by (simp_all add: w1_def eval fun_upd_idem)
  have b2: "w_bus w2 = \<lparr>bus_registry = [0], bus_slots = [0 \<mapsto> (slot_new ts_all 1)
      \<lparr>bq_ring := [\<lparr>d_seq = 0, d_event = CacheHit, d_missed_before = 0\<rparr>]\<rparr>], bus_next_seq = 1\<rparr>"
    "w_got w2 = (\<lambda>_. [])"
    by (simp_all add: w2_def b1 eval)
  have s: "bus_slots (w_bus w3) 0 = Some s" "map d_seq (w_got w3 0 @ bq_ring s) = [1]" "bq_missed_total s = 1"
    unfolding s_def by (simp_all add: w3_def b2 eval)
  with bus_gaps_are_exact [OF r3 s(1)] have
    "sum_list (map d_missed_before (w_got w3 0 @ bq_ring s)) + bq_pending_missed s = 1" by simp
  with r3 s show ?thesis by (intro exI conjI)
qed

text \<open>
  A full ring drops its oldest deliveries and nothing else: an offer that gets the lock and has
  room for at least one delivery always keeps the new event, and what is buffered afterwards is
  the last \<open>capacity\<close> of what was buffered followed by it; a contended or zero-capacity offer
  changes only the counters.
\<close>

theorem offer_keeps_the_newest:
  assumes "length (bq_ring s) \<le> bq_capacity s"
  shows "(\<not> busy \<and> 0 < bq_capacity s \<longrightarrow>
      (let s' = slot_offer busy seq ev s; n = length (bq_ring s) + 1 - bq_capacity s in
       map d_seq (bq_ring s') = drop n (map d_seq (bq_ring s) @ [seq]) \<and>
       map d_event (bq_ring s') = drop n (map d_event (bq_ring s) @ [ev]) \<and>
       bq_missed_total s' = bq_missed_total s + n)) \<and>
    (busy \<or> bq_capacity s = 0 \<longrightarrow> bq_ring (slot_offer busy seq ev s) = bq_ring s \<and>
       bq_missed_total (slot_offer busy seq ev s) = bq_missed_total s + 1)"
proof (intro conjI impI)
  assume c: "\<not> busy \<and> 0 < bq_capacity s"
  obtain ring loss t where dr: "drop_oldest (bq_capacity s) (bq_ring s) 0 (bq_missed_total s) = (ring, loss, t)"
    by (metis prod_cases3)
  obtain ringc pc where cl: "carry_loss loss ring (bq_pending_missed s) = (ringc, pc)" by force
  from drop_oldest_shape [OF dr] obtain k where k: "ring = drop k (bq_ring s)"
    and t: "t + length ring = bq_missed_total s + length (bq_ring s)"
    and len: "length ring = (if bq_capacity s \<le> length (bq_ring s) then bq_capacity s - 1 else length (bq_ring s))"
    by blast
  have offer: "slot_offer busy seq ev s = s\<lparr>bq_ring := ringc @ [\<lparr>d_seq = seq, d_event = ev, d_missed_before = pc\<rparr>],
      bq_pending_missed := 0, bq_missed_total := t\<rparr>"
    using c by (simp add: slot_offer_def dr cl)
  let ?n = "length (bq_ring s) + 1 - bq_capacity s"
  have n: "?n \<le> length (bq_ring s)" "length ring = length (bq_ring s) - ?n" using len c assms by auto
  have "ring = drop ?n (bq_ring s)"
  proof (cases "ring = []")
    case True
    with n have "?n = length (bq_ring s)" by simp
    with True show ?thesis by simp
  next
    case False
    with k n have "k = ?n" by auto
    with k show ?thesis by simp
  qed
  moreover have "t = bq_missed_total s + ?n" using t n by linarith
  ultimately show "let s' = slot_offer busy seq ev s; n = ?n in
       map d_seq (bq_ring s') = drop n (map d_seq (bq_ring s) @ [seq]) \<and>
       map d_event (bq_ring s') = drop n (map d_event (bq_ring s) @ [ev]) \<and>
       bq_missed_total s' = bq_missed_total s + n"
    using n(1) carry_loss_shape [OF cl] by (simp add: offer Let_def drop_map)
next
  assume "busy \<or> bq_capacity s = 0"
  then show "bq_ring (slot_offer busy seq ev s) = bq_ring s"
    "bq_missed_total (slot_offer busy seq ev s) = bq_missed_total s + 1"
    by (auto simp: slot_offer_def count_loss_def)
qed

theorem offer_keeps_the_newest_witness:
  "map d_seq (bq_ring (slot_offer False 3 CacheHit (slot_new ts_all 2
     \<lparr>bq_ring := [\<lparr>d_seq = 0, d_event = CacheHit, d_missed_before = 0\<rparr>,
                 \<lparr>d_seq = 1, d_event = CacheHit, d_missed_before = 0\<rparr>]\<rparr>))) = [1, 3]"
  using offer_keeps_the_newest [of "slot_new ts_all 2
     \<lparr>bq_ring := [\<lparr>d_seq = 0, d_event = CacheHit, d_missed_before = 0\<rparr>,
                 \<lparr>d_seq = 1, d_event = CacheHit, d_missed_before = 0\<rparr>]\<rparr>" False 3 CacheHit]
  by (simp add: slot_new_def Let_def)

end
