(* ===== verification/Turn_Loop.thy ===== *)
theory Turn_Loop
  imports Blackboard Bus Ledger
begin

text \<open>
  \<open>crates/supra_core/src/turn.rs\<close>: one turn of a cohort. It drives the blackboard one answer
  at a time, announces what happens on the bus and seals the agreed answer into the ledger. The
  bus is shared with the session; \<open>busy\<close> says, for each published event and subscription,
  whether the queue lock was taken. A refusal of the blackboard is held as the error it prints.
\<close>

section \<open>State\<close>

record peer_answer =
  pa_agent :: agent_id
  pa_text :: "string option"
  pa_verdict :: "verdict option"

definition proposal :: "agent_id \<Rightarrow> string \<Rightarrow> peer_answer" where
  "proposal agent text' = \<lparr>pa_agent = agent, pa_text = Some text', pa_verdict = None\<rparr>"

definition validation :: "agent_id \<Rightarrow> verdict \<Rightarrow> peer_answer" where
  "validation agent verdict = \<lparr>pa_agent = agent, pa_text = None, pa_verdict = Some verdict\<rparr>"

datatype turn_step = Collecting | Step_Reached | Escalate

datatype no_answer = Reason string | BoardRefused blackboard_error

datatype turn_error =
    Turn_Ledger prompt_error
  | Turn_Segment segment_error
  | NoAnswer no_answer
  | EmptyClaim

record turn_state =
  tn_id :: turn_id
  tn_session :: "agent_id list"
  tn_board :: board
  tn_bus :: bus
  tn_claim :: claim_id
  tn_answer :: "string option"
  tn_votes_seen :: nat
  tn_steps :: "turn_step list"
  tn_finished :: bool
  tn_blind :: bool

section \<open>Publishing on the shared bus\<close>

type_synonym contention = "nat \<Rightarrow> nat \<Rightarrow> bool"

definition emit :: "contention \<Rightarrow> event \<Rightarrow> bus \<Rightarrow> bus" where
  "emit busy ev b = snd (publish (busy (bus_next_seq b)) ev b)"

definition emit_all :: "contention \<Rightarrow> event list \<Rightarrow> bus \<Rightarrow> bus" where
  "emit_all busy evs b = fold (emit busy) evs b"

section \<open>Starting\<close>

text \<open>The claim of a turn carries a fixed body.\<close>

definition TURN_CLAIM_BODY :: string where "TURN_CLAIM_BODY = ''turn candidate''"

definition start_shared ::
    "contention \<Rightarrow> publish_env \<times> turn_id \<Rightarrow> board \<Rightarrow> bus \<Rightarrow> string \<Rightarrow> agent_id list \<Rightarrow>
     (turn_state, turn_error) outcome" where
  "start_shared busy env board bus task agents =
     (let (publish_env, turn) = env in
      if agents = [] then Err (NoAnswer (Reason ''an empty cohort cannot field a turn''))
      else if length agents > PEER_CEILING then
        Err (NoAnswer (Reason (''a cohort of '' @ show_nat (length agents) @ '' exceeds the ceiling of '' @
               show_nat PEER_CEILING)))
      else if task = [] then Err (NoAnswer (Reason ''an empty task cannot field a turn''))
      else
        let proposer = hd agents;
            validators = filter (\<lambda>a. a \<noteq> proposer) agents;
            blind_rederivation = (length agents = 1)
        in bind_outcome (map_err (NoAnswer \<circ> BoardRefused)
             (if blind_rederivation then board_publish_blind publish_env turn proposer TURN_CLAIM_BODY board
              else board_publish publish_env turn proposer validators TURN_CLAIM_BODY board))
             (\<lambda>(claim, board).
               Ok \<lparr>tn_id = turn, tn_session = agents, tn_board = board,
                   tn_bus = emit_all busy [TurnStarted turn, ClaimPublished claim proposer] bus,
                   tn_claim = claim, tn_answer = None, tn_votes_seen = 0, tn_steps = [],
                   tn_finished = False, tn_blind = blind_rederivation\<rparr>))"

definition turn_start ::
    "contention \<Rightarrow> publish_env \<times> turn_id \<Rightarrow> board \<Rightarrow> bus \<Rightarrow> string \<Rightarrow> agent_id list \<Rightarrow>
     (turn_state, turn_error) outcome" where
  "turn_start busy env board bus task agents = start_shared busy env board bus task agents"

definition turn_k :: "turn_state \<Rightarrow> nat" where
  "turn_k t = length (tn_session t)"

definition turn_shards :: "turn_state \<Rightarrow> nat" where
  "turn_shards t = shards_needed (length (tn_session t))"

definition turn_status :: "turn_state \<Rightarrow> quorum_status option" where
  "turn_status t = map_option o_status (board_outcome (tn_claim t) (tn_board t))"

section \<open>Recording answers\<close>

definition u32_sat :: "nat \<Rightarrow> nat" where
  "u32_sat n = min n u32_max"

definition step_of :: "quorum_status \<Rightarrow> turn_step" where
  "step_of s = (case s of Open \<Rightarrow> Collecting | Reached \<Rightarrow> Step_Reached | Unreachable \<Rightarrow> Escalate)"

text \<open>What is announced after a vote.\<close>

definition step_events :: "claim_id \<Rightarrow> vote_outcome \<Rightarrow> event list" where
  "step_events claim res =
     (case o_status res of
        Open \<Rightarrow> []
      | Reached \<Rightarrow>
          [QuorumReached claim (u32_sat (t_yes (o_tally res))) (u32_sat (t_needed (o_tally res))),
           CohortAborted ''quorum reached; in-flight peers aborted'']
      | Unreachable \<Rightarrow>
          [QuorumUnreachable claim (u32_sat (t_yes (o_tally res) + tally_pending (o_tally res)))
             (u32_sat (t_needed (o_tally res))),
           CohortAborted ''quorum unreachable; escalating now''])"

definition record_proposal :: "agent_id \<Rightarrow> string \<Rightarrow> bool \<Rightarrow> turn_state \<Rightarrow> (turn_step \<times> turn_state, turn_error) outcome" where
  "record_proposal agent text' has_verdict t =
     (if has_verdict then Err (NoAnswer (Reason ''a peer response cannot be both a proposal and a verdict''))
      else if agent \<noteq> hd (tn_session t) then
        Err (NoAnswer (Reason ''only the proposer may submit a full answer''))
      else if text' = [] then Err EmptyClaim
      else if tn_answer t \<noteq> None then
        Err (NoAnswer (Reason ''the proposer already submitted an answer''))
      else Ok (Collecting, t\<lparr>tn_answer := Some text'\<rparr>))"

definition record_verdict ::
    "contention \<Rightarrow> tx_fault \<Rightarrow> agent_id \<Rightarrow> verdict option \<Rightarrow> turn_state \<Rightarrow>
     (turn_step \<times> turn_state, turn_error) outcome" where
  "record_verdict busy fault agent verdict t =
     (if tn_answer t = None then Err (NoAnswer (Reason ''a validator answered before the proposal''))
      else case verdict of
        None \<Rightarrow> Err (NoAnswer (Reason ''a peer response contains neither answer nor verdict''))
      | Some v \<Rightarrow>
          bind_outcome (map_err (NoAnswer \<circ> BoardRefused)
            (if tn_blind t \<and> agent = hd (tn_session t)
             then board_vote_blind fault (tn_claim t) agent v (tn_board t)
             else board_vote fault (tn_claim t) agent v (tn_board t)))
            (\<lambda>(res, board).
              let step = step_of (o_status res) in
              Ok (step, t\<lparr>tn_board := board,
                   tn_bus := emit_all busy
                     (VoteCast (tn_claim t) agent (v_vote v) (v_confidence v) # step_events (tn_claim t) res)
                     (tn_bus t),
                   tn_votes_seen := tn_votes_seen t + 1,
                   tn_steps := tn_steps t @ [step]\<rparr>)))"

definition turn_record ::
    "contention \<Rightarrow> tx_fault \<Rightarrow> peer_answer \<Rightarrow> turn_state \<Rightarrow> (turn_step \<times> turn_state, turn_error) outcome" where
  "turn_record busy fault answer t =
     (case pa_text answer of
        Some text' \<Rightarrow> record_proposal (pa_agent answer) text' (pa_verdict answer \<noteq> None) t
      | None \<Rightarrow> record_verdict busy fault (pa_agent answer) (pa_verdict answer) t)"

section \<open>Finishing\<close>

definition turn_finish ::
    "(byte list \<Rightarrow> byte list) \<Rightarrow> contention \<Rightarrow> segment_id \<Rightarrow> turn_state \<Rightarrow> prompt_ledger \<Rightarrow>
     (segment_id \<times> turn_state \<times> prompt_ledger, turn_error) outcome" where
  "turn_finish H busy fresh t ledger =
     (if tn_finished t then Err (NoAnswer (Reason ''the turn is already finished''))
      else case turn_status t of
        Some Open \<Rightarrow> Err (NoAnswer (Reason ''quorum has not been reached''))
      | Some Unreachable \<Rightarrow> Err (NoAnswer (Reason ''the turn cannot finish once quorum is unreachable''))
      | None \<Rightarrow> Err (NoAnswer (Reason ''the turn cannot finish once quorum is unreachable''))
      | Some Reached \<Rightarrow>
          (case tn_answer t of
             None \<Rightarrow> Err (NoAnswer (Reason ''quorum reached without a working answer''))
           | Some answer \<Rightarrow>
               if answer = [] then Err EmptyClaim
               else
                 bind_outcome (map_err Turn_Segment
                   (segment_new fresh (segment_kind.Turn (tn_id t) Assistant) [Text answer])) (\<lambda>segment.
                 bind_outcome (map_err Turn_Ledger (ledger_append H ledger segment)) (\<lambda>(seq, ledger').
                   Ok (fresh,
                       t\<lparr>tn_bus := emit_all busy
                           [SegmentSealed seq (prefix_hash H ledger'), TurnCompleted (tn_id t)] (tn_bus t),
                         tn_finished := True\<rparr>,
                       ledger')))))"


section \<open>The invariant\<close>

lemma published_claim:
  "board_publish env turn p as body b = Ok (c, b') \<Longrightarrow> p \<notin> set as \<and>
     map_of (b_claims b') c = Some \<lparr>cs_turn = turn, cs_proposer = p, cs_body = body, cs_k = length as + 1,
       cs_tally = ordinary_tally (length as + 1), cs_status = Open,
       cs_validators = bt_of_list (map (\<lambda>a. (a, None)) as)\<rparr>"
  by (auto simp: board_publish_def Let_def bind_outcome_Ok_iff bt_insert_get split: prod.splits if_splits)

lemma published_blind_claim:
  "board_publish_blind env turn p body b = Ok (c, b') \<Longrightarrow>
     map_of (b_claims b') c = Some \<lparr>cs_turn = turn, cs_proposer = p, cs_body = body, cs_k = 1,
       cs_tally = tally_new 1, cs_status = Open, cs_validators = [(p, None)]\<rparr>"
  by (auto simp: board_publish_blind_def Let_def bind_outcome_Ok_iff bt_insert_get bt_of_list_def
      split: prod.splits if_splits)

text \<open>A recorded vote, whichever of the two entries it came through.\<close>

lemma record_vote_claim:
  "record_vote fault c a v s b = Ok (res, b') \<Longrightarrow>
     map_of (cs_validators s) a = Some None \<and>
     map_of (b_claims b') c = Some (s\<lparr>cs_validators := bt_insert a (Some (v_vote v)) (cs_validators s),
       cs_tally := o_tally res, cs_status := o_status res\<rparr>) \<and>
     o_tally res = tally_count (v_vote v) (cs_tally s) \<and> o_status res = tally_status (o_tally res)"
  by (auto simp: record_vote_def bind_outcome_Ok_iff bt_insert_get tally_record_Ok_iff
      split: option.splits outcome.splits)

definition either_vote :: "turn_state \<Rightarrow> tx_fault \<Rightarrow> agent_id \<Rightarrow> verdict \<Rightarrow> (vote_outcome \<times> board, blackboard_error) outcome" where
  "either_vote t fault a v =
     (if tn_blind t \<and> a = hd (tn_session t) then board_vote_blind fault (tn_claim t) a v (tn_board t)
      else board_vote fault (tn_claim t) a v (tn_board t))"

lemma either_vote_claim:
  assumes "either_vote t fault a v = Ok (res, b')" "map_of (b_claims (tn_board t)) (tn_claim t) = Some s"
  shows "cs_status s = Open \<and> record_vote fault (tn_claim t) a v s (tn_board t) = Ok (res, b')"
  using assms by (auto simp: either_vote_def board_vote_def board_vote_blind_def split: if_splits)

lemma either_vote_inv:
  assumes "either_vote t fault a v = Ok (res, b')" "board_inv (tn_board t)"
  shows "board_inv b'"
  using assms by (auto simp: either_vote_def intro: board_vote_inv board_vote_blind_inv split: if_splits)

definition claim_of :: "turn_state \<Rightarrow> claim_state \<Rightarrow> bool" where
  "claim_of t s \<longleftrightarrow> map_of (b_claims (tn_board t)) (tn_claim t) = Some s"

definition claim_fits :: "turn_state \<Rightarrow> claim_state \<Rightarrow> bool" where
  "claim_fits t s \<longleftrightarrow> claim_of t s \<and> cs_turn s = tn_id t \<and> cs_proposer s = hd (tn_session t) \<and>
     fst ` set (cs_validators s) = (if tn_blind t then set (tn_session t) else set (tn_session t) - {hd (tn_session t)}) \<and>
     length (cast_votes (cs_validators s)) = tn_votes_seen t \<and> (tn_finished t \<longrightarrow> cs_status s = Reached)"

definition turn_inv :: "turn_state \<Rightarrow> bool" where
  "turn_inv t \<longleftrightarrow> board_inv (tn_board t) \<and> tn_session t \<noteq> [] \<and>
     tn_blind t = (length (tn_session t) = 1) \<and> tn_answer t \<noteq> Some [] \<and>
     length (tn_steps t) = tn_votes_seen t \<and> (tn_answer t = None \<longrightarrow> tn_votes_seen t = 0) \<and>
     (\<exists>s. claim_fits t s)"

lemma start_inv:
  assumes "start_shared busy env board bus task agents = Ok t" "board_inv board"
  shows "turn_inv t"
proof -
  obtain penv turn where env: "env = (penv, turn)" by (cases env)
  from assms(1) have ne: "agents \<noteq> []" by (auto simp: start_shared_def Let_def env split: if_splits)
  show ?thesis
  proof (cases "length agents = 1")
    case True
    from assms(1) ne True obtain c b where pub: "board_publish_blind penv turn (hd agents) TURN_CLAIM_BODY board = Ok (c, b)"
      and t: "t = \<lparr>tn_id = turn, tn_session = agents, tn_board = b,
        tn_bus = emit_all busy [TurnStarted turn, ClaimPublished c (hd agents)] bus, tn_claim = c,
        tn_answer = None, tn_votes_seen = 0, tn_steps = [], tn_finished = False, tn_blind = True\<rparr>"
      by (auto simp: start_shared_def Let_def env bind_outcome_Ok_iff map_err_Ok_iff split: if_splits)
    have "set agents = {hd agents}" using True by (cases agents) auto
    then show ?thesis
      using published_blind_claim [OF pub] board_publish_blind_inv [OF pub assms(2)] ne True
      by (simp add: turn_inv_def claim_fits_def claim_of_def t)
  next
    case False
    let ?vs = "filter (\<lambda>a. a \<noteq> hd agents) agents"
    from assms(1) ne False obtain c b where pub: "board_publish penv turn (hd agents) ?vs TURN_CLAIM_BODY board = Ok (c, b)"
      and t: "t = \<lparr>tn_id = turn, tn_session = agents, tn_board = b,
        tn_bus = emit_all busy [TurnStarted turn, ClaimPublished c (hd agents)] bus, tn_claim = c,
        tn_answer = None, tn_votes_seen = 0, tn_steps = [], tn_finished = False, tn_blind = False\<rparr>"
      by (auto simp: start_shared_def Let_def env bind_outcome_Ok_iff map_err_Ok_iff split: if_splits)
    have "set ?vs = set agents - {hd agents}" by auto
    then show ?thesis
      using published_claim [OF pub] board_publish_inv [OF pub assms(2)] ne False
      by (simp add: turn_inv_def claim_fits_def claim_of_def t slots_keys fresh_slots)
  qed
qed

lemma record_proposal_inv:
  assumes "record_proposal a x f t = Ok (st, t')" "turn_inv t"
  shows "turn_inv t'"
proof -
  from assms(1) have "x \<noteq> []" "t' = t\<lparr>tn_answer := Some x\<rparr>"
    by (simp_all add: record_proposal_def split: if_splits)
  moreover have "claim_fits (t\<lparr>tn_answer := Some x\<rparr>) s = claim_fits t s" for s
    by (simp add: claim_fits_def claim_of_def)
  ultimately show ?thesis using assms(2) by (simp add: turn_inv_def)
qed

lemma record_verdict_Ok:
  assumes "record_verdict busy fault a v t = Ok (st, t')"
  obtains w res b' where "v = Some w" "tn_answer t \<noteq> None" "either_vote t fault a w = Ok (res, b')"
    "st = step_of (o_status res)"
    "t' = t\<lparr>tn_board := b', tn_bus := emit_all busy (VoteCast (tn_claim t) a (v_vote w) (v_confidence w) #
        step_events (tn_claim t) res) (tn_bus t), tn_votes_seen := tn_votes_seen t + 1,
        tn_steps := tn_steps t @ [step_of (o_status res)]\<rparr>"
  using assms
  by (auto simp: record_verdict_def either_vote_def Let_def bind_outcome_Ok_iff map_err_Ok_iff
      split: option.splits if_splits)

lemma bt_insert_length_new: "a \<notin> fst ` set m \<Longrightarrow> length (bt_insert a v m) = Suc (length m)"
  by (induction a v m rule: bt_insert.induct) auto

lemma record_verdict_inv:
  assumes rec: "record_verdict busy fault a v t = Ok (st, t')" and inv: "turn_inv t"
  shows "turn_inv t'"
proof -
  obtain w res b' where w: "tn_answer t \<noteq> None" and vote: "either_vote t fault a w = Ok (res, b')"
    and t': "t' = t\<lparr>tn_board := b', tn_bus := emit_all busy (VoteCast (tn_claim t) a (v_vote w) (v_confidence w) #
        step_events (tn_claim t) res) (tn_bus t), tn_votes_seen := tn_votes_seen t + 1,
        tn_steps := tn_steps t @ [step_of (o_status res)]\<rparr>"
    using rec by (rule record_verdict_Ok) blast
  obtain s where s: "map_of (b_claims (tn_board t)) (tn_claim t) = Some s"
    and about: "cs_turn s = tn_id t" "cs_proposer s = hd (tn_session t)"
      "fst ` set (cs_validators s) = (if tn_blind t then set (tn_session t) else set (tn_session t) - {hd (tn_session t)})"
      "length (cast_votes (cs_validators s)) = tn_votes_seen t" "tn_finished t \<longrightarrow> cs_status s = Reached"
    using inv by (auto simp: turn_inv_def claim_fits_def claim_of_def)
  note ev = either_vote_claim [OF vote s]
  note rv = record_vote_claim [OF ev [THEN conjunct2]]
  have binv: "board_inv (tn_board t)" using inv by (simp add: turn_inv_def)
  have sorted: "bt_sorted (cs_validators s)" using board_inv_claim [OF binv s] by (simp add: state_ok_def)
  have mem: "a \<in> fst ` set (cs_validators s)" using rv by (force dest: map_of_SomeD)
  have "map_of (cast_votes (cs_validators s)) a = None" using rv by (simp add: cast_votes_get [OF sorted])
  then have "length (cast_votes (bt_insert a (Some (v_vote w)) (cs_validators s))) = Suc (tn_votes_seen t)"
    using about(4) by (simp add: cast_votes_insert [OF sorted] bt_insert_length_new map_of_eq_None_iff)
  moreover have "fst ` set (bt_insert a (Some (v_vote w)) (cs_validators s)) = fst ` set (cs_validators s)"
    using bt_insert_keys [of a "Some (v_vote w)" "cs_validators s"] mem by auto
  moreover have "\<not> tn_finished t" using about(5) ev by auto
  ultimately show ?thesis
    using inv rv about w either_vote_inv [OF vote binv]
    by (auto simp: turn_inv_def claim_fits_def claim_of_def t')
qed

lemma turn_record_inv: "turn_record busy fault ans t = Ok (st, t') \<Longrightarrow> turn_inv t \<Longrightarrow> turn_inv t'"
  by (auto simp: turn_record_def intro: record_proposal_inv record_verdict_inv split: option.splits)

lemma turn_finish_Ok:
  assumes "turn_finish H busy fresh t ledger = Ok (sid, t', ledger')"
  obtains answer seq where "\<not> tn_finished t" "turn_status t = Some Reached" "tn_answer t = Some answer"
    "answer \<noteq> []" "sid = fresh"
    "ledger_append H ledger \<lparr>sg_id = fresh, sg_kind = segment_kind.Turn (tn_id t) Assistant, sg_blocks = [Text answer]\<rparr>
       = Ok (seq, ledger')"
    "t' = t\<lparr>tn_bus := emit_all busy [SegmentSealed seq (prefix_hash H ledger'), TurnCompleted (tn_id t)] (tn_bus t),
       tn_finished := True\<rparr>"
  using assms
  by (auto simp: turn_finish_def bind_outcome_Ok_iff map_err_Ok_iff segment_new_Ok
      split: if_splits option.splits quorum_status.splits)

lemma turn_finish_inv:
  assumes fin: "turn_finish H busy fresh t ledger = Ok (sid, t', ledger')" and inv: "turn_inv t"
  shows "turn_inv t'"
proof -
  obtain seq where st: "turn_status t = Some Reached"
    and t': "t' = t\<lparr>tn_bus := emit_all busy [SegmentSealed seq (prefix_hash H ledger'), TurnCompleted (tn_id t)] (tn_bus t),
       tn_finished := True\<rparr>"
    using fin by (rule turn_finish_Ok) blast
  then show ?thesis using inv
    by (auto simp: turn_inv_def claim_fits_def claim_of_def turn_status_def board_outcome_def)
qed

section \<open>The turn as a transition system\<close>

datatype turn_op =
    TO_Record contention tx_fault peer_answer
  | TO_Finish "byte list \<Rightarrow> byte list" contention segment_id prompt_ledger

definition turn_init :: "turn_state \<Rightarrow> bool" where
  "turn_init t \<longleftrightarrow> (\<exists>busy env board bus task agents. board_reach board \<and>
     start_shared busy env board bus task agents = Ok t)"

inductive turn_trans :: "turn_state \<Rightarrow> turn_op \<Rightarrow> turn_state \<Rightarrow> bool" where
  tt_record: "turn_record busy fault ans t = Ok (st, t') \<Longrightarrow> turn_trans t (TO_Record busy fault ans) t'"
| tt_finish: "turn_finish H busy fresh t ledger = Ok (sid, t', ledger') \<Longrightarrow>
    turn_trans t (TO_Finish H busy fresh ledger) t'"

interpretation turn_loop: safe_system turn_init turn_trans turn_inv
  by unfold_locales
    (auto simp: turn_init_def elim!: turn_trans.cases
      intro: start_inv board_reach_inv turn_record_inv turn_finish_inv)


section \<open>Towards a quorum\<close>

text \<open>The answers of a list of validators, a refused one changing nothing.\<close>

definition turn_run :: "contention \<Rightarrow> peer_answer list \<Rightarrow> turn_state \<Rightarrow> turn_state" where
  "turn_run busy answers t =
     fold (\<lambda>a t. case turn_record busy Tx_Ok a t of Ok (_, t') \<Rightarrow> t' | _ \<Rightarrow> t) answers t"

definition all_yes :: "claim_state \<Rightarrow> bool" where
  "all_yes s \<longleftrightarrow> (\<forall>a v. map_of (cs_validators s) a = Some (Some v) \<longrightarrow> v = Yes)"

lemma all_yes_count:
  assumes ok: "state_ok s" and yes: "all_yes s"
  shows "card (yes_set s) + card (pending_set s) = cs_k s"
proof -
  let ?m = "cs_validators s"
  have sorted: "bt_sorted ?m" using ok by (simp add: state_ok_def)
  have keys: "a \<in> fst ` set ?m \<longleftrightarrow> map_of ?m a \<noteq> None" for a by (simp add: map_of_eq_None_iff)
  have "{a. map_of ?m a = Some (Some Yes)} \<union> pending_set s = fst ` set ?m"
  proof (intro set_eqI)
    fix a
    show "a \<in> {a. map_of ?m a = Some (Some Yes)} \<union> pending_set s \<longleftrightarrow> a \<in> fst ` set ?m"
    proof (cases "map_of ?m a")
      case None
      then show ?thesis unfolding keys by (simp add: pending_set_def)
    next
      case (Some x)
      then show ?thesis using yes unfolding keys by (cases x) (simp_all add: pending_set_def all_yes_def)
    qed
  qed
  moreover have "yes_set s \<union> pending_set s = insert (cs_proposer s) (fst ` set ?m)"
  proof (cases "blind s")
    case True
    then have "set (map fst ?m) = {cs_proposer s}" by (simp add: blind_def)
    then show ?thesis using calculation True by (auto simp: yes_set_def)
  next
    case False
    then show ?thesis using calculation by (auto simp: yes_set_def)
  qed
  moreover have fin: "finite (insert (cs_proposer s) (fst ` set ?m))" by simp
  moreover have "yes_set s \<inter> pending_set s = {}"
    using ok keys [of "cs_proposer s"] by (auto simp: yes_set_def pending_set_def state_ok_def split: if_splits)
  ultimately show ?thesis
    using tally_meaning(5) [OF ok] by (metis card_Un_disjoint finite_Un)
qed

lemma all_yes_closed:
  assumes ok: "state_ok s" and yes: "all_yes s" and vals: "cs_validators s \<noteq> []"
  shows "cs_status s \<noteq> Unreachable" and "pending_set s = {} \<Longrightarrow> cs_status s = Reached"
proof -
  note m = tally_meaning [OF ok] and n = all_yes_count [OF ok yes]
  have st: "cs_status s = tally_status (cs_tally s)" using ok vals by (simp add: state_ok_def)
  show "cs_status s \<noteq> Unreachable"
    using quorum_le [of "cs_k s"] by (simp add: st tally_status_cases m(2,3,4) n)
  show "cs_status s = Reached" if "pending_set s = {}"
    using quorum_le [of "cs_k s"] n that by (simp add: st tally_status_cases m(2,3))
qed

lemma record_yes:
  fixes busy :: contention and a :: agent_id
  assumes inv: "turn_inv t" and answer: "tn_answer t \<noteq> None" and blind: "\<not> tn_blind t"
    and s: "claim_of t s" "cs_validators s \<noteq> []" "all_yes s" and v: "verdict_ok v" "v_vote v = Yes"
  defines "t' \<equiv> turn_run busy [validation a v] t"
  shows "turn_inv t' \<and> tn_answer t' = tn_answer t \<and> tn_blind t' = tn_blind t \<and>
    (\<exists>s'. claim_of t' s' \<and> cs_validators s' \<noteq> [] \<and> all_yes s' \<and> pending_set s' \<subseteq> pending_set s \<and>
       (cs_status s' = Reached \<or> a \<notin> pending_set s') \<and> (cs_status s = Reached \<longrightarrow> cs_status s' = Reached))"
proof (cases "\<exists>st u. turn_record busy Tx_Ok (validation a v) t = Ok (st, u)")
  case True
  then obtain st u where Ok: "turn_record busy Tx_Ok (validation a v) t = Ok (st, u)" by blast
  have t': "t' = u" by (simp add: t'_def turn_run_def Ok)
  have uinv: "turn_inv u" using Ok inv by (rule turn_record_inv)
  from Ok have "record_verdict busy Tx_Ok a (Some v) t = Ok (st, u)" by (simp add: turn_record_def validation_def)
  then obtain w res b' where w: "Some v = Some w" and vote: "either_vote t Tx_Ok a w = Ok (res, b')"
    and u: "u = t\<lparr>tn_board := b', tn_bus := emit_all busy (VoteCast (tn_claim t) a (v_vote w) (v_confidence w) #
        step_events (tn_claim t) res) (tn_bus t), tn_votes_seen := tn_votes_seen t + 1,
        tn_steps := tn_steps t @ [step_of (o_status res)]\<rparr>"
    by (rule record_verdict_Ok) blast
  note ev = either_vote_claim [OF vote s(1) [unfolded claim_of_def]]
  note rv = record_vote_claim [OF ev [THEN conjunct2]]
  let ?s = "s\<lparr>cs_validators := bt_insert a (Some Yes) (cs_validators s), cs_tally := o_tally res, cs_status := o_status res\<rparr>"
  have "claim_of u ?s" using rv w v(2) by (simp add: claim_of_def u)
  moreover have "cs_validators ?s \<noteq> []" using bt_insert_keys [of a "Some Yes" "cs_validators s"] by auto
  moreover have "all_yes ?s" using s(3) by (auto simp: all_yes_def bt_insert_get)
  moreover have "pending_set ?s = pending_set s - {a}" by (auto simp: pending_set_def bt_insert_get)
  ultimately show ?thesis using uinv ev by (auto simp: t' u)
next
  case False
  then have t': "t' = t" by (auto simp: t'_def turn_run_def split: outcome.splits)
  have binv: "board_inv (tn_board t)" using inv by (simp add: turn_inv_def)
  have ok: "state_ok s" using board_inv_claim [OF binv] s(1) by (simp add: claim_of_def)
  have "cs_status s = Reached \<or> a \<notin> pending_set s"
  proof (rule ccontr)
    assume neg: "\<not> ?thesis"
    then have open': "cs_status s = Open" using all_yes_closed(1) [OF ok s(3,2)] by (cases "cs_status s") auto
    have slot: "map_of (cs_validators s) a = Some None" using neg by (simp add: pending_set_def)
    have "a \<in> fst ` set (cs_validators s)" using slot by (force dest: map_of_SomeD)
    moreover have "fst ` set (cs_validators s) = set (tn_session t) - {hd (tn_session t)}"
      "cs_proposer s = hd (tn_session t)"
      using inv s(1) blind by (auto simp: turn_inv_def claim_fits_def claim_of_def)
    ultimately have np: "a \<noteq> cs_proposer s" by auto
    from record_vote_total [OF binv s(1) [unfolded claim_of_def] open' slot v(1)] obtain res b' where
      "record_vote Tx_Ok (tn_claim t) a v s (tn_board t) = Ok (res, b')" by blast
    then have "board_vote Tx_Ok (tn_claim t) a v (tn_board t) = Ok (res, b')"
      using s(1) open' np by (simp add: board_vote_def claim_of_def)
    then show False using False blind answer
      by (simp add: turn_record_def validation_def record_verdict_def Let_def)
  qed
  then show ?thesis using inv s by (auto simp: t')
qed

lemma run_yes:
  assumes "turn_inv t" "tn_answer t \<noteq> None" "\<not> tn_blind t" "verdict_ok v" "v_vote v = Yes"
    and "claim_of t s" "cs_validators s \<noteq> []" "all_yes s" "pending_set s \<subseteq> set as \<or> cs_status s = Reached"
  shows "turn_status (turn_run busy (map (\<lambda>a. validation a v) as) t) = Some Reached"
  using assms
proof (induction as arbitrary: t s)
  case Nil
  have "board_inv (tn_board t)" using Nil.prems(1) by (simp add: turn_inv_def)
  then have "state_ok s" using board_inv_claim Nil.prems(6) by (auto simp: claim_of_def)
  then have "cs_status s = Reached" using all_yes_closed(2) [of s] Nil.prems by auto
  then show ?case using Nil.prems(6) by (simp add: turn_run_def turn_status_def board_outcome_def claim_of_def)
next
  case (Cons a as)
  let ?t = "turn_run busy [validation a v] t"
  from record_yes [OF Cons.prems(1,2,3,6,7,8,4,5), of busy a] obtain s' where
    "turn_inv ?t" "tn_answer ?t \<noteq> None" "\<not> tn_blind ?t" and s': "claim_of ?t s'" "cs_validators s' \<noteq> []" "all_yes s'"
    "pending_set s' \<subseteq> pending_set s" "cs_status s' = Reached \<or> a \<notin> pending_set s'"
    "cs_status s = Reached \<longrightarrow> cs_status s' = Reached"
    using Cons.prems(2,3) by auto
  moreover have "pending_set s' \<subseteq> set as \<or> cs_status s' = Reached"
    using s' Cons.prems(9) by auto
  ultimately have "turn_status (turn_run busy (map (\<lambda>a. validation a v) as) ?t) = Some Reached"
    using Cons.IH Cons.prems(4,5) by blast
  then show ?case by (simp add: turn_run_def)
qed

section \<open>Properties\<close>

text \<open>The proposals and the approvals among the operations of a run, with who submitted them.\<close>

fun submitted :: "turn_op list \<Rightarrow> (agent_id \<times> string) list" where
  "submitted [] = []"
| "submitted (TO_Record _ _ ans # ops) = (case pa_text ans of Some x \<Rightarrow> [(pa_agent ans, x)] | None \<Rightarrow> []) @ submitted ops"
| "submitted (TO_Finish _ _ _ _ # ops) = submitted ops"

fun approvers :: "turn_op list \<Rightarrow> agent_id set" where
  "approvers [] = {}"
| "approvers (TO_Record _ _ ans # ops) =
     (if pa_text ans = None \<and> (\<exists>v. pa_verdict ans = Some v \<and> v_vote v = Yes) then {pa_agent ans} else {}) \<union> approvers ops"
| "approvers (TO_Finish _ _ _ _ # ops) = approvers ops"

definition yes_votes :: "claim_state \<Rightarrow> agent_id set" where
  "yes_votes s = {a. map_of (cs_validators s) a = Some (Some Yes)}"

lemma record_frame:
  "turn_record busy fault ans t = Ok (st, t') \<Longrightarrow>
     tn_session t' = tn_session t \<and> tn_id t' = tn_id t \<and> tn_claim t' = tn_claim t \<and> tn_blind t' = tn_blind t \<and>
     (case pa_text ans of
        Some x \<Rightarrow> pa_agent ans = hd (tn_session t) \<and> tn_answer t = None \<and> tn_answer t' = Some x \<and> tn_board t' = tn_board t
      | None \<Rightarrow> tn_answer t' = tn_answer t)"
  by (auto simp: turn_record_def record_proposal_def record_verdict_def Let_def bind_outcome_Ok_iff map_err_Ok_iff
      split: option.splits if_splits)

lemma finish_frame:
  "turn_finish H busy fresh t ledger = Ok (sid, t', ledger') \<Longrightarrow>
     tn_session t' = tn_session t \<and> tn_id t' = tn_id t \<and> tn_claim t' = tn_claim t \<and> tn_blind t' = tn_blind t \<and>
     tn_answer t' = tn_answer t \<and> tn_board t' = tn_board t"
  by (erule turn_finish_Ok) simp

lemma run_submitted:
  "run turn_trans t ops t' \<Longrightarrow>
     tn_session t' = tn_session t \<and> tn_id t' = tn_id t \<and> tn_claim t' = tn_claim t \<and> tn_blind t' = tn_blind t \<and>
     (case tn_answer t of
        Some x \<Rightarrow> tn_answer t' = Some x \<and> submitted ops = []
      | None \<Rightarrow> (case tn_answer t' of None \<Rightarrow> submitted ops = [] | Some x \<Rightarrow> submitted ops = [(hd (tn_session t), x)]))"
proof (induction rule: run.induct)
  case (run_nil t)
  then show ?case by (simp split: option.splits)
next
  case (run_cons t l u ops t')
  from run_cons(1) show ?case
  proof cases
    case (tt_record busy fault ans st)
    then show ?thesis using run_cons(3) record_frame [OF tt_record(2)] by (auto split: option.splits)
  next
    case (tt_finish H busy fresh ledger sid ledger')
    then show ?thesis using run_cons(3) finish_frame [OF tt_finish(2)] by (simp split: option.splits)
  qed
qed

lemma record_approvers:
  assumes "turn_record busy fault ans t = Ok (st, t')" "claim_of t s"
  shows "\<exists>s'. claim_of t' s' \<and> yes_votes s' = yes_votes s \<union> approvers [TO_Record busy fault ans]"
proof (cases "pa_text ans")
  case (Some x)
  then have "claim_of t' s" using record_frame [OF assms(1)] assms(2) by (simp add: claim_of_def)
  then show ?thesis using Some by (intro exI [of _ s]) simp
next
  case None
  then have "record_verdict busy fault (pa_agent ans) (pa_verdict ans) t = Ok (st, t')"
    using assms(1) by (simp add: turn_record_def)
  then obtain w res b' where w: "pa_verdict ans = Some w" and vote: "either_vote t fault (pa_agent ans) w = Ok (res, b')"
    and t': "tn_board t' = b'" "tn_claim t' = tn_claim t"
    by (rule record_verdict_Ok) simp
  from either_vote_claim [OF vote assms(2) [unfolded claim_of_def], THEN conjunct2]
  have "record_vote fault (tn_claim t) (pa_agent ans) w s (tn_board t) = Ok (res, b')" .
  from record_vote_claim [OF this] show ?thesis
    using None w t' by (auto simp: claim_of_def yes_votes_def bt_insert_get)
qed

lemma run_approvers:
  "run turn_trans t ops t' \<Longrightarrow> claim_of t s \<Longrightarrow> \<exists>s'. claim_of t' s' \<and> yes_votes s' = yes_votes s \<union> approvers ops"
proof (induction arbitrary: s rule: run.induct)
  case (run_cons t l u ops t')
  from run_cons(1) obtain s' where s': "claim_of u s'" "yes_votes s' = yes_votes s \<union> approvers [l]"
  proof cases
    case (tt_record busy fault ans st)
    then show thesis using that record_approvers [OF tt_record(2) run_cons.prems] by blast
  next
    case (tt_finish H busy fresh ledger sid ledger')
    then show thesis using that [of s] finish_frame [OF tt_finish(2)] run_cons.prems by (simp add: claim_of_def)
  qed
  obtain s'' where "claim_of t' s''" "yes_votes s'' = yes_votes s' \<union> approvers ops" using run_cons.IH [OF s'(1)] by blast
  moreover have "approvers (l # ops) = approvers [l] \<union> approvers ops" by (cases l) simp_all
  ultimately show ?case using s'(2) by (intro exI [of _ s'']) (simp add: Un_assoc)
qed auto

lemma distinct_singleton: "set xs = {a} \<Longrightarrow> distinct xs \<Longrightarrow> xs = [a]"
  by (cases xs; cases "tl xs") auto

lemma start_no_votes:
  assumes "turn_init t"
  shows "tn_answer t = None \<and> (\<exists>s. claim_of t s \<and> yes_votes s = {})"
proof -
  obtain busy env board bus task agents where st: "start_shared busy env board bus task agents = Ok t"
    using assms by (auto simp: turn_init_def)
  obtain penv turn where env: "env = (penv, turn)" by (cases env)
  have fresh: "map_of (bt_of_list (map (\<lambda>a. (a, None)) as)) a \<noteq> Some (Some (v :: vote))" for as :: "agent_id list" and a v
    by (auto simp: bt_of_list_get dest: map_of_SomeD)
  show ?thesis
  proof (cases "length agents = 1")
    case True
    with st obtain c b where pub: "board_publish_blind penv turn (hd agents) TURN_CLAIM_BODY board = Ok (c, b)"
      and t: "tn_board t = b" "tn_claim t = c" "tn_answer t = None"
      by (auto simp: start_shared_def Let_def env bind_outcome_Ok_iff map_err_Ok_iff split: if_splits)
    then show ?thesis using published_blind_claim [OF pub] by (auto simp: claim_of_def yes_votes_def)
  next
    case False
    with st obtain c b where pub: "board_publish penv turn (hd agents) (filter (\<lambda>a. a \<noteq> hd agents) agents) TURN_CLAIM_BODY board = Ok (c, b)"
      and t: "tn_board t = b" "tn_claim t = c" "tn_answer t = None"
      by (auto simp: start_shared_def Let_def env bind_outcome_Ok_iff map_err_Ok_iff split: if_splits)
    then show ?thesis using published_claim [OF pub] fresh by (auto simp: claim_of_def yes_votes_def)
  qed
qed

text \<open>
  C7. What a turn seals was proposed and agreed: when a turn that started on a reachable board finishes
  after some run of recorded answers, exactly one text was submitted in that run, by the first agent of
  the cohort, and this text, not empty, is what is appended to the ledger as the turn's assistant
  segment, and nothing else. The members that approved in the run, with the proposer where it does
  not judge itself blindly, belong to the cohort and make up two thirds of it. The seal and the
  completion follow on the bus (which hash the seal carries is a finding), and the turn cannot
  finish a second time.
\<close>

theorem turn_finish_agreed:
  assumes "turn_init t0" "run turn_trans t0 ops t" "turn_finish H busy fresh t ledger = Ok (sid, t', ledger')"
  shows "\<exists>answer agreed seq h.
    submitted ops = [(hd (tn_session t0), answer)] \<and> answer \<noteq> [] \<and>
    agreed = (if tn_blind t0 then {} else {hd (tn_session t0)}) \<union> approvers ops \<and>
    agreed \<subseteq> set (tn_session t0) \<and> 2 * card (set (tn_session t0)) \<le> 3 * card agreed \<and>
    ledger_append H ledger \<lparr>sg_id = sid, sg_kind = segment_kind.Turn (tn_id t0) Assistant, sg_blocks = [Text answer]\<rparr>
      = Ok (seq, ledger') \<and>
    tn_bus t' = emit_all busy [SegmentSealed seq h, TurnCompleted (tn_id t0)] (tn_bus t) \<and>
    turn_finish H' busy' fresh' t' ledger'' = Err (NoAnswer (Reason ''the turn is already finished''))"
proof -
  have inv: "turn_inv t" using turn_loop.run_inv [OF assms(2)] turn_loop.inv_init [OF assms(1)] .
  note frame = run_submitted [OF assms(2)]
  obtain s0 where s0: "claim_of t0 s0" "yes_votes s0 = {}" "tn_answer t0 = None" using start_no_votes [OF assms(1)] by blast
  obtain s where s: "claim_of t s" "yes_votes s = approvers ops" using run_approvers [OF assms(2) s0(1)] s0(2) by auto
  have fits: "cs_proposer s = hd (tn_session t)"
    "fst ` set (cs_validators s) = (if tn_blind t then set (tn_session t) else set (tn_session t) - {hd (tn_session t)})"
    and ne: "tn_session t \<noteq> []" and binv: "board_inv (tn_board t)" and one: "tn_blind t \<longleftrightarrow> length (tn_session t) = 1"
    using inv s(1) by (auto simp: turn_inv_def claim_fits_def claim_of_def)
  have ok: "state_ok s" using board_inv_claim [OF binv] s(1) by (simp add: claim_of_def)
  have cohort: "insert (cs_proposer s) (fst ` set (cs_validators s)) = set (tn_session t)"
    using fits ne by (auto split: if_splits)
  obtain answer seq where fin: "turn_status t = Some Reached" "tn_answer t = Some answer" "answer \<noteq> []" "sid = fresh"
    "ledger_append H ledger \<lparr>sg_id = fresh, sg_kind = segment_kind.Turn (tn_id t) Assistant, sg_blocks = [Text answer]\<rparr>
       = Ok (seq, ledger')"
    "t' = t\<lparr>tn_bus := emit_all busy [SegmentSealed seq (prefix_hash H ledger'), TurnCompleted (tn_id t)] (tn_bus t),
       tn_finished := True\<rparr>"
    using assms(3) by (rule turn_finish_Ok) blast
  have "cs_status s = Reached" using fin(1) s(1) by (simp add: turn_status_def board_outcome_def claim_of_def)
  moreover have sub: "yes_set s \<subseteq> insert (cs_proposer s) (fst ` set (cs_validators s))"
    using map_of_SomeD [of "cs_validators s"] by (force simp: yes_set_def split: if_splits)
  moreover have "2 * cs_k s \<le> 3 * card (yes_set s)"
  proof (cases "cs_validators s = []")
    case True
    then show ?thesis using ok by (simp add: state_ok_def yes_set_def blind_def)
  next
    case False
    then have "tally_status (cs_tally s) = Reached" using ok \<open>cs_status s = Reached\<close> by (simp add: state_ok_def)
    then show ?thesis by (simp add: tally_status_cases tally_meaning [OF ok] quorum_least)
  qed
  ultimately have two_thirds: "yes_set s \<subseteq> set (tn_session t) \<and> 2 * card (set (tn_session t)) \<le> 3 * card (yes_set s)"
    using cohort tally_meaning(5) [OF ok] by simp
  have "blind s \<longleftrightarrow> tn_blind t"
  proof
    assume "blind s"
    then have "fst ` set (cs_validators s) = {cs_proposer s}" by (metis blind_def image_set list.set(1,2))
    then show "tn_blind t" using fits by (auto split: if_splits)
  next
    assume b: "tn_blind t"
    then obtain a where a: "tn_session t = [a]" using one by (cases "tn_session t") auto
    then have keys: "set (map fst (cs_validators s)) = {a}" "cs_proposer s = a" using fits b by auto
    moreover have "distinct (map fst (cs_validators s))" using ok by (simp add: state_ok_def bt_sorted_distinct)
    ultimately have "map fst (cs_validators s) = [a]" by (intro distinct_singleton)
    moreover have "cs_k s = 1" using tally_meaning(5) [OF ok] unfolding cohort a by simp
    ultimately show "blind s" using keys(2) by (simp add: blind_def)
  qed
  then have "yes_set s = (if tn_blind t0 then {} else {hd (tn_session t0)}) \<union> approvers ops"
    using s(2) fits(1) frame by (auto simp: yes_set_def yes_votes_def)
  moreover have "submitted ops = [(hd (tn_session t0), answer)]" using frame s0(3) fin(2) by simp
  ultimately show ?thesis using two_thirds fin frame
    by (intro exI [of _ answer] exI [of _ "yes_set s"] exI [of _ seq] exI [of _ "prefix_hash H ledger'"]) (simp add: turn_finish_def)
qed

text \<open>
  C32. Approval completes a turn: in a turn of an ordinary (not blind) cohort with at least one
  validator, in which an answer has been proposed and nobody has said no or abstained, on a store
  without faults, the turn has reached its quorum once every validator that is still outstanding has
  approved, in any order and with repetitions.
\<close>

theorem turn_reaches_quorum:
  assumes "reach turn_init turn_trans t" "tn_answer t \<noteq> None" "\<not> tn_blind t"
    and "map_of (b_claims (tn_board t)) (tn_claim t) = Some s" "cs_validators s \<noteq> []" "all_yes s"
    and "pending_set s \<subseteq> set as" "verdict_ok v" "v_vote v = Yes"
  shows "turn_status (turn_run busy (map (\<lambda>a. validation a v) as) t) = Some Reached"
  using run_yes [OF turn_loop.reach_inv [OF assms(1)] assms(2,3,8,9) _ assms(5,6)] assms(4,7)
  by (simp add: claim_of_def)


section \<open>A cohort that repeats its first member\<close>

text \<open>
  \<open>k\<close> and the choice of the blind path count the list of agents, the validators are those
  different from the first: a cohort that names one agent twice has neither a validator nor the
  blind path, and nothing can make it finish.
\<close>

definition wedged :: "turn_state \<Rightarrow> bool" where
  "wedged t \<longleftrightarrow> \<not> tn_blind t \<and> (\<exists>s. claim_of t s \<and> cs_validators s = [] \<and> cs_status s = Open)"

lemma wedged_record:
  assumes "wedged t" "turn_record busy fault ans t = Ok (st, t')"
  shows "wedged t'"
proof (cases "pa_text ans")
  case (Some x)
  with assms show ?thesis
    by (auto simp: turn_record_def record_proposal_def wedged_def claim_of_def split: if_splits)
next
  case None
  with assms(2) have "record_verdict busy fault (pa_agent ans) (pa_verdict ans) t = Ok (st, t')"
    by (simp add: turn_record_def)
  then obtain w res b' where vote: "either_vote t fault (pa_agent ans) w = Ok (res, b')"
    by (rule record_verdict_Ok) blast
  from assms(1) obtain s where s: "map_of (b_claims (tn_board t)) (tn_claim t) = Some s" "cs_validators s = []"
    by (auto simp: wedged_def claim_of_def)
  from record_vote_claim [OF either_vote_claim [OF vote s(1), THEN conjunct2]] s(2) show ?thesis by simp
qed

lemma wedged_finish: "wedged t \<Longrightarrow> \<exists>e. turn_finish H busy fresh t ledger = Err e"
  by (auto simp: wedged_def claim_of_def turn_finish_def turn_status_def board_outcome_def)

theorem turn_duplicate_agents_stuck:
  assumes "start_shared busy env board bus task [a, a] = Ok t"
    and "run turn_trans t ops t'"
  shows "turn_k t = 2 \<and> turn_status t' = Some Open \<and> (\<exists>e. turn_finish H busy' fresh t' ledger = Err e)"
proof -
  obtain penv turn where env: "env = (penv, turn)" by (cases env)
  from assms(1) obtain c b where pub: "board_publish penv turn a [] TURN_CLAIM_BODY board = Ok (c, b)"
    and t: "t = \<lparr>tn_id = turn, tn_session = [a, a], tn_board = b,
      tn_bus = emit_all busy [TurnStarted turn, ClaimPublished c a] bus, tn_claim = c,
      tn_answer = None, tn_votes_seen = 0, tn_steps = [], tn_finished = False, tn_blind = False\<rparr>"
    by (auto simp: start_shared_def Let_def env bind_outcome_Ok_iff map_err_Ok_iff split: if_splits)
  have w: "wedged t" using published_claim [OF pub] by (simp add: wedged_def claim_of_def t bt_of_list_def)
  have "wedged u" if "turn_trans t l u" "wedged t" for t l u
    using that(1)
  proof cases
    case tt_record
    then show ?thesis using wedged_record that(2) by blast
  next
    case (tt_finish H busy fresh ledger sid ledger')
    then show ?thesis using wedged_finish [OF that(2), of H busy fresh ledger] by simp
  qed
  with assms(2) w have "wedged t'" by (induction rule: run.induct) auto
  then show ?thesis using wedged_finish
    by (auto simp: t turn_k_def wedged_def claim_of_def turn_status_def board_outcome_def)
qed

section \<open>Witnesses\<close>

text \<open>Two agents, the first has proposed.\<close>

abbreviation example_turn :: turn_state where
  "example_turn \<equiv> (case start_shared (\<lambda>_ _. False) ((Tx_Ok, ClaimId 1, 0), TurnId 1) board_new bus_new ''task''
       [AgentId 1, AgentId 2] of
     Ok t \<Rightarrow> t\<lparr>tn_answer := Some ''answer''\<rparr>)"

lemma example_start:
  "\<exists>t. start_shared (\<lambda>_ _. False) ((Tx_Ok, ClaimId 1, 0), TurnId 1) board_new bus_new ''task'' [AgentId 1, AgentId 2] = Ok t"
proof -
  have "is_Ok (start_shared (\<lambda>_ _. False) ((Tx_Ok, ClaimId 1, 0), TurnId 1) board_new bus_new ''task'' [AgentId 1, AgentId 2])"
    by code_simp
  then show ?thesis by (simp add: is_Ok_iff)
qed

lemma example_turn_reach: "reach turn_init turn_trans example_turn"
proof -
  obtain t where t: "start_shared (\<lambda>_ _. False) ((Tx_Ok, ClaimId 1, 0), TurnId 1) board_new bus_new ''task''
      [AgentId 1, AgentId 2] = Ok t" using example_start by blast
  have init: "turn_init t" using t reach_init [of "\<lambda>b. b = board_new" board_new] unfolding turn_init_def by blast
  have "tn_session t = [AgentId 1, AgentId 2]" "tn_answer t = None"
    using t by (auto simp: start_shared_def Let_def bind_outcome_Ok_iff split: if_splits)
  then have "turn_record (\<lambda>_ _. False) Tx_Ok (proposal (AgentId 1) ''answer'') t = Ok (Collecting, t\<lparr>tn_answer := Some ''answer''\<rparr>)"
    by (simp add: turn_record_def proposal_def record_proposal_def)
  from tt_record [OF this] have "reach turn_init turn_trans (t\<lparr>tn_answer := Some ''answer''\<rparr>)"
    by (rule reach_step [OF reach_init [of turn_init, OF init]])
  then show ?thesis by (simp add: t)
qed

lemma example_turn_claim:
  "map_of (b_claims (tn_board example_turn)) (tn_claim example_turn) =
     Some \<lparr>cs_turn = TurnId 1, cs_proposer = AgentId 1, cs_body = ''turn candidate'', cs_k = 2,
       cs_tally = \<lparr>t_k = 2, t_needed = 2, t_yes = 1, t_no = 0, t_abstain = 0\<rparr>, cs_status = Open,
       cs_validators = [(AgentId 2, None)]\<rparr> \<and> tn_answer example_turn = Some ''answer'' \<and>
   \<not> tn_blind example_turn \<and> tn_session example_turn = [AgentId 1, AgentId 2] \<and> tn_id example_turn = TurnId 1 \<and>
   \<not> tn_finished example_turn"
  by code_simp

theorem turn_reaches_quorum_witness:
  "turn_status (turn_run (\<lambda>_ _. False) [validation (AgentId 2) example_verdict] example_turn) = Some Reached"
proof -
  let ?s = "\<lparr>cs_turn = TurnId 1, cs_proposer = AgentId 1, cs_body = ''turn candidate'', cs_k = 2,
       cs_tally = \<lparr>t_k = 2, t_needed = 2, t_yes = 1, t_no = 0, t_abstain = 0\<rparr>, cs_status = Open,
       cs_validators = [(AgentId 2, None)]\<rparr>"
  have "tn_answer example_turn \<noteq> None" "\<not> tn_blind example_turn"
    "map_of (b_claims (tn_board example_turn)) (tn_claim example_turn) = Some ?s"
    using example_turn_claim by (simp_all only: option.simps simp_thms)
  moreover have "cs_validators ?s \<noteq> []" "all_yes ?s" "pending_set ?s \<subseteq> set [AgentId 2]" "verdict_ok example_verdict"
    "v_vote example_verdict = Yes"
    by (auto simp: all_yes_def pending_set_def verdict_ok_def MAX_REASON_BYTES_def split: if_splits)
  ultimately have "turn_status (turn_run (\<lambda>_ _. False) (map (\<lambda>a. validation a example_verdict) [AgentId 2]) example_turn) = Some Reached"
    by (rule turn_reaches_quorum [OF example_turn_reach])
  then show ?thesis by (simp only: list.map)
qed


text \<open>The same turn after the second agent's approval, ready to finish.\<close>

lemma example_agreed:
  "\<exists>t. reach turn_init turn_trans t \<and> turn_status t = Some Reached \<and>
     tn_answer t = Some ''answer'' \<and> \<not> tn_finished t \<and> tn_session t = [AgentId 1, AgentId 2]"
proof -
  let ?s = "\<lparr>cs_turn = TurnId 1, cs_proposer = AgentId 1, cs_body = ''turn candidate'', cs_k = 2,
       cs_tally = \<lparr>t_k = 2, t_needed = 2, t_yes = 1, t_no = 0, t_abstain = 0\<rparr>, cs_status = Open,
       cs_validators = [(AgentId 2, None)]\<rparr>"
  obtain t where t: "reach turn_init turn_trans t" "map_of (b_claims (tn_board t)) (tn_claim t) = Some ?s"
    "tn_answer t = Some ''answer''" "\<not> tn_blind t" "tn_session t = [AgentId 1, AgentId 2]" "\<not> tn_finished t"
    using example_turn_reach example_turn_claim by blast
  have inv: "turn_inv t" using turn_loop.reach_inv [OF t(1)] .
  have binv: "board_inv (tn_board t)" using inv by (simp add: turn_inv_def)
  have "verdict_ok example_verdict" by (simp add: verdict_ok_def MAX_REASON_BYTES_def)
  from record_vote_total [OF binv t(2) _ _ this, of "AgentId 2"] obtain b' where
    "record_vote Tx_Ok (tn_claim t) (AgentId 2) example_verdict ?s (tn_board t) =
      Ok (\<lparr>o_claim = tn_claim t, o_status = tally_status \<lparr>t_k = 2, t_needed = 2, t_yes = 2, t_no = 0, t_abstain = 0\<rparr>,
        o_tally = \<lparr>t_k = 2, t_needed = 2, t_yes = 2, t_no = 0, t_abstain = 0\<rparr>\<rparr>, b')"
    by (auto simp: numeral_2_eq_2)
  then have vote: "board_vote Tx_Ok (tn_claim t) (AgentId 2) example_verdict (tn_board t) =
      Ok (\<lparr>o_claim = tn_claim t, o_status = Reached,
        o_tally = \<lparr>t_k = 2, t_needed = 2, t_yes = 2, t_no = 0, t_abstain = 0\<rparr>\<rparr>, b')"
    using t(2) by (simp add: board_vote_def tally_status_def is_reached_def)
  then have "\<exists>t'. turn_record (\<lambda>_ _. False) Tx_Ok (validation (AgentId 2) example_verdict) t = Ok (Step_Reached, t') \<and>
      tn_board t' = b' \<and> tn_claim t' = tn_claim t \<and> tn_answer t' = Some ''answer'' \<and> \<not> tn_finished t' \<and>
      tn_session t' = tn_session t"
    using t by (simp add: turn_record_def validation_def record_verdict_def step_of_def Let_def)
  then obtain t' where t': "turn_record (\<lambda>_ _. False) Tx_Ok (validation (AgentId 2) example_verdict) t = Ok (Step_Reached, t')"
    "tn_board t' = b'" "tn_claim t' = tn_claim t" "tn_answer t' = Some ''answer''" "\<not> tn_finished t'"
    "tn_session t' = tn_session t" by (elim exE conjE) (rule that; assumption)
  have "reach turn_init turn_trans t'" using tt_record [OF t'(1)] by (rule reach_step [OF t(1)])
  moreover have "turn_status t' = Some Reached"
    using record_vote_claim [of Tx_Ok "tn_claim t" "AgentId 2" example_verdict ?s "tn_board t"] vote t(2)
    by (auto simp: turn_status_def board_outcome_def t' board_vote_def)
  ultimately show ?thesis using t' t(5) by auto
qed

lemma reach_by_run: "reach init step t \<Longrightarrow> \<exists>t0 ops. init t0 \<and> run step t0 ops t"
proof (induction rule: reach.induct)
  case (reach_init s)
  then show ?case by (intro exI [of _ s] exI [of _ "[]"]) (simp add: run_nil)
next
  case (reach_step s l t)
  have snoc: "run step a ls b \<Longrightarrow> step b l c \<Longrightarrow> run step a (ls @ [l]) c" for a ls b c
    by (induction rule: run.induct) (auto simp: run_Cons_iff run_Nil_iff)
  from reach_step snoc show ?case by blast
qed

theorem turn_finish_agreed_witness:
  "\<exists>t0 ops t sid t' ledger'. turn_init t0 \<and> run turn_trans t0 ops t \<and>
     turn_finish (\<lambda>_. []) (\<lambda>_ _. False) (SegmentId 1) t ledger_new = Ok (sid, t', ledger') \<and>
     submitted ops = [(AgentId 1, ''answer'')] \<and> (\<exists>agreed. 4 \<le> 3 * card agreed \<and> agreed \<subseteq> {AgentId 1, AgentId 2})"
proof -
  let ?H = "\<lambda>_ :: byte list. [] :: byte list"
  obtain t where t: "reach turn_init turn_trans t" "turn_status t = Some Reached"
     "tn_answer t = Some ''answer''" "\<not> tn_finished t" "tn_session t = [AgentId 1, AgentId 2]"
    using example_agreed by blast
  obtain t0 ops where r: "turn_init t0" "run turn_trans t0 ops t" using reach_by_run [OF t(1)] by blast
  note frame = run_submitted [OF r(2)]
  have s0: "tn_session t0 = [AgentId 1, AgentId 2]" using frame t(5) by simp
  have "\<exists>sid t' ledger'. turn_finish ?H (\<lambda>_ _. False) (SegmentId 1) t ledger_new = Ok (sid, t', ledger')"
    using t by (auto simp: turn_finish_def segment_new_def first_interleaving_def ledger_append_def ledger_new_def
        seq_next_def u64_add_def u64_max_def Let_def)
  then obtain sid t' ledger' where
    fin: "turn_finish ?H (\<lambda>_ _. False) (SegmentId 1) t ledger_new = Ok (sid, t', ledger')" by blast
  from turn_finish_agreed [OF r fin, where H' = ?H and busy' = "\<lambda>_ _. False" and fresh' = "SegmentId 1"
      and ledger'' = ledger_new] obtain answer agreed where
    q: "submitted ops = [(hd (tn_session t0), answer)]" "agreed \<subseteq> set (tn_session t0)"
      "2 * card (set (tn_session t0)) \<le> 3 * card agreed" by blast
  have "submitted ops = [(AgentId 1, ''answer'')]"
    using q(1) frame start_no_votes [OF r(1)] t(3) s0 by simp
  moreover have "4 \<le> 3 * card agreed" using q(3) by (simp add: s0)
  moreover have "agreed \<subseteq> {AgentId 1, AgentId 2}" using q(2) by (simp add: s0)
  ultimately show ?thesis using r fin by blast
qed

end
