(* ===== verification/Json.thy ===== *)
theory Json
  imports Supra_Prelude "HOL-Library.List_Lexorder" "HOL-Library.Char_ord"
begin

text \<open>
  The JSON values of \<open>serde_json\<close> (without its optional features, as the workspace selects it)
  and the accessors the sources use. Objects are maps sorted by key; texts are their UTF-8
  bytes. Parsing and printing of numbers and texts belong to that crate and stay parameters of
  the definitions that need them.
\<close>

datatype json_number = PosInt nat | NegInt int | Float string

datatype json =
    JNull
  | JBool bool
  | JNumber json_number
  | JString string
  | JArray "json list"
  | JObject "(string \<times> json) list"

fun is_object :: "json \<Rightarrow> bool" where
  "is_object (JObject _) = True"
| "is_object _ = False"

fun json_get :: "string \<Rightarrow> json \<Rightarrow> json option" where
  "json_get key (JObject m) = map_of m key"
| "json_get key _ = None"

fun as_str :: "json \<Rightarrow> string option" where
  "as_str (JString s) = Some s"
| "as_str _ = None"

fun as_u64 :: "json \<Rightarrow> nat option" where
  "as_u64 (JNumber (PosInt n)) = Some n"
| "as_u64 _ = None"

fun as_bool :: "json \<Rightarrow> bool option" where
  "as_bool (JBool b) = Some b"
| "as_bool _ = None"

fun as_array :: "json \<Rightarrow> json list option" where
  "as_array (JArray xs) = Some xs"
| "as_array _ = None"

text \<open>An object built member by member.\<close>

definition json_object :: "(string \<times> json) list \<Rightarrow> json" where
  "json_object kvs = JObject (bt_of_list kvs)"

fun is_f64 :: "json_number \<Rightarrow> bool" where
  "is_f64 (Float _) = True"
| "is_f64 _ = False"

fun is_i64 :: "json_number \<Rightarrow> bool" where
  "is_i64 (PosInt n) \<longleftrightarrow> int n \<le> i64_max"
| "is_i64 (NegInt _) = True"
| "is_i64 (Float _) = False"

fun is_u64 :: "json_number \<Rightarrow> bool" where
  "is_u64 (PosInt _) = True"
| "is_u64 _ = False"

text \<open>Whether a text consists of Unicode white space (what \<open>trim\<close> removes).\<close>

definition code :: "char \<Rightarrow> nat" where "code c = of_char c"

fun only_white :: "nat list \<Rightarrow> bool" where
  "only_white [] = True"
| "only_white (a # s) =
     (if 9 \<le> a \<and> a \<le> 13 \<or> a = 32 then only_white s
      else case s of
        [] \<Rightarrow> False
      | b # s' \<Rightarrow>
          if a = 0xC2 \<and> (b = 0x85 \<or> b = 0xA0) then only_white s'
          else case s' of
            [] \<Rightarrow> False
          | c # s'' \<Rightarrow>
              (a = 0xE1 \<and> b = 0x9A \<and> c = 0x80 \<or>
               a = 0xE2 \<and> b = 0x80 \<and> (0x80 \<le> c \<and> c \<le> 0x8A \<or> c = 0xA8 \<or> c = 0xA9 \<or> c = 0xAF) \<or>
               a = 0xE2 \<and> b = 0x81 \<and> c = 0x9F \<or> a = 0xE3 \<and> b = 0x80 \<and> c = 0x80) \<and> only_white s'')"

definition trim_is_empty :: "string \<Rightarrow> bool" where
  "trim_is_empty s = only_white (map code s)"

text \<open>
  Values that printing and parsing again preserves: integers of 64 bits, no floats, and objects
  as sorted maps.
\<close>

fun number_exact :: "json_number \<Rightarrow> bool" where
  "number_exact (PosInt n) \<longleftrightarrow> n \<le> u64_max"
| "number_exact (NegInt i) \<longleftrightarrow> i64_min \<le> i \<and> i < 0"
| "number_exact (Float _) \<longleftrightarrow> False"

fun json_exact :: "json \<Rightarrow> bool" where
  "json_exact JNull = True"
| "json_exact (JBool _) = True"
| "json_exact (JNumber n) = number_exact n"
| "json_exact (JString _) = True"
| "json_exact (JArray xs) = list_all json_exact xs"
| "json_exact (JObject m) = (bt_sorted m \<and> list_all (\<lambda>kv. json_exact (snd kv)) m)"

text \<open>How deep a value nests; \<open>serde_json\<close> reads back at most 127 levels.\<close>

fun json_depth :: "json \<Rightarrow> nat" where
  "json_depth (JArray xs) = Suc (fold max (map json_depth xs) 0)"
| "json_depth (JObject m) = Suc (fold max (map (\<lambda>kv. json_depth (snd kv)) m) 0)"
| "json_depth _ = 0"

end
