(* ===== verification/Sessions.thy ===== *)
theory Sessions
  imports Json "HOL-Library.Sublist"
begin

text \<open>
  \<open>crates/supra_session\<close>: checkpoints (\<open>checkpoint.rs\<close>), their files (\<open>store.rs\<close>) and the
  session that is resumed from them (\<open>session.rs\<close>). A directory maps a session to the contents
  of its file. The bytes of a file are a type of their own: writing and reading them is serde's,
  a parameter whose laws are named where they are used. Exclusive file locks make an operation
  one step. The details of malformed-file errors are held as the data they print.
\<close>

section \<open>Errors\<close>

datatype malformed_session =
    NilSession
  | ParentPairing
  | SelfParent
  | NilTurn
  | NotAnObject turn_id
  | EmptyRole turn_id
  | WrongSession session_id session_id
  | UnknownFormat string
  | EnvelopeVersion nat nat
  | NotJson string

datatype lossy_reason = OmitsTurns | ChangesOrder | ChangesTurn turn_id

datatype session_error =
    S_Io string
  | S_Malformed malformed_session
  | UnsupportedVersion nat
  | RevisionConflict nat nat
  | NonMonotonicRevision nat nat
  | RevisionExhausted nat
  | DuplicateTurn turn_id
  | LossyLegacySave lossy_reason

section \<open>Checkpoints\<close>

definition CHECKPOINT_VERSION :: nat where "CHECKPOINT_VERSION = 1"

datatype lifecycle = Active | Running | Completed | Interrupted

type_synonym protocol_message = json

definition message_new :: "string \<Rightarrow> json \<Rightarrow> protocol_message" where
  "message_new role content = JObject (bt_insert ''content'' content (bt_insert ''role'' (JString role) []))"

definition message_role :: "protocol_message \<Rightarrow> string option" where
  "message_role m = Option.bind (json_get ''role'' m) as_str"

definition message_content :: "protocol_message \<Rightarrow> json option" where
  "message_content m = json_get ''content'' m"

record checkpoint_turn =
  ct_turn :: turn_id
  ct_display_body :: string
  ct_messages :: "protocol_message list"
  ct_completion :: "json option"

record checkpoint =
  cp_version :: nat
  cp_session :: session_id
  cp_revision :: nat
  cp_status :: lifecycle
  cp_parent :: "session_id option"
  cp_parent_revision :: "nat option"
  cp_turns :: "checkpoint_turn list"
  cp_ledger :: "json option"
  cp_config :: "json option"

definition checkpoint_new :: "session_id \<Rightarrow> checkpoint" where
  "checkpoint_new session =
     \<lparr>cp_version = CHECKPOINT_VERSION, cp_session = session, cp_revision = 0, cp_status = Active,
      cp_parent = None, cp_parent_revision = None, cp_turns = [], cp_ledger = None, cp_config = None\<rparr>"

definition advance_revision :: "checkpoint \<Rightarrow> (checkpoint, session_error) outcome" where
  "advance_revision c =
     (case checked_add_u64 (cp_revision c) 1 of
        Some r \<Rightarrow> Ok (c\<lparr>cp_revision := r\<rparr>)
      | None \<Rightarrow> Err (RevisionExhausted (cp_revision c)))"

definition set_status :: "lifecycle \<Rightarrow> checkpoint \<Rightarrow> (checkpoint, session_error) outcome" where
  "set_status status c = bind_outcome (advance_revision c) (\<lambda>c. Ok (c\<lparr>cp_status := status\<rparr>))"

definition push_turn :: "checkpoint_turn \<Rightarrow> checkpoint \<Rightarrow> (checkpoint, session_error) outcome" where
  "push_turn turn c =
     (if list_ex (\<lambda>known. ct_turn known = ct_turn turn) (cp_turns c) then Err (DuplicateTurn (ct_turn turn))
      else bind_outcome (advance_revision c) (\<lambda>c. Ok (c\<lparr>cp_turns := cp_turns c @ [turn]\<rparr>)))"

definition set_ledger :: "json option \<Rightarrow> checkpoint \<Rightarrow> (checkpoint, session_error) outcome" where
  "set_ledger ledger c = bind_outcome (advance_revision c) (\<lambda>c. Ok (c\<lparr>cp_ledger := ledger\<rparr>))"

definition set_config :: "json option \<Rightarrow> checkpoint \<Rightarrow> (checkpoint, session_error) outcome" where
  "set_config config c = bind_outcome (advance_revision c) (\<lambda>c. Ok (c\<lparr>cp_config := config\<rparr>))"

definition checkpoint_branch :: "session_id \<Rightarrow> checkpoint \<Rightarrow> checkpoint" where
  "checkpoint_branch session c =
     \<lparr>cp_version = CHECKPOINT_VERSION, cp_session = session, cp_revision = 0, cp_status = Active,
      cp_parent = Some (cp_session c), cp_parent_revision = Some (cp_revision c),
      cp_turns = cp_turns c, cp_ledger = cp_ledger c, cp_config = cp_config c\<rparr>"

fun validate_messages :: "turn_id \<Rightarrow> protocol_message list \<Rightarrow> (unit, session_error) outcome" where
  "validate_messages turn [] = Ok ()"
| "validate_messages turn (m # ms) =
     (if \<not> is_object m then Err (S_Malformed (NotAnObject turn))
      else case message_role m of
        Some role \<Rightarrow> if trim_is_empty role then Err (S_Malformed (EmptyRole turn)) else validate_messages turn ms
      | None \<Rightarrow> validate_messages turn ms)"

fun validate_turns :: "turn_id set \<Rightarrow> checkpoint_turn list \<Rightarrow> (unit, session_error) outcome" where
  "validate_turns seen [] = Ok ()"
| "validate_turns seen (t # ts) =
     (if ct_turn t = TurnId 0 then Err (S_Malformed NilTurn)
      else if ct_turn t \<in> seen then Err (DuplicateTurn (ct_turn t))
      else bind_outcome (validate_messages (ct_turn t) (ct_messages t)) (\<lambda>_.
             validate_turns (insert (ct_turn t) seen) ts))"

definition checkpoint_validate :: "checkpoint \<Rightarrow> (unit, session_error) outcome" where
  "checkpoint_validate c =
     (if cp_version c \<noteq> CHECKPOINT_VERSION then Err (UnsupportedVersion (cp_version c))
      else if cp_session c = SessionId 0 then Err (S_Malformed NilSession)
      else if (cp_parent c \<noteq> None) \<noteq> (cp_parent_revision c \<noteq> None) then Err (S_Malformed ParentPairing)
      else if cp_parent c = Some (cp_session c) then Err (S_Malformed SelfParent)
      else validate_turns {} (cp_turns c))"

definition from_parts ::
    "nat \<Rightarrow> session_id \<Rightarrow> nat \<Rightarrow> lifecycle \<Rightarrow> session_id option \<Rightarrow> nat option \<Rightarrow> checkpoint_turn list \<Rightarrow>
     json option \<Rightarrow> json option \<Rightarrow> (checkpoint, session_error) outcome" where
  "from_parts version session revision status parent parent_revision turns ledger config =
     (let c = \<lparr>cp_version = version, cp_session = session, cp_revision = revision, cp_status = status,
               cp_parent = parent, cp_parent_revision = parent_revision, cp_turns = turns,
               cp_ledger = ledger, cp_config = config\<rparr>
      in bind_outcome (checkpoint_validate c) (\<lambda>_. Ok c))"

section \<open>Files\<close>

type_synonym legacy_turns = "(turn_id \<times> string) list"

text \<open>
  serde on the two document shapes: the tuple of older versions, and the envelope, of which the
  checkpoint is read as a value first and then as a checkpoint.
\<close>

record ('b, 'v) codec =
  enc_legacy :: "session_id \<Rightarrow> legacy_turns \<Rightarrow> 'b"
  enc_document :: "string \<Rightarrow> nat \<Rightarrow> checkpoint \<Rightarrow> 'b"
  dec_legacy :: "'b \<Rightarrow> (session_id \<times> legacy_turns, string) outcome"
  dec_document :: "'b \<Rightarrow> (string \<times> nat \<times> 'v) option"
  dec_checkpoint :: "'v \<Rightarrow> (checkpoint, string) outcome"

datatype publish_fault =
    Published
  | Open_Fails string
  | Write_Fails string
  | Sync_Fails string
  | Rename_Fails string
  | Parent_Sync_Fails string

record save_env =
  se_directory :: "string option"
  se_lock :: "string option"
  se_read :: "string option"
  se_publish :: publish_fault

type_synonym 'b directory = "session_id \<Rightarrow> 'b option"

definition io_guard :: "string option \<Rightarrow> (unit, session_error) outcome" where
  "io_guard f = (case f of None \<Rightarrow> Ok () | Some e \<Rightarrow> Err (S_Io e))"

text \<open>
  The stages of a publication, in order: a fresh temporary file is opened, written and synced,
  renamed over the old file, and the directory is synced. Until the rename the old contents are in
  place (the guard of the temporary file removes it); a failure of the directory sync is reported
  although the new contents are in place.
\<close>

definition publish_unlocked ::
    "publish_fault \<Rightarrow> session_id \<Rightarrow> 'b \<Rightarrow> 'b directory \<Rightarrow> (unit, session_error) outcome \<times> 'b directory" where
  "publish_unlocked fault session bytes dir =
     (case fault of
        Published \<Rightarrow> (Ok (), dir(session \<mapsto> bytes))
      | Open_Fails e \<Rightarrow> (Err (S_Io e), dir)
      | Write_Fails e \<Rightarrow> (Err (S_Io e), dir)
      | Sync_Fails e \<Rightarrow> (Err (S_Io e), dir)
      | Rename_Fails e \<Rightarrow> (Err (S_Io e), dir)
      | Parent_Sync_Fails e \<Rightarrow> (Err (S_Io e), dir(session \<mapsto> bytes)))"

fun validate_legacy :: "turn_id set \<Rightarrow> legacy_turns \<Rightarrow> (unit, session_error) outcome" where
  "validate_legacy seen [] = Ok ()"
| "validate_legacy seen ((turn, _) # ts) =
     (if turn = TurnId 0 then Err (S_Malformed NilTurn)
      else if turn \<in> seen then Err (DuplicateTurn turn)
      else validate_legacy (insert turn seen) ts)"

definition validate_legacy_turns :: "session_id \<Rightarrow> legacy_turns \<Rightarrow> (unit, session_error) outcome" where
  "validate_legacy_turns session turns =
     (if session = SessionId 0 then Err (S_Malformed NilSession) else validate_legacy {} turns)"

definition legacy_turn :: "turn_id \<Rightarrow> string \<Rightarrow> checkpoint_turn" where
  "legacy_turn turn body = \<lparr>ct_turn = turn, ct_display_body = body, ct_messages = [], ct_completion = None\<rparr>"

fun push_legacy :: "legacy_turns \<Rightarrow> checkpoint \<Rightarrow> (checkpoint, session_error) outcome" where
  "push_legacy [] c = Ok c"
| "push_legacy ((turn, body) # ts) c =
     bind_outcome (push_turn (legacy_turn turn body) c) (\<lambda>c. push_legacy ts c)"

definition map_malformed :: "('a, string) outcome \<Rightarrow> ('a, session_error) outcome" where
  "map_malformed r = (case r of Ok x \<Rightarrow> Ok x | Err e \<Rightarrow> Err (S_Malformed (NotJson e)) | Panic \<Rightarrow> Panic)"

definition decode_checkpoint ::
    "('b, 'v) codec \<Rightarrow> 'b \<Rightarrow> session_id \<Rightarrow> (checkpoint, session_error) outcome" where
  "decode_checkpoint C bytes expected =
     (case dec_document C bytes of
        Some (format', version, value) \<Rightarrow>
          if format' \<noteq> ''supra-session'' then Err (S_Malformed (UnknownFormat format'))
          else if version \<noteq> CHECKPOINT_VERSION then Err (UnsupportedVersion version)
          else bind_outcome (map_malformed (dec_checkpoint C value)) (\<lambda>c.
            if cp_version c \<noteq> version then Err (S_Malformed (EnvelopeVersion version (cp_version c)))
            else if cp_session c \<noteq> expected then Err (S_Malformed (WrongSession (cp_session c) expected))
            else bind_outcome (checkpoint_validate c) (\<lambda>_. Ok c))
      | None \<Rightarrow>
          bind_outcome (map_malformed (dec_legacy C bytes)) (\<lambda>(stored, turns).
          bind_outcome (validate_legacy_turns stored turns) (\<lambda>_.
            if stored \<noteq> expected then Err (S_Malformed (WrongSession stored expected))
            else push_legacy turns (checkpoint_new stored))))"

definition read_versioned_if_present ::
    "('b, 'v) codec \<Rightarrow> string option \<Rightarrow> session_id \<Rightarrow> 'b directory \<Rightarrow> (checkpoint option, session_error) outcome" where
  "read_versioned_if_present C fault session dir =
     bind_outcome (io_guard fault) (\<lambda>_.
       case dir session of
         None \<Rightarrow> Ok None
       | Some bytes \<Rightarrow>
           (case dec_legacy C bytes of
              Ok (stored, turns) \<Rightarrow>
                bind_outcome (validate_legacy_turns stored turns) (\<lambda>_.
                  if stored \<noteq> session then Err (S_Malformed (WrongSession stored session)) else Ok None)
            | _ \<Rightarrow> bind_outcome (decode_checkpoint C bytes session) (\<lambda>c. Ok (Some c))))"

definition read_checkpoint_if_present ::
    "('b, 'v) codec \<Rightarrow> string option \<Rightarrow> session_id \<Rightarrow> 'b directory \<Rightarrow> (checkpoint option, session_error) outcome" where
  "read_checkpoint_if_present C fault session dir =
     bind_outcome (io_guard fault) (\<lambda>_.
       case dir session of
         None \<Rightarrow> Ok None
       | Some bytes \<Rightarrow> bind_outcome (decode_checkpoint C bytes session) (\<lambda>c. Ok (Some c)))"

fun committed_differs :: "legacy_turns \<Rightarrow> checkpoint_turn list \<Rightarrow> lossy_reason option" where
  "committed_differs ((turn, body) # ts) (c # cs) =
     (if turn \<noteq> ct_turn c then Some ChangesOrder
      else if body \<noteq> ct_display_body c then Some (ChangesTurn turn)
      else committed_differs ts cs)"
| "committed_differs _ _ = None"

definition merge_legacy_projection ::
    "checkpoint \<Rightarrow> legacy_turns \<Rightarrow> (checkpoint, session_error) outcome" where
  "merge_legacy_projection existing turns =
     (if length turns < length (cp_turns existing) then Err (LossyLegacySave OmitsTurns)
      else case committed_differs turns (cp_turns existing) of
        Some reason \<Rightarrow> Err (LossyLegacySave reason)
      | None \<Rightarrow> push_legacy (drop (length (cp_turns existing)) turns) existing)"

definition FORMAT :: string where "FORMAT = ''supra-session''"

definition in_dir :: "'d \<Rightarrow> ('a, 'e) outcome \<Rightarrow> ('a \<Rightarrow> ('c, 'e) outcome \<times> 'd) \<Rightarrow> ('c, 'e) outcome \<times> 'd" where
  "in_dir dir r f = (case r of Ok x \<Rightarrow> f x | Err e \<Rightarrow> (Err e, dir) | Panic \<Rightarrow> (Panic, dir))"

definition session_file_save ::
    "('b, 'v) codec \<Rightarrow> save_env \<Rightarrow> session_id \<Rightarrow> legacy_turns \<Rightarrow> 'b directory \<Rightarrow>
     (unit, session_error) outcome \<times> 'b directory" where
  "session_file_save C env session turns dir =
     in_dir dir (validate_legacy_turns session turns) (\<lambda>_.
     in_dir dir (io_guard (se_directory env)) (\<lambda>_.
     in_dir dir (io_guard (se_lock env)) (\<lambda>_.
     in_dir dir (read_versioned_if_present C (se_read env) session dir) (\<lambda>existing.
       case existing of
         None \<Rightarrow> publish_unlocked (se_publish env) session (enc_legacy C session turns) dir
       | Some c \<Rightarrow>
           in_dir dir (merge_legacy_projection c turns) (\<lambda>candidate.
             if candidate = c then (Ok (), dir)
             else publish_unlocked (se_publish env) session (enc_document C FORMAT CHECKPOINT_VERSION candidate) dir)))))"

definition session_file_load ::
    "('b, 'v) codec \<Rightarrow> string option \<Rightarrow> session_id \<Rightarrow> 'b directory \<Rightarrow> (legacy_turns option, session_error) outcome" where
  "session_file_load C fault session dir =
     bind_outcome (io_guard fault) (\<lambda>_.
       case dir session of
         None \<Rightarrow> Ok None
       | Some bytes \<Rightarrow>
           (case dec_legacy C bytes of
              Ok (stored, turns) \<Rightarrow>
                bind_outcome (validate_legacy_turns stored turns) (\<lambda>_.
                  if stored \<noteq> session then Err (S_Malformed (WrongSession stored session)) else Ok (Some turns))
            | _ \<Rightarrow>
                bind_outcome (decode_checkpoint C bytes session) (\<lambda>c.
                  Ok (Some (map (\<lambda>t. (ct_turn t, ct_display_body t)) (cp_turns c))))))"

definition save_checkpoint ::
    "('b, 'v) codec \<Rightarrow> save_env \<Rightarrow> checkpoint \<Rightarrow> nat option \<Rightarrow> 'b directory \<Rightarrow>
     (unit, session_error) outcome \<times> 'b directory" where
  "save_checkpoint C env c expected_revision dir =
     in_dir dir (checkpoint_validate c) (\<lambda>_.
     in_dir dir (io_guard (se_directory env)) (\<lambda>_.
     in_dir dir (io_guard (se_lock env)) (\<lambda>_.
     in_dir dir (read_checkpoint_if_present C (se_read env) (cp_session c) dir) (\<lambda>found.
       let observed = (case found of Some f \<Rightarrow> cp_revision f | None \<Rightarrow> 0);
           publication = publish_unlocked (se_publish env) (cp_session c)
             (enc_document C FORMAT CHECKPOINT_VERSION c) dir;
           monotonic =
             (case found of
                Some f \<Rightarrow>
                  if cp_revision c \<le> cp_revision f
                  then (Err (NonMonotonicRevision (cp_revision c) observed), dir)
                  else publication
              | None \<Rightarrow> publication)
       in case expected_revision of
            Some expected \<Rightarrow>
              if observed \<noteq> expected then (Err (RevisionConflict expected observed), dir) else monotonic
          | None \<Rightarrow> monotonic))))"

definition load_checkpoint ::
    "('b, 'v) codec \<Rightarrow> string option \<Rightarrow> session_id \<Rightarrow> 'b directory \<Rightarrow> (checkpoint option, session_error) outcome" where
  "load_checkpoint C fault session dir = read_checkpoint_if_present C fault session dir"

section \<open>Listing\<close>

definition FILE_PREFIX :: string where "FILE_PREFIX = ''session-''"
definition FILE_SUFFIX :: string where "FILE_SUFFIX = ''.json''"

text \<open>\<open>parse\<close> reads the text of an id; the names are those of the directory that are UTF-8.\<close>

definition session_of_name :: "(string \<Rightarrow> session_id option) \<Rightarrow> string \<Rightarrow> session_id option" where
  "session_of_name parse name =
     Option.bind (strip_prefix FILE_PREFIX name) (\<lambda>stem.
       Option.bind (strip_suffix FILE_SUFFIX stem) parse)"

definition session_list :: "(string \<Rightarrow> session_id option) \<Rightarrow> string list \<Rightarrow> session_id list" where
  "session_list parse names = List.map_filter (session_of_name parse) (sort names)"

section \<open>Sessions\<close>

record session =
  ss_id :: session_id
  ss_turns :: "turn_id list"
  ss_bodies :: "string list"

definition session_new :: "session_id \<Rightarrow> session" where
  "session_new fresh = \<lparr>ss_id = fresh, ss_turns = [], ss_bodies = []\<rparr>"

definition record_turn_with_body :: "turn_id \<Rightarrow> string \<Rightarrow> session \<Rightarrow> bool \<times> session" where
  "record_turn_with_body turn body s =
     (if turn = TurnId 0 \<or> turn \<in> set (ss_turns s) then (False, s)
      else (True, s\<lparr>ss_turns := ss_turns s @ [turn], ss_bodies := ss_bodies s @ [body]\<rparr>))"

definition record_turn :: "turn_id \<Rightarrow> session \<Rightarrow> bool \<times> session" where
  "record_turn turn s =
     (if turn = TurnId 0 \<or> turn \<in> set (ss_turns s) then (False, s)
      else (True, s\<lparr>ss_turns := ss_turns s @ [turn], ss_bodies := ss_bodies s @ [[]]\<rparr>))"

definition session_save ::
    "('b, 'v) codec \<Rightarrow> save_env \<Rightarrow> session \<Rightarrow> 'b directory \<Rightarrow> (unit, session_error) outcome \<times> 'b directory" where
  "session_save C env s dir = session_file_save C env (ss_id s) (zip (ss_turns s) (ss_bodies s)) dir"

definition session_checkpoint :: "session \<Rightarrow> (checkpoint, session_error) outcome" where
  "session_checkpoint s = push_legacy (zip (ss_turns s) (ss_bodies s)) (checkpoint_new (ss_id s))"

definition session_save_checkpoint ::
    "('b, 'v) codec \<Rightarrow> save_env \<Rightarrow> session \<Rightarrow> checkpoint \<Rightarrow> nat option \<Rightarrow> 'b directory \<Rightarrow>
     (unit, session_error) outcome \<times> 'b directory" where
  "session_save_checkpoint C env s c expected dir =
     (if cp_session c \<noteq> ss_id s then (Err (S_Malformed (WrongSession (cp_session c) (ss_id s))), dir)
      else save_checkpoint C env c expected dir)"

definition session_resume ::
    "('b, 'v) codec \<Rightarrow> string option \<Rightarrow> session_id \<Rightarrow> 'b directory \<Rightarrow> (session option, session_error) outcome" where
  "session_resume C fault i dir =
     bind_outcome (session_file_load C fault i dir) (\<lambda>found.
       Ok (map_option (\<lambda>turns. \<lparr>ss_id = i, ss_turns = map fst turns, ss_bodies = map snd turns\<rparr>) found))"

definition resume_checkpoint ::
    "('b, 'v) codec \<Rightarrow> string option \<Rightarrow> session_id \<Rightarrow> 'b directory \<Rightarrow>
     ((session \<times> checkpoint) option, session_error) outcome" where
  "resume_checkpoint C fault i dir =
     bind_outcome (load_checkpoint C fault i dir) (\<lambda>found.
       Ok (map_option (\<lambda>c. (\<lparr>ss_id = i, ss_turns = map ct_turn (cp_turns c),
                             ss_bodies = map ct_display_body (cp_turns c)\<rparr>, c)) found))"

definition session_branch :: "session_id \<Rightarrow> session \<Rightarrow> session" where
  "session_branch fresh s = \<lparr>ss_id = fresh, ss_turns = ss_turns s, ss_bodies = ss_bodies s\<rparr>"

definition newline :: string where "newline = [CHR 0x0A]"

definition export_markdown :: "(ulid \<Rightarrow> string) \<Rightarrow> session \<Rightarrow> string" where
  "export_markdown U s = ''# Session'' @ newline @
     concat (map (\<lambda>(turn, body). newline @ ''## Turn '' @ U (turn_raw turn) @ newline @ newline @ body @ newline)
       (zip (ss_turns s) (ss_bodies s)))"

definition export_markdown_with :: "(ulid \<Rightarrow> string) \<Rightarrow> legacy_turns \<Rightarrow> session \<Rightarrow> string" where
  "export_markdown_with U bodies s = ''# Session'' @ newline @
     concat (map (\<lambda>turn. newline @ ''## Turn '' @ U (turn_raw turn) @ newline @ newline @
         (case List.find (\<lambda>(known, _). known = turn) bodies of Some (_, body) \<Rightarrow> body | None \<Rightarrow> []) @ newline)
       (ss_turns s))"

section \<open>Well-formed sessions and checkpoints\<close>

definition legacy_ok :: "legacy_turns \<Rightarrow> bool" where
  "legacy_ok ts \<longleftrightarrow> distinct (map fst ts) \<and> TurnId 0 \<notin> set (map fst ts)"

lemma validate_legacy_Ok:
  "validate_legacy seen ts = Ok () \<longleftrightarrow> legacy_ok ts \<and> seen \<inter> set (map fst ts) = {}"
  by (induction seen ts rule: validate_legacy.induct) (auto simp: legacy_ok_def)

lemma validate_legacy_turns_Ok:
  "validate_legacy_turns s ts = Ok () \<longleftrightarrow> s \<noteq> SessionId 0 \<and> legacy_ok ts"
  by (simp add: validate_legacy_turns_def validate_legacy_Ok)

definition messages_ok :: "protocol_message list \<Rightarrow> bool" where
  "messages_ok ms \<longleftrightarrow> (\<forall>m \<in> set ms. is_object m \<and> (\<forall>r. message_role m = Some r \<longrightarrow> \<not> trim_is_empty r))"

lemma validate_messages_Ok: "validate_messages t ms = Ok () \<longleftrightarrow> messages_ok ms"
  by (induction t ms rule: validate_messages.induct) (auto simp: messages_ok_def split: option.splits)

lemma bind_unit_Ok: "bind_outcome r (\<lambda>_. f) = Ok x \<longleftrightarrow> (\<exists>y. r = Ok y) \<and> f = Ok x"
  by (cases r) auto

lemma validate_turns_Ok:
  "validate_turns seen ts = Ok () \<longleftrightarrow> distinct (map ct_turn ts) \<and> TurnId 0 \<notin> set (map ct_turn ts) \<and>
     seen \<inter> set (map ct_turn ts) = {} \<and> (\<forall>t \<in> set ts. messages_ok (ct_messages t))"
proof (induction seen ts rule: validate_turns.induct)
  case (2 seen t ts)
  have "validate_turns seen (t # ts) = Ok () \<longleftrightarrow> ct_turn t \<noteq> TurnId 0 \<and> ct_turn t \<notin> seen \<and>
      messages_ok (ct_messages t) \<and> validate_turns (insert (ct_turn t) seen) ts = Ok ()"
    by (auto simp: bind_unit_Ok simp flip: validate_messages_Ok [of "ct_turn t"])
  then show ?case using "2.IH" by auto
qed simp

definition checkpoint_ok :: "checkpoint \<Rightarrow> bool" where
  "checkpoint_ok c \<longleftrightarrow> cp_version c = CHECKPOINT_VERSION \<and> cp_session c \<noteq> SessionId 0 \<and>
     (cp_parent c = None \<longleftrightarrow> cp_parent_revision c = None) \<and> cp_parent c \<noteq> Some (cp_session c) \<and>
     distinct (map ct_turn (cp_turns c)) \<and> TurnId 0 \<notin> set (map ct_turn (cp_turns c)) \<and>
     (\<forall>t \<in> set (cp_turns c). messages_ok (ct_messages t))"

lemma checkpoint_validate_Ok: "checkpoint_validate c = Ok () \<longleftrightarrow> checkpoint_ok c"
  by (auto simp: checkpoint_validate_def checkpoint_ok_def validate_turns_Ok)

lemma turn_known: "list_ex (\<lambda>k. ct_turn k = x) ts \<longleftrightarrow> x \<in> ct_turn ` set ts"
  by (induction ts) auto

lemma legacy_turn_simps [simp]:
  "ct_turn (legacy_turn t b) = t" "ct_display_body (legacy_turn t b) = b" "ct_messages (legacy_turn t b) = []"
  by (simp_all add: legacy_turn_def)

lemma push_turn_Ok:
  "push_turn t c = Ok c' \<longleftrightarrow> ct_turn t \<notin> set (map ct_turn (cp_turns c)) \<and> cp_revision c < u64_max \<and>
     c' = c\<lparr>cp_revision := cp_revision c + 1, cp_turns := cp_turns c @ [t]\<rparr>"
  by (auto simp: push_turn_def advance_revision_def checked_add_u64_def turn_known)

lemma push_legacy_Ok:
  "push_legacy ts c = Ok c' \<longleftrightarrow>
     distinct (map fst ts) \<and> set (map fst ts) \<inter> set (map ct_turn (cp_turns c)) = {} \<and>
     (ts = [] \<or> cp_revision c + length ts \<le> u64_max) \<and>
     c' = c\<lparr>cp_revision := cp_revision c + length ts,
            cp_turns := cp_turns c @ map (\<lambda>(t, b). legacy_turn t b) ts\<rparr>"
proof (induction ts arbitrary: c)
  case (Cons x ts)
  obtain turn body where x: "x = (turn, body)" by force
  let ?c = "c\<lparr>cp_revision := cp_revision c + 1, cp_turns := cp_turns c @ [legacy_turn turn body]\<rparr>"
  have "push_legacy ((turn, body) # ts) c = Ok c' \<longleftrightarrow>
      turn \<notin> set (map ct_turn (cp_turns c)) \<and> cp_revision c < u64_max \<and> push_legacy ts ?c = Ok c'"
    by (auto simp: bind_outcome_Ok_iff push_turn_Ok)
  also have "\<dots> \<longleftrightarrow> distinct (map fst (x # ts)) \<and> set (map fst (x # ts)) \<inter> set (map ct_turn (cp_turns c)) = {} \<and>
     cp_revision c + length (x # ts) \<le> u64_max \<and>
     c' = c\<lparr>cp_revision := cp_revision c + length (x # ts),
            cp_turns := cp_turns c @ map (\<lambda>(t, b). legacy_turn t b) (x # ts)\<rparr>"
    unfolding Cons.IH by (auto simp: x)
  finally show ?case by (simp add: x)
qed auto

section \<open>Files that the store wrote\<close>

text \<open>
  The checkpoints that \<open>serde_json\<close> keeps. Numbers are exact (no floats); a value nests at most
  \<open>VALUE_DEPTH\<close> levels, which with the five levels around it in the document stays below the 127
  that the reader allows; and an optional value is not null, which would read back as absent.
\<close>

definition VALUE_DEPTH :: nat where "VALUE_DEPTH = 120"

definition value_kept :: "json \<Rightarrow> bool" where
  "value_kept v \<longleftrightarrow> json_exact v \<and> json_depth v \<le> VALUE_DEPTH"

definition option_kept :: "json option \<Rightarrow> bool" where
  "option_kept o' \<longleftrightarrow> o' \<noteq> Some JNull \<and> pred_option value_kept o'"

lemma option_kept_None [simp]: "option_kept None"
  by (simp add: option_kept_def)

definition storable :: "checkpoint \<Rightarrow> bool" where
  "storable c \<longleftrightarrow> cp_revision c \<le> u64_max \<and> pred_option (\<lambda>r. r \<le> u64_max) (cp_parent_revision c) \<and>
     option_kept (cp_ledger c) \<and> option_kept (cp_config c) \<and>
     (\<forall>t \<in> set (cp_turns c). list_all value_kept (ct_messages t) \<and> option_kept (ct_completion t))"

text \<open>
  What is relied on of serde: the two shapes read back what was written, of checkpoints for
  the storable ones, and neither reads as the other.
\<close>

definition codec_ok :: "('b, 'v) codec \<Rightarrow> bool" where
  "codec_ok C \<longleftrightarrow> (\<forall>s ts. dec_legacy C (enc_legacy C s ts) = Ok (s, ts) \<and> dec_document C (enc_legacy C s ts) = None) \<and>
     (\<forall>f v c. storable c \<longrightarrow> (\<exists>e. dec_legacy C (enc_document C f v c) = Err e) \<and>
        (\<exists>x. dec_document C (enc_document C f v c) = Some (f, v, x) \<and> dec_checkpoint C x = Ok c))"

definition versioned_file :: "('b, 'v) codec \<Rightarrow> session_id \<Rightarrow> checkpoint \<Rightarrow> 'b \<Rightarrow> bool" where
  "versioned_file C s c b \<longleftrightarrow> b = enc_document C FORMAT CHECKPOINT_VERSION c \<and> checkpoint_ok c \<and> storable c \<and>
     cp_session c = s"

definition legacy_file :: "('b, 'v) codec \<Rightarrow> session_id \<Rightarrow> legacy_turns \<Rightarrow> 'b \<Rightarrow> bool" where
  "legacy_file C s ts b \<longleftrightarrow> b = enc_legacy C s ts \<and> s \<noteq> SessionId 0 \<and> legacy_ok ts \<and> length ts \<le> u64_max"

definition file_ok :: "('b, 'v) codec \<Rightarrow> session_id \<Rightarrow> 'b \<Rightarrow> bool" where
  "file_ok C s b \<longleftrightarrow> (\<exists>c. versioned_file C s c b) \<or> (\<exists>ts. legacy_file C s ts b)"

definition dir_ok :: "('b, 'v) codec \<Rightarrow> 'b directory \<Rightarrow> bool" where
  "dir_ok C dir \<longleftrightarrow> (\<forall>s b. dir s = Some b \<longrightarrow> file_ok C s b)"

text \<open>The checkpoint that a legacy file stands for.\<close>

definition upgraded :: "session_id \<Rightarrow> legacy_turns \<Rightarrow> checkpoint" where
  "upgraded s ts = (checkpoint_new s)\<lparr>cp_revision := length ts, cp_turns := map (\<lambda>(t, b). legacy_turn t b) ts\<rparr>"

lemma push_new:
  "legacy_ok ts \<Longrightarrow> length ts \<le> u64_max \<Longrightarrow> push_legacy ts (checkpoint_new s) = Ok (upgraded s ts)"
  unfolding push_legacy_Ok by (auto simp: legacy_ok_def checkpoint_new_def upgraded_def)

lemma upgraded_turns: "map (\<lambda>t. (ct_turn t, ct_display_body t)) (cp_turns (upgraded s ts)) = ts"
  by (simp add: upgraded_def split_beta o_def)

lemma decode_versioned:
  assumes "codec_ok C" "versioned_file C s c b"
  shows "decode_checkpoint C b s = Ok c"
proof -
  have st: "storable c" and b: "b = enc_document C FORMAT CHECKPOINT_VERSION c"
    using assms(2) by (simp_all add: versioned_file_def)
  from assms(1) st obtain x where x: "dec_document C b = Some (FORMAT, CHECKPOINT_VERSION, x)" "dec_checkpoint C x = Ok c"
    unfolding codec_ok_def b by blast
  have "checkpoint_validate c = Ok ()" using assms(2) by (simp add: versioned_file_def checkpoint_validate_Ok)
  moreover have "cp_session c = s" "cp_version c = CHECKPOINT_VERSION"
    using assms(2) by (simp_all add: versioned_file_def checkpoint_ok_def)
  ultimately show ?thesis using x by (simp add: decode_checkpoint_def FORMAT_def map_malformed_def)
qed

lemma decode_legacy:
  assumes "codec_ok C" "legacy_file C s ts b"
  shows "decode_checkpoint C b s = Ok (upgraded s ts)"
proof -
  have "dec_document C b = None" "dec_legacy C b = Ok (s, ts)"
    using assms by (simp_all add: codec_ok_def legacy_file_def)
  moreover have "validate_legacy_turns s ts = Ok ()" using assms(2) by (simp add: validate_legacy_turns_Ok legacy_file_def)
  moreover have "push_legacy ts (checkpoint_new s) = Ok (upgraded s ts)"
    using assms(2) by (simp add: push_new legacy_file_def)
  ultimately show ?thesis by (simp add: decode_checkpoint_def map_malformed_def)
qed

lemma versioned_not_legacy: "codec_ok C \<Longrightarrow> versioned_file C s c b \<Longrightarrow> \<exists>e. dec_legacy C b = Err e"
  by (auto simp: codec_ok_def versioned_file_def)

definition holds :: "('b, 'v) codec \<Rightarrow> 'b directory \<Rightarrow> session_id \<Rightarrow> checkpoint option" where
  "holds C dir s = (case dir s of None \<Rightarrow> None
     | Some b \<Rightarrow> (case decode_checkpoint C b s of Ok c \<Rightarrow> Some c | _ \<Rightarrow> None))"

lemma load_holds:
  assumes "codec_ok C" "dir_ok C dir"
  shows "read_checkpoint_if_present C None s dir = Ok (holds C dir s)"
proof (cases "dir s")
  case None
  then show ?thesis by (simp add: read_checkpoint_if_present_def io_guard_def holds_def)
next
  case (Some b)
  then have "file_ok C s b" using assms(2) by (simp add: dir_ok_def)
  then obtain c where "decode_checkpoint C b s = Ok c"
    using decode_versioned [OF assms(1)] decode_legacy [OF assms(1)] by (auto simp: file_ok_def)
  then show ?thesis using Some by (simp add: read_checkpoint_if_present_def io_guard_def holds_def)
qed

lemma in_dir_simps [simp]:
  "in_dir dir (Ok x) f = f x" "in_dir dir (Err e) f = (Err e, dir)" "in_dir dir Panic f = (Panic, dir)"
  by (simp_all add: in_dir_def)

definition quiet :: save_env where
  "quiet = \<lparr>se_directory = None, se_lock = None, se_read = None, se_publish = Published\<rparr>"

text \<open>Whatever fails, a file holds the old contents or the new ones.\<close>

lemma publish_atomic:
  "snd (publish_unlocked fault s b dir) = dir \<or> snd (publish_unlocked fault s b dir) = dir(s \<mapsto> b)"
  by (cases fault) (simp_all add: publish_unlocked_def)

lemma save_checkpoint_cases:
  "(\<exists>e. save_checkpoint C env c expected dir = (Err e, dir)) \<or> save_checkpoint C env c expected dir = (Panic, dir) \<or>
   (checkpoint_ok c \<and> (\<exists>found. read_checkpoint_if_present C (se_read env) (cp_session c) dir = Ok found \<and>
      (\<forall>f. found = Some f \<longrightarrow> cp_revision f < cp_revision c)) \<and>
    save_checkpoint C env c expected dir = publish_unlocked (se_publish env) (cp_session c)
      (enc_document C FORMAT CHECKPOINT_VERSION c) dir)"
  by (auto simp: save_checkpoint_def in_dir_def Let_def checkpoint_validate_Ok
      split: outcome.splits option.splits if_splits)

lemma read_versioned_cases:
  assumes "codec_ok C" "dir_ok C dir" "read_versioned_if_present C fault s dir = Ok r"
  shows "(\<exists>c b. r = Some c \<and> dir s = Some b \<and> versioned_file C s c b) \<or>
    r = None \<and> (dir s = None \<or> (\<exists>ts b. dir s = Some b \<and> legacy_file C s ts b))"
proof (cases "dir s")
  case None
  then show ?thesis using assms(3) by (auto simp: read_versioned_if_present_def bind_outcome_Ok_iff)
next
  case (Some b)
  then have "file_ok C s b" using assms(2) by (simp add: dir_ok_def)
  then consider c where "versioned_file C s c b" | ts where "legacy_file C s ts b"
    by (auto simp: file_ok_def)
  then show ?thesis
  proof cases
    case 1
    with versioned_not_legacy [OF assms(1) 1] decode_versioned [OF assms(1) 1] assms(3) Some
    show ?thesis by (auto simp: read_versioned_if_present_def bind_outcome_Ok_iff)
  next
    case 2
    then have "dec_legacy C b = Ok (s, ts)" using assms(1) by (simp add: codec_ok_def legacy_file_def)
    then show ?thesis using 2 assms(3) Some
      by (auto simp: read_versioned_if_present_def bind_outcome_Ok_iff)
  qed
qed

lemma read_versioned_quiet:
  assumes "codec_ok C" "dir s = Some b" "versioned_file C s c b"
  shows "read_versioned_if_present C None s dir = Ok (Some c)"
  using versioned_not_legacy [OF assms(1,3)] decode_versioned [OF assms(1,3)] assms(2)
  by (auto simp: read_versioned_if_present_def io_guard_def)

section \<open>Saves over time\<close>

definition projection :: "checkpoint \<Rightarrow> legacy_turns" where
  "projection c = map (\<lambda>t. (ct_turn t, ct_display_body t)) (cp_turns c)"

definition extend_turns :: "checkpoint \<Rightarrow> legacy_turns \<Rightarrow> checkpoint" where
  "extend_turns c new = c\<lparr>cp_revision := cp_revision c + length new,
     cp_turns := cp_turns c @ map (\<lambda>(t, b). legacy_turn t b) new\<rparr>"

lemma extend_turns_nil [simp]: "extend_turns c [] = c"
  by (simp add: extend_turns_def)

lemma projection_ids: "map fst (projection c) = map ct_turn (cp_turns c)"
  by (simp add: projection_def o_def)

lemma projection_extend: "projection (extend_turns c new) = projection c @ new"
  by (simp add: projection_def extend_turns_def split_beta o_def)

lemma committed_differs_None:
  "length cs \<le> length ts \<Longrightarrow> committed_differs ts cs = None \<longleftrightarrow>
     take (length cs) ts = map (\<lambda>t. (ct_turn t, ct_display_body t)) cs"
  by (induction ts cs rule: committed_differs.induct) auto

lemma merge_lossy:
  assumes "\<not> prefix (projection c) ts"
  obtains r where "merge_legacy_projection c ts = Err (LossyLegacySave r)"
proof (cases "length ts < length (cp_turns c)")
  case False
  then have "take (length (cp_turns c)) ts \<noteq> projection c" using assms by (metis take_is_prefix)
  then have "committed_differs ts (cp_turns c) \<noteq> None"
    using False committed_differs_None by (simp add: projection_def)
  then show ?thesis using False that by (auto simp: merge_legacy_projection_def)
qed (auto simp: merge_legacy_projection_def intro: that)

lemma merge_extends:
  assumes "legacy_ok (projection c @ new)" "cp_revision c + length new \<le> u64_max"
  shows "merge_legacy_projection c (projection c @ new) = Ok (extend_turns c new)"
proof -
  have "committed_differs (projection c @ new) (cp_turns c) = None"
    by (subst committed_differs_None) (simp_all add: projection_def)
  moreover have "push_legacy new c = Ok (extend_turns c new)"
    unfolding push_legacy_Ok extend_turns_def
    using assms by (auto simp: legacy_ok_def projection_def o_def)
  ultimately show ?thesis by (simp add: merge_legacy_projection_def projection_def)
qed

lemma merge_Ok:
  assumes "merge_legacy_projection c ts = Ok c'"
  obtains new where "ts = projection c @ new" "c' = extend_turns c new"
    "new = [] \<or> cp_revision c + length new \<le> u64_max" "distinct (map fst new)"
    "set (map fst new) \<inter> set (map ct_turn (cp_turns c)) = {}"
proof -
  have p: "prefix (projection c) ts" using merge_lossy assms by (metis outcome.distinct(1))
  then obtain new where n: "ts = projection c @ new" by (auto simp: prefix_def)
  have "committed_differs ts (cp_turns c) = None"
    by (subst committed_differs_None) (simp_all add: n projection_def)
  then have "push_legacy new c = Ok c'"
    using assms by (simp add: merge_legacy_projection_def n projection_def)
  then show ?thesis using n that unfolding push_legacy_Ok extend_turns_def by blast
qed

lemma extend_turns_ok:
  assumes "checkpoint_ok c" "legacy_ok ts" "ts = projection c @ new"
  shows "checkpoint_ok (extend_turns c new)"
proof -
  have "map ct_turn (cp_turns (extend_turns c new)) = map fst ts"
    by (metis assms(3) projection_extend projection_ids)
  moreover have "\<forall>t \<in> set (cp_turns (extend_turns c new)). messages_ok (ct_messages t)"
    using assms(1) by (auto simp: extend_turns_def checkpoint_ok_def messages_ok_def)
  ultimately show ?thesis using assms(1,2)
    by (simp add: checkpoint_ok_def legacy_ok_def) (simp add: extend_turns_def)
qed

lemma extend_turns_storable:
  assumes "storable c" "new = [] \<or> cp_revision c + length new \<le> u64_max"
  shows "storable (extend_turns c new)"
  using assms by (auto simp: storable_def extend_turns_def legacy_turn_def)

lemma extend_turns_session [simp]: "cp_session (extend_turns c new) = cp_session c"
  by (simp add: extend_turns_def)

lemma publish_cases:
  obtains "snd (publish_unlocked fault s b dir) = dir" | "snd (publish_unlocked fault s b dir) = dir(s \<mapsto> b)"
  using publish_atomic by metis

datatype save_op =
    Save_Checkpoint save_env checkpoint "nat option"
  | Save_Turns save_env session_id legacy_turns

fun apply_save :: "('b, 'v) codec \<Rightarrow> save_op \<Rightarrow> 'b directory \<Rightarrow> 'b directory" where
  "apply_save C (Save_Checkpoint env c expected) dir = snd (save_checkpoint C env c expected dir)"
| "apply_save C (Save_Turns env s ts) dir = snd (session_file_save C env s ts dir)"

text \<open>Values that serde writes exactly, and lengths and revisions that fit their type.\<close>

fun save_op_ok :: "save_op \<Rightarrow> bool" where
  "save_op_ok (Save_Checkpoint env c expected) \<longleftrightarrow> storable c"
| "save_op_ok (Save_Turns env s ts) \<longleftrightarrow> length ts \<le> u64_max"

lemma session_file_save_cases:
  assumes "codec_ok C" "dir_ok C dir" "length ts \<le> u64_max"
  obtains "snd (session_file_save C env s ts dir) = dir"
  | b where "snd (session_file_save C env s ts dir) = dir(s \<mapsto> b)" "legacy_file C s ts b"
      "dir s = None \<or> (\<exists>ts b. dir s = Some b \<and> legacy_file C s ts b)"
  | b c c0 b0 where "snd (session_file_save C env s ts dir) = dir(s \<mapsto> b)" "versioned_file C s c b"
      "dir s = Some b0" "versioned_file C s c0 b0" "cp_revision c0 < cp_revision c"
proof (cases "validate_legacy_turns s ts = Ok () \<and> io_guard (se_directory env) = Ok () \<and> io_guard (se_lock env) = Ok ()")
  case False
  then have "snd (session_file_save C env s ts dir) = dir"
    by (auto simp: session_file_save_def in_dir_def split: outcome.splits)
  then show ?thesis by (rule that(1))
next
  case g: True
  let ?r = "read_versioned_if_present C (se_read env) s dir"
  have ok: "s \<noteq> SessionId 0" "legacy_ok ts" using g by (simp_all add: validate_legacy_turns_Ok)
  show ?thesis
  proof (cases ?r)
    case (Ok found)
    then have cs: "(\<exists>c b. found = Some c \<and> dir s = Some b \<and> versioned_file C s c b) \<or>
        found = None \<and> (dir s = None \<or> (\<exists>ts b. dir s = Some b \<and> legacy_file C s ts b))"
      by (rule read_versioned_cases [OF assms(1,2)])
    show ?thesis
    proof (cases found)
      case None
      have "snd (session_file_save C env s ts dir)
          = snd (publish_unlocked (se_publish env) s (enc_legacy C s ts) dir)"
        using g Ok None by (simp add: session_file_save_def)
      moreover have "legacy_file C s ts (enc_legacy C s ts)"
        using ok assms(3) by (simp add: legacy_file_def)
      ultimately show ?thesis using cs None that(1,2) by (metis option.distinct(1) publish_atomic)
    next
      case (Some c0)
      with cs obtain b0 where b0: "dir s = Some b0" "versioned_file C s c0 b0" by auto
      show ?thesis
      proof (cases "\<exists>c. merge_legacy_projection c0 ts = Ok c \<and> c \<noteq> c0")
        case True
        then obtain c where m: "merge_legacy_projection c0 ts = Ok c" "c \<noteq> c0" by blast
        have "snd (session_file_save C env s ts dir)
            = snd (publish_unlocked (se_publish env) s (enc_document C FORMAT CHECKPOINT_VERSION c) dir)"
          using g Ok Some m by (simp add: session_file_save_def)
        moreover have "versioned_file C s c (enc_document C FORMAT CHECKPOINT_VERSION c)" "cp_revision c0 < cp_revision c"
        proof -
          from m(1) obtain new where n: "ts = projection c0 @ new" "c = extend_turns c0 new"
            "new = [] \<or> cp_revision c0 + length new \<le> u64_max" by (rule merge_Ok)
          have "new \<noteq> []" using m(2) n(2) by auto
          then show "cp_revision c0 < cp_revision c" by (simp add: n(2) extend_turns_def)
          show "versioned_file C s c (enc_document C FORMAT CHECKPOINT_VERSION c)"
            using b0(2) extend_turns_ok [OF _ ok(2) n(1)] extend_turns_storable [OF _ n(3)]
            by (auto simp: versioned_file_def n(2))
        qed
        ultimately show ?thesis using b0 that(1,3) by (metis publish_atomic)
      next
        case False
        then have "snd (session_file_save C env s ts dir) = dir"
          using g Ok Some by (auto simp: session_file_save_def in_dir_def split: outcome.splits)
        then show ?thesis by (rule that(1))
      qed
    qed
  qed (use g in \<open>auto simp: session_file_save_def intro: that(1)\<close>)
qed

lemma save_checkpoint_result:
  assumes "codec_ok C" "dir_ok C dir" "storable c"
  obtains "snd (save_checkpoint C env c e dir) = dir"
  | b where "snd (save_checkpoint C env c e dir) = dir(cp_session c \<mapsto> b)" "versioned_file C (cp_session c) c b"
      "\<forall>f. holds C dir (cp_session c) = Some f \<longrightarrow> cp_revision f < cp_revision c"
proof -
  consider "snd (save_checkpoint C env c e dir) = dir"
    | found where "checkpoint_ok c" "read_checkpoint_if_present C (se_read env) (cp_session c) dir = Ok found"
      "\<forall>f. found = Some f \<longrightarrow> cp_revision f < cp_revision c"
      "save_checkpoint C env c e dir = publish_unlocked (se_publish env) (cp_session c)
         (enc_document C FORMAT CHECKPOINT_VERSION c) dir"
    using save_checkpoint_cases [of C env c e dir] by auto
  then show ?thesis
  proof cases
    case 2
    have "found = holds C dir (cp_session c)"
      using 2(2) load_holds [OF assms(1,2), of "cp_session c"]
      by (cases "se_read env") (auto simp: read_checkpoint_if_present_def io_guard_def)
    moreover have "versioned_file C (cp_session c) c (enc_document C FORMAT CHECKPOINT_VERSION c)"
      using 2(1) assms(3) by (simp add: versioned_file_def)
    ultimately show ?thesis using 2 that by (metis publish_atomic)
  qed (rule that(1))
qed

definition revision_of :: "('b, 'v) codec \<Rightarrow> 'b directory \<Rightarrow> session_id \<Rightarrow> checkpoint \<Rightarrow> bool" where
  "revision_of C dir s c \<longleftrightarrow> (\<exists>b. dir s = Some b \<and> versioned_file C s c b)"

lemma holds_versioned: "codec_ok C \<Longrightarrow> dir s = Some b \<Longrightarrow> versioned_file C s c b \<Longrightarrow> holds C dir s = Some c"
  by (simp add: holds_def decode_versioned)

lemma revision_unique: "codec_ok C \<Longrightarrow> revision_of C dir s c \<Longrightarrow> revision_of C dir s c' \<Longrightarrow> c = c'"
  unfolding revision_of_def by (metis decode_versioned option.inject outcome.inject(1))

lemma legacy_not_versioned: "codec_ok C \<Longrightarrow> legacy_file C s ts b \<Longrightarrow> \<not> versioned_file C s c b"
  using versioned_not_legacy [of C s c b] by (auto simp: codec_ok_def legacy_file_def)

lemma dir_ok_upd: "dir_ok C dir \<Longrightarrow> file_ok C s b \<Longrightarrow> dir_ok C (dir(s \<mapsto> b))"
  by (simp add: dir_ok_def)

lemma apply_save_step:
  assumes "codec_ok C" "dir_ok C dir" "save_op_ok op"
  shows "dir_ok C (apply_save C op dir) \<and>
    (\<forall>s c. revision_of C dir s c \<longrightarrow>
      (\<exists>c'. revision_of C (apply_save C op dir) s c' \<and> (c' = c \<or> cp_revision c < cp_revision c')))"
proof (cases op)
  case (Save_Checkpoint env n expected)
  have st: "storable n" using assms(3) Save_Checkpoint by simp
  show ?thesis
  proof (rule save_checkpoint_result [OF assms(1,2) st, of env expected])
    assume "snd (save_checkpoint C env n expected dir) = dir"
    then show ?thesis using assms(2) Save_Checkpoint by auto
  next
    fix b assume new: "snd (save_checkpoint C env n expected dir) = dir(cp_session n \<mapsto> b)"
      "versioned_file C (cp_session n) n b"
      "\<forall>f. holds C dir (cp_session n) = Some f \<longrightarrow> cp_revision f < cp_revision n"
    have "dir_ok C (dir(cp_session n \<mapsto> b))"
      by (rule dir_ok_upd [OF assms(2)]) (use new(2) in \<open>auto simp: file_ok_def\<close>)
    moreover have "\<exists>c'. revision_of C (dir(cp_session n \<mapsto> b)) s c' \<and> (c' = c \<or> cp_revision c < cp_revision c')"
      if "revision_of C dir s c" for s c
    proof (cases "s = cp_session n")
      case True
      have "holds C dir s = Some c" using that holds_versioned [OF assms(1)] by (auto simp: revision_of_def)
      then show ?thesis using new True by (auto simp: revision_of_def)
    qed (use that in \<open>auto simp: revision_of_def\<close>)
    ultimately show ?thesis using Save_Checkpoint new(1) by simp
  qed
next
  case (Save_Turns env s0 ts)
  have len: "length ts \<le> u64_max" using assms(3) Save_Turns by simp
  show ?thesis
  proof (rule session_file_save_cases [OF assms(1,2) len, of env s0])
    assume "snd (session_file_save C env s0 ts dir) = dir"
    then show ?thesis using assms(2) Save_Turns by auto
  next
    fix b assume new: "snd (session_file_save C env s0 ts dir) = dir(s0 \<mapsto> b)" "legacy_file C s0 ts b"
      "dir s0 = None \<or> (\<exists>ts b. dir s0 = Some b \<and> legacy_file C s0 ts b)"
    have "dir_ok C (dir(s0 \<mapsto> b))"
      by (rule dir_ok_upd [OF assms(2)]) (use new(2) in \<open>auto simp: file_ok_def\<close>)
    moreover have "revision_of C (dir(s0 \<mapsto> b)) s c" if "revision_of C dir s c" for s c
    proof -
      have "s \<noteq> s0" using that new(3) legacy_not_versioned [OF assms(1)] by (auto simp: revision_of_def)
      then show ?thesis using that by (simp add: revision_of_def)
    qed
    ultimately show ?thesis using Save_Turns new(1) by auto
  next
    fix b n n0 b0 assume new: "snd (session_file_save C env s0 ts dir) = dir(s0 \<mapsto> b)" "versioned_file C s0 n b"
      "dir s0 = Some b0" "versioned_file C s0 n0 b0" "cp_revision n0 < cp_revision n"
    have "dir_ok C (dir(s0 \<mapsto> b))"
      by (rule dir_ok_upd [OF assms(2)]) (use new(2) in \<open>auto simp: file_ok_def\<close>)
    moreover have "\<exists>c'. revision_of C (dir(s0 \<mapsto> b)) s c' \<and> (c' = c \<or> cp_revision c < cp_revision c')"
      if "revision_of C dir s c" for s c
    proof (cases "s = s0")
      case True
      have "revision_of C dir s n0" using True new(3,4) by (simp add: revision_of_def)
      then have "c = n0" by (rule revision_unique [OF assms(1) that])
      then show ?thesis using new True by (auto simp: revision_of_def)
    qed (use that in \<open>auto simp: revision_of_def\<close>)
    ultimately show ?thesis using Save_Turns new(1) by simp
  qed
qed

definition apply_saves :: "('b, 'v) codec \<Rightarrow> save_op list \<Rightarrow> 'b directory \<Rightarrow> 'b directory" where
  "apply_saves C ops dir = fold (apply_save C) ops dir"

lemma apply_saves_simps [simp]:
  "apply_saves C [] dir = dir" "apply_saves C (op # ops) dir = apply_saves C ops (apply_save C op dir)"
  by (simp_all add: apply_saves_def)

text \<open>
  C11. Whatever saves run over a directory, of storable checkpoints or of plain turn lists, with whatever
  input/output failures, every file stays readable, a versioned file stays a versioned file, and
  its checkpoint either is the same or has a greater revision.
\<close>

theorem revisions_never_go_back:
  assumes "codec_ok C" "dir_ok C dir" "list_all save_op_ok ops"
  shows "dir_ok C (apply_saves C ops dir) \<and> (\<forall>s c. revision_of C dir s c \<longrightarrow>
      (\<exists>c'. revision_of C (apply_saves C ops dir) s c' \<and> (c' = c \<or> cp_revision c < cp_revision c')))"
  using assms(2,3)
proof (induction ops arbitrary: dir)
  case (Cons op ops)
  have step: "dir_ok C (apply_save C op dir)"
    "\<And>s c. revision_of C dir s c \<Longrightarrow>
      \<exists>c'. revision_of C (apply_save C op dir) s c' \<and> (c' = c \<or> cp_revision c < cp_revision c')"
    using apply_save_step [OF assms(1), of dir op] Cons.prems by auto
  have IH: "dir_ok C (apply_saves C ops (apply_save C op dir))"
    "\<And>s c. revision_of C (apply_save C op dir) s c \<Longrightarrow>
      \<exists>c'. revision_of C (apply_saves C ops (apply_save C op dir)) s c' \<and> (c' = c \<or> cp_revision c < cp_revision c')"
    using Cons.IH [OF step(1)] Cons.prems(2) by auto
  show ?case
  proof (intro conjI allI impI)
    show "dir_ok C (apply_saves C (op # ops) dir)" using IH(1) by simp
    fix s c assume "revision_of C dir s c"
    then obtain c1 where "revision_of C (apply_save C op dir) s c1" "c1 = c \<or> cp_revision c < cp_revision c1"
      using step(2) by blast
    moreover from this(1) obtain c2 where "revision_of C (apply_saves C ops (apply_save C op dir)) s c2"
      "c2 = c1 \<or> cp_revision c1 < cp_revision c2" using IH(2) by blast
    ultimately show "\<exists>c'. revision_of C (apply_saves C (op # ops) dir) s c' \<and> (c' = c \<or> cp_revision c < cp_revision c')"
      by (auto intro: exI [of _ c2])
  qed
qed auto

section \<open>A codec on which the laws hold\<close>

datatype test_bytes = B_Legacy session_id legacy_turns | B_Document string nat checkpoint

definition test_codec :: "(test_bytes, checkpoint) codec" where
  "test_codec = \<lparr>enc_legacy = B_Legacy, enc_document = B_Document,
     dec_legacy = (\<lambda>b. case b of B_Legacy s ts \<Rightarrow> Ok (s, ts) | B_Document _ _ _ \<Rightarrow> Err ''expected a sequence''),
     dec_document = (\<lambda>b. case b of B_Legacy _ _ \<Rightarrow> None | B_Document f v c \<Rightarrow> Some (f, v, c)),
     dec_checkpoint = Ok\<rparr>"

lemma test_codec_ok: "codec_ok test_codec"
  by (simp add: codec_ok_def test_codec_def)

definition test_checkpoint :: checkpoint where
  "test_checkpoint = (checkpoint_new (SessionId 7))\<lparr>cp_revision := 3,
     cp_turns := [legacy_turn (TurnId 1) ''a'', legacy_turn (TurnId 2) ''b'']\<rparr>"

definition test_directory :: "test_bytes directory" where
  "test_directory = [SessionId 7 \<mapsto> B_Document FORMAT CHECKPOINT_VERSION test_checkpoint]"

lemma test_checkpoint_ok: "checkpoint_ok test_checkpoint" "storable test_checkpoint"
    "cp_session test_checkpoint = SessionId 7" "cp_revision test_checkpoint = 3"
  by (simp_all add: test_checkpoint_def checkpoint_new_def checkpoint_ok_def storable_def messages_ok_def
      legacy_turn_def u64_max_def)

lemma test_directory_ok: "versioned_file test_codec (SessionId 7) test_checkpoint
    (B_Document FORMAT CHECKPOINT_VERSION test_checkpoint)"
    "dir_ok test_codec test_directory" "revision_of test_codec test_directory (SessionId 7) test_checkpoint"
  using test_checkpoint_ok
  by (auto simp: versioned_file_def test_codec_def dir_ok_def file_ok_def test_directory_def revision_of_def)

lemma revisions_never_go_back_witness:
  "\<exists>c'. revision_of test_codec (apply_saves test_codec
     [Save_Turns quiet (SessionId 7) [(TurnId 1, ''a'')],
      Save_Checkpoint quiet (checkpoint_new (SessionId 8)) (Some 0)] test_directory) (SessionId 7) c' \<and>
     3 \<le> cp_revision c'"
proof -
  have ok: "list_all save_op_ok [Save_Turns quiet (SessionId 7) [(TurnId 1, ''a'')],
      Save_Checkpoint quiet (checkpoint_new (SessionId 8)) (Some 0)]"
    by (simp add: checkpoint_new_def storable_def u64_max_def)
  obtain c' where "revision_of test_codec (apply_saves test_codec
     [Save_Turns quiet (SessionId 7) [(TurnId 1, ''a'')],
      Save_Checkpoint quiet (checkpoint_new (SessionId 8)) (Some 0)] test_directory) (SessionId 7) c'"
    "c' = test_checkpoint \<or> cp_revision test_checkpoint < cp_revision c'"
    using revisions_never_go_back [OF test_codec_ok test_directory_ok(2) ok] test_directory_ok(3) by blast
  then show ?thesis using test_checkpoint_ok(4) by (intro exI [of _ c']) auto
qed

section \<open>Saving against a revision\<close>

lemma save_checkpoint_quiet:
  assumes "codec_ok C" "dir_ok C dir"
  shows "save_checkpoint C quiet c expected dir =
    (let found = holds C dir (cp_session c);
         observed = (case found of Some f \<Rightarrow> cp_revision f | None \<Rightarrow> 0)
     in if \<not> checkpoint_ok c then (checkpoint_validate c, dir)
        else if expected \<noteq> None \<and> expected \<noteq> Some observed
          then (Err (RevisionConflict (the expected) observed), dir)
        else if found \<noteq> None \<and> cp_revision c \<le> observed
          then (Err (NonMonotonicRevision (cp_revision c) observed), dir)
        else (Ok (), dir(cp_session c \<mapsto> enc_document C FORMAT CHECKPOINT_VERSION c)))"
proof (cases "checkpoint_ok c")
  case True
  then have "checkpoint_validate c = Ok ()" by (simp add: checkpoint_validate_Ok)
  then show ?thesis using True load_holds [OF assms]
    by (simp add: save_checkpoint_def quiet_def io_guard_def publish_unlocked_def Let_def
        split: option.splits)
next
  case False
  then have "checkpoint_validate c \<noteq> Ok ()" by (simp add: checkpoint_validate_Ok)
  then show ?thesis using False
    by (cases "checkpoint_validate c") (simp_all add: save_checkpoint_def)
qed

text \<open>
  C12. Without input/output failures a storable checkpoint is stored exactly when it is well formed, the
  expected revision (if given) is the stored one, and its own is greater; then it is what a load
  returns, no other file changes, and whoever still expects the revision that was there is
  refused with both numbers. A refused save changes nothing.
\<close>

theorem save_checkpoint_compare_and_swap:
  assumes "codec_ok C" "dir_ok C dir" "storable c" "cp_session c = s"
    and "observed = (case holds C dir s of Some f \<Rightarrow> cp_revision f | None \<Rightarrow> 0)"
    and "save_checkpoint C quiet c expected dir = (r, dir')"
  shows "(r = Ok () \<longleftrightarrow> checkpoint_ok c \<and> (expected = None \<or> expected = Some observed) \<and>
            (holds C dir s = None \<or> observed < cp_revision c)) \<and>
     (r \<noteq> Ok () \<longrightarrow> dir' = dir) \<and>
     (r = Ok () \<longrightarrow> load_checkpoint C None s dir' = Ok (Some c) \<and> (\<forall>s'. s' \<noteq> s \<longrightarrow> dir' s' = dir s') \<and>
       (\<forall>late. cp_session late = s \<longrightarrow> checkpoint_ok late \<longrightarrow> observed \<noteq> cp_revision c \<longrightarrow>
          save_checkpoint C quiet late (Some observed) dir'
            = (Err (RevisionConflict observed (cp_revision c)), dir')))"
proof -
  have valid: "checkpoint_ok c \<or> checkpoint_validate c \<noteq> Ok ()"
    using checkpoint_validate_Ok [of c] by (cases "checkpoint_validate c") auto
  have one: "(r, dir') = (let found = holds C dir s in if \<not> checkpoint_ok c then (checkpoint_validate c, dir)
        else if expected \<noteq> None \<and> expected \<noteq> Some observed
          then (Err (RevisionConflict (the expected) observed), dir)
        else if found \<noteq> None \<and> cp_revision c \<le> observed
          then (Err (NonMonotonicRevision (cp_revision c) observed), dir)
        else (Ok (), dir(s \<mapsto> enc_document C FORMAT CHECKPOINT_VERSION c)))"
    using save_checkpoint_quiet [OF assms(1,2), of c expected] assms(4-6) by (simp add: Let_def)
  have iff: "r = Ok () \<longleftrightarrow> checkpoint_ok c \<and> (expected = None \<or> expected = Some observed) \<and>
      (holds C dir s = None \<or> observed < cp_revision c)"
    using one valid by (auto simp: Let_def split: if_splits)
  have same: "r \<noteq> Ok () \<longrightarrow> dir' = dir" using one by (auto simp: Let_def split: if_splits)
  have "load_checkpoint C None s dir' = Ok (Some c) \<and> (\<forall>s'. s' \<noteq> s \<longrightarrow> dir' s' = dir s') \<and>
       (\<forall>late. cp_session late = s \<longrightarrow> checkpoint_ok late \<longrightarrow> observed \<noteq> cp_revision c \<longrightarrow>
          save_checkpoint C quiet late (Some observed) dir'
            = (Err (RevisionConflict observed (cp_revision c)), dir'))" if "r = Ok ()"
  proof -
    have d: "dir' = dir(s \<mapsto> enc_document C FORMAT CHECKPOINT_VERSION c)"
      using one that valid by (auto simp: Let_def split: if_splits)
    have v: "versioned_file C s c (enc_document C FORMAT CHECKPOINT_VERSION c)"
      using iff that assms(3,4) by (simp add: versioned_file_def)
    then have dok: "dir_ok C dir'" unfolding d by (intro dir_ok_upd assms(2)) (auto simp: file_ok_def)
    have h: "holds C dir' s = Some c"
      by (rule holds_versioned [OF assms(1) _ v]) (simp add: d)
    show ?thesis
      using save_checkpoint_quiet [OF assms(1) dok] load_holds [OF assms(1) dok, of s] h
      by (auto simp: load_checkpoint_def Let_def d)
  qed
  then show ?thesis using iff same by blast
qed

lemma save_checkpoint_compare_and_swap_witness:
  "fst (save_checkpoint test_codec quiet (test_checkpoint\<lparr>cp_revision := 4\<rparr>) (Some 3) test_directory) = Ok ()"
proof -
  have ok: "checkpoint_ok (test_checkpoint\<lparr>cp_revision := 4\<rparr>)" "storable (test_checkpoint\<lparr>cp_revision := 4\<rparr>)"
    using test_checkpoint_ok by (simp_all add: checkpoint_ok_def storable_def u64_max_def)
  have s: "cp_session (test_checkpoint\<lparr>cp_revision := 4\<rparr>) = SessionId 7" using test_checkpoint_ok by simp
  have h: "holds test_codec test_directory (SessionId 7) = Some test_checkpoint"
    by (rule holds_versioned [OF test_codec_ok _ test_directory_ok(1)]) (simp add: test_directory_def)
  show ?thesis
    using save_checkpoint_compare_and_swap [OF test_codec_ok test_directory_ok(2) ok(2) s refl prod.collapse [symmetric],
        of "Some 3"] ok h test_checkpoint_ok
    by simp
qed

section \<open>Saving a plain list of turns over a checkpoint\<close>

text \<open>
  A plain save over a versioned file keeps every committed turn: it succeeds exactly for a
  list that the committed turns are a prefix of (and whose end fits the revision), and then a
  load returns that list while the messages, status, ledger and settings of the checkpoint are kept;
  any other list is refused as lossy and changes nothing.
\<close>

theorem legacy_save_lossless:
  assumes "codec_ok C" "dir s = Some b" "versioned_file C s c b"
    and "legacy_ok ts" "length ts \<le> u64_max" "cp_revision c + (length ts - length (projection c)) \<le> u64_max"
    and "session_file_save C quiet s ts dir = (r, dir')"
  shows "(r = Ok () \<longleftrightarrow> prefix (projection c) ts) \<and>
     (r \<noteq> Ok () \<longrightarrow> dir' = dir \<and> (\<exists>why. r = Err (LossyLegacySave why))) \<and>
     (r = Ok () \<longrightarrow> session_file_load C None s dir' = Ok (Some ts) \<and>
        (\<exists>c'. load_checkpoint C None s dir' = Ok (Some c') \<and> prefix (cp_turns c) (cp_turns c') \<and>
           cp_status c' = cp_status c \<and> cp_ledger c' = cp_ledger c \<and> cp_config c' = cp_config c \<and>
           cp_revision c' = cp_revision c + (length ts - length (projection c))))"
proof -
  have nz: "s \<noteq> SessionId 0" and sess: "cp_session c = s" and cok: "checkpoint_ok c" and sto: "storable c"
    using assms(3) by (auto simp: versioned_file_def checkpoint_ok_def)
  have save: "(r, dir') = in_dir dir (merge_legacy_projection c ts) (\<lambda>candidate.
             if candidate = c then (Ok (), dir)
             else (Ok (), dir(s \<mapsto> enc_document C FORMAT CHECKPOINT_VERSION candidate)))"
    using assms(7) nz assms(4) read_versioned_quiet [where dir = dir and s = s, OF assms(1-3)] validate_legacy_turns_Ok [of s ts]
    by (simp add: session_file_save_def quiet_def io_guard_def publish_unlocked_def cong: if_cong)
  show ?thesis
  proof (cases "prefix (projection c) ts")
    case False
    then obtain why where "merge_legacy_projection c ts = Err (LossyLegacySave why)" by (rule merge_lossy)
    then show ?thesis using save False by simp
  next
    case True
    then obtain new where new: "ts = projection c @ new" by (auto simp: prefix_def)
    have m: "merge_legacy_projection c ts = Ok (extend_turns c new)"
      using merge_extends [of c new] assms(4,6) by (simp add: new)
    have v: "versioned_file C s (extend_turns c new) (enc_document C FORMAT CHECKPOINT_VERSION (extend_turns c new))"
      using extend_turns_ok [OF cok assms(4) new] extend_turns_storable [OF sto, of new] assms(6) sess
      by (simp add: versioned_file_def new)
    have d: "r = Ok () \<and> dir' = dir(s \<mapsto> enc_document C FORMAT CHECKPOINT_VERSION (extend_turns c new))"
    proof (cases "extend_turns c new = c")
      case True
      then have "dir' = dir" "r = Ok ()" using save m by simp_all
      moreover have "dir = dir(s \<mapsto> enc_document C FORMAT CHECKPOINT_VERSION c)"
        using assms(2,3) by (auto simp: versioned_file_def)
      ultimately show ?thesis using True by simp
    qed (use save m in simp)
    have turns: "map (\<lambda>t. (ct_turn t, ct_display_body t)) (cp_turns (extend_turns c new)) = ts"
      using projection_extend [of c new] by (simp add: projection_def new)
    have "session_file_load C None s dir' = Ok (Some ts)"
      using versioned_not_legacy [OF assms(1) v] decode_versioned [OF assms(1) v] d turns
      by (auto simp: session_file_load_def io_guard_def)
    moreover have "load_checkpoint C None s dir' = Ok (Some (extend_turns c new))"
      using decode_versioned [OF assms(1) v] d
      by (simp add: load_checkpoint_def read_checkpoint_if_present_def io_guard_def)
    ultimately show ?thesis using True d by (simp add: extend_turns_def new)
  qed
qed

lemma legacy_save_lossless_witness:
  "session_file_load test_codec None (SessionId 7)
     (snd (session_file_save test_codec quiet (SessionId 7) [(TurnId 1, ''a''), (TurnId 2, ''b''), (TurnId 5, ''c'')]
       test_directory)) = Ok (Some [(TurnId 1, ''a''), (TurnId 2, ''b''), (TurnId 5, ''c'')])"
proof -
  have p: "projection test_checkpoint = [(TurnId 1, ''a''), (TurnId 2, ''b'')]"
    by (simp add: projection_def test_checkpoint_def)
  have h: "legacy_ok [(TurnId 1, ''a''), (TurnId 2, ''b''), (TurnId 5, ''c'')]"
    "length [(TurnId 1, ''a''), (TurnId 2, ''b''), (TurnId 5, ''c'')] \<le> u64_max"
    "cp_revision test_checkpoint + (length [(TurnId 1, ''a''), (TurnId 2, ''b''), (TurnId 5, ''c'')]
      - length (projection test_checkpoint)) \<le> u64_max"
    by (simp_all add: legacy_ok_def u64_max_def p test_checkpoint_ok)
  have d: "test_directory (SessionId 7) = Some (B_Document FORMAT CHECKPOINT_VERSION test_checkpoint)"
    by (simp add: test_directory_def)
  show ?thesis
    using legacy_save_lossless [where dir = test_directory and s = "SessionId 7", OF test_codec_ok d test_directory_ok(1) h
        prod.collapse [symmetric]]
    by (simp add: p)
qed

section \<open>Sessions that are saved and resumed\<close>

definition session_ok :: "session \<Rightarrow> bool" where
  "session_ok s \<longleftrightarrow> ss_id s \<noteq> SessionId 0 \<and> distinct (ss_turns s) \<and> TurnId 0 \<notin> set (ss_turns s) \<and>
     length (ss_bodies s) = length (ss_turns s)"

lemma record_turn_ok:
  "session_ok s \<Longrightarrow> session_ok (snd (record_turn_with_body t body s))" "session_ok s \<Longrightarrow> session_ok (snd (record_turn t s))"
  by (auto simp: session_ok_def record_turn_with_body_def record_turn_def)

definition record_all :: "(turn_id \<times> string) list \<Rightarrow> session \<Rightarrow> session" where
  "record_all ts s = fold (\<lambda>(t, body) s. snd (record_turn_with_body t body s)) ts s"

lemma record_all_ok: "session_ok s \<Longrightarrow> session_ok (record_all ts s)"
  by (induction ts arbitrary: s) (auto simp: record_all_def record_turn_ok)

lemma session_pairs_ok:
  assumes "session_ok s" shows "legacy_ok (zip (ss_turns s) (ss_bodies s))"
  using assms by (simp add: session_ok_def legacy_ok_def)

text \<open>
  A session to which turns were recorded, however often and in whatever order, saved to a
  directory that holds no file of it, is resumed from that directory as it was; and it reads as
  the checkpoint that the session itself makes of its turns.
\<close>

theorem session_resumes_as_saved:
  assumes "codec_ok C" "fresh \<noteq> SessionId 0" "s = record_all recorded (session_new fresh)"
    and "length (ss_turns s) \<le> u64_max" "dir fresh = None"
    and "dir' = snd (session_save C quiet s dir)"
  shows "session_resume C None fresh dir' = Ok (Some s) \<and>
     (\<exists>c. session_checkpoint s = Ok c \<and> resume_checkpoint C None fresh dir' = Ok (Some (s, c)))"
proof -
  have i: "ss_id (record_all recorded s0) = ss_id s0" for s0
    by (induction recorded arbitrary: s0) (auto simp: record_all_def record_turn_with_body_def)
  have id: "ss_id s = fresh" by (simp add: assms(3) i session_new_def)
  have sok: "session_ok s"
    using record_all_ok [of "session_new fresh" recorded] assms(2,3) by (simp add: session_ok_def session_new_def)
  let ?ts = "zip (ss_turns s) (ss_bodies s)"
  have ts: "legacy_ok ?ts" "length ?ts \<le> u64_max" using session_pairs_ok [OF sok] assms(4) by simp_all
  have d: "dir' = dir(fresh \<mapsto> enc_legacy C fresh ?ts)"
    using assms(2,5,6) ts(1) validate_legacy_turns_Ok [of fresh ?ts]
    by (simp add: session_save_def session_file_save_def id quiet_def io_guard_def publish_unlocked_def
        read_versioned_if_present_def)
  have f: "legacy_file C fresh ?ts (enc_legacy C fresh ?ts)" using ts assms(2) by (simp add: legacy_file_def)
  have eta: "\<lparr>ss_id = fresh, ss_turns = map fst ?ts, ss_bodies = map snd ?ts\<rparr> = s"
    using sok id by (simp add: session_ok_def)
  have dl: "dec_legacy C (enc_legacy C fresh ?ts) = Ok (fresh, ?ts)"
    using assms(1) by (simp add: codec_ok_def)
  have one: "session_resume C None fresh dir' = Ok (Some s)"
    using d dl eta ts(1) assms(2) validate_legacy_turns_Ok [of fresh ?ts]
    by (simp add: session_resume_def session_file_load_def io_guard_def)
  have two: "session_checkpoint s = Ok (upgraded fresh ?ts)"
    using push_new [OF ts] by (simp add: session_checkpoint_def id)
  have "map ct_turn (cp_turns (upgraded fresh ?ts)) = map fst ?ts"
    "map ct_display_body (cp_turns (upgraded fresh ?ts)) = map snd ?ts"
    by (simp_all add: upgraded_def split_beta o_def)
  then have "resume_checkpoint C None fresh dir' = Ok (Some (s, upgraded fresh ?ts))"
    using d decode_legacy [OF assms(1) f] eta
    by (simp add: resume_checkpoint_def load_checkpoint_def read_checkpoint_if_present_def io_guard_def)
  then show ?thesis using one two by blast
qed

lemma session_resumes_as_saved_witness:
  "session_resume test_codec None (SessionId 9) (snd (session_save test_codec quiet
     (record_all [(TurnId 1, ''a''), (TurnId 0, ''x''), (TurnId 1, ''y''), (TurnId 2, ''b'')] (session_new (SessionId 9)))
     test_directory)) = Ok (Some \<lparr>ss_id = SessionId 9, ss_turns = [TurnId 1, TurnId 2], ss_bodies = [''a'', ''b'']\<rparr>)"
proof -
  let ?s = "record_all [(TurnId 1, ''a''), (TurnId 0, ''x''), (TurnId 1, ''y''), (TurnId 2, ''b'')] (session_new (SessionId 9))"
  have s: "?s = \<lparr>ss_id = SessionId 9, ss_turns = [TurnId 1, TurnId 2], ss_bodies = [''a'', ''b'']\<rparr>"
    by (simp add: record_all_def session_new_def record_turn_with_body_def)
  have h: "SessionId 9 \<noteq> SessionId 0" "length (ss_turns ?s) \<le> u64_max" "test_directory (SessionId 9) = None"
    unfolding s by (simp_all add: u64_max_def test_directory_def)
  show ?thesis
    using session_resumes_as_saved [where dir = test_directory and s = ?s, OF test_codec_ok h(1) refl h(2,3) refl] by (simp add: s)
qed

end
