(* ===== verification/Journal.thy ===== *)
theory Journal
  imports Turn_Store
begin

text \<open>
  \<open>crates/supra_journal\<close>: write-ahead snapshots of files and their undo. A state is the rows of
  the snapshot table (in insertion order) and the regular files, by resolved path. What the
  operating system answers to the calls of one operation, SQLite's faults and the generated id
  are the environment of that operation. \<open>H\<close> is the hash function and \<open>U\<close> the text of a ULID.
  The Unix implementation of the path checks is modelled.
\<close>

section \<open>Errors and paths\<close>

datatype snapshot_id = SnapshotId (snapshot_raw: ulid)

text \<open>A path is text, or bytes that are not UTF-8.\<close>

datatype os_path = Utf8 string | NonUtf8 "byte list"

datatype journal_error =
    J_Store store_error
  | J_Sqlite string
  | J_Io string
  | NonUtf8Path os_path
  | PathIdentityChanged os_path
  | J_Corrupt snapshot_id content_hash content_hash
  | AlreadyUndone snapshot_id
  | J_NotFound snapshot_id

definition path_text :: "os_path \<Rightarrow> (string, journal_error) outcome" where
  "path_text p = (case p of Utf8 s \<Rightarrow> Ok s | NonUtf8 _ \<Rightarrow> Err (NonUtf8Path p))"

definition io :: "('a, string) outcome \<Rightarrow> ('a, journal_error) outcome" where
  "io r = (case r of Ok x \<Rightarrow> Ok x | Err e \<Rightarrow> Err (J_Io e) | Panic \<Rightarrow> Panic)"

definition fails :: "string option \<Rightarrow> (string \<Rightarrow> journal_error) \<Rightarrow> (unit, journal_error) outcome" where
  "fails f mk = (case f of None \<Rightarrow> Ok () | Some e \<Rightarrow> Err (mk e))"

section \<open>The table\<close>

record snapshot_row =
  sr_path :: string
  sr_before :: "byte list"
  sr_hash :: "byte list"
  sr_byte_len :: int
  sr_created_at :: int
  sr_undone :: bool

type_synonym snapshot_table = "(snapshot_id \<times> snapshot_row) list"

definition SNAPSHOT_KIND :: byte where "SNAPSHOT_KIND = 0x11"

definition snapshot_canonical :: "byte list \<Rightarrow> writer" where
  "snapshot_canonical bytes = w_bytes 1 bytes"

definition snapshot_digest :: "(byte list \<Rightarrow> byte list) \<Rightarrow> byte list \<Rightarrow> content_hash" where
  "snapshot_digest H bytes = hash_of H SNAPSHOT_KIND (snapshot_canonical bytes)"

interpretation snapshot_seal: sealable SNAPSHOT_KIND snapshot_canonical fits
  by unfold_locales (auto simp: snapshot_canonical_def w_bytes_iff)

text \<open>The CHECK constraints and the primary key of \<open>journal_snapshot\<close>.\<close>

definition snapshot_check :: "(ulid \<Rightarrow> string) \<Rightarrow> snapshot_id \<Rightarrow> snapshot_row \<Rightarrow> bool" where
  "snapshot_check U i row \<longleftrightarrow> length (U (snapshot_raw i)) = 26 \<and> sr_path row \<noteq> [] \<and>
     length (sr_hash row) = 32 \<and> sr_byte_len row = int (length (sr_before row)) \<and> 0 \<le> sr_created_at row"

definition insert_snapshot ::
    "(ulid \<Rightarrow> string) \<Rightarrow> snapshot_id \<Rightarrow> string \<Rightarrow> byte list \<Rightarrow> content_hash \<Rightarrow> snapshot_table \<Rightarrow>
     (snapshot_table, journal_error) outcome" where
  "insert_snapshot U i path before digest rows =
     (let row = \<lparr>sr_path = path, sr_before = before, sr_hash = hash_bytes digest,
                 sr_byte_len = min (int (length before)) i64_max,
                 sr_created_at = min (int (ulid_timestamp_ms (snapshot_raw i))) i64_max, sr_undone = False\<rparr>
      in if i \<in> fst ` set rows then Err (J_Store (StoreSqlite ''UNIQUE constraint failed''))
         else if \<not> snapshot_check U i row then Err (J_Store (StoreSqlite ''CHECK constraint failed''))
         else Ok (rows @ [(i, row)]))"

definition decode_snapshot_digest :: "byte list \<Rightarrow> (content_hash, journal_error) outcome" where
  "decode_snapshot_digest bytes =
     (if length bytes = HASH_LEN then Ok (ContentHash bytes)
      else Err (J_Store (StoreMalformed (''journal_snapshot records a '' @ show_nat (length bytes) @
             ''-byte digest, expected '' @ show_nat HASH_LEN))))"

definition read_row ::
    "snapshot_id \<Rightarrow> snapshot_table \<Rightarrow> ((byte list \<times> content_hash \<times> bool \<times> string) option, journal_error) outcome" where
  "read_row i rows =
     (case map_of rows i of
        None \<Rightarrow> Ok None
      | Some row \<Rightarrow> bind_outcome (decode_snapshot_digest (sr_hash row)) (\<lambda>digest.
          Ok (Some (sr_before row, digest, sr_undone row, sr_path row))))"

definition mark_undone :: "snapshot_id \<Rightarrow> snapshot_table \<Rightarrow> bool \<times> snapshot_table" where
  "mark_undone i rows =
     (\<exists>(j, row) \<in> set rows. j = i \<and> \<not> sr_undone row,
      map (\<lambda>(j, row). (j, if j = i then row\<lparr>sr_undone := True\<rparr> else row)) rows)"

record snapshot_report =
  rp_snapshot :: snapshot_id
  rp_path :: string
  rp_digest :: content_hash
  rp_byte_len :: int
  rp_created_at :: int
  rp_undone :: bool

definition decode_row :: "snapshot_id \<times> snapshot_row \<Rightarrow> (snapshot_report, journal_error) outcome" where
  "decode_row r = (let (i, row) = r in
     if length (sr_hash row) = HASH_LEN
     then Ok \<lparr>rp_snapshot = i, rp_path = sr_path row, rp_digest = ContentHash (sr_hash row),
              rp_byte_len = sr_byte_len row, rp_created_at = sr_created_at row, rp_undone = sr_undone row\<rparr>
     else Err (J_Store (StoreSqlite ''wrong digest width'')))"

definition row_key :: "snapshot_id \<times> snapshot_row \<Rightarrow> int \<times> ulid" where
  "row_key r = (sr_created_at (snd r), snapshot_raw (fst r))"

definition newest_row :: "string \<Rightarrow> snapshot_table \<Rightarrow> (snapshot_report option, journal_error) outcome" where
  "newest_row path rows =
     (case max_by_key row_key (filter (\<lambda>(_, row). sr_path row = path \<and> \<not> sr_undone row) rows) of
        None \<Rightarrow> Ok None
      | Some r \<Rightarrow> bind_outcome (decode_row r) (\<lambda>report. Ok (Some report)))"

definition count_rows :: "string \<Rightarrow> snapshot_table \<Rightarrow> nat" where
  "count_rows path rows = length (filter (\<lambda>(_, row). sr_path row = path) rows)"

section \<open>Reading the source of a snapshot\<close>

record file_meta =
  fm_dev :: nat
  fm_ino :: nat
  fm_is_file :: bool

definition same_file :: "file_meta \<Rightarrow> file_meta \<Rightarrow> bool" where
  "same_file m n \<longleftrightarrow> fm_dev m = fm_dev n \<and> fm_ino m = fm_ino n"

text \<open>
  The answers to the calls of \<open>SnapshotSource::read\<close>, in the order they are made: the descriptor
  (opened without following a link) and its metadata, the resolved name and its metadata, the
  bytes of the descriptor, and both metadata again.
\<close>

record source_os =
  so_open :: "(unit, string) outcome"
  so_opened :: "(file_meta, string) outcome"
  so_canonical :: "(os_path, string) outcome"
  so_named :: "(file_meta, string) outcome"
  so_bytes :: "(byte list, string) outcome"
  so_after :: "(file_meta, string) outcome"
  so_named_after :: "(file_meta, string) outcome"

definition source_read :: "source_os \<Rightarrow> os_path \<Rightarrow> (byte list \<times> os_path, journal_error) outcome" where
  "source_read os path =
     bind_outcome (io (so_open os)) (\<lambda>_.
     bind_outcome (io (so_opened os)) (\<lambda>opened.
     if \<not> fm_is_file opened then Err (J_Io ''journal snapshots require a regular file'')
     else bind_outcome (io (so_canonical os)) (\<lambda>resolved.
     bind_outcome (io (so_named os)) (\<lambda>named.
     if \<not> same_file opened named \<or> \<not> fm_is_file named then Err (PathIdentityChanged path)
     else bind_outcome (io (so_bytes os)) (\<lambda>bytes.
     bind_outcome (io (so_after os)) (\<lambda>after.
     if \<not> same_file opened after then Err (PathIdentityChanged path)
     else bind_outcome (io (so_named_after os)) (\<lambda>named_after.
     if \<not> same_file after named_after then Err (PathIdentityChanged path)
     else Ok (bytes, resolved))))))))"

section \<open>Restoring\<close>

type_synonym files = "string \<Rightarrow> byte list option"

text \<open>
  What the operating system answers to the calls of a restore: opening each candidate temporary
  file, writing it (with what was written when it fails), syncing it, renaming it, syncing the
  directory; and whether the removal in the guard of the temporary file works.
\<close>

datatype create_answer = Created | Already_Exists | Create_Fails string

record restore_os =
  ro_create :: "nat \<Rightarrow> create_answer"
  ro_write :: "(byte list \<times> string) option"
  ro_sync :: "string option"
  ro_rename :: "string option"
  ro_open_dir :: "string option"
  ro_remove :: bool

text \<open>The directory and name of a canonical path of a file.\<close>

definition parent_dir :: "string \<Rightarrow> string" where
  "parent_dir p = rev (dropWhile (\<lambda>c. c \<noteq> CHR ''/'') (rev p))"

definition base_name :: "string \<Rightarrow> string" where
  "base_name p = rev (takeWhile (\<lambda>c. c \<noteq> CHR ''/'') (rev p))"

definition temp_path :: "(ulid \<Rightarrow> string) \<Rightarrow> string \<Rightarrow> snapshot_id \<Rightarrow> nat \<Rightarrow> string" where
  "temp_path U target i attempt = parent_dir target @ ''.supra-undo-'' @ U (snapshot_raw i) @ ''-'' @
     base_name target @ ''-'' @ show_nat attempt"

definition TEMP_ATTEMPTS :: nat where "TEMP_ATTEMPTS = 128"

function create_temp ::
    "restore_os \<Rightarrow> (ulid \<Rightarrow> string) \<Rightarrow> string \<Rightarrow> snapshot_id \<Rightarrow> files \<Rightarrow> nat \<Rightarrow> (string, string) outcome" where
  "create_temp os U target i fs attempt =
     (if attempt < TEMP_ATTEMPTS then
        let path = temp_path U target i attempt in
        if fs path \<noteq> None then create_temp os U target i fs (attempt + 1)
        else (case ro_create os attempt of
                Created \<Rightarrow> Ok path
              | Already_Exists \<Rightarrow> create_temp os U target i fs (attempt + 1)
              | Create_Fails e \<Rightarrow> Err e)
      else Err ''could not allocate a unique undo temporary file'')"
  by pat_completeness auto
termination by (relation "measure (\<lambda>(_, _, _, _, _, attempt). TEMP_ATTEMPTS - attempt)") auto

declare create_temp.simps [simp del]

definition drop_temp :: "restore_os \<Rightarrow> string \<Rightarrow> files \<Rightarrow> files" where
  "drop_temp os path fs = (if ro_remove os then fs(path := None) else fs)"

definition restore_bytes ::
    "restore_os \<Rightarrow> (ulid \<Rightarrow> string) \<Rightarrow> string \<Rightarrow> snapshot_id \<Rightarrow> byte list \<Rightarrow> files \<Rightarrow>
     (unit, journal_error) outcome \<times> files" where
  "restore_bytes os U target i bytes fs =
     (case create_temp os U target i fs 0 of
        Err e \<Rightarrow> (Err (J_Io e), fs)
      | Panic \<Rightarrow> (Panic, fs)
      | Ok temp \<Rightarrow>
          (case ro_write os of
             Some (part, e) \<Rightarrow> (Err (J_Io e), drop_temp os temp (fs(temp \<mapsto> part)))
           | None \<Rightarrow>
          (case ro_sync os of
             Some e \<Rightarrow> (Err (J_Io e), drop_temp os temp (fs(temp \<mapsto> bytes)))
           | None \<Rightarrow>
          (case ro_rename os of
             Some e \<Rightarrow> (Err (J_Io e), drop_temp os temp (fs(temp \<mapsto> bytes)))
           | None \<Rightarrow>
          (let renamed = (fs(temp := None))(target \<mapsto> bytes) in
           case ro_open_dir os of
             Some e \<Rightarrow> (Err (J_Io e), drop_temp os temp renamed)
           | None \<Rightarrow> (Ok (), drop_temp os temp renamed))))))"

section \<open>The journal\<close>

record journal =
  j_rows :: snapshot_table
  j_files :: files

record snapshot_env =
  se_source :: source_os
  se_id :: snapshot_id
  se_begin :: "string option"
  se_insert :: "string option"
  se_commit :: "string option"

definition journal_snapshot ::
    "(byte list \<Rightarrow> byte list) \<Rightarrow> (ulid \<Rightarrow> string) \<Rightarrow> snapshot_env \<Rightarrow> os_path \<Rightarrow> journal \<Rightarrow>
     (snapshot_id, journal_error) outcome \<times> journal" where
  "journal_snapshot H U env path j =
     (let result =
        bind_outcome (source_read (se_source env) path) (\<lambda>(bytes, resolved).
        bind_outcome (path_text resolved) (\<lambda>text'.
        bind_outcome (fails (se_begin env) J_Sqlite) (\<lambda>_.
        bind_outcome (fails (se_insert env) (\<lambda>e. J_Store (StoreSqlite e))) (\<lambda>_.
        bind_outcome (insert_snapshot U (se_id env) text' bytes (snapshot_digest H bytes) (j_rows j)) (\<lambda>rows.
        bind_outcome (fails (se_commit env) J_Sqlite) (\<lambda>_. Ok rows))))))
      in case result of
           Ok rows \<Rightarrow> (Ok (se_id env), j\<lparr>j_rows := rows\<rparr>)
         | Err e \<Rightarrow> (Err e, j)
         | Panic \<Rightarrow> (Panic, j))"

record undo_env =
  ue_begin :: "string option"
  ue_read :: "string option"
  ue_restore :: restore_os
  ue_mark :: "string option"
  ue_commit :: "string option"

text \<open>The part of the transaction before the file is touched, and the part after.\<close>

definition undo_read ::
    "(byte list \<Rightarrow> byte list) \<Rightarrow> undo_env \<Rightarrow> snapshot_id \<Rightarrow> snapshot_table \<Rightarrow>
     (byte list \<times> string, journal_error) outcome" where
  "undo_read H env i rows =
     bind_outcome (fails (ue_begin env) J_Sqlite) (\<lambda>_.
     bind_outcome (fails (ue_read env) (\<lambda>e. J_Store (StoreSqlite e))) (\<lambda>_.
     bind_outcome (read_row i rows) (\<lambda>found.
       case found of
         None \<Rightarrow> Err (J_NotFound i)
       | Some (bytes, stored, undone, path) \<Rightarrow>
           if undone then Err (AlreadyUndone i)
           else let computed = snapshot_digest H bytes in
             if computed \<noteq> stored then Err (J_Corrupt i stored computed)
             else Ok (bytes, path))))"

definition undo_mark ::
    "undo_env \<Rightarrow> snapshot_id \<Rightarrow> snapshot_table \<Rightarrow> (snapshot_table, journal_error) outcome" where
  "undo_mark env i rows =
     bind_outcome (fails (ue_mark env) (\<lambda>e. J_Store (StoreSqlite e))) (\<lambda>_.
       (case mark_undone i rows of
          (True, rows') \<Rightarrow> bind_outcome (fails (ue_commit env) J_Sqlite) (\<lambda>_. Ok rows')
        | (False, _) \<Rightarrow> Err (AlreadyUndone i)))"

definition journal_undo ::
    "(byte list \<Rightarrow> byte list) \<Rightarrow> (ulid \<Rightarrow> string) \<Rightarrow> undo_env \<Rightarrow> snapshot_id \<Rightarrow> journal \<Rightarrow>
     (unit, journal_error) outcome \<times> journal" where
  "journal_undo H U env i j =
     (case undo_read H env i (j_rows j) of
        Err e \<Rightarrow> (Err e, j)
      | Panic \<Rightarrow> (Panic, j)
      | Ok (bytes, path) \<Rightarrow>
          (let (restored, fs) = restore_bytes (ue_restore env) U path i bytes (j_files j) in
           case bind_outcome restored (\<lambda>_. undo_mark env i (j_rows j)) of
             Ok rows \<Rightarrow> (Ok (), \<lparr>j_rows = rows, j_files = fs\<rparr>)
           | Err e \<Rightarrow> (Err e, j\<lparr>j_files := fs\<rparr>)
           | Panic \<Rightarrow> (Panic, j\<lparr>j_files := fs\<rparr>)))"

text \<open>The reports; \<open>canonical\<close> is what the path resolves to.\<close>

definition resolved_path_text :: "(os_path, string) outcome \<Rightarrow> (string, journal_error) outcome" where
  "resolved_path_text canonical = bind_outcome (io canonical) path_text"

definition newest_for_path ::
    "string option \<Rightarrow> (os_path, string) outcome \<Rightarrow> journal \<Rightarrow> (snapshot_report option, journal_error) outcome" where
  "newest_for_path fault canonical j =
     bind_outcome (resolved_path_text canonical) (\<lambda>path.
     bind_outcome (fails fault J_Sqlite) (\<lambda>_. newest_row path (j_rows j)))"

definition count_for_path ::
    "string option \<Rightarrow> (os_path, string) outcome \<Rightarrow> journal \<Rightarrow> (nat, journal_error) outcome" where
  "count_for_path fault canonical j =
     bind_outcome (resolved_path_text canonical) (\<lambda>path.
     bind_outcome (fails fault J_Sqlite) (\<lambda>_. Ok (count_rows path (j_rows j))))"

section \<open>Paths of temporary files\<close>

lemma parent_base: "parent_dir p @ base_name p = p"
  unfolding parent_dir_def base_name_def
  by (metis rev_append rev_rev_ident takeWhile_dropWhile_id)

lemma temp_path_longer: "length p < length (temp_path U p i n)"
proof -
  have "length p = length (parent_dir p) + length (base_name p)"
    by (metis length_append parent_base)
  then show ?thesis by (simp add: temp_path_def)
qed

lemma temp_path_not_target: "temp_path U p i n \<noteq> p"
  using temp_path_longer [of p U i n] by auto

text \<open>A created temporary file is one of the candidates, and was not there before.\<close>

lemma create_temp_Ok:
  "create_temp os U target i fs n = Ok t \<Longrightarrow> fs t = None \<and> (\<exists>k < TEMP_ATTEMPTS. t = temp_path U target i k)"
proof (induction os U target i fs n rule: create_temp.induct)
  case (1 os U target i fs attempt)
  let ?p = "temp_path U target i attempt"
  from 1(3) consider "attempt < TEMP_ATTEMPTS" "fs ?p = None" "t = ?p"
    | "attempt < TEMP_ATTEMPTS" "fs ?p \<noteq> None" "create_temp os U target i fs (attempt + 1) = Ok t"
    | "attempt < TEMP_ATTEMPTS" "fs ?p = None" "ro_create os attempt = Already_Exists"
      "create_temp os U target i fs (attempt + 1) = Ok t"
    using create_temp.simps [of os U target i fs attempt]
    by (auto simp: Let_def split: if_splits create_answer.splits)
  then show ?case using 1(1) [OF _ refl] 1(2) [OF _ refl] by cases auto
qed

lemma create_temp_no_panic: "create_temp os U target i fs n \<noteq> Panic"
proof (induction os U target i fs n rule: create_temp.induct)
  case (1 os U target i fs attempt)
  then show ?case by (subst create_temp.simps) (auto simp: Let_def split: create_answer.split)
qed

definition restored :: "files \<Rightarrow> string \<Rightarrow> byte list \<Rightarrow> restore_os \<Rightarrow> (ulid \<Rightarrow> string) \<Rightarrow> snapshot_id \<Rightarrow> files \<Rightarrow> bool" where
  "restored fs target bytes os U i fs' \<longleftrightarrow>
     (\<forall>p. fs' p = fs p \<or> p = target \<and> fs' p = Some bytes \<or>
        \<not> ro_remove os \<and> fs p = None \<and> (\<exists>k < TEMP_ATTEMPTS. p = temp_path U target i k))"

lemma restored_temp:
  assumes "fs temp = None" "k < TEMP_ATTEMPTS" "temp = temp_path U target i k"
  shows "restored fs target bytes os U i (drop_temp os temp (fs(temp \<mapsto> b)))"
    and "drop_temp os temp ((fs(temp := None))(target \<mapsto> bytes)) = fs(target \<mapsto> bytes)"
    and "restored fs target bytes os U i (fs(target \<mapsto> bytes))"
  using assms temp_path_not_target [of U target i k]
  by (auto simp: restored_def drop_temp_def fun_eq_iff)

lemma restore_bytes_spec:
  assumes "restore_bytes os U target i bytes fs = (r, fs')"
  shows "restored fs target bytes os U i fs' \<and> (r = Ok () \<longrightarrow> fs' = fs(target \<mapsto> bytes)) \<and> r \<noteq> Panic"
proof (cases "create_temp os U target i fs 0")
  case (Ok temp)
  from create_temp_Ok [OF Ok] obtain k where t: "fs temp = None" "k < TEMP_ATTEMPTS" "temp = temp_path U target i k"
    by blast
  note facts = restored_temp [where fs = fs and temp = temp and target = target, OF t]
  show ?thesis using assms
    by (auto simp: restore_bytes_def Ok facts Let_def split: option.splits)
next
  case (Err e)
  then show ?thesis using assms by (auto simp: restore_bytes_def restored_def)
qed (use create_temp_no_panic in blast)

section \<open>Undo\<close>

lemma mark_undone_spec:
  assumes "map_of rows i = Some row" "\<not> sr_undone row"
  obtains rows' where "mark_undone i rows = (True, rows')"
    "map_of rows' = (map_of rows)(i \<mapsto> row\<lparr>sr_undone := True\<rparr>)" "map fst rows' = map fst rows"
proof (rule that)
  let ?f = "\<lambda>(j, row). (j, if j = i then row\<lparr>sr_undone := True\<rparr> else row)"
  have "\<exists>(j, row) \<in> set rows. j = i \<and> \<not> sr_undone row"
    using assms by (intro bexI [of _ "(i, row)"]) (auto dest: map_of_SomeD)
  then show "mark_undone i rows = (True, map ?f rows)" by (simp add: mark_undone_def)
  have "map_of (map ?f rows) j = (if j = i then map_option (\<lambda>r. r\<lparr>sr_undone := True\<rparr>) (map_of rows i) else map_of rows j)" for j
    by (induction rows) auto
  then have "map_of (map ?f rows) j = ((map_of rows)(i \<mapsto> row\<lparr>sr_undone := True\<rparr>)) j" for j
    using assms(1) by simp
  then show "map_of (map ?f rows) = (map_of rows)(i \<mapsto> row\<lparr>sr_undone := True\<rparr>)" by blast
  show "map fst (map ?f rows) = map fst rows" by (simp add: split_beta o_def)
qed

definition sound_row :: "(byte list \<Rightarrow> byte list) \<Rightarrow> snapshot_row \<Rightarrow> bool" where
  "sound_row H row \<longleftrightarrow> length (sr_hash row) = HASH_LEN \<and>
     ContentHash (sr_hash row) = snapshot_digest H (sr_before row)"

lemma undo_read_Ok:
  "undo_read H env i rows = Ok (bytes, path) \<longleftrightarrow> ue_begin env = None \<and> ue_read env = None \<and>
     (\<exists>row. map_of rows i = Some row \<and> \<not> sr_undone row \<and> sound_row H row \<and>
        bytes = sr_before row \<and> path = sr_path row)"
  by (auto simp: undo_read_def fails_def read_row_def decode_snapshot_digest_def sound_row_def Let_def
      bind_outcome_Ok_iff split: option.splits if_splits)

lemma undo_mark_Ok:
  assumes "map_of rows i = Some row" "\<not> sr_undone row" "undo_mark env i rows = Ok rows'"
  shows "map_of rows' = (map_of rows)(i \<mapsto> row\<lparr>sr_undone := True\<rparr>) \<and> map fst rows' = map fst rows"
proof -
  obtain r where "mark_undone i rows = (True, r)"
    "map_of r = (map_of rows)(i \<mapsto> row\<lparr>sr_undone := True\<rparr>)" "map fst r = map fst rows"
    using mark_undone_spec [OF assms(1,2)] .
  then show ?thesis using assms(3) by (auto simp: undo_mark_def bind_outcome_Ok_iff)
qed

lemma undo_spec:
  "journal_undo H U env i j = (r, j') \<Longrightarrow>
   (case map_of (j_rows j) i of
      Some row \<Rightarrow>
        if \<not> sr_undone row \<and> sound_row H row
        then restored (j_files j) (sr_path row) (sr_before row) (ue_restore env) U i (j_files j') \<and>
          (r = Ok () \<longrightarrow> j_files j' = (j_files j)(sr_path row \<mapsto> sr_before row) \<and>
             map_of (j_rows j') = (map_of (j_rows j))(i \<mapsto> row\<lparr>sr_undone := True\<rparr>)) \<and>
          (r \<noteq> Ok () \<longrightarrow> j_rows j' = j_rows j)
        else r \<noteq> Ok () \<and> j' = j
    | None \<Rightarrow> r \<noteq> Ok () \<and> j' = j)"
proof -
  assume run: "journal_undo H U env i j = (r, j')"
  show ?thesis
  proof (cases "undo_read H env i (j_rows j)")
    case (Ok br)
    obtain bytes path where br: "br = (bytes, path)" by force
    from Ok br obtain row where row: "map_of (j_rows j) i = Some row" "\<not> sr_undone row" "sound_row H row"
      "bytes = sr_before row" "path = sr_path row" by (auto simp: undo_read_Ok)
    obtain q fs where q: "restore_bytes (ue_restore env) U path i bytes (j_files j) = (q, fs)" by force
    note sp = restore_bytes_spec [OF q]
    show ?thesis
    proof (cases "bind_outcome q (\<lambda>_. undo_mark env i (j_rows j))")
      case (Ok rows)
      then have "q = Ok ()" "undo_mark env i (j_rows j) = Ok rows" by (auto simp: bind_outcome_Ok_iff)
      then show ?thesis
        using run row sp undo_mark_Ok [OF row(1,2)] \<open>undo_read H env i (j_rows j) = Ok br\<close> br q Ok
        by (auto simp: journal_undo_def)
    qed (use run row sp Ok br q in \<open>auto simp: journal_undo_def\<close>)
  next
    case (Err e)
    then show ?thesis
      using run by (auto simp: journal_undo_def restored_def split: option.splits)
  next
    case Panic
    then show ?thesis
      using run by (auto simp: journal_undo_def restored_def split: option.splits)
  qed
qed

text \<open>
  C29. Whatever the operating system and the database answer, an undo that succeeds found the
  row unmarked and its bytes matching their digest, put exactly those bytes into the file of the
  row, changed no other file and marked this row only. An undo that fails changes no row, and no
  file but at most that one file, to those bytes, or a temporary file whose removal failed; of a
  row that is missing, marked or damaged it changes no file at all.
\<close>

theorem undo_restores_verified_bytes:
  "journal_undo H U env i j = (r, j') \<Longrightarrow>
   (case map_of (j_rows j) i of
      Some row \<Rightarrow>
        if \<not> sr_undone row \<and> sound_row H row
        then restored (j_files j) (sr_path row) (sr_before row) (ue_restore env) U i (j_files j') \<and>
          (r = Ok () \<longrightarrow> j_files j' = (j_files j)(sr_path row \<mapsto> sr_before row) \<and>
             map_of (j_rows j') = (map_of (j_rows j))(i \<mapsto> row\<lparr>sr_undone := True\<rparr>)) \<and>
          (r \<noteq> Ok () \<longrightarrow> j_rows j' = j_rows j)
        else r \<noteq> Ok () \<and> j' = j
    | None \<Rightarrow> r \<noteq> Ok () \<and> j' = j)"
  by (rule undo_spec)

definition quiet_restore :: restore_os where
  "quiet_restore = \<lparr>ro_create = (\<lambda>_. Created), ro_write = None, ro_sync = None, ro_rename = None,
     ro_open_dir = None, ro_remove = True\<rparr>"

definition quiet_undo :: undo_env where
  "quiet_undo = \<lparr>ue_begin = None, ue_read = None, ue_restore = quiet_restore, ue_mark = None, ue_commit = None\<rparr>"

lemma create_temp_quiet:
  assumes "fs (temp_path U target i k) = None" "n \<le> k" "k < TEMP_ATTEMPTS"
  shows "\<exists>t. create_temp quiet_restore U target i fs n = Ok t"
  using assms(2)
proof (induction "k - n" arbitrary: n)
  case 0
  then show ?case using assms by (subst create_temp.simps) (simp add: quiet_restore_def)
next
  case (Suc m)
  then have "\<exists>t. create_temp quiet_restore U target i fs (n + 1) = Ok t" by simp
  then show ?case using Suc assms(3) by (subst create_temp.simps) (simp add: quiet_restore_def Let_def)
qed

lemma restore_quiet:
  assumes "fs (temp_path U target i k) = None" "k < TEMP_ATTEMPTS"
  shows "restore_bytes quiet_restore U target i bytes fs = (Ok (), fs(target \<mapsto> bytes))"
proof -
  obtain t where t: "create_temp quiet_restore U target i fs 0 = Ok t"
    using create_temp_quiet [where fs = fs and n = 0, OF assms(1) _ assms(2)] by blast
  obtain r fs' where r: "restore_bytes quiet_restore U target i bytes fs = (r, fs')" by force
  then have "r = Ok ()" using t by (auto simp: restore_bytes_def quiet_restore_def Let_def)
  then show ?thesis using restore_bytes_spec [OF r] r by simp
qed

lemma undo_quiet:
  assumes "map_of (j_rows j) i = Some row" "\<not> sr_undone row" "sound_row H row"
    and "j_files j (temp_path U (sr_path row) i k) = None" "k < TEMP_ATTEMPTS"
  shows "\<exists>rows. journal_undo H U quiet_undo i j = (Ok (), \<lparr>j_rows = rows,
    j_files = (j_files j)(sr_path row \<mapsto> sr_before row)\<rparr>)"
proof -
  have r: "undo_read H quiet_undo i (j_rows j) = Ok (sr_before row, sr_path row)"
    using assms(1-3) by (simp add: undo_read_Ok quiet_undo_def)
  obtain rows' where "mark_undone i (j_rows j) = (True, rows')"
    using mark_undone_spec [OF assms(1,2)] by blast
  then have "undo_mark quiet_undo i (j_rows j) = Ok rows'"
    by (simp add: undo_mark_def quiet_undo_def fails_def)
  moreover have "restore_bytes (ue_restore quiet_undo) U (sr_path row) i (sr_before row) (j_files j)
      = (Ok (), (j_files j)(sr_path row \<mapsto> sr_before row))"
    using restore_quiet [where fs = "j_files j", OF assms(4,5)] by (simp add: quiet_undo_def)
  ultimately show ?thesis using r by (simp add: journal_undo_def)
qed

lemma undo_marked:
  assumes "map_of (j_rows j) i = Some row" "sr_undone row" "length (sr_hash row) = HASH_LEN"
  shows "journal_undo H U quiet_undo i j = (Err (AlreadyUndone i), j)"
  using assms
  by (simp add: journal_undo_def undo_read_def quiet_undo_def fails_def read_row_def decode_snapshot_digest_def)

section \<open>Taking a snapshot\<close>

lemma io_Ok [simp]: "io r = Ok x \<longleftrightarrow> r = Ok x"
  by (cases r) (simp_all add: io_def)

lemma path_text_Ok [simp]: "path_text p = Ok s \<longleftrightarrow> p = Utf8 s"
  by (cases p) (auto simp: path_text_def)

lemma fails_Ok [simp]: "fails f mk = Ok u \<longleftrightarrow> f = None"
  by (cases f) (simp_all add: fails_def)

lemma source_read_Ok:
  assumes "source_read os path = Ok (bytes, resolved)"
  shows "so_bytes os = Ok bytes \<and> so_canonical os = Ok resolved \<and>
    (\<exists>m n m' n'. so_opened os = Ok m \<and> so_named os = Ok n \<and> so_after os = Ok m' \<and> so_named_after os = Ok n' \<and>
       fm_is_file m \<and> fm_is_file n \<and> same_file m n \<and> same_file m m' \<and> same_file m' n')"
  using assms by (auto simp: source_read_def bind_outcome_Ok_iff split: if_splits)

lemma insert_snapshot_Ok:
  assumes "insert_snapshot U i name bytes digest rows = Ok rows'"
  shows "map_of rows i = None \<and> (\<exists>row. rows' = rows @ [(i, row)] \<and> \<not> sr_undone row \<and> sr_before row = bytes \<and>
    sr_path row = name \<and> sr_hash row = hash_bytes digest)"
  using assms by (auto simp: insert_snapshot_def Let_def map_of_eq_None_iff split: if_splits)

lemma journal_snapshot_Ok:
  assumes "journal_snapshot H U env path j = (Ok i, j')"
  obtains rows bytes name where "source_read (se_source env) path = Ok (bytes, Utf8 name)"
    "insert_snapshot U i name bytes (snapshot_digest H bytes) (j_rows j) = Ok rows"
    "i = se_id env" "j' = j\<lparr>j_rows := rows\<rparr>"
proof -
  let ?work = "\<lambda>(bytes, resolved). bind_outcome (path_text resolved) (\<lambda>name.
        bind_outcome (fails (se_begin env) J_Sqlite) (\<lambda>_.
        bind_outcome (fails (se_insert env) (\<lambda>e. J_Store (StoreSqlite e))) (\<lambda>_.
        bind_outcome (insert_snapshot U (se_id env) name bytes (snapshot_digest H bytes) (j_rows j)) (\<lambda>rows.
        bind_outcome (fails (se_commit env) J_Sqlite) (\<lambda>_. Ok rows)))))"
  obtain rows where r: "bind_outcome (source_read (se_source env) path) ?work = Ok rows"
    "i = se_id env" "j' = j\<lparr>j_rows := rows\<rparr>"
    using assms unfolding journal_snapshot_def Let_def by (auto split: outcome.splits)
  then obtain bytes resolved where b: "source_read (se_source env) path = Ok (bytes, resolved)" "?work (bytes, resolved) = Ok rows"
    by (auto simp: bind_outcome_Ok_iff)
  from b(2) obtain name where "resolved = Utf8 name"
    "insert_snapshot U (se_id env) name bytes (snapshot_digest H bytes) (j_rows j) = Ok rows"
    by (auto simp: bind_outcome_Ok_iff)
  then show ?thesis using that b(1) r(2,3) by simp
qed

lemma journal_snapshot_fails:
  assumes "journal_snapshot H U env path j = (r, j')" "\<not> is_Ok r"
  shows "j' = j"
  using assms unfolding journal_snapshot_def Let_def by (auto split: outcome.splits)

lemma snapshot_row_added:
  assumes "journal_snapshot H U env path j = (Ok i, j')"
  obtains row where "j_rows j' = j_rows j @ [(i, row)]" "map_of (j_rows j) i = None" "\<not> sr_undone row"
    "so_bytes (se_source env) = Ok (sr_before row)" "so_canonical (se_source env) = Ok (Utf8 (sr_path row))"
    "sr_hash row = hash_bytes (snapshot_digest H (sr_before row))" "j_files j' = j_files j"
proof -
  obtain rows bytes name where x: "source_read (se_source env) path = Ok (bytes, Utf8 name)"
    "insert_snapshot U i name bytes (snapshot_digest H bytes) (j_rows j) = Ok rows"
    "i = se_id env" "j' = j\<lparr>j_rows := rows\<rparr>"
    using assms by (rule journal_snapshot_Ok)
  then show ?thesis
    using source_read_Ok [OF x(1)] insert_snapshot_Ok [OF x(2)] that by auto
qed

text \<open>
  A snapshot that succeeds recorded bytes that were read from a regular file whose
  descriptor had the identity of the resolved name before and after the read, under that name, with
  their digest, as one new unmarked row; it changes no file. A snapshot that fails changes nothing.
\<close>

theorem snapshot_binds_bytes_to_name:
  "journal_snapshot H U env path j = (r, j') \<Longrightarrow>
   j_files j' = j_files j \<and>
   (case r of
      Ok i \<Rightarrow> i = se_id env \<and> map_of (j_rows j) i = None \<and>
        (\<exists>row bytes name m n m' n'. j_rows j' = j_rows j @ [(i, row)] \<and> \<not> sr_undone row \<and>
           sr_before row = bytes \<and> sr_path row = name \<and> sr_hash row = hash_bytes (snapshot_digest H bytes) \<and>
           so_bytes (se_source env) = Ok bytes \<and> so_canonical (se_source env) = Ok (Utf8 name) \<and>
           so_opened (se_source env) = Ok m \<and> so_named (se_source env) = Ok n \<and>
           so_after (se_source env) = Ok m' \<and> so_named_after (se_source env) = Ok n' \<and>
           fm_is_file m \<and> fm_is_file n \<and> same_file m n \<and> same_file m m' \<and> same_file m' n')
    | _ \<Rightarrow> j' = j)"
proof -
  assume run: "journal_snapshot H U env path j = (r, j')"
  show ?thesis
  proof (cases r)
    case (Ok i)
    obtain rows bytes name where x: "source_read (se_source env) path = Ok (bytes, Utf8 name)"
      "insert_snapshot U i name bytes (snapshot_digest H bytes) (j_rows j) = Ok rows"
      "i = se_id env" "j' = j\<lparr>j_rows := rows\<rparr>"
      using run unfolding Ok by (rule journal_snapshot_Ok)
    obtain row where row: "rows = j_rows j @ [(i, row)]" "\<not> sr_undone row" "sr_before row = bytes"
      "sr_path row = name" "sr_hash row = hash_bytes (snapshot_digest H bytes)" "map_of (j_rows j) i = None"
      using insert_snapshot_Ok [OF x(2)] by auto
    show ?thesis unfolding Ok using source_read_Ok [OF x(1)] x(3,4) row by simp
  qed (use journal_snapshot_fails [OF run] in simp_all)
qed

section \<open>Histories\<close>

datatype journal_op =
    Take snapshot_env os_path
  | Undo undo_env snapshot_id
  | Edit files

fun journal_apply :: "(byte list \<Rightarrow> byte list) \<Rightarrow> (ulid \<Rightarrow> string) \<Rightarrow> journal_op \<Rightarrow> journal \<Rightarrow> journal" where
  "journal_apply H U (Take env path) j = snd (journal_snapshot H U env path j)"
| "journal_apply H U (Undo env i) j = snd (journal_undo H U env i j)"
| "journal_apply H U (Edit fs) j = j\<lparr>j_files := fs\<rparr>"

fun undoes :: "(byte list \<Rightarrow> byte list) \<Rightarrow> (ulid \<Rightarrow> string) \<Rightarrow> snapshot_id \<Rightarrow> journal_op \<Rightarrow> journal \<Rightarrow> bool" where
  "undoes H U i (Undo env i') j \<longleftrightarrow> i' = i \<and> fst (journal_undo H U env i' j) = Ok ()"
| "undoes H U i _ j \<longleftrightarrow> False"

fun journal_run ::
    "(byte list \<Rightarrow> byte list) \<Rightarrow> (ulid \<Rightarrow> string) \<Rightarrow> snapshot_id \<Rightarrow> journal_op list \<Rightarrow> journal \<Rightarrow> nat \<times> journal" where
  "journal_run H U i [] j = (0, j)"
| "journal_run H U i (op # ops) j =
     (let (n, j') = journal_run H U i ops (journal_apply H U op j) in (n + (if undoes H U i op j then 1 else 0), j'))"

lemma journal_apply_row:
  assumes "map_of (j_rows j) i = Some row"
  shows "if undoes H U i op j then \<not> sr_undone row \<and>
      map_of (j_rows (journal_apply H U op j)) i = Some (row\<lparr>sr_undone := True\<rparr>)
    else map_of (j_rows (journal_apply H U op j)) i = Some row"
proof (cases op)
  case (Take env path)
  obtain r j' where r: "journal_snapshot H U env path j = (r, j')" by force
  show ?thesis
  proof (cases r)
    case (Ok k)
    from r obtain new where "j_rows j' = j_rows j @ [(k, new)]"
      unfolding Ok by (rule snapshot_row_added)
    then show ?thesis using assms Take r by (simp add: map_add_Some_iff)
  qed (use journal_snapshot_fails [OF r] assms Take r in simp_all)
next
  case (Undo env i')
  obtain r j' where r: "journal_undo H U env i' j = (r, j')" by force
  show ?thesis
  proof (cases "map_of (j_rows j) i'")
    case (Some row')
    then show ?thesis using undo_spec [OF r] assms Undo r
      by (cases "r = Ok ()") (auto split: if_splits)
  qed (use undo_spec [OF r] assms Undo r in auto)
qed (use assms in auto)

lemma journal_run_row:
  assumes "map_of (j_rows j) i = Some row" "journal_run H U i ops j = (n, j')"
  shows "(n = 0 \<longrightarrow> map_of (j_rows j') i = Some row) \<and> (0 < n \<longrightarrow> n = 1 \<and> \<not> sr_undone row \<and>
      map_of (j_rows j') i = Some (row\<lparr>sr_undone := True\<rparr>))"
  using assms
proof (induction ops arbitrary: j row n)
  case (Cons op ops)
  obtain m where m: "journal_run H U i ops (journal_apply H U op j) = (m, j')"
    "n = m + (if undoes H U i op j then 1 else 0)"
    using Cons.prems(2) by (auto simp: Let_def split: prod.splits)
  show ?case
  proof (cases "undoes H U i op j")
    case True
    then have "map_of (j_rows (journal_apply H U op j)) i = Some (row\<lparr>sr_undone := True\<rparr>)" "\<not> sr_undone row"
      using journal_apply_row [OF Cons.prems(1), of H U op] by simp_all
    with Cons.IH [OF this(1) m(1)] m(2) True show ?thesis by auto
  next
    case False
    then have "map_of (j_rows (journal_apply H U op j)) i = Some row"
      using journal_apply_row [OF Cons.prems(1), of H U op] by simp
    with Cons.IH [OF this m(1)] m(2) False show ?thesis by simp
  qed
qed simp

text \<open>
  C9. A snapshot is undone exactly once: whatever runs after it was taken, snapshots and undos of
  any file with any failures, and edits by anyone, at most one undo of it succeeds. While none has,
  an undo that nothing disturbs (and that finds one of its temporary names free) writes the bytes
  read when the snapshot was taken; after one has, it is refused and changes nothing.
\<close>

theorem snapshot_undone_exactly_once:
  assumes "\<forall>m. length (H m) = HASH_LEN"
    and "journal_snapshot H U env path j0 = (Ok i, j)"
    and "so_canonical (se_source env) = Ok (Utf8 name)" "so_bytes (se_source env) = Ok bytes"
    and "journal_run H U i ops j = (n, j')"
    and "k < TEMP_ATTEMPTS" "j_files j' (temp_path U name i k) = None"
  shows "n \<le> 1 \<and>
    (n = 0 \<longrightarrow> fst (journal_undo H U quiet_undo i j') = Ok () \<and>
       j_files (snd (journal_undo H U quiet_undo i j')) = (j_files j')(name \<mapsto> bytes)) \<and>
    (n = 1 \<longrightarrow> journal_undo H U quiet_undo i j' = (Err (AlreadyUndone i), j'))"
proof -
  obtain row where row: "map_of (j_rows j) i = Some row" "\<not> sr_undone row" "sr_before row = bytes" "sr_path row = name"
    "sr_hash row = hash_bytes (snapshot_digest H bytes)"
  proof -
    from assms(2) obtain row where "j_rows j = j_rows j0 @ [(i, row)]" "map_of (j_rows j0) i = None" "\<not> sr_undone row"
      "so_bytes (se_source env) = Ok (sr_before row)" "so_canonical (se_source env) = Ok (Utf8 (sr_path row))"
      "sr_hash row = hash_bytes (snapshot_digest H (sr_before row))" by (rule snapshot_row_added)
    then show ?thesis using that [of row] assms(3,4) by (simp add: map_add_Some_iff)
  qed
  have sound: "sound_row H row" using row assms(1) by (simp add: sound_row_def snapshot_digest_def hash_of_def)
  note at = journal_run_row [OF row(1) assms(5)]
  show ?thesis
  proof (cases "n = 0")
    case True
    then have "map_of (j_rows j') i = Some row" using at by simp
    from undo_quiet [OF this row(2) sound, of U k] show ?thesis using True assms(6,7) row(3,4) by auto
  next
    case False
    then have one: "n = 1" and m: "map_of (j_rows j') i = Some (row\<lparr>sr_undone := True\<rparr>)" using at by simp_all
    show ?thesis using undo_marked [OF m] sound one by (simp add: sound_row_def)
  qed
qed


section \<open>Concrete runs\<close>

definition test_H :: "byte list \<Rightarrow> byte list" where "test_H m = replicate 32 (word_of_nat (length m))"
definition test_U :: "ulid \<Rightarrow> string" where "test_U u = replicate 26 (CHR ''0'')"

definition test_meta :: file_meta where "test_meta = \<lparr>fm_dev = 1, fm_ino = 2, fm_is_file = True\<rparr>"

definition test_env :: snapshot_env where
  "test_env = \<lparr>se_source = \<lparr>so_open = Ok (), so_opened = Ok test_meta, so_canonical = Ok (Utf8 ''/d/f''),
       so_named = Ok test_meta, so_bytes = Ok [1, 2], so_after = Ok test_meta, so_named_after = Ok test_meta\<rparr>,
     se_id = SnapshotId 1, se_begin = None, se_insert = None, se_commit = None\<rparr>"

definition test_row :: snapshot_row where
  "test_row = \<lparr>sr_path = ''/d/f'', sr_before = [1, 2], sr_hash = hash_bytes (snapshot_digest test_H [1, 2]),
     sr_byte_len = 2, sr_created_at = 0, sr_undone = False\<rparr>"

definition test_journal :: journal where
  "test_journal = \<lparr>j_rows = [], j_files = [''/d/f'' \<mapsto> [1, 2]]\<rparr>"

lemma test_H_length: "\<forall>m. length (test_H m) = HASH_LEN"
  by (simp add: test_H_def HASH_LEN_def)

lemma test_snapshot:
  "journal_snapshot test_H test_U test_env (Utf8 ''f'') test_journal =
     (Ok (SnapshotId 1), test_journal\<lparr>j_rows := [(SnapshotId 1, test_row)]\<rparr>)"
proof -
  have h: "length (hash_bytes (snapshot_digest test_H [1, 2])) = 32"
    using test_H_length by (simp add: snapshot_digest_def hash_of_def HASH_LEN_def)
  show ?thesis
    by (simp add: journal_snapshot_def Let_def test_env_def source_read_def io_def test_meta_def same_file_def
        path_text_def fails_def insert_snapshot_def test_journal_def snapshot_check_def test_row_def h test_U_def
        i64_max_def ulid_timestamp_ms_def)
qed

lemma snapshot_binds_bytes_to_name_witness:
  "j_files (snd (journal_snapshot test_H test_U test_env (Utf8 ''f'') test_journal)) = [''/d/f'' \<mapsto> [1, 2]] \<and>
   (\<exists>row. so_bytes (se_source test_env) = Ok (sr_before row) \<and>
     j_rows (snd (journal_snapshot test_H test_U test_env (Utf8 ''f'') test_journal)) = [(SnapshotId 1, row)])"
proof -
  have j: "j_files test_journal = [''/d/f'' \<mapsto> [1, 2]]" "j_rows test_journal = []" by (simp_all add: test_journal_def)
  show ?thesis using snapshot_binds_bytes_to_name [OF test_snapshot] by (auto simp: test_snapshot j)
qed

lemma test_row_sound: "sound_row test_H test_row"
  using test_H_length by (simp add: sound_row_def test_row_def snapshot_digest_def hash_of_def)

lemma undo_restores_verified_bytes_witness:
  "restored [''/d/f'' \<mapsto> [9]] ''/d/f'' [1, 2] quiet_restore test_U (SnapshotId 1)
     (j_files (snd (journal_undo test_H test_U quiet_undo (SnapshotId 1)
        \<lparr>j_rows = [(SnapshotId 1, test_row)], j_files = [''/d/f'' \<mapsto> [9]]\<rparr>)))"
proof -
  have row: "\<not> sr_undone test_row" "sr_path test_row = ''/d/f''" "sr_before test_row = [1, 2]"
    by (simp_all add: test_row_def)
  show ?thesis
    using undo_restores_verified_bytes [OF prod.collapse [symmetric],
        of test_H test_U quiet_undo "SnapshotId 1"
           "\<lparr>j_rows = [(SnapshotId 1, test_row)], j_files = [''/d/f'' \<mapsto> [9]]\<rparr>"]
      row test_row_sound
    by (simp add: quiet_undo_def)
qed

lemma snapshot_undone_exactly_once_witness:
  "fst (journal_undo test_H test_U quiet_undo (SnapshotId 1)
     \<lparr>j_rows = [(SnapshotId 1, test_row)], j_files = [''/d/f'' \<mapsto> [7, 7, 7]]\<rparr>) = Ok ()"
proof -
  let ?j = "test_journal\<lparr>j_rows := [(SnapshotId 1, test_row)]\<rparr>"
  have run: "journal_run test_H test_U (SnapshotId 1) [Edit [''/d/f'' \<mapsto> [7, 7, 7]]] ?j =
      (0, \<lparr>j_rows = [(SnapshotId 1, test_row)], j_files = [''/d/f'' \<mapsto> [7, 7, 7]]\<rparr>)"
    by (simp add: test_journal_def)
  have env: "so_canonical (se_source test_env) = Ok (Utf8 ''/d/f'')" "so_bytes (se_source test_env) = Ok [1, 2]"
    by (simp_all add: test_env_def)
  have temp: "(0::nat) < TEMP_ATTEMPTS"
    "j_files \<lparr>j_rows = [(SnapshotId 1, test_row)], j_files = [''/d/f'' \<mapsto> [7, 7, 7]]\<rparr>
       (temp_path test_U ''/d/f'' (SnapshotId 1) 0) = None"
    using temp_path_not_target [of test_U "''/d/f''" "SnapshotId 1" 0] by (simp_all add: TEMP_ATTEMPTS_def)
  show ?thesis
    using snapshot_undone_exactly_once [OF test_H_length test_snapshot env run temp] by simp
qed

section \<open>Reports\<close>

text \<open>A path that cannot be resolved, as that of a deleted file, is an error and not an empty report.\<close>

lemma newest_of_unresolved_path: "newest_for_path fault (Err e) j = Err (J_Io e)"
  by (simp add: newest_for_path_def resolved_path_text_def io_def)

text \<open>The newest row is unmarked, of the path, and no unmarked row of the path is younger.\<close>

lemma newest_row_newest:
  assumes "newest_row path rows = Ok (Some report)"
  shows "\<exists>row. (rp_snapshot report, row) \<in> set rows \<and> sr_path row = path \<and> \<not> sr_undone row \<and>
    (\<forall>i' row'. (i', row') \<in> set rows \<longrightarrow> sr_path row' = path \<longrightarrow> \<not> sr_undone row' \<longrightarrow>
      row_key (i', row') \<le> row_key (rp_snapshot report, row))"
proof -
  obtain i row where r: "max_by_key row_key (filter (\<lambda>(_, row). sr_path row = path \<and> \<not> sr_undone row) rows) = Some (i, row)"
    "rp_snapshot report = i"
    using assms by (auto simp: newest_row_def bind_outcome_Ok_iff decode_row_def split: option.splits if_splits)
  show ?thesis using max_by_key_Some [OF r(1)] r(2) by (intro exI [of _ row]) auto
qed

end
