(* ===== verification/Canonical.thy ===== *)
theory Canonical
  imports Json Hashing "HOL-Library.Product_Lexorder"
begin

text \<open>
  \<open>crates/supra_llm/src/canonical.rs\<close>: the canonical text of tool arguments. Values are checked
  and emitted with sorted keys; the text form of a string is serde's, a parameter of which only
  unique readability is relied on. The scanner for repeated keys is in \<open>Key_Scan\<close>.
\<close>

section \<open>Checking and emitting values\<close>

datatype path_step = Index nat | Key string

datatype canonical_error =
    C_Float "path_step list"
  | C_DuplicateKey string "path_step list"
  | C_Invalid string
  | C_NumberOutOfRange "path_step list"

function (sequential) check :: "json \<Rightarrow> path_step list \<Rightarrow> (unit, canonical_error) outcome"
  and check_items :: "nat \<Rightarrow> json list \<Rightarrow> path_step list \<Rightarrow> (unit, canonical_error) outcome"
  and check_members :: "(string \<times> json) list \<Rightarrow> path_step list \<Rightarrow> (unit, canonical_error) outcome" where
  "check JNull path = Ok ()"
| "check (JBool b) path = Ok ()"
| "check (JNumber n) path =
     (if is_f64 n then Err (C_Float path)
      else if is_i64 n \<or> is_u64 n then Ok ()
      else Err (C_NumberOutOfRange path))"
| "check (JString s) path = Ok ()"
| "check (JArray items) path = check_items 0 items path"
| "check (JObject m) path = check_members m path"
| "check_items i [] path = Ok ()"
| "check_items i (v # vs) path =
     bind_outcome (check v (path @ [Index i])) (\<lambda>_. check_items (i + 1) vs path)"
| "check_members [] path = Ok ()"
| "check_members ((k, v) # m) path =
     bind_outcome (check v (path @ [Key k])) (\<lambda>_. check_members m path)"
  by pat_completeness auto
termination
  by (relation "measure (\<lambda>x. case x of Inl (v, _) \<Rightarrow> size v
      | Inr (Inl (_, vs, _)) \<Rightarrow> size_list size vs | Inr (Inr (m, _)) \<Rightarrow> size_list (\<lambda>kv. Suc (size (snd kv))) m)")
    (auto simp: size_prod_simp)

definition number_text :: "json_number \<Rightarrow> string" where
  "number_text n = (case n of
     PosInt k \<Rightarrow> show_nat k
   | NegInt i \<Rightarrow> CHR ''-'' # show_nat (nat (- i))
   | Float s \<Rightarrow> s)"

fun commas :: "string list \<Rightarrow> string" where
  "commas [] = []"
| "commas [x] = x"
| "commas (x # y # xs) = x @ CHR '','' # commas (y # xs)"

text \<open>A map has one value for a key, so sorting its members is sorting its keys.\<close>

function json_emit :: "(string \<Rightarrow> string) \<Rightarrow> json \<Rightarrow> string" where
  "json_emit esc JNull = ''null''"
| "json_emit esc (JBool b) = (if b then ''true'' else ''false'')"
| "json_emit esc (JNumber n) = number_text n"
| "json_emit esc (JString s) = esc s"
| "json_emit esc (JArray items) = CHR ''['' # commas (map (json_emit esc) items) @ '']''"
| "json_emit esc (JObject m) = CHR ''{'' #
     commas (map (\<lambda>kv. esc (fst kv) @ CHR '':'' # json_emit esc (snd kv)) (sort_key fst m)) @ ''}''"
  by pat_completeness auto
termination
proof (relation "measure (size \<circ> snd)", goal_cases)
  case (2 esc items v)
  then show ?case by (induction items) auto
next
  case (3 esc m kv)
  then have "kv \<in> set m" by simp
  then have "size (snd kv) < Suc (size_list (size_prod (\<lambda>_. 0) size) m)" by (induction m) auto
  then show ?case by (simp add: size_list_def)
qed simp

definition canonicalize_value :: "(string \<Rightarrow> string) \<Rightarrow> json \<Rightarrow> (string, canonical_error) outcome" where
  "canonicalize_value esc v = bind_outcome (check v []) (\<lambda>_. Ok (json_emit esc v))"

section \<open>Which values are accepted\<close>

text \<open>The numbers that \<open>serde_json\<close> builds: 64 bits, and negative where they are signed.\<close>

fun number_ok :: "json_number \<Rightarrow> bool" where
  "number_ok (PosInt n) \<longleftrightarrow> n \<le> u64_max"
| "number_ok (NegInt i) \<longleftrightarrow> i64_min \<le> i \<and> i < 0"
| "number_ok (Float _) \<longleftrightarrow> True"

fun float_free :: "json \<Rightarrow> bool" where
  "float_free (JNumber n) \<longleftrightarrow> \<not> is_f64 n"
| "float_free (JArray items) \<longleftrightarrow> list_all float_free items"
| "float_free (JObject m) \<longleftrightarrow> list_all (\<lambda>kv. float_free (snd kv)) m"
| "float_free _ \<longleftrightarrow> True"

fun numbers_ok :: "json \<Rightarrow> bool" where
  "numbers_ok (JNumber n) \<longleftrightarrow> number_ok n"
| "numbers_ok (JArray items) \<longleftrightarrow> list_all numbers_ok items"
| "numbers_ok (JObject m) \<longleftrightarrow> list_all (\<lambda>kv. numbers_ok (snd kv)) m"
| "numbers_ok _ \<longleftrightarrow> True"

lemma check_cases:
  "if float_free v then check v path = Ok () else \<exists>p. check v path = Err (C_Float p)"
  "if list_all float_free vs then check_items i vs path = Ok () else \<exists>p. check_items i vs path = Err (C_Float p)"
  "if list_all (\<lambda>kv. float_free (snd kv)) m then check_members m path = Ok ()
   else \<exists>p. check_members m path = Err (C_Float p)"
proof (induction v path and i vs path and m path rule: check_check_items_check_members.induct)
  case (3 n path)
  then show ?case by (cases n) auto
qed (auto split: if_splits)

section \<open>Canonical texts and values\<close>

text \<open>The value up to the order of the members of its objects.\<close>

function normal :: "json \<Rightarrow> json" where
  "normal JNull = JNull"
| "normal (JBool b) = JBool b"
| "normal (JNumber n) = JNumber n"
| "normal (JString s) = JString s"
| "normal (JArray items) = JArray (map normal items)"
| "normal (JObject m) = JObject (map (\<lambda>kv. (fst kv, normal (snd kv))) (sort_key fst m))"
  by pat_completeness auto
termination
proof (relation "measure size", goal_cases)
  case (2 items v)
  then show ?case by (induction items) auto
next
  case (3 m kv)
  then have "kv \<in> set m" by simp
  then have "size (snd kv) < Suc (size_list (size_prod (\<lambda>_. 0) size) m)" by (induction m) auto
  then show ?case by (simp add: size_list_def)
qed simp

text \<open>What is relied on of serde's string texts: quoted, and none extends another.\<close>

definition quoting :: "(string \<Rightarrow> string) \<Rightarrow> bool" where
  "quoting esc \<longleftrightarrow> (\<forall>s. \<exists>t. esc s = CHR 0x22 # t) \<and>
     (\<forall>s t r r'. esc s @ r = esc t @ r' \<longrightarrow> s = t \<and> r = r')"

lemma number_text_split:
  assumes "number_text m @ r = number_text n @ r'" "stops r" "stops r'"
    and "number_ok m" "\<not> is_f64 m" "number_ok n" "\<not> is_f64 n"
  shows "m = n \<and> r = r'"
proof -
  have minus: "CHR ''-'' # w \<noteq> show_nat k @ w'" for w w' k
  proof
    assume e: "CHR ''-'' # w = show_nat k @ w'"
    obtain c t where c: "show_nat k = c # t" by (cases "show_nat k") auto
    then have "is_digit c" using show_nat_digits [of k] by simp
    then show False using e c by (auto simp: is_digit_def)
  qed
  show ?thesis
  proof (cases m)
    case m: (PosInt k)
    show ?thesis
    proof (cases n)
      case (PosInt l)
      with m show ?thesis using assms(1) show_nat_split [OF _ assms(2,3), of k l] by (simp add: number_text_def)
    next
      case (NegInt j)
      then show ?thesis using assms(1) m minus [of "show_nat (nat (- j)) @ r'" k r] by (simp add: number_text_def)
    qed (use assms(7) in simp)
  next
    case m: (NegInt i)
    show ?thesis
    proof (cases n)
      case (PosInt l)
      then show ?thesis using assms(1) m minus [of "show_nat (nat (- i)) @ r" l r'] by (simp add: number_text_def)
    next
      case (NegInt j)
      then have "nat (- i) = nat (- j) \<and> r = r'"
        using assms(1) m show_nat_split [OF _ assms(2,3), of "nat (- i)" "nat (- j)"] by (simp add: number_text_def)
      then show ?thesis using assms(4,6) m NegInt by auto
    qed (use assms(7) in simp)
  qed (use assms(5) in simp)
qed

lemma commas_split:
  assumes "\<forall>x \<in> set xs. \<forall>y \<in> set ys. \<forall>r r'. stops r \<longrightarrow> stops r' \<longrightarrow> f x @ r = f y @ r' \<longrightarrow> g x = g y \<and> r = r'"
    and "\<forall>x \<in> set xs \<union> set ys. \<exists>c t. f x = c # t \<and> c \<noteq> close"
    and "\<not> is_digit close" "close \<noteq> CHR '','' "
    and "commas (map f xs) @ close # r = commas (map f ys) @ close # r'"
  shows "map g xs = map g ys \<and> r = r'"
  using assms(1,2,5)
proof (induction "map f xs" arbitrary: xs ys rule: commas.induct)
  case 1
  then have xs: "xs = []" by simp
  show ?case
  proof (cases ys)
    case (Cons y ys')
    then have "\<exists>c t. f y = c # t \<and> c \<noteq> close" using 1(3) by simp
    then obtain c t where c: "f y = c # t" "c \<noteq> close" by blast
    have "commas (map f ys) = f y @ drop (length (f y)) (commas (map f ys))"
      using Cons by (cases ys') simp_all
    then have "close # r = f y @ drop (length (f y)) (commas (map f ys)) @ close # r'"
      using 1(4) xs by simp
    then show ?thesis using c by simp
  qed (use 1(4) xs in simp)
next
  case (2 fx)
  then obtain x where x: "xs = [x]" by auto
  show ?case
  proof (cases ys)
    case Nil
    obtain c t where "f x = c # t" "c \<noteq> close" using 2(3) x by auto
    then show ?thesis using 2(4) x Nil by auto
  next
    case (Cons y ys')
    show ?thesis
    proof (cases ys')
      case Nil
      then have "f x @ close # r = f y @ close # r'" using 2(4) x Cons by simp
      moreover have "stops (close # r)" "stops (close # r')" using assms(3) by simp_all
      moreover have "\<forall>r r'. stops r \<longrightarrow> stops r' \<longrightarrow> f x @ r = f y @ r' \<longrightarrow> g x = g y \<and> r = r'"
        using 2(2) x Cons by simp
      ultimately have "g x = g y \<and> close # r = close # r'" by blast
      then show ?thesis using x Cons Nil by simp
    next
      case (Cons y' ys'')
      then have "f x @ close # r = f y @ CHR '','' # commas (map f ys') @ close # r'"
        using 2(4) x \<open>ys = y # ys'\<close> by simp
      moreover have "stops (close # r)" "stops (CHR '','' # commas (map f ys') @ close # r')"
        using assms(3) by (simp_all add: is_digit_def)
      moreover have "\<forall>r r'. stops r \<longrightarrow> stops r' \<longrightarrow> f x @ r = f y @ r' \<longrightarrow> g x = g y \<and> r = r'"
        using 2(2) x \<open>ys = y # ys'\<close> by simp
      ultimately have "close # r = CHR '','' # commas (map f ys') @ close # r'" by blast
      then show ?thesis using assms(4) by simp
    qed
  qed
next
  case (3 fx fx' fxs)
  then obtain x x' xs' where x: "xs = x # x' # xs'" "fxs = map f xs'" "fx' = f x'" by auto
  show ?case
  proof (cases ys)
    case Nil
    obtain c t where "f x = c # t" "c \<noteq> close" using 3(4) x by auto
    then show ?thesis using 3(5) x Nil by auto
  next
    case (Cons y ys')
    have item: "\<forall>r r'. stops r \<longrightarrow> stops r' \<longrightarrow> f x @ r = f y @ r' \<longrightarrow> g x = g y \<and> r = r'"
      using 3(3) x Cons by simp
    have left: "commas (map f xs) @ close # r = f x @ CHR '','' # commas (map f (x' # xs')) @ close # r"
      using x by simp
    have sl: "stops (CHR '','' # commas (map f (x' # xs')) @ close # r)" by (simp add: is_digit_def)
    show ?thesis
    proof (cases ys')
      case Nil
      have "f x @ CHR '','' # commas (map f (x' # xs')) @ close # r = f y @ close # r'"
        using 3(5) left Cons Nil by simp
      moreover have "stops (close # r')" using assms(3) by simp
      ultimately have "CHR '','' # commas (map f (x' # xs')) @ close # r = close # r'"
        using item sl by blast
      then show ?thesis using assms(4) by simp
    next
      case (Cons y' ys'')
      have eq: "f x @ CHR '','' # commas (map f (x' # xs')) @ close # r =
          f y @ CHR '','' # commas (map f ys') @ close # r'"
        using 3(5) left \<open>ys = y # ys'\<close> Cons by simp
      have "stops (CHR '','' # commas (map f ys') @ close # r')" by (simp add: is_digit_def)
      then have one: "g x = g y" "commas (map f (x' # xs')) @ close # r = commas (map f ys') @ close # r'"
        using eq item sl by blast+
      have "map g (x' # xs') = map g ys' \<and> r = r'"
        by (rule 3(1)) (use x \<open>ys = y # ys'\<close> 3(3,4) one(2) in auto)
      then show ?thesis using one(1) x \<open>ys = y # ys'\<close> by simp
    qed
  qed
qed

fun leads :: "json \<Rightarrow> char \<Rightarrow> bool" where
  "leads JNull c \<longleftrightarrow> c = CHR ''n''"
| "leads (JBool b) c \<longleftrightarrow> c = (if b then CHR ''t'' else CHR ''f'')"
| "leads (JNumber n) c \<longleftrightarrow> is_digit c \<or> c = CHR ''-''"
| "leads (JString s) c \<longleftrightarrow> c = CHR 0x22"
| "leads (JArray items) c \<longleftrightarrow> c = CHR ''[''"
| "leads (JObject m) c \<longleftrightarrow> c = CHR ''{''"

lemma quoted: "quoting esc \<Longrightarrow> \<exists>t. esc s = CHR 0x22 # t"
  unfolding quoting_def by blast

lemma emit_leads:
  assumes "quoting esc" "float_free v"
  shows "\<exists>c t. json_emit esc v = c # t \<and> leads v c"
proof (cases v)
  case (JNumber n)
  have "\<exists>c t. show_nat k = c # t \<and> is_digit c" for k
    using show_nat_digits [of k] by (cases "show_nat k") auto
  then have "\<exists>c t. number_text n = c # t \<and> (is_digit c \<or> c = CHR ''-'')"
    using JNumber assms(2) by (cases n) (fastforce simp: number_text_def)+
  then show ?thesis using JNumber by simp
next
  case (JString s)
  then show ?thesis using quoted [OF assms(1), of s] by auto
qed auto

lemma leads_digits: "\<not> is_digit CHR ''n''" "\<not> is_digit CHR ''t''" "\<not> is_digit CHR ''f''" "\<not> is_digit CHR 0x22"
    "\<not> is_digit CHR ''[''" "\<not> is_digit CHR ''{''" "\<not> is_digit CHR '']''" "\<not> is_digit CHR ''}''" "\<not> is_digit CHR '':''"
  by (simp_all add: is_digit_def)

lemma leads_not_close: "leads v c \<Longrightarrow> c \<noteq> CHR '']''"
  by (cases v) (auto simp: is_digit_def)

lemma same_lead:
  assumes "quoting esc" "float_free v" "float_free w" "json_emit esc v @ r = json_emit esc w @ r'"
  obtains c where "leads v c" "leads w c"
  using emit_leads [OF assms(1,2)] emit_leads [OF assms(1,3)] assms(4) that by auto

lemma emit_split:
  assumes "quoting esc"
  shows "float_free v \<Longrightarrow> numbers_ok v \<Longrightarrow> float_free w \<Longrightarrow> numbers_ok w \<Longrightarrow> stops r \<Longrightarrow> stops r' \<Longrightarrow>
    json_emit esc v @ r = json_emit esc w @ r' \<Longrightarrow> normal v = normal w \<and> r = r'"
proof (induction v arbitrary: w r r' rule: normal.induct)
  case 1
  obtain c where c: "leads JNull c" "leads w c" using same_lead [OF assms 1(1,3,7)] .
  then have "w = JNull" by (cases w) (auto simp: leads_digits split: if_splits)
  then show ?case using 1 by simp
next
  case (2 b)
  obtain c where c: "leads (JBool b) c" "leads w c" using same_lead [OF assms 2(1,3,7)] .
  then have "w = JBool b" by (cases w) (auto simp: leads_digits split: if_splits)
  then show ?case using 2 by simp
next
  case (3 n)
  obtain c where c: "leads (JNumber n) c" "leads w c" using same_lead [OF assms 3(1,3,7)] .
  then obtain k where k: "w = JNumber k" by (cases w) (auto simp: leads_digits split: if_splits)
  then have "number_text n @ r = number_text k @ r'" using 3(7) by simp
  then have "n = k \<and> r = r'" using number_text_split [OF _ 3(5,6)] 3(1-4) k by simp
  then show ?case using k by simp
next
  case (4 s)
  obtain c where c: "leads (JString s) c" "leads w c" using same_lead [OF assms 4(1,3,7)] .
  then obtain k where k: "w = JString k" by (cases w) (auto simp: leads_digits split: if_splits)
  then have "esc s @ r = esc k @ r'" using 4(7) by simp
  then have "s = k \<and> r = r'" using assms unfolding quoting_def by blast
  then show ?case using k by simp
next
  case (5 xs)
  obtain c where c: "leads (JArray xs) c" "leads w c" using same_lead [OF assms 5(2,4,8)] .
  then obtain ys where w: "w = JArray ys" by (cases w) (auto simp: leads_digits split: if_splits)
  have ok: "\<forall>v \<in> set xs. float_free v \<and> numbers_ok v" "\<forall>v \<in> set ys. float_free v \<and> numbers_ok v"
    using 5(2-5) w by (auto simp: list_all_iff)
  have "map normal xs = map normal ys \<and> r = r'"
  proof (rule commas_split [where f = "json_emit esc" and close = "CHR '']''"])
    show "\<forall>x \<in> set xs. \<forall>y \<in> set ys. \<forall>r r'. stops r \<longrightarrow> stops r' \<longrightarrow> json_emit esc x @ r = json_emit esc y @ r' \<longrightarrow>
        normal x = normal y \<and> r = r'"
      using 5(1) ok by blast
    show "\<forall>x \<in> set xs \<union> set ys. \<exists>c t. json_emit esc x = c # t \<and> c \<noteq> CHR '']''"
      using emit_leads [OF assms] ok leads_not_close by blast
    show "commas (map (json_emit esc) xs) @ CHR '']'' # r = commas (map (json_emit esc) ys) @ CHR '']'' # r'"
      using 5(8) w by simp
  qed (simp_all add: is_digit_def)
  then show ?case using w by simp
next
  case (6 m)
  obtain c where c: "leads (JObject m) c" "leads w c" using same_lead [OF assms 6(2,4,8)] .
  then obtain n where w: "w = JObject n" by (cases w) (auto simp: leads_digits split: if_splits)
  let ?f = "\<lambda>kv. esc (fst kv) @ CHR '':'' # json_emit esc (snd kv)"
  let ?g = "\<lambda>kv. (fst kv, normal (snd kv))"
  have ok: "\<forall>kv \<in> set (sort_key fst m). float_free (snd kv) \<and> numbers_ok (snd kv)"
    "\<forall>kv \<in> set (sort_key fst n). float_free (snd kv) \<and> numbers_ok (snd kv)"
    using 6(2-5) w by (auto simp: list_all_iff)
  have "map ?g (sort_key fst m) = map ?g (sort_key fst n) \<and> r = r'"
  proof (rule commas_split [where f = ?f and close = "CHR ''}''"])
    show "\<forall>x \<in> set (sort_key fst m). \<forall>y \<in> set (sort_key fst n). \<forall>r r'. stops r \<longrightarrow> stops r' \<longrightarrow>
        ?f x @ r = ?f y @ r' \<longrightarrow> ?g x = ?g y \<and> r = r'"
    proof (intro ballI allI impI)
      fix x y r r' assume x: "x \<in> set (sort_key fst m)" and y: "y \<in> set (sort_key fst n)" and s: "stops r" "stops r'"
        and e: "?f x @ r = ?f y @ r'"
      then have "esc (fst x) @ CHR '':'' # json_emit esc (snd x) @ r = esc (fst y) @ CHR '':'' # json_emit esc (snd y) @ r'"
        by simp
      then have e2: "fst x = fst y" "json_emit esc (snd x) @ r = json_emit esc (snd y) @ r'"
        using assms unfolding quoting_def by (metis list.inject)+
      then show "?g x = ?g y \<and> r = r'" using 6(1) [OF x _ _ _ _ s e2(2)] ok x y by auto
    qed
    show "\<forall>x \<in> set (sort_key fst m) \<union> set (sort_key fst n). \<exists>c t. ?f x = c # t \<and> c \<noteq> CHR ''}''"
    proof
      fix x :: "string \<times> json"
      obtain t where "esc (fst x) = CHR 0x22 # t" using quoted [OF assms] by blast
      then show "\<exists>c t. ?f x = c # t \<and> c \<noteq> CHR ''}''" by simp
    qed
    show "commas (map ?f (sort_key fst m)) @ CHR ''}'' # r = commas (map ?f (sort_key fst n)) @ CHR ''}'' # r'"
      using 6(8) w by simp
  qed (simp_all add: is_digit_def)
  then show ?case using w by simp
qed

lemma map_eq_transfer:
  "map g xs = map g ys \<Longrightarrow> (\<And>x y. x \<in> set xs \<Longrightarrow> g x = g y \<Longrightarrow> f x = f y) \<Longrightarrow> map f xs = map f ys"
proof (induction xs arbitrary: ys)
  case (Cons x xs)
  then obtain y ys' where ys: "ys = y # ys'" "g x = g y" "map g xs = map g ys'" by auto
  have "map f xs = map f ys'" by (rule Cons.IH [OF ys(3)]) (use Cons.prems(2) in auto)
  then show ?case using ys Cons.prems(2) [of x y] by simp
qed simp

lemma emit_normal: "normal v = normal w \<Longrightarrow> json_emit esc v = json_emit esc w"
proof (induction v arbitrary: w rule: normal.induct)
  case (5 xs)
  then obtain ys where w: "w = JArray ys" "map normal xs = map normal ys" by (cases w) auto
  have "map (json_emit esc) xs = map (json_emit esc) ys"
    by (rule map_eq_transfer [OF w(2)]) (use 5(1) in blast)
  then show ?case using w(1) by simp
next
  case (6 m)
  let ?g = "\<lambda>kv. (fst kv, normal (snd kv))"
  obtain n where w: "w = JObject n" "map ?g (sort_key fst m) = map ?g (sort_key fst n)" using 6(2) by (cases w) auto
  have "map (\<lambda>kv. esc (fst kv) @ CHR '':'' # json_emit esc (snd kv)) (sort_key fst m) =
      map (\<lambda>kv. esc (fst kv) @ CHR '':'' # json_emit esc (snd kv)) (sort_key fst n)"
    by (rule map_eq_transfer [OF w(2)]) (use 6(1) in simp)
  then show ?case using w(1) by simp
qed (case_tac w; simp)+

text \<open>
  C30. A value is accepted exactly when no number in it, at any depth, is a float, and two accepted
  values have the same canonical text exactly when they differ in nothing but the order of the
  members of their objects.
\<close>

theorem canonical_text_determines_value:
  assumes "quoting esc" "numbers_ok v" "numbers_ok w"
  shows "(is_Ok (canonicalize_value esc v) \<longleftrightarrow> float_free v) \<and>
    (float_free v \<longrightarrow> float_free w \<longrightarrow>
      (canonicalize_value esc v = canonicalize_value esc w \<longleftrightarrow> normal v = normal w))"
proof -
  have c: "check u [] = Ok ()" if "float_free u" for u using check_cases(1) [of u "[]"] that by simp
  have "is_Ok (canonicalize_value esc v) \<longleftrightarrow> float_free v"
    using check_cases(1) [of v "[]"] by (auto simp: canonicalize_value_def split: if_splits)
  moreover have "json_emit esc v = json_emit esc w \<longleftrightarrow> normal v = normal w" if "float_free v" "float_free w"
    using emit_split [OF assms(1) that(1) assms(2) that(2) assms(3), of "[]" "[]"] emit_normal [of v w] by auto
  ultimately show ?thesis using c by (simp add: canonicalize_value_def)
qed


lemma normal_reorder:
  assumes "distinct (map fst m)" "distinct (map fst m')" "set m = set m'"
  shows "normal (JObject m) = normal (JObject m')"
proof -
  have inj: "inj_on fst (set (sort_key fst m) \<union> set (sort_key fst m'))"
    using assms by (simp add: distinct_map)
  have "sort_key fst m = sort_key fst m'"
  proof (rule map_sorted_distinct_set_unique [OF inj])
    show "distinct (map fst (sort_key fst m))" "distinct (map fst (sort_key fst m'))"
      using assms(1,2) by (metis distinct_map distinct_sort set_sort)+
  qed (use assms(3) in simp_all)
  then show ?thesis by simp
qed

definition test_esc :: "string \<Rightarrow> string" where
  "test_esc s = CHR 0x22 # concat (map (\<lambda>c. [CHR ''.'', c]) s) @ [CHR 0x22]"

lemma test_esc_quoting: "quoting test_esc"
proof -
  have split: "concat (map (\<lambda>c. [CHR ''.'', c]) s) @ CHR 0x22 # r = concat (map (\<lambda>c. [CHR ''.'', c]) t) @ CHR 0x22 # r' \<Longrightarrow>
      s = t \<and> r = r'" for s t r r'
  proof (induction s arbitrary: t)
    case Nil
    then show ?case by (cases t) auto
  next
    case (Cons c s)
    then show ?case by (cases t) auto
  qed
  show ?thesis unfolding quoting_def
  proof (intro conjI allI impI)
    show "\<exists>t. test_esc s = CHR 0x22 # t" for s by (simp add: test_esc_def)
    fix s t r r' assume "test_esc s @ r = test_esc t @ r'"
    then have "concat (map (\<lambda>c. [CHR ''.'', c]) s) @ CHR 0x22 # r = concat (map (\<lambda>c. [CHR ''.'', c]) t) @ CHR 0x22 # r'"
      by (simp only: test_esc_def append_Cons append_assoc append_Nil list.inject)
    from split [OF this] show "s = t" "r = r'" by simp_all
  qed
qed

lemma canonical_text_determines_value_witness:
  "canonicalize_value test_esc (JObject [(''b'', JNumber (PosInt 1)), (''a'', JArray [JNull])]) =
   canonicalize_value test_esc (JObject [(''a'', JArray [JNull]), (''b'', JNumber (PosInt 1))])"
proof -
  let ?v = "JObject [(''b'', JNumber (PosInt 1)), (''a'', JArray [JNull])]"
  let ?w = "JObject [(''a'', JArray [JNull]), (''b'', JNumber (PosInt 1))]"
  have n: "normal ?v = normal ?w" by (rule normal_reorder) auto
  have ok: "numbers_ok ?v" "numbers_ok ?w" by (simp_all add: u64_max_def)
  show ?thesis using canonical_text_determines_value [OF test_esc_quoting ok] n by simp
qed

text \<open>The range error is never reported: a number that is no float fits one of the two integer types.\<close>

lemma check_never_out_of_range: "check v path \<noteq> Err (C_NumberOutOfRange p)"
  using check_cases(1) [of v path] by (auto split: if_splits)

end
