(* ===== verification/Key_Scan.thy ===== *)
theory Key_Scan
  imports Canonical
begin

text \<open>
  The scanner of \<open>crates/supra_llm/src/canonical.rs\<close>, which refuses repeated keys before
  \<open>serde_json\<close> parses a text (keeping the last of them). It works on the bytes of the text, as the
  source does; slicing inside a character aborts. Its recursion is bounded by fuel, of which an
  amount linear in the length is proved to be enough for every text.
\<close>

section \<open>The scanner for repeated keys\<close>

definition is_ws :: "char \<Rightarrow> bool" where
  "is_ws c \<longleftrightarrow> c = CHR '' '' \<or> c = CHR 0x09 \<or> c = CHR 0x0A \<or> c = CHR 0x0D"

definition ws :: "string \<Rightarrow> nat \<Rightarrow> nat" where
  "ws s p = p + length (takeWhile is_ws (drop p s))"

definition peek :: "string \<Rightarrow> nat \<Rightarrow> char option" where
  "peek s p = (if p < length s then Some (s ! p) else None)"

definition continuation :: "char \<Rightarrow> bool" where
  "continuation c \<longleftrightarrow> 0x80 \<le> (of_char c :: nat) \<and> (of_char c :: nat) < 0xC0"

definition boundary :: "string \<Rightarrow> nat \<Rightarrow> bool" where
  "boundary s p \<longleftrightarrow> p = 0 \<or> p = length s \<or> p < length s \<and> \<not> continuation (s ! p)"

text \<open>In valid UTF-8 a character is a byte and the continuation bytes after it.\<close>

definition char_width :: "string \<Rightarrow> nat \<Rightarrow> nat" where
  "char_width s p = 1 + length (takeWhile continuation (drop (p + 1) s))"

text \<open>\<open>u32::from_str_radix(.., 16)\<close> on four bytes: it takes a leading plus sign.\<close>

definition hex_digits :: "string \<Rightarrow> nat option" where
  "hex_digits ds =
     (if ds = [] \<or> (\<exists>c \<in> set ds. hex_value c = None) then None
      else Some (foldl (\<lambda>n c. 16 * n + the (hex_value c)) 0 ds))"

definition from_hex16 :: "string \<Rightarrow> nat option" where
  "from_hex16 h = hex_digits (case h of c # t \<Rightarrow> if c = CHR ''+'' then t else h | [] \<Rightarrow> [])"

definition utf8_encode :: "nat \<Rightarrow> string" where
  "utf8_encode c =
     (if c < 0x80 then [char_of c]
      else if c < 0x800 then [char_of (0xC0 + c div 0x40), char_of (0x80 + c mod 0x40)]
      else if c < 0x10000 then
        [char_of (0xE0 + c div 0x1000), char_of (0x80 + c div 0x40 mod 0x40), char_of (0x80 + c mod 0x40)]
      else [char_of (0xF0 + c div 0x40000), char_of (0x80 + c div 0x1000 mod 0x40),
            char_of (0x80 + c div 0x40 mod 0x40), char_of (0x80 + c mod 0x40)])"

definition simple_escape :: "char \<Rightarrow> char option" where
  "simple_escape c =
     (if c = CHR 0x22 \<or> c = CHR 0x5C \<or> c = CHR ''/'' then Some c
      else if c = CHR ''b'' then Some (CHR 0x08)
      else if c = CHR ''f'' then Some (CHR 0x0C)
      else if c = CHR ''n'' then Some (CHR 0x0A)
      else if c = CHR ''r'' then Some (CHR 0x0D)
      else if c = CHR ''t'' then Some (CHR 0x09)
      else None)"

definition invalid :: "string \<Rightarrow> ('a, canonical_error) outcome" where
  "invalid detail = Err (C_Invalid detail)"

definition tick :: "char \<Rightarrow> string" where "tick c = [CHR 0x27, c, CHR 0x27]"

text \<open>
  The escape whose \<open>u\<close> is at \<open>q\<close>: the character, and how many bytes follow the \<open>u\<close>.
\<close>

definition unicode_escape :: "string \<Rightarrow> nat \<Rightarrow> (string \<times> nat, canonical_error) outcome" where
  "unicode_escape s q =
     (if length s \<le> q + 4 then invalid ''truncated unicode escape''
      else if \<not> boundary s (q + 1) \<or> \<not> boundary s (q + 5) then Panic
      else case from_hex16 (take 4 (drop (q + 1) s)) of
        None \<Rightarrow> invalid ''malformed unicode escape''
      | Some high \<Rightarrow>
          if 0xD800 \<le> high \<and> high < 0xDC00 then
            (if boundary s (q + 5) \<and> starts_with [CHR 0x5C, CHR ''u''] (drop (q + 5) s) then
               (if \<not> (q + 11 \<le> length s \<and> boundary s (q + 7) \<and> boundary s (q + 11))
                then invalid ''truncated low surrogate escape''
                else case from_hex16 (take 4 (drop (q + 7) s)) of
                  None \<Rightarrow> invalid ''malformed low surrogate escape''
                | Some low \<Rightarrow>
                    if \<not> (0xDC00 \<le> low \<and> low < 0xE000)
                    then invalid ''high surrogate not followed by low surrogate''
                    else Ok (utf8_encode (0x10000 + (high - 0xD800) * 0x400 + (low - 0xDC00)), 10))
             else invalid ''lone high surrogate'')
          else if 0xDC00 \<le> high \<and> high < 0xE000 then invalid ''lone low surrogate''
          else Ok (utf8_encode high, 4))"

text \<open>From inside a string at \<open>p\<close>; the text so far is \<open>acc\<close>.\<close>

function scan_chars :: "string \<Rightarrow> nat \<Rightarrow> string \<Rightarrow> (string \<times> nat, canonical_error) outcome" where
  "scan_chars s p acc =
     (if p < length s then
        let byte = s ! p in
        if byte = CHR 0x22 then Ok (acc, p + 1)
        else if byte \<noteq> CHR 0x5C then
          (if (of_char byte :: nat) < 0x80 then scan_chars s (p + 1) (acc @ [byte])
           else if \<not> boundary s p then Panic
           else scan_chars s (p + char_width s p) (acc @ take (char_width s p) (drop p s)))
        else case peek s (p + 1) of
          None \<Rightarrow> invalid ''truncated escape''
        | Some escaped \<Rightarrow>
            (case simple_escape escaped of
               Some c \<Rightarrow> scan_chars s (p + 2) (acc @ [c])
             | None \<Rightarrow>
                 if escaped = CHR ''u'' then
                   (case unicode_escape s (p + 1) of
                      Ok (c, n) \<Rightarrow> scan_chars s (p + 2 + n) (acc @ c)
                    | Err e \<Rightarrow> Err e
                    | Panic \<Rightarrow> Panic)
                 else invalid ''invalid escape'')
      else invalid ''unterminated string'')"
  by pat_completeness auto
termination by (relation "measure (\<lambda>(s, p, _). length s - p)") (auto simp: char_width_def)

declare scan_chars.simps [simp del]

text \<open>\<open>p\<close> is at the opening quote.\<close>

definition scan_string :: "string \<Rightarrow> nat \<Rightarrow> (string \<times> nat, canonical_error) outcome" where
  "scan_string s p = scan_chars s (p + 1) []"

definition structural :: "char \<Rightarrow> bool" where
  "structural c \<longleftrightarrow> c = CHR '','' \<or> c = CHR '']'' \<or> c = CHR ''}'' \<or> is_ws c"

definition skip_token :: "string \<Rightarrow> nat \<Rightarrow> nat" where
  "skip_token s p = p + length (takeWhile (\<lambda>c. \<not> structural c) (drop p s))"

text \<open>A scan returns the position it ended at, or \<open>None\<close> when the fuel did not suffice.\<close>

type_synonym 'a scan = "('a, canonical_error) outcome option"

fun after :: "'a scan \<Rightarrow> ('a \<Rightarrow> 'b scan) \<Rightarrow> 'b scan" where
  "after None f = None"
| "after (Some (Ok x)) f = f x"
| "after (Some (Err e)) f = Some (Err e)"
| "after (Some Panic) f = Some Panic"

fun scan_value :: "nat \<Rightarrow> string \<Rightarrow> nat \<Rightarrow> nat scan"
  and scan_items :: "nat \<Rightarrow> string \<Rightarrow> nat \<Rightarrow> nat scan"
  and scan_members :: "nat \<Rightarrow> string \<Rightarrow> nat \<Rightarrow> string set \<Rightarrow> nat scan" where
  "scan_value 0 s p = None"
| "scan_value (Suc n) s p0 =
     (let p = ws s p0 in
      case peek s p of
        None \<Rightarrow> Some (invalid ''truncated value'')
      | Some byte \<Rightarrow>
          if byte = CHR ''{'' then
            (let q = ws s (p + 1) in
             if peek s q = Some (CHR ''}'') then Some (Ok (q + 1)) else scan_members n s q {})
          else if byte = CHR ''['' then
            (let q = ws s (p + 1) in
             if peek s q = Some (CHR '']'') then Some (Ok (q + 1)) else scan_items n s q)
          else if byte = CHR 0x22 then after (Some (scan_string s p)) (\<lambda>(_, q). Some (Ok q))
          else if byte = CHR ''t'' \<and> starts_with ''true'' (drop p s) then Some (Ok (p + 4))
          else if byte = CHR ''f'' \<and> starts_with ''false'' (drop p s) then Some (Ok (p + 5))
          else if byte = CHR ''n'' \<and> starts_with ''null'' (drop p s) then Some (Ok (p + 4))
          else Some (Ok (skip_token s p)))"
| "scan_items 0 s p = None"
| "scan_items (Suc n) s p =
     after (scan_value n s p) (\<lambda>q0.
       let q = ws s q0 in
       case peek s q of
         None \<Rightarrow> Some (invalid ''unterminated array'')
       | Some next \<Rightarrow>
           if next = CHR '']'' then Some (Ok (q + 1))
           else if next \<noteq> CHR '','' then Some (invalid (''expected '' @ tick CHR '','' @ '' or '' @ tick CHR '']''))
           else scan_items n s (q + 1))"
| "scan_members 0 s p seen = None"
| "scan_members (Suc n) s p0 seen =
     (let p = ws s p0 in
      if peek s p \<noteq> Some (CHR 0x22) then Some (invalid ''expected an object key'')
      else after (Some (scan_string s p)) (\<lambda>(key, q0).
        if key \<in> seen then Some (Err (C_DuplicateKey key []))
        else let q = ws s q0 in
          if peek s q \<noteq> Some (CHR '':'') then Some (invalid (''expected '' @ tick CHR '':'' @ '' after an object key''))
          else after (scan_value n s (q + 1)) (\<lambda>r0.
            let r = ws s r0 in
            case peek s r of
              None \<Rightarrow> Some (invalid ''unterminated object'')
            | Some next \<Rightarrow>
                if next = CHR ''}'' then Some (Ok (r + 1))
                else if next \<noteq> CHR '','' then Some (invalid (''expected '' @ tick CHR '','' @ '' or '' @ tick CHR ''}''))
                else scan_members n s (r + 1) (insert key seen))))"

definition scan_run :: "nat \<Rightarrow> string \<Rightarrow> unit scan" where
  "scan_run n s = after (scan_value n s 0) (\<lambda>q.
     if ws s q \<noteq> length s then Some (invalid ''trailing characters'') else Some (Ok ()))"

definition scan_fuel :: "string \<Rightarrow> nat" where "scan_fuel s = 2 * length s + 1"

definition reject_duplicates :: "string \<Rightarrow> unit scan" where
  "reject_duplicates s = scan_run (scan_fuel s) s"

text \<open>\<open>parse\<close> is the parser of \<open>serde_json\<close>, which keeps the last of equal keys.\<close>

definition parse_strict :: "(string \<Rightarrow> (json, string) outcome) \<Rightarrow> string \<Rightarrow> json scan" where
  "parse_strict parse s =
     after (reject_duplicates s) (\<lambda>_.
       Some (case parse s of Ok v \<Rightarrow> Ok v | Err e \<Rightarrow> invalid e | Panic \<Rightarrow> Panic))"

definition canonicalize ::
    "(string \<Rightarrow> (json, string) outcome) \<Rightarrow> (string \<Rightarrow> string) \<Rightarrow> string \<Rightarrow> string scan" where
  "canonicalize parse esc s =
     after (parse_strict parse s) (\<lambda>v.
     after (Some (check v [])) (\<lambda>_. Some (Ok (json_emit esc v))))"

section \<open>Every scan ends\<close>

lemma after_Ok: "after r f = Some (Ok y) \<longleftrightarrow> (\<exists>x. r = Some (Ok x) \<and> f x = Some (Ok y))"
  by (cases "(r, f)" rule: after.cases) auto

lemma after_None: "after r f = None \<longleftrightarrow> r = None \<or> (\<exists>x. r = Some (Ok x) \<and> f x = None)"
  by (cases "(r, f)" rule: after.cases) auto

lemma peek_Some: "peek s p = Some c \<longleftrightarrow> p < length s \<and> c = s ! p"
  by (auto simp: peek_def)

lemma ws_bounds: "p \<le> ws s p" "p \<le> length s \<Longrightarrow> ws s p \<le> length s"
  using length_takeWhile_le [of is_ws "drop p s"] by (simp_all add: ws_def)

lemma skip_bounds: "p \<le> skip_token s p" "p \<le> length s \<Longrightarrow> skip_token s p \<le> length s"
  using length_takeWhile_le [of "\<lambda>c. \<not> structural c" "drop p s"] by (simp_all add: skip_token_def)

lemma char_width_bounds: "0 < char_width s p" "p < length s \<Longrightarrow> p + char_width s p \<le> length s"
  using length_takeWhile_le [of continuation "drop (p + 1) s"] by (simp_all add: char_width_def)

lemma starts_length: "starts_with t (drop p s) \<Longrightarrow> p + length t \<le> length s \<or> t = []"
  unfolding starts_with_def by (cases "p \<le> length s") (auto dest: arg_cong [where f = length])

lemma unicode_escape_bound: "unicode_escape s q = Ok (c, n) \<Longrightarrow> q + 1 + n \<le> length s"
  by (auto simp: unicode_escape_def invalid_def split: if_splits option.splits)

lemma scan_chars_bounds: "scan_chars s p acc = Ok (t, q) \<Longrightarrow> p < q \<and> q \<le> length s"
proof (induction s p acc rule: scan_chars.induct)
  case (1 s p acc)
  note eq = scan_chars.simps [of s p acc]
  have lt: "p < length s" using 1(5) eq by (simp add: invalid_def split: if_splits)
  show ?case
  proof (cases "s ! p = CHR 0x22")
    case True
    then show ?thesis using 1(5) eq lt by simp
  next
    case quote: False
    show ?thesis
    proof (cases "s ! p = CHR 0x5C")
      case plain: False
      show ?thesis
      proof (cases "(of_char (s ! p) :: nat) < 0x80")
        case True
        then have "scan_chars s (p + 1) (acc @ [s ! p]) = Ok (t, q)" using 1(5) eq lt quote plain by simp
        then show ?thesis using 1(1) [OF lt refl quote plain True] by simp
      next
        case False
        then have b: "boundary s p" using 1(5) eq lt quote plain by (simp split: if_splits)
        then have "scan_chars s (p + char_width s p) (acc @ take (char_width s p) (drop p s)) = Ok (t, q)"
          using 1(5) eq lt quote plain False by simp
        then show ?thesis using 1(2) [OF lt refl quote plain False] b char_width_bounds(1) [of s p] by simp
      qed
    next
      case esc: True
      then obtain e where e: "peek s (p + 1) = Some e" using 1(5) eq lt by (cases "peek s (p + 1)") (simp_all add: invalid_def)
      have nq: "s ! p \<noteq> CHR 0x22" "\<not> s ! p \<noteq> CHR 0x5C" using esc by simp_all
      show ?thesis
      proof (cases "simple_escape e")
        case (Some c)
        then have "scan_chars s (p + 2) (acc @ [c]) = Ok (t, q)" using 1(5) eq lt esc e by simp
        then show ?thesis using 1(4) [OF lt refl nq e Some] by simp
      next
        case None
        then have u: "e = CHR ''u''" using 1(5) eq lt esc e by (simp add: invalid_def split: if_splits)
        obtain c n where c: "unicode_escape s (p + 1) = Ok (c, n)"
          using 1(5) eq lt esc e None u by (simp split: outcome.splits prod.splits)
        then have "scan_chars s (p + 2 + n) (acc @ c) = Ok (t, q)" using 1(5) eq lt esc e None u by simp
        then show ?thesis using 1(3) [OF lt refl nq e None u c refl] by simp
      qed
    qed
  qed
qed

lemma scan_string_bounds: "scan_string s p = Ok (t, q) \<Longrightarrow> p + 1 < q \<and> q \<le> length s"
  using scan_chars_bounds by (auto simp: scan_string_def)

lemma scan_bounds:
  "scan_value n s p = Some (Ok q) \<Longrightarrow> p \<le> length s \<Longrightarrow> p \<le> q \<and> q \<le> length s"
  "scan_items n s p = Some (Ok q) \<Longrightarrow> p \<le> length s \<Longrightarrow> p \<le> q \<and> q \<le> length s"
  "scan_members n s p seen = Some (Ok q) \<Longrightarrow> p \<le> length s \<Longrightarrow> p \<le> q \<and> q \<le> length s"
proof (induction n s p and n s p and n s p seen arbitrary: q and q and q rule: scan_value_scan_items_scan_members.induct)
  case (2 n s p0)
  let ?p = "ws s p0"
  have p: "p0 \<le> ?p" "?p \<le> length s" using ws_bounds 2(4) by auto
  obtain byte where b: "peek s ?p = Some byte" using 2(3) by (cases "peek s ?p") (auto simp: Let_def invalid_def)
  then have lt: "?p < length s" by (simp add: peek_Some)
  let ?q = "ws s (?p + 1)"
  have q: "?p + 1 \<le> ?q" "?q \<le> length s" using ws_bounds lt by auto
  consider "byte = CHR ''{''" | "byte = CHR ''[''" | "byte = CHR 0x22" | "byte \<noteq> CHR ''{''" "byte \<noteq> CHR ''[''" "byte \<noteq> CHR 0x22" by blast
  then show ?case
  proof cases
    case 1
    show ?thesis
    proof (cases "peek s ?q = Some (CHR ''}'')")
      case True
      then have "q = ?q + 1" using 2(3) b 1 by (simp add: Let_def)
      then show ?thesis using True p q by (simp add: peek_Some)
    next
      case False
      then have "scan_members n s ?q {} = Some (Ok q)" using 2(3) b 1 by (simp add: Let_def)
      then show ?thesis using 2(1) [OF refl b 1 refl False _ q(2)] p q by force
    qed
  next
    case arr: 2
    then have nb: "byte \<noteq> CHR ''{''" by simp
    show ?thesis
    proof (cases "peek s ?q = Some (CHR '']'')")
      case True
      then have "q = ?q + 1" using 2(3) b arr by (simp add: Let_def)
      then show ?thesis using True p q by (simp add: peek_Some)
    next
      case False
      then have "scan_items n s ?q = Some (Ok q)" using 2(3) b arr by (simp add: Let_def)
      then show ?thesis using 2(2) [OF refl b nb arr refl False _ q(2)] p q by force
    qed
  next
    case 3
    then obtain t where "scan_string s ?p = Ok (t, q)" using 2(3) b by (auto simp: Let_def after_Ok)
    then show ?thesis using scan_string_bounds [of s ?p t q] p by simp
  next
    case 4
    have "q = ?p + 4 \<and> (starts_with ''true'' (drop ?p s) \<or> starts_with ''null'' (drop ?p s)) \<or>
        q = ?p + 5 \<and> starts_with ''false'' (drop ?p s) \<or> q = skip_token s ?p"
      using 2(3) b 4 by (simp add: Let_def split: if_splits)
    then show ?thesis using starts_length [of _ ?p s] skip_bounds [of ?p s] p by fastforce
  qed
next
  case (4 n s p)
  obtain q0 where q0: "scan_value n s p = Some (Ok q0)"
    "(let q' = ws s q0 in case peek s q' of None \<Rightarrow> Some (invalid ''unterminated array'')
       | Some next \<Rightarrow>
           if next = CHR '']'' then Some (Ok (q' + 1))
           else if next \<noteq> CHR '','' then Some (invalid (''expected '' @ tick CHR '','' @ '' or '' @ tick CHR '']''))
           else scan_items n s (q' + 1)) = Some (Ok q)"
    using 4(3) unfolding scan_items.simps after_Ok by blast
  let ?q = "ws s q0"
  have one: "p \<le> q0" "q0 \<le> length s" using 4(1) [OF q0(1) 4(4)] by auto
  then have b: "q0 \<le> ?q" using ws_bounds by simp
  obtain c where c: "peek s ?q = Some c" using q0(2) by (cases "peek s ?q") (auto simp: Let_def invalid_def)
  then have lt: "?q < length s" by (simp add: peek_Some)
  consider "q = ?q + 1" | "c \<noteq> CHR '']''" "c = CHR '',''" "scan_items n s (?q + 1) = Some (Ok q)"
    using q0(2) c by (auto simp: Let_def invalid_def split: if_splits)
  then show ?case
  proof cases
    case 2
    then show ?thesis using 4(2) [OF refl c] one b lt by force
  qed (use one b lt in simp)
next
  case (6 n s p0 seen)
  let ?p = "ws s p0"
  have p: "p0 \<le> ?p" "?p \<le> length s" using ws_bounds 6(4) by auto
  have quote: "peek s ?p = Some (CHR 0x22)" using 6(3) by (auto simp: Let_def invalid_def split: if_splits)
  then obtain key q0 where q0: "scan_string s ?p = Ok (key, q0)" "key \<notin> seen" 
    using 6(3) by (auto simp: Let_def after_Ok split: if_splits)
  have b0: "?p + 1 < q0" "q0 \<le> length s" using scan_string_bounds [OF q0(1)] by auto
  let ?q = "ws s q0"
  have q: "q0 \<le> ?q" using ws_bounds by simp
  have colon: "peek s ?q = Some (CHR '':'')" using 6(3) quote q0 by (auto simp: Let_def invalid_def split: if_splits)
  then have ltq: "?q < length s" by (simp add: peek_Some)
  obtain r0 where r0: "scan_value n s (?q + 1) = Some (Ok r0)" 
    using 6(3) quote q0 colon by (auto simp: Let_def after_Ok)
  let ?r = "ws s r0"
  have rb: "?q + 1 \<le> r0" "r0 \<le> length s"
    using 6(1) [OF refl _ q0(2) refl _ r0] quote colon ltq by auto
  then have r: "r0 \<le> ?r" using ws_bounds by simp
  obtain c where c: "peek s ?r = Some c" using 6(3) quote q0 colon r0 by (cases "peek s ?r") (auto simp: Let_def invalid_def)
  then have ltr: "?r < length s" by (simp add: peek_Some)
  consider "q = ?r + 1" | "c \<noteq> CHR ''}''" "c = CHR '',''" "scan_members n s (?r + 1) (insert key seen) = Some (Ok q)"
    using 6(3) quote q0 colon r0 c by (auto simp: Let_def invalid_def split: if_splits)
  then show ?case
  proof cases
    case 2
    have "?r + 1 \<le> q \<and> q \<le> length s"
      by (rule 6(2) [OF refl _ q0(2) refl _ refl c]) (use 2 quote colon ltr in auto)
    then show ?thesis using p b0 q rb r by simp
  qed (use p b0 q rb r ltr in simp)
qed simp_all

lemma scan_total:
  "p \<le> length s \<Longrightarrow> 2 * (length s - p) + 1 \<le> n \<Longrightarrow> scan_value n s p \<noteq> None"
  "p \<le> length s \<Longrightarrow> 2 * (length s - p) + 2 \<le> n \<Longrightarrow> scan_items n s p \<noteq> None"
  "p \<le> length s \<Longrightarrow> 2 * (length s - p) + 2 \<le> n \<Longrightarrow> scan_members n s p seen \<noteq> None"
proof (induction n s p and n s p and n s p seen rule: scan_value_scan_items_scan_members.induct)
  case (2 n s p0)
  let ?p = "ws s p0"
  let ?q = "ws s (?p + 1)"
  have p: "p0 \<le> ?p" using ws_bounds by simp
  show ?case
  proof (cases "peek s ?p")
    case (Some byte)
    then have lt: "?p < length s" by (simp add: peek_Some)
    then have q: "?p + 1 \<le> ?q" "?q \<le> length s" using ws_bounds by auto
    have fuel: "2 * (length s - ?q) + 2 \<le> n" using 2(4) lt p q by linarith
    consider "byte = CHR ''{''" | "byte = CHR ''[''" | "byte \<noteq> CHR ''{''" "byte \<noteq> CHR ''[''" by blast
    then show ?thesis
    proof cases
      case 1
      then show ?thesis using 2(1) [OF refl Some 1 refl _ q(2) fuel] Some by (simp add: Let_def)
    next
      case arr: 2
      then have "byte \<noteq> CHR ''{''" by simp
      then show ?thesis using 2(2) [OF refl Some _ arr refl _ q(2) fuel] Some arr by (simp add: Let_def)
    next
      case 3
      have "after (Some (scan_string s ?p)) (\<lambda>(_, q). Some (Ok q)) \<noteq> None"
        by (cases "scan_string s ?p") (simp_all add: split_beta)
      then show ?thesis using Some 3 by (simp add: Let_def)
    qed
  qed (simp add: Let_def)
next
  case (4 n s p)
  have total: "scan_value n s p \<noteq> None" by (rule 4(1) [OF 4(3)]) (use 4(4) in simp)
  have "scan_items n s (ws s q0 + 1) \<noteq> None"
    if "scan_value n s p = Some (Ok q0)" "peek s (ws s q0) = Some c" "c \<noteq> CHR '']''" "c = CHR '',''" for q0 c
  proof -
    have "p \<le> q0" "q0 \<le> length s" using scan_bounds(1) [OF that(1) 4(3)] by auto
    moreover have "ws s q0 < length s" using that(2) by (simp add: peek_Some)
    ultimately show ?thesis
      using 4(2) [OF refl that(2,3)] that(4) 4(4) ws_bounds(1) [of q0 s] by force
  qed
  then show ?case using total by (auto simp: Let_def after_None split: option.splits)
next
  case (6 n s p0 seen)
  let ?p = "ws s p0"
  have p: "p0 \<le> ?p" "?p \<le> length s" using ws_bounds 6(3) by auto
  show ?case
  proof (cases "peek s ?p \<noteq> Some (CHR 0x22)")
    case quote: False
    show ?thesis
    proof (cases "scan_string s ?p")
      case (Ok kq)
      obtain key q0 where kq: "kq = (key, q0)" by force
      have b0: "?p + 1 < q0" "q0 \<le> length s" using scan_string_bounds Ok kq by auto
      let ?q = "ws s q0"
      have q: "q0 \<le> ?q" using ws_bounds by simp
      show ?thesis
      proof (cases "key \<in> seen \<or> peek s ?q \<noteq> Some (CHR '':'')")
        case True
        then show ?thesis using quote Ok kq by (auto simp: Let_def)
      next
        case False
        then have nk: "key \<notin> seen" and colon: "\<not> peek s ?q \<noteq> Some (CHR '':'')" by auto
        then have ltq: "?q < length s" by (simp add: peek_Some)
        have value_ends: "scan_value n s (?q + 1) \<noteq> None"
          by (rule 6(1) [OF refl quote nk refl colon]) (use ltq 6(4) p b0 q in linarith)+
        have "scan_members n s (ws s r0 + 1) (insert key seen) \<noteq> None"
          if v: "scan_value n s (?q + 1) = Some (Ok r0)" and c: "peek s (ws s r0) = Some (CHR '','')" for r0
        proof -
          have "?q + 1 \<le> r0" "r0 \<le> length s" using scan_bounds(1) [OF v] ltq by auto
          moreover have "ws s r0 < length s" "r0 \<le> ws s r0" using c ws_bounds(1) by (simp_all add: peek_Some)
          ultimately show ?thesis
            by (intro 6(2) [OF refl quote nk refl colon refl c]) (use 6(4) p b0 q in auto)
        qed
        then show ?thesis using quote Ok kq nk colon value_ends
          by (simp add: Let_def after_None) (auto split: option.splits)
      qed
    qed (use quote in \<open>simp_all add: Let_def\<close>)
  qed (simp add: Let_def)
qed simp_all


lemma after_mono:
  assumes "r \<noteq> None \<longrightarrow> r' = r" "\<And>x. r = Some (Ok x) \<Longrightarrow> f x \<noteq> None \<Longrightarrow> g x = f x" "after r f \<noteq> None"
  shows "after r' g = after r f"
  using assms by (cases "(r, f)" rule: after.cases) auto

lemma scan_mono:
  "scan_value n s p \<noteq> None \<Longrightarrow> scan_value (Suc n) s p = scan_value n s p"
  "scan_items n s p \<noteq> None \<Longrightarrow> scan_items (Suc n) s p = scan_items n s p"
  "scan_members n s p seen \<noteq> None \<Longrightarrow> scan_members (Suc n) s p seen = scan_members n s p seen"
proof (induction n s p and n s p and n s p seen rule: scan_value_scan_items_scan_members.induct)
  case (2 n s p0)
  let ?p = "ws s p0"
  let ?q = "ws s (?p + 1)"
  show ?case
  proof (cases "peek s ?p")
    case (Some byte)
    consider "byte = CHR ''{''" | "byte = CHR ''[''" | "byte \<noteq> CHR ''{''" "byte \<noteq> CHR ''[''" by blast
    then show ?thesis
    proof cases
      case 1
      then show ?thesis
        using 2(1) [OF refl Some 1 refl] 2(3) Some by (cases "peek s ?q = Some (CHR ''}'')")
          (simp_all add: Let_def scan_value.simps(2) del: scan_members.simps)
    next
      case arr: 2
      then have "byte \<noteq> CHR ''{''" by simp
      then show ?thesis
        using 2(2) [OF refl Some _ arr refl] 2(3) Some arr by (cases "peek s ?q = Some (CHR '']'')")
          (simp_all add: Let_def scan_value.simps(2) del: scan_items.simps)
    qed (use Some in \<open>simp add: Let_def\<close>)
  qed (simp add: Let_def)
next
  case (4 n s p)
  define tail where "tail k = (\<lambda>q0. let q = ws s q0 in case peek s q of
         None \<Rightarrow> Some (invalid ''unterminated array'')
       | Some next \<Rightarrow>
           if next = CHR '']'' then Some (Ok (q + 1))
           else if next \<noteq> CHR '','' then Some (invalid (''expected '' @ tick CHR '','' @ '' or '' @ tick CHR '']''))
           else scan_items k s (q + 1))" for k
  have step: "scan_items (Suc k) s p = after (scan_value k s p) (tail k)" for k
    by (simp add: tail_def)
  show ?case unfolding step
  proof (rule after_mono)
    show "scan_value n s p \<noteq> None \<longrightarrow> scan_value (Suc n) s p = scan_value n s p" using 4(1) by blast
    show "tail (Suc n) x = tail n x" if "tail n x \<noteq> None" for x
      using 4(2) [OF refl, of x] that
      by (auto simp: tail_def Let_def split: option.splits if_splits simp del: scan_items.simps scan_value.simps)
    show "after (scan_value n s p) (tail n) \<noteq> None" using 4(3) unfolding step .
  qed
next
  case (6 n s p0 seen)
  show ?case
  proof (cases "peek s (ws s p0) \<noteq> Some (CHR 0x22)")
    case quote: False
    show ?thesis
    proof (cases "scan_string s (ws s p0)")
      case (Ok kq)
      obtain key q0 where kq: "kq = (key, q0)" by force
      show ?thesis
      proof (cases "key \<in> seen \<or> peek s (ws s q0) \<noteq> Some (CHR '':'')")
        case True
        then show ?thesis using quote Ok kq by (auto simp: Let_def)
      next
        case False
        then have nk: "key \<notin> seen" and colon: "\<not> peek s (ws s q0) \<noteq> Some (CHR '':'')" by auto
        define tail where "tail k = (\<lambda>r0. let r = ws s r0 in case peek s r of
              None \<Rightarrow> Some (invalid ''unterminated object'')
            | Some next \<Rightarrow>
                if next = CHR ''}'' then Some (Ok (r + 1))
                else if next \<noteq> CHR '','' then Some (invalid (''expected '' @ tick CHR '','' @ '' or '' @ tick CHR ''}''))
                else scan_members k s (r + 1) (insert key seen))" for k
        have step: "scan_members (Suc k) s p0 seen = after (scan_value k s (ws s q0 + 1)) (tail k)" for k
          using quote Ok kq nk colon by (simp add: Let_def tail_def)
        show ?thesis unfolding step
        proof (rule after_mono)
          show "scan_value n s (ws s q0 + 1) \<noteq> None \<longrightarrow> scan_value (Suc n) s (ws s q0 + 1) = scan_value n s (ws s q0 + 1)"
            using 6(1) [OF refl quote nk refl colon] by blast
          show "tail (Suc n) x = tail n x" if "tail n x \<noteq> None" for x
            using 6(2) [OF refl quote nk refl colon, of "ws s x"] that
            by (auto simp: tail_def Let_def split: option.splits if_splits simp del: scan_members.simps)
          show "after (scan_value n s (ws s q0 + 1)) (tail n) \<noteq> None" using 6(3) unfolding step .
        qed
      qed
    qed (use quote in \<open>simp_all add: Let_def\<close>)
  qed (simp add: Let_def)
qed simp_all

lemma scan_mono_le: "scan_value n s p \<noteq> None \<Longrightarrow> n \<le> m \<Longrightarrow> scan_value m s p = scan_value n s p"
proof (induction m)
  case (Suc m)
  then show ?case using scan_mono(1) [of m s p] by (cases "n = Suc m") auto
qed simp

text \<open>
  The scan for repeated keys ends on every text: the fuel of \<open>reject_duplicates\<close>, twice the length
  and one, always suffices, and more fuel never changes the result.
\<close>

theorem scan_always_ends:
  "reject_duplicates s \<noteq> None \<and> scan_run (scan_fuel s + extra) s = reject_duplicates s"
proof -
  have v: "scan_value (scan_fuel s) s 0 \<noteq> None" by (rule scan_total(1)) (simp_all add: scan_fuel_def)
  then have "scan_value (scan_fuel s + extra) s 0 = scan_value (scan_fuel s) s 0" by (rule scan_mono_le) simp
  with v show ?thesis by (simp add: reject_duplicates_def scan_run_def after_None)
qed


section \<open>Spellings\<close>

text \<open>
  A JSON string between its quotes: the spelling, as bytes, and the text it stands for. A wide
  character is a lead byte and its continuation bytes.
\<close>

definition hex4 :: "string \<Rightarrow> nat \<Rightarrow> bool" where
  "hex4 h v \<longleftrightarrow> length h = 4 \<and> hex_digits h = Some v"

inductive spells :: "string \<Rightarrow> string \<Rightarrow> bool" where
  spells_nil: "spells [] []"
| spells_plain: "spells b d \<Longrightarrow> (of_char c :: nat) < 0x80 \<Longrightarrow> c \<noteq> CHR 0x22 \<Longrightarrow> c \<noteq> CHR 0x5C \<Longrightarrow>
    spells (c # b) (c # d)"
| spells_wide: "spells b d \<Longrightarrow> 0xC0 \<le> (of_char c :: nat) \<Longrightarrow> \<forall>x \<in> set cs. continuation x \<Longrightarrow>
    spells (c # cs @ b) (c # cs @ d)"
| spells_escape: "spells b d \<Longrightarrow> simple_escape e = Some c \<Longrightarrow> spells (CHR 0x5C # e # b) (c # d)"
| spells_unicode: "spells b d \<Longrightarrow> hex4 h v \<Longrightarrow> \<not> (0xD800 \<le> v \<and> v < 0xE000) \<Longrightarrow>
    spells (CHR 0x5C # CHR ''u'' # h @ b) (utf8_encode v @ d)"
| spells_pair: "spells b d \<Longrightarrow> hex4 h v \<Longrightarrow> hex4 l w \<Longrightarrow> 0xD800 \<le> v \<Longrightarrow> v < 0xDC00 \<Longrightarrow> 0xDC00 \<le> w \<Longrightarrow> w < 0xE000 \<Longrightarrow>
    spells (CHR 0x5C # CHR ''u'' # h @ CHR 0x5C # CHR ''u'' # l @ b)
      (utf8_encode (0x10000 + (v - 0xD800) * 0x400 + (w - 0xDC00)) @ d)"

lemma at_cons: "drop p s = c # r \<Longrightarrow> p < length s \<and> s ! p = c \<and> drop (Suc p) s = r \<and> peek s p = Some c"
  by (metis Cons_nth_drop_Suc drop_all leI list.distinct(1) list.inject peek_def)

lemma at_append: "drop p s = a @ b \<Longrightarrow> drop (p + length a) s = b"
  by (metis add.commute append_eq_conv_conj drop_drop)

lemma at_length: "drop p s = a @ b \<Longrightarrow> a @ b \<noteq> [] \<Longrightarrow> p + length a \<le> length s"
  by (metis add_le_cancel_left drop_all le_add_diff_inverse length_append length_drop linorder_le_cases le_add1)

lemma boundary_at: "drop p s = c # r \<Longrightarrow> \<not> continuation c \<Longrightarrow> boundary s p"
  using at_cons [of p s c r] by (simp add: boundary_def)

lemma hex_value_ascii: "hex_value c \<noteq> None \<Longrightarrow> \<not> continuation c \<and> c \<noteq> CHR ''+'' \<and> c \<noteq> CHR 0x22 \<and> c \<noteq> CHR 0x5C"
  by (auto simp: hex_value_def continuation_def Let_def split: if_splits)

lemma hex4_digits: "hex4 h v \<Longrightarrow> c \<in> set h \<Longrightarrow> hex_value c \<noteq> None"
  by (auto simp: hex4_def hex_digits_def split: if_splits)

lemma hex4_value:
  assumes "hex4 h v" shows "from_hex16 h = Some v"
proof -
  obtain c t where h: "h = c # t" using assms by (cases h) (auto simp: hex4_def)
  then have "c \<noteq> CHR ''+''" using hex4_digits [OF assms, of c] hex_value_ascii by auto
  then show ?thesis using assms h by (simp add: from_hex16_def hex4_def)
qed

lemma spells_head: "spells b d \<Longrightarrow> b \<noteq> [] \<Longrightarrow> \<not> continuation (hd b)"
  by (induction rule: spells.induct) (auto simp: continuation_def)

lemma spells_next:
  assumes "spells b d" "drop p s = b @ CHR 0x22 # rest" shows "boundary s p"
proof -
  obtain c r where c: "b @ CHR 0x22 # rest = c # r" "\<not> continuation c"
    using spells_head [OF assms(1)] by (cases b) (auto simp: continuation_def)
  then show ?thesis using boundary_at [of p s c r] assms(2) by simp
qed

text \<open>The digits of an escape whose \<open>u\<close> is at \<open>q\<close>.\<close>

lemma escape_digits:
  assumes "hex4 h v" "drop (Suc q) s = h @ r" "r \<noteq> []"
  shows "take 4 (drop (q + 1) s) = h" "boundary s (q + 1)" "drop (q + 5) s = r" "q + 5 < length s"
proof -
  have l: "length h = 4" using assms(1) by (simp add: hex4_def)
  then show "take 4 (drop (q + 1) s) = h" using assms(2) by simp
  obtain c t where h: "h = c # t" using l by (cases h) auto
  show "boundary s (q + 1)"
    using boundary_at [of "Suc q" s c "t @ r"] hex_value_ascii hex4_digits [OF assms(1), of c] assms(2) h by simp
  have d: "drop (Suc q + length h) s = r" using at_append [OF assms(2)] .
  then show "drop (q + 5) s = r" using l by (simp add: add.commute)
  then show "q + 5 < length s" using assms(3) by (metis drop_all leI)
qed

lemma unicode_escape_plain:
  assumes "hex4 h v" "\<not> (0xD800 \<le> v \<and> v < 0xE000)" "drop (Suc q) s = h @ r" "r \<noteq> []" "boundary s (q + 5)"
  shows "unicode_escape s q = Ok (utf8_encode v, 4)"
  using escape_digits [OF assms(1,3,4)] hex4_value [OF assms(1)] assms(2,5)
  by (auto simp: unicode_escape_def)

lemma unicode_escape_pair:
  assumes "hex4 h v" "hex4 l w" "0xD800 \<le> v" "v < 0xDC00" "0xDC00 \<le> w" "w < 0xE000"
    and "drop (Suc q) s = h @ CHR 0x5C # CHR ''u'' # l @ r" "r \<noteq> []" "boundary s (q + 11)"
  shows "unicode_escape s q = Ok (utf8_encode (0x10000 + (v - 0xD800) * 0x400 + (w - 0xDC00)), 10)"
proof -
  have one: "take 4 (drop (q + 1) s) = h" "boundary s (q + 1)" "drop (q + 5) s = CHR 0x5C # CHR ''u'' # l @ r" "q + 5 < length s"
    using escape_digits [OF assms(1,7)] by simp_all
  have d6: "drop (Suc (q + 5)) s = CHR ''u'' # l @ r" using at_cons [OF one(3)] by simp
  then have d7: "drop (Suc (q + 6)) s = l @ r" using at_cons [of "Suc (q + 5)" s "CHR ''u''" "l @ r"] by simp
  have two: "take 4 (drop (q + 6 + 1) s) = l" "boundary s (q + 6 + 1)" "drop (q + 6 + 5) s = r" "q + 6 + 5 < length s"
    using escape_digits [OF assms(2) d7 assms(8)] by simp_all
  have b5: "boundary s (q + 5)" using boundary_at [OF one(3)] by (simp add: continuation_def)
  have low: "take 4 (drop (q + 7) s) = l" "boundary s (q + 7)" "q + 11 \<le> length s"
  proof -
    have e: "q + 6 + 1 = q + 7" "q + 6 + 5 = q + 11" by simp_all
    show "take 4 (drop (q + 7) s) = l" "boundary s (q + 7)" "q + 11 \<le> length s" using two unfolding e by simp_all
  qed
  show ?thesis
    unfolding unicode_escape_def
    using one(1,2,4) low b5 assms(3-6,9) hex4_value [OF assms(1)] hex4_value [OF assms(2)]
    by (simp add: one(3) starts_with_def)
qed

lemma scan_chars_spells:
  "spells b d \<Longrightarrow> drop p s = b @ CHR 0x22 # rest \<Longrightarrow> scan_chars s p acc = Ok (acc @ d, p + length b + 1)"
proof (induction b d arbitrary: p acc rule: spells.induct)
  case spells_nil
  then have "p < length s" "s ! p = CHR 0x22" using at_cons [of p s] by auto
  then show ?case by (subst scan_chars.simps) simp
next
  case (spells_plain b d c)
  then have "p < length s" "s ! p = c" "drop (Suc p) s = b @ CHR 0x22 # rest" using at_cons [of p s] by auto
  then show ?case using spells_plain by (subst scan_chars.simps) simp
next
  case (spells_wide b d c cs)
  have at: "p < length s" "s ! p = c" "drop (Suc p) s = (cs @ b) @ CHR 0x22 # rest"
    using at_cons [of p s c "(cs @ b) @ CHR 0x22 # rest"] spells_wide.prems by auto
  have next': "drop (Suc p + length cs) s = b @ CHR 0x22 # rest" using at_append [of "Suc p" s cs] at(3) by simp
  have "\<not> continuation (hd (b @ CHR 0x22 # rest))"
    using spells_head [OF spells_wide(1)] by (cases b) (auto simp: continuation_def)
  then have "takeWhile continuation (b @ CHR 0x22 # rest) = []" by (cases b) auto
  then have "takeWhile continuation ((cs @ b) @ CHR 0x22 # rest) = cs"
    using spells_wide(3) by (simp add: takeWhile_append2)
  then have w: "char_width s p = 1 + length cs" using at(3) by (simp add: char_width_def)
  have nc: "\<not> continuation c" "\<not> (of_char c :: nat) < 0x80" "c \<noteq> CHR 0x22" "c \<noteq> CHR 0x5C"
    using spells_wide(2) by (auto simp: continuation_def)
  have "boundary s p" using at nc(1) by (simp add: boundary_def)
  moreover have "take (char_width s p) (drop p s) = c # cs" using spells_wide.prems w by simp
  ultimately show ?case using at nc w spells_wide.IH [of "p + char_width s p"] next' 
    by (subst scan_chars.simps) (simp add: Let_def)
next
  case (spells_escape b d e c)
  have at: "p < length s" "s ! p = CHR 0x5C" "drop (Suc p) s = e # b @ CHR 0x22 # rest"
    using at_cons [of p s] spells_escape.prems by auto
  then have e: "peek s (Suc p) = Some e" "drop (Suc (Suc p)) s = b @ CHR 0x22 # rest"
    using at_cons [of "Suc p" s] by auto
  show ?case using at e spells_escape by (subst scan_chars.simps) (simp add: Let_def)
next
  case (spells_unicode b d h v)
  have at: "p < length s" "s ! p = CHR 0x5C" "drop (Suc p) s = CHR ''u'' # h @ b @ CHR 0x22 # rest"
    using at_cons [of p s] spells_unicode.prems by auto
  then have u: "peek s (Suc p) = Some (CHR ''u'')" "drop (Suc (Suc p)) s = h @ b @ CHR 0x22 # rest"
    using at_cons [of "Suc p" s] by auto
  have d5: "drop (Suc p + 5) s = b @ CHR 0x22 # rest"
    using escape_digits(3) [OF spells_unicode(2), of "Suc p" s "b @ CHR 0x22 # rest"] u(2) by simp
  have esc: "unicode_escape s (Suc p) = Ok (utf8_encode v, 4)"
    by (rule unicode_escape_plain [OF spells_unicode(2,3) u(2)]) (use spells_next [OF spells_unicode(1) d5] in simp_all)
  have "length h = 4" using spells_unicode(2) by (simp add: hex4_def)
  then show ?case using at u esc spells_unicode.IH [of "p + 6"] d5
    by (subst scan_chars.simps) (simp add: Let_def simple_escape_def add.commute)
next
  case (spells_pair b d h v l w)
  have at: "p < length s" "s ! p = CHR 0x5C" "drop (Suc p) s = CHR ''u'' # h @ CHR 0x5C # CHR ''u'' # l @ b @ CHR 0x22 # rest"
    using at_cons [of p s] spells_pair.prems by auto
  then have u: "peek s (Suc p) = Some (CHR ''u'')"
    "drop (Suc (Suc p)) s = h @ CHR 0x5C # CHR ''u'' # l @ b @ CHR 0x22 # rest"
    using at_cons [of "Suc p" s] by auto
  have lens: "length h = 4" "length l = 4" using spells_pair(2,3) by (simp_all add: hex4_def)
  have d11: "drop (Suc p + 11) s = b @ CHR 0x22 # rest"
    using at_append [of "Suc (Suc p)" s "h @ CHR 0x5C # CHR ''u'' # l"] u(2) lens by simp
  have esc: "unicode_escape s (Suc p) = Ok (utf8_encode (0x10000 + (v - 0xD800) * 0x400 + (w - 0xDC00)), 10)"
    by (rule unicode_escape_pair [OF spells_pair(2-7) u(2)]) (use spells_next [OF spells_pair(1) d11] in simp_all)
  show ?case using at u esc spells_pair.IH [of "p + 12"] d11 lens
    by (subst scan_chars.simps) (simp add: Let_def simple_escape_def add.commute)
qed


section \<open>Texts with repeated keys\<close>

text \<open>
  A JSON text: the token of a number or literal, the spelling of a string, the members of an object
  with the spelling of each key and the text it stands for, and the white space around each of them.
\<close>

datatype raw =
    Token string
  | Spelled string string
  | Items string "raw list"
  | Members string "(string \<times> string \<times> string \<times> string \<times> raw) list"
  | Padded string raw string

fun render :: "raw \<Rightarrow> string" where
  "render (Token t) = t"
| "render (Spelled b d) = CHR 0x22 # b @ [CHR 0x22]"
| "render (Items g ts) = CHR ''['' # g @ commas (map render ts) @ '']''"
| "render (Members g ms) = CHR ''{'' # g @
     commas (map (\<lambda>(a, b, k, e, t). a @ CHR 0x22 # b @ CHR 0x22 # e @ CHR '':'' # render t) ms) @ ''}''"
| "render (Padded a t e) = a @ render t @ e"

definition token_ok :: "string \<Rightarrow> bool" where
  "token_ok t \<longleftrightarrow> t \<in> {''true'', ''false'', ''null''} \<or>
     t \<noteq> [] \<and> list_all (\<lambda>c. \<not> structural c) t \<and>
     hd t \<notin> {CHR 0x22, CHR ''['', CHR ''{'', CHR ''t'', CHR ''f'', CHR ''n''}"

definition blank :: "string \<Rightarrow> bool" where "blank g \<longleftrightarrow> list_all is_ws g"

fun raw_ok :: "raw \<Rightarrow> bool" where
  "raw_ok (Token t) \<longleftrightarrow> token_ok t"
| "raw_ok (Spelled b d) \<longleftrightarrow> spells b d"
| "raw_ok (Items g ts) \<longleftrightarrow> blank g \<and> (\<forall>t \<in> set ts. raw_ok t)"
| "raw_ok (Members g ms) \<longleftrightarrow> blank g \<and> (\<forall>(a, b, k, e, t) \<in> set ms. blank a \<and> blank e \<and> spells b k \<and> raw_ok t)"
| "raw_ok (Padded a t e) \<longleftrightarrow> blank a \<and> blank e \<and> raw_ok t"

definition member_key :: "string \<times> string \<times> string \<times> string \<times> raw \<Rightarrow> string" where
  "member_key m = (case m of (a, b, k, e, t) \<Rightarrow> k)"

fun keys_distinct :: "raw \<Rightarrow> bool" where
  "keys_distinct (Token t) \<longleftrightarrow> True"
| "keys_distinct (Spelled b d) \<longleftrightarrow> True"
| "keys_distinct (Items g ts) \<longleftrightarrow> (\<forall>t \<in> set ts. keys_distinct t)"
| "keys_distinct (Members g ms) \<longleftrightarrow> distinct (map member_key ms) \<and> (\<forall>(a, b, k, e, t) \<in> set ms. keys_distinct t)"
| "keys_distinct (Padded a t e) \<longleftrightarrow> keys_distinct t"

text \<open>
  What a scan of a value up to \<open>q\<close> should give. A scan stops before the white space that follows, so
  ends are compared up to it.
\<close>

definition judged :: "string \<Rightarrow> bool \<Rightarrow> nat \<Rightarrow> nat scan \<Rightarrow> bool" where
  "judged s ok q r \<longleftrightarrow>
     (if ok then \<exists>e. r = Some (Ok e) \<and> ws s e = ws s q else \<exists>k. r = Some (Err (C_DuplicateKey k [])))"

definition ends :: "string \<Rightarrow> bool" where
  "ends r \<longleftrightarrow> r = [] \<or> structural (hd r)"

lemma ws_at: "drop p s = c # r \<Longrightarrow> \<not> is_ws c \<Longrightarrow> ws s p = p"
  by (simp add: ws_def)

lemma ws_blank: "drop p s = g @ r \<Longrightarrow> blank g \<Longrightarrow> ws s p = ws s (p + length g)"
  using at_append [of p s g r] by (simp add: ws_def blank_def list_all_iff takeWhile_append2)

lemma ws_ws: "ws s (ws s p) = ws s p"
proof -
  have "takeWhile is_ws (dropWhile is_ws xs) = []" for xs by (induction xs) auto
  from this [of "drop p s"] show ?thesis by (simp add: ws_def dropWhile_eq_drop add.commute)
qed

lemma ws_blank_at: "drop p s = g @ c # r \<Longrightarrow> blank g \<Longrightarrow> \<not> is_ws c \<Longrightarrow> ws s p = p + length g"
  using ws_blank ws_at at_append by fastforce

lemma ends_simps [simp]: "ends []" "ends (c # r) \<longleftrightarrow> structural c"
  by (simp_all add: ends_def)

lemma ends_blank: "blank g \<Longrightarrow> ends r \<Longrightarrow> ends (g @ r)"
  by (cases g) (simp_all add: blank_def structural_def)

lemma blank_simps [simp]: "blank []" "blank (c # g) \<longleftrightarrow> is_ws c \<and> blank g" "blank (a @ g) \<longleftrightarrow> blank a \<and> blank g"
  by (simp_all add: blank_def)

lemma structural_simps [simp]:
  "structural (CHR '','')" "structural (CHR '']'')" "structural (CHR ''}'')"
  by (simp_all add: structural_def)

lemma render_head: "raw_ok t \<Longrightarrow> \<exists>g c r. render t = g @ c # r \<and> blank g \<and> \<not> structural c"
proof (induction t)
  case (Token x)
  then have "\<exists>c r. x = c # r \<and> \<not> structural c" by (cases x) (auto simp: token_ok_def structural_def is_ws_def)
  then show ?case by (metis append_Nil blank_simps(1) render.simps(1))
next
  case (Padded a t e)
  then obtain g c r where "render t = g @ c # r" "blank g" "\<not> structural c" by auto
  then show ?case using Padded.prems by (intro exI [of _ "a @ g"] exI [of _ c] exI [of _ "r @ e"]) simp
qed (rule exI [of _ "[]"]; simp add: structural_def is_ws_def)+

lemma scan_from:
  assumes "ws s p = ws s q"
  shows "scan_value n s p = scan_value n s q" "scan_items n s p = scan_items n s q"
    "scan_members n s p seen = scan_members n s q seen"
proof -
  show v: "scan_value n s p = scan_value n s q" for n by (cases n) (simp_all only: scan_value.simps assms)
  show "scan_items n s p = scan_items n s q" by (cases n) (simp_all only: scan_items.simps v)
  show "scan_members n s p seen = scan_members n s q seen" by (cases n) (simp_all only: scan_members.simps assms)
qed

lemma not_structural_ws: "\<not> structural c \<Longrightarrow> \<not> is_ws c"
  by (simp add: structural_def)

lemma skip_token_at:
  assumes "drop p s = t @ r" "list_all (\<lambda>c. \<not> structural c) t" "ends r"
  shows "skip_token s p = p + length t"
proof -
  have "takeWhile (\<lambda>c. \<not> structural c) (t @ r) = t @ takeWhile (\<lambda>c. \<not> structural c) r"
    using assms(2) by (simp add: list_all_iff takeWhile_append2)
  moreover have "takeWhile (\<lambda>c. \<not> structural c) r = []" using assms(3) by (cases r) auto
  ultimately show ?thesis using assms(1) by (simp add: skip_token_def)
qed

lemma scan_token:
  assumes "token_ok t" "drop p s = t @ r" "ends r"
  shows "scan_value (Suc n) s p = Some (Ok (p + length t))"
proof -
  obtain c x where t: "t = c # x" using assms(1) by (cases t) (auto simp: token_ok_def)
  have "\<not> structural c" using assms(1) t by (auto simp: token_ok_def structural_def is_ws_def)
  then have w: "ws s p = p" using ws_at [of p s c "x @ r"] assms(2) t not_structural_ws by simp
  have pk: "peek s p = Some c" using at_cons [of p s c "x @ r"] assms(2) t by simp
  consider "t = ''true''" | "t = ''false''" | "t = ''null''" |
    "list_all (\<lambda>c. \<not> structural c) t" "c \<notin> {CHR 0x22, CHR ''['', CHR ''{'', CHR ''t'', CHR ''f'', CHR ''n''}"
    using assms(1) t by (auto simp: token_ok_def)
  then show ?thesis
  proof cases
    case 4
    then show ?thesis using w pk skip_token_at [OF assms(2) 4(1) assms(3)] by (simp add: Let_def)
  qed (use w pk t assms(2) in \<open>auto simp: Let_def starts_with_def\<close>)
qed

lemma scan_spelled:
  assumes "spells b d" "drop p s = CHR 0x22 # b @ CHR 0x22 # r"
  shows "scan_string s p = Ok (d, p + length b + 2)"
  using scan_chars_spells [OF assms(1), of "Suc p" s r "[]"] at_cons [OF assms(2)] by (simp add: scan_string_def)


definition scans :: "string \<Rightarrow> raw \<Rightarrow> bool" where
  "scans s t \<longleftrightarrow> (\<forall>n p r. drop p s = render t @ r \<longrightarrow> ends r \<longrightarrow> scan_value n s p \<noteq> None \<longrightarrow>
     judged s (keys_distinct t) (p + length (render t)) (scan_value n s p))"

lemma after_judged:
  assumes "judged s ok q r" "\<And>e. ws s e = ws s q \<Longrightarrow> f e = f q" "ok \<Longrightarrow> judged s ok' q' (f q)"
  shows "judged s (ok \<and> ok') q' (after r f)"
proof (cases ok)
  case True
  then obtain e where "r = Some (Ok e)" "ws s e = ws s q" using assms(1) by (auto simp: judged_def)
  then show ?thesis using True assms(2) [of e] assms(3) by simp
next
  case False
  then obtain k where "r = Some (Err (C_DuplicateKey k []))" using assms(1) by (auto simp: judged_def)
  then show ?thesis using False by (simp add: judged_def)
qed

lemma judged_end: "judged s ok q r \<Longrightarrow> ws s q = ws s q' \<Longrightarrow> judged s ok q' r"
  unfolding judged_def by (rule subst)

lemma judged_total:
  assumes "judged s ok q r" ok "\<And>e. ws s e = ws s q \<Longrightarrow> f e = f q"
  shows "after r f = f q"
proof -
  obtain e where "r = Some (Ok e)" "ws s e = ws s q" using assms(1,2) by (auto simp: judged_def)
  then show ?thesis using assms(3) [of e] by simp
qed

lemma close_at:
  assumes "drop q s = c # r" "structural c" "\<not> is_ws c"
  shows "ws s q = q" "peek s q = Some c"
  using ws_at [OF assms(1,3)] at_cons [OF assms(1)] by simp_all

lemma comma_close: "\<not> is_ws (CHR '','')" "\<not> is_ws (CHR '']'')" "\<not> is_ws (CHR ''}'')" "\<not> is_ws (CHR '':'')" "\<not> is_ws (CHR 0x22)"
    "\<not> is_ws (CHR ''['')" "\<not> is_ws (CHR ''{'')"
  by (simp_all add: is_ws_def)

lemma scan_items_render:
  "ts \<noteq> [] \<Longrightarrow> \<forall>t \<in> set ts. scans s t \<Longrightarrow> drop p s = commas (map render ts) @ CHR '']'' # r \<Longrightarrow> scan_items n s p \<noteq> None \<Longrightarrow>
   judged s (\<forall>t \<in> set ts. keys_distinct t) (p + length (commas (map render ts)) + 1) (scan_items n s p)"
proof (induction ts arbitrary: n p)
  case (Cons t ts)
  obtain m where m: "n = Suc m" using Cons.prems(4) by (cases n) auto
  define rest where "rest = (if ts = [] then CHR '']'' # r else CHR '','' # commas (map render ts) @ CHR '']'' # r)"
  have d: "drop p s = render t @ rest" using Cons.prems(3) by (cases ts) (simp_all add: rest_def)
  have ends: "ends rest" by (simp add: rest_def)
  have total: "scan_value m s p \<noteq> None" using Cons.prems(4) m by (auto simp: after_None)
  have head: "judged s (keys_distinct t) (p + length (render t)) (scan_value m s p)"
    using Cons.prems(2) d ends total by (simp add: scans_def)
  let ?q = "p + length (render t)"
  have dq: "drop ?q s = rest" using at_append [OF d] .
  define f where "f = (\<lambda>q0. let q = ws s q0 in case peek s q of
         None \<Rightarrow> Some (invalid ''unterminated array'')
       | Some next \<Rightarrow>
           if next = CHR '']'' then Some (Ok (q + 1))
           else if next \<noteq> CHR '','' then Some (invalid (''expected '' @ tick CHR '','' @ '' or '' @ tick CHR '']''))
           else scan_items m s (q + 1))"
  have step: "scan_items n s p = after (scan_value m s p) f" by (simp add: m f_def)
  have same: "f e = f ?q" if "ws s e = ws s ?q" for e using that by (simp add: f_def)
  have tail: "judged s (\<forall>t \<in> set ts. keys_distinct t) (p + length (commas (map render (t # ts))) + 1) (f ?q)"
    if ok: "keys_distinct t"
  proof (cases ts)
    case Nil
    then have "drop ?q s = CHR '']'' # r" using dq by (simp add: rest_def)
    then have "f ?q = Some (Ok (?q + 1))" using close_at [of ?q s] comma_close by (simp add: f_def)
    then show ?thesis using Nil by (simp add: judged_def)
  next
    case more: (Cons u us)
    then have c: "drop ?q s = CHR '','' # commas (map render ts) @ CHR '']'' # r" using dq by (simp add: rest_def)
    then have fq: "f ?q = scan_items m s (Suc ?q)" using close_at [OF c] comma_close by (simp add: f_def)
    have total: "scan_items m s (Suc ?q) \<noteq> None"
      using Cons.prems(4) judged_total [where f = f, OF head ok same] fq unfolding step by simp
    have at: "drop (Suc ?q) s = commas (map render ts) @ CHR '']'' # r" using at_cons [OF c] by simp
    have "judged s (\<forall>t \<in> set ts. keys_distinct t) (Suc ?q + length (commas (map render ts)) + 1) (scan_items m s (Suc ?q))"
      by (rule Cons.IH [OF _ _ at total]) (use Cons.prems(2) more in simp_all)
    then show ?thesis using fq more by (simp add: ac_simps)
  qed
  show ?case using after_judged [where f = f, OF head same tail] unfolding step by simp
qed simp

definition member_text :: "string \<times> string \<times> string \<times> string \<times> raw \<Rightarrow> string" where
  "member_text m = (case m of (a, b, k, e, t) \<Rightarrow> a @ CHR 0x22 # b @ CHR 0x22 # e @ CHR '':'' # render t)"

lemma scan_members_render:
  "ms \<noteq> [] \<Longrightarrow> \<forall>(a, b, k, e, t) \<in> set ms. blank a \<and> blank e \<and> spells b k \<and> scans s t \<Longrightarrow>
   drop p s = commas (map member_text ms) @ CHR ''}'' # r \<Longrightarrow>
   scan_members n s p seen \<noteq> None \<Longrightarrow>
   judged s (distinct (map member_key ms) \<and> (\<forall>(a, b, k, e, t) \<in> set ms. keys_distinct t) \<and> seen \<inter> member_key ` set ms = {})
     (p + length (commas (map member_text ms)) + 1) (scan_members n s p seen)"
proof (induction ms arbitrary: n p seen)
  case (Cons mem ms)
  obtain a b k e t where x: "mem = (a, b, k, e, t)" by (cases mem)
  obtain m where m: "n = Suc m" using Cons.prems(4) by (cases n) auto
  have mt: "member_text mem = a @ CHR 0x22 # b @ CHR 0x22 # e @ CHR '':'' # render t" by (simp add: x member_text_def)
  let ?text = "\<lambda>ms. commas (map member_text ms)"
  define rest where "rest = (if ms = [] then CHR ''}'' # r else CHR '','' # ?text ms @ CHR ''}'' # r)"
  have d: "drop p s = a @ CHR 0x22 # b @ CHR 0x22 # e @ CHR '':'' # render t @ rest"
    using Cons.prems(3) mt by (cases ms) (simp_all add: rest_def)
  have sp: "spells b k" and st: "scans s t" and gaps: "blank a" "blank e" using Cons.prems(2) x by auto
  let ?k = "p + length a"
  have dk: "drop ?k s = CHR 0x22 # b @ CHR 0x22 # e @ CHR '':'' # render t @ rest" using at_append [OF d] .
  have quote: "ws s p = ?k" "\<not> peek s ?k \<noteq> Some (CHR 0x22)"
    using ws_blank_at [OF d gaps(1)] at_cons [OF dk] comma_close by simp_all
  have str: "scan_string s ?k = Ok (k, ?k + length b + 2)" by (rule scan_spelled [OF sp dk])
  have de: "drop (?k + length b + 2) s = e @ CHR '':'' # render t @ rest"
    using at_append [of ?k s "CHR 0x22 # b @ [CHR 0x22]" "e @ CHR '':'' # render t @ rest"] dk by simp
  let ?c = "?k + length b + 2 + length e"
  have dc: "drop ?c s = CHR '':'' # render t @ rest" using at_append [OF de] .
  have colon: "ws s (?k + length b + 2) = ?c" "\<not> peek s ?c \<noteq> Some (CHR '':'')"
    using ws_blank_at [OF de gaps(2)] at_cons [OF dc] comma_close by simp_all
  have dv: "drop (?c + 1) s = render t @ rest" using at_cons [OF dc] by simp
  define f where "f = (\<lambda>r0. let r = ws s r0 in case peek s r of
              None \<Rightarrow> Some (invalid ''unterminated object'')
            | Some next \<Rightarrow>
                if next = CHR ''}'' then Some (Ok (r + 1))
                else if next \<noteq> CHR '','' then Some (invalid (''expected '' @ tick CHR '','' @ '' or '' @ tick CHR ''}''))
                else scan_members m s (r + 1) (insert k seen))"
  have step: "scan_members n s p seen =
      (if k \<in> seen then Some (Err (C_DuplicateKey k [])) else after (scan_value m s (?c + 1)) f)"
    using quote str colon by (simp add: m f_def Let_def)
  show ?case
  proof (cases "k \<in> seen")
    case True
    then show ?thesis unfolding step x by (auto simp: judged_def member_key_def)
  next
    case fresh: False
    have total: "scan_value m s (?c + 1) \<noteq> None" using Cons.prems(4) fresh unfolding step by (auto simp: after_None)
    have "ends rest" by (simp add: rest_def)
    then have head: "judged s (keys_distinct t) (?c + 1 + length (render t)) (scan_value m s (?c + 1))"
      using st dv total unfolding scans_def by blast
    let ?q = "?c + 1 + length (render t)"
    have dq: "drop ?q s = rest" using at_append [OF dv] .
    have same: "f x = f ?q" if "ws s x = ws s ?q" for x using that by (simp add: f_def)
    define oks where "oks \<longleftrightarrow> distinct (map member_key ms) \<and> (\<forall>(a, b, k, e, t) \<in> set ms. keys_distinct t) \<and>
       insert k seen \<inter> member_key ` set ms = {}"
    have len: "length (member_text mem) = length a + length b + length e + length (render t) + 3"
      by (simp add: mt)
    have tail: "judged s oks (p + length (?text (mem # ms)) + 1) (f ?q)" if ok: "keys_distinct t"
    proof (cases ms)
      case Nil
      then have "drop ?q s = CHR ''}'' # r" using dq by (simp add: rest_def)
      then have "f ?q = Some (Ok (?q + 1))" using close_at [of ?q s] comma_close by (simp add: f_def)
      moreover have at: "p + length (?text (mem # ms)) + 1 = ?q + 1" using Nil len by simp
      ultimately show ?thesis unfolding at using Nil by (simp add: judged_def oks_def)
    next
      case more: (Cons u us)
      then have c: "drop ?q s = CHR '','' # ?text ms @ CHR ''}'' # r" using dq by (simp add: rest_def)
      then have fq: "f ?q = scan_members m s (Suc ?q) (insert k seen)" using close_at [OF c] comma_close by (simp add: f_def)
      have total: "scan_members m s (Suc ?q) (insert k seen) \<noteq> None"
        using Cons.prems(4) judged_total [where f = f, OF head ok same] fq fresh unfolding step by simp
      have at: "drop (Suc ?q) s = ?text ms @ CHR ''}'' # r" using at_cons [OF c] by simp
      have "judged s oks (Suc ?q + length (?text ms) + 1) (scan_members m s (Suc ?q) (insert k seen))"
        unfolding oks_def by (rule Cons.IH [OF _ _ at total]) (use Cons.prems(2) more in simp_all)
      moreover have at: "p + length (?text (mem # ms)) + 1 = Suc ?q + length (?text ms) + 1" using more len by simp
      ultimately show ?thesis unfolding at fq by iprover
    qed
    have "judged s (keys_distinct t \<and> oks) (p + length (?text (mem # ms)) + 1) (scan_members n s p seen)"
      using after_judged [where f = f, OF head same tail] fresh unfolding step by simp
    moreover have "keys_distinct t \<and> oks \<longleftrightarrow> distinct (map member_key (mem # ms)) \<and>
        (\<forall>(a, b, k, e, t) \<in> set (mem # ms). keys_distinct t) \<and> seen \<inter> member_key ` set (mem # ms) = {}"
      using fresh by (auto simp: x oks_def member_key_def image_iff)
    ultimately show ?thesis by simp
  qed
qed simp

lemma scansI:
  "(\<And>n p r. drop p s = render t @ r \<Longrightarrow> ends r \<Longrightarrow> scan_value (Suc n) s p \<noteq> None \<Longrightarrow>
     judged s (keys_distinct t) (p + length (render t)) (scan_value (Suc n) s p)) \<Longrightarrow> scans s t"
  unfolding scans_def by (metis not0_implies_Suc scan_value.simps(1))

lemma scans_items:
  assumes "blank g" "\<forall>t \<in> set ts. raw_ok t \<and> scans s t"
  shows "scans s (Items g ts)"
proof (rule scansI)
  fix m p r assume d: "drop p s = render (Items g ts) @ r" "ends r" "scan_value (Suc m) s p \<noteq> None"
  have at: "drop p s = CHR ''['' # g @ commas (map render ts) @ CHR '']'' # r" using d(1) by simp
  have w: "ws s p = p" "peek s p = Some (CHR ''['')" using ws_at [OF at] at_cons [OF at] comma_close by simp_all
  have next': "drop (Suc p) s = g @ commas (map render ts) @ CHR '']'' # r" using at_cons [OF at] by simp
  let ?q = "Suc p + length g"
  show "judged s (keys_distinct (Items g ts)) (p + length (render (Items g ts))) (scan_value (Suc m) s p)"
  proof (cases ts)
    case Nil
    then have e: "drop (Suc p) s = g @ CHR '']'' # r" using next' by simp
    have "ws s (Suc p) = ?q" "peek s ?q = Some (CHR '']'')"
      using ws_blank_at [OF e assms(1)] at_cons [OF at_append [OF e]] comma_close by simp_all
    then show ?thesis using w Nil by (simp add: Let_def judged_def)
  next
    case (Cons u us)
    obtain h c y where c: "render u = h @ c # y" "blank h" "\<not> structural c" using render_head assms(2) Cons by fastforce
    obtain z where z: "drop (Suc p) s = (g @ h) @ c # z" using next' Cons c(1) by (cases us) auto
    have n: "ws s (Suc p) = Suc p + length (g @ h)" "peek s (Suc p + length (g @ h)) \<noteq> Some (CHR '']'')"
      using ws_blank_at [OF z _ not_structural_ws [OF c(3)]] assms(1) c(2,3) at_cons [OF at_append [OF z]] by auto
    have "scan_value (Suc m) s p = scan_items m s (ws s (Suc p))" using w n by (simp add: Let_def del: scan_items.simps)
    also have "\<dots> = scan_items m s ?q"
      using ws_blank [OF next' assms(1)] by (intro scan_from) (simp add: ws_ws)
    finally have v: "scan_value (Suc m) s p = scan_items m s ?q" .
    have "judged s (\<forall>t \<in> set ts. keys_distinct t) (?q + length (commas (map render ts)) + 1) (scan_items m s ?q)"
      by (rule scan_items_render [OF _ _ at_append [OF next']]) (use Cons assms(2) d(3) v in simp_all)
    then show ?thesis using v by (simp add: ac_simps)
  qed
qed

lemma scans_members:
  assumes "blank g" "\<forall>(a, b, k, e, t) \<in> set ms. blank a \<and> blank e \<and> spells b k \<and> scans s t"
  shows "scans s (Members g ms)"
proof (rule scansI)
  fix m p r assume d: "drop p s = render (Members g ms) @ r" "ends r" "scan_value (Suc m) s p \<noteq> None"
  let ?text = "commas (map member_text ms)"
  have text_eq: "render (Members g ms) = CHR ''{'' # g @ ?text @ ''}''" by (simp add: member_text_def [abs_def])
  have at: "drop p s = CHR ''{'' # g @ ?text @ CHR ''}'' # r" using d(1) unfolding text_eq by simp
  have w: "ws s p = p" "peek s p = Some (CHR ''{'')" using ws_at [OF at] at_cons [OF at] comma_close by simp_all
  have next': "drop (Suc p) s = g @ ?text @ CHR ''}'' # r" using at_cons [OF at] by simp
  let ?q = "Suc p + length g"
  show "judged s (keys_distinct (Members g ms)) (p + length (render (Members g ms))) (scan_value (Suc m) s p)"
  proof (cases ms)
    case Nil
    then have e: "drop (Suc p) s = g @ CHR ''}'' # r" using next' by simp
    have "ws s (Suc p) = ?q" "peek s ?q = Some (CHR ''}'')"
      using ws_blank_at [OF e assms(1)] at_cons [OF at_append [OF e]] comma_close by simp_all
    then show ?thesis using w Nil by (simp add: Let_def judged_def)
  next
    case (Cons u us)
    obtain a b k e t where u: "u = (a, b, k, e, t)" by (cases u)
    then have a: "blank a" using assms(2) Cons by auto
    obtain z where z: "drop (Suc p) s = (g @ a) @ CHR 0x22 # z" using next' Cons u by (cases us) (auto simp: member_text_def)
    have n: "ws s (Suc p) = Suc p + length (g @ a)" "peek s (Suc p + length (g @ a)) \<noteq> Some (CHR ''}'')"
      using ws_blank_at [OF z] assms(1) a comma_close at_cons [OF at_append [OF z]] by auto
    have "scan_value (Suc m) s p = scan_members m s (ws s (Suc p)) {}" using w n by (simp add: Let_def del: scan_members.simps)
    also have "\<dots> = scan_members m s ?q {}"
      using ws_blank [OF next' assms(1)] by (intro scan_from) (simp add: ws_ws)
    finally have v: "scan_value (Suc m) s p = scan_members m s ?q {}" .
    have "judged s (distinct (map member_key ms) \<and> (\<forall>(a, b, k, e, t) \<in> set ms. keys_distinct t) \<and> {} \<inter> member_key ` set ms = {})
        (?q + length ?text + 1) (scan_members m s ?q {})"
      by (rule scan_members_render [OF _ assms(2) at_append [OF next']]) (use Cons d(3) v in simp_all)
    then show ?thesis using v unfolding text_eq by (simp add: ac_simps)
  qed
qed

lemma scans_all: "raw_ok t \<Longrightarrow> scans s t"
proof (induction t)
  case (Token x)
  show ?case
    by (rule scansI) (use scan_token [of x] Token in \<open>auto simp: judged_def simp del: scan_value.simps\<close>)
next
  case (Spelled b d)
  show ?case
  proof (rule scansI)
    fix m p r assume "drop p s = render (Spelled b d) @ r"
    then have at: "drop p s = CHR 0x22 # b @ CHR 0x22 # r" by simp
    have "ws s p = p" "peek s p = Some (CHR 0x22)" using ws_at [OF at] at_cons [OF at] comma_close by simp_all
    then have "scan_value (Suc m) s p = Some (Ok (p + length b + 2))"
      using scan_spelled [OF _ at, of d] Spelled by (simp add: Let_def)
    then show "judged s (keys_distinct (Spelled b d)) (p + length (render (Spelled b d))) (scan_value (Suc m) s p)"
      by (simp add: judged_def del: scan_value.simps)
  qed
next
  case (Items g ts)
  then show ?case by (intro scans_items) auto
next
  case (Members g ms)
  then show ?case by (intro scans_members) fastforce+
next
  case (Padded a t e)
  show ?case
  proof (rule scansI)
    fix m p r assume d: "drop p s = render (Padded a t e) @ r" "ends r" "scan_value (Suc m) s p \<noteq> None"
    have at: "drop p s = a @ render t @ e @ r" using d(1) by simp
    have v: "scan_value (Suc m) s p = scan_value (Suc m) s (p + length a)"
      using ws_blank [OF at] Padded.prems by (intro scan_from) simp
    have "judged s (keys_distinct t) (p + length a + length (render t)) (scan_value (Suc m) s (p + length a))"
      using Padded at_append [OF at] ends_blank [of e r] d(2,3) v unfolding scans_def by (metis raw_ok.simps(5))
    moreover have "ws s (p + length a + length (render t)) = ws s (p + length a + length (render t) + length e)"
      using at_append [OF at_append [OF at]] Padded.prems by (intro ws_blank) auto
    ultimately have "judged s (keys_distinct t) (p + length a + length (render t) + length e) (scan_value (Suc m) s (p + length a))"
      by (rule judged_end)
    then show "judged s (keys_distinct (Padded a t e)) (p + length (render (Padded a t e))) (scan_value (Suc m) s p)"
      unfolding v by (simp add: ac_simps del: scan_value.simps)
  qed
qed



text \<open>
  The one abort of the scanner: four bytes after an escape that end inside a character, here the
  first byte of a two-byte one.
\<close>

lemma escape_into_a_character_aborts:
  "reject_duplicates [CHR 0x22, CHR 0x5C, CHR ''u'', CHR ''1'', CHR ''2'', CHR ''3'', CHR 0xC3, CHR 0xA9, CHR 0x22]
     = Some Panic"
  by code_simp

end
