(* ===== verification/Endpoint.thy ===== *)
theory Endpoint
  imports Estimate Hashing
begin

text \<open>
  The endpoint check of \<open>crates/supra_config/src/layer.rs\<close>: which hosts count as loopback, with
  the address parser of the standard library (\<open>core::net::parser\<close>) that it relies on. Texts are
  UTF-8 bytes; every character these functions look at is ASCII.
\<close>

section \<open>Addresses\<close>

definition to_digit :: "nat \<Rightarrow> char \<Rightarrow> nat option" where
  "to_digit radix c = (case hex_value c of Some d \<Rightarrow> if d < radix then Some d else None | None \<Rightarrow> None)"

definition digits_of :: "nat \<Rightarrow> string \<Rightarrow> string" where
  "digits_of radix s = takeWhile (\<lambda>c. to_digit radix c \<noteq> None) s"

definition value_of :: "nat \<Rightarrow> string \<Rightarrow> nat" where
  "value_of radix ds = foldl (\<lambda>n c. radix * n + the (to_digit radix c)) 0 ds"

definition read_number :: "nat \<Rightarrow> nat \<Rightarrow> bool \<Rightarrow> nat \<Rightarrow> string \<Rightarrow> (nat \<times> string) option" where
  "read_number radix max_digits zero_prefix maximum s =
     (let ds = digits_of radix s; n = value_of radix ds in
      if max_digits < length ds then None
      else if ds = [] then None
      else if \<not> zero_prefix \<and> hd s = CHR ''0'' \<and> 1 < length ds then None
      else if maximum < n then None
      else Some (n, drop (length ds) s))"

fun given_char :: "char \<Rightarrow> string \<Rightarrow> string option" where
  "given_char c [] = None"
| "given_char c (x # s) = (if x = c then Some s else None)"

definition separated :: "char \<Rightarrow> nat \<Rightarrow> (string \<Rightarrow> ('a \<times> string) option) \<Rightarrow> string \<Rightarrow> ('a \<times> string) option" where
  "separated sep i inner s = (if i = 0 then inner s else Option.bind (given_char sep s) inner)"

definition octet :: "string \<Rightarrow> (nat \<times> string) option" where
  "octet = read_number 10 3 False 255"

definition read_ipv4 :: "string \<Rightarrow> ((nat \<times> nat \<times> nat \<times> nat) \<times> string) option" where
  "read_ipv4 s =
     Option.bind (separated CHR ''.'' 0 octet s) (\<lambda>(a, s).
     Option.bind (separated CHR ''.'' 1 octet s) (\<lambda>(b, s).
     Option.bind (separated CHR ''.'' 2 octet s) (\<lambda>(c, s).
     Option.bind (separated CHR ''.'' 3 octet s) (\<lambda>(d, s). Some ((a, b, c, d), s)))))"

text \<open>The groups read, whether they end with an IPv4 address, and the rest; \<open>n\<close> may still be read.\<close>

fun read_groups :: "nat \<Rightarrow> nat \<Rightarrow> string \<Rightarrow> nat list \<times> bool \<times> string" where
  "read_groups 0 i s = ([], False, s)"
| "read_groups (Suc n) i s =
     (case (if 0 < n then separated CHR '':'' i read_ipv4 s else None) of
        Some ((a, b, c, d), s') \<Rightarrow> ([256 * a + b, 256 * c + d], True, s')
      | None \<Rightarrow>
          (case separated CHR '':'' i (read_number 16 4 True 65535) s of
             Some (g, s') \<Rightarrow> (let (gs, v4, rest) = read_groups n (i + 1) s' in (g # gs, v4, rest))
           | None \<Rightarrow> ([], False, s)))"

definition read_ipv6 :: "string \<Rightarrow> (nat list \<times> string) option" where
  "read_ipv6 s =
     (let (head, v4, rest) = read_groups 8 0 s in
      if length head = 8 then Some (head, rest)
      else if v4 then None
      else Option.bind (given_char CHR '':'' rest) (\<lambda>rest.
           Option.bind (given_char CHR '':'' rest) (\<lambda>rest.
             let (tail, _, rest) = read_groups (8 - (length head + 1)) 0 rest
             in Some (head @ replicate (8 - length head - length tail) 0 @ tail, rest))))"

datatype ip_addr = V4 nat nat nat nat | V6 "nat list"

definition parse_ip :: "string \<Rightarrow> ip_addr option" where
  "parse_ip s =
     (case (case read_ipv4 s of Some ((a, b, c, d), rest) \<Rightarrow> Some (V4 a b c d, rest)
            | None \<Rightarrow> map_option (\<lambda>(gs, rest). (V6 gs, rest)) (read_ipv6 s)) of
        Some (ip, []) \<Rightarrow> Some ip
      | _ \<Rightarrow> None)"

fun is_loopback_ip :: "ip_addr \<Rightarrow> bool" where
  "is_loopback_ip (V4 a b c d) \<longleftrightarrow> a = 127"
| "is_loopback_ip (V6 gs) \<longleftrightarrow> gs = [0, 0, 0, 0, 0, 0, 0, 1]"

section \<open>Endpoints\<close>

definition is_loopback_authority :: "string \<Rightarrow> bool" where
  "is_loopback_authority host \<longleftrightarrow>
     map ascii_lower host = ''localhost'' \<or> (case parse_ip host of Some ip \<Rightarrow> is_loopback_ip ip | None \<Rightarrow> False)"

definition before :: "char set \<Rightarrow> string \<Rightarrow> string" where
  "before stop s = takeWhile (\<lambda>c. c \<notin> stop) s"

definition authority_host :: "string \<Rightarrow> string" where
  "authority_host rest =
     (let authority = before {CHR ''/'', CHR ''?'', CHR ''#''} rest in
      if CHR ''@'' \<in> set authority then []
      else case strip_prefix ''['' authority of
        Some after_bracket \<Rightarrow>
          (if CHR '']'' \<notin> set after_bracket then []
           else
             let host = before {CHR '']''} after_bracket;
                 after_close = drop (length host + 1) after_bracket
             in if (case strip_prefix '':'' after_close of
                      Some port \<Rightarrow> port \<noteq> [] \<and> list_all is_digit port
                    | None \<Rightarrow> after_close = [])
                then host else [])
      | None \<Rightarrow> before {CHR '':''} authority)"

datatype endpoint_fault = NeedsHost | PlaintextHttp | NeedsScheme

definition check_endpoint :: "string \<Rightarrow> (unit, endpoint_fault) outcome" where
  "check_endpoint value =
     (case strip_prefix ''https://'' value of
        Some rest \<Rightarrow> if rest = [] then Err NeedsHost else Ok ()
      | None \<Rightarrow>
          (case strip_prefix ''http://'' value of
             Some rest \<Rightarrow> if is_loopback_authority (authority_host rest) then Ok () else Err PlaintextHttp
           | None \<Rightarrow> Err NeedsScheme))"

section \<open>Which texts are addresses\<close>

lemma to_digit_10: "to_digit 10 c \<noteq> None \<longleftrightarrow> is_digit c"
  by (auto simp: to_digit_def hex_value_def is_digit_def Let_def)

lemma value_of_10: "\<forall>c \<in> set ds. is_digit c \<Longrightarrow> value_of 10 ds = read_nat ds"
proof (induction ds rule: rev_induct)
  case (snoc c ds)
  then have "48 \<le> (of_char c :: nat)" "(of_char c :: nat) \<le> 57" "(of_char c :: nat) - 48 < 10"
    by (auto simp: is_digit_def)
  then have "the (to_digit 10 c) = of_char c - 48" by (simp add: to_digit_def hex_value_def)
  then show ?case using snoc by (simp add: value_of_def read_nat_def)
qed (simp add: value_of_def read_nat_def)

lemma show_nat_short: "n < 1000 \<Longrightarrow> length (show_nat n) \<le> 3"
  by (simp add: show_nat.simps [of n] show_nat.simps [of "n div 10"] show_nat.simps [of "n div 100"] div_mult2_eq [symmetric])

lemma show_nat_zero: "hd (show_nat n) = CHR ''0'' \<Longrightarrow> n = 0"
proof (induction n rule: show_nat.induct)
  case (1 n)
  show ?case
  proof (cases "n < 10")
    case True
    then have "digit_char n = CHR ''0''" using 1(2) by (simp add: show_nat.simps [of n])
    then have "(of_char (digit_char n) :: nat) = 48" by simp
    then show ?thesis using of_char_digit [OF True] by simp
  next
    case False
    then have "hd (show_nat (n div 10)) = CHR ''0''" using 1(2) by (simp add: show_nat.simps [of n])
    then have "n div 10 = 0" using 1(1) False by simp
    then show ?thesis using False by simp
  qed
qed

lemma octet_iff: "octet s = Some (n, r) \<longleftrightarrow> s = show_nat n @ r \<and> stops r \<and> n \<le> 255"
proof
  let ?ds = "takeWhile is_digit s"
  have d: "digits_of 10 s = ?ds" unfolding digits_of_def to_digit_10 ..
  have all: "\<forall>c \<in> set ?ds. is_digit c" by (auto dest: set_takeWhileD)
  assume o: "octet s = Some (n, r)"
  then have n: "n = read_nat ?ds" "?ds \<noteq> []" "hd s = CHR ''0'' \<longrightarrow> length ?ds \<le> 1" "n \<le> 255" "r = drop (length ?ds) s"
    using value_of_10 [OF all] by (auto simp: octet_def read_number_def Let_def d split: if_splits)
  then have "hd ?ds = CHR ''0'' \<longrightarrow> length ?ds = 1" by (cases s) (auto split: if_splits)
  then have "show_nat n = ?ds" using show_read_nat [OF all n(2)] n(1) by simp
  moreover have "s = ?ds @ r" using n(5) by (metis dropWhile_eq_drop takeWhile_dropWhile_id)
  moreover have "r = dropWhile is_digit s" using n(5) by (simp add: dropWhile_eq_drop)
  then have "stops r" using hd_dropWhile [of is_digit s] by (auto simp: stops_def)
  ultimately show "s = show_nat n @ r \<and> stops r \<and> n \<le> 255" using n(4) by simp
next
  assume a: "s = show_nat n @ r \<and> stops r \<and> n \<le> 255"
  have tw: "takeWhile is_digit r = []" using a by (cases r) auto
  then have ds: "digits_of 10 s = show_nat n"
    using a show_nat_digits [of n] unfolding digits_of_def to_digit_10 by (simp add: takeWhile_append2)
  have v: "value_of 10 (show_nat n) = n" using value_of_10 [OF show_nat_digits] read_show_nat by simp
  have len: "length (show_nat n) \<le> 3" "hd (show_nat n) = CHR ''0'' \<longrightarrow> length (show_nat n) = 1"
    using show_nat_short [of n] show_nat_zero [of n] a by (auto simp: show_nat.simps [of 0])
  have "hd s = hd (show_nat n)" using a by (cases "show_nat n") auto
  then show "octet s = Some (n, r)" using a ds v len by (auto simp: octet_def read_number_def Let_def)
qed


definition dotted :: "nat \<Rightarrow> nat \<Rightarrow> nat \<Rightarrow> nat \<Rightarrow> string" where
  "dotted a b c d = show_nat a @ CHR ''.'' # show_nat b @ CHR ''.'' # show_nat c @ CHR ''.'' # show_nat d"

lemma given_char_Some: "given_char c s = Some r \<longleftrightarrow> s = c # r"
  by (cases s) auto

lemma separated_first [simp]: "separated sep 0 inner = inner"
  by (simp add: separated_def fun_eq_iff)

lemma separated_Some: "0 < i \<Longrightarrow> separated sep i inner s = Some x \<longleftrightarrow> (\<exists>r. s = sep # r \<and> inner r = Some x)"
  by (auto simp: separated_def bind_eq_Some_conv given_char_Some)

lemma stops_dot [simp]: "\<not> is_digit CHR ''.''"
  by (simp add: is_digit_def)

lemma read_ipv4_iff:
  "read_ipv4 s = Some ((a, b, c, d), r) \<longleftrightarrow>
     s = dotted a b c d @ r \<and> stops r \<and> a \<le> 255 \<and> b \<le> 255 \<and> c \<le> 255 \<and> d \<le> 255"
  by (auto simp: read_ipv4_def bind_eq_Some_conv separated_Some octet_iff dotted_def)

lemma parse_ip_v4:
  "parse_ip s = Some (V4 a b c d) \<longleftrightarrow> s = dotted a b c d \<and> a \<le> 255 \<and> b \<le> 255 \<and> c \<le> 255 \<and> d \<le> 255"
proof
  assume p: "parse_ip s = Some (V4 a b c d)"
  show "s = dotted a b c d \<and> a \<le> 255 \<and> b \<le> 255 \<and> c \<le> 255 \<and> d \<le> 255"
  proof (cases "read_ipv4 s")
    case (Some x)
    obtain a' b' c' d' r where x: "x = ((a', b', c', d'), r)" by (cases x) auto
    then have "r = []" "a' = a" "b' = b" "c' = c" "d' = d" using p Some by (auto simp: parse_ip_def split: list.splits)
    then show ?thesis using Some x read_ipv4_iff [of s a b c d "[]"] by simp
  qed (use p in \<open>auto simp: parse_ip_def split: option.splits list.splits prod.splits\<close>)
next
  assume "s = dotted a b c d \<and> a \<le> 255 \<and> b \<le> 255 \<and> c \<le> 255 \<and> d \<le> 255"
  then have "read_ipv4 s = Some ((a, b, c, d), [])" using read_ipv4_iff [of s a b c d "[]"] by simp
  then show "parse_ip s = Some (V4 a b c d)" by (simp add: parse_ip_def)
qed

text \<open>An address is written with hexadecimal digits, colons and dots only.\<close>

definition addr_char :: "char \<Rightarrow> bool" where
  "addr_char c \<longleftrightarrow> hex_value c \<noteq> None \<or> c = CHR '':'' \<or> c = CHR ''.''"

definition eats :: "string \<Rightarrow> string \<Rightarrow> bool" where
  "eats s r \<longleftrightarrow> (\<exists>p. s = p @ r \<and> (\<forall>c \<in> set p. addr_char c))"

lemma eats_refl [simp]: "eats s s"
  by (simp add: eats_def)

lemma eats_trans: "eats s r \<Longrightarrow> eats r q \<Longrightarrow> eats s q"
proof -
  assume "eats s r" "eats r q"
  then obtain p p' where "s = p @ r" "r = p' @ q" "\<forall>c \<in> set p. addr_char c" "\<forall>c \<in> set p'. addr_char c"
    by (auto simp: eats_def)
  then show "eats s q" unfolding eats_def by (intro exI [of _ "p @ p'"]) auto
qed

lemma read_number_eats: "read_number radix k z m s = Some (n, r) \<Longrightarrow> eats s r"
proof -
  assume "read_number radix k z m s = Some (n, r)"
  then have r: "r = drop (length (digits_of radix s)) s" by (auto simp: read_number_def Let_def split: if_splits)
  have "s = digits_of radix s @ r" unfolding r digits_of_def by (metis dropWhile_eq_drop takeWhile_dropWhile_id)
  moreover have "\<forall>c \<in> set (digits_of radix s). addr_char c"
    by (auto simp: digits_of_def addr_char_def to_digit_def dest!: set_takeWhileD split: option.splits)
  ultimately show "eats s r" unfolding eats_def by blast
qed

lemma separated_eats:
  assumes "separated sep i inner s = Some (x, r)" "addr_char sep" "\<And>s x r. inner s = Some (x, r) \<Longrightarrow> eats s r"
  shows "eats s r"
proof (cases "i = 0")
  case False
  then have "0 < i" by simp
  from assms(1) obtain t where "s = sep # t" "inner t = Some (x, r)"
    unfolding separated_Some [OF \<open>0 < i\<close>] by blast
  moreover have "eats (sep # t) t" using assms(2) unfolding eats_def by (intro exI [of _ "[sep]"]) simp
  ultimately show ?thesis using assms(3) eats_trans by blast
qed (use assms(1,3) in simp)

lemma addr_seps [simp]: "addr_char CHR '':''" "addr_char CHR ''.''"
  by (simp_all add: addr_char_def)

lemma digit_addr: "is_digit c \<Longrightarrow> addr_char c"
  by (auto simp: addr_char_def hex_value_def is_digit_def)

lemma read_ipv4_eats:
  assumes "read_ipv4 s = Some (x, r)" shows "eats s r"
proof -
  obtain a b c d where x: "x = (a, b, c, d)" by (cases x)
  then have "s = dotted a b c d @ r" using assms read_ipv4_iff [of s a b c d r] by simp
  moreover have "\<forall>y \<in> set (dotted a b c d). addr_char y"
    using show_nat_digits digit_addr by (auto simp: dotted_def)
  ultimately show ?thesis unfolding eats_def by blast
qed

lemma read_groups_eats: "read_groups n i s = (gs, v4, r) \<Longrightarrow> eats s r"
proof (induction n i s arbitrary: gs v4 r rule: read_groups.induct)
  case (2 n i s)
  show ?case
  proof (cases "if 0 < n then separated CHR '':'' i read_ipv4 s else None")
    case (Some x)
    then obtain q where q: "separated CHR '':'' i read_ipv4 s = Some (q, r)" using 2(2)
      by (cases x) (auto split: if_splits)
    show ?thesis by (rule separated_eats [OF q]) (use read_ipv4_eats in auto)
  next
    case v4: None
    show ?thesis
    proof (cases "separated CHR '':'' i (read_number 16 4 True 65535) s")
      case (Some x)
      obtain g s' where x: "x = (g, s')" by force
      obtain gs' v' where "read_groups n (i + 1) s' = (gs', v', r)"
        using 2(2) v4 Some x by (auto simp: Let_def split: prod.splits)
      then have "eats s' r" using 2(1) [OF v4 Some x [symmetric]] by blast
      moreover have "eats s s'" by (rule separated_eats [OF Some [unfolded x]]) (use read_number_eats in auto)
      ultimately show ?thesis using eats_trans by blast
    qed (use 2(2) v4 in simp)
  qed
qed simp

lemma read_ipv6_eats:
  assumes "read_ipv6 s = Some (gs, r)" shows "eats s r"
proof -
  obtain head v4 r0 where h: "read_groups 8 0 s = (head, v4, r0)" by (metis prod_cases3)
  have e: "eats s r0" using read_groups_eats [OF h] .
  show ?thesis
  proof (cases "length head = 8")
    case False
    then obtain r2 where r2: "r0 = CHR '':'' # CHR '':'' # r2" 
        "(let (tail, _, rest) = read_groups (8 - (length head + 1)) 0 r2
          in Some (head @ replicate (8 - length head - length tail) 0 @ tail, rest)) = Some (gs, r)"
      using assms h by (auto simp: read_ipv6_def bind_eq_Some_conv given_char_Some Let_def split: if_splits)
    obtain tail v where t: "read_groups (8 - (length head + 1)) 0 r2 = (tail, v, r)"
      using r2(2) by (auto split: prod.splits)
    have "eats r0 r2" unfolding r2(1) eats_def by (intro exI [of _ "[CHR '':'', CHR '':'']"]) simp
    then show ?thesis using e read_groups_eats [OF t] eats_trans by blast
  qed (use assms h e in \<open>simp add: read_ipv6_def\<close>)
qed

lemma parse_ip_chars: "parse_ip s = Some (V6 gs) \<Longrightarrow> \<forall>c \<in> set s. addr_char c"
proof -
  assume "parse_ip s = Some (V6 gs)"
  then have "read_ipv6 s = Some (gs, [])"
    by (auto simp: parse_ip_def split: option.splits list.splits prod.splits)
  then show ?thesis using read_ipv6_eats [of s gs "[]"] by (auto simp: eats_def)
qed

section \<open>What the endpoint check lets through\<close>

definition loopback_text :: "string \<Rightarrow> bool" where
  "loopback_text h \<longleftrightarrow> map ascii_lower h = ''localhost'' \<or>
     (\<exists>b c d. b \<le> 255 \<and> c \<le> 255 \<and> d \<le> 255 \<and> h = dotted 127 b c d) \<or>
     parse_ip h = Some (V6 [0, 0, 0, 0, 0, 0, 0, 1]) \<and> (\<forall>x \<in> set h. addr_char x)"

lemma loopback_authority_text: "is_loopback_authority h \<Longrightarrow> loopback_text h"
proof (cases "map ascii_lower h = ''localhost''")
  case False
  assume "is_loopback_authority h"
  then obtain ip where ip: "parse_ip h = Some ip" "is_loopback_ip ip"
    using False by (auto simp: is_loopback_authority_def split: option.splits)
  show ?thesis
  proof (cases ip)
    case (V4 a b c d)
    then have "h = dotted 127 b c d" "b \<le> 255" "c \<le> 255" "d \<le> 255"
      using ip parse_ip_v4 [of h a b c d] by simp_all
    then show ?thesis unfolding loopback_text_def by blast
  next
    case (V6 gs)
    then show ?thesis using ip parse_ip_chars [of h gs] by (simp add: loopback_text_def)
  qed
qed (simp add: loopback_text_def)

lemma before_split: "before S s @ drop (length (before S s)) s = s"
  unfolding before_def by (metis dropWhile_eq_drop takeWhile_dropWhile_id)

lemma before_rest: "drop (length (before S s)) s = [] \<or> hd (drop (length (before S s)) s) \<in> S"
proof -
  have "drop (length (before S s)) s = dropWhile (\<lambda>c. c \<notin> S) s" by (simp add: before_def dropWhile_eq_drop)
  then show ?thesis using hd_dropWhile [of "\<lambda>c. c \<notin> S" s] by auto
qed

lemma read_number_none: "digits_of radix s = [] \<Longrightarrow> read_number radix k z m s = None"
  by (simp add: read_number_def)

lemma read_groups_none:
  "digits_of 10 s = [] \<Longrightarrow> digits_of 16 s = [] \<Longrightarrow> read_groups n 0 s = ([], False, s)"
  by (cases n) (simp_all add: read_ipv4_def octet_def read_number_none)

lemma empty_not_loopback: "\<not> is_loopback_authority []"
proof -
  have "digits_of radix [] = []" for radix by (simp add: digits_of_def)
  then have "parse_ip [] = None"
    by (simp add: parse_ip_def read_ipv6_def read_ipv4_def octet_def read_number_none read_groups_none)
  then show ?thesis by (simp add: is_loopback_authority_def)
qed

lemma loopback_v6: "parse_ip ''::1'' = Some (V6 [0, 0, 0, 0, 0, 0, 0, 1])"
proof -
  have none: "digits_of 10 ''::1'' = []" "digits_of 16 ''::1'' = []"
    by (simp_all add: digits_of_def to_digit_def hex_value_def)
  have one: "digits_of 10 ''1'' = ''1''" "digits_of 16 ''1'' = ''1''"
    by (simp_all add: digits_of_def to_digit_def hex_value_def)
  have n: "octet ''1'' = Some (1, [])" "read_number 16 4 True 65535 ''1'' = Some (1, [])"
    by (simp_all add: octet_def read_number_def one value_of_def to_digit_def hex_value_def)
  then have "read_ipv4 ''1'' = None" by (simp add: read_ipv4_def separated_def)
  moreover have "read_groups 6 1 [] = ([], False, [])"
    using read_groups.simps(2) [of 5 1 "[]"] by (simp add: separated_def)
  ultimately have "read_groups 7 0 ''1'' = ([1], False, [])"
    using read_groups.simps(2) [of 6 0 "''1''"] n(2) by simp
  moreover have "replicate 7 (0 :: nat) = [0, 0, 0, 0, 0, 0, 0]" by (simp add: eval_nat_numeral)
  ultimately show ?thesis
    using none by (simp add: parse_ip_def read_ipv6_def read_ipv4_def octet_def read_number_none read_groups_none)
qed

lemma strip_prefix_Some: "strip_prefix p s = Some r \<longleftrightarrow> s = p @ r"
proof
  assume "strip_prefix p s = Some r"
  then have "take (length p) s = p" "r = drop (length p) s" by (simp_all add: strip_prefix_def split: if_splits)
  then show "s = p @ r" using append_take_drop_id [of "length p" s] by simp
qed simp

text \<open>
  C15. An endpoint that passes the check uses https, or plain http to this machine: then its
  authority, the text up to the first slash, question mark or hash, holds no user information and is
  \<open>localhost\<close> in any case, a dotted address of 127/8 or the loopback address of IPv6, alone,
  followed by a colon, or in brackets with at most a numeric port.
\<close>

theorem plaintext_stays_local:
  assumes "check_endpoint endpoint = Ok ()"
  shows "(\<exists>rest. endpoint = ''https://'' @ rest \<and> rest \<noteq> []) \<or>
    (\<exists>authority tail h. endpoint = ''http://'' @ authority @ tail \<and> CHR ''@'' \<notin> set authority \<and>
       (tail = [] \<or> hd tail \<in> {CHR ''/'', CHR ''?'', CHR ''#''}) \<and> loopback_text h \<and>
       (authority = h \<or> (\<exists>p. authority = h @ CHR '':'' # p) \<or> authority = CHR ''['' # h @ '']'' \<or>
        (\<exists>port. port \<noteq> [] \<and> list_all is_digit port \<and> authority = CHR ''['' # h @ '']:'' @ port)))"
proof (cases "strip_prefix ''https://'' endpoint")
  case (Some rest)
  then have "rest \<noteq> []" using assms by (simp add: check_endpoint_def split: if_splits)
  then show ?thesis using Some strip_prefix_Some by blast
next
  case None
  then obtain rest where r: "endpoint = ''http://'' @ rest" "is_loopback_authority (authority_host rest)"
    using assms by (auto simp: check_endpoint_def strip_prefix_Some split: option.splits if_splits)
  let ?S = "{CHR ''/'', CHR ''?'', CHR ''#''}"
  define a where "a = before ?S rest"
  define tail where "tail = drop (length a) rest"
  have at: "rest = a @ tail" "tail = [] \<or> hd tail \<in> ?S" 
    using before_split [of ?S rest] before_rest [of ?S rest] unfolding a_def tail_def by metis+
  have h: "authority_host rest \<noteq> []" using r(2) empty_not_loopback by metis
  have no_user: "CHR ''@'' \<notin> set a" using h by (auto simp: authority_host_def Let_def a_def)
  have loop: "loopback_text (authority_host rest)" using loopback_authority_text [OF r(2)] .
  have "\<exists>h. loopback_text h \<and> (a = h \<or> (\<exists>p. a = h @ CHR '':'' # p) \<or> a = CHR ''['' # h @ '']'' \<or>
      (\<exists>port. port \<noteq> [] \<and> list_all is_digit port \<and> a = CHR ''['' # h @ '']:'' @ port))"
  proof (cases "strip_prefix ''['' a")
    case (Some b)
    let ?h = "before {CHR '']''} b"
    have ab: "a = CHR ''['' # b" using Some by (simp add: strip_prefix_Some)
    have mem: "CHR '']'' \<in> set b" and host: "authority_host rest = ?h"
      and port: "case strip_prefix '':'' (drop (Suc (length ?h)) b) of
            Some port \<Rightarrow> port \<noteq> [] \<and> list_all is_digit port | None \<Rightarrow> drop (Suc (length ?h)) b = []"
      using h no_user Some by (auto simp: authority_host_def Let_def a_def [symmetric] split: if_splits)
    have "drop (length ?h) b \<noteq> []"
    proof
      assume "drop (length ?h) b = []"
      then have "before {CHR '']''} b = b" using before_split [of "{CHR '']''}" b] by simp
      then show False using mem by (metis (mono_tags, lifting) before_def insertI1 set_takeWhileD)
    qed
    then have "hd (drop (length ?h) b) = CHR '']''" using before_rest [of "{CHR '']''}" b] by blast
    then obtain t where t: "drop (length ?h) b = CHR '']'' # t"
      using \<open>drop (length ?h) b \<noteq> []\<close> by (cases "drop (length ?h) b") auto
    then have b: "b = ?h @ CHR '']'' # t" using before_split [of "{CHR '']''}" b] by simp
    have t2: "drop (Suc (length ?h)) b = t" using t by (metis drop_Suc list.sel(3) tl_drop)
    show ?thesis
    proof (cases "strip_prefix '':'' t")
      case None
      then show ?thesis using port t2 ab b loop host by (intro exI [of _ ?h]) auto
    next
      case (Some p)
      then have "p \<noteq> []" "list_all is_digit p" using port t2 by simp_all
      moreover have "t = CHR '':'' # p" using Some by (simp add: strip_prefix_Some)
      ultimately show ?thesis using ab b loop host by (intro exI [of _ ?h]) auto
    qed
  next
    case None
    let ?h = "before {CHR '':''} a"
    have host: "authority_host rest = ?h"
      using no_user None by (simp add: authority_host_def Let_def a_def [symmetric])
    have "a = ?h \<or> (\<exists>p. a = ?h @ CHR '':'' # p)"
    proof (cases "drop (length ?h) a")
      case Nil
      then show ?thesis using before_split [of "{CHR '':''}" a] by simp
    next
      case (Cons x p)
      then have "a = ?h @ CHR '':'' # p"
        using before_split [of "{CHR '':''}" a] before_rest [of "{CHR '':''}" a] by simp
      then show ?thesis by blast
    qed
    then show ?thesis using loop host by auto
  qed
  then show ?thesis using r(1) at no_user by blast
qed

lemma plaintext_stays_local_witness:
  "check_endpoint ''http://127.0.0.1:8080/v1'' = Ok () \<and> check_endpoint ''http://10.0.0.1'' = Err PlaintextHttp \<and>
   (\<exists>authority tail h. ''http://127.0.0.1:8080/v1'' = ''http://'' @ authority @ tail \<and> loopback_text h)"
proof -
  have ok: "check_endpoint ''http://127.0.0.1:8080/v1'' = Ok ()" by code_simp
  moreover have "check_endpoint ''http://10.0.0.1'' = Err PlaintextHttp" by code_simp
  ultimately show ?thesis using plaintext_stays_local [OF ok] by auto
qed

text \<open>
  Past the scheme nothing of an https endpoint is looked at, so one without a host passes; and what
  follows a colon outside brackets need not be a port.
\<close>

lemma https_without_host_passes: "check_endpoint ''https:///v1'' = Ok ()"
  by code_simp

lemma malformed_port_passes: "check_endpoint ''http://127.0.0.1:no-port'' = Ok ()"
  by code_simp

lemma bracketed_loopback_passes: "check_endpoint ''http://[::1]:8080/v1'' = Ok ()"
proof -
  have "authority_host ''[::1]:8080/v1'' = ''::1''" by code_simp
  moreover have "strip_prefix ''http://'' ''http://[::1]:8080/v1'' = Some ''[::1]:8080/v1''"
    "strip_prefix ''https://'' ''http://[::1]:8080/v1'' = None" by code_simp+
  ultimately show ?thesis by (simp add: check_endpoint_def is_loopback_authority_def loopback_v6)
qed

end
