(* ===== verification/Config.thy ===== *)
theory Config
  imports Endpoint Permission Json
begin

text \<open>
  \<open>crates/supra_config\<close>: the sources (\<open>source.rs\<close>), layers and their validation (\<open>layer.rs\<close>),
  resolution (\<open>resolve.rs\<close>), discovery (\<open>discover.rs\<close>) and the loader (\<open>lib.rs\<close>). The TOML parser
  is an argument; what the operating system answers about files is an argument of what asks.
  Error explanations that are constant are constructors.
\<close>

section \<open>Sources\<close>

datatype config_source = Builtin | User | Project | Env | Cli | Session

fun source_rank :: "config_source \<Rightarrow> nat" where
  "source_rank Builtin = 0" | "source_rank User = 1" | "source_rank Project = 2"
| "source_rank Env = 3" | "source_rank Cli = 4" | "source_rank Session = 5"

definition SOURCES_ALL :: "config_source list" where
  "SOURCES_ALL = [Builtin, User, Project, Env, Cli, Session]"

fun source_label :: "config_source \<Rightarrow> string" where
  "source_label Builtin = ''builtin''" | "source_label User = ''user''" | "source_label Project = ''project''"
| "source_label Env = ''env''" | "source_label Cli = ''cli''" | "source_label Session = ''session''"

definition is_operator_controlled :: "config_source \<Rightarrow> bool" where
  "is_operator_controlled s \<longleftrightarrow> s \<noteq> Project"

fun corresponding_rule_source :: "config_source \<Rightarrow> rule_source option" where
  "corresponding_rule_source Builtin = Some Src_Builtin"
| "corresponding_rule_source User = Some Src_User"
| "corresponding_rule_source Project = Some Src_Project"
| "corresponding_rule_source Env = None"
| "corresponding_rule_source Cli = Some Src_Cli"
| "corresponding_rule_source Session = Some Src_Session"

section \<open>Settings and errors\<close>

datatype setting = ThinkingBudget | CohortLimit | PermissionMode | CompactionThresholdPercent

definition SETTINGS_ALL :: "setting list" where
  "SETTINGS_ALL = [ThinkingBudget, CohortLimit, PermissionMode, CompactionThresholdPercent]"

fun setting_path :: "setting \<Rightarrow> string" where
  "setting_path ThinkingBudget = ''thinking.budget''"
| "setting_path CohortLimit = ''cohort.limit''"
| "setting_path PermissionMode = ''permission.mode''"
| "setting_path CompactionThresholdPercent = ''prompt.compaction_threshold_percent''"

datatype rejection =
    EmptyProviderName | WhitespaceInName | TwoCredentialSources | NotAVariableName | EmptyKeyringEntry
  | EmptyModel | BadEndpoint endpoint_fault

datatype env_fault = UnknownVariable | NotANumber | NotAMode string

datatype credential_fault =
    NoSuchProvider | VariableEmpty string | VariableUnset string | KeyringFails string string | NoCredentialSource

datatype config_error =
    Unreadable config_source string string
  | NotARegularFile config_source string
  | TooPermissive config_source string nat
  | InvalidLayer config_source string string
  | InvalidEnv string env_fault
  | OutOfRange config_source string nat nat nat
  | Rejected config_source string string rejection
  | NotPermittedFromLayer config_source string
  | MissingCredential string credential_fault

fun error_layer :: "config_error \<Rightarrow> config_source option" where
  "error_layer (Unreadable l _ _) = Some l"
| "error_layer (NotARegularFile l _) = Some l"
| "error_layer (TooPermissive l _ _) = Some l"
| "error_layer (InvalidLayer l _ _) = Some l"
| "error_layer (OutOfRange l _ _ _ _) = Some l"
| "error_layer (Rejected l _ _ _) = Some l"
| "error_layer (NotPermittedFromLayer l _) = Some l"
| "error_layer (InvalidEnv _ _) = Some Env"
| "error_layer (MissingCredential _ _) = None"

fun error_path :: "config_error \<Rightarrow> string option" where
  "error_path (Unreadable _ p _) = Some p"
| "error_path (NotARegularFile _ p) = Some p"
| "error_path (TooPermissive _ p _) = Some p"
| "error_path (InvalidLayer _ p _) = Some p"
| "error_path _ = None"

section \<open>Layers\<close>

definition MIN_COMPACTION_THRESHOLD_PERCENT :: nat where "MIN_COMPACTION_THRESHOLD_PERCENT = 92"
definition MAX_COMPACTION_THRESHOLD_PERCENT :: nat where "MAX_COMPACTION_THRESHOLD_PERCENT = 95"

definition MODE_ALL :: "mode list" where "MODE_ALL = [Plan, Ask_Mode, Auto, Yolo]"

definition mode_try_from :: "string \<Rightarrow> mode option" where
  "mode_try_from text = List.find (\<lambda>m. mode_label m = text) MODE_ALL"

datatype thinking_layer = ThinkingLayer (budget: "nat option")
datatype cohort_layer = CohortLayer (limit: "nat option")
datatype permission_layer = PermissionLayer (layer_mode: "mode option")
datatype prompt_layer = PromptLayer (compaction: "nat option")

text \<open>The two fields that only exist to be refused never hold a value.\<close>

record provider_layer =
  pl_endpoint :: "string option"
  pl_model :: "string option"
  pl_api_key_env :: "string option"
  pl_api_key_keyring :: "string option"

record config_layer =
  cl_thinking :: "thinking_layer option"
  cl_cohort :: "cohort_layer option"
  cl_permission :: "permission_layer option"
  cl_prompt :: "prompt_layer option"
  cl_providers :: "(string, provider_layer) btree option"

definition layer_default :: config_layer where
  "layer_default = \<lparr>cl_thinking = None, cl_cohort = None, cl_permission = None, cl_prompt = None, cl_providers = None\<rparr>"

text \<open>The Unicode white space characters, as a prefix of a list of bytes.\<close>

fun white_prefix :: "nat list \<Rightarrow> bool" where
  "white_prefix [] = False"
| "white_prefix (a # s) \<longleftrightarrow> 9 \<le> a \<and> a \<le> 13 \<or> a = 32 \<or>
     (case s of
        [] \<Rightarrow> False
      | b # s' \<Rightarrow> a = 0xC2 \<and> (b = 0x85 \<or> b = 0xA0) \<or>
         (case s' of
            [] \<Rightarrow> False
          | c # _ \<Rightarrow> a = 0xE1 \<and> b = 0x9A \<and> c = 0x80 \<or>
               a = 0xE2 \<and> b = 0x80 \<and> (0x80 \<le> c \<and> c \<le> 0x8A \<or> c = 0xA8 \<or> c = 0xA9 \<or> c = 0xAF) \<or>
               a = 0xE2 \<and> b = 0x81 \<and> c = 0x9F \<or> a = 0xE3 \<and> b = 0x80 \<and> c = 0x80))"

function chars :: "string \<Rightarrow> string list" where
  "chars [] = []"
| "chars (c # s) = (c # takeWhile is_continuation s) # chars (dropWhile is_continuation s)"
  by pat_completeness auto
termination
  by (relation "measure length") (auto simp: le_imp_less_Suc length_dropWhile_le)

definition is_white :: "string \<Rightarrow> bool" where
  "is_white c = white_prefix (map code c)"

definition trim :: "string \<Rightarrow> string" where
  "trim s = concat (rev (dropWhile is_white (rev (dropWhile is_white (chars s)))))"

text \<open>\<open>str::parse\<close> for unsigned integers: an optional plus sign and decimal digits.\<close>

definition parse_unsigned :: "nat \<Rightarrow> string \<Rightarrow> nat option" where
  "parse_unsigned maximum s =
     (let digits = (case strip_prefix ''+'' s of Some r \<Rightarrow> r | None \<Rightarrow> s) in
      if digits \<noteq> [] \<and> list_all is_digit digits \<and> read_nat digits \<le> maximum then Some (read_nat digits) else None)"

text \<open>A rejected value shows at most four characters, and none when there are no more.\<close>

definition REDACT_KEEP :: nat where "REDACT_KEEP = 4"

definition ellipsis :: string where "ellipsis = [CHR 0xE2, CHR 0x80, CHR 0xA6]"

definition redact :: "string \<Rightarrow> string" where
  "redact value =
     (let cs = chars value in
      if length cs \<le> REDACT_KEEP then ellipsis
      else concat (take REDACT_KEEP cs) @ ellipsis @ '' ('' @ show_nat (length cs) @ '' characters)'')"

definition is_upper :: "char \<Rightarrow> bool" where
  "is_upper c \<longleftrightarrow> 65 \<le> (of_char c :: nat) \<and> (of_char c :: nat) \<le> 90"

definition env_name_shaped :: "string \<Rightarrow> bool" where
  "env_name_shaped v \<longleftrightarrow> v \<noteq> [] \<and> (is_upper (hd v) \<or> hd v = CHR ''_'') \<and>
     list_all (\<lambda>c. is_upper c \<or> is_digit c \<or> c = CHR ''_'') v"

definition check_env_var_name :: "config_source \<Rightarrow> string \<Rightarrow> string \<Rightarrow> (unit, config_error) outcome" where
  "check_env_var_name layer setting value =
     (if env_name_shaped value then Ok () else Err (Rejected layer setting (redact value) NotAVariableName))"

definition check_layer_endpoint :: "config_source \<Rightarrow> string \<Rightarrow> string \<Rightarrow> (unit, config_error) outcome" where
  "check_layer_endpoint layer setting value =
     (case check_endpoint value of
        Ok () \<Rightarrow> Ok ()
      | Err e \<Rightarrow> Err (Rejected layer setting value (BadEndpoint e))
      | Panic \<Rightarrow> Panic)"

definition opt_check :: "'a option \<Rightarrow> ('a \<Rightarrow> (unit, 'e) outcome) \<Rightarrow> (unit, 'e) outcome" where
  "opt_check x f = (case x of None \<Rightarrow> Ok () | Some a \<Rightarrow> f a)"

definition validate_provider_name :: "config_source \<Rightarrow> string \<Rightarrow> (unit, config_error) outcome" where
  "validate_provider_name layer name =
     (if name = [] then Err (Rejected layer ''providers'' [CHR 0x22, CHR 0x22] EmptyProviderName)
      else if list_ex is_white (chars name) then Err (Rejected layer (''providers.'' @ name) name WhitespaceInName)
      else Ok ())"

definition validate_provider ::
    "config_source \<Rightarrow> string \<Rightarrow> provider_layer \<Rightarrow> (unit, config_error) outcome" where
  "validate_provider layer name p =
     (if pl_api_key_env p \<noteq> None \<and> pl_api_key_keyring p \<noteq> None
      then Err (Rejected layer (''providers.'' @ name) ''api_key_env + api_key_keyring'' TwoCredentialSources)
      else
        bind_outcome (opt_check (pl_api_key_env p) (\<lambda>v.
          check_env_var_name layer (''providers.'' @ name @ ''.api_key_env'') v)) (\<lambda>_.
        bind_outcome (opt_check (pl_api_key_keyring p) (\<lambda>entry.
          if trim_is_empty entry
          then Err (Rejected layer (''providers.'' @ name @ ''.api_key_keyring'') (redact entry) EmptyKeyringEntry)
          else Ok ())) (\<lambda>_.
        bind_outcome (opt_check (pl_endpoint p) (\<lambda>e.
          check_layer_endpoint layer (''providers.'' @ name @ ''.endpoint'') e)) (\<lambda>_.
        opt_check (pl_model p) (\<lambda>m.
          if trim_is_empty m
          then Err (Rejected layer (''providers.'' @ name @ ''.model'') m EmptyModel)
          else Ok ())))))"

fun validate_each ::
    "config_source \<Rightarrow> (string \<times> provider_layer) list \<Rightarrow> (unit, config_error) outcome" where
  "validate_each layer [] = Ok ()"
| "validate_each layer ((name, p) # ps) =
     bind_outcome (validate_provider_name layer name) (\<lambda>_.
     bind_outcome (validate_provider layer name p) (\<lambda>_. validate_each layer ps))"

definition validate_providers :: "config_source \<Rightarrow> config_layer \<Rightarrow> (unit, config_error) outcome" where
  "validate_providers layer l =
     (case cl_providers l of
        None \<Rightarrow> Ok ()
      | Some ps \<Rightarrow>
          if \<not> is_operator_controlled layer then Err (NotPermittedFromLayer layer ''providers'')
          else validate_each layer ps)"

definition layer_limit :: "config_layer \<Rightarrow> nat option" where
  "layer_limit l = Option.bind (cl_cohort l) limit"
definition layer_threshold :: "config_layer \<Rightarrow> nat option" where
  "layer_threshold l = Option.bind (cl_prompt l) compaction"
definition layer_budget :: "config_layer \<Rightarrow> nat option" where
  "layer_budget l = Option.bind (cl_thinking l) budget"
definition requested_mode :: "config_layer \<Rightarrow> mode option" where
  "requested_mode l = Option.bind (cl_permission l) layer_mode"

definition validate_cohort :: "config_source \<Rightarrow> config_layer \<Rightarrow> (unit, config_error) outcome" where
  "validate_cohort layer l =
     opt_check (layer_limit l) (\<lambda>n.
       if 1 \<le> n \<and> n \<le> PEER_CEILING then Ok ()
       else Err (OutOfRange layer ''cohort.limit'' n 1 PEER_CEILING))"

definition validate_prompt :: "config_source \<Rightarrow> config_layer \<Rightarrow> (unit, config_error) outcome" where
  "validate_prompt layer l =
     opt_check (layer_threshold l) (\<lambda>t.
       if MIN_COMPACTION_THRESHOLD_PERCENT \<le> t \<and> t \<le> MAX_COMPACTION_THRESHOLD_PERCENT then Ok ()
       else Err (OutOfRange layer ''prompt.compaction_threshold_percent'' t
              MIN_COMPACTION_THRESHOLD_PERCENT MAX_COMPACTION_THRESHOLD_PERCENT))"

definition layer_validate :: "config_source \<Rightarrow> config_layer \<Rightarrow> (unit, config_error) outcome" where
  "layer_validate layer l =
     bind_outcome (validate_cohort layer l) (\<lambda>_.
     bind_outcome (validate_prompt layer l) (\<lambda>_.
     validate_providers layer l))"

section \<open>Parse errors\<close>

fun find_text :: "string \<Rightarrow> string \<Rightarrow> nat option" where
  "find_text p [] = (if p = [] then Some 0 else None)"
| "find_text p (c # s) = (if strip_prefix p (c # s) \<noteq> None then Some 0 else map_option Suc (find_text p s))"

definition INVALID_TYPE :: string where "INVALID_TYPE = ''invalid type:''"
definition quote_mark :: char where "quote_mark = CHR 0x22"

definition strip_deserialized_value :: "string \<Rightarrow> string" where
  "strip_deserialized_value message =
     (case find_text INVALID_TYPE message of
        None \<Rightarrow> message
      | Some marker \<Rightarrow>
          let after = drop marker message in
          (case find_text [quote_mark] after of
             None \<Rightarrow> message
           | Some opened \<Rightarrow>
               let value_end = drop (opened + 1) after in
               (case find_text [quote_mark] value_end of
                  None \<Rightarrow> message
                | Some closed \<Rightarrow>
                    take marker message @ ''invalid type: <redacted>'' @ drop (closed + 1) value_end)))"

definition newline_char :: char where "newline_char = CHR 0x0A"

text \<open>\<open>str::lines\<close>: a carriage return before a line feed belongs to the line ending.\<close>

definition strip_cr :: "string \<Rightarrow> string" where
  "strip_cr s = (case strip_suffix [CHR 0x0D] s of Some r \<Rightarrow> r | None \<Rightarrow> s)"

definition text_lines :: "string \<Rightarrow> string list" where
  "text_lines s =
     (let ps = split_on (\<lambda>c. c = newline_char) s in
      map strip_cr (butlast ps) @ (if last ps = [] then [] else [last ps]))"


definition line_and_column :: "string \<Rightarrow> nat \<Rightarrow> (nat \<times> nat) option" where
  "line_and_column text offset =
     (if length text < offset \<or> offset < length text \<and> is_continuation (text ! offset) then None
      else let prefix = take offset text in
        Some (count_list prefix newline_char + 1,
              char_count (rev (takeWhile (\<lambda>c. c \<noteq> newline_char) (rev prefix))) + 1))"

text \<open>A failure of the TOML parser: its message and where its span starts.\<close>

type_synonym toml_error = "string \<times> nat option"

definition describe_toml_error :: "string \<Rightarrow> toml_error \<Rightarrow> string" where
  "describe_toml_error text e =
     (let message = strip_deserialized_value (fst e) in
      case snd e of
        None \<Rightarrow> message
      | Some start \<Rightarrow>
          (case line_and_column text start of
             None \<Rightarrow> message
           | Some (line, column) \<Rightarrow>
               ''line '' @ show_nat line @ '', column '' @ show_nat column @ '': '' @ message))"

definition layer_parse ::
    "(string \<Rightarrow> config_layer + toml_error) \<Rightarrow> string \<Rightarrow> config_source \<Rightarrow> string \<Rightarrow> (config_layer, config_error) outcome" where
  "layer_parse toml text layer path =
     (case toml text of
        Inl l \<Rightarrow> Ok l
      | Inr e \<Rightarrow> Err (InvalidLayer layer path (describe_toml_error text e)))"

section \<open>What the explanations show\<close>

lemma find_text_here [simp]: "find_text p (p @ s) = Some 0"
proof (cases "p @ s")
  case (Cons c t)
  then have "strip_prefix p (c # t) = Some s" by (simp add: strip_prefix_Some)
  then show ?thesis by (simp add: Cons)
qed simp

lemma find_text_char: "c \<notin> set s \<Longrightarrow> find_text [c] (s @ c # r) = Some (length s)"
  by (induction s) (auto simp: strip_prefix_Some)

lemma find_text_Some: "find_text p s = Some n \<Longrightarrow> \<exists>r. drop n s = p @ r"
proof (induction s arbitrary: n)
  case (Cons c s)
  then show ?case by (auto split: if_splits simp: strip_prefix_Some)
qed (auto split: if_splits)

text \<open>
  A message of the parser about a value of the wrong type names the value between the first two
  double quotes: nothing of a value without double quotes is left in the explanation.
\<close>

lemma mistyped_value_hidden:
  assumes "quote_mark \<notin> set kind" "quote_mark \<notin> set v"
  shows "strip_deserialized_value (INVALID_TYPE @ kind @ quote_mark # v @ quote_mark # rest) =
    ''invalid type: <redacted>'' @ rest"
proof -
  have "quote_mark \<notin> set (INVALID_TYPE @ kind)" using assms by (simp add: INVALID_TYPE_def quote_mark_def)
  note open_at = find_text_char [OF this, of "v @ quote_mark # rest"]
  note close_at = find_text_char [OF assms(2), of rest]
  show ?thesis using open_at close_at by (simp add: strip_deserialized_value_def)
qed

lemma mistyped_value_hidden_witness:
  "strip_deserialized_value (INVALID_TYPE @ '' string '' @ quote_mark # ''sk-1'' @ quote_mark # '', expected usize'') =
    ''invalid type: <redacted>, expected usize''"
  using mistyped_value_hidden [of "'' string ''" "''sk-1''" "'', expected usize''"]
  by (simp add: quote_mark_def)

text \<open>The parser escapes a quote of the value, and what follows an escaped quote is kept.\<close>

lemma escaped_quote_reveals:
  "strip_deserialized_value
     (INVALID_TYPE @ '' string '' @ quote_mark # ''a'' @ [CHR 0x5C, quote_mark] @ ''sk-1'' @ quote_mark # '', expected usize'') =
    ''invalid type: <redacted>'' @ ''sk-1'' @ quote_mark # '', expected usize''"
  using mistyped_value_hidden [of "'' string ''" "''a'' @ [CHR 0x5C]" "''sk-1'' @ quote_mark # '', expected usize''"]
  by (simp add: quote_mark_def)

lemma chars_concat [simp]: "concat (chars s) = s"
  by (induction s rule: chars.induct) simp_all

lemma length_chars: "length (chars (c # s)) = Suc (length (chars (dropWhile is_continuation s)))"
  by simp

text \<open>A rejected value is shown by at most four of its characters and its length.\<close>

lemma redact_shows_a_prefix:
  "take REDACT_KEEP (chars v) = take REDACT_KEEP (chars w) \<Longrightarrow> length (chars v) = length (chars w) \<Longrightarrow>
    redact v = redact w"
  by (simp add: redact_def Let_def)

section \<open>What validation accepts\<close>

definition opt_all :: "('a \<Rightarrow> bool) \<Rightarrow> 'a option \<Rightarrow> bool" where
  "opt_all P x = (case x of None \<Rightarrow> True | Some a \<Rightarrow> P a)"

lemma opt_all_simps [simp]: "opt_all P None" "opt_all P (Some a) \<longleftrightarrow> P a"
  by (simp_all add: opt_all_def)

lemma opt_check_Ok: "opt_check x f = Ok () \<longleftrightarrow> opt_all (\<lambda>a. f a = Ok ()) x"
  by (cases x) (simp_all add: opt_check_def)

definition valid_provider :: "string \<Rightarrow> provider_layer \<Rightarrow> bool" where
  "valid_provider name p \<longleftrightarrow>
     name \<noteq> [] \<and> (\<forall>c \<in> set (chars name). \<not> is_white c) \<and>
     (pl_api_key_env p = None \<or> pl_api_key_keyring p = None) \<and>
     opt_all env_name_shaped (pl_api_key_env p) \<and>
     opt_all (\<lambda>e. \<not> trim_is_empty e) (pl_api_key_keyring p) \<and>
     opt_all (\<lambda>e. check_endpoint e = Ok ()) (pl_endpoint p) \<and>
     opt_all (\<lambda>m. \<not> trim_is_empty m) (pl_model p)"

definition valid_layer :: "config_source \<Rightarrow> config_layer \<Rightarrow> bool" where
  "valid_layer s l \<longleftrightarrow>
     opt_all (\<lambda>n. 1 \<le> n \<and> n \<le> PEER_CEILING) (layer_limit l) \<and>
     opt_all (\<lambda>t. MIN_COMPACTION_THRESHOLD_PERCENT \<le> t \<and> t \<le> MAX_COMPACTION_THRESHOLD_PERCENT) (layer_threshold l) \<and>
     opt_all (\<lambda>ps. is_operator_controlled s \<and> (\<forall>(name, p) \<in> set ps. valid_provider name p)) (cl_providers l)"

lemma bind_Ok_unit: "bind_outcome r (\<lambda>_. q) = Ok y \<longleftrightarrow> r = Ok () \<and> q = Ok y"
  by (cases r) simp_all

lemma validate_provider_name_Ok:
  "validate_provider_name s name = Ok () \<longleftrightarrow> name \<noteq> [] \<and> (\<forall>c \<in> set (chars name). \<not> is_white c)"
  by (auto simp: validate_provider_name_def list_ex_iff)

lemma check_layer_endpoint_Ok: "check_layer_endpoint s path e = Ok () \<longleftrightarrow> check_endpoint e = Ok ()"
  by (cases "check_endpoint e") (simp_all add: check_layer_endpoint_def split: unit.split)

lemma validate_provider_Ok:
  "validate_provider s name p = Ok () \<longleftrightarrow>
     (pl_api_key_env p = None \<or> pl_api_key_keyring p = None) \<and>
     opt_all env_name_shaped (pl_api_key_env p) \<and>
     opt_all (\<lambda>e. \<not> trim_is_empty e) (pl_api_key_keyring p) \<and>
     opt_all (\<lambda>e. check_endpoint e = Ok ()) (pl_endpoint p) \<and>
     opt_all (\<lambda>m. \<not> trim_is_empty m) (pl_model p)"
proof -
  have one: "(if b then Err e else Ok ()) = Ok () \<longleftrightarrow> \<not> b" "(if b then Ok () else Err e) = Ok () \<longleftrightarrow> b" for b and e :: config_error
    by simp_all
  show ?thesis
    by (simp add: validate_provider_def bind_Ok_unit opt_check_Ok check_layer_endpoint_Ok check_env_var_name_def one)
qed

lemma validate_each_Ok: "validate_each s ps = Ok () \<longleftrightarrow> (\<forall>(name, p) \<in> set ps. valid_provider name p)"
proof (induction ps)
  case (Cons np ps)
  obtain name p where np: "np = (name, p)" by force
  show ?case using Cons
    by (simp add: np bind_Ok_unit validate_provider_name_Ok validate_provider_Ok valid_provider_def conj_assoc)
qed simp

text \<open>Validation accepts exactly the layers whose every value is within its bounds.\<close>

lemma layer_validate_Ok: "layer_validate s l = Ok () \<longleftrightarrow> valid_layer s l"
proof -
  have "validate_cohort s l = Ok () \<longleftrightarrow> opt_all (\<lambda>n. 1 \<le> n \<and> n \<le> PEER_CEILING) (layer_limit l)"
    by (cases "layer_limit l") (simp_all add: validate_cohort_def opt_check_def)
  moreover have "validate_prompt s l = Ok () \<longleftrightarrow>
      opt_all (\<lambda>t. MIN_COMPACTION_THRESHOLD_PERCENT \<le> t \<and> t \<le> MAX_COMPACTION_THRESHOLD_PERCENT) (layer_threshold l)"
    by (cases "layer_threshold l") (simp_all add: validate_prompt_def opt_check_def)
  moreover have "validate_providers s l = Ok () \<longleftrightarrow>
      opt_all (\<lambda>ps. is_operator_controlled s \<and> (\<forall>(name, p) \<in> set ps. valid_provider name p)) (cl_providers l)"
    by (cases "cl_providers l") (simp_all add: validate_providers_def validate_each_Ok)
  ultimately show ?thesis by (simp add: layer_validate_def bind_Ok_unit valid_layer_def)
qed

text \<open>Every refusal of a layer is attributed to the source it was validated for.\<close>

definition names_layer :: "config_source \<Rightarrow> ('a, config_error) outcome \<Rightarrow> bool" where
  "names_layer s r \<longleftrightarrow> (\<forall>e. r = Err e \<longrightarrow> error_layer e = Some s)"

lemma names_Ok [simp]: "names_layer s (Ok x)" by (simp add: names_layer_def)

lemma names_Err [simp]: "names_layer s (Err e) \<longleftrightarrow> error_layer e = Some s" by (simp add: names_layer_def)

lemma names_bind: "names_layer s r \<Longrightarrow> (\<And>x. names_layer s (f x)) \<Longrightarrow> names_layer s (bind_outcome r f)"
  by (cases r) (auto simp: names_layer_def)

lemma names_opt_check: "(\<And>a. names_layer s (f a)) \<Longrightarrow> names_layer s (opt_check x f)"
  by (cases x) (simp_all add: opt_check_def)

lemma names_if: "(b \<Longrightarrow> names_layer s x) \<Longrightarrow> (\<not> b \<Longrightarrow> names_layer s y) \<Longrightarrow> names_layer s (if b then x else y)"
  by simp

lemmas names_rules = names_bind names_opt_check names_if

lemma names_endpoint: "names_layer s (check_layer_endpoint s path e)"
  by (auto simp: names_layer_def check_layer_endpoint_def split: outcome.splits unit.splits)

lemma names_provider: "names_layer s (validate_provider s name p)"
  unfolding validate_provider_def check_env_var_name_def
  by (intro names_rules names_endpoint) simp_all

lemma names_each: "names_layer s (validate_each s ps)"
proof (induction ps)
  case (Cons np ps)
  obtain name p where np: "np = (name, p)" by force
  show ?case unfolding np validate_each.simps validate_provider_name_def
    by (intro names_rules names_provider Cons) simp_all
qed simp

lemma names_validate: "names_layer s (layer_validate s l)"
proof -
  have "names_layer s (validate_cohort s l)" "names_layer s (validate_prompt s l)"
    unfolding validate_cohort_def validate_prompt_def by (intro names_rules; simp)+
  moreover have "names_layer s (validate_providers s l)"
    by (cases "cl_providers l") (simp_all add: validate_providers_def names_each)
  ultimately show ?thesis unfolding layer_validate_def by (intro names_rules)
qed

lemma refusal_names_its_layer: "layer_validate s l = Err e \<Longrightarrow> error_layer e = Some s"
  using names_validate by (simp add: names_layer_def)

end
