(* ===== verification/Config_Resolve.thy ===== *)
theory Config_Resolve
  imports Config
begin

text \<open>
  Resolution of validated layers (\<open>crates/supra_config/src/resolve.rs\<close>): per-field precedence with
  provenance, the pass that lets a repository only tighten the permission mode, and the lookup of
  a credential. The environment and the secret manager answer as arguments.
\<close>

section \<open>The resolved configuration\<close>

definition DEFAULT_THINKING_BUDGET :: nat where "DEFAULT_THINKING_BUDGET = 0"
definition DEFAULT_COMPACTION_THRESHOLD_PERCENT :: nat where "DEFAULT_COMPACTION_THRESHOLD_PERCENT = 93"

record provider =
  pr_endpoint :: "string option"
  pr_model :: "string option"
  pr_api_key_env :: "string option"
  pr_api_key_keyring :: "string option"

record config =
  cf_thinking_budget :: nat
  cf_cohort_limit :: nat
  cf_permission_mode :: mode
  cf_threshold :: nat
  cf_providers :: "(string, provider) btree"
  cf_scalar_sources :: "(setting \<times> config_source) list"
  cf_provider_sources :: "(string, config_source) btree"

definition source_of :: "config \<Rightarrow> setting \<Rightarrow> config_source" where
  "source_of c s =
     (case List.find (\<lambda>(candidate, _). candidate = s) (cf_scalar_sources c) of
        Some (_, source) \<Rightarrow> source | None \<Rightarrow> Builtin)"

definition provider_source :: "config \<Rightarrow> string \<Rightarrow> config_source option" where
  "provider_source c name = map_of (cf_provider_sources c) name"

text \<open>
  A credential: \<open>var\<close> is the environment, \<open>keyring\<close> the secret manager asked for a service and an
  account.
\<close>

definition KEYRING_SERVICE :: string where "KEYRING_SERVICE = ''supra-harness''"

definition provider_secret ::
    "(string \<Rightarrow> string option) \<Rightarrow> (string \<Rightarrow> string \<Rightarrow> string + string) \<Rightarrow> config \<Rightarrow> string \<Rightarrow>
     (string, config_error) outcome" where
  "provider_secret var keyring c name =
     (case map_of (cf_providers c) name of
        None \<Rightarrow> Err (MissingCredential name NoSuchProvider)
      | Some p \<Rightarrow>
          (case pr_api_key_env p of
             Some variable \<Rightarrow>
               (case var variable of
                  Some v \<Rightarrow> if v \<noteq> [] then Ok v else Err (MissingCredential name (VariableEmpty variable))
                | None \<Rightarrow> Err (MissingCredential name (VariableUnset variable)))
           | None \<Rightarrow>
               (case pr_api_key_keyring p of
                  Some entry \<Rightarrow>
                    (case keyring KEYRING_SERVICE entry of
                       Inl v \<Rightarrow> Ok v
                     | Inr e \<Rightarrow> Err (MissingCredential name (KeyringFails entry e)))
                | None \<Rightarrow> Err (MissingCredential name NoCredentialSource))))"

section \<open>Resolution\<close>

definition strictness :: "mode \<Rightarrow> nat" where
  "strictness m =
     (let last = length MODE_ALL - 1 in
      if m \<in> set MODE_ALL then last - length (takeWhile (\<lambda>c. c \<noteq> m) MODE_ALL) else 0)"

text \<open>The variables of the loop.\<close>

record resolving =
  rs_budget :: "nat \<times> config_source"
  rs_limit :: "nat \<times> config_source"
  rs_mode :: "mode \<times> config_source"
  rs_threshold :: "nat \<times> config_source"
  rs_providers :: "(string, provider) btree"
  rs_provider_sources :: "(string, config_source) btree"

definition resolving_start :: resolving where
  "resolving_start =
     \<lparr>rs_budget = (DEFAULT_THINKING_BUDGET, Builtin), rs_limit = (DEFAULT_PEER_LIMIT, Builtin),
      rs_mode = (Auto, Builtin), rs_threshold = (DEFAULT_COMPACTION_THRESHOLD_PERCENT, Builtin),
      rs_providers = [], rs_provider_sources = []\<rparr>"

definition provider_of :: "provider_layer \<Rightarrow> provider" where
  "provider_of e =
     \<lparr>pr_endpoint = pl_endpoint e, pr_model = pl_model e, pr_api_key_env = pl_api_key_env e,
      pr_api_key_keyring = pl_api_key_keyring e\<rparr>"

definition set_field :: "'a option \<Rightarrow> config_source \<Rightarrow> 'a \<times> config_source \<Rightarrow> 'a \<times> config_source" where
  "set_field said source old = (case said of Some v \<Rightarrow> (v, source) | None \<Rightarrow> old)"

definition insert_providers :: "config_source \<Rightarrow> config_layer \<Rightarrow>
    (string, provider) btree \<times> (string, config_source) btree \<Rightarrow> (string, provider) btree \<times> (string, config_source) btree" where
  "insert_providers source l old =
     (case cl_providers l of
        None \<Rightarrow> old
      | Some entries \<Rightarrow>
          fold (\<lambda>(name, e) (ps, srcs). (bt_insert name (provider_of e) ps, bt_insert name source srcs)) entries old)"

fun apply_layer :: "config_source \<times> config_layer \<Rightarrow> resolving \<Rightarrow> resolving" where
  "apply_layer (source, l) r =
     (let ps = insert_providers source l (rs_providers r, rs_provider_sources r) in
      \<lparr>rs_budget = set_field (layer_budget l) source (rs_budget r),
       rs_limit = set_field (layer_limit l) source (rs_limit r),
       rs_mode = (if is_operator_controlled source then set_field (requested_mode l) source (rs_mode r) else rs_mode r),
       rs_threshold = set_field (layer_threshold l) source (rs_threshold r),
       rs_providers = fst ps, rs_provider_sources = snd ps\<rparr>)"

fun tighten :: "config_source \<times> config_layer \<Rightarrow> mode \<times> config_source \<Rightarrow> mode \<times> config_source" where
  "tighten (source, l) m =
     (if is_operator_controlled source then m
      else case requested_mode l of
        Some requested \<Rightarrow> if strictness (fst m) < strictness requested then (requested, source) else m
      | None \<Rightarrow> m)"

definition resolve_layers :: "(config_source \<times> config_layer) list \<Rightarrow> config" where
  "resolve_layers layers =
     (let ordered = sort_key (\<lambda>(source, _). source_rank source) layers;
          r = fold apply_layer ordered resolving_start;
          m = fold tighten ordered (rs_mode r) in
      \<lparr>cf_thinking_budget = fst (rs_budget r), cf_cohort_limit = fst (rs_limit r),
       cf_permission_mode = fst m, cf_threshold = fst (rs_threshold r),
       cf_providers = rs_providers r,
       cf_scalar_sources =
         [(ThinkingBudget, snd (rs_budget r)), (CohortLimit, snd (rs_limit r)),
          (PermissionMode, snd m), (CompactionThresholdPercent, snd (rs_threshold r))],
       cf_provider_sources = rs_provider_sources r\<rparr>)"

section \<open>The loops\<close>

lemma source_rank_inject [simp]: "source_rank s = source_rank t \<longleftrightarrow> s = t"
  by (cases s; cases t) simp_all

lemma strictness_rank: "strictness m = 3 - mode_rank m"
  by (cases m) (simp_all add: strictness_def MODE_ALL_def)

lemma stricter_iff: "strictness m < strictness n \<longleftrightarrow> mode_rank n < mode_rank m"
  by (cases m; cases n) (simp_all add: strictness_rank)

definition says :: "(config_layer \<Rightarrow> 'a option) \<Rightarrow> (config_source \<times> config_layer) list \<Rightarrow>
    'a \<times> config_source \<Rightarrow> 'a \<times> config_source" where
  "says g ls old = fold (\<lambda>(s, l). set_field (g l) s) ls old"

lemma says_simps [simp]:
  "says g [] old = old" "says g ((s, l) # ls) old = says g ls (set_field (g l) s old)"
  "says g (ls @ [(s, l)]) old = set_field (g l) s (says g ls old)"
  by (simp_all add: says_def)

lemma set_field_simps [simp]: "set_field None s old = old" "set_field (Some v) s old = (v, s)"
  by (simp_all add: set_field_def)

abbreviation op_layers :: "(config_source \<times> config_layer) list \<Rightarrow> (config_source \<times> config_layer) list" where
  "op_layers \<equiv> filter (\<lambda>(s, _). is_operator_controlled s)"

lemma loop_fields:
  "rs_budget (fold apply_layer ls r) = says layer_budget ls (rs_budget r)"
  "rs_limit (fold apply_layer ls r) = says layer_limit ls (rs_limit r)"
  "rs_threshold (fold apply_layer ls r) = says layer_threshold ls (rs_threshold r)"
  "rs_mode (fold apply_layer ls r) = says requested_mode (op_layers ls) (rs_mode r)"
  by (induction ls arbitrary: r) (auto simp: Let_def)

text \<open>The field is what the last layer that says something says.\<close>

lemma says_nothing: "\<forall>(s, l) \<in> set ls. g l = None \<Longrightarrow> says g ls old = old"
  by (induction ls arbitrary: old) auto

lemma says_last:
  assumes "sorted (map (\<lambda>(s, _). source_rank s) ls)" "distinct (map fst ls)" "(s, l) \<in> set ls" "g l = Some v"
    "\<forall>(s', l') \<in> set ls. g l' \<noteq> None \<longrightarrow> source_rank s' \<le> source_rank s"
  shows "says g ls old = (v, s)"
  using assms
proof (induction ls rule: rev_induct)
  case (snoc x ls)
  obtain s' l' where x: "x = (s', l')" by force
  show ?case
  proof (cases "(s, l) = x")
    case True
    then show ?thesis using snoc.prems(4) by (auto simp: x)
  next
    case False
    then have inls: "(s, l) \<in> set ls" using snoc.prems(3) by simp
    then have le: "source_rank s \<le> source_rank s'" using snoc.prems(1) by (fastforce simp: x sorted_append)
    have "g l' = None"
    proof (rule ccontr)
      assume "g l' \<noteq> None"
      then have "source_rank s' \<le> source_rank s" using snoc.prems(5) by (simp add: x)
      with le have "s' = s" by (metis order_antisym source_rank_inject)
      then show False using snoc.prems(2) inls by (force simp: x)
    qed
    then show ?thesis using snoc inls by (auto simp: x sorted_append)
  qed
qed simp

lemma says_value:
  "says g ls old = old \<or> (\<exists>s l. (s, l) \<in> set ls \<and> g l = Some (fst (says g ls old)) \<and> snd (says g ls old) = s)"
proof (induction ls rule: rev_induct)
  case (snoc x ls)
  obtain s l where x: "x = (s, l)" by force
  show ?case using snoc by (cases "g l") (auto simp: x)
qed simp

lemma tighten_operator: "fold tighten (op_layers ls) m = m"
  by (induction ls arbitrary: m) auto

lemma tighten_bounds:
  "mode_rank (fst (fold tighten ls m)) \<le> mode_rank (fst m) \<and>
   (\<forall>s l q. (s, l) \<in> set ls \<longrightarrow> \<not> is_operator_controlled s \<longrightarrow> requested_mode l = Some q \<longrightarrow>
      mode_rank (fst (fold tighten ls m)) \<le> mode_rank q)"
proof (induction ls rule: rev_induct)
  case (snoc x ls)
  obtain s l where x: "x = (s, l)" by force
  let ?r = "fold tighten ls m"
  have "mode_rank (fst (tighten x ?r)) \<le> mode_rank (fst ?r)"
    by (auto simp: x stricter_iff split: option.splits)
  moreover have "\<not> is_operator_controlled s \<Longrightarrow> requested_mode l = Some q \<Longrightarrow> mode_rank (fst (tighten x ?r)) \<le> mode_rank q" for q
    by (auto simp: x stricter_iff)
  ultimately show ?case using snoc by (auto simp: x intro: order_trans)
qed simp

lemma tighten_source:
  "fold tighten ls m = m \<or>
   (\<exists>l. (Project, l) \<in> set ls \<and> requested_mode l = Some (fst (fold tighten ls m)) \<and> snd (fold tighten ls m) = Project)"
proof (induction ls rule: rev_induct)
  case (snoc x ls)
  obtain s l where x: "x = (s, l)" by force
  show ?case
  proof (cases "tighten x (fold tighten ls m) = fold tighten ls m")
    case True
    then show ?thesis using snoc by auto
  next
    case False
    then have "s = Project" "\<exists>q. requested_mode l = Some q \<and> tighten x (fold tighten ls m) = (q, s)"
      by (auto simp: x is_operator_controlled_def split: if_splits option.splits)
    then show ?thesis by (auto simp: x)
  qed
qed simp

section \<open>The order of the layers\<close>

abbreviation rank_of :: "config_source \<times> config_layer \<Rightarrow> nat" where
  "rank_of \<equiv> \<lambda>(s, _). source_rank s"

abbreviation ordered_layers :: "(config_source \<times> config_layer) list \<Rightarrow> (config_source \<times> config_layer) list" where
  "ordered_layers \<equiv> sort_key rank_of"

lemma sort_key_unique:
  assumes "mset xs = mset ys" "inj_on f (set xs)"
  shows "sort_key f xs = sort_key f ys"
proof -
  have one: "sort (map f zs) = map f (sort_key f zs)" for zs
    by (rule properties_for_sort) simp_all
  have "mset (map f xs) = mset (map f ys)" using assms(1) by simp
  then have "sort (map f xs) = sort (map f ys)" by (metis mset_sort properties_for_sort sorted_sort)
  then have "map f (sort_key f xs) = map f (sort_key f ys)" by (simp add: one)
  moreover have "set xs = set ys" using assms(1) by (rule mset_eq_setD)
  ultimately show ?thesis using assms(2) by (intro map_inj_on [where f = f]) simp_all
qed

lemma rank_of_inj: "distinct (map fst ls) \<Longrightarrow> inj_on rank_of (set ls)"
  by (fastforce simp: inj_on_def distinct_map split: prod.splits)

lemma resolve_mset: "mset ls = mset ls' \<Longrightarrow> distinct (map fst ls) \<Longrightarrow> resolve_layers ls = resolve_layers ls'"
  using sort_key_unique [of ls ls' rank_of] rank_of_inj [of ls] by (simp add: resolve_layers_def)

section \<open>Providers\<close>

definition provider_from :: "(config_source \<times> config_layer) list \<Rightarrow> string \<Rightarrow> provider \<Rightarrow> config_source \<Rightarrow> bool" where
  "provider_from ls name p s \<longleftrightarrow>
     (\<exists>l es e. (s, l) \<in> set ls \<and> cl_providers l = Some es \<and> (name, e) \<in> set es \<and> p = provider_of e)"

definition providers_traced ::
    "(config_source \<times> config_layer) list \<Rightarrow> (string, provider) btree \<times> (string, config_source) btree \<Rightarrow> bool" where
  "providers_traced ls st \<longleftrightarrow>
     (\<forall>name p. map_of (fst st) name = Some p \<longrightarrow>
        (\<exists>s. map_of (snd st) name = Some s \<and> provider_from ls name p s))"

lemma provider_from_mono: "provider_from ls name p s \<Longrightarrow> set ls \<subseteq> set ls' \<Longrightarrow> provider_from ls' name p s"
  unfolding provider_from_def by blast

lemma insert_traced:
  assumes "providers_traced ls st" "provider_from ls name p s"
  shows "providers_traced ls (bt_insert name p (fst st), bt_insert name s (snd st))"
  using assms by (auto simp: providers_traced_def bt_insert_get)

lemma insert_all_traced:
  assumes "\<forall>(name, e) \<in> set es. provider_from ls name (provider_of e) s" "providers_traced ls st"
  shows "providers_traced ls
    (fold (\<lambda>(name, e) (ps, srcs). (bt_insert name (provider_of e) ps, bt_insert name s srcs)) es st)"
  using assms
proof (induction es arbitrary: st)
  case (Cons ne es)
  obtain name e where ne: "ne = (name, e)" by force
  obtain ps srcs where st: "st = (ps, srcs)" by force
  have "providers_traced ls (bt_insert name (provider_of e) ps, bt_insert name s srcs)"
    using insert_traced [OF Cons.prems(2), of name "provider_of e" s] Cons.prems(1) by (simp add: ne st)
  then show ?case using Cons.IH Cons.prems(1) by (simp add: ne st)
qed simp

lemma insert_providers_traced:
  assumes "providers_traced ls st" "(s, l) \<in> set ls"
  shows "providers_traced ls (insert_providers s l st)"
proof (cases "cl_providers l")
  case (Some es)
  have "provider_from ls name (provider_of e) s" if "(name, e) \<in> set es" for name e
    unfolding provider_from_def using that Some assms(2) by blast
  then show ?thesis using insert_all_traced [of es ls s st] assms(1) by (auto simp: insert_providers_def Some)
qed (use assms in \<open>simp add: insert_providers_def\<close>)

lemma loop_traced:
  "set ls \<subseteq> set all \<Longrightarrow> providers_traced all (rs_providers r, rs_provider_sources r) \<Longrightarrow>
    providers_traced all (rs_providers (fold apply_layer ls r), rs_provider_sources (fold apply_layer ls r))"
proof (induction ls arbitrary: r)
  case (Cons x ls)
  obtain s l where x: "x = (s, l)" by force
  show ?case using Cons.IH [of "apply_layer x r"] Cons.prems insert_providers_traced [of all _ s l]
    by (simp add: x Let_def)
qed simp

lemma resolve_traced: "providers_traced ls (cf_providers (resolve_layers ls), cf_provider_sources (resolve_layers ls))"
proof -
  have "providers_traced ls (rs_providers resolving_start, rs_provider_sources resolving_start)"
    by (simp add: providers_traced_def resolving_start_def)
  then show ?thesis using loop_traced [of "ordered_layers ls" ls resolving_start]
    by (simp add: resolve_layers_def Let_def)
qed

text \<open>A layer without providers leaves them alone.\<close>

lemma loop_providers_silent:
  assumes "\<forall>(s, l) \<in> set ls. \<not> is_operator_controlled s \<longrightarrow> cl_providers l = None"
    "rs_providers r = rs_providers q" "rs_provider_sources r = rs_provider_sources q"
  shows "rs_providers (fold apply_layer (op_layers ls) r) = rs_providers (fold apply_layer ls q) \<and>
         rs_provider_sources (fold apply_layer (op_layers ls) r) = rs_provider_sources (fold apply_layer ls q)"
  using assms
proof (induction ls arbitrary: r q)
  case (Cons x ls)
  obtain s l where x: "x = (s, l)" by force
  show ?case
  proof (cases "is_operator_controlled s")
    case True
    then show ?thesis using Cons.IH [of "apply_layer x r" "apply_layer x q"] Cons.prems by (simp add: x Let_def)
  next
    case False
    then have "cl_providers l = None" using Cons.prems(1) by (simp add: x)
    then have "rs_providers (apply_layer x q) = rs_providers q" "rs_provider_sources (apply_layer x q) = rs_provider_sources q"
      by (simp_all add: x insert_providers_def Let_def)
    then show ?thesis using Cons.IH [of r "apply_layer x q"] Cons.prems False by (simp add: x)
  qed
qed simp

section \<open>What resolution promises\<close>

definition config_mode_of :: "(config_source \<times> config_layer) list \<Rightarrow> mode \<times> config_source" where
  "config_mode_of ls = fold tighten ls (says requested_mode (op_layers ls) (Auto, Builtin))"

lemma resolve_fields:
  "cf_thinking_budget (resolve_layers ls) = fst (says layer_budget (ordered_layers ls) (DEFAULT_THINKING_BUDGET, Builtin))"
  "source_of (resolve_layers ls) ThinkingBudget = snd (says layer_budget (ordered_layers ls) (DEFAULT_THINKING_BUDGET, Builtin))"
  "cf_cohort_limit (resolve_layers ls) = fst (says layer_limit (ordered_layers ls) (DEFAULT_PEER_LIMIT, Builtin))"
  "source_of (resolve_layers ls) CohortLimit = snd (says layer_limit (ordered_layers ls) (DEFAULT_PEER_LIMIT, Builtin))"
  "cf_threshold (resolve_layers ls) =
     fst (says layer_threshold (ordered_layers ls) (DEFAULT_COMPACTION_THRESHOLD_PERCENT, Builtin))"
  "source_of (resolve_layers ls) CompactionThresholdPercent =
     snd (says layer_threshold (ordered_layers ls) (DEFAULT_COMPACTION_THRESHOLD_PERCENT, Builtin))"
  "cf_permission_mode (resolve_layers ls) = fst (config_mode_of (ordered_layers ls))"
  "source_of (resolve_layers ls) PermissionMode = snd (config_mode_of (ordered_layers ls))"
  by (simp_all add: resolve_layers_def source_of_def config_mode_of_def loop_fields Let_def resolving_start_def)

lemma ordered_op: "ordered_layers (op_layers ls) = op_layers (ordered_layers ls)"
  by (simp add: filter_sort)

lemma mode_of_op: "config_mode_of (op_layers ls) = says requested_mode (op_layers ls) (Auto, Builtin)"
  by (simp add: config_mode_of_def tighten_operator)

lemma repository_silent_on_providers:
  "layer_validate s l = Ok () \<Longrightarrow> \<not> is_operator_controlled s \<Longrightarrow> cl_providers l = None"
  by (cases "cl_providers l") (simp_all add: layer_validate_Ok valid_layer_def)

text \<open>
  C14. A repository tightens and never loosens. Against the configuration the operator alone would
  have got, the mode with the repository's file is at least as strict, and so everything that runs
  without a question under it also runs so under the operator's mode; every mode the repository asks
  for is honoured as a bound; the mode is either the operator's, with its source, or one the
  repository asks for, attributed to the repository; and where the layers are valid, the providers
  are exactly the operator's.
\<close>

theorem repository_never_loosens:
  assumes "c = resolve_layers layers" "d = resolve_layers (filter (\<lambda>(s, _). is_operator_controlled s) layers)"
    "\<forall>(s, l) \<in> set layers. layer_validate s l = Ok ()"
  shows "mode_rank (cf_permission_mode c) \<le> mode_rank (cf_permission_mode d) \<and>
    (gate q (cf_permission_mode c) rules = Run \<longrightarrow> gate q (cf_permission_mode d) rules = Run) \<and>
    (\<forall>l m. (Project, l) \<in> set layers \<and> requested_mode l = Some m \<longrightarrow> mode_rank (cf_permission_mode c) \<le> mode_rank m) \<and>
    (cf_permission_mode c = cf_permission_mode d \<and> source_of c PermissionMode = source_of d PermissionMode \<or>
     source_of c PermissionMode = Project \<and>
     (\<exists>l. (Project, l) \<in> set layers \<and> requested_mode l = Some (cf_permission_mode c))) \<and>
    cf_providers c = cf_providers d \<and> cf_provider_sources c = cf_provider_sources d"
proof -
  let ?ls = "ordered_layers layers"
  let ?m = "says requested_mode (op_layers ?ls) (Auto, Builtin)"
  have c: "cf_permission_mode c = fst (fold tighten ?ls ?m)" "source_of c PermissionMode = snd (fold tighten ?ls ?m)"
    by (simp_all add: assms(1) resolve_fields config_mode_of_def)
  have d: "cf_permission_mode d = fst ?m" "source_of d PermissionMode = snd ?m"
    by (simp_all add: assms(2) resolve_fields ordered_op mode_of_op)
  have bounds: "mode_rank (cf_permission_mode c) \<le> mode_rank (cf_permission_mode d)"
      "(s, l) \<in> set ?ls \<Longrightarrow> \<not> is_operator_controlled s \<Longrightarrow> requested_mode l = Some m \<Longrightarrow>
        mode_rank (cf_permission_mode c) \<le> mode_rank m" for s l m
    using tighten_bounds [of ?ls ?m] by (auto simp: c d)
  then have "gate q (cf_permission_mode c) rules = Run \<longrightarrow> gate q (cf_permission_mode d) rules = Run"
    using gate_mode_monotone by blast
  moreover have "\<forall>l m. (Project, l) \<in> set layers \<and> requested_mode l = Some m \<longrightarrow> mode_rank (cf_permission_mode c) \<le> mode_rank m"
    using bounds(2) [of Project] by (auto simp: is_operator_controlled_def)
  moreover have "cf_permission_mode c = cf_permission_mode d \<and> source_of c PermissionMode = source_of d PermissionMode \<or>
      source_of c PermissionMode = Project \<and>
      (\<exists>l. (Project, l) \<in> set layers \<and> requested_mode l = Some (cf_permission_mode c))"
    using tighten_source [of ?ls ?m] by (auto simp: c d)
  moreover have "\<forall>(s, l) \<in> set ?ls. \<not> is_operator_controlled s \<longrightarrow> cl_providers l = None"
    using assms(3) repository_silent_on_providers by fastforce
  then have "cf_providers c = cf_providers d \<and> cf_provider_sources c = cf_provider_sources d"
    using loop_providers_silent [of ?ls resolving_start resolving_start]
    by (simp add: assms(1,2) resolve_layers_def Let_def ordered_op)
  ultimately show ?thesis using bounds(1) by blast
qed

definition asks_mode :: "mode \<Rightarrow> config_layer" where
  "asks_mode m = layer_default\<lparr>cl_permission := Some (PermissionLayer (Some m))\<rparr>"

lemma asks_mode_simps [simp]:
  "requested_mode (asks_mode m) = Some m" "layer_budget (asks_mode m) = None" "layer_limit (asks_mode m) = None"
  "layer_threshold (asks_mode m) = None" "cl_providers (asks_mode m) = None" "layer_validate s (asks_mode m) = Ok ()"
  by (simp_all add: asks_mode_def layer_default_def requested_mode_def layer_budget_def layer_limit_def
      layer_threshold_def layer_validate_Ok valid_layer_def)

lemma repository_never_loosens_witness:
  "mode_rank (cf_permission_mode (resolve_layers [(Project, asks_mode Yolo), (User, asks_mode Ask_Mode)])) \<le> mode_rank Ask_Mode"
proof -
  let ?ls = "[(Project, asks_mode Yolo), (User, asks_mode Ask_Mode)]"
  have "cf_permission_mode (resolve_layers (filter (\<lambda>(s, _). is_operator_controlled s) ?ls)) = Ask_Mode"
    by (simp add: resolve_fields config_mode_of_def is_operator_controlled_def)
  then show ?thesis
    using repository_never_loosens [OF refl refl, of ?ls "\<lparr>q_effect = Eff_Read, q_class = TC_Agent, q_invoker = Inv_Host, q_summary = []\<rparr>" "[]"]
    by simp
qed

text \<open>
  Per-field precedence with provenance. With at most one layer per source: a scalar setting has
  the value of the highest-ranked source that says anything about it and names that source, and the
  built-in default where nobody says anything; the order in which layers arrive is irrelevant; and
  every provider is, as a whole, an entry of the layer its source names.
\<close>

lemma says_ordered:
  assumes "distinct (map fst ls)" "(s, l) \<in> set ls" "g l = Some v"
    "\<forall>(s', l') \<in> set ls. g l' \<noteq> None \<longrightarrow> source_rank s' \<le> source_rank s"
  shows "says g (ordered_layers ls) old = (v, s)"
proof (rule says_last)
  show "distinct (map fst (ordered_layers ls))"
    using assms(1) by (simp add: distinct_map inj_on_def)
  show "sorted (map rank_of (ordered_layers ls))" by simp
qed (use assms in \<open>auto split: prod.splits\<close>)

theorem precedence_per_field:
  assumes "distinct (map fst layers)"
  shows "((s, l) \<in> set layers \<and> layer_budget l = Some b \<and>
          (\<forall>(s', l') \<in> set layers. layer_budget l' \<noteq> None \<longrightarrow> source_rank s' \<le> source_rank s) \<longrightarrow>
        cf_thinking_budget (resolve_layers layers) = b \<and> source_of (resolve_layers layers) ThinkingBudget = s) \<and>
    ((s, l) \<in> set layers \<and> layer_limit l = Some n \<and>
          (\<forall>(s', l') \<in> set layers. layer_limit l' \<noteq> None \<longrightarrow> source_rank s' \<le> source_rank s) \<longrightarrow>
        cf_cohort_limit (resolve_layers layers) = n \<and> source_of (resolve_layers layers) CohortLimit = s) \<and>
    ((s, l) \<in> set layers \<and> layer_threshold l = Some t \<and>
          (\<forall>(s', l') \<in> set layers. layer_threshold l' \<noteq> None \<longrightarrow> source_rank s' \<le> source_rank s) \<longrightarrow>
        cf_threshold (resolve_layers layers) = t \<and> source_of (resolve_layers layers) CompactionThresholdPercent = s) \<and>
    ((\<forall>(s, l) \<in> set layers. layer_budget l = None) \<longrightarrow>
        cf_thinking_budget (resolve_layers layers) = 0 \<and> source_of (resolve_layers layers) ThinkingBudget = Builtin) \<and>
    (mset layers = mset layers' \<longrightarrow> resolve_layers layers = resolve_layers layers') \<and>
    (map_of (cf_providers (resolve_layers layers)) name = Some p \<longrightarrow>
       (\<exists>src entries e. provider_source (resolve_layers layers) name = Some src \<and>
          (\<exists>l. (src, l) \<in> set layers \<and> cl_providers l = Some entries) \<and> (name, e) \<in> set entries \<and> p = provider_of e))"
proof (intro conjI)
  note field = says_ordered [OF assms, of s l]
  show "(s, l) \<in> set layers \<and> layer_budget l = Some b \<and>
      (\<forall>(s', l') \<in> set layers. layer_budget l' \<noteq> None \<longrightarrow> source_rank s' \<le> source_rank s) \<longrightarrow>
      cf_thinking_budget (resolve_layers layers) = b \<and> source_of (resolve_layers layers) ThinkingBudget = s"
    by (intro impI) (elim conjE, simp only: resolve_fields field fst_conv snd_conv simp_thms)
  show "(s, l) \<in> set layers \<and> layer_limit l = Some n \<and>
      (\<forall>(s', l') \<in> set layers. layer_limit l' \<noteq> None \<longrightarrow> source_rank s' \<le> source_rank s) \<longrightarrow>
      cf_cohort_limit (resolve_layers layers) = n \<and> source_of (resolve_layers layers) CohortLimit = s"
    by (intro impI) (elim conjE, simp only: resolve_fields field fst_conv snd_conv simp_thms)
  show "(s, l) \<in> set layers \<and> layer_threshold l = Some t \<and>
      (\<forall>(s', l') \<in> set layers. layer_threshold l' \<noteq> None \<longrightarrow> source_rank s' \<le> source_rank s) \<longrightarrow>
      cf_threshold (resolve_layers layers) = t \<and> source_of (resolve_layers layers) CompactionThresholdPercent = s"
    by (intro impI) (elim conjE, simp only: resolve_fields field fst_conv snd_conv simp_thms)
  show "(\<forall>(s, l) \<in> set layers. layer_budget l = None) \<longrightarrow>
      cf_thinking_budget (resolve_layers layers) = 0 \<and> source_of (resolve_layers layers) ThinkingBudget = Builtin"
    using says_nothing [of "ordered_layers layers" layer_budget] by (simp add: resolve_fields DEFAULT_THINKING_BUDGET_def)
  show "mset layers = mset layers' \<longrightarrow> resolve_layers layers = resolve_layers layers'"
    using resolve_mset [OF _ assms] by blast
  show "map_of (cf_providers (resolve_layers layers)) name = Some p \<longrightarrow>
      (\<exists>src entries e. provider_source (resolve_layers layers) name = Some src \<and>
      (\<exists>l. (src, l) \<in> set layers \<and> cl_providers l = Some entries) \<and> (name, e) \<in> set entries \<and> p = provider_of e)"
  proof
    assume "map_of (cf_providers (resolve_layers layers)) name = Some p"
    then obtain src where "map_of (cf_provider_sources (resolve_layers layers)) name = Some src" "provider_from layers name p src"
      using resolve_traced [of layers] unfolding providers_traced_def by auto
    then show "\<exists>src entries e. provider_source (resolve_layers layers) name = Some src \<and>
        (\<exists>l. (src, l) \<in> set layers \<and> cl_providers l = Some entries) \<and> (name, e) \<in> set entries \<and> p = provider_of e"
      unfolding provider_from_def provider_source_def by blast
  qed
qed

definition says_budget :: "nat \<Rightarrow> config_layer" where
  "says_budget n = layer_default\<lparr>cl_thinking := Some (ThinkingLayer (Some n))\<rparr>"

lemma precedence_per_field_witness:
  "cf_thinking_budget (resolve_layers [(Cli, says_budget 512), (User, says_budget 64)]) = 512 \<and>
   source_of (resolve_layers [(Cli, says_budget 512), (User, says_budget 64)]) ThinkingBudget = Cli"
  using precedence_per_field [of "[(Cli, says_budget 512), (User, says_budget 64)]" Cli "says_budget 512" 512]
  by (simp add: says_budget_def layer_budget_def)

text \<open>A repository does raise a reasoning budget over the one its user chose.\<close>

lemma repository_raises_budget:
  "cf_thinking_budget (resolve_layers [(User, says_budget 64), (Project, says_budget 512)]) = 512 \<and>
   source_of (resolve_layers [(User, says_budget 64), (Project, says_budget 512)]) ThinkingBudget = Project"
  by (simp add: resolve_fields) (simp add: says_budget_def layer_budget_def)

end
