(* ===== verification/Config_Load.thy ===== *)
theory Config_Load
  imports Config_Resolve
begin

text \<open>
  Discovery (\<open>crates/supra_config/src/discover.rs\<close>) and the loader (\<open>lib.rs\<close>). What the operating
  system answers about a path is a record of functions; a path is its text, a directory the list of
  its components from the root.
\<close>

section \<open>Finding and reading files\<close>

definition CONFIG_DIR :: string where "CONFIG_DIR = ''supra''"
definition CONFIG_FILE :: string where "CONFIG_FILE = ''config.toml''"
definition PROJECT_DIR :: string where "PROJECT_DIR = ''.supra''"

datatype 'a sys = Found 'a | NotFound | Fails string

record conf_meta =
  cm_is_file :: bool
  cm_mode :: nat

record conf_handle =
  ch_meta :: "conf_meta + string"
  ch_text :: "string + string"

record conf_fs =
  fs_exists :: "string \<Rightarrow> bool + string"
  fs_stat :: "string \<Rightarrow> conf_meta sys"
  fs_open :: "string \<Rightarrow> conf_handle sys"

definition path_join :: "string \<Rightarrow> string \<Rightarrow> string" where
  "path_join base name = (if base \<noteq> [] \<and> last base = CHR ''/'' then base @ name else base @ ''/'' @ name)"

definition is_absolute :: "string \<Rightarrow> bool" where
  "is_absolute p \<longleftrightarrow> strip_prefix ''/'' p \<noteq> None"

definition user_config_path :: "string option \<Rightarrow> string option \<Rightarrow> string option" where
  "user_config_path xdg home =
     (let base =
        (case xdg of
           Some v \<Rightarrow> if v \<noteq> [] \<and> is_absolute v then Some v
             else (case home of Some h \<Rightarrow> if h = [] then None else Some (path_join h ''.config'') | None \<Rightarrow> None)
         | None \<Rightarrow> (case home of Some h \<Rightarrow> if h = [] then None else Some (path_join h ''.config'') | None \<Rightarrow> None))
      in map_option (\<lambda>b. path_join (path_join b CONFIG_DIR) CONFIG_FILE) base)"

definition dir_text :: "string list \<Rightarrow> string" where
  "dir_text cs = foldl path_join ''/'' cs"

definition project_candidate :: "string list \<Rightarrow> string" where
  "project_candidate cs = path_join (path_join (dir_text cs) PROJECT_DIR) CONFIG_FILE"

function project_config_path :: "conf_fs \<Rightarrow> string list \<Rightarrow> (string option, config_error) outcome" where
  "project_config_path fs current =
     (case fs_exists fs (project_candidate current) of
        Inl True \<Rightarrow> Ok (Some (project_candidate current))
      | Inl False \<Rightarrow> if current = [] then Ok None else project_config_path fs (butlast current)
      | Inr e \<Rightarrow> Err (Unreadable Project (project_candidate current) e))"
  by pat_completeness auto
termination
  by (relation "measure (\<lambda>(_, cs). length cs)") auto

declare project_config_path.simps [simp del]

definition open_regular :: "conf_fs \<Rightarrow> config_source \<Rightarrow> string \<Rightarrow>
    ((conf_handle \<times> conf_meta) option, config_error) outcome" where
  "open_regular fs layer path =
     (case fs_stat fs path of
        NotFound \<Rightarrow> Ok None
      | Fails e \<Rightarrow> Err (Unreadable layer path e)
      | Found meta \<Rightarrow>
          if \<not> cm_is_file meta then Err (NotARegularFile layer path)
          else
            (case fs_open fs path of
               NotFound \<Rightarrow> Ok None
             | Fails e \<Rightarrow> Err (Unreadable layer path e)
             | Found h \<Rightarrow>
                 (case ch_meta h of
                    Inr e \<Rightarrow> Err (Unreadable layer path e)
                  | Inl meta \<Rightarrow> if \<not> cm_is_file meta then Err (NotARegularFile layer path) else Ok (Some (h, meta)))))"

definition check_private :: "config_source \<Rightarrow> string \<Rightarrow> conf_meta \<Rightarrow> (unit, config_error) outcome" where
  "check_private layer path meta =
     (let mode = and (cm_mode meta) 511 in
      if and mode 63 = 0 then Ok () else Err (TooPermissive layer path mode))"

definition read_to_string :: "config_source \<Rightarrow> string \<Rightarrow> conf_handle \<Rightarrow> (string, config_error) outcome" where
  "read_to_string layer path h =
     (case ch_text h of Inl text \<Rightarrow> Ok text | Inr e \<Rightarrow> Err (Unreadable layer path e))"

definition read_private :: "conf_fs \<Rightarrow> config_source \<Rightarrow> string \<Rightarrow> (string option, config_error) outcome" where
  "read_private fs layer path =
     bind_outcome (open_regular fs layer path) (\<lambda>opened.
       case opened of
         None \<Rightarrow> Ok None
       | Some (file, meta) \<Rightarrow>
           bind_outcome (check_private layer path meta) (\<lambda>_.
           bind_outcome (read_to_string layer path file) (\<lambda>text. Ok (Some text))))"

definition read_shared :: "conf_fs \<Rightarrow> config_source \<Rightarrow> string \<Rightarrow> (string option, config_error) outcome" where
  "read_shared fs layer path =
     bind_outcome (open_regular fs layer path) (\<lambda>opened.
       case opened of
         None \<Rightarrow> Ok None
       | Some (file, _) \<Rightarrow> bind_outcome (read_to_string layer path file) (\<lambda>text. Ok (Some text)))"

section \<open>The environment\<close>

definition ENV_PREFIX :: string where "ENV_PREFIX = ''SUPRA_CONFIG_''"

definition ENV_SETTINGS :: "(string \<times> setting) list" where
  "ENV_SETTINGS =
     [(''SUPRA_CONFIG_THINKING_BUDGET'', ThinkingBudget),
      (''SUPRA_CONFIG_COHORT_LIMIT'', CohortLimit),
      (''SUPRA_CONFIG_PERMISSION_MODE'', PermissionMode),
      (''SUPRA_CONFIG_COMPACTION_THRESHOLD_PERCENT'', CompactionThresholdPercent)]"

definition apply_env :: "config_layer \<Rightarrow> string \<Rightarrow> string \<Rightarrow> setting \<Rightarrow> (config_layer, config_error) outcome" where
  "apply_env l name value setting =
     (case setting of
        ThinkingBudget \<Rightarrow>
          (case parse_unsigned u32_max (trim value) of
             Some n \<Rightarrow> Ok (l\<lparr>cl_thinking := Some (ThinkingLayer (Some n))\<rparr>)
           | None \<Rightarrow> Err (InvalidEnv name NotANumber))
      | CohortLimit \<Rightarrow>
          (case parse_unsigned u64_max (trim value) of
             Some n \<Rightarrow> Ok (l\<lparr>cl_cohort := Some (CohortLayer (Some n))\<rparr>)
           | None \<Rightarrow> Err (InvalidEnv name NotANumber))
      | PermissionMode \<Rightarrow>
          (case mode_try_from (trim value) of
             Some m \<Rightarrow> Ok (l\<lparr>cl_permission := Some (PermissionLayer (Some m))\<rparr>)
           | None \<Rightarrow> Err (InvalidEnv name (NotAMode (trim value))))
      | CompactionThresholdPercent \<Rightarrow>
          (case parse_unsigned 255 (trim value) of
             Some n \<Rightarrow> Ok (l\<lparr>cl_prompt := Some (PromptLayer (Some n))\<rparr>)
           | None \<Rightarrow> Err (InvalidEnv name NotANumber)))"

fun env_loop :: "(string \<times> string) list \<Rightarrow> config_layer \<Rightarrow> bool \<Rightarrow> (config_layer \<times> bool, config_error) outcome" where
  "env_loop [] l any = Ok (l, any)"
| "env_loop ((name, value) # vars) l any =
     (if strip_prefix ENV_PREFIX name = None then env_loop vars l any
      else case List.find (\<lambda>(candidate, _). candidate = name) ENV_SETTINGS of
        None \<Rightarrow> Err (InvalidEnv name UnknownVariable)
      | Some (_, setting) \<Rightarrow> bind_outcome (apply_env l name value setting) (\<lambda>l. env_loop vars l True))"

definition env_layer :: "(string \<times> string) list \<Rightarrow> (config_layer option, config_error) outcome" where
  "env_layer vars =
     bind_outcome (env_loop vars layer_default False) (\<lambda>(l, any). Ok (if any then Some l else None))"

section \<open>Loading\<close>

record loader =
  ld_user_path :: "string option"
  ld_project_start :: "string list option"
  ld_environment :: "(string \<times> string) list"
  ld_cli :: "config_layer option"
  ld_session :: "config_layer option"

definition isolated :: loader where
  "isolated = \<lparr>ld_user_path = None, ld_project_start = None, ld_environment = [], ld_cli = None, ld_session = None\<rparr>"

text \<open>An environment as the system hands it out; \<open>None\<close> stands for a text that is not UTF-8.\<close>

definition from_environment ::
    "string option \<Rightarrow> string option \<Rightarrow> string list option \<Rightarrow> (string option \<times> string option) list \<Rightarrow> loader" where
  "from_environment xdg home cwd vars =
     \<lparr>ld_user_path = user_config_path xdg home, ld_project_start = cwd,
      ld_environment =
        List.map_filter (\<lambda>(name, value).
          case name of
            None \<Rightarrow> None
          | Some n \<Rightarrow> if strip_prefix ENV_PREFIX n = None then None else map_option (\<lambda>v. (n, v)) value) vars,
      ld_cli = None, ld_session = None\<rparr>"

definition with_user_path :: "string \<Rightarrow> loader \<Rightarrow> loader" where
  "with_user_path p ld = ld\<lparr>ld_user_path := Some p\<rparr>"
definition with_project_start :: "string list \<Rightarrow> loader \<Rightarrow> loader" where
  "with_project_start d ld = ld\<lparr>ld_project_start := Some d\<rparr>"
definition with_environment :: "(string \<times> string) list \<Rightarrow> loader \<Rightarrow> loader" where
  "with_environment vars ld = ld\<lparr>ld_environment := vars\<rparr>"
definition with_cli :: "config_layer \<Rightarrow> loader \<Rightarrow> loader" where
  "with_cli l ld = ld\<lparr>ld_cli := Some l\<rparr>"
definition with_session :: "config_layer \<Rightarrow> loader \<Rightarrow> loader" where
  "with_session l ld = ld\<lparr>ld_session := Some l\<rparr>"

definition parse_and_validate ::
    "(string \<Rightarrow> config_layer + toml_error) \<Rightarrow> string \<Rightarrow> config_source \<Rightarrow> string \<Rightarrow> (config_layer, config_error) outcome" where
  "parse_and_validate toml text source path =
     bind_outcome (layer_parse toml text source path) (\<lambda>l.
     bind_outcome (layer_validate source l) (\<lambda>_. Ok l))"

type_synonym sourced = "(config_source \<times> config_layer) list"

definition load_user :: "conf_fs \<Rightarrow> (string \<Rightarrow> config_layer + toml_error) \<Rightarrow> loader \<Rightarrow> (sourced, config_error) outcome" where
  "load_user fs toml ld =
     (case ld_user_path ld of
        None \<Rightarrow> Ok []
      | Some path \<Rightarrow>
          bind_outcome (read_private fs User path) (\<lambda>text.
            case text of
              None \<Rightarrow> Ok []
            | Some t \<Rightarrow> bind_outcome (parse_and_validate toml t User path) (\<lambda>l. Ok [(User, l)])))"

definition load_project :: "conf_fs \<Rightarrow> (string \<Rightarrow> config_layer + toml_error) \<Rightarrow> loader \<Rightarrow> (sourced, config_error) outcome" where
  "load_project fs toml ld =
     (case ld_project_start ld of
        None \<Rightarrow> Ok []
      | Some start \<Rightarrow>
          bind_outcome (project_config_path fs start) (\<lambda>found.
            case found of
              None \<Rightarrow> Ok []
            | Some path \<Rightarrow>
                bind_outcome (read_shared fs Project path) (\<lambda>text.
                  case text of
                    None \<Rightarrow> Ok []
                  | Some t \<Rightarrow> bind_outcome (parse_and_validate toml t Project path) (\<lambda>l. Ok [(Project, l)]))))"

definition load_given :: "config_source \<Rightarrow> config_layer option \<Rightarrow> (sourced, config_error) outcome" where
  "load_given source given =
     (case given of
        None \<Rightarrow> Ok []
      | Some l \<Rightarrow> bind_outcome (layer_validate source l) (\<lambda>_. Ok [(source, l)]))"

definition load_layers :: "conf_fs \<Rightarrow> (string \<Rightarrow> config_layer + toml_error) \<Rightarrow> loader \<Rightarrow> (sourced, config_error) outcome" where
  "load_layers fs toml ld =
     bind_outcome (load_user fs toml ld) (\<lambda>user.
     bind_outcome (load_project fs toml ld) (\<lambda>project.
     bind_outcome (env_layer (ld_environment ld)) (\<lambda>env.
     bind_outcome (load_given Env env) (\<lambda>env.
     bind_outcome (load_given Cli (ld_cli ld)) (\<lambda>cli.
     bind_outcome (load_given Session (ld_session ld)) (\<lambda>session.
       Ok (user @ project @ env @ cli @ session)))))))"

definition config_load :: "conf_fs \<Rightarrow> (string \<Rightarrow> config_layer + toml_error) \<Rightarrow> loader \<Rightarrow> (config, config_error) outcome" where
  "config_load fs toml ld = bind_outcome (load_layers fs toml ld) (\<lambda>layers. Ok (resolve_layers layers))"

section \<open>Reading\<close>

lemma open_regular_Some:
  "open_regular fs s p = Ok (Some (h, meta)) \<longleftrightarrow>
     (\<exists>m. fs_stat fs p = Found m \<and> cm_is_file m) \<and> fs_open fs p = Found h \<and> ch_meta h = Inl meta \<and> cm_is_file meta"
  by (auto simp: open_regular_def split: sys.splits sum.splits)

lemma read_private_Some:
  "read_private fs s p = Ok (Some text) \<Longrightarrow>
     \<exists>h meta. open_regular fs s p = Ok (Some (h, meta)) \<and> and (and (cm_mode meta) 511) 63 = 0 \<and> ch_text h = Inl text"
  unfolding read_private_def bind_outcome_Ok_iff check_private_def read_to_string_def Let_def
  by (erule exE) (auto split: option.split_asm if_split_asm sum.split_asm)

text \<open>
  The bits of group and other are the low six of the mode.
\<close>

lemma private_mode: "and (and m 511) 63 = 0 \<longleftrightarrow> m mod 64 = (0 :: nat)"
proof -
  have "and (and m 511) (63 :: nat) = and m (and 511 63)" by (simp only: and.assoc)
  also have "\<dots> = and m (mask 6)" by (simp add: mask_eq_exp_minus_1)
  also have "\<dots> = m mod 64" by (simp only: take_bit_eq_mask [symmetric] take_bit_eq_mod) simp
  finally show ?thesis by simp
qed

section \<open>The nearest project file\<close>

lemma project_config_path_step:
  "project_config_path fs cs =
     (case fs_exists fs (project_candidate cs) of
        Inl True \<Rightarrow> Ok (Some (project_candidate cs))
      | Inl False \<Rightarrow> if cs = [] then Ok None else project_config_path fs (butlast cs)
      | Inr e \<Rightarrow> Err (Unreadable Project (project_candidate cs) e))"
  by (rule project_config_path.simps)

definition absent_above :: "conf_fs \<Rightarrow> string list \<Rightarrow> nat \<Rightarrow> bool" where
  "absent_above fs cs n \<longleftrightarrow>
     (\<forall>k. n < k \<and> k \<le> length cs \<longrightarrow> fs_exists fs (project_candidate (take k cs)) = Inl False)"

lemma absent_above_snoc:
  "fs_exists fs (project_candidate (cs @ [x])) = Inl False \<Longrightarrow> n \<le> length cs \<Longrightarrow>
    absent_above fs (cs @ [x]) n \<longleftrightarrow> absent_above fs cs n"
  unfolding absent_above_def by (auto simp: le_Suc_eq)

lemma project_found:
  "project_config_path fs cs = Ok (Some p) \<longleftrightarrow>
     (\<exists>n \<le> length cs. p = project_candidate (take n cs) \<and>
        fs_exists fs (project_candidate (take n cs)) = Inl True \<and> absent_above fs cs n)"
proof (induction cs rule: rev_induct)
  case Nil
  show ?case by (subst project_config_path_step) (auto simp: absent_above_def split: sum.splits bool.splits)
next
  case (snoc x cs)
  let ?cs = "cs @ [x]"
  have here: "n = length ?cs" if "fs_exists fs (project_candidate ?cs) \<noteq> Inl False" "absent_above fs ?cs n" "n \<le> length ?cs" for n
  proof (rule ccontr)
    assume "n \<noteq> length ?cs"
    then have "fs_exists fs (project_candidate (take (length ?cs) ?cs)) = Inl False"
      using that unfolding absent_above_def by (metis le_neq_implies_less order_refl)
    then show False using that(1) by simp
  qed
  have top: "absent_above fs ?cs (length ?cs)" by (auto simp: absent_above_def)
  show ?case
  proof (cases "fs_exists fs (project_candidate ?cs) = Inl False")
    case True
    have "project_config_path fs ?cs = project_config_path fs cs"
      by (subst project_config_path_step) (simp add: True)
    moreover have "n \<le> length cs" if "n \<le> length ?cs" "fs_exists fs (project_candidate (take n ?cs)) = Inl True" for n
      using that True by (cases "n = length ?cs") auto
    ultimately show ?thesis using snoc absent_above_snoc [OF True] by (auto simp: le_Suc_eq) fastforce+
  next
    case False
    then have "project_config_path fs ?cs = Ok (Some p) \<longleftrightarrow>
        fs_exists fs (project_candidate ?cs) = Inl True \<and> p = project_candidate ?cs"
      by (subst project_config_path_step) (auto split: sum.splits bool.splits)
    then show ?thesis using here [OF False] top by (metis le_refl take_all)
  qed
qed

lemma project_none:
  "project_config_path fs cs = Ok None \<longleftrightarrow>
     (\<forall>k \<le> length cs. fs_exists fs (project_candidate (take k cs)) = Inl False)"
proof (induction cs rule: rev_induct)
  case Nil
  show ?case by (subst project_config_path_step) (auto split: sum.splits bool.splits)
next
  case (snoc x cs)
  show ?case
    by (subst project_config_path_step) (auto simp: le_Suc_eq snoc split: sum.splits bool.splits)
qed

text \<open>
  The nearest project file wins: the search answers with a file exactly when that file exists at
  some ancestor-or-self of the start and every directory nearer to the start was looked at and has
  none, so a directory that cannot be inspected is never skipped; and it answers that there is none
  exactly when every directory up to the root was looked at and has none.
\<close>

theorem nearest_project_wins:
  "(project_config_path fs cs = Ok (Some p) \<longleftrightarrow>
     (\<exists>n \<le> length cs. p = project_candidate (take n cs) \<and>
        fs_exists fs (project_candidate (take n cs)) = Inl True \<and>
        (\<forall>k. n < k \<and> k \<le> length cs \<longrightarrow> fs_exists fs (project_candidate (take k cs)) = Inl False))) \<and>
   (project_config_path fs cs = Ok None \<longleftrightarrow>
     (\<forall>k \<le> length cs. fs_exists fs (project_candidate (take k cs)) = Inl False))"
  using project_found [of fs cs p] project_none [of fs cs] unfolding absent_above_def by blast

definition no_files :: conf_fs where
  "no_files = \<lparr>fs_exists = \<lambda>_. Inl False, fs_stat = \<lambda>_. NotFound, fs_open = \<lambda>_. NotFound\<rparr>"

lemma nearest_project_wins_witness:
  "project_config_path (no_files\<lparr>fs_exists := \<lambda>p. Inl (p = project_candidate [''home''])\<rparr>) [''home'', ''me''] =
     Ok (Some (project_candidate [''home'']))"
proof -
  have "project_candidate [''home''] \<noteq> project_candidate [''home'', ''me'']"
    by (simp add: project_candidate_def dir_text_def path_join_def PROJECT_DIR_def CONFIG_FILE_def)
  then show ?thesis
    by (intro nearest_project_wins [THEN conjunct1, THEN iffD2] exI [of _ "1 :: nat"])
      (auto simp: no_files_def dest: Suc_lessI)
qed

section \<open>The layers that are loaded\<close>

lemma parse_and_validate_Ok:
  "parse_and_validate toml t s path = Ok l \<Longrightarrow> layer_validate s l = Ok ()"
  by (auto simp: parse_and_validate_def bind_outcome_Ok_iff)

definition loaded :: "config_source \<Rightarrow> sourced \<Rightarrow> bool" where
  "loaded s ls \<longleftrightarrow> ls = [] \<or> (\<exists>l. ls = [(s, l)] \<and> layer_validate s l = Ok ())"

lemma load_user_loaded: "load_user fs toml ld = Ok ls \<Longrightarrow> loaded User ls"
  by (auto simp: load_user_def loaded_def bind_outcome_Ok_iff parse_and_validate_Ok split: option.splits)

lemma load_project_loaded: "load_project fs toml ld = Ok ls \<Longrightarrow> loaded Project ls"
  by (auto simp: load_project_def loaded_def bind_outcome_Ok_iff parse_and_validate_Ok split: option.splits)

lemma load_given_loaded: "load_given s given = Ok ls \<Longrightarrow> loaded s ls"
  by (auto simp: load_given_def loaded_def bind_outcome_Ok_iff split: option.splits)

lemma loaded_set: "loaded s ls \<Longrightarrow> \<forall>(t, l) \<in> set ls. t = s \<and> layer_validate t l = Ok ()"
  by (auto simp: loaded_def)

lemma loaded_distinct: "loaded s ls \<Longrightarrow> distinct (map fst ls) \<and> set (map fst ls) \<subseteq> {s}"
  by (auto simp: loaded_def)

lemma load_layers_split:
  assumes "load_layers fs toml ld = Ok ls"
  shows "\<exists>user project env cli session. ls = user @ project @ env @ cli @ session \<and>
    loaded User user \<and> loaded Project project \<and> loaded Env env \<and> loaded Cli cli \<and> loaded Session session"
proof -
  from assms obtain user project e env cli session where *: "load_user fs toml ld = Ok user"
      "load_project fs toml ld = Ok project" "load_given Env e = Ok env" "load_given Cli (ld_cli ld) = Ok cli"
      "load_given Session (ld_session ld) = Ok session" and ls: "ls = user @ project @ env @ cli @ session"
    unfolding load_layers_def bind_outcome_Ok_iff by auto
  show ?thesis using *(1) [THEN load_user_loaded] *(2) [THEN load_project_loaded] *(3-5) [THEN load_given_loaded] ls
    by blast
qed

lemma load_layers_valid:
  assumes "load_layers fs toml ld = Ok ls"
  shows "(\<forall>(s, l) \<in> set ls. layer_validate s l = Ok ()) \<and> distinct (map fst ls)"
proof -
  obtain user project env cli session where *: "ls = user @ project @ env @ cli @ session"
      "loaded User user" "loaded Project project" "loaded Env env" "loaded Cli cli" "loaded Session session"
    using load_layers_split [OF assms] by (elim exE conjE)
  note sets = *(2-) [THEN loaded_set] and dist = *(2-) [THEN loaded_distinct]
  have "\<forall>(s, l) \<in> set ls. layer_validate s l = Ok ()" using sets by (auto simp: *(1))
  moreover have "distinct (map fst ls)"
    using dist by (fastforce simp: *(1) disjoint_iff)
  ultimately show ?thesis by blast
qed

lemma config_load_Ok: "config_load fs toml ld = Ok c \<Longrightarrow> \<exists>ls. load_layers fs toml ld = Ok ls \<and> c = resolve_layers ls"
  by (auto simp: config_load_def bind_outcome_Ok_iff)

lemma says_all:
  assumes "\<forall>(s, l) \<in> set ls. opt_all P (g l)" "P (fst old)"
  shows "P (fst (says g ls old))"
  using says_value [of g ls old] assms by (cases "says g ls old = old") (auto simp: opt_all_def)

definition valid_config :: "config \<Rightarrow> bool" where
  "valid_config c \<longleftrightarrow>
     1 \<le> cf_cohort_limit c \<and> cf_cohort_limit c \<le> PEER_CEILING \<and>
     MIN_COMPACTION_THRESHOLD_PERCENT \<le> cf_threshold c \<and> cf_threshold c \<le> MAX_COMPACTION_THRESHOLD_PERCENT \<and>
     (\<forall>name p. map_of (cf_providers c) name = Some p \<longrightarrow>
        name \<noteq> [] \<and> (pr_api_key_env p = None \<or> pr_api_key_keyring p = None) \<and>
        opt_all env_name_shaped (pr_api_key_env p) \<and>
        opt_all (\<lambda>e. check_endpoint e = Ok ()) (pr_endpoint p) \<and>
        (\<exists>s. provider_source c name = Some s \<and> is_operator_controlled s))"

lemma resolve_valid:
  assumes "\<forall>(s, l) \<in> set ls. layer_validate s l = Ok ()"
  shows "valid_config (resolve_layers ls)"
proof -
  have valid: "\<forall>(s, l) \<in> set (ordered_layers ls). valid_layer s l" using assms by (simp add: layer_validate_Ok)
  have lim: "\<forall>(s, l) \<in> set (ordered_layers ls). opt_all (\<lambda>n. 1 \<le> n \<and> n \<le> PEER_CEILING) (layer_limit l)"
    and thr: "\<forall>(s, l) \<in> set (ordered_layers ls). opt_all
      (\<lambda>t. MIN_COMPACTION_THRESHOLD_PERCENT \<le> t \<and> t \<le> MAX_COMPACTION_THRESHOLD_PERCENT) (layer_threshold l)"
    using valid unfolding valid_layer_def by blast+
  have "1 \<le> cf_cohort_limit (resolve_layers ls) \<and> cf_cohort_limit (resolve_layers ls) \<le> PEER_CEILING"
    unfolding resolve_fields by (rule says_all [OF lim]) (simp add: DEFAULT_PEER_LIMIT_def PEER_CEILING_def)
  moreover have "MIN_COMPACTION_THRESHOLD_PERCENT \<le> cf_threshold (resolve_layers ls) \<and>
      cf_threshold (resolve_layers ls) \<le> MAX_COMPACTION_THRESHOLD_PERCENT"
    unfolding resolve_fields by (rule says_all [OF thr])
      (simp add: DEFAULT_COMPACTION_THRESHOLD_PERCENT_def MIN_COMPACTION_THRESHOLD_PERCENT_def MAX_COMPACTION_THRESHOLD_PERCENT_def)
  moreover have "name \<noteq> [] \<and> (pr_api_key_env p = None \<or> pr_api_key_keyring p = None) \<and>
      opt_all env_name_shaped (pr_api_key_env p) \<and> opt_all (\<lambda>e. check_endpoint e = Ok ()) (pr_endpoint p) \<and>
      (\<exists>s. provider_source (resolve_layers ls) name = Some s \<and> is_operator_controlled s)"
    if get: "map_of (cf_providers (resolve_layers ls)) name = Some p" for name p
  proof -
    obtain s l es e where s: "provider_source (resolve_layers ls) name = Some s" "(s, l) \<in> set ls"
        "cl_providers l = Some es" "(name, e) \<in> set es" "p = provider_of e"
      using resolve_traced [of ls] get unfolding providers_traced_def provider_from_def provider_source_def by fastforce
    have "valid_layer s l" using s(2) assms by (auto simp: layer_validate_Ok)
    then have "is_operator_controlled s" "valid_provider name e" using s(3,4) by (auto simp: valid_layer_def)
    then show ?thesis using s(1,5) by (auto simp: valid_provider_def provider_of_def)
  qed
  ultimately show ?thesis by (simp add: valid_config_def)
qed

text \<open>
  C17. A configuration that loads is well formed: the cohort limit is between 1 and 80, the compaction
  threshold between 92 and 95, every provider has a name, at most one credential source, a
  well-shaped variable name, an endpoint that is not plaintext beyond loopback, and a source the
  operator controls.
\<close>

theorem loaded_config_well_formed: "config_load fs toml ld = Ok c \<Longrightarrow> valid_config c"
  by (drule config_load_Ok) (use load_layers_valid resolve_valid in blast)

lemma isolated_loads: "config_load fs toml isolated = Ok (resolve_layers [])"
  by (simp add: config_load_def load_layers_def load_user_def load_project_def load_given_def env_layer_def isolated_def)

lemma loaded_config_well_formed_witness: "valid_config (resolve_layers [])"
  by (rule loaded_config_well_formed [OF isolated_loads [of no_files "\<lambda>_. Inl layer_default"]])

text \<open>
  A user file that others can read is never used: if loading succeeds and the user's file is
  there to be opened, the handle it was read from is of a regular file whose group and other bits
  are all clear, and the same handle gave the text; a path that is not a regular file is refused
  before it is opened, whatever opening it would do.
\<close>

theorem user_file_is_private:
  assumes "config_load fs toml ld = Ok c" "ld_user_path ld = Some path" "fs_stat fs path = Found m" "fs_open fs path = Found h"
  shows "(\<exists>meta text. ch_meta h = Inl meta \<and> cm_is_file meta \<and> cm_mode meta mod 64 = 0 \<and> ch_text h = Inl text) \<and>
    read_private (fs\<lparr>fs_stat := (\<lambda>_. Found (m\<lparr>cm_is_file := False\<rparr>)), fs_open := other\<rparr>) User path = Err (NotARegularFile User path)"
proof
  obtain r where read: "read_private fs User path = Ok r"
    using assms(1,2) by (auto simp: config_load_def load_layers_def load_user_def bind_outcome_Ok_iff)
  have "r \<noteq> None"
    using read assms(3,4) by (auto simp: read_private_def open_regular_def bind_outcome_Ok_iff
        split: if_split_asm sum.split_asm)
  then obtain t where "read_private fs User path = Ok (Some t)" using read by blast
  from read_private_Some [OF this]
  show "\<exists>meta text. ch_meta h = Inl meta \<and> cm_is_file meta \<and> cm_mode meta mod 64 = 0 \<and> ch_text h = Inl text"
    using assms(4) unfolding open_regular_Some private_mode by auto
  show "read_private (fs\<lparr>fs_stat := (\<lambda>_. Found (m\<lparr>cm_is_file := False\<rparr>)), fs_open := other\<rparr>) User path = Err (NotARegularFile User path)"
    by (simp add: read_private_def open_regular_def)
qed

definition one_file :: "nat \<Rightarrow> conf_fs" where
  "one_file mode = no_files\<lparr>fs_stat := \<lambda>_. Found \<lparr>cm_is_file = True, cm_mode = mode\<rparr>,
     fs_open := \<lambda>_. Found \<lparr>ch_meta = Inl \<lparr>cm_is_file = True, cm_mode = mode\<rparr>, ch_text = Inl []\<rparr>\<rparr>"

lemma user_file_is_private_witness:
  "cm_mode \<lparr>cm_is_file = True, cm_mode = 384\<rparr> mod 64 = 0 \<and>
   is_Ok (config_load (one_file 384) (\<lambda>_. Inl layer_default) (with_user_path ''/c'' isolated))"
proof -
  have "and (and 384 511) (63 :: nat) = 0" by (simp add: private_mode)
  moreover have "layer_validate User layer_default = Ok ()"
    by (simp add: layer_validate_Ok valid_layer_def layer_limit_def layer_threshold_def layer_default_def)
  ultimately have load: "config_load (one_file 384) (\<lambda>_. Inl layer_default) (with_user_path ''/c'' isolated) =
      Ok (resolve_layers [(User, layer_default)])"
    by (simp add: config_load_def load_layers_def load_user_def load_project_def load_given_def env_layer_def
        isolated_def with_user_path_def one_file_def no_files_def read_private_def open_regular_def check_private_def
        read_to_string_def parse_and_validate_def layer_parse_def)
  have "is_Ok (config_load (one_file 384) (\<lambda>_. Inl layer_default) (with_user_path ''/c'' isolated))"
    by (simp add: load)
  then show ?thesis
    using user_file_is_private [OF load, of "''/c''" "\<lparr>cm_is_file = True, cm_mode = 384\<rparr>"
        "\<lparr>ch_meta = Inl \<lparr>cm_is_file = True, cm_mode = 384\<rparr>, ch_text = Inl []\<rparr>" "\<lambda>_. NotFound"]
    by (simp only: with_user_path_def one_file_def) simp
qed

end
