(* ===== verification/Digest_Graph.thy ===== *)
theory Digest_Graph
  imports Config Estimate "HOL-Library.Product_Lexorder"
begin

text \<open>
  The import graph of \<open>crates/supra_digest/src/graph.rs\<close>: module paths, how imports are normalised
  and resolved, and the blast radius of a file as a backward walk. A path is the list of its
  components below the root.
\<close>

section \<open>Module paths\<close>

type_synonym file_path = "string list"

text \<open>\<open>rsplit_once\<close> at a double colon, its left part.\<close>

fun rsplit_colons :: "string \<Rightarrow> string option" where
  "rsplit_colons [] = None"
| "rsplit_colons (c # s) =
     (case rsplit_colons s of
        Some p \<Rightarrow> Some (c # p)
      | None \<Rightarrow> if strip_prefix ''::'' (c # s) \<noteq> None then Some [] else None)"

lemma rsplit_colons_shorter: "rsplit_colons s = Some p \<Longrightarrow> length p < length s"
  by (induction s arbitrary: p) (auto split: option.splits if_splits)

definition join_colons :: "string list \<Rightarrow> string" where
  "join_colons parts = concat (case parts of [] \<Rightarrow> [] | p # ps \<Rightarrow> p # map (\<lambda>q. ''::'' @ q) ps)"

text \<open>\<open>Path::file_stem\<close> of a name: everything before its last dot, if that is not its first byte.\<close>

definition stem_of :: "string \<Rightarrow> string" where
  "stem_of name =
     (if CHR ''.'' \<in> set (tl name) \<and> name \<noteq> ''..''
      then rev (drop 1 (dropWhile (\<lambda>c. c \<noteq> CHR ''.'') (rev name))) else name)"

definition module_path :: "file_path \<Rightarrow> string option" where
  "module_path path =
     (if path = [] then None
      else
        let stem = stem_of (last path) in
        if stem = ''mod'' \<or> stem = ''__init__'' then
          (let parts = butlast path in if parts = [] then None else Some (join_colons parts))
        else Some (join_colons (butlast path @ [stem])))"

section \<open>The graph\<close>

type_synonym edge = "file_path \<times> string \<times> bool"

record dependency_graph =
  dg_edges :: "(edge, unit) btree"
  dg_modules :: "(string, file_path) btree"

definition graph_new :: dependency_graph where
  "graph_new = \<lparr>dg_edges = [], dg_modules = []\<rparr>"

definition register_module :: "file_path \<Rightarrow> dependency_graph \<Rightarrow> dependency_graph" where
  "register_module path g =
     (case module_path path of
        Some m \<Rightarrow> g\<lparr>dg_modules := bt_insert m path (dg_modules g)\<rparr>
      | None \<Rightarrow> g)"

function graph_resolve :: "dependency_graph \<Rightarrow> string \<Rightarrow> file_path option" where
  "graph_resolve g candidate =
     (case map_of (dg_modules g) candidate of
        Some path \<Rightarrow> Some path
      | None \<Rightarrow>
          (case rsplit_colons candidate of
             Some parent \<Rightarrow> graph_resolve g parent
           | None \<Rightarrow> None))"
  by pat_completeness auto
termination
  by (relation "measure (\<lambda>(_, s). length s)") (auto simp: rsplit_colons_shorter)

declare graph_resolve.simps [simp del]

function strip_supers :: "string \<Rightarrow> string list \<Rightarrow> string \<times> string list" where
  "strip_supers rest parts =
     (case strip_prefix ''super::'' rest of
        Some r \<Rightarrow> strip_supers r (butlast parts)
      | None \<Rightarrow> (rest, parts))"
  by pat_completeness auto
termination
  by (relation "measure (\<lambda>(s, _). length s)") (auto simp: strip_prefix_Some)

declare strip_supers.simps [simp del]

definition normalise_import :: "file_path \<Rightarrow> string \<Rightarrow> string" where
  "normalise_import from target =
     (let parts = butlast from;
          finish = (\<lambda>rest parts.
            if rest = [] then join_colons parts
            else if parts = [] then rest
            else join_colons parts @ ''::'' @ rest) in
      case strip_prefix ''crate::'' target of
        Some rest \<Rightarrow> finish rest parts
      | None \<Rightarrow>
          (let (rest, parts) = strip_supers target parts in
           case strip_prefix ''self::'' rest of
             Some r \<Rightarrow> finish r parts
           | None \<Rightarrow> if strip_prefix ''crate::'' target = None then target else finish rest parts))"

definition record_import :: "file_path \<Rightarrow> string \<Rightarrow> dependency_graph \<Rightarrow> dependency_graph" where
  "record_import from target g =
     (let normalised = normalise_import from target;
          internal = (graph_resolve g normalised \<noteq> None) in
      g\<lparr>dg_edges := bt_insert (from, normalised, internal) () (dg_edges g)\<rparr>)"

definition record_imports :: "file_path \<Rightarrow> string list \<Rightarrow> dependency_graph \<Rightarrow> dependency_graph" where
  "record_imports from imports g = fold (record_import from) imports g"

definition graph_remove_file :: "file_path \<Rightarrow> dependency_graph \<Rightarrow> dependency_graph" where
  "graph_remove_file path g =
     g\<lparr>dg_modules := filter (\<lambda>(_, f). f \<noteq> path) (dg_modules g),
       dg_edges := filter (\<lambda>((from, _), _). from \<noteq> path) (dg_edges g)\<rparr>"

definition files_contain :: "dependency_graph \<Rightarrow> file_path \<Rightarrow> bool" where
  "files_contain g path \<longleftrightarrow> list_ex (\<lambda>(_, f). f = path) (dg_modules g)"

definition edge_count :: "dependency_graph \<Rightarrow> nat" where "edge_count g = length (dg_edges g)"
definition module_count :: "dependency_graph \<Rightarrow> nat" where "module_count g = length (dg_modules g)"

section \<open>Import texts\<close>

datatype language = Rust | TypeScript | Python | JavaScript | Go | C | Cpp

function trim_start_matches :: "string \<Rightarrow> string \<Rightarrow> string" where
  "trim_start_matches p s =
     (if p = [] then s else case strip_prefix p s of Some r \<Rightarrow> trim_start_matches p r | None \<Rightarrow> s)"
  by pat_completeness auto
termination
  by (relation "measure (\<lambda>(_, s). length s)") (auto simp: strip_prefix_Some)

declare trim_start_matches.simps [simp del]

definition trim_end_chars :: "(char \<Rightarrow> bool) \<Rightarrow> string \<Rightarrow> string" where
  "trim_end_chars P s = rev (dropWhile P (rev s))"

definition trim_chars :: "(char \<Rightarrow> bool) \<Rightarrow> string \<Rightarrow> string" where
  "trim_chars P s = trim_end_chars P (dropWhile P s)"

text \<open>\<open>split(p).next()\<close> and \<open>split_once(p)\<close>.\<close>

definition before_text :: "string \<Rightarrow> string \<Rightarrow> string" where
  "before_text p s = (case find_text p s of Some n \<Rightarrow> take n s | None \<Rightarrow> s)"

definition split_once_at :: "string \<Rightarrow> string \<Rightarrow> (string \<times> string) option" where
  "split_once_at p s = map_option (\<lambda>n. (take n s, drop (n + length p) s)) (find_text p s)"

definition rust_target :: "string \<Rightarrow> string option" where
  "rust_target part =
     (let part = trim (trim_start_matches ''use '' (trim_start_matches ''pub '' (trim part)));
          part = trim (trim_end_chars (\<lambda>c. c = CHR '';'') part) in
      if part = [] \<or> starts_with ''//'' part then None
      else let base = trim (before_text '' as '' (before_text ''::{'' part))
        in if base = [] then None else Some base)"

definition python_targets :: "string \<Rightarrow> string list" where
  "python_targets line =
     (let line = trim line in
      case strip_prefix ''import '' line of
        Some rest \<Rightarrow>
          filter (\<lambda>i. i \<noteq> []) (map (\<lambda>item. trim (before_text '' as '' item)) (split_on (\<lambda>c. c = CHR '','') rest))
      | None \<Rightarrow>
          (case strip_prefix ''from '' line of
             Some rest \<Rightarrow>
               (case split_once_at '' import '' rest of
                  Some (module, _) \<Rightarrow> [trim module]
                | None \<Rightarrow> [])
           | None \<Rightarrow> []))"

text \<open>The texts between quotes, where the quote that opens one also closes it.\<close>

definition is_quote :: "char \<Rightarrow> bool" where
  "is_quote c \<longleftrightarrow> c = CHR 0x22 \<or> c = CHR 0x27"

function quoted_targets :: "string \<Rightarrow> string list" where
  "quoted_targets [] = []"
| "quoted_targets (c # s) =
     (if is_quote c
      then
        let target = takeWhile (\<lambda>x. x \<noteq> c) s;
            more = quoted_targets (drop 1 (dropWhile (\<lambda>x. x \<noteq> c) s)) in
        (if target \<noteq> [] \<and> \<not> starts_with ''.'' target then target # more else more)
      else quoted_targets s)"
  by pat_completeness auto
termination
  by (relation "measure length") (auto intro: le_less_trans [OF diff_le_self le_imp_less_Suc [OF length_dropWhile_le]])

definition include_target :: "string \<Rightarrow> string option" where
  "include_target line =
     (case strip_prefix ''#include'' (trim line) of
        Some rest \<Rightarrow>
          (let rest = trim_chars (\<lambda>c. c = CHR 0x22 \<or> c = CHR ''<'' \<or> c = CHR ''>'') (trim rest)
           in if rest = [] then None else Some rest)
      | None \<Rightarrow> None)"

definition raw_targets :: "language \<Rightarrow> string \<Rightarrow> string list" where
  "raw_targets lang txt =
     (case lang of
        Rust \<Rightarrow> List.map_filter rust_target (split_on (\<lambda>c. c = CHR '';'') txt)
      | Python \<Rightarrow> concat (map python_targets (text_lines txt))
      | Go \<Rightarrow> quoted_targets txt
      | JavaScript \<Rightarrow> quoted_targets txt
      | TypeScript \<Rightarrow> quoted_targets txt
      | C \<Rightarrow> List.map_filter include_target (text_lines txt)
      | Cpp \<Rightarrow> List.map_filter include_target (text_lines txt))"

definition import_targets :: "language \<Rightarrow> string \<Rightarrow> string list" where
  "import_targets lang txt = remdups_adj (sort (raw_targets lang txt))"

section \<open>Churn\<close>

definition NINETY_DAYS_SECS :: nat where "NINETY_DAYS_SECS = 90 * 24 * 3600"

text \<open>What \<open>git log\<close> prints, \<open>None\<close> when it does not run or fails; the clock, \<open>None\<close> before 1970.\<close>

definition churn :: "string option \<Rightarrow> nat option \<Rightarrow> nat" where
  "churn output now =
     (case output of
        None \<Rightarrow> 0
      | Some stdout \<Rightarrow>
          (case now of
             None \<Rightarrow> 0
           | Some now_secs \<Rightarrow>
               let recent = length (filter (\<lambda>t. now_secs \<le> min (t + NINETY_DAYS_SECS) u64_max)
                     (List.map_filter (\<lambda>line. parse_unsigned u64_max (trim line)) (text_lines stdout)))
               in if recent \<le> u32_max then recent else u32_max))"

section \<open>The blast radius\<close>

text \<open>One pass over the edges: newly visited importers of \<open>current\<close> go onto the stack.\<close>

definition visit_edge :: "dependency_graph \<Rightarrow> file_path \<Rightarrow> edge \<times> unit \<Rightarrow>
    file_path set \<times> file_path list \<Rightarrow> file_path set \<times> file_path list" where
  "visit_edge g current e st =
     (let (from, to, internal) = fst e; (visited, frontier) = st in
      if \<not> internal then st
      else case graph_resolve g to of
        None \<Rightarrow> st
      | Some target \<Rightarrow>
          if target = current \<and> from \<notin> visited then (insert from visited, from # frontier) else st)"

definition visit_importers :: "dependency_graph \<Rightarrow> file_path \<Rightarrow>
    file_path set \<times> file_path list \<Rightarrow> file_path set \<times> file_path list" where
  "visit_importers g current st = fold (visit_edge g current) (dg_edges g) st"

definition importers :: "dependency_graph \<Rightarrow> file_path set" where
  "importers g = fst ` fst ` set (dg_edges g)"

lemma visit_edge_grows:
  assumes "visit_edge g cur e (v, fr) = (v', fr')"
  shows "\<exists>new. v' = v \<union> set new \<and> fr' = new @ fr \<and> set new \<inter> v = {} \<and> set new \<subseteq> {fst (fst e)}"
proof (cases "v' = v")
  case True
  then show ?thesis using assms
    by (auto simp: visit_edge_def split: if_split_asm option.split_asm prod.split_asm)
next
  case False
  then have "v' = insert (fst (fst e)) v" "fr' = fst (fst e) # fr" "fst (fst e) \<notin> v"
    using assms by (auto simp: visit_edge_def split: if_split_asm option.split_asm prod.split_asm)
  then show ?thesis by (intro exI [of _ "[fst (fst e)]"]) auto
qed

lemma visit_fold_grows:
  "fold (visit_edge g cur) es (v, fr) = (v', fr') \<Longrightarrow>
    \<exists>new. v' = v \<union> set new \<and> fr' = new @ fr \<and> set new \<inter> v = {} \<and> set new \<subseteq> fst ` fst ` set es"
proof (induction es arbitrary: v fr)
  case (Cons e es)
  obtain v1 fr1 where one: "visit_edge g cur e (v, fr) = (v1, fr1)" by force
  obtain n1 where n1: "v1 = v \<union> set n1" "fr1 = n1 @ fr" "set n1 \<inter> v = {}" "set n1 \<subseteq> {fst (fst e)}"
    using visit_edge_grows [OF one] by blast
  obtain n2 where n2: "v' = v1 \<union> set n2" "fr' = n2 @ fr1" "set n2 \<inter> v1 = {}" "set n2 \<subseteq> fst ` fst ` set es"
    using Cons.IH [of v1 fr1] Cons.prems one by auto
  show ?case using n1 n2 by (intro exI [of _ "n2 @ n1"]) auto
qed simp

lemma visit_importers_grows:
  "visit_importers g cur (v, fr) = (v', fr') \<Longrightarrow>
    \<exists>new. v' = v \<union> set new \<and> fr' = new @ fr \<and> set new \<inter> v = {} \<and> set new \<subseteq> importers g"
  unfolding visit_importers_def importers_def by (rule visit_fold_grows)

function dependents_loop :: "dependency_graph \<Rightarrow> file_path set \<Rightarrow> file_path list \<Rightarrow> file_path set" where
  "dependents_loop g visited [] = visited"
| "dependents_loop g visited (current # frontier) =
     (let (visited, frontier) = visit_importers g current (visited, frontier)
      in dependents_loop g visited frontier)"
  by pat_completeness auto
termination
proof (relation "inv_image (less_than <*lex*> less_than)
    (\<lambda>(g, v, fr). (card (importers g - v), length fr))")
  fix g v cur and fr :: "file_path list" and st v' fr'
  assume st: "st = visit_importers g cur (v, fr)" "(v', fr') = st"
  obtain new where new: "v' = v \<union> set new" "fr' = new @ fr" "set new \<inter> v = {}" "set new \<subseteq> importers g"
    using visit_importers_grows [of g cur v fr v' fr'] st by auto
  have fin: "finite (importers g)" by (simp add: importers_def)
  show "((g, v', fr'), g, v, cur # fr) \<in> inv_image (less_than <*lex*> less_than)
      (\<lambda>(g, v, fr). (card (importers g - v), length fr))"
  proof (cases "new = []")
    case False
    then have "importers g - v' \<subset> importers g - v" using new by (cases new) auto
    then have "card (importers g - v') < card (importers g - v)" using fin by (simp add: psubset_card_mono)
    then show ?thesis by simp
  qed (use new in simp)
qed auto

definition dependents :: "dependency_graph \<Rightarrow> file_path \<Rightarrow> file_path list" where
  "dependents g path =
     (if \<not> files_contain g path then []
      else sorted_list_of_set (dependents_loop g {path} [path]))"

section \<open>The walk is the transitive closure\<close>

text \<open>\<open>(b, a)\<close>: some internal edge of \<open>a\<close> resolves to \<open>b\<close> now.\<close>

definition imported_by :: "dependency_graph \<Rightarrow> (file_path \<times> file_path) set" where
  "imported_by g = {(b, a). \<exists>to. ((a, to, True), ()) \<in> set (dg_edges g) \<and> graph_resolve g to = Some b}"

lemma visit_fold_visited:
  "fst (fold (visit_edge g cur) es (v, fr)) =
     v \<union> {a. \<exists>to. ((a, to, True), ()) \<in> set es \<and> graph_resolve g to = Some cur}"
proof (induction es arbitrary: v fr)
  case (Cons e es)
  obtain a to i where e: "e = ((a, to, i), ())" by (metis surj_pair unit.exhaust)
  obtain v1 fr1 where one: "visit_edge g cur e (v, fr) = (v1, fr1)" by force
  have "v1 = (if i \<and> graph_resolve g to = Some cur then insert a v else v)"
    using one by (auto simp: visit_edge_def e insert_absorb split: if_split_asm option.split_asm)
  then show ?case using Cons.IH [of v1 fr1] one by (auto simp: e)
qed simp

lemma visit_importers_spec:
  assumes "visit_importers g cur (v, fr) = (v', fr')"
  shows "v' = v \<union> imported_by g `` {cur} \<and> set fr' = set fr \<union> (imported_by g `` {cur} - v)"
proof -
  have v': "v' = v \<union> imported_by g `` {cur}"
    using visit_fold_visited [of g cur "dg_edges g" v fr] assms
    by (auto simp: visit_importers_def imported_by_def)
  obtain new where "v' = v \<union> set new" "fr' = new @ fr" "set new \<inter> v = {}"
    using visit_importers_grows [OF assms] by blast
  then show ?thesis using v' by auto
qed

lemma dependents_loop_closure:
  assumes "set fr \<subseteq> v" "\<forall>x \<in> v - set fr. imported_by g `` {x} \<subseteq> v"
  shows "dependents_loop g v fr = (imported_by g)\<^sup>* `` v"
  using assms
proof (induction g v fr rule: dependents_loop.induct)
  case (1 g v)
  then have "imported_by g `` v \<subseteq> v" by auto
  then have "(imported_by g)\<^sup>* `` v = v" by (rule Image_closed_trancl)
  then show ?case by simp
next
  case (2 g v cur fr)
  let ?R = "imported_by g"
  obtain v' fr' where st: "visit_importers g cur (v, fr) = (v', fr')" by force
  have v': "v' = v \<union> ?R `` {cur}" and fr': "set fr' = set fr \<union> (?R `` {cur} - v)"
    using visit_importers_spec [OF st] by blast+
  have "set fr' \<subseteq> v'" using 2(2) v' fr' by auto
  moreover have "\<forall>x \<in> v' - set fr'. ?R `` {x} \<subseteq> v'"
  proof
    fix x assume x: "x \<in> v' - set fr'"
    then have "x \<in> v" using v' fr' by auto
    show "?R `` {x} \<subseteq> v'"
    proof (cases "x = cur")
      case False
      then have "x \<in> v - set (cur # fr)" using x \<open>x \<in> v\<close> fr' by auto
      then show ?thesis using 2(3) v' by blast
    qed (use v' in blast)
  qed
  ultimately have "dependents_loop g v' fr' = ?R\<^sup>* `` v'" using 2(1) [OF st [symmetric] refl] by blast
  moreover have "?R\<^sup>* `` v' = ?R\<^sup>* `` v"
  proof -
    have "cur \<in> v" using 2(2) by simp
    then have "?R `` {cur} \<subseteq> ?R\<^sup>* `` v" by auto
    then have "?R\<^sup>* `` (?R `` {cur}) \<subseteq> ?R\<^sup>* `` v" by (auto intro: rtrancl_trans)
    then show ?thesis by (auto simp: v' Image_Un)
  qed
  ultimately show ?case using st by simp
qed

lemma closure_finite: "finite ((imported_by g)\<^sup>* `` {p})"
proof -
  have "(imported_by g)\<^sup>* `` {p} \<subseteq> insert p (importers g)"
  proof
    fix a assume "a \<in> (imported_by g)\<^sup>* `` {p}"
    then have "(p, a) \<in> (imported_by g)\<^sup>*" by simp
    then show "a \<in> insert p (importers g)"
      by (cases rule: rtranclE) (force simp: imported_by_def importers_def)+
  qed
  moreover have "finite (importers g)" by (simp add: importers_def)
  ultimately show ?thesis by (meson finite.insertI finite_subset)
qed

lemma dependents_spec:
  "dependents g path =
     (if \<exists>m. (m, path) \<in> set (dg_modules g) then sorted_list_of_set ((imported_by g)\<^sup>* `` {path}) else [])"
proof -
  have "files_contain g path \<longleftrightarrow> (\<exists>m. (m, path) \<in> set (dg_modules g))"
    by (auto simp: files_contain_def list_ex_iff)
  then show ?thesis using dependents_loop_closure [of "[path]" "{path}" g] by (simp add: dependents_def)
qed

text \<open>
  C18. The blast radius is exact and the walk always ends: for a registered file it is the sorted list
  of the files that reach it over internal import edges, itself included, cycles or not; a file that
  is not registered has none. So a file is judged isolated exactly when no other file reaches it.
\<close>

theorem blast_radius_exact:
  "(\<forall>a. a \<in> set (dependents g path) \<longleftrightarrow>
      (\<exists>m. (m, path) \<in> set (dg_modules g)) \<and> (path, a) \<in> (imported_by g)\<^sup>*) \<and>
   sorted (dependents g path) \<and> distinct (dependents g path) \<and>
   (blast_of (length (dependents g path)) = Isolated \<longleftrightarrow>
     {a. (\<exists>m. (m, path) \<in> set (dg_modules g)) \<and> (path, a) \<in> (imported_by g)\<^sup>*} \<subseteq> {path})"
proof -
  let ?S = "(imported_by g)\<^sup>* `` {path}"
  have mem: "\<forall>a. a \<in> set (dependents g path) \<longleftrightarrow>
      (\<exists>m. (m, path) \<in> set (dg_modules g)) \<and> (path, a) \<in> (imported_by g)\<^sup>*"
    using closure_finite [of g path] by (auto simp: dependents_spec)
  moreover have sd: "sorted (dependents g path)" "distinct (dependents g path)" by (simp_all add: dependents_spec)
  moreover have "blast_of (length (dependents g path)) = Isolated \<longleftrightarrow> card (set (dependents g path)) \<le> 1"
    using sd(2) by (auto simp: blast_of_def distinct_card)
  moreover have "card (set (dependents g path)) \<le> 1 \<longleftrightarrow> (\<forall>a \<in> set (dependents g path). a = path)"
  proof -
    have "\<exists>a. a \<in> set (dependents g path) \<Longrightarrow> path \<in> set (dependents g path)" using mem by auto
    moreover have "card (set (dependents g path)) \<le> Suc 0 \<longleftrightarrow>
        (\<forall>a \<in> set (dependents g path). \<forall>b \<in> set (dependents g path). a = b)"
      by (rule card_le_Suc0_iff_eq) simp
    ultimately show ?thesis by (metis One_nat_def)
  qed
  moreover have "(\<forall>a \<in> set (dependents g path). a = path) \<longleftrightarrow>
      {a. (\<exists>m. (m, path) \<in> set (dg_modules g)) \<and> (path, a) \<in> (imported_by g)\<^sup>*} \<subseteq> {path}"
    using mem by blast
  ultimately show ?thesis by simp
qed

text \<open>
  An import from the crate root is placed below the directory of the importing file, and one from the
  parent module is kept as written.
\<close>

lemma nested_crate_import_misplaced:
  "normalise_import [''src'', ''a'', ''b.rs''] ''crate::turns'' = ''src::a::turns''"
  by (simp add: normalise_import_def join_colons_def strip_prefix_def)

lemma super_import_untouched:
  "normalise_import [''src'', ''a'', ''b.rs''] ''super::x'' = ''super::x''"
  by (simp add: normalise_import_def strip_prefix_def strip_supers.simps)

end
