(* ===== verification/Digest.thy ===== *)
theory Digest
  imports Digest_Graph Evict
begin

text \<open>
  \<open>crates/supra_digest\<close>: symbols and their locators (\<open>symbol.rs\<close>), the symbol index and the scan of a
  tree (\<open>index.rs\<close>), anchors and their budgets (\<open>anchors.rs\<close>), and the digest with its watcher events
  (\<open>digest.rs\<close>). The parser is an argument: the symbols of a file that parses, \<open>None\<close> for one that
  does not; \<open>H\<close> is BLAKE3 and \<open>lossy\<close> the reading of bytes as text. A path is the list of its
  components, those of the root included.
\<close>

section \<open>Symbols\<close>

definition LANGUAGE_ALL :: "language list" where
  "LANGUAGE_ALL = [Rust, TypeScript, Python, JavaScript, Go, C, Cpp]"

fun language_name :: "language \<Rightarrow> string" where
  "language_name Rust = ''rust''" | "language_name TypeScript = ''typescript''" | "language_name Python = ''python''"
| "language_name JavaScript = ''javascript''" | "language_name Go = ''go''" | "language_name C = ''c''"
| "language_name Cpp = ''cpp''"

definition extension_of :: "string \<Rightarrow> string option" where
  "extension_of name =
     (if CHR ''.'' \<in> set (tl name) \<and> name \<noteq> ''..''
      then Some (rev (takeWhile (\<lambda>c. c \<noteq> CHR ''.'') (rev name))) else None)"

definition EXTENSIONS :: "(string \<times> language) list" where
  "EXTENSIONS =
     [(''rs'', Rust), (''ts'', TypeScript), (''tsx'', TypeScript), (''mts'', TypeScript), (''cts'', TypeScript),
      (''py'', Python), (''js'', JavaScript), (''jsx'', JavaScript), (''mjs'', JavaScript), (''cjs'', JavaScript),
      (''go'', Go), (''c'', C), (''h'', C), (''cpp'', Cpp), (''cc'', Cpp), (''cxx'', Cpp), (''hpp'', Cpp),
      (''hh'', Cpp), (''hxx'', Cpp)]"

definition detect :: "file_path \<Rightarrow> language option" where
  "detect path = (if path = [] then None else Option.bind (extension_of (last path)) (map_of EXTENSIONS))"

datatype symbol_kind = Function | Type_Symbol | Module_Symbol | Constant | Import

fun kind_text :: "symbol_kind \<Rightarrow> string" where
  "kind_text Function = ''function''" | "kind_text Type_Symbol = ''type''" | "kind_text Module_Symbol = ''module''"
| "kind_text Constant = ''constant''" | "kind_text Import = ''import''"

record symbol =
  sy_path :: file_path
  sy_language :: language
  sy_kind :: symbol_kind
  sy_name :: string
  sy_parent :: "string option"
  sy_start :: nat
  sy_end :: nat
  sy_line :: nat

definition symbol_len_bytes :: "symbol \<Rightarrow> nat" where "symbol_len_bytes s = sy_end s - sy_start s"
definition symbol_is_empty :: "symbol \<Rightarrow> bool" where "symbol_is_empty s \<longleftrightarrow> sy_end s \<le> sy_start s"

definition path_display :: "file_path \<Rightarrow> string" where
  "path_display p = concat (case p of [] \<Rightarrow> [] | c # cs \<Rightarrow> c # map (\<lambda>d. ''/'' @ d) cs)"

definition locator :: "symbol \<Rightarrow> string" where
  "locator s = path_display (sy_path s) @ '':'' @ show_nat (sy_start s) @ ''-'' @ show_nat (sy_end s)"

definition symbol_fingerprint :: "(string \<Rightarrow> string) \<Rightarrow> symbol \<Rightarrow> string \<Rightarrow> string" where
  "symbol_fingerprint H s source =
     H (if sy_start s \<le> sy_end s \<and> sy_end s \<le> length source then take (sy_end s - sy_start s) (drop (sy_start s) source) else [])"

section \<open>The index\<close>

record file_entry =
  fe_fingerprint :: string
  fe_symbols :: "symbol list"

record symbol_index =
  si_root :: file_path
  si_files :: "(file_path, file_entry) btree"

definition index_new :: "file_path \<Rightarrow> symbol_index" where
  "index_new root = \<lparr>si_root = root, si_files = []\<rparr>"

definition relative_to :: "file_path \<Rightarrow> file_path \<Rightarrow> file_path" where
  "relative_to root path = (if take (length root) path = root then drop (length root) path else path)"

definition file_count :: "symbol_index \<Rightarrow> nat" where "file_count i = length (si_files i)"

definition symbol_count :: "symbol_index \<Rightarrow> nat" where
  "symbol_count i = sum_list (map (\<lambda>(_, e). length (fe_symbols e)) (si_files i))"

type_synonym parser = "file_path \<Rightarrow> string \<Rightarrow> symbol list option"

definition index_bytes ::
    "(string \<Rightarrow> string) \<Rightarrow> parser \<Rightarrow> file_path \<Rightarrow> string \<Rightarrow> symbol_index \<Rightarrow> symbol_index" where
  "index_bytes H parse path source i =
     (let relative = relative_to (si_root i) path in
      case parse relative source of
        Some symbols \<Rightarrow>
          i\<lparr>si_files := bt_insert relative \<lparr>fe_fingerprint = H source, fe_symbols = symbols\<rparr> (si_files i)\<rparr>
      | None \<Rightarrow> i\<lparr>si_files := bt_remove relative (si_files i)\<rparr>)"

definition index_remove_file :: "file_path \<Rightarrow> symbol_index \<Rightarrow> bool \<times> symbol_index" where
  "index_remove_file path i =
     (let relative = relative_to (si_root i) path in
      (map_of (si_files i) relative \<noteq> None, i\<lparr>si_files := bt_remove relative (si_files i)\<rparr>))"

definition symbols_named :: "symbol_index \<Rightarrow> string \<Rightarrow> symbol list" where
  "symbols_named i name =
     sort_key sy_path (filter (\<lambda>s. sy_name s = name) (concat (map (\<lambda>(_, e). fe_symbols e) (si_files i))))"

definition symbols_in :: "symbol_index \<Rightarrow> file_path \<Rightarrow> symbol list" where
  "symbols_in i path =
     (case map_of (si_files i) (relative_to (si_root i) path) of Some e \<Rightarrow> fe_symbols e | None \<Rightarrow> [])"

definition is_current :: "(string \<Rightarrow> string) \<Rightarrow> symbol_index \<Rightarrow> file_path \<Rightarrow> string \<Rightarrow> bool" where
  "is_current H i path source \<longleftrightarrow>
     (case map_of (si_files i) (relative_to (si_root i) path) of
        Some e \<Rightarrow> fe_fingerprint e = H source | None \<Rightarrow> False)"

definition indexed_paths :: "symbol_index \<Rightarrow> file_path list" where
  "indexed_paths i = sort (map fst (si_files i))"

section \<open>Scanning a tree\<close>

datatype digest_error =
    BadRoot file_path string | Unreadable_File file_path string | OverBudget nat nat | VectorFails string

text \<open>
  A directory lists what \<open>read_dir\<close> yields for it; \<open>FBadDir\<close> cannot be listed, \<open>FBadFile\<close> not be
  read, \<open>FUnknown\<close> has no type.
\<close>

datatype fs_node =
    FFile string | FBadFile string | FDir "(string \<times> fs_node) list" | FBadDir string
  | FLink | FOther | FUnknown string

record scan_stats =
  st_seen :: nat
  st_read :: nat
  st_skipped :: nat
  st_symbols :: nat

definition stats_default :: scan_stats where
  "stats_default = \<lparr>st_seen = 0, st_read = 0, st_skipped = 0, st_symbols = 0\<rparr>"

definition is_skipped_dir :: "string \<Rightarrow> bool" where
  "is_skipped_dir name \<longleftrightarrow> starts_with ''.'' name \<or> name = ''target'' \<or> name = ''node_modules''"

type_synonym scan_state = "symbol_index \<times> scan_stats \<times> (file_path \<times> fs_node) list"

definition scan_entry :: "(string \<Rightarrow> string) \<Rightarrow> parser \<Rightarrow> file_path \<Rightarrow> string \<times> fs_node \<Rightarrow> scan_state \<Rightarrow>
    (scan_state, digest_error) outcome" where
  "scan_entry H parse dir entry s =
     (let (name, node) = entry; path = dir @ [name]; (i, st, dirs) = s;
          directory = (if is_skipped_dir name then Ok (i, st, dirs) else Ok (i, st, (path, node) # dirs));
          file = (\<lambda>content.
            let st = st\<lparr>st_seen := st_seen st + 1\<rparr> in
            if detect path = None then Ok (i, st\<lparr>st_skipped := st_skipped st + 1\<rparr>, dirs)
            else case content of
              Inr e \<Rightarrow> Err (Unreadable_File path e)
            | Inl source \<Rightarrow>
                let i = index_bytes H parse path source i in
                Ok (i, st\<lparr>st_read := st_read st + 1, st_symbols := symbol_count i\<rparr>, dirs)) in
      case node of
        FUnknown e \<Rightarrow> Err (Unreadable_File path e)
      | FLink \<Rightarrow> Ok (i, st, dirs)
      | FOther \<Rightarrow> Ok (i, st, dirs)
      | FDir _ \<Rightarrow> directory
      | FBadDir _ \<Rightarrow> directory
      | FFile source \<Rightarrow> file (Inl source)
      | FBadFile e \<Rightarrow> file (Inr e))"

fun scan_entries :: "(string \<Rightarrow> string) \<Rightarrow> parser \<Rightarrow> file_path \<Rightarrow> (string \<times> fs_node) list \<Rightarrow> scan_state \<Rightarrow>
    (scan_state, digest_error) outcome" where
  "scan_entries H parse dir [] s = Ok s"
| "scan_entries H parse dir (e # es) s = bind_outcome (scan_entry H parse dir e s) (scan_entries H parse dir es)"

fun node_size :: "fs_node \<Rightarrow> nat" where
  "node_size (FDir es) = Suc (sum_list (map (\<lambda>e. node_size (snd e)) es))"
| "node_size _ = 1"

definition stack_size :: "(file_path \<times> fs_node) list \<Rightarrow> nat" where
  "stack_size dirs = sum_list (map (\<lambda>d. node_size (snd d)) dirs)"

lemma node_size_pos [simp]: "0 < node_size n"
  by (cases n) simp_all

lemma scan_entry_stack:
  "scan_entry H parse dir e (i, st, dirs) = Ok (i', st', dirs') \<Longrightarrow> stack_size dirs' \<le> stack_size dirs + node_size (snd e)"
  by (cases e; cases "snd e") (auto simp: scan_entry_def stack_size_def Let_def split: if_split_asm)

lemma scan_entries_stack:
  "scan_entries H parse dir es (i, st, dirs) = Ok (i', st', dirs') \<Longrightarrow>
    stack_size dirs' \<le> stack_size dirs + sum_list (map (\<lambda>e. node_size (snd e)) es)"
proof (induction es arbitrary: i st dirs)
  case (Cons e es)
  then obtain i1 st1 dirs1 where 1: "scan_entry H parse dir e (i, st, dirs) = Ok (i1, st1, dirs1)"
      "scan_entries H parse dir es (i1, st1, dirs1) = Ok (i', st', dirs')"
    by (auto simp: bind_outcome_Ok_iff)
  show ?case using scan_entry_stack [OF 1(1)] Cons.IH [OF 1(2)] by simp
qed simp

lemma sum_list_sort_key: "sum_list (map f (sort_key k xs)) = (sum_list (map f xs) :: nat)"
proof -
  have "sum_mset (image_mset f (mset (sort_key k xs))) = sum_mset (image_mset f (mset xs))" by simp
  then show ?thesis by (simp only: mset_map [symmetric] sum_mset_sum_list)
qed

function scan_loop :: "(string \<Rightarrow> string) \<Rightarrow> parser \<Rightarrow> scan_state \<Rightarrow> (symbol_index \<times> scan_stats, digest_error) outcome" where
  "scan_loop H parse (i, st, []) = Ok (i, st)"
| "scan_loop H parse (i, st, (dir, node) # dirs) =
     (case node of
        FDir es \<Rightarrow>
          (case scan_entries H parse dir (sort_key fst es) (i, st, dirs) of
             Ok (i, st, dirs) \<Rightarrow> scan_loop H parse (i, st, dirs)
           | Err e \<Rightarrow> Err e
           | Panic \<Rightarrow> Panic)
      | FBadDir e \<Rightarrow> Err (BadRoot dir e)
      | _ \<Rightarrow> Err (BadRoot dir ''not a directory''))"
  by pat_completeness auto
termination
proof (relation "measure (\<lambda>(_, _, _, _, dirs). stack_size dirs)")
  fix H parse i st dir node dirs es s i' x st' and dirs' :: "(file_path \<times> fs_node) list"
  assume "node = FDir es" "scan_entries H parse dir (sort_key fst es) (i, st, dirs) = Ok s" "(i', x) = s" "(st', dirs') = x"
  then have "stack_size dirs' \<le> stack_size dirs + sum_list (map (\<lambda>e. node_size (snd e)) (sort_key fst es))"
    using scan_entries_stack by blast
  also have "sum_list (map (\<lambda>e. node_size (snd e)) (sort_key fst es)) = sum_list (map (\<lambda>e. node_size (snd e)) es)"
    by (rule sum_list_sort_key)
  finally show "((H, parse, i', st', dirs'), H, parse, i, st, (dir, node) # dirs) \<in>
      measure (\<lambda>(_, _, _, _, dirs). stack_size dirs)"
    using \<open>node = FDir es\<close> by (simp add: stack_size_def)
qed simp

definition scan_tree :: "(string \<Rightarrow> string) \<Rightarrow> parser \<Rightarrow> symbol_index \<Rightarrow> file_path \<Rightarrow> fs_node \<Rightarrow>
    (symbol_index \<times> scan_stats, digest_error) outcome" where
  "scan_tree H parse i root node =
     (case node of
        FDir es \<Rightarrow> scan_loop H parse (i, stats_default, [(root, node)])
      | FBadDir es \<Rightarrow> scan_loop H parse (i, stats_default, [(root, node)])
      | _ \<Rightarrow> Err (BadRoot root ''not a directory''))"

section \<open>What a scan indexes\<close>

text \<open>The files of covered languages below a directory that is not skipped, with their bytes.\<close>

inductive sees :: "file_path \<Rightarrow> fs_node \<Rightarrow> file_path \<Rightarrow> string \<Rightarrow> bool" where
  sees_file: "(name, FFile source) \<in> set es \<Longrightarrow> detect (dir @ [name]) \<noteq> None \<Longrightarrow>
    sees dir (FDir es) (dir @ [name]) source"
| sees_below: "(name, FDir ds) \<in> set es \<Longrightarrow> \<not> is_skipped_dir name \<Longrightarrow> sees (dir @ [name]) (FDir ds) path source \<Longrightarrow>
    sees dir (FDir es) path source"

inductive_cases sees_dirE: "sees dir (FDir es) path source"
inductive_simps sees_other:
  "sees dir (FBadDir e) path source" "sees dir (FFile e) path source" "sees dir (FBadFile e) path source"
  "sees dir FLink path source" "sees dir FOther path source" "sees dir (FUnknown e) path source"

lemma sees_dir_iff:
  "sees dir (FDir es) path source \<longleftrightarrow>
     (\<exists>name. (name, FFile source) \<in> set es \<and> detect (dir @ [name]) \<noteq> None \<and> path = dir @ [name]) \<or>
     (\<exists>name n. (name, n) \<in> set es \<and> \<not> is_skipped_dir name \<and> (\<exists>ds. n = FDir ds) \<and> sees (dir @ [name]) n path source)"
proof
  assume "sees dir (FDir es) path source"
  then show "(\<exists>name. (name, FFile source) \<in> set es \<and> detect (dir @ [name]) \<noteq> None \<and> path = dir @ [name]) \<or>
     (\<exists>name n. (name, n) \<in> set es \<and> \<not> is_skipped_dir name \<and> (\<exists>ds. n = FDir ds) \<and> sees (dir @ [name]) n path source)"
    by (rule sees_dirE) blast+
qed (blast intro: sees_file sees_below)

lemma sees_extends: "sees dir n path source \<Longrightarrow> \<exists>rest. path = dir @ rest"
  by (induction rule: sees.induct) auto

abbreviation index_all :: "(string \<Rightarrow> string) \<Rightarrow> parser \<Rightarrow> (file_path \<times> string) list \<Rightarrow> symbol_index \<Rightarrow> symbol_index" where
  "index_all H parse fl i \<equiv> fold (\<lambda>(p, s). index_bytes H parse p s) fl i"

definition file_here :: "file_path \<Rightarrow> string \<times> fs_node \<Rightarrow> (file_path \<times> string) list" where
  "file_here dir e =
     (case snd e of FFile s \<Rightarrow> if detect (dir @ [fst e]) = None then [] else [(dir @ [fst e], s)] | _ \<Rightarrow> [])"

definition dir_here :: "file_path \<Rightarrow> string \<times> fs_node \<Rightarrow> (file_path \<times> fs_node) list" where
  "dir_here dir e =
     (if is_skipped_dir (fst e) then []
      else case snd e of FDir _ \<Rightarrow> [(dir @ [fst e], snd e)] | FBadDir _ \<Rightarrow> [(dir @ [fst e], snd e)] | _ \<Rightarrow> [])"

lemma scan_entry_Ok:
  "scan_entry H parse dir e (i, st, dirs) = Ok (i', st', dirs') \<Longrightarrow>
     i' = index_all H parse (file_here dir e) i \<and> dirs' = dir_here dir e @ dirs"
  by (cases e; cases "snd e") (auto simp: scan_entry_def file_here_def dir_here_def Let_def split: if_split_asm)

lemma scan_entries_Ok:
  "scan_entries H parse dir es (i, st, dirs) = Ok (i', st', dirs') \<Longrightarrow>
     i' = index_all H parse (concat (map (file_here dir) es)) i \<and>
     dirs' = concat (map (dir_here dir) (rev es)) @ dirs"
proof (induction es arbitrary: i st dirs)
  case (Cons e es)
  then obtain i1 st1 dirs1 where 1: "scan_entry H parse dir e (i, st, dirs) = Ok (i1, st1, dirs1)"
      "scan_entries H parse dir es (i1, st1, dirs1) = Ok (i', st', dirs')"
    by (auto simp: bind_outcome_Ok_iff)
  show ?case using scan_entry_Ok [OF 1(1)] Cons.IH [OF 1(2)] by simp
qed simp

definition sees_from :: "(file_path \<times> fs_node) list \<Rightarrow> (file_path \<times> string) set" where
  "sees_from dirs = {(p, s). \<exists>(d, n) \<in> set dirs. sees d n p s}"

lemma sees_split:
  assumes "set xs = set es"
  shows "sees_from ((dir, FDir es) # dirs) =
    set (concat (map (file_here dir) xs)) \<union> sees_from (concat (map (dir_here dir) (rev xs)) @ dirs)"
proof -
  have one: "(p, s) \<in> set (concat (map (file_here dir) xs)) \<longleftrightarrow>
      (\<exists>name. (name, FFile s) \<in> set es \<and> detect (dir @ [name]) \<noteq> None \<and> p = dir @ [name])" for p s
  proof -
    have key: "(p, s) \<in> set (file_here dir (name, n)) \<longleftrightarrow> n = FFile s \<and> detect (dir @ [name]) \<noteq> None \<and> p = dir @ [name]" for name n
      by (cases n) (auto simp: file_here_def)
    have "(p, s) \<in> set (concat (map (file_here dir) xs)) \<longleftrightarrow> (\<exists>e \<in> set es. (p, s) \<in> set (file_here dir e))"
      by (simp add: assms)
    also have "\<dots> \<longleftrightarrow> (\<exists>name n. (name, n) \<in> set es \<and> (p, s) \<in> set (file_here dir (name, n)))"
      by (metis surj_pair)
    finally show ?thesis by (simp only: key) blast
  qed
  have two: "(p, s) \<in> sees_from (concat (map (dir_here dir) (rev xs))) \<longleftrightarrow>
      (\<exists>name n. (name, n) \<in> set es \<and> \<not> is_skipped_dir name \<and> (\<exists>ds. n = FDir ds) \<and> sees (dir @ [name]) n p s)" for p s
  proof -
    have key: "(\<exists>(d, m) \<in> set (dir_here dir (name, n)). sees d m p s) \<longleftrightarrow>
        \<not> is_skipped_dir name \<and> (\<exists>ds. n = FDir ds) \<and> sees (dir @ [name]) n p s" for name n
      by (cases n) (auto simp: dir_here_def sees_other)
    have "(p, s) \<in> sees_from (concat (map (dir_here dir) (rev xs))) \<longleftrightarrow>
        (\<exists>e \<in> set es. \<exists>(d, m) \<in> set (dir_here dir e). sees d m p s)"
      by (simp add: sees_from_def assms)
    also have "\<dots> \<longleftrightarrow> (\<exists>name n. (name, n) \<in> set es \<and> (\<exists>(d, m) \<in> set (dir_here dir (name, n)). sees d m p s))"
      by (metis surj_pair)
    finally show ?thesis by (simp only: key)
  qed
  have three: "sees_from (ds @ es) = sees_from ds \<union> sees_from es" for ds es by (auto simp: sees_from_def)
  have "sees_from ((dir, FDir es) # dirs) = {(p, s). sees dir (FDir es) p s} \<union> sees_from dirs"
    by (auto simp: sees_from_def)
  moreover have "sees dir (FDir es) p s \<longleftrightarrow> (p, s) \<in> set (concat (map (file_here dir) xs)) \<or>
      (p, s) \<in> sees_from (concat (map (dir_here dir) (rev xs)))" for p s
    unfolding one two by (rule sees_dir_iff)
  ultimately show ?thesis unfolding three by auto
qed

lemma scan_loop_Ok:
  "scan_loop H parse s = Ok (i', st') \<Longrightarrow>
     \<exists>fl. i' = index_all H parse fl (fst s) \<and> set fl = sees_from (snd (snd s))"
proof (induction H parse s rule: scan_loop.induct)
  case (1 H parse i st)
  then show ?case by (intro exI [of _ "[]"]) (auto simp: sees_from_def)
next
  case (2 H parse i st dir node dirs)
  from 2(2) obtain es where es: "node = FDir es" by (cases node) simp_all
  from 2(2) obtain i1 st1 dirs1 where 1: "scan_entries H parse dir (sort_key fst es) (i, st, dirs) = Ok (i1, st1, dirs1)"
      "scan_loop H parse (i1, st1, dirs1) = Ok (i', st')"
    by (auto simp: es split: outcome.splits)
  obtain fl where fl: "i' = index_all H parse fl i1" "set fl = sees_from dirs1"
    using 2(1) [OF es 1(1) refl refl 1(2)] by auto
  have "i1 = index_all H parse (concat (map (file_here dir) (sort_key fst es))) i"
    "dirs1 = concat (map (dir_here dir) (rev (sort_key fst es))) @ dirs"
    using scan_entries_Ok [OF 1(1)] by blast+
  then show ?case using fl sees_split [of "sort_key fst es" es dir dirs]
    by (intro exI [of _ "concat (map (file_here dir) (sort_key fst es)) @ fl"]) (simp add: es)
qed

text \<open>Indexing the same file twice with the same bytes is indexing it once.\<close>

definition indexed :: "(string \<Rightarrow> string) \<Rightarrow> parser \<Rightarrow> file_path \<Rightarrow> string \<Rightarrow> file_entry option" where
  "indexed H parse relative source =
     map_option (\<lambda>symbols. \<lparr>fe_fingerprint = H source, fe_symbols = symbols\<rparr>) (parse relative source)"

definition index_ok :: "symbol_index \<Rightarrow> bool" where "index_ok i \<longleftrightarrow> bt_sorted (si_files i)"

lemma index_bytes_get:
  assumes "index_ok i"
  shows "map_of (si_files (index_bytes H parse p s i)) =
    (map_of (si_files i))(relative_to (si_root i) p := indexed H parse (relative_to (si_root i) p) s)"
    "si_root (index_bytes H parse p s i) = si_root i" "index_ok (index_bytes H parse p s i)"
  using assms by (auto simp: index_bytes_def index_ok_def indexed_def Let_def bt_insert_get bt_remove_get
      bt_insert_sorted bt_remove_sorted split: option.splits)

lemma index_all_get:
  assumes "index_ok i" "\<forall>p s p' s'. (p, s) \<in> set fl \<and> (p', s') \<in> set fl \<and>
    relative_to (si_root i) p = relative_to (si_root i) p' \<longrightarrow> s = s'"
  shows "(\<forall>(p, s) \<in> set fl. map_of (si_files (index_all H parse fl i)) (relative_to (si_root i) p) =
      indexed H parse (relative_to (si_root i) p) s) \<and>
    (\<forall>q. q \<notin> (\<lambda>(p, s). relative_to (si_root i) p) ` set fl \<longrightarrow>
      map_of (si_files (index_all H parse fl i)) q = map_of (si_files i) q) \<and>
    si_root (index_all H parse fl i) = si_root i \<and> index_ok (index_all H parse fl i)"
  using assms(2)
proof (induction fl rule: rev_induct)
  case (snoc x fl)
  obtain p s where x: "x = (p, s)" by force
  let ?j = "index_all H parse fl i"
  have prem: "\<forall>p s p' s'. (p, s) \<in> set fl \<and> (p', s') \<in> set fl \<and>
      relative_to (si_root i) p = relative_to (si_root i) p' \<longrightarrow> s = s'"
    using snoc.prems unfolding set_append by blast
  have IH: "(\<forall>(p, s) \<in> set fl. map_of (si_files ?j) (relative_to (si_root i) p) =
      indexed H parse (relative_to (si_root i) p) s)"
    "\<forall>q. q \<notin> (\<lambda>(p, s). relative_to (si_root i) p) ` set fl \<longrightarrow> map_of (si_files ?j) q = map_of (si_files i) q"
    "si_root ?j = si_root i" "index_ok ?j"
    using snoc.IH prem by blast+
  note step = index_bytes_get [OF IH(4), of H parse p s, unfolded IH(3)]
  have same: "s' = s" if "(p', s') \<in> set fl" "relative_to (si_root i) p' = relative_to (si_root i) p" for p' s'
    using snoc.prems that unfolding set_append x by (metis UnCI list.set_intros(1))
  show ?case
  proof (intro conjI)
    show "\<forall>(p', s') \<in> set (fl @ [x]). map_of (si_files (index_all H parse (fl @ [x]) i)) (relative_to (si_root i) p') =
        indexed H parse (relative_to (si_root i) p') s'"
      using IH(1) same by (auto simp: x step)
    show "\<forall>q. q \<notin> (\<lambda>(p, s). relative_to (si_root i) p) ` set (fl @ [x]) \<longrightarrow>
        map_of (si_files (index_all H parse (fl @ [x]) i)) q = map_of (si_files i) q"
      using IH(2) by (auto simp: x step)
  qed (simp_all add: x step)
qed (use assms(1) in simp)

lemma relative_below: "relative_to root (root @ rest) = rest"
  by (simp add: relative_to_def)

text \<open>
  C28. A scan that succeeds covers the tree: a file is in the index exactly when it is of a covered
  language, lies below the root outside skipped directories and links, and parses; its entry then
  has the fingerprint and the symbols of its bytes. (Names within a directory are distinct, which is
  what the hypothesis says of what is seen.) A file that cannot be read or a directory that cannot be
  listed makes the scan fail instead.
\<close>

theorem scan_covers_tree:
  assumes "scan_tree H parse (index_new root) root node = Ok (i, st)"
    "\<forall>p s s'. sees root node p s \<and> sees root node p s' \<longrightarrow> s = s'"
  shows "map_of (si_files i) q = Some entry \<longleftrightarrow>
    (\<exists>source. sees root node (root @ q) source \<and> indexed H parse q source = Some entry)"
proof -
  have "scan_loop H parse (index_new root, stats_default, [(root, node)]) = Ok (i, st)"
    using assms(1) by (cases node) (simp_all add: scan_tree_def)
  then obtain fl where fl: "i = index_all H parse fl (index_new root)" "set fl = {(p, s). sees root node p s}"
    using scan_loop_Ok [of H parse "(index_new root, stats_default, [(root, node)])" i st] by (auto simp: sees_from_def)
  have below: "\<exists>rest. p = root @ rest" if "(p, s) \<in> set fl" for p s
    using that sees_extends by (auto simp: fl(2))
  have "\<forall>p s p' s'. (p, s) \<in> set fl \<and> (p', s') \<in> set fl \<and> relative_to root p = relative_to root p' \<longrightarrow> s = s'"
  proof (clarify)
    fix p s p' s' assume *: "(p, s) \<in> set fl" "(p', s') \<in> set fl" "relative_to root p = relative_to root p'"
    then have "p = p'" using below [OF *(1)] below [OF *(2)] by (auto simp: relative_below)
    then show "s = s'" using * assms(2) by (auto simp: fl(2))
  qed
  then have get: "\<forall>(p, s) \<in> set fl. map_of (si_files i) (relative_to root p) = indexed H parse (relative_to root p) s"
    "\<forall>q. q \<notin> (\<lambda>(p, s). relative_to root p) ` set fl \<longrightarrow> map_of (si_files i) q = None"
    using index_all_get [of "index_new root" fl H parse] by (simp_all add: fl(1) index_new_def index_ok_def bt_sorted_def)
  show ?thesis
  proof (cases "\<exists>source. sees root node (root @ q) source")
    case True
    then obtain source where source: "(root @ q, source) \<in> set fl" by (auto simp: fl(2))
    then have "map_of (si_files i) q = indexed H parse q source" using get(1) by (auto simp: relative_below)
    then show ?thesis using source assms(2) by (auto simp: fl(2))
  next
    case False
    then have "q \<notin> (\<lambda>(p, s). relative_to root p) ` set fl"
      using below by (force simp: fl(2) relative_below)
    then show ?thesis using get(2) False by simp
  qed
qed

text \<open>Two files, one of them below a skipped directory, and a link.\<close>

definition test_tree :: fs_node where
  "test_tree = FDir [(''a.rs'', FFile ''a''), (''target'', FDir [(''x.rs'', FFile ''b'')])]"

definition test_parse :: parser where "test_parse p s = Some []"

lemma test_detect: "detect [''r'', ''a.rs''] = Some Rust"
  by (simp add: detect_def extension_of_def EXTENSIONS_def)

lemma test_tree_sees: "sees [''r''] test_tree p s \<longleftrightarrow> p = [''r'', ''a.rs''] \<and> s = ''a''"
  by (auto simp: test_tree_def sees_dir_iff is_skipped_dir_def starts_with_def test_detect)

lemma scan_covers_tree_witness:
  "\<exists>i st. scan_tree id test_parse (index_new [''r'']) [''r''] test_tree = Ok (i, st) \<and>
     map_of (si_files i) [''a.rs''] = Some \<lparr>fe_fingerprint = ''a'', fe_symbols = []\<rparr> \<and>
     map_of (si_files i) [''target'', ''x.rs''] = None"
proof -
  have "sort_key fst [(''a.rs'', FFile ''a''), (''target'', FDir [(''x.rs'', FFile ''b'')])] =
      [(''a.rs'', FFile ''a''), (''target'', FDir [(''x.rs'', FFile ''b'')])]"
    by (rule sort_key_id_if_sorted) code_simp
  then obtain i st where scan: "scan_tree id test_parse (index_new [''r'']) [''r''] test_tree = Ok (i, st)"
    by (simp add: scan_tree_def test_tree_def scan_entry_def test_detect is_skipped_dir_def Let_def)
  moreover have "\<forall>p s s'. sees [''r''] test_tree p s \<and> sees [''r''] test_tree p s' \<longrightarrow> s = s'"
    by (simp add: test_tree_sees)
  note get = scan_covers_tree [OF scan this]
  have "map_of (si_files i) [''a.rs''] = Some \<lparr>fe_fingerprint = ''a'', fe_symbols = []\<rparr>"
    unfolding get by (simp add: test_tree_sees indexed_def test_parse_def)
  moreover have "map_of (si_files i) [''target'', ''x.rs''] = None"
  proof -
    have "map_of (si_files i) [''target'', ''x.rs''] \<noteq> Some e" for e unfolding get by (simp add: test_tree_sees)
    then show ?thesis by (cases "map_of (si_files i) [''target'', ''x.rs'']") auto
  qed
  ultimately show ?thesis by blast
qed

end
