(* ===== verification/Anchors.thy ===== *)
theory Anchors
  imports Digest
begin

text \<open>
  Anchors (\<open>crates/supra_digest/src/anchors.rs\<close>) and the digest over a tree (\<open>digest.rs\<close>): opening,
  watcher events, rescans and retrieval. Lower-casing and the test for alphanumeric characters are
  those of the standard library, as arguments; so are embeddings, and the vector index is a state
  with its operations as a record of functions.
\<close>

section \<open>Anchors and budgets\<close>

definition MAX_ANCHORS :: nat where "MAX_ANCHORS = 10"
definition SUFFIX_TOKENS :: nat where "SUFFIX_TOKENS = 300"
definition BYTES_PER_TOKEN :: nat where "BYTES_PER_TOKEN = 3"

record anchor =
  an_locator :: string
  an_gist :: string
  an_kind :: symbol_kind
  an_rank :: "nat option"

definition anchor_tokens :: "anchor \<Rightarrow> nat" where
  "anchor_tokens a = div_ceil (length (an_locator a) + length (an_gist a)) BYTES_PER_TOKEN"

definition gist_for_symbol :: "symbol \<Rightarrow> string option \<Rightarrow> string" where
  "gist_for_symbol s first_line =
     sy_name s @ '' ('' @ kind_text (sy_kind s) @
     (case sy_parent s of Some p \<Rightarrow> '' of '' @ p | None \<Rightarrow> []) @ '', '' @ language_name (sy_language s) @ '')'' @
     (case first_line of
        Some l \<Rightarrow> if trim l \<noteq> [] then '': '' @ trim l else []
      | None \<Rightarrow> [])"

text \<open>\<open>split_whitespace\<close>.\<close>

fun split_chars :: "(string \<Rightarrow> bool) \<Rightarrow> string list \<Rightarrow> string list" where
  "split_chars p [] = [[]]"
| "split_chars p (c # cs) =
     (if p c then [] # split_chars p cs
      else case split_chars p cs of [] \<Rightarrow> [c] | w # ws \<Rightarrow> (c @ w) # ws)"

definition split_whitespace :: "string \<Rightarrow> string list" where
  "split_whitespace s = filter (\<lambda>w. w \<noteq> []) (split_chars is_white (chars s))"

fun shorten_words :: "nat \<Rightarrow> string \<Rightarrow> string list \<Rightarrow> string" where
  "shorten_words room shortened [] = shortened"
| "shorten_words room shortened (w # ws) =
     (if room < length shortened + length w + 1 then shortened
      else shorten_words room ((if shortened = [] then [] else shortened @ '' '') @ w) ws)"

definition entry_candidates :: "symbol \<Rightarrow> string option \<Rightarrow> string list" where
  "entry_candidates s first_line =
     (let line = (case first_line of Some l \<Rightarrow> trim l | None \<Rightarrow> []);
          parent = (case sy_parent s of Some p \<Rightarrow> p | None \<Rightarrow> []) in
      (if parent \<noteq> [] \<and> line \<noteq> [] then [parent @ '': '' @ line] else []) @
      (if line \<noteq> [] then [line] else []) @
      (if parent \<noteq> [] then [''in '' @ parent] else []) @
      [kind_text (sy_kind s)])"

definition entry_topic :: "symbol \<Rightarrow> string" where
  "entry_topic s = sy_name s @ '' ('' @ kind_text (sy_kind s) @ '')''"

definition entry_with :: "turn_id \<Rightarrow> string \<Rightarrow> string \<Rightarrow> (string \<times> string, prompt_error) outcome" where
  "entry_with turn topic gist = bind_outcome (index_entry turn topic gist) (\<lambda>_. Ok (topic, gist))"

fun try_candidates :: "turn_id \<Rightarrow> string \<Rightarrow> string list \<Rightarrow> (string \<times> string, prompt_error) outcome" where
  "try_candidates turn topic [] = Err (IndexEntryOverBudget turn (length topic))"
| "try_candidates turn topic (gist # gists) =
     (if length topic + length gist \<le> MAX_CONTENT_BYTES then entry_with turn topic gist
      else
        let room = MAX_CONTENT_BYTES - length topic;
            shortened = shorten_words room [] (split_whitespace gist) in
        if 16 < length gist \<and> CHR '' '' \<in> set gist \<and> 20 < room \<and>
           shortened \<noteq> [] \<and> length topic + length shortened \<le> MAX_CONTENT_BYTES
        then entry_with turn topic shortened
        else try_candidates turn topic gists)"

definition gist_for_entry :: "symbol \<Rightarrow> string option \<Rightarrow> turn_id \<Rightarrow> (string \<times> string, prompt_error) outcome" where
  "gist_for_entry s first_line turn = try_candidates turn (entry_topic s) (entry_candidates s first_line)"

definition check_budget :: "anchor list \<Rightarrow> (unit, digest_error) outcome" where
  "check_budget anchors =
     (let tokens = sum_list (map anchor_tokens anchors) in
      if MAX_ANCHORS < length anchors then Err (OverBudget tokens SUFFIX_TOKENS)
      else if SUFFIX_TOKENS < tokens then Err (OverBudget tokens SUFFIX_TOKENS)
      else Ok ())"

definition render_suffix :: "anchor list \<Rightarrow> string" where
  "render_suffix anchors =
     concat (map (\<lambda>a. an_locator a @ '' '' @ [CHR 0xE2, CHR 0x80, CHR 0x94] @ '' '' @ an_gist a @ [newline_char]) anchors)"

section \<open>The digest\<close>

record digest_state =
  ds_root :: file_path
  ds_index :: symbol_index
  ds_graph :: dependency_graph
  ds_last_scan_ms :: int
  ds_rescan_secs :: nat

definition DEFAULT_RESCAN_SECS :: nat where "DEFAULT_RESCAN_SECS = 30"

text \<open>What is outside: the hash, the parser, bytes as text, and what reading a path gives.\<close>

record digest_env =
  de_hash :: "string \<Rightarrow> string"
  de_parse :: parser
  de_lossy :: "string \<Rightarrow> string"
  de_read :: "file_path \<Rightarrow> string option"
  de_tree :: fs_node
  de_now_ms :: int

definition imports_at :: "digest_env \<Rightarrow> file_path \<Rightarrow> file_path \<Rightarrow> string list" where
  "imports_at env root path =
     (case de_read env (root @ path) of
        None \<Rightarrow> []
      | Some source \<Rightarrow>
          (case detect path of
             None \<Rightarrow> []
           | Some lang \<Rightarrow> import_targets lang (de_lossy env source)))"

definition build_graph :: "digest_env \<Rightarrow> file_path \<Rightarrow> symbol_index \<Rightarrow> dependency_graph" where
  "build_graph env root i =
     fold (\<lambda>path. record_imports path (imports_at env root path)) (indexed_paths i)
       (fold register_module (indexed_paths i) graph_new)"

definition open_with_rescan :: "digest_env \<Rightarrow> file_path \<Rightarrow> nat \<Rightarrow> (digest_state, digest_error) outcome" where
  "open_with_rescan env root rescan_secs =
     bind_outcome (scan_tree (de_hash env) (de_parse env) (index_new root) root (de_tree env)) (\<lambda>(i, _).
       Ok \<lparr>ds_root = root, ds_index = i, ds_graph = build_graph env root i,
           ds_last_scan_ms = de_now_ms env, ds_rescan_secs = rescan_secs\<rparr>)"

definition digest_open :: "digest_env \<Rightarrow> file_path \<Rightarrow> (digest_state, digest_error) outcome" where
  "digest_open env root = open_with_rescan env root DEFAULT_RESCAN_SECS"

definition blast_radius :: "digest_state \<Rightarrow> file_path \<Rightarrow> file_path list" where
  "blast_radius d path = dependents (ds_graph d) (relative_to (ds_root d) path)"

definition digest_symbols_named :: "digest_state \<Rightarrow> string \<Rightarrow> symbol list" where
  "digest_symbols_named d name = symbols_named (ds_index d) name"

definition rescan_if_stale :: "digest_env \<Rightarrow> digest_state \<Rightarrow> (digest_state, digest_error) outcome" where
  "rescan_if_stale env d =
     (if ds_rescan_secs d = u64_max then Ok d
      else
        let interval_ms = min (int (min (ds_rescan_secs d * 1000) u64_max)) i64_max in
        if max i64_min (min (de_now_ms env - ds_last_scan_ms d) i64_max) < interval_ms then Ok d
        else
          bind_outcome (scan_tree (de_hash env) (de_parse env) (index_new (ds_root d)) (ds_root d) (de_tree env)) (\<lambda>(i, _).
            Ok (d\<lparr>ds_index := i, ds_graph := build_graph env (ds_root d) i, ds_last_scan_ms := de_now_ms env\<rparr>)))"

datatype event_kind = Ev_Create | Ev_Modify | Ev_Remove | Ev_Other

definition apply_event_path :: "digest_env \<Rightarrow> event_kind \<Rightarrow> file_path \<Rightarrow> digest_state \<Rightarrow> digest_state" where
  "apply_event_path env kind path d =
     (let relative = relative_to (ds_root d) path in
      if kind = Ev_Remove then
        d\<lparr>ds_index := snd (index_remove_file path (ds_index d)), ds_graph := graph_remove_file relative (ds_graph d)\<rparr>
      else if kind \<noteq> Ev_Create \<and> kind \<noteq> Ev_Modify then d
      else case de_read env path of
        None \<Rightarrow> d
      | Some source \<Rightarrow>
          if is_current (de_hash env) (ds_index d) path source then d
          else
            let i = index_bytes (de_hash env) (de_parse env) path source (ds_index d);
                g = graph_remove_file relative (ds_graph d);
                g = (if relative \<in> set (indexed_paths i)
                     then
                       let g = register_module relative g in
                       (case detect relative of
                          Some lang \<Rightarrow> record_imports relative (import_targets lang (de_lossy env source)) g
                        | None \<Rightarrow> g)
                     else g)
            in d\<lparr>ds_index := i, ds_graph := g\<rparr>)"

definition apply_event :: "digest_env \<Rightarrow> event_kind \<Rightarrow> file_path list \<Rightarrow> digest_state \<Rightarrow> digest_state" where
  "apply_event env kind paths d = fold (apply_event_path env kind) paths d"

section \<open>Retrieval\<close>

record text_env =
  te_lower :: "string \<Rightarrow> string"
  te_alnum :: "string \<Rightarrow> bool"

definition task_terms :: "text_env \<Rightarrow> string \<Rightarrow> string list" where
  "task_terms te task =
     map (te_lower te) (filter (\<lambda>t. t \<noteq> []) (split_chars (\<lambda>c. \<not> te_alnum te c \<and> c \<noteq> ''_'') (chars task)))"

definition contains :: "string \<Rightarrow> string \<Rightarrow> bool" where
  "contains s t \<longleftrightarrow> find_text t s \<noteq> None"

definition candidate_pool :: "text_env \<Rightarrow> symbol_index \<Rightarrow> string list \<Rightarrow> (symbol \<times> string) list" where
  "candidate_pool te i terms =
     map (\<lambda>s. (s, gist_for_symbol s None))
       (filter (\<lambda>s. list_ex (\<lambda>t. contains (te_lower te (sy_name s)) t \<or>
            contains (te_lower te (case sy_parent s of Some p \<Rightarrow> p | None \<Rightarrow> [])) t) terms)
         (concat (map (\<lambda>path. case map_of (si_files i) (relative_to (si_root i) path) of
            Some e \<Rightarrow> fe_symbols e | None \<Rightarrow> []) (indexed_paths i))))"

text \<open>\<open>matches(p).count()\<close>: occurrences that do not overlap.\<close>

function count_matches :: "string \<Rightarrow> string \<Rightarrow> nat" where
  "count_matches p s =
     (if p = [] then char_count s + 1
      else case find_text p s of
        None \<Rightarrow> 0
      | Some n \<Rightarrow> Suc (count_matches p (drop (n + length p) s)))"
  by pat_completeness auto
termination
proof (relation "measure (\<lambda>(_, s). length s)")
  fix p s :: string and n assume "p \<noteq> []" "find_text p s = Some n"
  then have "s \<noteq> []" by (auto split: if_split_asm)
  then show "((p, drop (n + length p) s), p, s) \<in> measure (\<lambda>(_, s). length s)"
    using \<open>p \<noteq> []\<close> by (cases p; cases s) auto
qed simp

declare count_matches.simps [simp del]

definition lexical_score :: "text_env \<Rightarrow> (symbol \<times> string) list \<Rightarrow> string list \<Rightarrow> string \<Rightarrow> nat" where
  "lexical_score te candidates terms gist =
     sum_list (map (\<lambda>t.
       let hits = count_matches t (te_lower te gist);
           docs = max 1 (length (filter (\<lambda>(_, other). contains (te_lower te other) t) candidates)) in
       if 0 < hits then hits * length candidates div docs else 0) terms)"

definition anchor_of_symbol :: "symbol \<times> string \<Rightarrow> nat \<Rightarrow> anchor" where
  "anchor_of_symbol c rank =
     \<lparr>an_locator = locator (fst c), an_gist = snd c, an_kind = sy_kind (fst c), an_rank = Some rank\<rparr>"

definition lexical_fallback :: "text_env \<Rightarrow> (symbol \<times> string) list \<Rightarrow> string list \<Rightarrow> nat \<Rightarrow> anchor list" where
  "lexical_fallback te candidates terms bound =
     (let scored = filter (\<lambda>(score, _). 0 < score)
            (map (\<lambda>(position, c). (lexical_score te candidates terms (snd c), position)) (enumerate 0 candidates));
          best = take bound (sort_key (\<lambda>(score, _). - int score) scored) in
      map (\<lambda>(rank, (_, position)). anchor_of_symbol (candidates ! position) rank) (enumerate 0 best))"

record ('v, 'e) vector_ops =
  vo_upsert :: "string \<Rightarrow> string \<Rightarrow> 'e \<Rightarrow> 'v \<Rightarrow> bool \<times> 'v"
  vo_remove :: "string \<Rightarrow> 'v \<Rightarrow> 'v"
  vo_search :: "string \<Rightarrow> 'e \<Rightarrow> nat \<Rightarrow> nat \<Rightarrow> 'v \<Rightarrow> string list + string"

definition pool_locator :: "nat \<Rightarrow> string" where
  "pool_locator n = ''digest#'' @ show_nat n"

definition drain_pool :: "('v, 'e) vector_ops \<Rightarrow> string list \<Rightarrow> 'v \<Rightarrow> 'v" where
  "drain_pool vo locators v = fold (vo_remove vo) locators v"

text \<open>The locators that were inserted, with their positions in the pool.\<close>

fun fill_pool :: "('v, 'e) vector_ops \<Rightarrow> (string \<Rightarrow> 'e option) \<Rightarrow> (nat \<times> symbol \<times> string) list \<Rightarrow> 'v \<Rightarrow>
    (string \<times> nat) list \<times> 'v" where
  "fill_pool vo emb [] v = ([], v)"
| "fill_pool vo emb ((n, _, gist) # cs) v =
     (case emb gist of
        None \<Rightarrow> fill_pool vo emb cs v
      | Some e \<Rightarrow>
          (let (ok, v) = vo_upsert vo (pool_locator n) gist e v;
               (ls, v) = fill_pool vo emb cs v in
           ((if ok then [(pool_locator n, n)] else []) @ ls, v)))"

definition semantic_anchors :: "(symbol \<times> string) list \<Rightarrow> (string \<times> nat) list \<Rightarrow> string list \<Rightarrow> anchor list" where
  "semantic_anchors candidates pool hits =
     concat (map (\<lambda>(rank, hit). case map_of pool hit of
       Some position \<Rightarrow> [anchor_of_symbol (candidates ! position) rank] | None \<Rightarrow> []) (enumerate 0 hits))"

definition rank_pool :: "('v, 'e) vector_ops \<Rightarrow> text_env \<Rightarrow> (string \<Rightarrow> 'e option) \<Rightarrow> (symbol \<times> string) list \<Rightarrow>
    string list \<Rightarrow> string \<Rightarrow> 'v \<Rightarrow> (anchor list, digest_error) outcome \<times> 'v" where
  "rank_pool vo te emb candidates terms task v =
     (let (pool, v) = fill_pool vo emb (enumerate 0 candidates) v;
          locators = map fst pool;
          finish = (\<lambda>anchors v.
            let anchors = (if anchors = [] then lexical_fallback te candidates terms MAX_ANCHORS else anchors) in
            (case check_budget anchors of
               Ok () \<Rightarrow> (Ok anchors, drain_pool vo locators v)
             | Err e \<Rightarrow> (Err e, v)
             | Panic \<Rightarrow> (Panic, v))) in
      case emb task of
        Some query \<Rightarrow>
          (let hits = vo_search vo task query MAX_ANCHORS 50 v; v = drain_pool vo locators v in
           case hits of
             Inr e \<Rightarrow> (Err (VectorFails e), v)
           | Inl hits \<Rightarrow> finish (semantic_anchors candidates pool hits) v)
      | None \<Rightarrow> finish [] v)"

definition retrieve :: "digest_env \<Rightarrow> ('v, 'e) vector_ops \<Rightarrow> text_env \<Rightarrow> (string \<Rightarrow> 'e option) \<Rightarrow> string \<Rightarrow>
    digest_state \<times> 'v \<Rightarrow> (anchor list, digest_error) outcome \<times> digest_state \<times> 'v" where
  "retrieve env vo te emb task s =
     (let (d, v) = s in
      case rescan_if_stale env d of
        Err e \<Rightarrow> (Err e, d, v)
      | Panic \<Rightarrow> (Panic, d, v)
      | Ok d \<Rightarrow>
          let terms = task_terms te task in
          if terms = [] then (Ok [], d, v)
          else
            let candidates = candidate_pool te (ds_index d) terms in
            if candidates = [] then (Ok [], d, v)
            else let (r, v) = rank_pool vo te emb candidates terms task v in (r, d, v))"

section \<open>Index entries\<close>

lemma shorten_words_fits: "length sh \<le> room \<Longrightarrow> length (shorten_words room sh ws) \<le> room"
  by (induction ws arbitrary: sh) auto

lemma entry_with_fits:
  "length topic + length gist \<le> MAX_CONTENT_BYTES \<Longrightarrow> entry_with turn topic gist = Ok (topic, gist)"
  by (simp add: entry_with_def index_entry_def entry_new_def Let_def)

lemma try_candidates_spec:
  "(\<exists>gist. try_candidates turn topic gists = Ok (topic, gist) \<and> length topic + length gist \<le> MAX_CONTENT_BYTES) \<or>
   try_candidates turn topic gists = Err (IndexEntryOverBudget turn (length topic)) \<and>
   (\<forall>g \<in> set gists. MAX_CONTENT_BYTES < length topic + length g)"
proof (induction gists)
  case (Cons g gists)
  let ?room = "MAX_CONTENT_BYTES - length topic"
  let ?short = "shorten_words ?room [] (split_whitespace g)"
  show ?case
  proof (cases "length topic + length g \<le> MAX_CONTENT_BYTES")
    case True
    then show ?thesis by (simp add: entry_with_fits)
  next
    case False
    show ?thesis
    proof (cases "16 < length g \<and> CHR '' '' \<in> set g \<and> 20 < ?room \<and> ?short \<noteq> [] \<and>
        length topic + length ?short \<le> MAX_CONTENT_BYTES")
      case True
      then have "try_candidates turn topic (g # gists) = Ok (topic, ?short)"
        using False by (simp add: Let_def entry_with_fits)
      then show ?thesis using True by blast
    next
      case no: False
      then have "try_candidates turn topic (g # gists) = try_candidates turn topic gists"
        using False unfolding try_candidates.simps(2) Let_def by (simp only: if_False)
      then show ?thesis using Cons False by simp
    qed
  qed
qed simp

lemma kind_text_short: "length (kind_text k) \<le> 8"
  by (cases k) simp_all

text \<open>
  An index entry is made for every symbol whose topic leaves room for the name of its kind: the
  entry keeps the topic whole and fits the eighty bytes; the refusal happens only when not even the
  name of the kind fits, and then it reports the length of the topic.
\<close>

theorem entry_gist_fits:
  "(\<exists>gist. gist_for_entry s line turn = Ok (entry_topic s, gist) \<and>
      length (entry_topic s) + length gist \<le> MAX_CONTENT_BYTES) \<or>
   gist_for_entry s line turn = Err (IndexEntryOverBudget turn (length (entry_topic s))) \<and>
   MAX_CONTENT_BYTES < length (entry_topic s) + length (kind_text (sy_kind s))"
proof -
  have "kind_text (sy_kind s) \<in> set (entry_candidates s line)" by (simp add: entry_candidates_def Let_def)
  then show ?thesis
    using try_candidates_spec [of turn "entry_topic s" "entry_candidates s line"] unfolding gist_for_entry_def by blast
qed

text \<open>
  The length reported can be one that fits: a topic of 75 bytes is within the budget of 80, but leaves
  no room for any of the gists that are tried.
\<close>

definition long_symbol :: symbol where
  "long_symbol = \<lparr>sy_path = [''a.rs''], sy_language = Rust, sy_kind = Function, sy_name = replicate 64 CHR ''x'',
     sy_parent = None, sy_start = 0, sy_end = 9, sy_line = 1\<rparr>"

lemma topic_within_budget_refused:
  "gist_for_entry long_symbol None turn = Err (IndexEntryOverBudget turn 75) \<and> (75 :: nat) \<le> MAX_CONTENT_BYTES"
  by (simp add: gist_for_entry_def entry_candidates_def entry_topic_def long_symbol_def MAX_CONTENT_BYTES_def)

section \<open>The graph of an opened digest\<close>

lemma record_import_modules [simp]: "dg_modules (record_import p t g) = dg_modules g"
  by (simp add: record_import_def Let_def)

lemma graph_resolve_modules: "dg_modules g = dg_modules h \<Longrightarrow> graph_resolve g m = graph_resolve h m"
proof (induction g m rule: graph_resolve.induct)
  case (1 g m)
  then show ?case by (subst (1 2) graph_resolve.simps) (auto split: option.splits)
qed

lemma record_imports_graph:
  "dg_modules (record_imports p ts g) = dg_modules g \<and>
   set (dg_edges (record_imports p ts g)) = set (dg_edges g) \<union>
     {((p, normalise_import p t, graph_resolve g (normalise_import p t) \<noteq> None), ()) | t. t \<in> set ts}"
proof -
  have keys: "set (bt_insert k () m) = insert (k, ()) (set m)" for k :: edge and m
  proof -
    have unit: "set xs = (\<lambda>k. (k, ())) ` set (map fst xs)" for xs :: "(edge \<times> unit) list" by force
    show ?thesis using unit [of "bt_insert k () m"] unit [of m] by (simp add: bt_insert_keys del: set_map)
  qed
  show ?thesis
  proof (induction ts rule: rev_induct)
    case (snoc t ts)
    have "graph_resolve (record_imports p ts g) m = graph_resolve g m" for m
      using snoc by (intro graph_resolve_modules) simp
    then show ?case using snoc by (auto simp: record_imports_def record_import_def Let_def keys)
  qed (simp add: record_imports_def)
qed

lemma record_all_graph:
  "dg_modules (fold (\<lambda>p. record_imports p (imps p)) ps g) = dg_modules g \<and>
   set (dg_edges (fold (\<lambda>p. record_imports p (imps p)) ps g)) = set (dg_edges g) \<union>
     {((p, normalise_import p t, graph_resolve g (normalise_import p t) \<noteq> None), ()) | p t. p \<in> set ps \<and> t \<in> set (imps p)}"
proof (induction ps rule: rev_induct)
  case (snoc p ps)
  let ?h = "fold (\<lambda>p. record_imports p (imps p)) ps g"
  have "graph_resolve ?h m = graph_resolve g m" for m using snoc by (intro graph_resolve_modules) simp
  then show ?case using snoc record_imports_graph [where g = ?h and p = p and ts = "imps p"] by auto
qed simp

lemma register_edges [simp]: "dg_edges (register_module p g) = dg_edges g"
  by (simp add: register_module_def split: option.splits)

lemma register_all_edges [simp]: "dg_edges (fold register_module ps g) = dg_edges g"
  by (induction ps arbitrary: g) simp_all

text \<open>What an indexed file imports, resolved against the modules of all indexed files.\<close>

definition resolved_imports :: "digest_env \<Rightarrow> digest_state \<Rightarrow> (file_path \<times> file_path) set" where
  "resolved_imports env d =
     {(b, a). a \<in> set (indexed_paths (ds_index d)) \<and>
        (\<exists>t \<in> set (imports_at env (ds_root d) a). graph_resolve (ds_graph d) (normalise_import a t) = Some b)}"

lemma build_graph_imported:
  assumes "g = build_graph env root i"
  shows "imported_by g = {(b, a). a \<in> set (indexed_paths i) \<and>
    (\<exists>t \<in> set (imports_at env root a). graph_resolve g (normalise_import a t) = Some b)}"
proof -
  let ?g0 = "fold register_module (indexed_paths i) graph_new"
  have mods: "dg_modules g = dg_modules ?g0" and edges: "set (dg_edges g) =
      {((p, normalise_import p t, graph_resolve ?g0 (normalise_import p t) \<noteq> None), ()) | p t.
         p \<in> set (indexed_paths i) \<and> t \<in> set (imports_at env root p)}"
    using record_all_graph [of "imports_at env root" "indexed_paths i" ?g0]
    by (simp_all add: assms build_graph_def graph_new_def)
  have "graph_resolve ?g0 m = graph_resolve g m" for m using mods by (intro graph_resolve_modules) simp
  then show ?thesis by (auto simp: imported_by_def edges)
qed

text \<open>
  After a digest is opened no import edge is missing: the blast radius of a file is everything
  that reaches it through imports that resolve to an indexed file, whatever the order in which files
  were indexed, because all modules are registered before the first import is resolved.
\<close>

theorem opened_blast_radius_complete:
  assumes "digest_open env root = Ok d" "(m, relative_to root path) \<in> set (dg_modules (ds_graph d))"
  shows "set (blast_radius d path) = {a. (relative_to root path, a) \<in> (resolved_imports env d)\<^sup>*}"
proof -
  have d: "ds_root d = root" "ds_graph d = build_graph env root (ds_index d)"
    using assms(1) by (auto simp: digest_open_def open_with_rescan_def bind_outcome_Ok_iff)
  have "imported_by (ds_graph d) = resolved_imports env d"
    using build_graph_imported [OF d(2)] by (simp add: resolved_imports_def d(1))
  moreover have "\<exists>m. (m, relative_to root path) \<in> set (dg_modules (ds_graph d))" using assms(2) by blast
  ultimately show ?thesis
    using closure_finite [of "ds_graph d" "relative_to root path"] by (auto simp: blast_radius_def d(1) dependents_spec)
qed

definition test_digest_env :: digest_env where
  "test_digest_env = \<lparr>de_hash = id, de_parse = test_parse, de_lossy = id, de_read = (\<lambda>_. None),
     de_tree = FDir [(''a.rs'', FFile ''a'')], de_now_ms = 0\<rparr>"

lemma opened_blast_radius_complete_witness:
  "\<exists>d. digest_open test_digest_env [] = Ok d \<and> set (blast_radius d [''a.rs'']) = {[''a.rs'']}"
proof -
  have det: "detect [''a.rs''] = Some Rust" by (simp add: detect_def extension_of_def EXTENSIONS_def)
  have paths: "indexed_paths (index_bytes id test_parse [''a.rs''] ''a'' (index_new [])) = [[''a.rs'']]"
    by (simp add: indexed_paths_def index_bytes_def index_new_def test_parse_def relative_to_def)
  have mods: "module_path [''a.rs''] = Some ''a''" by (simp add: module_path_def stem_of_def join_colons_def)
  obtain d where d: "digest_open test_digest_env [] = Ok d" "ds_index d = index_bytes id test_parse [''a.rs''] ''a'' (index_new [])"
      "ds_graph d = build_graph test_digest_env [] (ds_index d)" "ds_root d = []"
    by (simp add: digest_open_def open_with_rescan_def scan_tree_def test_digest_env_def scan_entry_def det Let_def)
  have "dg_modules (ds_graph d) = [(''a'', [''a.rs''])]"
    by (simp add: d(2,3) build_graph_def paths register_module_def mods graph_new_def imports_at_def
        test_digest_env_def record_imports_def)
  moreover have "resolved_imports test_digest_env d = {}"
    by (simp add: resolved_imports_def imports_at_def test_digest_env_def)
  ultimately show ?thesis
    using opened_blast_radius_complete [OF d(1), of "''a''" "[''a.rs'']"] d(1) by (auto simp: relative_to_def)
qed

section \<open>Watcher events\<close>

text \<open>Every entry is that of some bytes with its fingerprint.\<close>

definition index_sound :: "digest_env \<Rightarrow> symbol_index \<Rightarrow> bool" where
  "index_sound env i \<longleftrightarrow> index_ok i \<and>
     (\<forall>q e. map_of (si_files i) q = Some e \<longrightarrow>
        (\<exists>source. indexed (de_hash env) (de_parse env) q source = Some e))"

lemma indexed_fingerprint: "indexed H parse q source = Some e \<Longrightarrow> fe_fingerprint e = H source"
  by (auto simp: indexed_def)

lemma event_index:
  "kind \<noteq> Ev_Remove \<Longrightarrow> ds_index (apply_event_path env kind path d) =
     (if kind \<in> {Ev_Create, Ev_Modify}
      then case de_read env path of
             None \<Rightarrow> ds_index d
           | Some s \<Rightarrow> if is_current (de_hash env) (ds_index d) path s then ds_index d
                     else index_bytes (de_hash env) (de_parse env) path s (ds_index d)
      else ds_index d)"
  by (simp add: apply_event_path_def Let_def split: option.split)

text \<open>
  A watcher event leaves the index current for its file: after a creation or a change of a
  readable file, its entry is that of bytes with the fingerprint of what was read, or absent when
  those do not parse; after a removal it is gone, from the index and from the graph; other files keep
  their entries, and every entry stays that of some bytes with its fingerprint.
\<close>

theorem event_keeps_index_current:
  assumes "index_sound env (ds_index d)" "q = relative_to (ds_root d) path" "si_root (ds_index d) = ds_root d"
  shows "(kind \<in> {Ev_Create, Ev_Modify} \<and> de_read env path = Some source \<longrightarrow>
      (\<exists>bytes. de_hash env bytes = de_hash env source \<and>
         map_of (si_files (ds_index (apply_event_path env kind path d))) q = indexed (de_hash env) (de_parse env) q bytes)) \<and>
    (kind = Ev_Remove \<longrightarrow>
      map_of (si_files (ds_index (apply_event_path env kind path d))) q = None \<and>
      \<not> files_contain (ds_graph (apply_event_path env kind path d)) q \<and>
      q \<notin> importers (ds_graph (apply_event_path env kind path d))) \<and>
    (\<forall>p. p \<noteq> q \<longrightarrow> map_of (si_files (ds_index (apply_event_path env kind path d))) p = map_of (si_files (ds_index d)) p) \<and>
    index_sound env (ds_index (apply_event_path env kind path d))"
proof (cases "kind = Ev_Remove")
  case True
  have sorted: "bt_sorted (si_files (ds_index d))" using assms(1) by (simp add: index_sound_def index_ok_def)
  have "ds_index (apply_event_path env kind path d) = (ds_index d)\<lparr>si_files := bt_remove q (si_files (ds_index d))\<rparr>"
    "ds_graph (apply_event_path env kind path d) = graph_remove_file q (ds_graph d)"
    using True assms(2,3) by (simp_all add: apply_event_path_def index_remove_file_def Let_def)
  then show ?thesis using True assms(1) sorted
    by (auto simp: bt_remove_get bt_remove_sorted index_sound_def index_ok_def graph_remove_file_def files_contain_def
        list_ex_iff importers_def)
next
  case False
  let ?d = "apply_event_path env kind path d"
  have ok: "index_ok (ds_index d)" using assms(1) by (simp add: index_sound_def)
  consider "ds_index ?d = ds_index d" "kind \<in> {Ev_Create, Ev_Modify} \<and> de_read env path = Some source \<longrightarrow>
        is_current (de_hash env) (ds_index d) path source"
    | s where "de_read env path = Some s" "ds_index ?d = index_bytes (de_hash env) (de_parse env) path s (ds_index d)"
  proof (cases "kind \<in> {Ev_Create, Ev_Modify} \<and> de_read env path \<noteq> None")
    case True
    then obtain s where s: "de_read env path = Some s" by blast
    show thesis
    proof (cases "is_current (de_hash env) (ds_index d) path s")
      case current: True
      then show thesis using that(1) True False s by (auto simp: event_index)
    next
      case stale: False
      then show thesis using that(2) [of s] True False s by (simp add: event_index)
    qed
  next
    case no: False
    then show thesis using that(1) False by (auto simp: event_index)
  qed
  then show ?thesis
  proof cases
    case 1
    have "\<exists>bytes. de_hash env bytes = de_hash env source \<and>
        map_of (si_files (ds_index d)) q = indexed (de_hash env) (de_parse env) q bytes"
      if cur: "is_current (de_hash env) (ds_index d) path source"
    proof -
      obtain e where e: "map_of (si_files (ds_index d)) q = Some e" "fe_fingerprint e = de_hash env source"
        using cur assms(2,3) by (cases "map_of (si_files (ds_index d)) q") (simp_all add: is_current_def)
      obtain bytes where "indexed (de_hash env) (de_parse env) q bytes = Some e"
        using assms(1) e(1) unfolding index_sound_def by blast
      then show ?thesis using e indexed_fingerprint by metis
    qed
    then show ?thesis using 1 False assms(1) by auto
  next
    case 2
    note step = index_bytes_get [OF ok, of "de_hash env" "de_parse env" path s, unfolded assms(3), folded assms(2)]
    have "index_sound env (ds_index ?d)"
      using assms(1) step(1,3) unfolding index_sound_def 2(2) by (auto split: if_splits)
    then show ?thesis using 2(1) False step(1) by (auto simp: 2(2))
  qed
qed

lemma event_keeps_index_current_witness:
  "map_of (si_files (ds_index (apply_event_path
      \<lparr>de_hash = id, de_parse = test_parse, de_lossy = id, de_read = (\<lambda>_. Some ''use b;''), de_tree = FDir [], de_now_ms = 0\<rparr>
      Ev_Create [''a.rs'']
      \<lparr>ds_root = [], ds_index = index_new [], ds_graph = graph_new, ds_last_scan_ms = 0, ds_rescan_secs = 30\<rparr>))) [''a.rs''] =
   Some \<lparr>fe_fingerprint = ''use b;'', fe_symbols = []\<rparr>"
proof -
  let ?env = "\<lparr>de_hash = id, de_parse = test_parse, de_lossy = id, de_read = (\<lambda>_. Some ''use b;''), de_tree = FDir [], de_now_ms = 0\<rparr>"
  let ?d = "\<lparr>ds_root = [], ds_index = index_new [], ds_graph = graph_new, ds_last_scan_ms = 0, ds_rescan_secs = 30\<rparr>"
  have "index_sound ?env (ds_index ?d)" by (simp add: index_sound_def index_ok_def index_new_def bt_sorted_def)
  then show ?thesis
    using event_keeps_index_current [of ?env ?d "[''a.rs'']" "[''a.rs'']" Ev_Create "''use b;''"]
    by (simp add: index_new_def relative_to_def indexed_def test_parse_def)
qed

text \<open>
  An import that is recorded before its target exists stays external when the target arrives:
  the new file does not see its importer until the next full rescan.
\<close>

lemma late_module_stays_external:
  "dependents (register_module [''b.rs''] (record_imports [''a.rs''] [''b''] (register_module [''a.rs''] graph_new))) [''b.rs''] =
     [[''b.rs'']] \<and>
   dependents (record_imports [''a.rs''] [''b''] (register_module [''b.rs''] (register_module [''a.rs''] graph_new))) [''b.rs''] =
     [[''a.rs''], [''b.rs'']]"
proof -
  have mods: "module_path [''a.rs''] = Some ''a''" "module_path [''b.rs''] = Some ''b''"
    by (simp_all add: module_path_def stem_of_def join_colons_def)
  have lt: "(''a'' :: string) < ''b''" "([''a.rs''] :: file_path) < [''b.rs'']" by code_simp+
  have norm: "normalise_import [''a.rs''] ''b'' = ''b''"
    by (simp add: normalise_import_def strip_prefix_def strip_supers.simps)
  let ?ga = "register_module [''a.rs''] graph_new"
  have ga: "?ga = \<lparr>dg_edges = [], dg_modules = [(''a'', [''a.rs''])]\<rparr>"
    by (simp add: register_module_def mods graph_new_def)
  have early: "graph_resolve \<lparr>dg_edges = [], dg_modules = [(''a'', [''a.rs''])]\<rparr> ''b'' = None"
    by (simp add: graph_resolve.simps strip_prefix_def)
  have one: "register_module [''b.rs''] (record_imports [''a.rs''] [''b''] ?ga) =
      \<lparr>dg_edges = [(([''a.rs''], ''b'', False), ())], dg_modules = [(''a'', [''a.rs'']), (''b'', [''b.rs''])]\<rparr>"
    unfolding ga using lt by (simp add: record_imports_def record_import_def norm early mods register_module_def)
  have gb: "register_module [''b.rs''] ?ga = \<lparr>dg_edges = [], dg_modules = [(''a'', [''a.rs'']), (''b'', [''b.rs''])]\<rparr>"
    using lt by (simp add: register_module_def mods graph_new_def)
  let ?two = "\<lparr>dg_edges = [(([''a.rs''], ''b'', True), ())], dg_modules = [(''a'', [''a.rs'']), (''b'', [''b.rs''])]\<rparr>"
  have two: "record_imports [''a.rs''] [''b''] (register_module [''b.rs''] ?ga) = ?two"
    by (simp add: gb record_imports_def record_import_def norm graph_resolve.simps Let_def)
  have "imported_by \<lparr>dg_edges = [(([''a.rs''], ''b'', False), ())], dg_modules = [(''a'', [''a.rs'']), (''b'', [''b.rs''])]\<rparr> = {}"
    by (auto simp: imported_by_def)
  moreover have "imported_by ?two = {([''b.rs''], [''a.rs''])}"
    by (auto simp: imported_by_def graph_resolve.simps)
  moreover have "{([''b.rs''], [''a.rs''])}\<^sup>* `` {[''b.rs'']} = {[''a.rs''], [''b.rs'']}"
    by (auto elim: rtranclE intro: r_into_rtrancl dest: rtranclD tranclD2)
  ultimately show ?thesis using lt by (simp add: one two dependents_spec)
qed

section \<open>What retrieval returns\<close>

definition from_candidates :: "(symbol \<times> string) list \<Rightarrow> anchor \<Rightarrow> bool" where
  "from_candidates candidates a \<longleftrightarrow> (\<exists>(s, gist) \<in> set candidates. an_locator a = locator s \<and> an_gist a = gist \<and> an_kind a = sy_kind s)"

lemma anchor_of_nth: "n < length candidates \<Longrightarrow> from_candidates candidates (anchor_of_symbol (candidates ! n) r)"
  unfolding from_candidates_def anchor_of_symbol_def by (rule bexI [of _ "candidates ! n"]) (auto split: prod.split)

lemma fill_pool_positions:
  "fill_pool vo emb cs v = (pool, v') \<Longrightarrow> set (map snd pool) \<subseteq> fst ` set cs"
proof (induction cs arbitrary: v pool v')
  case (Cons c cs)
  obtain n s gist where c: "c = (n, s, gist)" by (cases c)
  show ?case
  proof (cases "emb gist")
    case None
    then show ?thesis using Cons.IH [of v pool v'] Cons.prems by (auto simp: c)
  next
    case (Some e)
    obtain ok v1 where up: "vo_upsert vo (pool_locator n) gist e v = (ok, v1)" by force
    obtain p2 v2 where rest: "fill_pool vo emb cs v1 = (p2, v2)" by force
    show ?thesis using Cons.IH [OF rest] Cons.prems by (auto simp: c Some up rest image_subset_iff)
  qed
qed simp

lemma semantic_from:
  assumes "set (map snd pool) \<subseteq> {..<length candidates}"
  shows "\<forall>a \<in> set (semantic_anchors candidates pool hits). from_candidates candidates a"
proof -
  have "n < length candidates" if "map_of pool hit = Some n" for hit n
    using assms map_of_SomeD [OF that] by force
  then show ?thesis by (auto simp: semantic_anchors_def anchor_of_nth split: option.splits)
qed

lemma enumerate_mem: "(r, x) \<in> set (enumerate k xs) \<Longrightarrow> x \<in> set xs"
  by (metis image_eqI list.set_map map_snd_enumerate snd_conv)

lemma lexical_from: "\<forall>a \<in> set (lexical_fallback te candidates terms n). from_candidates candidates a"
proof -
  let ?scored = "filter (\<lambda>(score, _). 0 < score)
      (map (\<lambda>(position, c). (lexical_score te candidates terms (snd c), position)) (enumerate 0 candidates))"
  let ?best = "take n (sort_key (\<lambda>(score, _). - int score) ?scored)"
  have "set ?best \<subseteq> set ?scored" by (metis set_sort set_take_subset)
  then have "position < length candidates" if "(score, position) \<in> set ?best" for score position
    using that by (auto simp: in_set_enumerate_eq)
  moreover have "(score, position) \<in> set ?best" if "(r, score, position) \<in> set (enumerate 0 ?best)" for r score position
    using that by (rule enumerate_mem)
  ultimately have "from_candidates candidates (anchor_of_symbol (candidates ! position) r)"
    if "(r, score, position) \<in> set (enumerate 0 ?best)" for r score position
    using that anchor_of_nth by blast
  then show ?thesis unfolding lexical_fallback_def Let_def by auto
qed

lemma check_budget_Ok: "check_budget as = Ok () \<longleftrightarrow> length as \<le> MAX_ANCHORS \<and> sum_list (map anchor_tokens as) \<le> SUFFIX_TOKENS"
  by (auto simp: check_budget_def Let_def)

lemma rank_pool_Ok:
  assumes "rank_pool vo te emb candidates terms task v = (Ok anchors, v')"
  shows "check_budget anchors = Ok () \<and> (\<forall>a \<in> set anchors. from_candidates candidates a)"
proof -
  obtain pool v1 where fill: "fill_pool vo emb (enumerate 0 candidates) v = (pool, v1)" by force
  have pos: "set (map snd pool) \<subseteq> {..<length candidates}"
    using fill_pool_positions [OF fill] by (auto simp: in_set_enumerate_eq)
  have fin: "check_budget anchors = Ok () \<and> (\<forall>a \<in> set anchors. from_candidates candidates a)"
    if "(case check_budget (if found = [] then lexical_fallback te candidates terms MAX_ANCHORS else found) of
        Ok () \<Rightarrow> (Ok (if found = [] then lexical_fallback te candidates terms MAX_ANCHORS else found), x)
      | Err e \<Rightarrow> (Err e, y) | Panic \<Rightarrow> (Panic, z)) = (Ok anchors, v')"
      "\<forall>a \<in> set found. from_candidates candidates a" for found x y z
    using that lexical_from [of te candidates terms MAX_ANCHORS]
    by (auto split: outcome.split_asm unit.split_asm if_split_asm)
  show ?thesis
  proof (cases "emb task")
    case None
    show ?thesis using assms fin [of "[]"] by (simp add: rank_pool_def fill None Let_def)
  next
    case (Some query)
    show ?thesis
    proof (cases "vo_search vo task query MAX_ANCHORS 50 v1")
      case (Inl hits)
      show ?thesis using assms fin [OF _ semantic_from [OF pos, of hits]]
        by (simp add: rank_pool_def fill Some Inl Let_def)
    qed (use assms in \<open>simp add: rank_pool_def fill Some Let_def\<close>)
  qed
qed

lemma candidate_pool_indexed:
  "(s, gist) \<in> set (candidate_pool te i terms) \<Longrightarrow>
     gist = gist_for_symbol s None \<and> (\<exists>q e. map_of (si_files i) q = Some e \<and> s \<in> set (fe_symbols e))"
proof -
  assume mem: "(s, gist) \<in> set (candidate_pool te i terms)"
  let ?syms = "\<lambda>path. case map_of (si_files i) (relative_to (si_root i) path) of Some e \<Rightarrow> fe_symbols e | None \<Rightarrow> []"
  have "s \<in> set (concat (map ?syms (indexed_paths i)))" "gist = gist_for_symbol s None"
    using mem unfolding candidate_pool_def set_map set_filter by blast+
  then obtain path where "s \<in> set (?syms path)" by auto
  then show ?thesis using \<open>gist = gist_for_symbol s None\<close>
    by (cases "map_of (si_files i) (relative_to (si_root i) path)") auto
qed

text \<open>
  C35. What retrieval returns is within both budgets and true: at most ten anchors of at most three
  hundred tokens in all, each with the locator, the gist and the kind of a symbol that is in the
  index now, whatever the embedder and the vector index answer.
\<close>

theorem anchors_within_budget:
  assumes "retrieve env vo te emb task (d, v) = (Ok anchors, d', v')"
  shows "length anchors \<le> MAX_ANCHORS \<and> sum_list (map anchor_tokens anchors) \<le> SUFFIX_TOKENS \<and>
    (\<forall>a \<in> set anchors. \<exists>s q e. map_of (si_files (ds_index d')) q = Some e \<and> s \<in> set (fe_symbols e) \<and>
       an_locator a = locator s \<and> an_gist a = gist_for_symbol s None \<and> an_kind a = sy_kind s)"
proof -
  obtain d1 where d1: "rescan_if_stale env d = Ok d1" using assms
    by (cases "rescan_if_stale env d") (auto simp: retrieve_def)
  let ?terms = "task_terms te task" and ?cs = "candidate_pool te (ds_index d1) (task_terms te task)"
  show ?thesis
  proof (cases "?terms = [] \<or> ?cs = []")
    case True
    then have "anchors = []" using assms d1 by (auto simp: retrieve_def Let_def split: if_splits)
    then show ?thesis by simp
  next
    case False
    obtain r v1 where rank: "rank_pool vo te emb ?cs ?terms task v = (r, v1)" by force
    then have "r = Ok anchors" "d' = d1" using assms d1 False by (auto simp: retrieve_def Let_def)
    with rank have "rank_pool vo te emb ?cs ?terms task v = (Ok anchors, v1)" by simp
    from rank_pool_Ok [OF this] show ?thesis
      using candidate_pool_indexed unfolding check_budget_Ok from_candidates_def \<open>d' = d1\<close> by fastforce
  qed
qed

lemma pool_locator_0: "pool_locator 0 = ''digest#0''"
  by code_simp

text \<open>An index of one file with one function, and a vector index that finds the first gist put in.\<close>

definition first_ops :: "(string list, unit) vector_ops" where
  "first_ops = \<lparr>vo_upsert = (\<lambda>l _ _ v. (True, l # v)), vo_remove = (\<lambda>l v. filter (\<lambda>x. x \<noteq> l) v),
     vo_search = (\<lambda>_ _ n _ v. Inl (take n (rev v)))\<rparr>"

definition run_symbol :: symbol where
  "run_symbol = \<lparr>sy_path = [''a.rs''], sy_language = Rust, sy_kind = Function, sy_name = ''run'',
     sy_parent = None, sy_start = 0, sy_end = 9, sy_line = 1\<rparr>"

definition run_digest :: digest_state where
  "run_digest = \<lparr>ds_root = [], ds_index = \<lparr>si_root = [], si_files = [([''a.rs''], \<lparr>fe_fingerprint = [], fe_symbols = [run_symbol]\<rparr>)]\<rparr>,
     ds_graph = graph_new, ds_last_scan_ms = 0, ds_rescan_secs = u64_max\<rparr>"

lemma anchors_within_budget_witness:
  "\<exists>anchors. retrieve test_digest_env first_ops \<lparr>te_lower = id, te_alnum = (\<lambda>_. True)\<rparr> (\<lambda>_. Some ()) ''run'' (run_digest, []) =
       (Ok anchors, run_digest, []) \<and>
     map an_locator anchors = [locator run_symbol] \<and> sum_list (map anchor_tokens anchors) \<le> SUFFIX_TOKENS"
proof -
  let ?te = "\<lparr>te_lower = id, te_alnum = (\<lambda>_. True)\<rparr>" and ?c = "(run_symbol, gist_for_symbol run_symbol None)"
  have terms: "task_terms ?te ''run'' = [''run'']" by (simp add: task_terms_def)
  have pool: "candidate_pool ?te (ds_index run_digest) [''run''] = [?c]"
    by (simp add: candidate_pool_def run_digest_def indexed_paths_def relative_to_def contains_def run_symbol_def strip_prefix_def)
  have tokens: "check_budget [anchor_of_symbol ?c 0] = Ok ()"
    by (simp add: check_budget_def anchor_tokens_def anchor_of_symbol_def run_symbol_def locator_def gist_for_symbol_def
        MAX_ANCHORS_def SUFFIX_TOKENS_def BYTES_PER_TOKEN_def) code_simp
  have "rank_pool first_ops ?te (\<lambda>_. Some ()) [?c] [''run''] ''run'' [] = (Ok [anchor_of_symbol ?c 0], [])"
    using tokens by (simp add: rank_pool_def first_ops_def pool_locator_0 drain_pool_def semantic_anchors_def MAX_ANCHORS_def Let_def
        split: unit.split)
  then have r: "retrieve test_digest_env first_ops ?te (\<lambda>_. Some ()) ''run'' (run_digest, []) =
      (Ok [anchor_of_symbol ?c 0], run_digest, [])"
    using terms pool by (simp add: retrieve_def rescan_if_stale_def run_digest_def Let_def)
  from anchors_within_budget [OF r] have "sum_list (map anchor_tokens [anchor_of_symbol ?c 0]) \<le> SUFFIX_TOKENS" by blast
  then show ?thesis using r by (intro exI [of _ "[anchor_of_symbol ?c 0]"]) (simp add: anchor_of_symbol_def)
qed

text \<open>
  An embedder that embeds gists and not the task leaves the pool in the index when the anchors are
  over budget: that exit is taken before the pool is drained.
\<close>

definition list_ops :: "(string list, unit) vector_ops" where
  "list_ops = \<lparr>vo_upsert = (\<lambda>l _ _ v. (True, l # v)), vo_remove = (\<lambda>l v. filter (\<lambda>x. x \<noteq> l) v),
     vo_search = (\<lambda>_ _ _ _ _. Inl [])\<rparr>"

lemma pool_left_behind:
  assumes "900 \<le> length (locator s)"
  shows "\<exists>tokens. rank_pool list_ops \<lparr>te_lower = id, te_alnum = (\<lambda>_. True)\<rparr> (\<lambda>t. if t = ''x'' then Some () else None)
    [(s, ''x'')] [''x''] ''task'' [] = (Err (OverBudget tokens SUFFIX_TOKENS), [''digest#0''])"
proof -
  let ?te = "\<lparr>te_lower = id, te_alnum = (\<lambda>_. True)\<rparr>"
  have score: "lexical_score ?te [(s, ''x'')] [''x''] ''x'' = 1"
    by (simp add: lexical_score_def count_matches.simps strip_prefix_def contains_def)
  have fb: "lexical_fallback ?te [(s, ''x'')] [''x''] MAX_ANCHORS = [anchor_of_symbol (s, ''x'') 0]"
    by (simp add: lexical_fallback_def score MAX_ANCHORS_def)
  have "300 < div_ceil (Suc (length (locator s))) 3"
    using assms div_ceil_upper [of 3 "Suc (length (locator s))"] by simp
  then have "check_budget [anchor_of_symbol (s, ''x'') 0] =
      Err (OverBudget (anchor_tokens (anchor_of_symbol (s, ''x'') 0)) SUFFIX_TOKENS)"
    by (simp add: check_budget_def anchor_tokens_def anchor_of_symbol_def MAX_ANCHORS_def SUFFIX_TOKENS_def BYTES_PER_TOKEN_def)
  then show ?thesis
    by (simp add: rank_pool_def list_ops_def fb Let_def pool_locator_0)
qed

end
