(* ===== verification/Vector_Codes.thy ===== *)
theory Vector_Codes
  imports Turn_Store
begin

text \<open>
  The arithmetic of \<open>crates/supra_vector/src/codes.rs\<close>: binary codes of one bit per dimension,
  their Hamming distance read eight bytes at a time, and the little-endian form of an embedding.
  An \<open>f32\<close> is its bit pattern, so comparison, finiteness and \<open>to_le_bytes\<close> are exact; only
  rounded arithmetic (\<open>+\<close>, \<open>*\<close> and the test on the magnitude) is a parameter.
\<close>

unbundle bit_operations_syntax

section \<open>Floats as bit patterns\<close>

type_synonym f32 = "32 word"

definition f32_magnitude :: "f32 \<Rightarrow> nat" where
  "f32_magnitude x = unat x mod 2 ^ 31"

definition f32_negative :: "f32 \<Rightarrow> bool" where
  "f32_negative x = (2 ^ 31 \<le> unat x)"

text \<open>The bit pattern of infinity: exponent all ones, no mantissa.\<close>

definition F32_INF :: nat where "F32_INF = 0x7F800000"

definition f32_is_nan :: "f32 \<Rightarrow> bool" where
  "f32_is_nan x = (F32_INF < f32_magnitude x)"

definition f32_is_finite :: "f32 \<Rightarrow> bool" where
  "f32_is_finite x = (f32_magnitude x < F32_INF)"

text \<open>Bit patterns of one sign are ordered as the numbers they stand for, and \<open>-0 = 0\<close>.\<close>

definition f32_rank :: "f32 \<Rightarrow> int" where
  "f32_rank x = (if f32_negative x then - int (f32_magnitude x) else int (f32_magnitude x))"

definition f32_gt :: "f32 \<Rightarrow> f32 \<Rightarrow> bool" where
  "f32_gt x y = (\<not> f32_is_nan x \<and> \<not> f32_is_nan y \<and> f32_rank y < f32_rank x)"

datatype ordering = Less | Equal | Greater

definition f32_partial_cmp :: "f32 \<Rightarrow> f32 \<Rightarrow> ordering option" where
  "f32_partial_cmp x y =
     (if f32_is_nan x \<or> f32_is_nan y then None
      else if f32_rank x < f32_rank y then Some Less
      else if f32_rank y < f32_rank x then Some Greater else Some Equal)"

text \<open>The rounded operations the code uses; \<open>fo_off_unit m\<close> is \<open>(m.sqrt() - 1.0).abs() > 1e-2\<close>
  and \<open>fo_sum_start\<close> the zero that \<open>Iterator::sum\<close> starts from.\<close>

record f32_ops =
  fo_add :: "f32 \<Rightarrow> f32 \<Rightarrow> f32"
  fo_mul :: "f32 \<Rightarrow> f32 \<Rightarrow> f32"
  fo_off_unit :: "f32 \<Rightarrow> bool"
  fo_sum_start :: f32

section \<open>Errors\<close>

text \<open>Each \<open>detail\<close> string of the code is the constructor of what it reports.\<close>

datatype degenerate =
    UnusableDims nat | EmptyModel | ThresholdNotFinite nat f32 | EmptyLocator
  | ComponentNotFinite nat f32 | ZeroVector | NotUnitLength f32

datatype vector_malformed =
    BlobLength nat nat | StoredNotFinite f32 nat | NoRowBehind int | FusedFromNoLane int
  | CodeWidth int nat nat

datatype vector_error =
    ModelMismatch string nat string nat
  | FrozenThresholdMismatch
  | WrongWidth nat nat
  | Degenerate degenerate
  | Malformed vector_malformed
  | NotFound string
  | VectorStore string
  | VectorSqlite string

fun is_index_damage :: "vector_error \<Rightarrow> bool" where
  "is_index_damage (Malformed _) = True"
| "is_index_damage (ModelMismatch _ _ _ _) = True"
| "is_index_damage FrozenThresholdMismatch = True"
| "is_index_damage _ = False"

section \<open>Chunks\<close>

text \<open>\<open>chunks_exact\<close> and its remainder; a chunk size of zero panics in Rust and is not asked for.\<close>

function chunks_exact :: "nat \<Rightarrow> 'a list \<Rightarrow> 'a list list" where
  "chunks_exact n xs = (if n = 0 \<or> length xs < n then [] else take n xs # chunks_exact n (drop n xs))"
  by auto
termination by (relation "measure (length \<circ> snd)") auto

declare chunks_exact.simps [simp del]

definition chunk_remainder :: "nat \<Rightarrow> 'a list \<Rightarrow> 'a list" where
  "chunk_remainder n xs = drop (n * (length xs div n)) xs"

lemma chunks_exact_short: "length xs < n \<Longrightarrow> chunks_exact n xs = []"
  by (simp add: chunks_exact.simps)

lemma chunks_exact_append:
  "0 < n \<Longrightarrow> length c = n \<Longrightarrow> chunks_exact n (c @ xs) = c # chunks_exact n xs"
  by (subst chunks_exact.simps) simp

lemma chunk_remainder_short: "length xs < n \<Longrightarrow> chunk_remainder n xs = xs"
  by (simp add: chunk_remainder_def)

lemma chunk_remainder_append:
  "0 < n \<Longrightarrow> length c = n \<Longrightarrow> chunk_remainder n (c @ xs) = chunk_remainder n xs"
proof -
  assume n: "0 < n" "length c = n"
  have "(n + length xs) div n = Suc (length xs div n)"
    using div_add_self1 [of n "length xs"] n(1) by simp
  then show ?thesis by (simp add: chunk_remainder_def n(2))
qed

text \<open>Every list is whole chunks followed by a short remainder.\<close>

lemma chunk_induct [case_names pos short chunk]:
  assumes "0 < n" "\<And>xs. length xs < n \<Longrightarrow> P xs"
    and "\<And>c xs. length c = n \<Longrightarrow> P xs \<Longrightarrow> P (c @ xs)"
  shows "P xs"
proof (induction "length xs" arbitrary: xs rule: less_induct)
  case less
  show ?case
  proof (cases "length xs < n")
    case False
    then have "P (take n xs @ drop n xs)" using assms(1) less by (intro assms(3)) auto
    then show ?thesis by simp
  qed (rule assms(2))
qed

lemma chunks_exact_concat:
  assumes "0 < n" "\<forall>c \<in> set cs. length c = n"
  shows "chunks_exact n (concat cs) = cs"
  using assms(2)
  by (induction cs) (simp_all add: assms(1) chunks_exact_append chunks_exact_short)

section \<open>Codes\<close>

definition set_bit_at :: "byte list \<Rightarrow> nat \<Rightarrow> byte list" where
  "set_bit_at code dimension =
     code[dimension div 8 := code ! (dimension div 8) OR push_bit (dimension mod 8) 1]"

definition encode_step :: "byte list \<Rightarrow> nat \<times> f32 \<times> f32 \<Rightarrow> byte list" where
  "encode_step code = (\<lambda>(dimension, value, limit_value).
     if f32_gt value limit_value then set_bit_at code dimension else code)"

definition encode :: "f32 list \<Rightarrow> f32 list \<Rightarrow> (byte list, vector_error) outcome" where
  "encode vector threshold =
     (if length vector \<noteq> length threshold then Err (WrongWidth (length threshold) (length vector))
      else Ok (foldl encode_step (replicate (div_ceil (length vector) 8) 0)
               (enumerate 0 (zip vector threshold))))"

text \<open>\<open>count_ones\<close>.\<close>

fun count_ones :: "nat \<Rightarrow> nat" where
  "count_ones n = (if n = 0 then 0 else n mod 2 + count_ones (n div 2))"

declare count_ones.simps [simp del]

definition WORD_BYTES :: nat where "WORD_BYTES = 8"

definition distance :: "byte list \<Rightarrow> byte list \<Rightarrow> nat" where
  "distance left right =
     sum_list (map (\<lambda>(a, b). count_ones (of_le_bytes a XOR of_le_bytes b))
       (zip (chunks_exact WORD_BYTES left) (chunks_exact WORD_BYTES right)))
     + sum_list (map (\<lambda>(a, b). count_ones (unat (a XOR b)))
       (zip (chunk_remainder WORD_BYTES left) (chunk_remainder WORD_BYTES right)))"

definition LANES :: nat where "LANES = 4"

text \<open>\<open>similarity\<close>: four accumulators over chunks of four, their sum, then the remainder.\<close>

definition similarity :: "f32_ops \<Rightarrow> f32 list \<Rightarrow> f32 list \<Rightarrow> f32" where
  "similarity F left right =
     (let step = (\<lambda>partial (a, b). map (\<lambda>(slot, x, y). fo_add F slot (fo_mul F x y)) (zip partial (zip a b)));
          partial = foldl step (replicate LANES 0) (zip (chunks_exact LANES left) (chunks_exact LANES right));
          start = foldl (fo_add F) (fo_sum_start F) partial
      in foldl (\<lambda>sum (x, y). fo_add F sum (fo_mul F x y)) start
           (zip (chunk_remainder LANES left) (chunk_remainder LANES right)))"

text \<open>The loop of \<open>validate\<close>: the first component that is not finite, or the squared magnitude.\<close>

fun validate_from :: "f32_ops \<Rightarrow> nat \<Rightarrow> f32 \<Rightarrow> f32 list \<Rightarrow> (f32, vector_error) outcome" where
  "validate_from F i magnitude_sq [] = Ok magnitude_sq"
| "validate_from F i magnitude_sq (value # rest) =
     (if \<not> f32_is_finite value then Err (Degenerate (ComponentNotFinite i value))
      else validate_from F (Suc i) (fo_add F magnitude_sq (fo_mul F value value)) rest)"

definition validate :: "f32_ops \<Rightarrow> f32 list \<Rightarrow> nat \<Rightarrow> (unit, vector_error) outcome" where
  "validate F vector dims =
     (if length vector \<noteq> dims then Err (WrongWidth dims (length vector))
      else bind_outcome (validate_from F 0 0 vector) (\<lambda>magnitude_sq.
        if f32_rank magnitude_sq = 0 then Err (Degenerate ZeroVector)
        else if fo_off_unit F magnitude_sq then Err (Degenerate (NotUnitLength magnitude_sq))
        else Ok ()))"

definition encode_embedding :: "f32 list \<Rightarrow> byte list" where
  "encode_embedding vector = concat (map (\<lambda>value. le_bytes 4 (unat value)) vector)"

definition decode_embedding :: "byte list \<Rightarrow> nat \<Rightarrow> (f32 list, vector_error) outcome" where
  "decode_embedding bytes dims =
     (if length bytes \<noteq> dims * 4 then Err (Malformed (BlobLength (length bytes) dims))
      else
        let vector = map (\<lambda>chunk. word_of_nat (of_le_bytes chunk)) (chunks_exact 4 bytes)
        in case List.find (\<lambda>(i, value). \<not> f32_is_finite value) (enumerate 0 vector) of
             Some (i, value) \<Rightarrow> Err (Malformed (StoredNotFinite value i))
           | None \<Rightarrow> Ok vector)"

section \<open>Embeddings read back\<close>

lemma length_encode_embedding [simp]: "length (encode_embedding v) = 4 * length v"
  by (induction v) (simp_all add: encode_embedding_def)

lemma word_of_le_bytes_4: "word_of_nat (of_le_bytes (le_bytes 4 (unat (x :: f32)))) = x"
proof -
  have "unat x < 256 ^ 4" using unsigned_less [of x, where 'a = nat] by simp
  then show ?thesis by (simp add: of_le_bytes_le_bytes)
qed

lemma decode_chunks: "map (\<lambda>chunk. word_of_nat (of_le_bytes chunk)) (chunks_exact 4 (encode_embedding v)) = v"
  by (simp add: encode_embedding_def chunks_exact_concat word_of_le_bytes_4 comp_def)

lemma find_enumerate_None:
  "List.find (\<lambda>(i, x). P x) (enumerate n xs) = None \<longleftrightarrow> (\<forall>x \<in> set xs. \<not> P x)"
  by (induction xs arbitrary: n) auto

lemma decode_encode: "list_all f32_is_finite v \<Longrightarrow> decode_embedding (encode_embedding v) (length v) = Ok v"
  using find_enumerate_None [of "\<lambda>x. \<not> f32_is_finite x" 0 v]
  by (simp add: decode_embedding_def decode_chunks list_all_iff)

lemma decode_embedding_Ok:
  "decode_embedding bytes dims = Ok v \<Longrightarrow> length bytes = dims * 4 \<and> list_all f32_is_finite v"
  using find_enumerate_None [of "\<lambda>x. \<not> f32_is_finite x" 0
      "map (\<lambda>chunk. word_of_nat (of_le_bytes chunk)) (chunks_exact 4 bytes)"]
  by (auto simp: decode_embedding_def Let_def list_all_iff split: if_splits option.splits prod.splits)

lemma encode_embedding_inj: "encode_embedding v = encode_embedding w \<longleftrightarrow> v = w"
  by (metis decode_chunks)


section \<open>Bits of a code\<close>

lemma count_ones_step: "count_ones n = n mod 2 + count_ones (n div 2)"
  by (cases "n = 0") (simp_all add: count_ones.simps [of n])

lemma count_ones_0 [simp]: "count_ones 0 = 0"
  by (simp add: count_ones.simps)

lemma count_ones_split: "x < 2 ^ k \<Longrightarrow> count_ones (x + 2 ^ k * y) = count_ones x + count_ones y"
proof (induction k arbitrary: x)
  case (Suc k)
  have "(x + 2 ^ Suc k * y) div 2 = x div 2 + 2 ^ k * y" "(x + 2 ^ Suc k * y) mod 2 = x mod 2"
    by (simp_all add: mult.assoc)
  moreover have "x div 2 < 2 ^ k" using Suc.prems by simp
  ultimately show ?case
    using Suc.IH [of "x div 2"] count_ones_step [of "x + 2 ^ Suc k * y"] count_ones_step [of x] by simp
qed simp

lemma xor_split_nat:
  fixes a b m n :: nat
  shows "a < 2 ^ k \<Longrightarrow> b < 2 ^ k \<Longrightarrow> (a + 2 ^ k * m) XOR (b + 2 ^ k * n) = (a XOR b) + 2 ^ k * (m XOR n)"
proof (induction k arbitrary: a b)
  case (Suc k)
  have half: "(a + 2 ^ Suc k * m) div 2 = a div 2 + 2 ^ k * m" "odd (a + 2 ^ Suc k * m) = odd a"
    "(b + 2 ^ Suc k * n) div 2 = b div 2 + 2 ^ k * n" "odd (b + 2 ^ Suc k * n) = odd b"
    by (simp_all add: mult.assoc)
  have "a div 2 < 2 ^ k" "b div 2 < 2 ^ k" using Suc.prems by simp_all
  then show ?case
    using Suc.IH [of "a div 2" "b div 2"] half
      xor_rec [of "a + 2 ^ Suc k * m" "b + 2 ^ Suc k * n"] xor_rec [of a b] by simp
qed simp

lemma xor_less_nat:
  fixes a b :: nat
  assumes "a < 2 ^ k" "b < 2 ^ k"
  shows "a XOR b < 2 ^ k"
  using assms by (metis take_bit_nat_eq_self take_bit_nat_less_exp take_bit_xor)

lemma count_ones_bytes:
  "length as = length bs \<Longrightarrow>
     count_ones (of_le_bytes as XOR of_le_bytes bs) =
     sum_list (map (\<lambda>(a, b). count_ones (unat (a XOR b))) (zip as bs))"
proof (induction as bs rule: list_induct2)
  case (Cons a as b bs)
  have byte: "unat c < 2 ^ 8" for c :: byte using unsigned_less [of c, where 'a = nat] by simp
  have "of_le_bytes (a # as) XOR of_le_bytes (b # bs) =
      (unat a XOR unat b) + 2 ^ 8 * (of_le_bytes as XOR of_le_bytes bs)"
    using xor_split_nat [OF byte [of a] byte [of b], of "of_le_bytes as" "of_le_bytes bs"] by simp
  then have "count_ones (of_le_bytes (a # as) XOR of_le_bytes (b # bs)) =
      count_ones (unat a XOR unat b) + count_ones (of_le_bytes as XOR of_le_bytes bs)"
    using count_ones_split [OF xor_less_nat [OF byte byte]] by simp
  then show ?case using Cons.IH by (simp add: unsigned_xor_eq)
qed simp

text \<open>Reading whole words and the tail is reading every byte.\<close>

lemma distance_bytes:
  assumes "length left = length right"
  shows "distance left right = sum_list (map (\<lambda>(a, b). count_ones (unat (a XOR b))) (zip left right))"
  using assms
proof (induction left arbitrary: right rule: chunk_induct [of WORD_BYTES])
  case pos
  show ?case by (simp add: WORD_BYTES_def)
next
  case (short xs)
  then show ?case by (simp add: distance_def chunks_exact_short chunk_remainder_short)
next
  case (chunk c xs)
  have pos: "0 < WORD_BYTES" by (simp add: WORD_BYTES_def)
  obtain d ys where right: "right = d @ ys" "length d = WORD_BYTES" "length ys = length xs"
    using chunk.hyps chunk.prems that [of "take WORD_BYTES right" "drop WORD_BYTES right"] by simp
  have "distance (c @ xs) (d @ ys) = count_ones (of_le_bytes c XOR of_le_bytes d) + distance xs ys"
    by (simp add: distance_def chunks_exact_append chunk_remainder_append pos chunk.hyps right)
  then show ?case
    using chunk.IH [of ys] chunk.hyps right by (simp add: count_ones_bytes)
qed

definition code_bit :: "byte list \<Rightarrow> nat \<Rightarrow> bool" where
  "code_bit code i = bit (code ! (i div 8)) (i mod 8)"

lemma finite_bits_nat: "finite {i. bit (n :: nat) i}"
proof (rule finite_subset)
  show "{i. bit n i} \<subseteq> {..n}"
  proof
    fix i assume "i \<in> {i. bit n i}"
    then have "2 ^ i \<le> n" by (auto simp: bit_iff_odd dest: odd_pos intro: ccontr)
    then show "i \<in> {..n}" using order_less_le_trans [OF less_exp, of i n] by simp
  qed
qed simp

lemma count_ones_card: "count_ones n = card {i. bit n i}"
proof (induction n rule: count_ones.induct)
  case (1 n)
  show ?case
  proof (cases "n = 0")
    case False
    have "{i. bit n i} = {i. i = 0 \<and> odd n} \<union> Suc ` {i. bit (n div 2) i}"
      by (auto simp: bit_Suc image_iff intro: gr0_conv_Suc [THEN iffD1]) (metis bit_0 bit_Suc not0_implies_Suc)+
    moreover have "card {i. i = (0 :: nat) \<and> odd n} = n mod 2" by (simp add: mod2_eq_if)
    ultimately show ?thesis
      using 1 False count_ones_step [of n]
      by (simp add: card_Un_disjoint finite_bits_nat card_image disjoint_iff)
  qed simp
qed


lemma bits_sum_card:
  "length left = length right \<Longrightarrow>
     sum_list (map (\<lambda>(a, b). count_ones (unat (a XOR b))) (zip left right)) =
     card {i. i < 8 * length left \<and> code_bit left i \<noteq> code_bit right i}"
proof (induction left right rule: list_induct2)
  case (Cons a as b bs)
  let ?D = "\<lambda>l r. {i. i < 8 * length l \<and> code_bit l i \<noteq> code_bit r i}"
  have low: "{i. bit (unat (a XOR b)) i} = {i. i < 8 \<and> bit a i \<noteq> bit b i}"
    by (auto simp: bit_unsigned_iff bit_xor_iff dest: bit_imp_le_length)
  have "?D (a # as) (b # bs) = {i. i < 8 \<and> bit a i \<noteq> bit b i} \<union> (\<lambda>i. i + 8) ` ?D as bs"
  proof (rule set_eqI)
    fix i
    show "i \<in> ?D (a # as) (b # bs) \<longleftrightarrow> i \<in> {i. i < 8 \<and> bit a i \<noteq> bit b i} \<union> (\<lambda>i. i + 8) ` ?D as bs"
    proof (cases "i < 8")
      case False
      then obtain j where "i = j + 8" using le_Suc_ex [of 8 i] by (auto simp: add.commute)
      moreover have "(j + 8) div 8 = Suc (j div 8)" "(j + 8) mod 8 = j mod 8" by simp_all
      ultimately show ?thesis by (simp only: code_bit_def nth_Cons_Suc) (auto simp: code_bit_def)
    qed (auto simp: code_bit_def)
  qed
  then have "card (?D (a # as) (b # bs)) = card {i. i < 8 \<and> bit a i \<noteq> bit b i} + card (?D as bs)"
    using card_Un_disjoint [of "{i. i < 8 \<and> bit a i \<noteq> bit b i}" "(\<lambda>i. i + 8) ` ?D as bs"]
    by (auto simp: card_image)
  then show ?case using Cons.IH by (simp add: count_ones_card low)
qed simp

lemma distance_card:
  "length left = length right \<Longrightarrow>
     distance left right = card {i. i < 8 * length left \<and> code_bit left i \<noteq> code_bit right i}"
  by (simp add: distance_bytes bits_sum_card)

lemma length_set_bit_at [simp]: "length (set_bit_at code d) = length code"
  by (simp add: set_bit_at_def)

lemma code_bit_set_bit_at:
  "d < 8 * length code \<Longrightarrow> i < 8 * length code \<Longrightarrow> code_bit (set_bit_at code d) i = (i = d \<or> code_bit code i)"
proof -
  assume "d < 8 * length code" "i < 8 * length code"
  then have div: "d div 8 < length code" "i div 8 < length code" by (simp_all add: less_mult_imp_div_less)
  have "bit (push_bit (d mod 8) 1 :: byte) (i mod 8) \<longleftrightarrow> i mod 8 = d mod 8"
    by (auto simp: bit_exp_iff possible_bit_def)
  moreover have "i = d \<longleftrightarrow> i div 8 = d div 8 \<and> i mod 8 = d mod 8" by (metis div_mult_mod_eq)
  ultimately show ?thesis
    using div by (auto simp: code_bit_def set_bit_at_def nth_list_update bit_or_iff)
qed

text \<open>The loop of \<open>encode\<close> sets exactly the bits whose value is above its threshold.\<close>

lemma encode_loop:
  "n + length xs \<le> 8 * length code \<Longrightarrow> i < 8 * length code \<Longrightarrow>
     length (foldl encode_step code (enumerate n xs)) = length code \<and>
     code_bit (foldl encode_step code (enumerate n xs)) i =
       (code_bit code i \<or> (n \<le> i \<and> i < n + length xs \<and> f32_gt (fst (xs ! (i - n))) (snd (xs ! (i - n)))))"
proof (induction xs arbitrary: n code)
  case (Cons x xs)
  let ?code = "encode_step code (n, x)"
  have len: "length ?code = length code" by (simp add: encode_step_def split: prod.splits)
  have bit: "code_bit ?code i = (code_bit code i \<or> (i = n \<and> f32_gt (fst x) (snd x)))"
    using Cons.prems by (auto simp: encode_step_def code_bit_set_bit_at split: prod.splits)
  have nth: "n \<le> i \<Longrightarrow> (x # xs) ! (i - n) = (if i = n then x else xs ! (i - Suc n))"
    using Suc_diff_Suc [of n i] by (cases "i = n") (simp_all flip: Suc_diff_Suc)
  have "Suc n + length xs \<le> 8 * length ?code" "i < 8 * length ?code"
    using Cons.prems by (simp_all add: len)
  then have IH: "length (foldl encode_step ?code (enumerate (Suc n) xs)) = length code \<and>
     code_bit (foldl encode_step ?code (enumerate (Suc n) xs)) i =
       (code_bit ?code i \<or> (Suc n \<le> i \<and> i < Suc n + length xs \<and>
          f32_gt (fst (xs ! (i - Suc n))) (snd (xs ! (i - Suc n)))))"
    using Cons.IH [of "Suc n" ?code] len by simp
  show ?case
  proof (cases "n \<le> i")
    case True
    then show ?thesis using IH bit nth by (cases "i = n") auto
  qed (use IH bit in auto)
qed auto

lemma encode_Ok:
  assumes "length v = length t"
  obtains code where "encode v t = Ok code" "length code = div_ceil (length v) 8"
    "\<And>i. i < 8 * length code \<Longrightarrow> code_bit code i = (i < length v \<and> f32_gt (v ! i) (t ! i))"
proof
  let ?code = "foldl encode_step (replicate (div_ceil (length v) 8) 0) (enumerate 0 (zip v t))"
  have room: "0 + length (zip v t) \<le> 8 * length (replicate (div_ceil (length v) 8) (0 :: byte))"
    using div_ceil_upper [of 8 "length v"] assms by simp
  show "encode v t = Ok ?code" using assms by (simp add: encode_def)
  show len: "length ?code = div_ceil (length v) 8"
  proof (cases "length v = 0")
    case False
    then have "0 < div_ceil (length v) 8" using room assms by (cases "div_ceil (length v) 8") auto
    then show ?thesis using encode_loop [OF room, of 0] by simp
  qed (use assms in simp)
  fix i assume "i < 8 * length ?code"
  then have i: "i < 8 * div_ceil (length v) 8" by (simp only: len)
  then show "code_bit ?code i = (i < length v \<and> f32_gt (v ! i) (t ! i))"
    using encode_loop [OF room, of i] assms by (auto simp: code_bit_def less_mult_imp_div_less)
qed

lemma encode_length: "encode v t = Ok code \<Longrightarrow> length v = length t \<and> length code = div_ceil (length v) 8"
proof -
  assume e: "encode v t = Ok code"
  then have len: "length v = length t" by (simp add: encode_def split: if_splits)
  obtain c where "encode v t = Ok c" "length c = div_ceil (length v) 8" using encode_Ok [OF len] by metis
  then show ?thesis using e len by simp
qed

section \<open>Properties\<close>

text \<open>The distance between two codes, read eight bytes at a time with a byte-wise tail, is the
  number of dimensions on which the two vectors fall on different sides of the threshold; vectors
  of another width than the threshold have no code.\<close>

theorem distance_counts_disagreements:
  "length v = length t \<and> length w = length t \<longrightarrow>
     (\<exists>a b. encode v t = Ok a \<and> encode w t = Ok b \<and>
        distance a b = card {i. i < length t \<and> f32_gt (v ! i) (t ! i) \<noteq> f32_gt (w ! i) (t ! i)})"
proof
  assume "length v = length t \<and> length w = length t"
  then have v: "length v = length t" and w: "length w = length t" by auto
  obtain a where a: "encode v t = Ok a" "length a = div_ceil (length v) 8"
    "\<And>i. i < 8 * length a \<Longrightarrow> code_bit a i = (i < length v \<and> f32_gt (v ! i) (t ! i))"
    using encode_Ok [OF v] by metis
  obtain b where b: "encode w t = Ok b" "length b = div_ceil (length w) 8"
    "\<And>i. i < 8 * length b \<Longrightarrow> code_bit b i = (i < length w \<and> f32_gt (w ! i) (t ! i))"
    using encode_Ok [OF w] by metis
  have len: "length a = length b" "length t \<le> 8 * length a"
    using a(2) b(2) v w div_ceil_upper [of 8 "length v"] by simp_all
  have "{i. i < 8 * length a \<and> code_bit a i \<noteq> code_bit b i} =
      {i. i < length t \<and> f32_gt (v ! i) (t ! i) \<noteq> f32_gt (w ! i) (t ! i)}"
    using len v w by (auto simp: a(3) b(3))
  then show "\<exists>a b. encode v t = Ok a \<and> encode w t = Ok b \<and>
      distance a b = card {i. i < length t \<and> f32_gt (v ! i) (t ! i) \<noteq> f32_gt (w ! i) (t ! i)}"
    using a(1) b(1) distance_card [OF len(1)] by auto
qed

lemma distance_counts_disagreements_witness:
  "let t = [0, 0, 0, 0, 0, 0, 0, 0, 0x3F800000]; v = [1, 0, 0, 0, 0, 0, 0, 0, 0x40000000]; w = replicate 9 0 in
   \<exists>a b. encode v t = Ok a \<and> encode w t = Ok b \<and>
     distance a b = card {i. i < length t \<and> f32_gt (v ! i) (t ! i) \<noteq> f32_gt (w ! i) (t ! i)}"
  unfolding Let_def by (rule distance_counts_disagreements [rule_format]) simp

end
