(* ===== verification/Vector_Search.thy ===== *)
theory Vector_Search
  imports Vector_Codes
begin

text \<open>
  \<open>crates/supra_vector/src/search.rs\<close>: the resident code table with its swap-remove, the scan for
  the nearest codes, the exact ordering behind it and reciprocal rank fusion. Slots are \<open>i64\<close> values.
\<close>

section \<open>The code table\<close>

text \<open>The positions, a \<open>HashMap\<close>, are a map; the code buffer is one flat list of bytes.\<close>

record code_table =
  ct_stride :: nat
  ct_data :: "byte list"
  ct_slots :: "int list"
  ct_positions :: "int \<rightharpoonup> nat"

definition code_table_new :: "nat \<Rightarrow> code_table" where
  "code_table_new stride =
     \<lparr> ct_stride = stride, ct_data = [], ct_slots = [], ct_positions = Map.empty \<rparr>"

definition ct_len :: "code_table \<Rightarrow> nat" where
  "ct_len t = length (ct_slots t)"

definition ct_is_empty :: "code_table \<Rightarrow> bool" where
  "ct_is_empty t = (ct_slots t = [])"

definition ct_contains :: "code_table \<Rightarrow> int \<Rightarrow> bool" where
  "ct_contains t slot = (ct_positions t slot \<noteq> None)"

text \<open>\<open>copy_from_slice\<close> at one position of the buffer.\<close>

definition write_code :: "nat \<Rightarrow> nat \<Rightarrow> byte list \<Rightarrow> byte list \<Rightarrow> byte list" where
  "write_code stride position code data =
     take (position * stride) data @ code @ drop ((position + 1) * stride) data"

definition code_at :: "code_table \<Rightarrow> nat \<Rightarrow> byte list" where
  "code_at t position = take (ct_stride t) (drop (position * ct_stride t) (ct_data t))"

definition ct_upsert :: "int \<Rightarrow> byte list \<Rightarrow> code_table \<Rightarrow> bool \<times> code_table" where
  "ct_upsert slot code t =
     (if length code \<noteq> ct_stride t then (False, t)
      else case ct_positions t slot of
        Some position \<Rightarrow>
          (True, t\<lparr> ct_data := write_code (ct_stride t) position code (ct_data t) \<rparr>)
      | None \<Rightarrow>
          (True, t\<lparr> ct_positions := (ct_positions t)(slot \<mapsto> length (ct_slots t)),
                    ct_slots := ct_slots t @ [slot], ct_data := ct_data t @ code \<rparr>))"

definition ct_remove :: "int \<Rightarrow> code_table \<Rightarrow> bool \<times> code_table" where
  "ct_remove slot t =
     (case ct_positions t slot of
        None \<Rightarrow> (False, t)
      | Some position \<Rightarrow>
          let positions = (ct_positions t)(slot := None);
              last_at = length (ct_slots t) - 1;
              moved = ct_slots t ! last_at;
              (data, slots, positions) =
                (if position \<noteq> last_at
                 then (write_code (ct_stride t) position
                         (take (ct_stride t) (drop (last_at * ct_stride t) (ct_data t))) (ct_data t),
                       (ct_slots t)[position := moved], positions(moved \<mapsto> position))
                 else (ct_data t, ct_slots t, positions))
          in (True, t\<lparr> ct_positions := positions, ct_slots := butlast slots,
                       ct_data := take (last_at * ct_stride t) data \<rparr>))"

definition ct_clear :: "code_table \<Rightarrow> code_table" where
  "ct_clear t = t\<lparr> ct_data := [], ct_slots := [], ct_positions := Map.empty \<rparr>"

record candidate =
  ca_distance :: nat
  ca_slot :: int

definition candidate_key :: "candidate \<Rightarrow> nat \<times> int" where
  "candidate_key c = (ca_distance c, ca_slot c)"

text \<open>
  \<open>select_nth_unstable\<close>, \<open>truncate\<close> and the final sort keep the smallest keys in order, and the
  keys are distinct. \<open>chunks_exact(0)\<close> panics.
\<close>

definition nearest :: "code_table \<Rightarrow> byte list \<Rightarrow> nat \<Rightarrow> (candidate list, 'e) outcome" where
  "nearest t query width =
     (if width = 0 \<or> ct_is_empty t \<or> length query \<noteq> ct_stride t then Ok []
      else if ct_stride t = 0 then Panic
      else
        let scored = map (\<lambda>(code, slot). \<lparr> ca_distance = distance query code, ca_slot = slot \<rparr>)
                       (zip (chunks_exact (ct_stride t) (ct_data t)) (ct_slots t));
            keep = min width (length scored)
        in Ok (take keep (sort_key candidate_key scored)))"

section \<open>Exact ordering\<close>

record scored =
  sc_slot :: int
  sc_similarity :: f32

definition cmp_slot :: "int \<Rightarrow> int \<Rightarrow> ordering" where
  "cmp_slot a b = (if a < b then Less else if b < a then Greater else Equal)"

fun ordering_then :: "ordering \<Rightarrow> ordering \<Rightarrow> ordering" where
  "ordering_then Equal other = other"
| "ordering_then first other = first"

definition cmp_scored :: "scored \<Rightarrow> scored \<Rightarrow> ordering" where
  "cmp_scored left right =
     ordering_then
       (case f32_partial_cmp (sc_similarity right) (sc_similarity left) of Some o1 \<Rightarrow> o1 | None \<Rightarrow> Equal)
       (cmp_slot (sc_slot left) (sc_slot right))"

text \<open>
  \<open>sort_by\<close> as a stable insertion; where the comparison is a total order (no \<open>NaN\<close>) every sort
  gives this result.
\<close>

fun insert_by :: "('a \<Rightarrow> 'a \<Rightarrow> ordering) \<Rightarrow> 'a \<Rightarrow> 'a list \<Rightarrow> 'a list" where
  "insert_by cmp x [] = [x]"
| "insert_by cmp x (y # ys) = (if cmp x y = Greater then y # insert_by cmp x ys else x # y # ys)"

definition sort_by_cmp :: "('a \<Rightarrow> 'a \<Rightarrow> ordering) \<Rightarrow> 'a list \<Rightarrow> 'a list" where
  "sort_by_cmp cmp xs = foldr (insert_by cmp) xs []"

definition order_exact :: "scored list \<Rightarrow> scored list" where
  "order_exact xs = sort_by_cmp cmp_scored xs"

section \<open>Reciprocal rank fusion\<close>

definition RRF_K :: nat where "RRF_K = 60"
definition MAX_FUSION_DEPTH :: nat where "MAX_FUSION_DEPTH = 1000"
definition RRF_SCALE :: nat where "RRF_SCALE = 10000000"

record lane_rank =
  lr_lane :: nat
  lr_rank :: nat

record fused =
  fu_slot :: int
  fu_score :: nat
  fu_lanes :: "lane_rank list"

definition contribution :: "nat \<Rightarrow> nat" where
  "contribution rank = RRF_SCALE div (RRF_K + rank)"

type_synonym fusion = "fused list \<times> (int \<rightharpoonup> nat)"

definition fuse_one :: "nat \<Rightarrow> fusion \<Rightarrow> nat \<times> int \<Rightarrow> fusion" where
  "fuse_one lane st ix =
     (let (acc, seen) = st; (index, slot) = ix;
          rank = index + 1; entry = \<lparr> lr_lane = lane, lr_rank = rank \<rparr>
      in case seen slot of
           Some position \<Rightarrow>
             (acc[position := (acc ! position)
                \<lparr> fu_score := fu_score (acc ! position) + contribution rank,
                  fu_lanes := fu_lanes (acc ! position) @ [entry] \<rparr>], seen)
         | None \<Rightarrow>
             (acc @ [\<lparr> fu_slot = slot, fu_score = contribution rank, fu_lanes = [entry] \<rparr>],
              seen(slot \<mapsto> length acc)))"

definition fuse_lane :: "fusion \<Rightarrow> nat \<times> int list \<Rightarrow> fusion" where
  "fuse_lane st ln = foldl (fuse_one (fst ln)) st (enumerate 0 (snd ln))"

definition cmp_fused :: "fused \<Rightarrow> int \<times> int" where
  "cmp_fused f = (- int (fu_score f), fu_slot f)"

definition fuse :: "int list list \<Rightarrow> fused list" where
  "fuse lanes = sort_key cmp_fused (fst (foldl fuse_lane ([], Map.empty) (enumerate 0 lanes)))"

section \<open>The table as a map from slots to codes\<close>

lemma concat_take_chunks: "\<forall>c \<in> set cs. length c = n \<Longrightarrow> take (k * n) (concat cs) = concat (take k cs)"
  by (induction cs arbitrary: k) (auto simp: take_Cons split: nat.splits)

lemma concat_drop_chunks: "\<forall>c \<in> set cs. length c = n \<Longrightarrow> drop (k * n) (concat cs) = concat (drop k cs)"
  by (induction cs arbitrary: k) (auto simp: drop_Cons split: nat.splits)

lemma length_concat_chunks: "\<forall>c \<in> set cs. length c = n \<Longrightarrow> length (concat cs) = length cs * n"
  by (induction cs) auto

lemma chunk_of_concat:
  "\<forall>c \<in> set cs. length c = n \<Longrightarrow> p < length cs \<Longrightarrow> take n (drop (p * n) (concat cs)) = cs ! p"
  by (simp add: concat_drop_chunks Cons_nth_drop_Suc [symmetric])

lemma write_code_concat:
  assumes "\<forall>c \<in> set cs. length c = n" "p < length cs"
  shows "write_code n p code (concat cs) = concat (cs[p := code])"
  using concat_take_chunks [OF assms(1), of p] concat_drop_chunks [OF assms(1), of "p + 1"]
  by (simp add: write_code_def upd_conv_take_nth_drop [OF assms(2)])

text \<open>The three views agree: the buffer is the codes in slot order, the map inverts the slots.\<close>

definition ct_rep :: "code_table \<Rightarrow> byte list list \<Rightarrow> bool" where
  "ct_rep t cs \<longleftrightarrow>
     ct_data t = concat cs \<and> length cs = length (ct_slots t) \<and> (\<forall>c \<in> set cs. length c = ct_stride t) \<and>
     distinct (ct_slots t) \<and>
     (\<forall>s p. ct_positions t s = Some p \<longleftrightarrow> p < length (ct_slots t) \<and> ct_slots t ! p = s)"

definition ct_inv :: "code_table \<Rightarrow> bool" where
  "ct_inv t \<longleftrightarrow> (\<exists>cs. ct_rep t cs)"

definition ct_codes :: "code_table \<Rightarrow> int \<rightharpoonup> byte list" where
  "ct_codes t slot = map_option (code_at t) (ct_positions t slot)"

lemma ct_rep_codes:
  "ct_rep t cs \<Longrightarrow> ct_codes t s = Some c \<longleftrightarrow> (\<exists>p < length (ct_slots t). ct_slots t ! p = s \<and> cs ! p = c)"
  by (auto simp: ct_rep_def ct_codes_def code_at_def chunk_of_concat)

lemma option_ext: "(\<And>y. a = Some y \<longleftrightarrow> b = Some y) \<Longrightarrow> a = b"
  by (cases a; cases b) auto

lemma ct_rep_map:
  assumes "ct_rep t cs"
  shows "ct_codes t = map_of (zip (ct_slots t) cs)"
proof (rule ext, rule option_ext)
  fix s c
  have "distinct (map fst (zip (ct_slots t) cs))" using assms by (simp add: ct_rep_def)
  then show "ct_codes t s = Some c \<longleftrightarrow> map_of (zip (ct_slots t) cs) s = Some c"
    using assms by (auto simp: ct_rep_codes map_of_eq_Some_iff in_set_zip ct_rep_def)
qed

lemma code_table_new_rep: "ct_rep (code_table_new stride) []"
  by (simp add: ct_rep_def code_table_new_def)

lemma ct_clear_rep: "ct_rep (ct_clear t) []"
  by (simp add: ct_rep_def ct_clear_def)

lemma map_add_single: "M k = None \<Longrightarrow> [k \<mapsto> v] ++ M = M(k \<mapsto> v)"
  by (auto simp: map_add_def fun_eq_iff split: option.split)

lemma ct_upsert_rep:
  assumes rep: "ct_rep t cs" and len: "length code = ct_stride t"
  shows "ct_upsert slot code t = (True, snd (ct_upsert slot code t))"
    and "\<exists>cs'. ct_rep (snd (ct_upsert slot code t)) cs'"
    and "ct_codes (snd (ct_upsert slot code t)) = (ct_codes t)(slot \<mapsto> code)"
proof -
  let ?t = "snd (ct_upsert slot code t)"
  show "ct_upsert slot code t = (True, ?t)" using len by (simp add: ct_upsert_def split: option.split)
  note r = rep [unfolded ct_rep_def]
  from r have pos: "\<And>s p. ct_positions t s = Some p \<longleftrightarrow> p < length (ct_slots t) \<and> ct_slots t ! p = s" by blast
  from r have sizes: "length cs = length (ct_slots t)" "\<forall>c \<in> set cs. length c = ct_stride t"
    "distinct (ct_slots t)" "ct_data t = concat cs" by simp_all
  have "\<exists>cs'. ct_rep ?t cs' \<and> ct_codes ?t = (ct_codes t)(slot \<mapsto> code)"
  proof (cases "ct_positions t slot")
    case None
    have notin: "slot \<notin> set (ct_slots t)" using None pos by (metis in_set_conv_nth option.distinct(1))
    have t: "?t = t\<lparr> ct_positions := (ct_positions t)(slot \<mapsto> length (ct_slots t)),
                    ct_slots := ct_slots t @ [slot], ct_data := ct_data t @ code \<rparr>"
      using None len by (simp add: ct_upsert_def)
    have "((ct_positions t)(slot \<mapsto> length (ct_slots t))) s = Some p \<longleftrightarrow>
        p < length (ct_slots t @ [slot]) \<and> (ct_slots t @ [slot]) ! p = s" for s p
    proof (cases "p = length (ct_slots t)")
      case False
      have "s = slot \<Longrightarrow> \<not> (p < length (ct_slots t) \<and> ct_slots t ! p = s)" using notin by auto
      then show ?thesis using False by (cases "s = slot") (auto simp: nth_append pos)
    qed (use pos [of s p] in auto)
    then have "ct_rep ?t (cs @ [code])" using sizes notin len by (simp add: t ct_rep_def ball_Un)
    moreover have "map_of (zip (ct_slots ?t) (cs @ [code])) = (map_of (zip (ct_slots t) cs))(slot \<mapsto> code)"
    proof -
      have "map_of (zip (ct_slots t) cs) slot = None" using notin sizes by (simp add: map_of_zip_is_None)
      from map_add_single [where M = "map_of (zip (ct_slots t) cs)", OF this]
      show ?thesis using sizes by (simp add: t)
    qed
    ultimately show ?thesis using ct_rep_map [OF rep] ct_rep_map by metis
  next
    case (Some p)
    then have p: "p < length (ct_slots t)" "ct_slots t ! p = slot" using pos by simp_all
    have t: "?t = t\<lparr> ct_data := write_code (ct_stride t) p code (ct_data t) \<rparr>"
      using Some len by (simp add: ct_upsert_def)
    have rep': "ct_rep ?t (cs[p := code])"
      using sizes pos p len set_update_subset_insert [of cs p code]
      by (auto simp: t ct_rep_def write_code_concat)
    have "ct_codes ?t s = ((ct_codes t)(slot \<mapsto> code)) s" for s
    proof (cases "ct_positions t s")
      case (Some q)
      then have q: "q < length (ct_slots t)" "ct_slots t ! q = s" using pos by simp_all
      have "ct_codes ?t s = Some (cs[p := code] ! q)" using ct_rep_codes [OF rep'] q by (auto simp: t)
      moreover have "ct_codes t s = Some (cs ! q)" using ct_rep_codes [OF rep] q by auto
      moreover have "s = slot \<longleftrightarrow> q = p" using q p sizes by (auto simp: nth_eq_iff_index_eq)
      ultimately show ?thesis using p sizes by (auto simp: nth_list_update)
    next
      case None
      then have "s \<noteq> slot" using \<open>ct_positions t slot = Some p\<close> by auto
      then show ?thesis using None by (simp add: ct_codes_def t)
    qed
    then show ?thesis using rep' by blast
  qed
  then show "\<exists>cs'. ct_rep ?t cs'" "ct_codes ?t = (ct_codes t)(slot \<mapsto> code)" by auto
qed


text \<open>
  Moving the last element into the hole and dropping the end, on a list without repetition: the map
  that follows the move inverts the result again.
\<close>

definition swap_remove :: "nat \<Rightarrow> 'a list \<Rightarrow> 'a list" where
  "swap_remove p xs = butlast (xs[p := last xs])"

lemma length_swap_remove [simp]: "length (swap_remove p xs) = length xs - 1"
  by (simp add: swap_remove_def)

lemma nth_swap_remove:
  "q < length xs - 1 \<Longrightarrow> swap_remove p xs ! q = (if q = p then last xs else xs ! q)"
  by (simp add: swap_remove_def nth_butlast nth_list_update)

lemma swap_remove_positions:
  assumes dist: "distinct xs" and p: "p < length xs"
    and pos: "\<And>s q. m s = Some q \<longleftrightarrow> q < length xs \<and> xs ! q = s"
    and m': "m' = (if p \<noteq> length xs - 1 then (m(xs ! p := None))(last xs \<mapsto> p) else m(xs ! p := None))"
  shows "m' s = Some q \<longleftrightarrow> q < length xs - 1 \<and> swap_remove p xs ! q = s"
proof -
  let ?n = "length xs - 1"
  have n: "?n < length xs" "xs ! ?n = last xs" using p by (cases "xs = []"; simp add: last_conv_nth)+
  have inj: "a < length xs \<Longrightarrow> b < length xs \<Longrightarrow> xs ! a = xs ! b \<longleftrightarrow> a = b" for a b
    using dist by (simp add: nth_eq_iff_index_eq)
  show ?thesis
  proof (cases "q < ?n")
    case True
    then have q: "q < length xs" by simp
    show ?thesis
      using True p pos [of s q] n(2) inj [OF q p] inj [OF q n(1)] inj [OF p n(1)]
      by (auto simp: m' nth_swap_remove)
  next
    case False
    have "m' s \<noteq> Some q"
    proof
      assume a: "m' s = Some q"
      then have "q \<noteq> p \<or> p = ?n" using False p by auto
      then have "m s = Some q" "s \<noteq> xs ! p" "p \<noteq> ?n \<longrightarrow> s \<noteq> last xs"
        using a by (auto simp: m' split: if_splits)
      then show False using pos [of s q] False n(2) by (cases "q = ?n") auto
    qed
    then show ?thesis using False by simp
  qed
qed

lemma swap_remove_pairs:
  assumes "distinct xs" "p < length xs" "xs ! p = slot" "length ys = length xs"
  shows "(\<exists>q < length xs - 1. swap_remove p xs ! q = s \<and> swap_remove p ys ! q = c) \<longleftrightarrow>
    s \<noteq> slot \<and> (\<exists>q < length xs. xs ! q = s \<and> ys ! q = c)" (is "?L \<longleftrightarrow> ?R")
proof
  let ?n = "length xs - 1"
  have inj: "xs ! a = xs ! b \<longleftrightarrow> a = b" if "a < length xs" "b < length xs" for a b
    using that assms(1) by (simp add: nth_eq_iff_index_eq)
  have ends: "?n < length xs" "last xs = xs ! ?n" "last ys = ys ! ?n"
    using assms(2,4) by (cases "xs = []"; cases "ys = []"; simp add: last_conv_nth)+
  have nth: "swap_remove p xs ! q = xs ! (if q = p then ?n else q)" "swap_remove p ys ! q = ys ! (if q = p then ?n else q)"
    if "q < ?n" for q using that assms(4) ends by (simp_all add: nth_swap_remove)
  show "?L \<Longrightarrow> ?R"
  proof (elim exE conjE)
    fix q assume q: "q < ?n" "swap_remove p xs ! q = s" "swap_remove p ys ! q = c"
    let ?q = "if q = p then ?n else q"
    have i: "?q < length xs" "?q \<noteq> p" "xs ! ?q = s" "ys ! ?q = c" using q nth [OF q(1)] ends(1) by auto
    then have "s \<noteq> slot" using inj [OF i(1) assms(2)] assms(3) by metis
    then show ?R using i(1,3,4) by metis
  qed
  show "?R \<Longrightarrow> ?L"
  proof (elim exE conjE)
    fix q assume q: "s \<noteq> slot" "q < length xs" "xs ! q = s" "ys ! q = c"
    then have "q \<noteq> p" using assms(3) by auto
    let ?q = "if q = ?n then p else q"
    have i: "?q < ?n" using q(2) \<open>q \<noteq> p\<close> assms(2) by (simp split: if_split) arith
    have "(if ?q = p then ?n else ?q) = q" using \<open>q \<noteq> p\<close> by simp
    then have "swap_remove p xs ! ?q = s" "swap_remove p ys ! ?q = c" using nth [OF i] q(3,4) by presburger+
    then show ?L using i by blast
  qed
qed

lemma swap_remove_distinct:
  assumes "distinct xs" "p < length xs"
  shows "distinct (swap_remove p xs)"
proof (rule distinct_conv_nth [THEN iffD2], intro allI impI)
  fix i j assume ij: "i < length (swap_remove p xs)" "j < length (swap_remove p xs)" "i \<noteq> j"
  have "xs ! a = xs ! b \<longleftrightarrow> a = b" if "a < length xs" "b < length xs" for a b
    using that assms(1) by (simp add: nth_eq_iff_index_eq)
  moreover have "last xs = xs ! (length xs - 1)" using assms(2) by (cases "xs = []") (simp_all add: last_conv_nth)
  ultimately show "swap_remove p xs ! i \<noteq> swap_remove p xs ! j"
    using ij assms(2) by (auto simp: nth_swap_remove)
qed

lemma swap_remove_at_end: "p = length xs - 1 \<Longrightarrow> swap_remove p xs = butlast xs"
  by (cases "xs = []") (simp_all add: swap_remove_def last_conv_nth)

lemma set_swap_remove: "set (swap_remove p xs) \<subseteq> set xs"
proof (cases "xs = []")
  case False
  then show ?thesis
    using set_update_subset_insert [of xs p "last xs"] by (auto simp: swap_remove_def dest: in_set_butlastD)
qed (simp add: swap_remove_def)

text \<open>\<open>remove\<close> is that move on the slots and on the codes at once.\<close>

lemma ct_remove_rep:
  assumes rep: "ct_rep t cs" and at: "ct_positions t slot = Some p"
  shows "ct_rep (snd (ct_remove slot t)) (swap_remove p cs)"
    and "ct_slots (snd (ct_remove slot t)) = swap_remove p (ct_slots t)"
proof -
  let ?n = "length (ct_slots t) - 1"
  note r = rep [unfolded ct_rep_def]
  from r have pos: "\<And>s p. ct_positions t s = Some p \<longleftrightarrow> p < length (ct_slots t) \<and> ct_slots t ! p = s" by blast
  from r have sizes: "length cs = length (ct_slots t)" "\<forall>c \<in> set cs. length c = ct_stride t"
    "distinct (ct_slots t)" "ct_data t = concat cs" by simp_all
  have p: "p < length (ct_slots t)" "ct_slots t ! p = slot" using pos at by simp_all
  then have ne: "ct_slots t \<noteq> []" "cs \<noteq> []" using sizes(1) by auto
  have n: "?n < length cs" using ne sizes(1) by (cases cs) auto
  have moved: "take (ct_stride t) (drop (?n * ct_stride t) (concat cs)) = last cs"
    "ct_slots t ! ?n = last (ct_slots t)"
    using chunk_of_concat [OF sizes(2) n] ne sizes(1) by (simp_all add: last_conv_nth)
  have codes: "\<forall>c \<in> set (cs[p := last cs]). length c = ct_stride t"
    using sizes(2) ne set_update_subset_insert [of cs p "last cs"] last_in_set [OF ne(2)] by auto
  have cut: "take (?n * ct_stride t) (concat (cs[p := last cs])) = concat (swap_remove p cs)"
    "take (?n * ct_stride t) (concat cs) = concat (butlast cs)"
    using concat_take_chunks [OF codes, of ?n] concat_take_chunks [OF sizes(2), of ?n] sizes(1)
    by (simp_all add: swap_remove_def butlast_conv_take)
  define positions where "positions =
    (if p \<noteq> ?n then ((ct_positions t)(ct_slots t ! p := None))(last (ct_slots t) \<mapsto> p)
     else (ct_positions t)(ct_slots t ! p := None))"
  have t: "snd (ct_remove slot t) = t\<lparr> ct_positions := positions, ct_slots := swap_remove p (ct_slots t),
      ct_data := concat (swap_remove p cs) \<rparr>"
    using at moved cut sizes(1,4) p write_code_concat [OF sizes(2), of p "last cs"]
    by (cases "p = ?n")
      (simp_all add: ct_remove_def positions_def Let_def swap_remove_at_end swap_remove_def [of p "ct_slots t"])
  show "ct_slots (snd (ct_remove slot t)) = swap_remove p (ct_slots t)" by (simp add: t)
  have "length c = ct_stride t" if "c \<in> set (swap_remove p cs)" for c
    using sizes(2) subsetD [OF set_swap_remove that] by simp
  then show "ct_rep (snd (ct_remove slot t)) (swap_remove p cs)"
    using swap_remove_positions [OF sizes(3) p(1) pos positions_def] swap_remove_distinct [OF sizes(3) p(1)] sizes(1)
    by (simp add: t ct_rep_def)
qed

lemma ct_remove_codes:
  assumes rep: "ct_rep t cs"
  shows "fst (ct_remove slot t) = (slot \<in> dom (ct_codes t))"
    and "ct_codes (snd (ct_remove slot t)) = (ct_codes t)(slot := None)"
    and "\<exists>cs'. ct_rep (snd (ct_remove slot t)) cs'"
proof -
  show "fst (ct_remove slot t) = (slot \<in> dom (ct_codes t))"
    by (auto simp: ct_remove_def ct_codes_def Let_def dom_def split: option.splits prod.splits)
  have "\<exists>cs'. ct_rep (snd (ct_remove slot t)) cs' \<and> ct_codes (snd (ct_remove slot t)) = (ct_codes t)(slot := None)"
  proof (cases "ct_positions t slot")
    case None
    then have "snd (ct_remove slot t) = t" "ct_codes t slot = None" by (simp_all add: ct_remove_def ct_codes_def)
    then show ?thesis using rep by (metis fun_upd_triv)
  next
    case (Some p)
    let ?t = "snd (ct_remove slot t)"
    have rep': "ct_rep ?t (swap_remove p cs)" "ct_slots ?t = swap_remove p (ct_slots t)"
      by (rule ct_remove_rep [OF rep Some])+
    from rep have sizes: "length cs = length (ct_slots t)" "distinct (ct_slots t)"
      and p: "p < length (ct_slots t)" "ct_slots t ! p = slot"
      using Some by (auto simp: ct_rep_def)
    have "ct_codes ?t s = Some c \<longleftrightarrow> ((ct_codes t)(slot := None)) s = Some c" for s c
    proof -
      have "(\<exists>q < length (ct_slots t) - 1. swap_remove p (ct_slots t) ! q = s \<and> swap_remove p cs ! q = c) \<longleftrightarrow>
          s \<noteq> slot \<and> (\<exists>q < length (ct_slots t). ct_slots t ! q = s \<and> cs ! q = c)"
        by (rule swap_remove_pairs) (use sizes p in auto)
      then show ?thesis using ct_rep_codes [OF rep'(1)] ct_rep_codes [OF rep] rep'(2) by auto
    qed
    then have "ct_codes ?t = (ct_codes t)(slot := None)" by (intro ext option_ext) simp
    then show ?thesis using rep'(1) by blast
  qed
  then show "ct_codes (snd (ct_remove slot t)) = (ct_codes t)(slot := None)"
    "\<exists>cs'. ct_rep (snd (ct_remove slot t)) cs'" by auto
qed


section \<open>The scan\<close>

definition candidates :: "code_table \<Rightarrow> byte list list \<Rightarrow> byte list \<Rightarrow> candidate list" where
  "candidates t cs query =
     map (\<lambda>(code, slot). \<lparr> ca_distance = distance query code, ca_slot = slot \<rparr>) (zip cs (ct_slots t))"

lemma nearest_eq:
  assumes "ct_rep t cs" "0 < ct_stride t" "length query = ct_stride t"
  shows "nearest t query width = Ok (take width (sort_key candidate_key (candidates t cs query)))"
proof -
  have "chunks_exact (ct_stride t) (ct_data t) = cs" "length cs = length (ct_slots t)"
    using assms(1,2) by (auto simp: ct_rep_def chunks_exact_concat)
  then show ?thesis
    using assms(2,3)
    by (simp add: nearest_def ct_is_empty_def candidates_def Let_def min_def split: if_split)
qed

lemma candidates_slots: "ct_rep t cs \<Longrightarrow> map ca_slot (candidates t cs query) = ct_slots t"
  by (rule nth_equalityI) (auto simp: candidates_def ct_rep_def split: prod.splits)

lemma candidate_eq: "(c :: candidate) = \<lparr> ca_distance = d, ca_slot = s \<rparr> \<longleftrightarrow> ca_distance c = d \<and> ca_slot c = s"
  by (cases c) simp

lemma candidates_codes:
  assumes "ct_rep t cs"
  shows "c \<in> set (candidates t cs query) \<longleftrightarrow>
    (\<exists>code. ct_codes t (ca_slot c) = Some code \<and> ca_distance c = distance query code)"
proof -
  have len: "length cs = length (ct_slots t)" using assms by (simp add: ct_rep_def)
  have "c \<in> set (candidates t cs query) \<longleftrightarrow>
      (\<exists>p < length (ct_slots t). ca_slot c = ct_slots t ! p \<and> ca_distance c = distance query (cs ! p))"
    by (simp add: candidates_def image_iff Bex_def in_set_zip split_paired_Ex candidate_eq len) metis
  then show ?thesis using ct_rep_codes [OF assms] by metis
qed

lemma take_of_sorted:
  assumes "distinct (map f xs)"
  shows "sorted_wrt (\<lambda>a b. f a < (f b :: 'k :: linorder)) (take k (sort_key f xs))"
    and "x \<in> set (take k (sort_key f xs)) \<Longrightarrow> y \<in> set xs \<Longrightarrow> y \<notin> set (take k (sort_key f xs)) \<Longrightarrow> f x < f y"
proof -
  have dist: "distinct (map f (sort_key f xs))"
    using assms by (simp add: distinct_map)
  then have strict: "sorted_wrt (\<lambda>a b. f a < f b) (sort_key f xs)"
    using strict_sorted_iff [of "map f (sort_key f xs)"] sorted_sort_key [of f xs] by (simp add: sorted_wrt_map)
  then show "sorted_wrt (\<lambda>a b. f a < f b) (take k (sort_key f xs))" by (rule sorted_wrt_take)
  assume x: "x \<in> set (take k (sort_key f xs))" and y: "y \<in> set xs" "y \<notin> set (take k (sort_key f xs))"
  have "y \<in> set (drop k (sort_key f xs))"
    using y by (metis append_take_drop_id set_append set_sort Un_iff)
  then show "f x < f y"
    using strict x append_take_drop_id [of k "sort_key f xs"]
    by (metis (no_types, lifting) sorted_wrt_append)
qed

text \<open>The scan returns the nearest codes: on a consistent table it answers the asked width or
  everything resident, in strictly increasing order of distance and then slot, each candidate at
  the distance of its own slot's code, and every slot left out is further than all of them.\<close>

theorem nearest_exact:
  assumes "ct_inv t" and "0 < ct_stride t" and "length query = ct_stride t"
  shows "\<exists>found. nearest t query width = Ok found \<and> length found = min width (ct_len t) \<and>
    sorted_wrt (\<lambda>a b. candidate_key a < candidate_key b) found \<and>
    (\<forall>c \<in> set found. \<exists>code. ct_codes t (ca_slot c) = Some code \<and> ca_distance c = distance query code) \<and>
    (\<forall>slot code. ct_codes t slot = Some code \<longrightarrow> slot \<notin> ca_slot ` set found \<longrightarrow>
       (\<forall>c \<in> set found. candidate_key c < (distance query code, slot)))"
proof -
  obtain cs where rep: "ct_rep t cs" using assms(1) by (auto simp: ct_inv_def)
  let ?all = "candidates t cs query"
  let ?found = "take width (sort_key candidate_key ?all)"
  have len: "length ?all = ct_len t" using rep by (simp add: candidates_def ct_rep_def ct_len_def)
  have "distinct (map ca_slot ?all)" using rep by (simp add: candidates_slots ct_rep_def)
  then have dist: "distinct (map candidate_key ?all)"
    by (auto simp: candidate_key_def distinct_map inj_on_def)
  note found = take_of_sorted [OF dist, where k = width]
  have sub: "c \<in> set ?found \<Longrightarrow> c \<in> set ?all" for c using set_take_subset by fastforce
  have out: "candidate_key c < (distance query code, slot)"
    if "ct_codes t slot = Some code" "slot \<notin> ca_slot ` set ?found" "c \<in> set ?found" for slot code c
  proof -
    let ?y = "\<lparr> ca_distance = distance query code, ca_slot = slot \<rparr>"
    have "?y \<in> set ?all" using candidates_codes [OF rep] that(1) by simp
    moreover have "?y \<notin> set ?found" using that(2) by force
    ultimately have "candidate_key c < candidate_key ?y" by (rule found(2) [OF that(3)])
    then show ?thesis by (simp add: candidate_key_def)
  qed
  show ?thesis
    using nearest_eq [OF rep assms(2,3)] len found(1) sub candidates_codes [OF rep] out
    by (intro exI [of _ ?found]) (simp add: min.commute)
qed

lemma nearest_exact_witness:
  "\<exists>found. nearest (snd (ct_upsert 7 [3] (code_table_new 1))) [1] 5 = Ok found \<and> length found = 1"
proof -
  have rep: "ct_rep (code_table_new 1) []" by (rule code_table_new_rep)
  have "ct_inv (snd (ct_upsert 7 [3] (code_table_new 1)))"
    using ct_upsert_rep(2) [OF rep, of "[3]" 7] by (simp add: ct_inv_def code_table_new_def)
  from nearest_exact [OF this, of "[1]" 5] show ?thesis
    by (auto simp: ct_upsert_def code_table_new_def ct_len_def)
qed

section \<open>The exact order\<close>

definition scored_key :: "scored \<Rightarrow> int \<times> int" where
  "scored_key s = (- f32_rank (sc_similarity s), sc_slot s)"

lemma cmp_scored_Greater:
  "\<not> f32_is_nan (sc_similarity a) \<Longrightarrow> \<not> f32_is_nan (sc_similarity b) \<Longrightarrow>
     cmp_scored a b = Greater \<longleftrightarrow> scored_key b < scored_key a"
  by (auto simp: cmp_scored_def f32_partial_cmp_def cmp_slot_def scored_key_def)

lemma insert_by_key:
  "\<forall>y \<in> set ys. cmp x y = Greater \<longleftrightarrow> k y < (k x :: 'k :: linorder) \<Longrightarrow> insert_by cmp x ys = insort_key k x ys"
  by (induction ys) auto

lemma sort_by_cmp_key:
  "\<forall>x \<in> set xs. \<forall>y \<in> set xs. cmp x y = Greater \<longleftrightarrow> k y < (k x :: 'k :: linorder) \<Longrightarrow>
     sort_by_cmp cmp xs = sort_key k xs"
proof (induction xs)
  case (Cons x xs)
  then have "sort_by_cmp cmp xs = sort_key k xs" by simp
  then show ?case using Cons.prems by (simp add: sort_by_cmp_def insert_by_key)
qed (simp add: sort_by_cmp_def)

lemma order_exact_key:
  "\<forall>s \<in> set xs. \<not> f32_is_nan (sc_similarity s) \<Longrightarrow> order_exact xs = sort_key scored_key xs"
  unfolding order_exact_def by (rule sort_by_cmp_key) (simp add: cmp_scored_Greater)


lemma set_insert_by: "set (insert_by cmp x ys) = insert x (set ys)"
  by (induction ys) auto

lemma set_order_exact: "set (order_exact xs) = set xs"
  by (induction xs) (simp_all add: order_exact_def sort_by_cmp_def set_insert_by)

section \<open>Fusion as a sum over the lanes\<close>

text \<open>Every place of every lane, in the order the code visits them: lane, index and slot.\<close>

definition lane_entries :: "nat \<Rightarrow> int list list \<Rightarrow> (nat \<times> nat \<times> int) list" where
  "lane_entries n lanes =
     concat (map (\<lambda>(lane, ranked). map (\<lambda>(index, slot). (lane, index, slot)) (enumerate 0 ranked)) (enumerate n lanes))"

definition entries_of :: "int \<Rightarrow> (nat \<times> nat \<times> int) list \<Rightarrow> (nat \<times> nat \<times> int) list" where
  "entries_of slot = filter (\<lambda>e. snd (snd e) = slot)"

definition fused_spec :: "(nat \<times> nat \<times> int) list \<Rightarrow> int \<Rightarrow> fused" where
  "fused_spec T slot =
     \<lparr> fu_slot = slot,
       fu_score = sum_list (map (\<lambda>e. contribution (fst (snd e) + 1)) (entries_of slot T)),
       fu_lanes = map (\<lambda>e. \<lparr> lr_lane = fst e, lr_rank = fst (snd e) + 1 \<rparr>) (entries_of slot T) \<rparr>"

definition fuse_entry :: "fusion \<Rightarrow> nat \<times> nat \<times> int \<Rightarrow> fusion" where
  "fuse_entry st e = fuse_one (fst e) st (snd e)"

lemma fuse_lanes_entries: "foldl fuse_lane st (enumerate n lanes) = foldl fuse_entry st (lane_entries n lanes)"
proof (induction lanes arbitrary: n st)
  case (Cons ranked lanes)
  have "fuse_lane st (n, ranked) = foldl fuse_entry st (map (\<lambda>(index, slot). (n, index, slot)) (enumerate 0 ranked))"
    by (simp add: fuse_lane_def foldl_map fuse_entry_def case_prod_unfold)
  then show ?case using Cons by (simp add: lane_entries_def)
qed (simp add: lane_entries_def)

definition fu_rep :: "fusion \<Rightarrow> (nat \<times> nat \<times> int) list \<Rightarrow> int list \<Rightarrow> bool" where
  "fu_rep st T ss \<longleftrightarrow> fst st = map (fused_spec T) ss \<and> distinct ss \<and> set ss = (\<lambda>e. snd (snd e)) ` set T \<and>
     (\<forall>s p. snd st s = Some p \<longleftrightarrow> p < length ss \<and> ss ! p = s)"

lemma entries_of_snoc: "entries_of s (T @ [e]) = entries_of s T @ (if snd (snd e) = s then [e] else [])"
  by (simp add: entries_of_def)

lemma fused_spec_other: "snd (snd e) \<noteq> s \<Longrightarrow> fused_spec (T @ [e]) s = fused_spec T s"
  by (simp add: fused_spec_def entries_of_snoc)

lemma fused_spec_same:
  "fused_spec (T @ [(lane, index, s)]) s = (fused_spec T s)
     \<lparr> fu_score := fu_score (fused_spec T s) + contribution (index + 1),
       fu_lanes := fu_lanes (fused_spec T s) @ [\<lparr> lr_lane = lane, lr_rank = index + 1 \<rparr>] \<rparr>"
  by (simp add: fused_spec_def entries_of_snoc)

lemma fuse_entry_rep:
  assumes "fu_rep st T ss"
  shows "\<exists>ss'. fu_rep (fuse_entry st e) (T @ [e]) ss'"
proof -
  obtain lane index slot where e: "e = (lane, index, slot)" using prod_cases3 by blast
  from assms have acc: "fst st = map (fused_spec T) ss" and dist: "distinct ss"
    and slots: "set ss = (\<lambda>e. snd (snd e)) ` set T"
    and seen: "\<And>s p. snd st s = Some p \<longleftrightarrow> p < length ss \<and> ss ! p = s"
    by (simp_all add: fu_rep_def)
  show ?thesis
  proof (cases "snd st slot")
    case None
    then have new: "slot \<notin> set ss" using seen by (metis in_set_conv_nth option.distinct(1))
    have empty: "entries_of slot T = []" using new slots by (auto simp: entries_of_def filter_empty_conv)
    have "fst (fuse_entry st e) = map (fused_spec (T @ [e])) (ss @ [slot])"
    proof -
      have "map (fused_spec (T @ [e])) ss = map (fused_spec T) ss"
        using new by (intro map_cong refl fused_spec_other) (auto simp: e)
      moreover have "fused_spec (T @ [e]) slot =
          \<lparr> fu_slot = slot, fu_score = contribution (index + 1),
            fu_lanes = [\<lparr> lr_lane = lane, lr_rank = index + 1 \<rparr>] \<rparr>"
        by (simp add: e fused_spec_same) (simp add: fused_spec_def empty)
      ultimately show ?thesis using None acc by (simp add: fuse_entry_def fuse_one_def e case_prod_unfold Let_def)
    qed
    moreover have "snd (fuse_entry st e) = (snd st)(slot \<mapsto> length ss)"
      using None acc by (simp add: fuse_entry_def fuse_one_def e case_prod_unfold)
    moreover have "((snd st)(slot \<mapsto> length ss)) s = Some p \<longleftrightarrow> p < length (ss @ [slot]) \<and> (ss @ [slot]) ! p = s" for s p
      using new nth_mem [of p ss] by (cases "p = length ss"; cases "s = slot") (auto simp: nth_append seen)
    ultimately have "fu_rep (fuse_entry st e) (T @ [e]) (ss @ [slot])"
      using dist new slots e by (simp add: fu_rep_def)
    then show ?thesis by blast
  next
    case (Some p)
    then have p: "p < length ss" "ss ! p = slot" using seen by simp_all
    have "fst (fuse_entry st e) = (fst st)[p := fused_spec (T @ [e]) slot]"
      using Some acc p by (simp add: fuse_entry_def fuse_one_def e case_prod_unfold fused_spec_same Let_def)
    also have "\<dots> = map (fused_spec (T @ [e])) ss"
    proof (rule nth_equalityI)
      fix q assume "q < length ((fst st)[p := fused_spec (T @ [e]) slot])"
      then have q: "q < length ss" by (simp add: acc)
      have "ss ! q = slot \<longleftrightarrow> q = p" using dist p q by (auto simp: nth_eq_iff_index_eq)
      then show "(fst st)[p := fused_spec (T @ [e]) slot] ! q = map (fused_spec (T @ [e])) ss ! q"
        using q p by (auto simp: acc nth_list_update fused_spec_other e)
    qed (simp add: acc)
    finally have "fst (fuse_entry st e) = map (fused_spec (T @ [e])) ss" .
    moreover have "snd (fuse_entry st e) = snd st"
      using Some by (simp add: fuse_entry_def fuse_one_def e case_prod_unfold Let_def)
    moreover have "insert slot (set ss) = set ss" using nth_mem [OF p(1)] p(2) by (simp add: insert_absorb)
    ultimately have "fu_rep (fuse_entry st e) (T @ [e]) ss"
      using dist slots seen by (simp add: fu_rep_def e)
    then show ?thesis by blast
  qed
qed

lemma fuse_entries_rep:
  "fu_rep st T ss \<Longrightarrow> \<exists>ss'. fu_rep (foldl fuse_entry st es) (T @ es) ss'"
proof (induction es arbitrary: st T ss)
  case (Cons e es)
  then show ?case using fuse_entry_rep [OF Cons.prems] by fastforce
qed auto

lemma fuse_rep: "\<exists>ss. distinct ss \<and> set ss = (\<lambda>e. snd (snd e)) ` set (lane_entries 0 lanes) \<and>
  fuse lanes = sort_key cmp_fused (map (fused_spec (lane_entries 0 lanes)) ss)"
proof -
  have "fu_rep ([], Map.empty) [] []" by (simp add: fu_rep_def)
  from fuse_entries_rep [OF this, of "lane_entries 0 lanes"] show ?thesis
    by (auto simp: fuse_def fuse_lanes_entries fu_rep_def)
qed

lemma lane_entries_slots: "(\<lambda>e. snd (snd e)) ` set (lane_entries n lanes) = \<Union> (set ` set lanes)"
proof (induction lanes arbitrary: n)
  case (Cons ranked lanes)
  have "(\<lambda>e. snd (snd e)) ` (\<lambda>(index, slot). (n, index, slot)) ` set (enumerate 0 ranked) = set ranked"
  proof -
    have "snd ` set (enumerate 0 ranked) = set ranked" by (metis list.set_map map_snd_enumerate)
    then show ?thesis by (simp add: image_image case_prod_unfold)
  qed
  then show ?case using Cons by (simp add: lane_entries_def image_Un)
qed (simp add: lane_entries_def)

lemma contribution_less:
  assumes "0 < d" "d * (d + 1) \<le> s"
  shows "s div (d + 1) < s div (d :: nat)"
proof -
  have "d * (s div (d + 1)) + s div (d + 1) \<le> s" using div_times_less_eq_dividend [of s "d + 1"] by (simp add: algebra_simps)
  moreover have "d \<le> s div (d + 1)" using assms by (simp add: less_eq_div_iff_mult_less_eq)
  ultimately have "d * (s div (d + 1) + 1) \<le> s" by (simp add: algebra_simps)
  then have "s div (d + 1) + 1 \<le> s div d" using assms(1) by (simp add: less_eq_div_iff_mult_less_eq mult.commute)
  then show ?thesis by simp
qed

lemma contributions_distinct: "sorted_wrt (>) (map contribution [1..<Suc MAX_FUSION_DEPTH])"
proof -
  have step: "contribution (Suc r) < contribution r" if "r < MAX_FUSION_DEPTH" for r
  proof -
    have "(60 + r) * (60 + r + 1) \<le> 1060 * 1060"
      using that by (intro mult_le_mono) (auto simp: MAX_FUSION_DEPTH_def)
    then show ?thesis
      using contribution_less [of "60 + r" RRF_SCALE] by (simp add: contribution_def RRF_SCALE_def RRF_K_def)
  qed
  have "contribution b < contribution a" if "a < b" "b \<le> MAX_FUSION_DEPTH" for a b
    using that
  proof (induction b)
    case (Suc b)
    then show ?case using step [of b] by (cases "a = b") auto
  qed simp
  then show ?thesis by (auto simp: sorted_wrt_iff_nth_less simp del: upt_Suc)
qed

text \<open>Fusion lists every slot some lane returned exactly once, with the sum of its contributions
  and the places that made it up, in the order of score and then slot; and the contributions of the
  ranks to the declared depth are all different, so that rank is not lost to rounding.\<close>

theorem fuse_sums_contributions:
  "distinct (map fu_slot (fuse lanes)) \<and> fu_slot ` set (fuse lanes) = \<Union> (set ` set lanes) \<and>
   fuse lanes = map (\<lambda>f. fused_spec (lane_entries 0 lanes) (fu_slot f)) (fuse lanes) \<and>
   sorted_wrt (\<lambda>a b. cmp_fused a < cmp_fused b) (fuse lanes) \<and>
   sorted_wrt (>) (map contribution [1..<Suc MAX_FUSION_DEPTH])"
proof -
  obtain ss where ss: "distinct ss" "set ss = \<Union> (set ` set lanes)"
    "fuse lanes = sort_key cmp_fused (map (fused_spec (lane_entries 0 lanes)) ss)"
    using fuse_rep [of lanes] lane_entries_slots by metis
  let ?xs = "map (fused_spec (lane_entries 0 lanes)) ss"
  have slot: "fu_slot (fused_spec T s) = s" for T s by (simp add: fused_spec_def)
  have slots: "distinct (map fu_slot (sort_key cmp_fused ?xs))"
    using ss(1) slot by (auto simp: distinct_map inj_on_def) metis
  have "distinct (map cmp_fused ?xs)"
    using ss(1) by (auto simp: distinct_map inj_on_def cmp_fused_def slot)
  from take_of_sorted(1) [OF this, of "length ?xs"]
  have "sorted_wrt (\<lambda>a b. cmp_fused a < cmp_fused b) (fuse lanes)" by (simp add: ss(3))
  moreover have "sorted_wrt (>) (map contribution [1..<Suc MAX_FUSION_DEPTH])" by (rule contributions_distinct)
  moreover have "fuse lanes = map (\<lambda>f. fused_spec (lane_entries 0 lanes) (fu_slot f)) (fuse lanes)"
    by (rule map_idI [symmetric]) (auto simp: ss(3) slot)
  ultimately show ?thesis
    using slots ss(2) by (simp add: ss(3) slot image_image)
qed

end
