(* ===== verification/Vector_Cache.thy ===== *)
theory Vector_Cache
  imports Vector_Codes
begin

text \<open>
  The exact-vector cache of \<open>crates/supra_vector/src/cache.rs\<close>: least recently used eviction under
  a budget of bytes. Both of its indexes are maps sorted by key; the counters are unbounded, as the
  code argues that a \<open>u64\<close> of accesses does not wrap.
\<close>

section \<open>The exact-vector cache\<close>

record cached =
  cd_vector :: "f32 list"
  cd_tick :: nat

record exact_cache =
  ec_budget_bytes :: nat
  ec_used_bytes :: nat
  ec_tick :: nat
  ec_vectors :: "(int, cached) btree"
  ec_order :: "(nat, int) btree"
  ec_hits :: nat
  ec_misses :: nat
  ec_evictions :: nat

definition exact_cache_new :: "nat \<Rightarrow> exact_cache" where
  "exact_cache_new budget_bytes =
     \<lparr> ec_budget_bytes = budget_bytes, ec_used_bytes = 0, ec_tick = 0, ec_vectors = [], ec_order = [],
       ec_hits = 0, ec_misses = 0, ec_evictions = 0 \<rparr>"

definition vector_bytes :: "f32 list \<Rightarrow> nat" where
  "vector_bytes v = length v * 4"

definition cache_get :: "int \<Rightarrow> exact_cache \<Rightarrow> f32 list option \<times> exact_cache" where
  "cache_get slot c =
     (case map_of (ec_vectors c) slot of
        None \<Rightarrow> (None, c\<lparr> ec_misses := ec_misses c + 1 \<rparr>)
      | Some e \<Rightarrow>
          let tick = ec_tick c + 1
          in (Some (cd_vector e),
              c\<lparr> ec_tick := tick,
                 ec_vectors := bt_insert slot (e\<lparr> cd_tick := tick \<rparr>) (ec_vectors c),
                 ec_order := bt_insert tick slot (bt_remove (cd_tick e) (ec_order c)),
                 ec_hits := ec_hits c + 1 \<rparr>))"

definition evict_one :: "exact_cache \<Rightarrow> bool \<times> exact_cache" where
  "evict_one c =
     (case ec_order c of
        [] \<Rightarrow> (False, c)
      | (tick, slot) # _ \<Rightarrow>
          (True, c\<lparr> ec_order := bt_remove tick (ec_order c),
                    ec_vectors := bt_remove slot (ec_vectors c),
                    ec_used_bytes := (case map_of (ec_vectors c) slot of
                        Some e \<Rightarrow> ec_used_bytes c - vector_bytes (cd_vector e) | None \<Rightarrow> ec_used_bytes c),
                    ec_evictions := ec_evictions c + 1 \<rparr>))"

function evict_until :: "nat \<Rightarrow> exact_cache \<Rightarrow> exact_cache" where
  "evict_until bytes c =
     (if ec_used_bytes c + bytes > ec_budget_bytes c \<and> fst (evict_one c)
      then evict_until bytes (snd (evict_one c)) else c)"
  by auto
termination
  by (relation "measure (length \<circ> ec_order \<circ> snd)") (auto simp: evict_one_def split: list.splits)

declare evict_until.simps [simp del]

definition cache_invalidate :: "int \<Rightarrow> exact_cache \<Rightarrow> bool \<times> exact_cache" where
  "cache_invalidate slot c =
     (case map_of (ec_vectors c) slot of
        None \<Rightarrow> (False, c)
      | Some e \<Rightarrow>
          (True, c\<lparr> ec_vectors := bt_remove slot (ec_vectors c),
                    ec_order := bt_remove (cd_tick e) (ec_order c),
                    ec_used_bytes := ec_used_bytes c - vector_bytes (cd_vector e) \<rparr>))"

text \<open>The first half of \<open>put\<close> is \<open>invalidate\<close> without its result.\<close>

definition cache_put :: "int \<Rightarrow> f32 list \<Rightarrow> exact_cache \<Rightarrow> exact_cache" where
  "cache_put slot vector c =
     (let bytes = vector_bytes vector
      in if bytes > ec_budget_bytes c then c
         else
           let c = snd (cache_invalidate slot c);
               c = evict_until bytes c;
               tick = ec_tick c + 1
           in c\<lparr> ec_tick := tick, ec_order := bt_insert tick slot (ec_order c),
                 ec_used_bytes := ec_used_bytes c + bytes,
                 ec_vectors := bt_insert slot \<lparr> cd_vector = vector, cd_tick = tick \<rparr> (ec_vectors c) \<rparr>)"

definition cache_clear :: "exact_cache \<Rightarrow> exact_cache" where
  "cache_clear c = c\<lparr> ec_vectors := [], ec_order := [], ec_used_bytes := 0 \<rparr>"



section \<open>Bytes in a map\<close>

definition vectors_bytes :: "(int, cached) btree \<Rightarrow> nat" where
  "vectors_bytes m = sum_list (map (\<lambda>kv. vector_bytes (cd_vector (snd kv))) m)"

lemma vectors_bytes_Nil [simp]: "vectors_bytes [] = 0"
  by (simp add: vectors_bytes_def)

lemma vectors_bytes_Cons [simp]: "vectors_bytes ((k, e) # m) = vector_bytes (cd_vector e) + vectors_bytes m"
  by (simp add: vectors_bytes_def)

lemma vectors_bytes_remove:
  "map_of m k = Some e \<Longrightarrow> vectors_bytes (bt_remove k m) + vector_bytes (cd_vector e) = vectors_bytes m"
  by (induction m) (auto split: if_splits)

lemma vectors_bytes_insert:
  "map_of m k = None \<Longrightarrow> vectors_bytes (bt_insert k e m) = vectors_bytes m + vector_bytes (cd_vector e)"
  by (induction m) (auto split: if_splits)

lemma vectors_bytes_touch:
  "bt_sorted m \<Longrightarrow> map_of m k = Some e \<Longrightarrow> cd_vector e' = cd_vector e \<Longrightarrow>
     vectors_bytes (bt_insert k e' m) = vectors_bytes m"
  by (induction m) (auto simp: bt_sorted_def split: if_splits dest!: map_of_SomeD)

section \<open>The invariant\<close>

text \<open>The two indexes describe one set, the byte count is exact and within the budget.\<close>

definition cache_wf :: "exact_cache \<Rightarrow> bool" where
  "cache_wf c \<longleftrightarrow>
     bt_sorted (ec_vectors c) \<and> bt_sorted (ec_order c) \<and>
     (\<forall>t s. map_of (ec_order c) t = Some s \<longleftrightarrow>
        (\<exists>e. map_of (ec_vectors c) s = Some e \<and> cd_tick e = t)) \<and>
     (\<forall>t s. map_of (ec_order c) t = Some s \<longrightarrow> t \<le> ec_tick c) \<and>
     ec_used_bytes c = vectors_bytes (ec_vectors c)"

definition cache_inv :: "exact_cache \<Rightarrow> bool" where
  "cache_inv c \<longleftrightarrow> cache_wf c \<and> ec_used_bytes c \<le> ec_budget_bytes c"

lemma cache_wfD:
  assumes "cache_wf c"
  shows "bt_sorted (ec_vectors c)" "bt_sorted (ec_order c)"
    "map_of (ec_order c) t = Some s \<longleftrightarrow> (\<exists>e. map_of (ec_vectors c) s = Some e \<and> cd_tick e = t)"
    "map_of (ec_order c) t = Some s \<Longrightarrow> t \<le> ec_tick c"
    "ec_used_bytes c = vectors_bytes (ec_vectors c)"
  using assms unfolding cache_wf_def by blast+

definition cache_vectors :: "exact_cache \<Rightarrow> int \<rightharpoonup> f32 list" where
  "cache_vectors c slot = map_option cd_vector (map_of (ec_vectors c) slot)"

lemma cache_new_inv: "cache_inv (exact_cache_new n)"
  by (simp add: cache_inv_def cache_wf_def exact_cache_new_def)

lemma cache_clear_inv: "cache_inv (cache_clear c)"
  by (simp add: cache_inv_def cache_wf_def cache_clear_def)

lemma cache_invalidate_wf:
  assumes wf: "cache_wf c"
  shows "cache_wf (snd (cache_invalidate slot c))"
proof (cases "map_of (ec_vectors c) slot")
  case (Some e)
  note w = cache_wfD [OF wf]
  let ?c = "snd (cache_invalidate slot c)"
  have c: "ec_vectors ?c = bt_remove slot (ec_vectors c)" "ec_order ?c = bt_remove (cd_tick e) (ec_order c)"
    "ec_used_bytes ?c = ec_used_bytes c - vector_bytes (cd_vector e)" "ec_tick ?c = ec_tick c"
    using Some by (simp_all add: cache_invalidate_def)
  have same: "map_of (ec_order c) (cd_tick e) = Some slot" using Some w(3) by blast
  have "map_of (ec_order ?c) t = Some s \<longleftrightarrow> (\<exists>e. map_of (ec_vectors ?c) s = Some e \<and> cd_tick e = t)" for t s
  proof -
    have "(t \<noteq> cd_tick e \<and> map_of (ec_order c) t = Some s) \<longleftrightarrow>
        (s \<noteq> slot \<and> (\<exists>e. map_of (ec_vectors c) s = Some e \<and> cd_tick e = t))"
      using w(3) [of t s] same Some by (metis option.inject)
    then show ?thesis using w(1,2) by (cases "s = slot"; cases "t = cd_tick e") (auto simp: c bt_remove_get)
  qed
  moreover have "map_of (ec_order ?c) t = Some s \<Longrightarrow> t \<le> ec_tick ?c" for t s
    using w(2) w(4) [of t s] by (simp add: c bt_remove_get split: if_splits)
  ultimately show ?thesis
    using w(1,2,5) vectors_bytes_remove [OF Some] by (simp add: cache_wf_def c bt_remove_sorted)
qed (simp add: cache_invalidate_def wf)

lemma cache_invalidate_vectors:
  "cache_wf c \<Longrightarrow> cache_vectors (snd (cache_invalidate slot c)) = (cache_vectors c)(slot := None)"
  by (rule ext) (auto simp: cache_vectors_def cache_invalidate_def cache_wfD(1) bt_remove_get split: option.split)

lemma cache_invalidate_used: "ec_used_bytes (snd (cache_invalidate slot c)) \<le> ec_used_bytes c"
  by (simp add: cache_invalidate_def split: option.split)

text \<open>Evicting is invalidating the slot of the oldest tick, counted.\<close>

lemma evict_one_invalidate:
  assumes wf: "cache_wf c" and order: "ec_order c = (tick, slot) # rest"
  shows "evict_one c = (True, (snd (cache_invalidate slot c))\<lparr> ec_evictions := ec_evictions c + 1 \<rparr>)"
proof -
  obtain e where e: "map_of (ec_vectors c) slot = Some e" "cd_tick e = tick"
    using cache_wfD(3) [OF wf, of tick slot] order by auto
  then show ?thesis by (simp add: evict_one_def order cache_invalidate_def)
qed

lemma evict_one_wf: "cache_wf c \<Longrightarrow> cache_wf (snd (evict_one c))"
proof (cases "ec_order c")
  case (Cons ts rest)
  moreover assume "cache_wf c"
  ultimately show ?thesis
    using evict_one_invalidate [of c "fst ts" "snd ts" rest] cache_invalidate_wf [of c "snd ts"]
    by (simp add: cache_wf_def)
qed (simp add: evict_one_def)

lemma evict_until_wf: "cache_wf c \<Longrightarrow> cache_wf (evict_until bytes c)"
proof (induction bytes c rule: evict_until.induct)
  case (1 bytes c)
  then show ?case using evict_one_wf by (subst evict_until.simps) simp
qed

lemma evict_one_same: "ec_budget_bytes (snd (evict_one c)) = ec_budget_bytes c \<and> ec_tick (snd (evict_one c)) = ec_tick c"
  by (simp add: evict_one_def split: list.split prod.split)

lemma evict_until_same:
  "ec_budget_bytes (evict_until bytes c) = ec_budget_bytes c \<and> ec_tick (evict_until bytes c) = ec_tick c"
proof (induction bytes c rule: evict_until.induct)
  case (1 bytes c)
  then show ?case using evict_one_same [of c] by (subst (1 2) evict_until.simps) simp
qed

text \<open>The loop makes room for whatever fits the budget at all.\<close>

lemma evict_until_room:
  "cache_wf c \<Longrightarrow> bytes \<le> ec_budget_bytes c \<Longrightarrow> ec_used_bytes (evict_until bytes c) + bytes \<le> ec_budget_bytes c"
proof (induction bytes c rule: evict_until.induct)
  case (1 bytes c)
  show ?case
  proof (cases "ec_used_bytes c + bytes > ec_budget_bytes c \<and> fst (evict_one c)")
    case True
    then show ?thesis
      using 1 evict_one_wf evict_one_same [of c] by (subst evict_until.simps) simp
  next
    case False
    have "ec_used_bytes c = 0" if empty: "ec_order c = []"
    proof -
      have "map_of (ec_vectors c) s = None" for s
        using cache_wfD(3) [OF 1(2), of _ s] empty by (cases "map_of (ec_vectors c) s") auto
      then have "map_of (ec_vectors c) = Map.empty" by (intro ext) simp
      then have "ec_vectors c = []" by simp
      then show ?thesis using cache_wfD(5) [OF 1(2)] by simp
    qed
    moreover have "\<not> fst (evict_one c) \<Longrightarrow> ec_order c = []" by (auto simp: evict_one_def split: list.splits)
    ultimately show ?thesis using False 1(3) by (subst evict_until.simps) auto
  qed
qed


section \<open>Reading and writing\<close>

lemma map_le_Some: "m \<subseteq>\<^sub>m n \<Longrightarrow> m k = Some v \<Longrightarrow> n k = Some v"
  by (metis domI map_le_def)

text \<open>\<open>order.insert(tick, slot)\<close> and \<open>vectors.insert\<close> at a tick no entry has, for a slot the cache lacks.\<close>

definition cache_add :: "int \<Rightarrow> f32 list \<Rightarrow> exact_cache \<Rightarrow> exact_cache" where
  "cache_add slot vector c =
     c\<lparr> ec_tick := ec_tick c + 1, ec_order := bt_insert (ec_tick c + 1) slot (ec_order c),
        ec_used_bytes := ec_used_bytes c + vector_bytes vector,
        ec_vectors := bt_insert slot \<lparr> cd_vector = vector, cd_tick = ec_tick c + 1 \<rparr> (ec_vectors c) \<rparr>"

lemma cache_put_steps:
  "cache_put slot vector c =
     (if vector_bytes vector > ec_budget_bytes c then c
      else cache_add slot vector (evict_until (vector_bytes vector) (snd (cache_invalidate slot c))))"
  by (simp add: cache_put_def cache_add_def Let_def)

lemma cache_add_wf:
  assumes wf: "cache_wf c" and new: "map_of (ec_vectors c) slot = None"
  shows "cache_wf (cache_add slot v c)"
proof -
  note w = cache_wfD [OF wf]
  let ?c = "cache_add slot v c"
  have fresh: "map_of (ec_order c) (Suc (ec_tick c)) = None"
    using w(4) [of "Suc (ec_tick c)"] by (cases "map_of (ec_order c) (Suc (ec_tick c))") auto
  have "map_of (ec_order ?c) t = Some s \<longleftrightarrow> (\<exists>e. map_of (ec_vectors ?c) s = Some e \<and> cd_tick e = t)" for t s
    using w(3) [of t s] new fresh
    by (cases "s = slot"; cases "t = Suc (ec_tick c)") (auto simp: cache_add_def bt_insert_get)
  moreover have "map_of (ec_order ?c) t = Some s \<Longrightarrow> t \<le> ec_tick ?c" for t s
    using w(4) [of t s] by (auto simp: cache_add_def bt_insert_get split: if_splits)
  ultimately show ?thesis
    using w(1,2,5) vectors_bytes_insert [OF new] by (simp add: cache_wf_def cache_add_def bt_insert_sorted)
qed

lemma cache_get_wf: "cache_wf c \<Longrightarrow> cache_wf (snd (cache_get slot c))"
proof (cases "map_of (ec_vectors c) slot")
  case None
  then show "cache_wf c \<Longrightarrow> ?thesis" by (simp add: cache_get_def cache_wf_def)
next
  case (Some e)
  assume wf: "cache_wf c"
  note w = cache_wfD [OF wf]
  let ?c = "snd (cache_get slot c)"
  let ?tick = "Suc (ec_tick c)"
  have c: "ec_vectors ?c = bt_insert slot (e\<lparr> cd_tick := ?tick \<rparr>) (ec_vectors c)"
    "ec_order ?c = bt_insert ?tick slot (bt_remove (cd_tick e) (ec_order c))"
    "ec_tick ?c = ?tick" "ec_used_bytes ?c = ec_used_bytes c"
    using Some by (simp_all add: cache_get_def Let_def)
  have same: "map_of (ec_order c) (cd_tick e) = Some slot" using Some w(3) by blast
  have fresh: "map_of (ec_order c) ?tick = None"
    using w(4) [of ?tick] by (cases "map_of (ec_order c) ?tick") auto
  have "map_of (ec_order ?c) t = Some s \<longleftrightarrow> (\<exists>e. map_of (ec_vectors ?c) s = Some e \<and> cd_tick e = t)" for t s
  proof -
    have "(t \<noteq> cd_tick e \<and> map_of (ec_order c) t = Some s) \<longleftrightarrow>
        (s \<noteq> slot \<and> (\<exists>e. map_of (ec_vectors c) s = Some e \<and> cd_tick e = t))"
      using w(3) [of t s] same Some by (metis option.inject)
    then show ?thesis
      using w(2) fresh w(3) [of ?tick s]
      by (cases "s = slot"; cases "t = ?tick"; cases "t = cd_tick e") (auto simp: c bt_insert_get bt_remove_get)
  qed
  moreover have "map_of (ec_order ?c) t = Some s \<Longrightarrow> t \<le> ec_tick ?c" for t s
    using w(2) w(4) [of t s] by (auto simp: c bt_insert_get bt_remove_get split: if_splits)
  ultimately show ?thesis
    using w(1,2,5) vectors_bytes_touch [OF w(1) Some]
    by (simp add: cache_wf_def c bt_insert_sorted bt_remove_sorted)
qed

lemma cache_get_vectors:
  "fst (cache_get slot c) = cache_vectors c slot \<and> cache_vectors (snd (cache_get slot c)) = cache_vectors c"
  by (auto simp: cache_get_def cache_vectors_def bt_insert_get Let_def fun_eq_iff split: option.split)

lemma evict_one_vectors:
  assumes "cache_wf c"
  shows "cache_vectors (snd (evict_one c)) \<subseteq>\<^sub>m cache_vectors c"
proof (cases "ec_order c")
  case (Cons ts rest)
  then have "cache_vectors (snd (evict_one c)) = cache_vectors (snd (cache_invalidate (snd ts) c))"
    using evict_one_invalidate [OF assms, of "fst ts" "snd ts" rest] by (simp add: fun_eq_iff cache_vectors_def)
  then show ?thesis by (simp add: cache_invalidate_vectors [OF assms] map_le_def)
qed (simp add: evict_one_def)

lemma evict_until_vectors: "cache_wf c \<Longrightarrow> cache_vectors (evict_until bytes c) \<subseteq>\<^sub>m cache_vectors c"
proof (induction bytes c rule: evict_until.induct)
  case (1 bytes c)
  then show ?case
    using evict_one_wf [of c] evict_one_vectors [of c] map_le_trans by (subst evict_until.simps) auto
qed

lemma cache_put_wf:
  assumes "cache_wf c"
  shows "cache_wf (cache_put slot v c)"
proof -
  let ?d = "evict_until (vector_bytes v) (snd (cache_invalidate slot c))"
  have wf: "cache_wf (snd (cache_invalidate slot c))" by (rule cache_invalidate_wf [OF assms])
  have "cache_vectors ?d \<subseteq>\<^sub>m (cache_vectors c)(slot := None)"
    using evict_until_vectors [OF wf, of "vector_bytes v"] by (simp add: cache_invalidate_vectors [OF assms])
  then have "cache_vectors ?d slot = None"
    using map_le_Some [of "cache_vectors ?d" "(cache_vectors c)(slot := None)" slot]
    by (cases "cache_vectors ?d slot") auto
  then have "map_of (ec_vectors ?d) slot = None" by (simp add: cache_vectors_def)
  then show ?thesis
    using cache_add_wf [OF evict_until_wf [OF wf]] assms by (simp add: cache_put_steps)
qed

lemma cache_invalidate_budget: "ec_budget_bytes (snd (cache_invalidate slot c)) = ec_budget_bytes c"
  by (simp add: cache_invalidate_def split: option.split)

lemma cache_put_used:
  assumes "cache_inv c"
  shows "ec_used_bytes (cache_put slot v c) \<le> ec_budget_bytes (cache_put slot v c)"
  using assms evict_until_room [OF cache_invalidate_wf [of c slot], of "vector_bytes v"]
    evict_until_same [of "vector_bytes v" "snd (cache_invalidate slot c)"]
  by (simp add: cache_inv_def cache_put_steps cache_add_def cache_invalidate_budget)

lemma cache_put_vectors:
  assumes "cache_wf c"
  shows "cache_vectors (cache_put slot v c) \<subseteq>\<^sub>m (cache_vectors c)(slot \<mapsto> v) \<or> cache_put slot v c = c"
    and "vector_bytes v \<le> ec_budget_bytes c \<Longrightarrow> cache_vectors (cache_put slot v c) slot = Some v"
proof -
  let ?d = "evict_until (vector_bytes v) (snd (cache_invalidate slot c))"
  have add: "cache_vectors (cache_add slot v d) = (cache_vectors d)(slot \<mapsto> v)" for d
    by (auto simp: cache_vectors_def cache_add_def bt_insert_get fun_eq_iff)
  have "cache_vectors ?d \<subseteq>\<^sub>m (cache_vectors c)(slot := None)"
    using evict_until_vectors [OF cache_invalidate_wf [OF assms]] cache_invalidate_vectors [OF assms] by metis
  then have "(cache_vectors ?d)(slot \<mapsto> v) \<subseteq>\<^sub>m (cache_vectors c)(slot \<mapsto> v)"
    by (auto simp: map_le_def split: if_splits)
  then show "cache_vectors (cache_put slot v c) \<subseteq>\<^sub>m (cache_vectors c)(slot \<mapsto> v) \<or> cache_put slot v c = c"
    "vector_bytes v \<le> ec_budget_bytes c \<Longrightarrow> cache_vectors (cache_put slot v c) slot = Some v"
    by (auto simp: cache_put_steps add)
qed


section \<open>Least recently used\<close>

lemma cache_invalidate_entries:
  "cache_wf c \<Longrightarrow> map_of (ec_vectors (snd (cache_invalidate slot c))) = (map_of (ec_vectors c))(slot := None)"
  by (auto simp: cache_invalidate_def cache_wfD(1) bt_remove_get fun_eq_iff split: option.split)

text \<open>The entry evicted is older than every other one.\<close>

lemma evict_one_oldest:
  assumes wf: "cache_wf c" and some: "fst (evict_one c)"
  obtains slot e where "map_of (ec_vectors c) slot = Some e"
    "map_of (ec_vectors (snd (evict_one c))) = (map_of (ec_vectors c))(slot := None)"
    "\<And>a ea. a \<noteq> slot \<Longrightarrow> map_of (ec_vectors c) a = Some ea \<Longrightarrow> cd_tick e < cd_tick ea"
proof -
  note w = cache_wfD [OF wf]
  obtain tick slot rest where order: "ec_order c = (tick, slot) # rest"
    using some by (auto simp: evict_one_def split: list.splits)
  then obtain e where e: "map_of (ec_vectors c) slot = Some e" "cd_tick e = tick" using w(3) [of tick slot] by auto
  have less: "tick < cd_tick ea" if "a \<noteq> slot" "map_of (ec_vectors c) a = Some ea" for a ea
  proof -
    have at: "map_of (ec_order c) (cd_tick ea) = Some a" using that(2) w(3) by blast
    then have "cd_tick ea \<noteq> tick" using order that(1) by auto
    then have "(cd_tick ea, a) \<in> set rest" using at order by (auto dest: map_of_SomeD split: if_splits)
    then show ?thesis using w(2) order by (force simp: bt_sorted_def)
  qed
  show thesis
    by (rule that [OF e(1)])
      (use less e(2) cache_invalidate_entries [OF wf, of slot] evict_one_invalidate [OF wf order] in auto)
qed

lemma evict_until_lru:
  "cache_wf c \<Longrightarrow> map_of (ec_vectors (evict_until bytes c)) a = Some ea \<Longrightarrow>
     map_of (ec_vectors c) a = Some ea \<and>
     (\<forall>b eb. map_of (ec_vectors c) b = Some eb \<longrightarrow> map_of (ec_vectors (evict_until bytes c)) b = None \<longrightarrow>
        cd_tick eb < cd_tick ea)"
proof (induction bytes c rule: evict_until.induct)
  case (1 bytes c)
  show ?case
  proof (cases "ec_used_bytes c + bytes > ec_budget_bytes c \<and> fst (evict_one c)")
    case True
    let ?c = "snd (evict_one c)"
    have step: "evict_until bytes c = evict_until bytes ?c" using True by (subst evict_until.simps) simp
    obtain slot e where e: "map_of (ec_vectors c) slot = Some e"
      "map_of (ec_vectors ?c) = (map_of (ec_vectors c))(slot := None)"
      "\<And>a ea. a \<noteq> slot \<Longrightarrow> map_of (ec_vectors c) a = Some ea \<Longrightarrow> cd_tick e < cd_tick ea"
      using evict_one_oldest [OF 1(2)] True by metis
    have IH: "map_of (ec_vectors ?c) a = Some ea"
      "\<And>b eb. map_of (ec_vectors ?c) b = Some eb \<Longrightarrow> map_of (ec_vectors (evict_until bytes ?c)) b = None \<Longrightarrow>
         cd_tick eb < cd_tick ea"
      using 1(1) [OF True evict_one_wf [OF 1(2)]] 1(3) unfolding step by blast+
    have a: "a \<noteq> slot" "map_of (ec_vectors c) a = Some ea" using IH(1) e(2) by (auto split: if_splits)
    have "cd_tick eb < cd_tick ea"
      if "map_of (ec_vectors c) b = Some eb" "map_of (ec_vectors (evict_until bytes ?c)) b = None" for b eb
      using that IH(2) [of b eb] e a by (cases "b = slot") auto
    then show ?thesis using a(2) unfolding step by blast
  next
    case False
    then have "evict_until bytes c = c" by (subst evict_until.simps) (rule if_not_P)
    then show ?thesis using 1(3) by simp
  qed
qed

definition cache_age :: "exact_cache \<Rightarrow> int \<Rightarrow> nat option" where
  "cache_age c slot = map_option cd_tick (map_of (ec_vectors c) slot)"

lemma cache_put_entries:
  assumes wf: "cache_wf c" and fits: "vector_bytes v \<le> ec_budget_bytes c" and a: "a \<noteq> slot"
    and kept: "map_of (ec_vectors (cache_put slot v c)) a = Some ea"
  shows "map_of (ec_vectors c) a = Some ea"
    and "b \<noteq> slot \<Longrightarrow> map_of (ec_vectors c) b = Some eb \<Longrightarrow>
      map_of (ec_vectors (cache_put slot v c)) b = None \<Longrightarrow> cd_tick eb < cd_tick ea"
proof -
  let ?i = "snd (cache_invalidate slot c)"
  let ?d = "evict_until (vector_bytes v) ?i"
  have put: "map_of (ec_vectors (cache_put slot v c)) b = map_of (ec_vectors ?d) b" if "b \<noteq> slot" for b
    using that fits by (simp add: cache_put_steps cache_add_def bt_insert_get)
  note lru = evict_until_lru [OF cache_invalidate_wf [OF wf], of "vector_bytes v" slot a ea]
  have d: "map_of (ec_vectors ?d) a = Some ea" using kept put [OF a] by simp
  then show "map_of (ec_vectors c) a = Some ea"
    using lru a by (simp add: cache_invalidate_entries [OF wf])
  assume "b \<noteq> slot" "map_of (ec_vectors c) b = Some eb" "map_of (ec_vectors (cache_put slot v c)) b = None"
  then show "cd_tick eb < cd_tick ea"
    using lru [OF d, THEN conjunct2, rule_format, of b eb] put [of b]
    by (simp add: cache_invalidate_entries [OF wf])
qed

section \<open>The cache as a system of operations\<close>

datatype cache_op = Get int | Put int "f32 list" | Invalidate int | Clear

fun cache_apply :: "cache_op \<Rightarrow> exact_cache \<Rightarrow> exact_cache" where
  "cache_apply (Get slot) c = snd (cache_get slot c)"
| "cache_apply (Put slot v) c = cache_put slot v c"
| "cache_apply (Invalidate slot) c = snd (cache_invalidate slot c)"
| "cache_apply Clear c = cache_clear c"

lemma cache_apply_inv: "cache_inv c \<Longrightarrow> cache_inv (cache_apply op c)"
proof (cases op)
  case (Get slot)
  moreover have "ec_used_bytes (snd (cache_get slot c)) = ec_used_bytes c \<and>
      ec_budget_bytes (snd (cache_get slot c)) = ec_budget_bytes c"
    by (simp add: cache_get_def Let_def split: option.split)
  moreover assume "cache_inv c"
  ultimately show ?thesis by (simp add: cache_inv_def cache_get_wf)
next
  case (Put slot v)
  assume "cache_inv c"
  then show ?thesis using cache_put_used [of c slot v] cache_put_wf by (simp add: Put cache_inv_def)
next
  case (Invalidate slot)
  assume "cache_inv c"
  then show ?thesis
    using cache_invalidate_used [of slot c] by (simp add: Invalidate cache_inv_def cache_invalidate_wf cache_invalidate_budget)
qed (simp add: cache_clear_inv)

definition cache_step :: "exact_cache \<Rightarrow> cache_op \<Rightarrow> exact_cache \<Rightarrow> bool" where
  "cache_step c op d \<longleftrightarrow> d = cache_apply op c"

interpretation exact_caches: safe_system "\<lambda>c. \<exists>n. c = exact_cache_new n" cache_step cache_inv
  by unfold_locales (auto simp: cache_step_def cache_new_inv cache_apply_inv)

text \<open>In every cache reached from a new one by lookups, insertions, invalidations and clears the
  vectors held fit the budget; a vector that fits is retained with its contents, and making room
  for it drops only entries that were used less recently than every entry kept, whose vectors stay
  what they were; a vector larger than the whole budget changes nothing.\<close>

theorem cache_evicts_least_recent:
  assumes "reach (\<lambda>c. \<exists>n. c = exact_cache_new n) cache_step c"
  shows "ec_used_bytes c = vectors_bytes (ec_vectors c) \<and> vectors_bytes (ec_vectors c) \<le> ec_budget_bytes c \<and>
    (if vector_bytes v \<le> ec_budget_bytes c
     then fst (cache_get slot (cache_put slot v c)) = Some v \<and>
       (\<forall>a w. a \<noteq> slot \<longrightarrow> cache_vectors (cache_put slot v c) a = Some w \<longrightarrow>
          cache_vectors c a = Some w \<and>
          (\<forall>b t u. b \<noteq> slot \<longrightarrow> cache_age c b = Some t \<longrightarrow> cache_vectors (cache_put slot v c) b = None \<longrightarrow>
             cache_age c a = Some u \<longrightarrow> t < u))
     else cache_put slot v c = c)"
proof -
  have inv: "cache_inv c" by (rule exact_caches.reach_inv [OF assms])
  then have wf: "cache_wf c" by (simp add: cache_inv_def)
  show ?thesis
  proof (cases "vector_bytes v \<le> ec_budget_bytes c")
    case True
    have "cache_vectors c a = Some w \<and> (b \<noteq> slot \<longrightarrow> cache_age c b = Some t \<longrightarrow>
        cache_vectors (cache_put slot v c) b = None \<longrightarrow> cache_age c a = Some u \<longrightarrow> t < u)"
      if a: "a \<noteq> slot" "cache_vectors (cache_put slot v c) a = Some w" for a w b t u
    proof -
      obtain ea where ea: "map_of (ec_vectors (cache_put slot v c)) a = Some ea" "cd_vector ea = w"
        using a(2) by (auto simp: cache_vectors_def)
      note old = cache_put_entries [OF wf True a(1) ea(1)]
      show ?thesis using old(1) old(2) [of b] ea(2) by (auto simp: cache_vectors_def cache_age_def)
    qed
    then show ?thesis
      using True inv cache_wfD(5) [OF wf] cache_put_vectors(2) [OF wf True] cache_get_vectors
      by (auto simp: cache_inv_def)
  next
    case False
    then show ?thesis using inv cache_wfD(5) [OF wf] by (simp add: cache_inv_def cache_put_steps)
  qed
qed

lemma cache_evicts_least_recent_witness:
  "fst (cache_get 1 (cache_put 1 [0] (exact_cache_new 4))) = Some [0]"
proof -
  have "reach (\<lambda>c. \<exists>n. c = exact_cache_new n) cache_step (exact_cache_new 4)" by (rule reach.intros) blast
  from cache_evicts_least_recent [OF this, of "[0]" 1] show ?thesis
    by (simp add: vector_bytes_def exact_cache_new_def)
qed

end
