(* ===== verification/Vector_Index.thy ===== *)
theory Vector_Index
  imports Vector_Search Vector_Cache
begin

text \<open>
  \<open>crates/supra_vector/src/index.rs\<close> and \<open>schema.rs\<close>: hybrid retrieval over one store file. The file
  is a value that any number of open handles share; each handle keeps its resident codes, its cache
  of exact vectors and the revision both were built from. SQLite enters as the rows its statements
  read and write, a failure that may strike a transaction (which then leaves the file unchanged),
  the slot it assigns to a new row, and the full-text match with its ranking. Text bodies and
  queries are lists of code points.
\<close>

section \<open>The file\<close>

type_synonym utext = "nat list"

definition MAX_DIMS :: nat where "MAX_DIMS = 4096"

record vector_meta_row =
  mr_dims :: nat
  mr_model :: string
  mr_threshold :: "byte list"
  mr_created_at :: int
  mr_revision :: nat

record vector_row =
  vr_locator :: string
  vr_embedding :: "byte list"
  vr_code :: "byte list"
  vr_updated_at :: int

record vector_file =
  vf_meta :: "vector_meta_row option"
  vf_entries :: "(int, vector_row) btree"
  vf_text :: "(int, utext) btree"

definition vector_file_new :: vector_file where
  "vector_file_new = \<lparr> vf_meta = None, vf_entries = [], vf_text = [] \<rparr>"

text \<open>The checks of the two tables.\<close>

definition meta_row_ok :: "vector_meta_row \<Rightarrow> bool" where
  "meta_row_ok m \<longleftrightarrow> 0 < mr_dims m \<and> mr_dims m mod 8 = 0 \<and> mr_dims m \<le> 4096 \<and> mr_model m \<noteq> [] \<and>
     length (mr_threshold m) = mr_dims m * 4 \<and> 0 \<le> mr_created_at m"

definition entry_row_ok :: "vector_row \<Rightarrow> bool" where
  "entry_row_ok r \<longleftrightarrow> vr_locator r \<noteq> [] \<and> vr_code r \<noteq> [] \<and> 0 \<le> vr_updated_at r \<and>
     length (vr_embedding r) = length (vr_code r) * 32"

record ('b) vector_sys =
  vs_ops :: f32_ops
  vs_alloc :: "(int, vector_row) btree \<Rightarrow> int"
  vs_match :: "(int, utext) btree \<Rightarrow> utext \<Rightarrow> (int \<times> 'b) list"
  vs_alnum :: "nat \<Rightarrow> bool"
  vs_lower :: "utext \<Rightarrow> utext"

definition row_of_locator :: "string \<Rightarrow> (int, vector_row) btree \<Rightarrow> (int \<times> vector_row) option" where
  "row_of_locator locator entries = List.find (\<lambda>(slot, r). vr_locator r = locator) entries"

section \<open>Handles\<close>

record index_options =
  io_rerank_width :: nat
  io_cache_bytes :: nat

definition DEFAULT_RERANK_WIDTH :: nat where "DEFAULT_RERANK_WIDTH = 100"
definition MAX_QUERY_TOKENS :: nat where "MAX_QUERY_TOKENS = 32"
definition DEFAULT_CACHE_BYTES :: nat where "DEFAULT_CACHE_BYTES = 16 * 1024 * 1024"

definition index_options_default :: index_options where
  "index_options_default = \<lparr> io_rerank_width = DEFAULT_RERANK_WIDTH, io_cache_bytes = DEFAULT_CACHE_BYTES \<rparr>"

record index_meta =
  im_dims :: nat
  im_model :: string
  im_threshold :: "f32 list"
  im_created_at :: int

definition meta_code_bytes :: "index_meta \<Rightarrow> nat" where
  "meta_code_bytes m = im_dims m div 8"

record vector_index =
  vi_meta :: index_meta
  vi_options :: index_options
  vi_codes :: code_table
  vi_cache :: exact_cache
  vi_revision :: nat

section \<open>Reading the file\<close>

definition read_revision :: "vector_file \<Rightarrow> nat" where
  "read_revision f = (case vf_meta f of Some m \<Rightarrow> mr_revision m | None \<Rightarrow> 0)"

definition read_meta :: "vector_file \<Rightarrow> (index_meta option, vector_error) outcome" where
  "read_meta f =
     (case vf_meta f of
        None \<Rightarrow> Ok None
      | Some m \<Rightarrow> bind_outcome (decode_embedding (mr_threshold m) (mr_dims m)) (\<lambda>threshold.
          Ok (Some \<lparr> im_dims = mr_dims m, im_model = mr_model m, im_threshold = threshold,
                     im_created_at = mr_created_at m \<rparr>)))"

text \<open>\<open>write_meta\<close> and \<open>bump_revision\<close>, in a transaction.\<close>

definition write_meta :: "string \<Rightarrow> nat \<Rightarrow> f32 list \<Rightarrow> int \<Rightarrow> vector_file \<Rightarrow> (vector_file, vector_error) outcome" where
  "write_meta model dims threshold now f =
     (let m = \<lparr> mr_dims = dims, mr_model = model, mr_threshold = encode_embedding threshold,
                mr_created_at = now, mr_revision = 0 \<rparr>
      in if meta_row_ok m \<and> vf_meta f = None then Ok (f\<lparr> vf_meta := Some m \<rparr>)
         else Err (VectorSqlite ''constraint failed''))"

definition bump_revision :: "vector_file \<Rightarrow> (nat \<times> vector_file, vector_error) outcome" where
  "bump_revision f =
     (case vf_meta f of
        None \<Rightarrow> Err (VectorSqlite ''Query returned no rows'')
      | Some m \<Rightarrow> Ok (mr_revision m + 1, f\<lparr> vf_meta := Some (m\<lparr> mr_revision := mr_revision m + 1 \<rparr>) \<rparr>))"

fun load_rows :: "nat \<Rightarrow> (int \<times> vector_row) list \<Rightarrow> code_table \<Rightarrow> (code_table, vector_error) outcome" where
  "load_rows width [] table = Ok table"
| "load_rows width ((slot, r) # rows) table =
     (let (taken, table) = ct_upsert slot (vr_code r) table
      in if taken then load_rows width rows table
         else Err (Malformed (CodeWidth slot (length (vr_code r)) width)))"

definition load_codes :: "vector_file \<Rightarrow> index_meta \<Rightarrow> (code_table, vector_error) outcome" where
  "load_codes f meta =
     load_rows (meta_code_bytes meta) (vf_entries f) (code_table_new (meta_code_bytes meta))"

section \<open>Opening\<close>

fun first_not_finite :: "nat \<Rightarrow> f32 list \<Rightarrow> (nat \<times> f32) option" where
  "first_not_finite i [] = None"
| "first_not_finite i (x # xs) = (if \<not> f32_is_finite x then Some (i, x) else first_not_finite (Suc i) xs)"

definition check_open :: "string \<Rightarrow> nat \<Rightarrow> f32 list \<Rightarrow> (unit, vector_error) outcome" where
  "check_open model dims threshold =
     (if dims = 0 \<or> dims mod 8 \<noteq> 0 \<or> MAX_DIMS < dims then Err (Degenerate (UnusableDims dims))
      else if length threshold \<noteq> dims then Err (WrongWidth dims (length threshold))
      else if model = [] then Err (Degenerate EmptyModel)
      else case first_not_finite 0 threshold of
             Some (i, x) \<Rightarrow> Err (Degenerate (ThresholdNotFinite i x))
           | None \<Rightarrow> Ok ())"

text \<open>The first transaction: the configuration found, or the one just written.\<close>

definition find_or_write_meta ::
  "string \<Rightarrow> nat \<Rightarrow> f32 list \<Rightarrow> int \<Rightarrow> vector_file \<Rightarrow> (index_meta option \<times> vector_file, vector_error) outcome" where
  "find_or_write_meta model dims threshold now f =
     bind_outcome (read_meta f) (\<lambda>found.
       case found of
         Some m \<Rightarrow> Ok (Some m, f)
       | None \<Rightarrow> bind_outcome (write_meta model dims threshold now f) (\<lambda>f. Ok (None, f)))"

definition accept_meta ::
  "string \<Rightarrow> nat \<Rightarrow> f32 list \<Rightarrow> int \<Rightarrow> index_meta option \<Rightarrow> (index_meta, vector_error) outcome" where
  "accept_meta model dims threshold now existing =
     (case existing of
        Some found \<Rightarrow>
          if im_model found \<noteq> model \<or> im_dims found \<noteq> dims
          then Err (ModelMismatch (im_model found) (im_dims found) model dims)
          else if encode_embedding (im_threshold found) \<noteq> encode_embedding threshold
          then Err FrozenThresholdMismatch
          else Ok found
      | None \<Rightarrow> Ok \<lparr> im_dims = dims, im_model = model, im_threshold = threshold, im_created_at = now \<rparr>)"

text \<open>\<open>migrated\<close> is the failure of \<open>migrate_component\<close>, the faults those of the two transactions.\<close>

definition vector_open ::
  "string option \<Rightarrow> string option \<Rightarrow> string option \<Rightarrow> string \<Rightarrow> nat \<Rightarrow> f32 list \<Rightarrow> index_options \<Rightarrow> int \<Rightarrow>
     vector_file \<Rightarrow> (vector_index, vector_error) outcome \<times> vector_file" where
  "vector_open migrated fault1 fault2 model dims threshold options now f =
     (case check_open model dims threshold of
        Err e \<Rightarrow> (Err e, f)
      | Panic \<Rightarrow> (Panic, f)
      | Ok _ \<Rightarrow>
          case migrated of Some e \<Rightarrow> (Err (VectorStore e), f) | None \<Rightarrow>
          case fault1 of Some e \<Rightarrow> (Err (VectorSqlite e), f) | None \<Rightarrow>
          case find_or_write_meta model dims threshold now f of
            Err e \<Rightarrow> (Err e, f)
          | Panic \<Rightarrow> (Panic, f)
          | Ok (existing, f) \<Rightarrow>
              (bind_outcome (accept_meta model dims threshold now existing) (\<lambda>meta.
                 case fault2 of Some e \<Rightarrow> Err (VectorSqlite e) | None \<Rightarrow>
                 bind_outcome (load_codes f meta) (\<lambda>codes.
                   Ok \<lparr> vi_meta = meta, vi_options = options, vi_codes = codes,
                        vi_cache = exact_cache_new (io_cache_bytes options),
                        vi_revision = read_revision f \<rparr>)), f))"

section \<open>Writing\<close>

text \<open>The statements of one \<open>upsert\<close>: the row by locator, its text, the revision.\<close>

definition sql_upsert ::
  "'b vector_sys \<Rightarrow> vector_row \<Rightarrow> utext \<Rightarrow> vector_file \<Rightarrow> (int \<times> nat \<times> vector_file, vector_error) outcome" where
  "sql_upsert S row body f =
     (if \<not> entry_row_ok row then Err (VectorSqlite ''constraint failed'')
      else
        let slot = (case row_of_locator (vr_locator row) (vf_entries f) of
                      Some (s, _) \<Rightarrow> s | None \<Rightarrow> vs_alloc S (vf_entries f));
            f = f\<lparr> vf_entries := bt_insert slot row (vf_entries f),
                   vf_text := bt_insert slot body (bt_remove slot (vf_text f)) \<rparr>
        in bind_outcome (bump_revision f) (\<lambda>(revision, f). Ok (slot, revision, f)))"

definition vector_upsert ::
  "'b vector_sys \<Rightarrow> string option \<Rightarrow> int \<Rightarrow> string \<Rightarrow> utext \<Rightarrow> f32 list \<Rightarrow> vector_index \<times> vector_file \<Rightarrow>
     (int, vector_error) outcome \<times> vector_index \<times> vector_file" where
  "vector_upsert S fault now locator body embedding hf =
     (let (h, f) = hf
      in if locator = [] then (Err (Degenerate EmptyLocator), h, f)
         else case validate (vs_ops S) embedding (im_dims (vi_meta h)) of
           Err e \<Rightarrow> (Err e, h, f) | Panic \<Rightarrow> (Panic, h, f)
         | Ok _ \<Rightarrow>
           case encode embedding (im_threshold (vi_meta h)) of
             Err e \<Rightarrow> (Err e, h, f) | Panic \<Rightarrow> (Panic, h, f)
           | Ok code \<Rightarrow>
             case fault of Some e \<Rightarrow> (Err (VectorSqlite e), h, f) | None \<Rightarrow>
             case sql_upsert S \<lparr> vr_locator = locator, vr_embedding = encode_embedding embedding,
                                 vr_code = code, vr_updated_at = now \<rparr> body f of
               Err e \<Rightarrow> (Err e, h, f) | Panic \<Rightarrow> (Panic, h, f)
             | Ok (slot, revision, f) \<Rightarrow>
                 (Ok slot,
                  h\<lparr> vi_codes := snd (ct_upsert slot code (vi_codes h)),
                     vi_cache := snd (cache_invalidate slot (vi_cache h)),
                     vi_revision := revision \<rparr>, f))"

definition sql_remove :: "string \<Rightarrow> vector_file \<Rightarrow> ((int \<times> nat) option \<times> vector_file, vector_error) outcome" where
  "sql_remove locator f =
     (case row_of_locator locator (vf_entries f) of
        None \<Rightarrow> Ok (None, f)
      | Some (slot, _) \<Rightarrow>
          let f = f\<lparr> vf_entries := bt_remove slot (vf_entries f), vf_text := bt_remove slot (vf_text f) \<rparr>
          in bind_outcome (bump_revision f) (\<lambda>(revision, f). Ok (Some (slot, revision), f)))"

definition vector_remove ::
  "string option \<Rightarrow> string \<Rightarrow> vector_index \<times> vector_file \<Rightarrow>
     (bool, vector_error) outcome \<times> vector_index \<times> vector_file" where
  "vector_remove fault locator hf =
     (let (h, f) = hf
      in case fault of Some e \<Rightarrow> (Err (VectorSqlite e), h, f) | None \<Rightarrow>
         case sql_remove locator f of
           Err e \<Rightarrow> (Err e, h, f) | Panic \<Rightarrow> (Panic, h, f)
         | Ok (None, f) \<Rightarrow> (Ok False, h, f)
         | Ok (Some (slot, revision), f) \<Rightarrow>
             (Ok True,
              h\<lparr> vi_codes := snd (ct_remove slot (vi_codes h)),
                 vi_cache := snd (cache_invalidate slot (vi_cache h)),
                 vi_revision := revision \<rparr>, f))"


section \<open>Searching\<close>

record ('b) hit =
  hit_slot :: int
  hit_locator :: string
  hit_similarity :: "f32 option"
  hit_bm25 :: "'b option"

definition sync_if_stale :: "vector_file \<Rightarrow> vector_index \<Rightarrow> (unit, vector_error) outcome \<times> vector_index" where
  "sync_if_stale f h =
     (if vi_revision h = read_revision f then (Ok (), h)
      else case load_codes f (vi_meta h) of
        Err e \<Rightarrow> (Err e, h)
      | Panic \<Rightarrow> (Panic, h)
      | Ok codes \<Rightarrow>
          (Ok (), h\<lparr> vi_codes := codes, vi_cache := exact_cache_new (io_cache_bytes (vi_options h)),
                     vi_revision := read_revision f \<rparr>))"

definition exact :: "vector_file \<Rightarrow> int \<Rightarrow> vector_index \<Rightarrow> (f32 list, vector_error) outcome \<times> vector_index" where
  "exact f slot h =
     (let (cached, cache) = cache_get slot (vi_cache h); h = h\<lparr> vi_cache := cache \<rparr>
      in case cached of
           Some v \<Rightarrow> (Ok v, h)
         | None \<Rightarrow>
             case map_of (vf_entries f) slot of
               None \<Rightarrow> (Err (Malformed (NoRowBehind slot)), h)
             | Some r \<Rightarrow>
                 case decode_embedding (vr_embedding r) (im_dims (vi_meta h)) of
                   Ok v \<Rightarrow> (Ok v, h\<lparr> vi_cache := cache_put slot v (vi_cache h) \<rparr>)
                 | Err e \<Rightarrow> (Err e, h)
                 | Panic \<Rightarrow> (Panic, h))"

fun score_all ::
  "f32_ops \<Rightarrow> f32 list \<Rightarrow> vector_file \<Rightarrow> int list \<Rightarrow> vector_index \<Rightarrow>
     (scored list, vector_error) outcome \<times> vector_index" where
  "score_all F query f [] h = (Ok [], h)"
| "score_all F query f (slot # slots) h =
     (case exact f slot h of
        (Ok v, h) \<Rightarrow>
          (case score_all F query f slots h of
             (Ok rest, h) \<Rightarrow> (Ok (\<lparr> sc_slot = slot, sc_similarity = similarity F query v \<rparr> # rest), h)
           | (r, h) \<Rightarrow> (r, h))
      | (Err e, h) \<Rightarrow> (Err e, h)
      | (Panic, h) \<Rightarrow> (Panic, h))"

fun name_hits :: "vector_file \<Rightarrow> scored list \<Rightarrow> ('b hit list, vector_error) outcome" where
  "name_hits f [] = Ok []"
| "name_hits f (s # ss) =
     (case map_of (vf_entries f) (sc_slot s) of
        None \<Rightarrow> Err (Malformed (NoRowBehind (sc_slot s)))
      | Some r \<Rightarrow> bind_outcome (name_hits f ss) (\<lambda>hits.
          Ok (\<lparr> hit_slot = sc_slot s, hit_locator = vr_locator r, hit_similarity = Some (sc_similarity s),
               hit_bm25 = None \<rparr> # hits)))"

definition search_semantic ::
  "'b vector_sys \<Rightarrow> string option \<Rightarrow> f32 list \<Rightarrow> nat \<Rightarrow> vector_file \<Rightarrow> vector_index \<Rightarrow>
     ('b hit list, vector_error) outcome \<times> vector_index" where
  "search_semantic S fault query limit_hits f h =
     (case validate (vs_ops S) query (im_dims (vi_meta h)) of
        Err e \<Rightarrow> (Err e, h) | Panic \<Rightarrow> (Panic, h)
      | Ok _ \<Rightarrow>
        if limit_hits = 0 then (Ok [], h)
        else case encode query (im_threshold (vi_meta h)) of
          Err e \<Rightarrow> (Err e, h) | Panic \<Rightarrow> (Panic, h)
        | Ok query_code \<Rightarrow>
          case fault of Some e \<Rightarrow> (Err (VectorSqlite e), h) | None \<Rightarrow>
          case sync_if_stale f h of
            (Err e, h) \<Rightarrow> (Err e, h) | (Panic, h) \<Rightarrow> (Panic, h)
          | (Ok _, h) \<Rightarrow>
            case nearest (vi_codes h) query_code (max (io_rerank_width (vi_options h)) limit_hits) of
              Err e \<Rightarrow> (Err e, h) | Panic \<Rightarrow> (Panic, h)
            | Ok [] \<Rightarrow> (Ok [], h)
            | Ok found \<Rightarrow>
                case score_all (vs_ops S) query f (map ca_slot found) h of
                  (Err e, h) \<Rightarrow> (Err e, h) | (Panic, h) \<Rightarrow> (Panic, h)
                | (Ok scored, h) \<Rightarrow> (name_hits f (take limit_hits (order_exact scored)), h))"

text \<open>The query of the lexical lane: quoted terms joined by \<open>OR\<close>. \<open>34\<close> is the double quote, \<open>95\<close> the underscore.\<close>

definition utext_of :: "string \<Rightarrow> utext" where
  "utext_of s = map of_char s"

definition push_term :: "'b vector_sys \<Rightarrow> utext list \<Rightarrow> utext \<Rightarrow> utext list" where
  "push_term S terms trm =
     (if MAX_QUERY_TOKENS \<le> length terms then terms
      else let quoted = 34 # vs_lower S trm @ [34]
           in if quoted \<in> set terms then terms else terms @ [quoted])"

fun collect_terms :: "'b vector_sys \<Rightarrow> utext \<Rightarrow> utext list \<Rightarrow> utext \<Rightarrow> utext list" where
  "collect_terms S [] terms current = (if current \<noteq> [] then push_term S terms current else terms)"
| "collect_terms S (c # cs) terms current =
     (if vs_alnum S c \<or> c = 95 then collect_terms S cs terms (current @ [c])
      else if current \<noteq> [] then collect_terms S cs (push_term S terms current) []
      else collect_terms S cs terms [])"

fun join_utext :: "utext \<Rightarrow> utext list \<Rightarrow> utext" where
  "join_utext sep [] = []"
| "join_utext sep [x] = x"
| "join_utext sep (x # xs) = x @ sep @ join_utext sep xs"

definition lexical_query :: "'b vector_sys \<Rightarrow> utext \<Rightarrow> utext option" where
  "lexical_query S text_in =
     (let terms = collect_terms S text_in [] []
      in if terms = [] then None else Some (join_utext (utext_of '' OR '') terms))"

text \<open>The statement joins the ranked matches with the entries, and its limit counts joined rows.\<close>

fun join_matches :: "(int, vector_row) btree \<Rightarrow> (int \<times> 'b) list \<Rightarrow> 'b hit list" where
  "join_matches entries [] = []"
| "join_matches entries ((slot, score) # ms) =
     (case map_of entries slot of
        None \<Rightarrow> join_matches entries ms
      | Some r \<Rightarrow> \<lparr> hit_slot = slot, hit_locator = vr_locator r, hit_similarity = None, hit_bm25 = Some score \<rparr>
                  # join_matches entries ms)"

definition search_lexical ::
  "'b vector_sys \<Rightarrow> string option \<Rightarrow> utext \<Rightarrow> nat \<Rightarrow> vector_file \<Rightarrow> ('b hit list, vector_error) outcome" where
  "search_lexical S fault text_in limit_hits f =
     (if limit_hits = 0 then Ok []
      else case lexical_query S text_in of
        None \<Rightarrow> Ok []
      | Some query \<Rightarrow>
          case fault of Some e \<Rightarrow> Err (VectorSqlite e) | None \<Rightarrow>
          Ok (take limit_hits (join_matches (vf_entries f) (vs_match S (vf_text f) query))))"

definition hit_of :: "int \<Rightarrow> 'b hit list \<Rightarrow> 'b hit option" where
  "hit_of slot hits = List.find (\<lambda>h. hit_slot h = slot) hits"

fun fused_hits :: "'b hit list \<Rightarrow> 'b hit list \<Rightarrow> fused list \<Rightarrow> ('b hit list, vector_error) outcome" where
  "fused_hits semantic lexical [] = Ok []"
| "fused_hits semantic lexical (e # es) =
     (let s = hit_of (fu_slot e) semantic; l = hit_of (fu_slot e) lexical
      in case (case s of Some h \<Rightarrow> Some h | None \<Rightarrow> l) of
           None \<Rightarrow> Err (Malformed (FusedFromNoLane (fu_slot e)))
         | Some h \<Rightarrow> bind_outcome (fused_hits semantic lexical es) (\<lambda>hits.
             Ok (\<lparr> hit_slot = fu_slot e, hit_locator = hit_locator h,
                  hit_similarity = Option.bind s hit_similarity, hit_bm25 = Option.bind l hit_bm25 \<rparr> # hits)))"

definition search_hybrid ::
  "'b vector_sys \<Rightarrow> string option \<Rightarrow> string option \<Rightarrow> utext \<Rightarrow> f32 list \<Rightarrow> nat \<Rightarrow> nat \<Rightarrow> vector_file \<Rightarrow> vector_file \<Rightarrow>
     vector_index \<Rightarrow> ('b hit list, vector_error) outcome \<times> vector_index" where
  "search_hybrid S fault1 fault2 text_in query limit_hits depth f1 f2 h =
     (if limit_hits = 0 then (Ok [], h)
      else
        let depth = max depth limit_hits
        in case search_semantic S fault1 query depth f1 h of
             (Err e, h) \<Rightarrow> (Err e, h) | (Panic, h) \<Rightarrow> (Panic, h)
           | (Ok semantic, h) \<Rightarrow>
               (bind_outcome (search_lexical S fault2 text_in depth f2) (\<lambda>lexical.
                  fused_hits semantic lexical
                    (take limit_hits (fuse [map hit_slot semantic, map hit_slot lexical]))), h))"

definition vector_embedding ::
  "string option \<Rightarrow> string \<Rightarrow> vector_file \<Rightarrow> vector_index \<Rightarrow> (f32 list, vector_error) outcome" where
  "vector_embedding fault locator f h =
     (case fault of Some e \<Rightarrow> Err (VectorSqlite e) | None \<Rightarrow>
      case row_of_locator locator (vf_entries f) of
        None \<Rightarrow> Err (NotFound locator)
      | Some (_, r) \<Rightarrow> decode_embedding (vr_embedding r) (im_dims (vi_meta h)))"

definition vector_contains :: "string option \<Rightarrow> string \<Rightarrow> vector_file \<Rightarrow> (bool, vector_error) outcome" where
  "vector_contains fault locator f =
     (case fault of Some e \<Rightarrow> Err (VectorSqlite e) | None \<Rightarrow>
      Ok (row_of_locator locator (vf_entries f) \<noteq> None))"


section \<open>What a sound file holds, and a coherent handle\<close>

definition meta_ok :: "index_meta \<Rightarrow> bool" where
  "meta_ok m \<longleftrightarrow> 0 < im_dims m \<and> im_dims m mod 8 = 0 \<and> length (im_threshold m) = im_dims m"

definition row_ok :: "index_meta \<Rightarrow> vector_row \<Rightarrow> bool" where
  "row_ok m r \<longleftrightarrow> (\<exists>v. decode_embedding (vr_embedding r) (im_dims m) = Ok v \<and>
     length v = im_dims m \<and> encode v (im_threshold m) = Ok (vr_code r))"

definition file_ok :: "index_meta \<Rightarrow> vector_file \<Rightarrow> bool" where
  "file_ok m f \<longleftrightarrow> vf_meta f \<noteq> None \<and> bt_sorted (vf_entries f) \<and>
     distinct (map (\<lambda>kv. vr_locator (snd kv)) (vf_entries f)) \<and> (\<forall>kv \<in> set (vf_entries f). row_ok m (snd kv))"

definition row_vector :: "index_meta \<Rightarrow> vector_row \<Rightarrow> f32 list" where
  "row_vector m r = (case decode_embedding (vr_embedding r) (im_dims m) of Ok v \<Rightarrow> v | _ \<Rightarrow> [])"

lemma row_ok_vector: "row_ok m r \<Longrightarrow> decode_embedding (vr_embedding r) (im_dims m) = Ok (row_vector m r)"
  by (auto simp: row_ok_def row_vector_def)

lemma meta_ok_bytes: "meta_ok m \<Longrightarrow> 0 < meta_code_bytes m \<and> div_ceil (im_dims m) 8 = meta_code_bytes m"
  by (cases "im_dims m < 8") (auto simp: meta_ok_def meta_code_bytes_def div_ceil_def div_greater_zero_iff)

lemma row_ok_code: "meta_ok m \<Longrightarrow> row_ok m r \<Longrightarrow> length (vr_code r) = meta_code_bytes m"
  using meta_ok_bytes by (auto simp: row_ok_def dest!: encode_length)

lemma file_ok_row: "file_ok m f \<Longrightarrow> map_of (vf_entries f) s = Some r \<Longrightarrow> row_ok m r"
  by (auto simp: file_ok_def dest!: map_of_SomeD)

text \<open>The resident tiers of a handle, apart from what the file holds.\<close>

definition handle_ok :: "vector_index \<Rightarrow> bool" where
  "handle_ok h \<longleftrightarrow> meta_ok (vi_meta h) \<and> ct_inv (vi_codes h) \<and> ct_stride (vi_codes h) = meta_code_bytes (vi_meta h) \<and>
     cache_inv (vi_cache h)"

definition file_codes :: "vector_file \<Rightarrow> int \<rightharpoonup> byte list" where
  "file_codes f slot = map_option vr_code (map_of (vf_entries f) slot)"

definition cache_true :: "index_meta \<Rightarrow> vector_file \<Rightarrow> exact_cache \<Rightarrow> bool" where
  "cache_true m f c \<longleftrightarrow>
     (\<forall>s v. cache_vectors c s = Some v \<longrightarrow> (\<exists>r. map_of (vf_entries f) s = Some r \<and> row_vector m r = v))"

definition coherent :: "vector_file \<Rightarrow> vector_index \<Rightarrow> bool" where
  "coherent f h \<longleftrightarrow> ct_codes (vi_codes h) = file_codes f \<and> cache_true (vi_meta h) f (vi_cache h)"

lemma ct_new_inv: "ct_inv (code_table_new n)"
  using code_table_new_rep ct_inv_def by blast

lemma ct_stride_new: "ct_stride (code_table_new n) = n"
  by (simp add: code_table_new_def)

lemma ct_codes_new: "ct_codes (code_table_new n) = Map.empty"
  by (rule ext) (simp add: ct_codes_def code_table_new_def)

lemma ct_upsert_stride: "ct_stride (snd (ct_upsert s c t)) = ct_stride t"
  by (simp add: ct_upsert_def split: option.split)

lemma ct_remove_stride: "ct_stride (snd (ct_remove s t)) = ct_stride t"
  by (simp add: ct_remove_def Let_def split: option.split prod.split)

lemma cache_true_empty: "cache_true m f (exact_cache_new n)"
  by (simp add: cache_true_def cache_vectors_def exact_cache_new_def)

text \<open>Loading a sound file gives exactly its codes.\<close>

lemma load_rows_Ok:
  "ct_inv t \<Longrightarrow> ct_stride t = width \<Longrightarrow> distinct (map fst rows) \<Longrightarrow>
     \<forall>kv \<in> set rows. length (vr_code (snd kv)) = width \<Longrightarrow>
     \<exists>t'. load_rows width rows t = Ok t' \<and> ct_inv t' \<and> ct_stride t' = width \<and>
       (\<forall>s. ct_codes t' s = (case map_of rows s of Some r \<Rightarrow> Some (vr_code r) | None \<Rightarrow> ct_codes t s))"
proof (induction rows arbitrary: t)
  case (Cons kv rows)
  obtain slot r where kv: "kv = (slot, r)" by force
  obtain cs where rep: "ct_rep t cs" using Cons.prems(1) ct_inv_def by blast
  let ?t = "snd (ct_upsert slot (vr_code r) t)"
  have len: "length (vr_code r) = ct_stride t" using Cons.prems(2,4) kv by simp
  note up = ct_upsert_rep [OF rep len, of slot]
  have "\<exists>t'. load_rows width rows ?t = Ok t' \<and> ct_inv t' \<and> ct_stride t' = width \<and>
      (\<forall>s. ct_codes t' s = (case map_of rows s of Some r \<Rightarrow> Some (vr_code r) | None \<Rightarrow> ct_codes ?t s))"
    using Cons.prems up(2) by (intro Cons.IH) (auto simp: ct_inv_def ct_upsert_stride)
  then obtain t' where t': "load_rows width rows ?t = Ok t'" "ct_inv t'" "ct_stride t' = width"
    "\<And>s. ct_codes t' s = (case map_of rows s of Some r \<Rightarrow> Some (vr_code r) | None \<Rightarrow> ct_codes ?t s)" by blast
  have "map_of rows slot = None" using Cons.prems(3) kv by (simp add: map_of_eq_None_iff)
  then have "ct_codes t' s = (case map_of (kv # rows) s of Some r \<Rightarrow> Some (vr_code r) | None \<Rightarrow> ct_codes t s)" for s
    using t'(4) [of s] up(3) kv by (cases "s = slot") (simp_all split: option.split)
  moreover have "load_rows width (kv # rows) t = Ok t'"
    using up(1) t'(1) by (simp add: kv case_prod_unfold Let_def) (metis fst_conv)
  ultimately show ?case using t'(2,3) by blast
qed auto

lemma load_codes_Ok:
  assumes "meta_ok m" "file_ok m f"
  shows "\<exists>t. load_codes f m = Ok t \<and> ct_inv t \<and> ct_stride t = meta_code_bytes m \<and> ct_codes t = file_codes f"
proof -
  have "\<exists>t. load_rows (meta_code_bytes m) (vf_entries f) (code_table_new (meta_code_bytes m)) = Ok t \<and> ct_inv t \<and>
      ct_stride t = meta_code_bytes m \<and> (\<forall>s. ct_codes t s =
        (case map_of (vf_entries f) s of Some r \<Rightarrow> Some (vr_code r)
         | None \<Rightarrow> ct_codes (code_table_new (meta_code_bytes m)) s))"
    using assms row_ok_code by (intro load_rows_Ok)
      (auto simp: ct_new_inv ct_stride_new file_ok_def bt_sorted_distinct)
  then show ?thesis
    by (auto simp: load_codes_def file_codes_def ct_codes_new fun_eq_iff split: option.split)
qed

lemma sync_coherent:
  assumes "handle_ok h" "file_ok (vi_meta h) f" "vi_revision h = read_revision f \<longrightarrow> coherent f h"
  shows "\<exists>h'. sync_if_stale f h = (Ok (), h') \<and> handle_ok h' \<and> coherent f h' \<and> vi_revision h' = read_revision f \<and>
    vi_meta h' = vi_meta h \<and> vi_options h' = vi_options h"
proof (cases "vi_revision h = read_revision f")
  case False
  obtain t where "load_codes f (vi_meta h) = Ok t" "ct_inv t" "ct_stride t = meta_code_bytes (vi_meta h)"
    "ct_codes t = file_codes f"
    using load_codes_Ok assms(1,2) handle_ok_def by blast
  then show ?thesis
    using False assms(1)
    by (auto simp: sync_if_stale_def handle_ok_def coherent_def cache_new_inv cache_true_empty)
qed (use assms in \<open>auto simp: sync_if_stale_def\<close>)


section \<open>The semantic lane over a sound file\<close>

lemma cache_trueD:
  "cache_true m f c \<Longrightarrow> cache_vectors c s = Some v \<Longrightarrow> map_of (vf_entries f) s = Some r \<Longrightarrow> row_vector m r = v"
  unfolding cache_true_def by (metis option.inject)

lemma exact_Ok:
  assumes ok: "handle_ok h" "file_ok (vi_meta h) f" and true: "cache_true (vi_meta h) f (vi_cache h)"
    and row: "map_of (vf_entries f) s = Some r"
  shows "\<exists>c. exact f s h = (Ok (row_vector (vi_meta h) r), h\<lparr> vi_cache := c \<rparr>) \<and> cache_inv c \<and>
    cache_true (vi_meta h) f c"
proof -
  let ?g = "snd (cache_get s (vi_cache h))"
  have inv: "cache_inv (vi_cache h)" using ok(1) by (simp add: handle_ok_def)
  have g: "cache_inv ?g" using cache_apply_inv [OF inv, of "Get s"] by simp
  note get = cache_get_vectors [of s "vi_cache h"]
  have g_true: "cache_true (vi_meta h) f ?g" using true get by (simp add: cache_true_def)
  have step: "cache_get s (vi_cache h) = (fst (cache_get s (vi_cache h)), ?g)" by simp
  show ?thesis
  proof (cases "fst (cache_get s (vi_cache h))")
    case (Some v)
    then have "cache_vectors (vi_cache h) s = Some v" using get by simp
    then have "v = row_vector (vi_meta h) r" using cache_trueD [OF true _ row] by simp
    then show ?thesis
      using g g_true Some by (intro exI [of _ ?g]) (subst exact_def, subst step, simp)
  next
    case None
    let ?v = "row_vector (vi_meta h) r"
    let ?p = "cache_put s ?v ?g"
    have dec: "decode_embedding (vr_embedding r) (im_dims (vi_meta h)) = Ok ?v"
      by (rule row_ok_vector [OF file_ok_row [OF ok(2) row]])
    have wf: "cache_wf ?g" using g by (simp add: cache_inv_def)
    have p: "cache_inv ?p" using cache_apply_inv [OF g, of "Put s ?v"] by simp
    have "cache_true (vi_meta h) f ?p"
      unfolding cache_true_def
    proof (intro allI impI)
      fix a w assume a: "cache_vectors ?p a = Some w"
      show "\<exists>r. map_of (vf_entries f) a = Some r \<and> row_vector (vi_meta h) r = w"
      proof (cases "?p = ?g")
        case False
        then have "((cache_vectors ?g)(s \<mapsto> ?v)) a = Some w"
          using cache_put_vectors(1) [OF wf, of s ?v]
            map_le_Some [of "cache_vectors ?p" "(cache_vectors ?g)(s \<mapsto> ?v)" a w] a by blast
        then show ?thesis using g_true row by (auto simp: cache_true_def split: if_splits)
      qed (use a g_true in \<open>auto simp: cache_true_def\<close>)
    qed
    then show ?thesis
      using None row dec p by (intro exI [of _ ?p]) (subst exact_def, subst step, simp)
  qed
qed

definition score_of :: "f32_ops \<Rightarrow> f32 list \<Rightarrow> index_meta \<Rightarrow> vector_file \<Rightarrow> int \<Rightarrow> scored" where
  "score_of F query m f s =
     \<lparr> sc_slot = s, sc_similarity =
         similarity F query (case map_of (vf_entries f) s of Some r \<Rightarrow> row_vector m r | None \<Rightarrow> []) \<rparr>"

lemma score_all_Ok:
  "handle_ok h \<Longrightarrow> file_ok (vi_meta h) f \<Longrightarrow> cache_true (vi_meta h) f (vi_cache h) \<Longrightarrow>
     \<forall>s \<in> set slots. map_of (vf_entries f) s \<noteq> None \<Longrightarrow>
     \<exists>c. score_all F query f slots h = (Ok (map (score_of F query (vi_meta h) f) slots), h\<lparr> vi_cache := c \<rparr>) \<and>
       cache_inv c \<and> cache_true (vi_meta h) f c"
proof (induction slots arbitrary: h)
  case Nil
  then show ?case by (intro exI [of _ "vi_cache h"]) (simp add: handle_ok_def)
next
  case (Cons s slots)
  obtain r where r: "map_of (vf_entries f) s = Some r" using Cons.prems(4) by auto
  obtain c where c: "exact f s h = (Ok (row_vector (vi_meta h) r), h\<lparr> vi_cache := c \<rparr>)" "cache_inv c"
    "cache_true (vi_meta h) f c"
    using exact_Ok [OF Cons.prems(1-3) r] by blast
  let ?h = "h\<lparr> vi_cache := c \<rparr>"
  have "handle_ok ?h" using Cons.prems(1) c(2) by (simp add: handle_ok_def)
  then obtain d where "score_all F query f slots ?h =
      (Ok (map (score_of F query (vi_meta h) f) slots), ?h\<lparr> vi_cache := d \<rparr>)" "cache_inv d" "cache_true (vi_meta h) f d"
    using Cons.IH [of ?h] Cons.prems(2,4) c(3) by auto
  then show ?case using c(1) r by (intro exI [of _ d]) (simp add: score_of_def)
qed

definition hit_at :: "vector_file \<Rightarrow> scored \<Rightarrow> 'b hit" where
  "hit_at f s = \<lparr> hit_slot = sc_slot s,
     hit_locator = (case map_of (vf_entries f) (sc_slot s) of Some r \<Rightarrow> vr_locator r | None \<Rightarrow> []),
     hit_similarity = Some (sc_similarity s), hit_bm25 = None \<rparr>"

lemma name_hits_Ok:
  "\<forall>s \<in> set ss. map_of (vf_entries f) (sc_slot s) \<noteq> None \<Longrightarrow> name_hits f ss = Ok (map (hit_at f) ss)"
  by (induction ss) (auto simp: hit_at_def)

text \<open>The scan of a coherent handle names rows of the file, as many as asked for.\<close>

lemma keys_of_codes: "dom (file_codes f) = fst ` set (vf_entries f)"
proof -
  have "s \<in> dom (file_codes f) \<longleftrightarrow> map_of (vf_entries f) s \<noteq> None" for s by (auto simp: file_codes_def dom_def)
  then show ?thesis by (auto simp: map_of_eq_None_iff)
qed

lemma resident_candidates:
  assumes ok: "handle_ok g" "file_ok (vi_meta g) f" and codes: "ct_codes (vi_codes g) = file_codes f"
    and width: "length code = ct_stride (vi_codes g)" "0 < ct_stride (vi_codes g)"
  shows "\<exists>found. nearest (vi_codes g) code w = (Ok found :: (_, vector_error) outcome) \<and> distinct (map ca_slot found) \<and>
    ca_slot ` set found \<subseteq> fst ` set (vf_entries f) \<and> length found = min w (length (vf_entries f))"
proof -
  obtain cs where rep: "ct_rep (vi_codes g) cs" using ok(1) by (auto simp: handle_ok_def ct_inv_def)
  have slots: "distinct (ct_slots (vi_codes g))" "length cs = length (ct_slots (vi_codes g))"
    using rep by (simp_all add: ct_rep_def)
  have dom: "set (ct_slots (vi_codes g)) = set (map fst (vf_entries f))"
    using ct_rep_map [OF rep] slots(2) codes keys_of_codes [of f] dom_map_of_zip [of "ct_slots (vi_codes g)" cs] by simp
  have "distinct (map fst (vf_entries f))" using ok(2) by (simp add: file_ok_def bt_sorted_distinct)
  then have len: "length (ct_slots (vi_codes g)) = length (vf_entries f)"
    using distinct_card [OF slots(1)] distinct_card [of "map fst (vf_entries f)"] by (simp only: dom length_map)
  let ?all = "candidates (vi_codes g) cs code"
  let ?found = "take w (sort_key candidate_key ?all)"
  have all: "map ca_slot ?all = ct_slots (vi_codes g)" by (rule candidates_slots [OF rep])
  have "ca_slot ` set ?all = set (map ca_slot ?all)" "length ?all = length (map ca_slot ?all)" by simp_all
  then have all_set: "ca_slot ` set ?all = fst ` set (vf_entries f)" "length ?all = length (vf_entries f)"
    using dom len unfolding all by simp_all
  have "distinct (map ca_slot ?all)" using slots(1) all by simp
  then have "distinct (map ca_slot (sort_key candidate_key ?all))" by (simp add: distinct_map)
  then have "distinct (map ca_slot ?found)" by (simp add: distinct_take flip: take_map)
  moreover have "ca_slot ` set ?found \<subseteq> fst ` set (vf_entries f)"
    using set_take_subset [of w "sort_key candidate_key ?all"] all_set(1) by auto
  moreover have "length ?found = min w (length (vf_entries f))" using all_set(2) by (simp add: min.commute)
  ultimately show ?thesis using nearest_eq [OF rep width(2,1)] by blast
qed

lemma search_semantic_found:
  assumes ok: "handle_ok h" "file_ok (vi_meta h) f" "vi_revision h = read_revision f \<longrightarrow> coherent f h"
    and query: "validate (vs_ops S) query (im_dims (vi_meta h)) = Ok ()" and k: "0 < k"
  shows "\<exists>(found :: candidate list) h' code. encode query (im_threshold (vi_meta h)) = Ok code \<and>
    search_semantic S None query k f h =
      (Ok (map (hit_at f) (take k (order_exact
         (map (score_of (vs_ops S) query (vi_meta h) f) (map ca_slot found))))), h') \<and>
    handle_ok h' \<and> coherent f h' \<and> vi_revision h' = read_revision f \<and>
    length found = min (max (io_rerank_width (vi_options h)) k) (length (vf_entries f)) \<and>
    distinct (map ca_slot found) \<and> ca_slot ` set found \<subseteq> fst ` set (vf_entries f)"
proof -
  let ?m = "vi_meta h"
  obtain g where g: "sync_if_stale f h = (Ok (), g)" "handle_ok g" "coherent f g" "vi_revision g = read_revision f"
    "vi_meta g = ?m" "vi_options g = vi_options h"
    using sync_coherent [OF ok] by blast
  have meta: "meta_ok ?m" using ok(1) by (simp add: handle_ok_def)
  have "length query = length (im_threshold ?m)"
    using query meta by (auto simp: validate_def meta_ok_def split: if_splits)
  then obtain code where code: "encode query (im_threshold ?m) = Ok code" "length code = div_ceil (length query) 8"
    using encode_Ok by metis
  have width: "length code = ct_stride (vi_codes g)" "0 < ct_stride (vi_codes g)"
    using g(2,5) meta_ok_bytes [OF meta] code(2) \<open>length query = _\<close> meta by (auto simp: handle_ok_def meta_ok_def)
  obtain found where near: "nearest (vi_codes g) code (max (io_rerank_width (vi_options h)) k) =
      (Ok found :: (_, vector_error) outcome)"
    and slots: "distinct (map ca_slot found)" "ca_slot ` set found \<subseteq> fst ` set (vf_entries f)"
      "length found = min (max (io_rerank_width (vi_options h)) k) (length (vf_entries f))"
    using resident_candidates [OF g(2) ok(2) [folded g(5)] _ width] g(3) unfolding coherent_def by metis
  have rows: "\<forall>s \<in> set (map ca_slot found). map_of (vf_entries f) s \<noteq> None"
    using slots(2) by (auto simp: map_of_eq_None_iff)
  obtain c where c: "score_all (vs_ops S) query f (map ca_slot found) g =
      (Ok (map (score_of (vs_ops S) query ?m f) (map ca_slot found)), g\<lparr> vi_cache := c \<rparr>)" "cache_inv c"
      "cache_true ?m f c"
    using score_all_Ok [OF g(2) _ _ rows] ok(2) g(3,5) by (auto simp: coherent_def)
  let ?scored = "map (score_of (vs_ops S) query ?m f) (map ca_slot found)"
  have "set (take k (order_exact ?scored)) \<subseteq> set ?scored"
    using set_take_subset [of k "order_exact ?scored"] set_order_exact [of ?scored] by blast
  then have names: "name_hits f (take k (order_exact ?scored)) = Ok (map (hit_at f) (take k (order_exact ?scored)))"
    using rows by (intro name_hits_Ok) (auto simp: score_of_def)
  have "\<exists>h'. search_semantic S None query k f h = (Ok (map (hit_at f) (take k (order_exact ?scored))), h') \<and>
      handle_ok h' \<and> coherent f h' \<and> vi_revision h' = read_revision f"
  proof (cases found)
    case Nil
    then show ?thesis
      using query k code(1) g near by (auto simp: search_semantic_def order_exact_def sort_by_cmp_def)
  next
    case (Cons a as)
    have "search_semantic S None query k f h = (Ok (map (hit_at f) (take k (order_exact ?scored))), g\<lparr> vi_cache := c \<rparr>)"
      using query k code(1) g(1,6) near [unfolded Cons] c(1) [unfolded Cons] names [unfolded Cons]
      by (simp add: search_semantic_def Cons)
    moreover have "handle_ok (g\<lparr> vi_cache := c \<rparr>)" "coherent f (g\<lparr> vi_cache := c \<rparr>)"
      using g(2,3,5) c(2,3) by (simp_all add: handle_ok_def coherent_def)
    ultimately show ?thesis using g(4) by auto
  qed
  then obtain h' where "search_semantic S None query k f h = (Ok (map (hit_at f) (take k (order_exact ?scored))), h')"
    "handle_ok h'" "coherent f h'" "vi_revision h' = read_revision f" by blast
  then show ?thesis
    using code(1) slots by blast
qed


section \<open>Properties of the semantic lane\<close>

lemma sort_key_same_set:
  assumes "distinct xs" "distinct ys" "set xs = set ys" "inj_on f (set xs)"
  shows "sort_key f xs = sort_key (f :: 'a \<Rightarrow> 'k :: linorder) ys"
proof -
  have "map f (sort_key f xs) = map f (sort_key f ys)"
    using assms by (intro sorted_distinct_set_unique) (simp_all add: distinct_map)
  then show ?thesis using assms(3,4) by (intro inj_on_map_eq_map [of f "sort_key f xs", THEN iffD1]) auto
qed

text \<open>The exhaustive ranking the two-stage search stands for: every row scored by its exact vector.\<close>

definition exhaustive :: "f32_ops \<Rightarrow> f32 list \<Rightarrow> index_meta \<Rightarrow> vector_file \<Rightarrow> nat \<Rightarrow> 'b hit list" where
  "exhaustive F query m f k =
     map (hit_at f) (take k (sort_key scored_key (map (score_of F query m f) (map fst (vf_entries f)))))"

text \<open>C22. Where the rerank width covers the corpus, the two-stage search is an exhaustive ranking by the
  exact vectors: on a sound file, for a handle that is behind the file's revision or whose codes and cache
  agree with the file, a valid query, and similarities none of which is NaN, the answer is the first
  \<open>k\<close> rows by similarity and then slot, with the locators the file has, and the handle is coherent
  with the file afterwards. (A handle at the file's revision that does not agree with it exists:
  \<open>stale_writer_stays_blind\<close>.)\<close>

theorem wide_rerank_is_exhaustive:
  assumes "handle_ok h" and "file_ok (vi_meta h) f"
    and "vi_revision h = read_revision f \<longrightarrow> coherent f h"
    and "validate (vs_ops S) query (im_dims (vi_meta h)) = Ok ()" and "0 < k"
    and "length (vf_entries f) \<le> max (io_rerank_width (vi_options h)) k"
    and "\<forall>s \<in> fst ` set (vf_entries f). \<not> f32_is_nan (sc_similarity (score_of (vs_ops S) query (vi_meta h) f s))"
  shows "\<exists>h'. search_semantic S None query k f h = (Ok (exhaustive (vs_ops S) query (vi_meta h) f k), h') \<and>
    coherent f h' \<and> vi_revision h' = read_revision f"
proof -
  let ?score = "score_of (vs_ops S) query (vi_meta h) f"
  obtain found :: "candidate list" and h' where search: "search_semantic S None query k f h =
      (Ok (map (hit_at f) (take k (order_exact (map ?score (map ca_slot found))))), h')"
    and h': "coherent f h'" "vi_revision h' = read_revision f"
    and found: "length found = min (max (io_rerank_width (vi_options h)) k) (length (vf_entries f))"
      "distinct (map ca_slot found)" "ca_slot ` set found \<subseteq> fst ` set (vf_entries f)"
    using search_semantic_found [OF assms(1-5)] by metis
  let ?slots = "map ca_slot found" and ?keys = "map fst (vf_entries f)"
  have keys: "distinct ?keys" using assms(2) by (simp add: file_ok_def bt_sorted_distinct)
  have "card (set ?slots) = card (set ?keys)"
    using distinct_card [OF found(2)] distinct_card [OF keys] found(1) assms(6) by simp
  then have sets: "set ?slots = set ?keys" using found(3) by (intro card_subset_eq) simp_all
  have slot: "sc_slot (?score s) = s" for s by (simp add: score_of_def)
  have inj: "inj_on ?score A" for A using slot by (metis inj_on_def)
  have "order_exact (map ?score ?slots) = sort_key scored_key (map ?score ?slots)"
  proof (rule order_exact_key, rule ballI)
    fix x assume "x \<in> set (map ?score ?slots)"
    then obtain s where "x = ?score s" "s \<in> set ?slots" by auto
    then show "\<not> f32_is_nan (sc_similarity x)" using assms(7) sets by (metis list.set_map)
  qed
  also have "\<dots> = sort_key scored_key (map ?score ?keys)"
  proof (rule sort_key_same_set)
    show "distinct (map ?score ?slots)" "distinct (map ?score ?keys)"
      using found(2) keys inj by (simp_all only: distinct_map)
    show "set (map ?score ?slots) = set (map ?score ?keys)" using sets by (simp only: list.set_map)
    show "inj_on scored_key (set (map ?score ?slots))"
      by (rule inj_onI) (auto simp: scored_key_def slot)
  qed
  finally show ?thesis using search h' by (auto simp: exhaustive_def)
qed


section \<open>Writing keeps an up-to-date handle coherent\<close>

lemma row_of_locator_Some:
  "row_of_locator l m = Some (s, r) \<Longrightarrow> (s, r) \<in> set m \<and> vr_locator r = l"
  by (auto simp: row_of_locator_def dest: find_SomeD)

lemma row_of_locator_None: "row_of_locator l m = None \<longleftrightarrow> (\<forall>(s, r) \<in> set m. vr_locator r \<noteq> l)"
  by (auto simp: row_of_locator_def find_None_iff)

lemma row_of_locator_unique:
  assumes "distinct (map (\<lambda>kv. vr_locator (snd kv)) m)" "(s, r) \<in> set m"
  shows "row_of_locator (vr_locator r) m = Some (s, r)"
proof (cases "row_of_locator (vr_locator r) m")
  case None
  then show ?thesis using assms(2) by (auto simp: row_of_locator_None)
next
  case (Some sr)
  then have "sr \<in> set m" "vr_locator (snd sr) = vr_locator r" using row_of_locator_Some [of _ m "fst sr" "snd sr"] by auto
  then have "sr = (s, r)" using assms by (metis (mono_tags, lifting) distinct_map inj_onD snd_conv)
  then show ?thesis using Some by simp
qed

lemma locators_unique:
  assumes "bt_sorted m"
  shows "distinct (map (\<lambda>kv. vr_locator (snd kv)) m) \<longleftrightarrow>
    (\<forall>s t r q. map_of m s = Some r \<longrightarrow> map_of m t = Some q \<longrightarrow> vr_locator r = vr_locator q \<longrightarrow> s = t)"
proof -
  have d: "distinct (map fst m)" "distinct m" using assms bt_sorted_distinct by (auto simp: distinct_map)
  have mem: "map_of m s = Some r \<longleftrightarrow> (s, r) \<in> set m" for s r using d(1) by (simp add: map_of_eq_Some_iff)
  let ?L = "\<lambda>kv. vr_locator (snd kv)"
  show ?thesis
  proof
    assume "distinct (map ?L m)"
    then have inj: "inj_on ?L (set m)" by (simp add: distinct_map)
    show "\<forall>s t r q. map_of m s = Some r \<longrightarrow> map_of m t = Some q \<longrightarrow> vr_locator r = vr_locator q \<longrightarrow> s = t"
    proof (intro allI impI)
      fix s t r q assume "map_of m s = Some r" "map_of m t = Some q" "vr_locator r = vr_locator q"
      then show "s = t" using inj_onD [OF inj, of "(s, r)" "(t, q)"] by (simp add: mem)
    qed
  next
    assume U: "\<forall>s t r q. map_of m s = Some r \<longrightarrow> map_of m t = Some q \<longrightarrow> vr_locator r = vr_locator q \<longrightarrow> s = t"
    have "inj_on ?L (set m)"
    proof (rule inj_onI)
      fix x y assume xy: "x \<in> set m" "y \<in> set m" "?L x = ?L y"
      then have "map_of m (fst x) = Some (snd x)" "map_of m (fst y) = Some (snd y)" by (simp_all add: mem)
      moreover from this have "fst x = fst y" using U xy(3) by blast
      ultimately show "x = y" by (simp add: prod_eq_iff)
    qed
    then show "distinct (map ?L m)" using d(2) by (simp add: distinct_map)
  qed
qed

lemma file_ok_update:
  assumes ok: "file_ok m f" and row: "row_ok m row" and slot: "row_of_locator (vr_locator row) (vf_entries f) = Some (slot, old) \<or>
      row_of_locator (vr_locator row) (vf_entries f) = None \<and> slot \<notin> fst ` set (vf_entries f)"
    and meta: "vf_meta f' \<noteq> None" and entries: "vf_entries f' = bt_insert slot row (vf_entries f)"
  shows "file_ok m f'"
proof -
  let ?m = "vf_entries f"
  have s: "bt_sorted ?m" "bt_sorted (vf_entries f')" using ok entries by (simp_all add: file_ok_def bt_insert_sorted)
  have get: "map_of (vf_entries f') = (map_of ?m)(slot \<mapsto> row)" by (simp add: entries bt_insert_get)
  have old: "\<And>s t r q. map_of ?m s = Some r \<Longrightarrow> map_of ?m t = Some q \<Longrightarrow> vr_locator r = vr_locator q \<Longrightarrow> s = t"
    using ok locators_unique [OF s(1)] by (metis file_ok_def)
  have new: "s = slot" if "map_of ?m s = Some r" "vr_locator r = vr_locator row" for s r
  proof (cases "row_of_locator (vr_locator row) ?m")
    case None
    then show ?thesis using that by (auto simp: row_of_locator_None dest: map_of_SomeD)
  next
    case (Some sr)
    then have "map_of ?m slot = Some old" "vr_locator old = vr_locator row"
      using slot row_of_locator_Some [of "vr_locator row" ?m slot old] s(1)
      by (auto simp: bt_sorted_distinct)
    then show ?thesis using old that by metis
  qed
  have "distinct (map (\<lambda>kv. vr_locator (snd kv)) (vf_entries f'))"
    unfolding locators_unique [OF s(2)] get using old new by (auto split: if_splits)
  moreover have "\<forall>kv \<in> set (vf_entries f'). row_ok m (snd kv)"
    using ok row bt_insert_set [of slot row ?m] by (auto simp: file_ok_def entries)
  ultimately show ?thesis using s(2) meta by (simp add: file_ok_def)
qed

lemma validate_finite:
  "validate_from F i m v = Ok q \<Longrightarrow> list_all f32_is_finite v"
  by (induction v arbitrary: i m) (auto split: if_splits)

lemma validate_Ok: "validate F v d = Ok () \<Longrightarrow> length v = d \<and> list_all f32_is_finite v"
  by (auto simp: validate_def bind_outcome_Ok_iff dest: validate_finite split: if_splits)

lemma written_row_ok:
  assumes "validate F v (im_dims m) = Ok ()" "encode v (im_threshold m) = Ok code"
  shows "row_ok m \<lparr> vr_locator = l, vr_embedding = encode_embedding v, vr_code = code, vr_updated_at = now \<rparr>"
    and "row_vector m \<lparr> vr_locator = l, vr_embedding = encode_embedding v, vr_code = code, vr_updated_at = now \<rparr> = v"
  using validate_Ok [OF assms(1)] decode_encode [of v] assms(2) by (auto simp: row_ok_def row_vector_def)

lemma sql_upsert_Ok:
  assumes "sql_upsert S row body f = Ok (slot, revision, f')"
  shows "vf_entries f' = bt_insert slot row (vf_entries f)" "revision = read_revision f'"
    "read_revision f' = Suc (read_revision f)" "vf_meta f' \<noteq> None"
    "slot = (case row_of_locator (vr_locator row) (vf_entries f) of
       Some (s, _) \<Rightarrow> s | None \<Rightarrow> vs_alloc S (vf_entries f))"
  using assms by (auto simp: sql_upsert_def Let_def bump_revision_def read_revision_def split: if_splits option.splits)

lemma coherent_write:
  assumes ok: "handle_ok h" "coherent f h" and code: "length (vr_code row) = meta_code_bytes (vi_meta h)"
    and entries: "vf_entries f' = bt_insert slot row (vf_entries f)"
    and h': "h' = h\<lparr> vi_codes := snd (ct_upsert slot (vr_code row) (vi_codes h)),
                    vi_cache := snd (cache_invalidate slot (vi_cache h)), vi_revision := revision \<rparr>"
  shows "handle_ok h' \<and> coherent f' h'"
proof -
  obtain cs where rep: "ct_rep (vi_codes h) cs" using ok(1) by (auto simp: handle_ok_def ct_inv_def)
  have len: "length (vr_code row) = ct_stride (vi_codes h)" using code ok(1) by (simp add: handle_ok_def)
  note up = ct_upsert_rep [OF rep len, of slot]
  have inv: "cache_inv (vi_cache h)" using ok(1) by (simp add: handle_ok_def)
  then have wf: "cache_wf (vi_cache h)" by (simp add: cache_inv_def)
  have codes: "ct_codes (vi_codes h') = file_codes f'"
    using up(3) ok(2) by (auto simp: h' coherent_def file_codes_def entries bt_insert_get fun_eq_iff)
  have "cache_true (vi_meta h') f' (vi_cache h')"
    using ok(2) unfolding coherent_def cache_true_def
    by (auto simp: h' cache_invalidate_vectors [OF wf] entries bt_insert_get split: if_splits)
  then show ?thesis
    using codes ok(1) up(2) cache_apply_inv [OF inv, of "Invalidate slot"]
    by (simp add: handle_ok_def coherent_def h' ct_inv_def ct_upsert_stride)
qed

lemma vector_upsert_Ok:
  assumes "fst (vector_upsert S fault now locator body v (h, f)) = Ok slot"
  obtains code f' where "validate (vs_ops S) v (im_dims (vi_meta h)) = Ok ()"
    "encode v (im_threshold (vi_meta h)) = Ok code"
    "sql_upsert S \<lparr> vr_locator = locator, vr_embedding = encode_embedding v, vr_code = code, vr_updated_at = now \<rparr> body f
       = Ok (slot, read_revision f', f')"
    "vector_upsert S fault now locator body v (h, f) =
      (Ok slot, h\<lparr> vi_codes := snd (ct_upsert slot code (vi_codes h)),
          vi_cache := snd (cache_invalidate slot (vi_cache h)), vi_revision := read_revision f' \<rparr>, f')"
  using assms that
  by (auto simp: vector_upsert_def split: if_splits outcome.splits option.splits prod.splits dest: sql_upsert_Ok(2))

lemma vector_upsert_failed:
  "\<not> is_Ok (fst (vector_upsert S fault now locator body v (h, f))) \<Longrightarrow>
     snd (vector_upsert S fault now locator body v (h, f)) = (h, f)"
  by (auto simp: vector_upsert_def split: if_splits outcome.splits option.splits prod.splits)

lemma other_locators:
  assumes ok: "file_ok m f" "file_ok m f'" and get: "map_of (vf_entries f') = (map_of (vf_entries f))(slot \<mapsto> row)"
    and slot: "(\<exists>old. row_of_locator (vr_locator row) (vf_entries f) = Some (slot, old)) \<or>
      row_of_locator (vr_locator row) (vf_entries f) = None \<and> slot \<notin> fst ` set (vf_entries f)"
    and other: "other \<noteq> vr_locator row"
  shows "row_of_locator other (vf_entries f') = row_of_locator other (vf_entries f)"
proof (rule option_ext)
  fix sr
  obtain s :: int and r :: vector_row where sr: "sr = (s, r)" by force
  have rows: "row_of_locator l (vf_entries g) = Some (s, r) \<longleftrightarrow> map_of (vf_entries g) s = Some r \<and> vr_locator r = l"
    if "file_ok m g" for g l s r
    using that row_of_locator_Some [of l "vf_entries g" s r] row_of_locator_unique [of "vf_entries g" s r]
    by (auto simp: file_ok_def bt_sorted_distinct map_of_eq_Some_iff)
  have "\<not> (map_of (vf_entries f) slot = Some r \<and> vr_locator r = other)"
  proof (cases "row_of_locator (vr_locator row) (vf_entries f)")
    case None
    then have "map_of (vf_entries f) slot = None" using slot by (simp add: map_of_eq_None_iff)
    then show ?thesis by simp
  next
    case (Some sq)
    then obtain old where "row_of_locator (vr_locator row) (vf_entries f) = Some (slot, old)" using slot by auto
    then have "map_of (vf_entries f) slot = Some old \<and> vr_locator old = vr_locator row" by (simp add: rows [OF ok(1)])
    then show ?thesis using other by auto
  qed
  then show "row_of_locator other (vf_entries f') = Some sr \<longleftrightarrow> row_of_locator other (vf_entries f) = Some sr"
    using other by (auto simp: sr rows [OF ok(1)] rows [OF ok(2)] get split: if_splits)
qed

text \<open>C25. Writing through a handle that has seen every earlier write: an upsert that fails leaves both
  the handle and the file as they were, and one that succeeds keeps the file sound, stores exactly
  the embedding under the locator and touches no other locator, leaves the handle coherent with the
  new file and outdates every handle built from an earlier revision.\<close>

theorem upsert_keeps_coherence:
  assumes "handle_ok h" and "file_ok (vi_meta h) f" and "coherent f h" and "vi_revision h = read_revision f"
    and "vs_alloc S (vf_entries f) \<notin> fst ` set (vf_entries f)"
  shows "case vector_upsert S fault now locator body v (h, f) of
      (Ok slot, h', f') \<Rightarrow>
        file_ok (vi_meta h) f' \<and> handle_ok h' \<and> coherent f' h' \<and> vi_revision h' = read_revision f' \<and>
        read_revision f' = Suc (read_revision f) \<and>
        vector_embedding None locator f' h' = Ok v \<and>
        (\<forall>other. other \<noteq> locator \<longrightarrow> row_of_locator other (vf_entries f') = row_of_locator other (vf_entries f))
    | (r, h', f') \<Rightarrow> h' = h \<and> f' = f"
proof (cases "fst (vector_upsert S fault now locator body v (h, f))")
  case (Ok slot)
  obtain code f' where step: "validate (vs_ops S) v (im_dims (vi_meta h)) = Ok ()"
    "encode v (im_threshold (vi_meta h)) = Ok code"
    "sql_upsert S \<lparr> vr_locator = locator, vr_embedding = encode_embedding v, vr_code = code, vr_updated_at = now \<rparr> body f
       = Ok (slot, read_revision f', f')"
    "vector_upsert S fault now locator body v (h, f) =
      (Ok slot, h\<lparr> vi_codes := snd (ct_upsert slot code (vi_codes h)),
          vi_cache := snd (cache_invalidate slot (vi_cache h)), vi_revision := read_revision f' \<rparr>, f')"
    using Ok by (rule vector_upsert_Ok)
  let ?row = "\<lparr> vr_locator = locator, vr_embedding = encode_embedding v, vr_code = code, vr_updated_at = now \<rparr>"
  let ?h = "h\<lparr> vi_codes := snd (ct_upsert slot code (vi_codes h)),
      vi_cache := snd (cache_invalidate slot (vi_cache h)), vi_revision := read_revision f' \<rparr>"
  note sql = sql_upsert_Ok [OF step(3)]
  note row = written_row_ok [OF step(1,2), of locator now]
  have meta: "meta_ok (vi_meta h)" using assms(1) by (simp add: handle_ok_def)
  have placed: "(\<exists>old. row_of_locator locator (vf_entries f) = Some (slot, old)) \<or>
      row_of_locator locator (vf_entries f) = None \<and> slot \<notin> fst ` set (vf_entries f)"
    using sql(5) assms(5) by (auto split: option.splits)
  have ok': "file_ok (vi_meta h) f'"
    using placed file_ok_update [OF assms(2) row(1) _ sql(4,1)] by auto
  have rows: "row_of_locator l (vf_entries f') = Some (s, r) \<longleftrightarrow>
      map_of (vf_entries f') s = Some r \<and> vr_locator r = l" for l s r
    using ok' row_of_locator_Some [of l "vf_entries f'" s r] row_of_locator_unique [of "vf_entries f'" s r]
    by (auto simp: file_ok_def bt_sorted_distinct map_of_eq_Some_iff)
  have get: "map_of (vf_entries f') = (map_of (vf_entries f))(slot \<mapsto> ?row)"
    by (simp add: sql(1) bt_insert_get)
  have "handle_ok ?h \<and> coherent f' ?h"
    using coherent_write [OF assms(1,3) _ sql(1), of ?h] row_ok_code [OF meta row(1)] by simp
  moreover have "row_of_locator other (vf_entries f') = row_of_locator other (vf_entries f)" if "other \<noteq> locator" for other
    by (rule other_locators [OF assms(2) ok' get]) (use placed that in simp_all)
  moreover have "vector_embedding None locator f' ?h = Ok v"
  proof -
    have "row_of_locator locator (vf_entries f') = Some (slot, ?row)" by (simp add: rows get)
    then show ?thesis using row_ok_vector [OF row(1)] row(2) by (simp add: vector_embedding_def)
  qed
  ultimately show ?thesis using ok' sql(3) by (simp add: step(4))
qed (use vector_upsert_failed [of S fault now locator body v h f] in \<open>auto split: prod.splits outcome.splits\<close>)


section \<open>Opening\<close>

text \<open>What an index written by this code holds: rows only beside a configuration, and sound for it.\<close>

definition stored_ok :: "vector_file \<Rightarrow> bool" where
  "stored_ok f \<longleftrightarrow> (vf_meta f = None \<longrightarrow> vf_entries f = []) \<and> (\<forall>m. read_meta f = Ok (Some m) \<longrightarrow> file_ok m f)"

lemma first_not_finite_None: "first_not_finite i xs = None \<longleftrightarrow> list_all f32_is_finite xs"
  by (induction xs arbitrary: i) auto

lemma check_open_Ok:
  "check_open model dims threshold = Ok u \<longleftrightarrow>
     0 < dims \<and> dims mod 8 = 0 \<and> dims \<le> MAX_DIMS \<and> length threshold = dims \<and> model \<noteq> [] \<and>
     list_all f32_is_finite threshold"
  using first_not_finite_None [of 0 threshold] by (auto simp: check_open_def split: option.splits if_splits)

lemma find_or_write_meta_Ok:
  assumes "find_or_write_meta model dims threshold now f = Ok (existing, f')" "stored_ok f"
    and "accept_meta model dims threshold now existing = Ok m"
  shows "file_ok m f' \<and> im_dims m = dims \<and> im_model m = model \<and> im_threshold m = threshold \<and>
    vf_entries f' = vf_entries f"
proof (cases existing)
  case None
  then show ?thesis
    using assms by (auto simp: find_or_write_meta_def bind_outcome_Ok_iff write_meta_def Let_def accept_meta_def
        read_meta_def stored_ok_def file_ok_def split: option.splits if_splits)
next
  case (Some found)
  then have "read_meta f = Ok (Some found)" "f' = f"
    using assms(1) by (auto simp: find_or_write_meta_def bind_outcome_Ok_iff split: option.splits)
  then show ?thesis
    using assms(2,3) Some by (auto simp: accept_meta_def stored_ok_def encode_embedding_inj split: if_splits)
qed

text \<open>The configuration of a file is the offered one, bit for bit.\<close>

definition configured :: "vector_file \<Rightarrow> string \<Rightarrow> nat \<Rightarrow> f32 list \<Rightarrow> bool" where
  "configured f model dims threshold \<longleftrightarrow>
     (\<exists>m. vf_meta f = Some m \<and> mr_model m = model \<and> mr_dims m = dims \<and> decode_embedding (mr_threshold m) dims = Ok threshold)"

lemma opens_iff:
  assumes "stored_ok f" "0 \<le> now"
  shows "is_Ok (fst (vector_open migrated fault1 fault2 model dims threshold options now f)) \<longleftrightarrow>
    migrated = None \<and> fault1 = None \<and> fault2 = None \<and> check_open model dims threshold = Ok () \<and>
    (vf_meta f = None \<or> configured f model dims threshold)"
proof (cases "check_open model dims threshold = Ok () \<and> migrated = None \<and> fault1 = None")
  case True
  note check = True [THEN conjunct1, unfolded check_open_Ok]
  show ?thesis
  proof (cases "vf_meta f")
    case None
    then have "vf_entries f = []" using assms(1) by (simp add: stored_ok_def)
    then show ?thesis using True None check assms(2)
      by (simp add: vector_open_def find_or_write_meta_def read_meta_def write_meta_def meta_row_ok_def Let_def MAX_DIMS_def
          accept_meta_def load_codes_def split: option.split)
  next
    case (Some m)
    show ?thesis
    proof (cases "decode_embedding (mr_threshold m) (mr_dims m)")
      case (Ok stored)
      let ?meta = "\<lparr> im_dims = mr_dims m, im_model = mr_model m, im_threshold = stored, im_created_at = mr_created_at m \<rparr>"
      have sound: "file_ok ?meta f" using assms(1) Some Ok by (simp add: stored_ok_def read_meta_def)
      have "\<exists>t. load_codes f ?meta = Ok t" if "mr_dims m = dims" "stored = threshold"
        using load_codes_Ok [OF _ sound] check that by (auto simp: meta_ok_def)
      then show ?thesis using True Some Ok
        by (auto simp: vector_open_def find_or_write_meta_def read_meta_def accept_meta_def configured_def encode_embedding_inj
            split: option.splits)
    qed (use True Some in \<open>auto simp: vector_open_def find_or_write_meta_def read_meta_def configured_def\<close>)
  qed
qed (auto simp: vector_open_def split: outcome.splits option.splits)


section \<open>A small index\<close>

definition demo_ops :: f32_ops where
  "demo_ops = \<lparr> fo_add = (\<lambda>a b. a OR b), fo_mul = (\<lambda>a b. a AND b), fo_off_unit = (\<lambda>m. False), fo_sum_start = 0 \<rparr>"

definition demo_sys :: "nat vector_sys" where
  "demo_sys = \<lparr> vs_ops = demo_ops, vs_alloc = (\<lambda>m. int (length m) + 1), vs_match = (\<lambda>t q. []),
     vs_alnum = (\<lambda>c. 97 \<le> c \<and> c \<le> 122), vs_lower = (\<lambda>t. t) \<rparr>"

definition demo_axis :: "f32 list" where
  "demo_axis = [0x3F800000, 0, 0, 0, 0, 0, 0, 0]"

definition demo_file :: vector_file where
  "demo_file = vector_file_new
     \<lparr> vf_meta := Some \<lparr> mr_dims = 8, mr_model = ''m'', mr_threshold = encode_embedding [0, 0, 0, 0, 0, 0, 0, 0],
                      mr_created_at = 0, mr_revision = 0 \<rparr> \<rparr>"

definition demo_handle :: vector_index where
  "demo_handle = \<lparr> vi_meta = \<lparr> im_dims = 8, im_model = ''m'', im_threshold = [0, 0, 0, 0, 0, 0, 0, 0], im_created_at = 0 \<rparr>,
     vi_options = index_options_default, vi_codes = code_table_new 1,
     vi_cache = exact_cache_new (io_cache_bytes index_options_default), vi_revision = 0 \<rparr>"

lemma demo_ok: "handle_ok demo_handle" "file_ok (vi_meta demo_handle) demo_file" "coherent demo_file demo_handle"
  "vi_revision demo_handle = read_revision demo_file"
  by (simp_all add: handle_ok_def demo_handle_def meta_ok_def ct_new_inv ct_stride_new meta_code_bytes_def
      cache_new_inv file_ok_def demo_file_def vector_file_new_def coherent_def file_codes_def ct_codes_new
      cache_true_empty read_revision_def fun_eq_iff)

lemma demo_valid: "validate (vs_ops demo_sys) demo_axis (im_dims (vi_meta demo_handle)) = Ok ()"
  by (simp add: demo_sys_def demo_ops_def demo_axis_def demo_handle_def validate_def
      f32_is_finite_def f32_magnitude_def F32_INF_def f32_rank_def f32_negative_def)


lemma demo_encode: "encode demo_axis [0, 0, 0, 0, 0, 0, 0, 0] = Ok [1]"
proof -
  have gt: "f32_gt 0x3F800000 0" "\<not> f32_gt 0 0"
    by (simp_all add: f32_gt_def f32_is_nan_def f32_magnitude_def F32_INF_def f32_rank_def f32_negative_def)
  show ?thesis
    by (simp add: encode_def demo_axis_def encode_step_def gt set_bit_at_def div_ceil_def)
qed

lemma upsert_keeps_coherence_witness:
  "case vector_upsert demo_sys None 0 ''a'' [] demo_axis (demo_handle, demo_file) of
      (Ok slot, h', f') \<Rightarrow> slot = 1 \<and> coherent f' h' \<and> vector_embedding None ''a'' f' h' = Ok demo_axis
    | _ \<Rightarrow> False"
proof -
  have alloc: "vs_alloc demo_sys (vf_entries demo_file) \<notin> fst ` set (vf_entries demo_file)"
    by (simp add: demo_file_def vector_file_new_def)
  have "fst (vector_upsert demo_sys None 0 ''a'' [] demo_axis (demo_handle, demo_file)) = Ok 1"
    using demo_valid demo_encode
    by (simp add: vector_upsert_def demo_handle_def sql_upsert_def entry_row_ok_def demo_file_def vector_file_new_def
        Let_def bump_revision_def row_of_locator_def)
      (simp add: demo_axis_def demo_sys_def)
  then show ?thesis
    using upsert_keeps_coherence [OF demo_ok alloc, where fault = None and now = 0 and locator = "''a''" and body = "[]" and v = demo_axis]
    by (auto split: outcome.splits prod.splits)
qed

definition demo_other :: "f32 list" where
  "demo_other = [0, 0x3F800000, 0, 0, 0, 0, 0, 0]"

definition demo_row :: "string \<Rightarrow> f32 list \<Rightarrow> byte list \<Rightarrow> vector_row" where
  "demo_row locator v code = \<lparr> vr_locator = locator, vr_embedding = encode_embedding v, vr_code = code, vr_updated_at = 0 \<rparr>"

text \<open>Two rows that another handle wrote.\<close>

definition demo_corpus :: vector_file where
  "demo_corpus = demo_file
     \<lparr> vf_meta := map_option (\<lambda>m. m\<lparr> mr_revision := 2 \<rparr>) (vf_meta demo_file),
        vf_entries := [(1, demo_row ''b'' demo_other [2]), (2, demo_row ''a'' demo_axis [1])] \<rparr>"

lemma demo_corpus_ok: "file_ok (vi_meta demo_handle) demo_corpus"
proof -
  have gt: "f32_gt 0x3F800000 0" "\<not> f32_gt 0 0"
    by (simp_all add: f32_gt_def f32_is_nan_def f32_magnitude_def F32_INF_def f32_rank_def f32_negative_def)
  have "encode demo_other [0, 0, 0, 0, 0, 0, 0, 0] = Ok [2]"
    by (simp add: encode_def demo_other_def encode_step_def gt set_bit_at_def div_ceil_def)
  moreover have "list_all f32_is_finite demo_axis" "list_all f32_is_finite demo_other"
    by (simp_all add: demo_axis_def demo_other_def f32_is_finite_def f32_magnitude_def F32_INF_def)
  moreover have "length demo_axis = 8" "length demo_other = 8" by (simp_all add: demo_axis_def demo_other_def)
  ultimately show ?thesis
    using demo_encode decode_encode [of demo_axis] decode_encode [of demo_other]
    by (simp add: file_ok_def demo_corpus_def demo_file_def vector_file_new_def demo_row_def demo_handle_def row_ok_def bt_sorted_def)
qed

lemma wide_rerank_is_exhaustive_witness:
  "\<exists>h'. search_semantic demo_sys None demo_axis 1 demo_corpus demo_handle =
     (Ok (exhaustive demo_ops demo_axis (vi_meta demo_handle) demo_corpus 1 :: nat hit list), h') \<and>
     map hit_locator (exhaustive demo_ops demo_axis (vi_meta demo_handle) demo_corpus 1 :: nat hit list) = [''a'']"
proof -
  have finite: "list_all f32_is_finite demo_axis" "list_all f32_is_finite demo_other"
    by (simp_all add: demo_axis_def demo_other_def f32_is_finite_def f32_magnitude_def F32_INF_def)
  have lengths: "length demo_axis = 8" "length demo_other = 8" by (simp_all add: demo_axis_def demo_other_def)
  have vectors: "row_vector (vi_meta demo_handle) (demo_row l demo_axis c) = demo_axis"
    "row_vector (vi_meta demo_handle) (demo_row l demo_other c) = demo_other" for l c
    using decode_encode [OF finite(1)] decode_encode [OF finite(2)] lengths
    by (simp_all add: row_vector_def demo_row_def demo_handle_def)
  have four: "replicate 4 x = [x, x, x, x]" for x :: f32 by (simp add: numeral_eq_Suc)
  have scores: "score_of demo_ops demo_axis (vi_meta demo_handle) demo_corpus 1 = \<lparr> sc_slot = 1, sc_similarity = 0 \<rparr>"
    "score_of demo_ops demo_axis (vi_meta demo_handle) demo_corpus 2 = \<lparr> sc_slot = 2, sc_similarity = 0x3F800000 \<rparr>"
    by (simp_all add: score_of_def demo_corpus_def vectors) (simp_all add: similarity_def demo_axis_def demo_other_def demo_ops_def LANES_def chunks_exact.simps chunk_remainder_def
        four)
  have numbers: "\<not> f32_is_nan 0" "\<not> f32_is_nan 0x3F800000" by (simp_all add: f32_is_nan_def f32_magnitude_def F32_INF_def)
  have "length (vf_entries demo_corpus) \<le> max (io_rerank_width (vi_options demo_handle)) 1"
    "\<forall>s \<in> fst ` set (vf_entries demo_corpus).
       \<not> f32_is_nan (sc_similarity (score_of (vs_ops demo_sys) demo_axis (vi_meta demo_handle) demo_corpus s))"
    "vi_revision demo_handle \<noteq> read_revision demo_corpus"
    using scores numbers by (simp_all add: demo_corpus_def demo_file_def vector_file_new_def demo_handle_def
        index_options_default_def DEFAULT_RERANK_WIDTH_def read_revision_def demo_sys_def)
  from wide_rerank_is_exhaustive [OF demo_ok(1) demo_corpus_ok _ demo_valid _ this(1,2)] this(3)
  obtain h' where "search_semantic demo_sys None demo_axis 1 demo_corpus demo_handle =
     (Ok (exhaustive demo_ops demo_axis (vi_meta demo_handle) demo_corpus 1 :: nat hit list), h')" by (auto simp: demo_sys_def)
  moreover have "map hit_locator (exhaustive demo_ops demo_axis (vi_meta demo_handle) demo_corpus 1 :: nat hit list) = [''a'']"
  proof -
    have keys: "map fst (vf_entries demo_corpus) = [1, 2]"
      "map_of (vf_entries demo_corpus) 2 = Some (demo_row ''a'' demo_axis [1])" by (simp_all add: demo_corpus_def)
    have rank: "f32_rank 0 < f32_rank 0x3F800000" by (simp add: f32_rank_def f32_negative_def f32_magnitude_def)
    show ?thesis using scores rank by (simp add: exhaustive_def keys scored_key_def hit_at_def) (simp add: demo_row_def)
  qed
  ultimately show ?thesis by (intro exI [of _ h'] conjI)
qed

section \<open>A stale handle that writes\<close>

lemma score_all_slots:
  "score_all F query f slots h = (Ok ss, h') \<Longrightarrow> map sc_slot ss = slots"
  by (induction slots arbitrary: h h' ss)
    (auto split: prod.splits outcome.splits)

lemma name_hits_slots: "name_hits f ss = Ok hits \<Longrightarrow> map hit_slot hits = map sc_slot ss"
  by (induction ss arbitrary: hits) (auto simp: bind_outcome_Ok_iff split: option.splits)

lemma nearest_slots:
  assumes "nearest t query w = Ok found" "c \<in> set found"
  shows "ca_slot c \<in> set (ct_slots t)"
proof -
  let ?all = "map (\<lambda>(code, slot). \<lparr> ca_distance = distance query code, ca_slot = slot \<rparr>)
      (zip (chunks_exact (ct_stride t) (ct_data t)) (ct_slots t))"
  have "c \<in> set ?all"
    using assms by (auto simp: nearest_def Let_def simp del: set_map split: if_splits dest!: in_set_takeD)
  then show ?thesis by (auto dest: set_zip_rightD)
qed

lemma search_semantic_resident:
  assumes "vi_revision h = read_revision f" "search_semantic S fault query k f h = (Ok hits, h')"
  shows "hit_slot ` set hits \<subseteq> set (ct_slots (vi_codes h))"
proof -
  consider "hits = []" | found scored g where "nearest (vi_codes h) (case encode query (im_threshold (vi_meta h)) of Ok c \<Rightarrow> c)
        (max (io_rerank_width (vi_options h)) k) = (Ok found :: (_, vector_error) outcome)"
      "score_all (vs_ops S) query f (map ca_slot found) h = (Ok scored, g)"
      "name_hits f (take k (order_exact scored)) = Ok hits"
    using assms
    by (auto simp: search_semantic_def sync_if_stale_def split: outcome.splits if_splits option.splits list.splits prod.splits)
  then show ?thesis
  proof cases
    case (2 found scored g)
    have "hit_slot ` set hits = sc_slot ` set (take k (order_exact scored))"
      using name_hits_slots [OF 2(3)] by (metis list.set_map)
    also have "\<dots> \<subseteq> sc_slot ` set scored" using set_order_exact by (metis image_mono set_take_subset)
    also have "\<dots> = ca_slot ` set found" using score_all_slots [OF 2(2)] by (metis list.set_map)
    also have "\<dots> \<subseteq> set (ct_slots (vi_codes h))" using nearest_slots [OF 2(1)] by blast
    finally show ?thesis .
  qed simp
qed

text \<open>A handle that writes without having seen another handle's write takes the new revision as its
  own without reloading: the rows the other handle wrote stay in the file, no later check of the
  revision reloads them, and no semantic search through this handle finds them while the file is
  not written again.\<close>

theorem stale_writer_stays_blind:
  assumes "ct_inv (vi_codes h)" and "ct_codes (vi_codes h) s = None" and "map_of (vf_entries f) s = Some r"
    and "vector_upsert S fault now locator body v (h, f) = (Ok slot, h', f')" and "s \<noteq> slot"
  shows "map_of (vf_entries f') s = Some r \<and> vi_revision h' = read_revision f' \<and>
    sync_if_stale f' h' = (Ok (), h') \<and>
    (case search_semantic S None query k f' h' of (Ok hits, _) \<Rightarrow> s \<notin> hit_slot ` set hits | _ \<Rightarrow> True)"
proof -
  obtain code g where up: "validate (vs_ops S) v (im_dims (vi_meta h)) = Ok ()"
    "encode v (im_threshold (vi_meta h)) = Ok code"
    "sql_upsert S \<lparr> vr_locator = locator, vr_embedding = encode_embedding v, vr_code = code, vr_updated_at = now \<rparr> body f
       = Ok (slot, read_revision g, g)"
    "vector_upsert S fault now locator body v (h, f) =
      (Ok slot, h\<lparr> vi_codes := snd (ct_upsert slot code (vi_codes h)),
          vi_cache := snd (cache_invalidate slot (vi_cache h)), vi_revision := read_revision g \<rparr>, g)"
    by (rule vector_upsert_Ok [of S fault now locator body v h f slot]) (use assms(4) in simp_all)
  have g: "g = f'" and h': "vi_revision h' = read_revision f'" "vi_codes h' = snd (ct_upsert slot code (vi_codes h))"
    using up(4) assms(4) by auto
  obtain cs where rep: "ct_rep (vi_codes h) cs" using assms(1) ct_inv_def by blast
  have "\<exists>cs'. ct_codes (vi_codes h') s = None \<and> ct_rep (vi_codes h') cs'"
  proof (cases "length code = ct_stride (vi_codes h)")
    case True
    then show ?thesis using ct_upsert_rep [OF rep True, of slot] assms(2,5) by (simp add: h')
  next
    case False
    then show ?thesis using rep assms(2) by (auto simp: h' ct_upsert_def)
  qed
  then obtain cs' where cs': "ct_codes (vi_codes h') s = None" "ct_rep (vi_codes h') cs'" by blast
  have "length (ct_slots (vi_codes h')) = length cs'" using cs'(2) by (simp add: ct_rep_def)
  then have absent: "s \<notin> set (ct_slots (vi_codes h'))"
    using cs'(1) ct_rep_map [OF cs'(2)] by (simp add: map_of_zip_is_None)
  have "map_of (vf_entries f') s = Some r"
    using sql_upsert_Ok(1) [OF up(3)] assms(3,5) by (simp add: g bt_insert_get)
  then show ?thesis
    using h'(1) absent search_semantic_resident [OF h'(1)]
    by (auto simp: sync_if_stale_def split: prod.splits outcome.splits) blast
qed


lemma demo_upsert:
  assumes "vf_meta f = Some m" "row_of_locator l (vf_entries f) = None" "l \<noteq> []"
  shows "\<exists>h' f'. vector_upsert demo_sys None 0 l [] demo_axis (demo_handle, f) = (Ok (int (length (vf_entries f)) + 1), h', f') \<and>
    vf_entries f' = bt_insert (int (length (vf_entries f)) + 1)
      \<lparr> vr_locator = l, vr_embedding = encode_embedding demo_axis, vr_code = [1], vr_updated_at = 0 \<rparr> (vf_entries f) \<and>
    vf_meta f' \<noteq> None"
proof -
  have alloc: "vs_alloc demo_sys (vf_entries f) = int (length (vf_entries f)) + 1" by (simp add: demo_sys_def)
  have "entry_row_ok \<lparr> vr_locator = l, vr_embedding = encode_embedding demo_axis, vr_code = [1], vr_updated_at = 0 \<rparr>"
    using assms(3) by (simp add: entry_row_ok_def demo_axis_def)
  then show ?thesis
    using demo_valid demo_encode assms alloc
    by (simp add: vector_upsert_def demo_handle_def sql_upsert_def Let_def bump_revision_def)
qed

lemma stale_writer_stays_blind_witness:
  "\<exists>h1 f1 h2 f2. vector_upsert demo_sys None 0 ''a'' [] demo_axis (demo_handle, demo_file) = (Ok 1, h1, f1) \<and>
     vector_upsert demo_sys None 0 ''b'' [] demo_axis (demo_handle, f1) = (Ok 2, h2, f2) \<and>
     map_of (vf_entries f2) 1 \<noteq> None \<and> sync_if_stale f2 h2 = (Ok (), h2)"
proof -
  have start: "\<exists>m. vf_meta demo_file = Some m" "vf_entries demo_file = []"
    by (simp_all add: demo_file_def vector_file_new_def)
  then obtain h1 f1 where a: "vector_upsert demo_sys None 0 ''a'' [] demo_axis (demo_handle, demo_file) = (Ok 1, h1, f1)"
    "vf_entries f1 = [(1, \<lparr> vr_locator = ''a'', vr_embedding = encode_embedding demo_axis, vr_code = [1], vr_updated_at = 0 \<rparr>)]"
    "vf_meta f1 \<noteq> None"
    using demo_upsert [of demo_file _ "''a''"] by (auto simp: row_of_locator_def)
  then obtain h2 f2 where b: "vector_upsert demo_sys None 0 ''b'' [] demo_axis (demo_handle, f1) = (Ok 2, h2, f2)"
    using demo_upsert [of f1 _ "''b''"] by (auto simp: row_of_locator_def)
  have "ct_inv (vi_codes demo_handle)" "ct_codes (vi_codes demo_handle) 1 = None"
    by (simp_all add: demo_handle_def ct_new_inv ct_codes_new)
  from stale_writer_stays_blind [OF this _ b, of _ demo_axis 1] show ?thesis
    using a b by auto
qed

section \<open>The lexical query\<close>

definition is_term_char :: "'b vector_sys \<Rightarrow> nat \<Rightarrow> bool" where
  "is_term_char S c \<longleftrightarrow> vs_alnum S c \<or> c = 95"

definition terms_ok :: "'b vector_sys \<Rightarrow> utext list \<Rightarrow> bool" where
  "terms_ok S terms \<longleftrightarrow> length terms \<le> MAX_QUERY_TOKENS \<and> distinct terms \<and>
     (\<forall>q \<in> set terms. \<exists>t. t \<noteq> [] \<and> (\<forall>c \<in> set t. is_term_char S c) \<and> q = 34 # vs_lower S t @ [34])"

lemma push_term_ok:
  "terms_ok S terms \<Longrightarrow> t \<noteq> [] \<Longrightarrow> \<forall>c \<in> set t. is_term_char S c \<Longrightarrow>
     terms_ok S (push_term S terms t) \<and> push_term S terms t \<noteq> []"
  by (auto simp: push_term_def terms_ok_def Let_def MAX_QUERY_TOKENS_def)

lemma push_term_grows: "terms \<noteq> [] \<Longrightarrow> push_term S terms t \<noteq> []"
  by (simp add: push_term_def Let_def)

lemma collect_terms_ok:
  "terms_ok S terms \<Longrightarrow> \<forall>c \<in> set current. is_term_char S c \<Longrightarrow>
     terms_ok S (collect_terms S cs terms current) \<and>
     (collect_terms S cs terms current = [] \<longleftrightarrow>
        terms = [] \<and> current = [] \<and> (\<forall>c \<in> set cs. \<not> is_term_char S c))"
proof (induction cs arbitrary: terms current)
  case Nil
  then show ?case using push_term_ok by (auto simp: push_term_grows)
next
  case (Cons c cs)
  show ?case
  proof (cases "is_term_char S c")
    case True
    then show ?thesis using Cons.IH [of terms "current @ [c]"] Cons.prems by (auto simp: is_term_char_def)
  next
    case False
    then have step: "collect_terms S (c # cs) terms current =
        (if current \<noteq> [] then collect_terms S cs (push_term S terms current) [] else collect_terms S cs terms [])"
      by (auto simp: is_term_char_def)
    show ?thesis
    proof (cases "current = []")
      case True
      then show ?thesis using False Cons.IH [of terms "[]"] Cons.prems unfolding step by simp
    next
      case nonempty: False
      then show ?thesis
        using push_term_ok [OF Cons.prems(1) nonempty Cons.prems(2)] Cons.IH [of "push_term S terms current" "[]"]
        unfolding step by simp
    qed
  qed
qed

text \<open>Free text becomes a full-text query only in a form without syntax: no query exactly when no
  character can be part of a term, otherwise at most 32 different terms joined by \<open>OR\<close>, each one
  quoted whole, made of term characters in lower case, and free of quotes inside.\<close>

theorem lexical_query_is_quoted:
  assumes "\<And>t. \<forall>c \<in> set t. is_term_char S c \<Longrightarrow> 34 \<notin> set (vs_lower S t)"
  shows "case lexical_query S text_in of
      None \<Rightarrow> \<forall>c \<in> set text_in. \<not> is_term_char S c
    | Some q \<Rightarrow> \<exists>terms. terms \<noteq> [] \<and> length terms \<le> 32 \<and> distinct terms \<and>
        q = join_utext (utext_of '' OR '') terms \<and>
        (\<forall>t \<in> set terms. \<exists>w. w \<noteq> [] \<and> (\<forall>c \<in> set w. is_term_char S c) \<and>
           t = [34] @ vs_lower S w @ [34] \<and> 34 \<notin> set (vs_lower S w))"
proof -
  have "terms_ok S []" by (simp add: terms_ok_def)
  from collect_terms_ok [OF this, of "[]" text_in]
  have terms: "terms_ok S (collect_terms S text_in [] [])"
    "collect_terms S text_in [] [] = [] \<longleftrightarrow> (\<forall>c \<in> set text_in. \<not> is_term_char S c)" by simp_all
  show ?thesis
  proof (cases "lexical_query S text_in")
    case None
    then show ?thesis using terms(2) by (auto simp: lexical_query_def Let_def split: if_splits)
  next
    case (Some q)
    then have q: "collect_terms S text_in [] [] \<noteq> []" "q = join_utext (utext_of '' OR '') (collect_terms S text_in [] [])"
      by (auto simp: lexical_query_def Let_def split: if_splits)
    have "\<exists>w. w \<noteq> [] \<and> (\<forall>c \<in> set w. is_term_char S c) \<and> t = [34] @ vs_lower S w @ [34] \<and> 34 \<notin> set (vs_lower S w)"
      if "t \<in> set (collect_terms S text_in [] [])" for t
      using terms(1) that assms unfolding terms_ok_def by fastforce
    then show ?thesis
      using q terms(1) Some by (auto simp: terms_ok_def MAX_QUERY_TOKENS_def)
  qed
qed

lemma lexical_query_is_quoted_witness:
  "\<exists>q. lexical_query demo_sys (utext_of ''fix (it)'') = Some q \<and> (\<exists>terms. length terms \<le> 32 \<and>
     q = join_utext (utext_of '' OR '') terms)"
proof -
  have "34 \<notin> set (vs_lower demo_sys t)" if "\<forall>c \<in> set t. is_term_char demo_sys c" for t
    using that by (auto simp: demo_sys_def is_term_char_def)
  moreover have "is_term_char demo_sys 102" "102 \<in> set (utext_of ''fix (it)'')"
    by (simp_all add: is_term_char_def demo_sys_def utext_of_def)
  ultimately show ?thesis
    using lexical_query_is_quoted [of demo_sys "utext_of ''fix (it)''"] by (auto split: option.splits)
qed

end
