(* ===== verification/Tools.thy ===== *)
theory Tools
  imports Key_Scan Permission
begin

text \<open>
  \<open>crates/supra_tool/src/schema.rs\<close>, \<open>registry.rs\<close> and \<open>error.rs\<close>: the closed schema language of tool
  arguments, its rendering for providers, and the registry that validates an invocation before the
  permission gate sees it. The argument text goes through the scanner and the canonical writer of
  \<open>Key_Scan\<close> and \<open>Canonical\<close>; \<open>parse\<close> and \<open>esc\<close> are the parser and the string writer of \<open>serde_json\<close>.
\<close>

section \<open>Schemas\<close>

type_synonym json_map = "(string \<times> json) list"

datatype field_type = Text | Number | Boolean

fun field_type_name :: "field_type \<Rightarrow> string" where
  "field_type_name Text = ''string''"
| "field_type_name Number = ''number''"
| "field_type_name Boolean = ''boolean''"

fun type_matches :: "field_type \<Rightarrow> json \<Rightarrow> bool" where
  "type_matches Text (JString _) = True"
| "type_matches Number (JNumber _) = True"
| "type_matches Boolean (JBool _) = True"
| "type_matches _ _ = False"

fun type_name :: "json \<Rightarrow> string" where
  "type_name JNull = ''null''"
| "type_name (JBool _) = ''boolean''"
| "type_name (JNumber _) = ''number''"
| "type_name (JString _) = ''string''"
| "type_name (JArray _) = ''array''"
| "type_name (JObject _) = ''object''"

record field =
  fd_name :: string
  fd_type :: field_type
  fd_required :: bool
  fd_description :: string

text \<open>What a text in an error says is the constructor of its reason.\<close>

datatype bad_arguments =
    EmptyFieldName | DeclaredTwice string | NoDescription string | NotAnObject | NotCanonical canonical_error

datatype tool_error =
    UnknownTool string "string list"
  | BadArguments string bad_arguments
  | MissingField string string
  | WrongFieldType string string field_type string
  | UnknownField string string
  | PreconditionFailed string
  | ToolDisabled string

record schema =
  sm_tool :: string
  sm_fields :: "field list"

fun build_check :: "string \<Rightarrow> string set \<Rightarrow> field list \<Rightarrow> (unit, tool_error) outcome" where
  "build_check tool seen [] = Ok ()"
| "build_check tool seen (f # fs) =
     (if fd_name f = [] then Err (BadArguments tool EmptyFieldName)
      else if fd_name f \<in> seen then Err (BadArguments tool (DeclaredTwice (fd_name f)))
      else if trim_is_empty (fd_description f) then Err (BadArguments tool (NoDescription (fd_name f)))
      else build_check tool (insert (fd_name f) seen) fs)"

definition schema_build :: "string \<Rightarrow> field list \<Rightarrow> (schema, tool_error) outcome" where
  "schema_build tool fds =
     bind_outcome (build_check tool {} fds) (\<lambda>_. Ok \<lparr> sm_tool = tool, sm_fields = fds \<rparr>)"

fun check_fields :: "string \<Rightarrow> json_map \<Rightarrow> field list \<Rightarrow> (unit, tool_error) outcome" where
  "check_fields tool args [] = Ok ()"
| "check_fields tool args (f # fs) =
     (case map_of args (fd_name f) of
        None \<Rightarrow> if fd_required f then Err (MissingField tool (fd_name f)) else check_fields tool args fs
      | Some v \<Rightarrow>
          if \<not> type_matches (fd_type f) v
          then Err (WrongFieldType tool (fd_name f) (fd_type f) (type_name v))
          else check_fields tool args fs)"

fun check_unknown :: "string \<Rightarrow> field list \<Rightarrow> string list \<Rightarrow> (unit, tool_error) outcome" where
  "check_unknown tool fds [] = Ok ()"
| "check_unknown tool fds (name # names) =
     (if \<not> list_ex (\<lambda>f. fd_name f = name) fds then Err (UnknownField tool name)
      else check_unknown tool fds names)"

definition schema_validate :: "schema \<Rightarrow> json_map \<Rightarrow> (unit, tool_error) outcome" where
  "schema_validate s args =
     bind_outcome (check_fields (sm_tool s) args (sm_fields s)) (\<lambda>_.
       check_unknown (sm_tool s) (sm_fields s) (map fst args))"

definition to_provider_schema :: "schema \<Rightarrow> json" where
  "to_provider_schema s = json_object
     [(''type'', JString ''object''),
      (''properties'', json_object (map (\<lambda>f. (fd_name f,
          json_object [(''type'', JString (field_type_name (fd_type f))),
                       (''description'', JString (fd_description f))])) (sm_fields s))),
      (''required'', JArray (map (\<lambda>f. JString (fd_name f)) (filter fd_required (sm_fields s)))),
      (''additionalProperties'', JBool False)]"

section \<open>Tools\<close>

record session_facts =
  files_read :: "string set"

record precondition =
  pc_fields :: "string list"
  pc_check :: "json_map \<Rightarrow> session_facts \<Rightarrow> (unit, tool_error) outcome"

definition read_before_edit :: precondition where
  "read_before_edit = \<lparr> pc_fields = [''path''],
     pc_check = (\<lambda>args facts.
       let path = (case Option.bind (map_of args ''path'') as_str of Some p \<Rightarrow> p | None \<Rightarrow> [])
       in if path \<in> files_read facts then Ok () else Err (PreconditionFailed path)) \<rparr>"

record tool =
  tl_name :: string
  tl_class :: tool_class
  tl_schema :: schema
  tl_resolver :: "json_map \<Rightarrow> effect"
  tl_precondition :: "precondition option"

definition tool_register ::
  "string \<Rightarrow> tool_class \<Rightarrow> field list \<Rightarrow> (json_map \<Rightarrow> effect) \<Rightarrow> (tool, tool_error) outcome" where
  "tool_register name cls fds resolver =
     bind_outcome (schema_build name fds) (\<lambda>s.
       Ok \<lparr> tl_name = name, tl_class = cls, tl_schema = s, tl_resolver = resolver, tl_precondition = None \<rparr>)"

definition with_precondition :: "precondition \<Rightarrow> tool \<Rightarrow> tool" where
  "with_precondition p t = t\<lparr> tl_precondition := Some p \<rparr>"

definition to_manifest :: "string \<Rightarrow> tool \<Rightarrow> json" where
  "to_manifest description t = json_object
     [(''name'', JString (tl_name t)), (''description'', JString description),
      (''input_schema'', to_provider_schema (tl_schema t))]"

definition check_precondition :: "tool \<Rightarrow> json_map \<Rightarrow> session_facts \<Rightarrow> (unit, tool_error) outcome" where
  "check_precondition t args facts =
     (case tl_precondition t of Some p \<Rightarrow> pc_check p args facts | None \<Rightarrow> Ok ())"

section \<open>The registry\<close>

record registry =
  rg_tools :: "(string, tool) btree"
  rg_disabled :: "string set"

definition registry_new :: registry where
  "registry_new = \<lparr> rg_tools = [], rg_disabled = {} \<rparr>"

definition registry_names :: "registry \<Rightarrow> string list" where
  "registry_names r = map fst (rg_tools r)"

definition registry_register :: "tool \<Rightarrow> registry \<Rightarrow> (registry, tool_error) outcome" where
  "registry_register t r =
     (if map_of (rg_tools r) (tl_name t) \<noteq> None then Err (UnknownTool (tl_name t) [tl_name t @ '' is already registered''])
      else Ok (r\<lparr> rg_tools := bt_insert (tl_name t) t (rg_tools r) \<rparr>))"

definition registry_disable :: "string \<Rightarrow> registry \<Rightarrow> (registry, tool_error) outcome" where
  "registry_disable name r =
     (if map_of (rg_tools r) name = None then Err (UnknownTool name (registry_names r))
      else Ok (r\<lparr> rg_disabled := insert name (rg_disabled r) \<rparr>))"

definition registry_manifest :: "(string \<rightharpoonup> string) \<Rightarrow> registry \<Rightarrow> json list" where
  "registry_manifest descriptions r =
     map (\<lambda>kv. to_manifest (case descriptions (tl_name (snd kv)) of Some d \<Rightarrow> d | None \<Rightarrow> []) (snd kv)) (rg_tools r)"

record invocation =
  iv_tool :: string
  iv_class :: tool_class
  iv_arguments :: string
  iv_effect :: effect

definition available_tool :: "registry \<Rightarrow> string \<Rightarrow> (tool, tool_error) outcome" where
  "available_tool r name =
     (case map_of (rg_tools r) name of
        None \<Rightarrow> Err (UnknownTool name (registry_names r))
      | Some t \<Rightarrow> if name \<in> rg_disabled r then Err (ToolDisabled name) else Ok t)"

definition finish_invocation ::
  "tool \<Rightarrow> string \<Rightarrow> json \<Rightarrow> string \<Rightarrow> session_facts \<Rightarrow> (invocation, tool_error) outcome" where
  "finish_invocation t name args canonical facts =
     (case args of
        JObject m \<Rightarrow>
          bind_outcome (schema_validate (tl_schema t) m) (\<lambda>_.
          bind_outcome (check_precondition t m facts) (\<lambda>_.
            Ok \<lparr> iv_tool = name, iv_class = tl_class t, iv_arguments = canonical, iv_effect = tl_resolver t m \<rparr>))
      | _ \<Rightarrow> Err (BadArguments name NotAnObject))"

text \<open>\<open>From<CanonicalError>\<close>: the refusal of the canonical writer names no tool.\<close>

definition from_canonical :: "('a, canonical_error) outcome \<Rightarrow> ('a, tool_error) outcome" where
  "from_canonical r =
     (case r of Ok x \<Rightarrow> Ok x | Err e \<Rightarrow> Err (BadArguments [] (NotCanonical e)) | Panic \<Rightarrow> Panic)"

text \<open>\<open>None\<close> would be a scan without fuel left, which \<open>Key_Scan\<close> excludes.\<close>

definition registry_invoke ::
  "(string \<Rightarrow> (json, string) outcome) \<Rightarrow> (string \<Rightarrow> string) \<Rightarrow> registry \<Rightarrow> string \<Rightarrow> string \<Rightarrow> session_facts \<Rightarrow>
     (invocation, tool_error) outcome option" where
  "registry_invoke parse esc r name arguments facts =
     (case available_tool r name of
        Err e \<Rightarrow> Some (Err e) | Panic \<Rightarrow> Some Panic
      | Ok t \<Rightarrow>
          Option.bind (canonicalize parse esc arguments) (\<lambda>canonical.
          case from_canonical canonical of
            Err e \<Rightarrow> Some (Err e) | Panic \<Rightarrow> Some Panic
          | Ok canonical \<Rightarrow>
              map_option (\<lambda>parsed. bind_outcome (from_canonical parsed) (\<lambda>v. finish_invocation t name v canonical facts))
                (parse_strict parse arguments)))"

definition invoke_value ::
  "(string \<Rightarrow> string) \<Rightarrow> registry \<Rightarrow> string \<Rightarrow> json \<Rightarrow> session_facts \<Rightarrow> (invocation, tool_error) outcome" where
  "invoke_value esc r name arguments facts =
     bind_outcome (available_tool r name) (\<lambda>t.
     bind_outcome (from_canonical (canonicalize_value esc arguments)) (\<lambda>canonical.
       finish_invocation t name arguments canonical facts))"


section \<open>What a schema accepts\<close>

definition field_accepts :: "json_map \<Rightarrow> field \<Rightarrow> bool" where
  "field_accepts args f \<longleftrightarrow>
     (case map_of args (fd_name f) of None \<Rightarrow> \<not> fd_required f | Some v \<Rightarrow> type_matches (fd_type f) v)"

definition schema_accepts :: "schema \<Rightarrow> json_map \<Rightarrow> bool" where
  "schema_accepts s args \<longleftrightarrow>
     (\<forall>f \<in> set (sm_fields s). field_accepts args f) \<and> fst ` set args \<subseteq> fd_name ` set (sm_fields s)"

lemma check_fields_Ok: "check_fields tool args fs = Ok u \<longleftrightarrow> (\<forall>f \<in> set fs. field_accepts args f)"
  by (induction fs) (auto simp: field_accepts_def split: option.split)

lemma check_fields_no_Panic: "check_fields tool args fs \<noteq> Panic"
  by (induction fs) (auto split: option.split)

lemma check_unknown_Ok: "check_unknown tool fds names = Ok u \<longleftrightarrow> set names \<subseteq> fd_name ` set fds"
  by (induction names) (auto simp: list_ex_iff)

lemma schema_validate_Ok: "schema_validate s args = Ok u \<longleftrightarrow> schema_accepts s args"
  by (auto simp: schema_validate_def bind_outcome_Ok_iff check_fields_Ok check_unknown_Ok schema_accepts_def)

lemma build_check_Ok:
  "build_check tool seen fs = Ok u \<longleftrightarrow> distinct (map fd_name fs) \<and> fd_name ` set fs \<inter> seen = {} \<and>
     (\<forall>f \<in> set fs. fd_name f \<noteq> [] \<and> \<not> trim_is_empty (fd_description f))"
  by (induction fs arbitrary: seen) auto

lemma schema_build_Ok:
  "schema_build tool fs = Ok s \<longleftrightarrow> s = \<lparr> sm_tool = tool, sm_fields = fs \<rparr> \<and> distinct (map fd_name fs) \<and>
     (\<forall>f \<in> set fs. fd_name f \<noteq> [] \<and> \<not> trim_is_empty (fd_description f))"
  by (auto simp: schema_build_def bind_outcome_Ok_iff build_check_Ok)

section \<open>The provider reads the same schema\<close>

text \<open>
  The part of JSON Schema the rendering uses: \<open>type\<close>, \<open>properties\<close>, \<open>required\<close> and
  \<open>additionalProperties\<close>, read from the rendered value.
\<close>

definition js_type :: "json \<Rightarrow> json \<Rightarrow> bool" where
  "js_type sch v \<longleftrightarrow> (case json_get ''type'' sch of Some (JString t) \<Rightarrow> type_name v = t | _ \<Rightarrow> True)"

definition js_required :: "json \<Rightarrow> string set" where
  "js_required sch = (case json_get ''required'' sch of
     Some (JArray names) \<Rightarrow> {n. JString n \<in> set names} | _ \<Rightarrow> {})"

definition js_member :: "json \<Rightarrow> string \<Rightarrow> json \<Rightarrow> bool" where
  "js_member sch k v \<longleftrightarrow>
     (case Option.bind (json_get ''properties'' sch) (json_get k) of
        Some p \<Rightarrow> js_type p v
      | None \<Rightarrow> json_get ''additionalProperties'' sch \<noteq> Some (JBool False))"

definition js_accepts :: "json \<Rightarrow> json_map \<Rightarrow> bool" where
  "js_accepts sch args \<longleftrightarrow> js_type sch (JObject args) \<and> js_required sch \<subseteq> fst ` set args \<and>
     (\<forall>(k, v) \<in> set args. js_member sch k v)"

lemma json_object_get: "json_get k (json_object kvs) = map_of (rev kvs) k"
  by (simp add: json_object_def bt_of_list_get)

lemma type_name_matches: "type_name v = field_type_name t \<longleftrightarrow> type_matches t v"
  by (cases t; cases v) simp_all

lemma distinct_map_of_rev: "distinct (map fst xs) \<Longrightarrow> map_of (rev xs) = map_of xs"
proof (rule map_of_eqI)
  assume d: "distinct (map fst xs)"
  then have "distinct (map fst (rev xs))" by (simp add: rev_map [symmetric])
  with d show "\<forall>k \<in> set (map fst (rev xs)). map_of (rev xs) k = map_of xs k"
    by (auto simp: map_of_eq_Some_iff)
qed simp

lemma map_of_fields:
  assumes "distinct (map fd_name fs)"
  shows "map_of (rev (map (\<lambda>f. (fd_name f, g f)) fs)) k = map_option g (List.find (\<lambda>f. fd_name f = k) fs)"
proof -
  have "map_of (map (\<lambda>f. (fd_name f, g f)) fs) k = map_option g (List.find (\<lambda>f. fd_name f = k) fs)"
    by (induction fs) auto
  then show ?thesis using assms by (simp add: distinct_map_of_rev comp_def)
qed

lemma provider_schema_parts:
  assumes "distinct (map fd_name (sm_fields s))"
  shows "js_type (to_provider_schema s) (JObject args)"
    and "js_required (to_provider_schema s) = fd_name ` {f \<in> set (sm_fields s). fd_required f}"
    and "js_member (to_provider_schema s) k v \<longleftrightarrow>
      (case List.find (\<lambda>f. fd_name f = k) (sm_fields s) of Some f \<Rightarrow> type_matches (fd_type f) v | None \<Rightarrow> False)"
proof -
  have get: "json_get ''type'' (to_provider_schema s) = Some (JString ''object'')"
    "json_get ''required'' (to_provider_schema s) =
      Some (JArray (map (\<lambda>f. JString (fd_name f)) (filter fd_required (sm_fields s))))"
    "json_get ''additionalProperties'' (to_provider_schema s) = Some (JBool False)"
    by (simp_all add: to_provider_schema_def json_object_get)
  show "js_type (to_provider_schema s) (JObject args)" by (simp add: js_type_def get)
  show "js_required (to_provider_schema s) = fd_name ` {f \<in> set (sm_fields s). fd_required f}"
    by (auto simp: js_required_def get)
  have "Option.bind (json_get ''properties'' (to_provider_schema s)) (json_get k) =
      map_option (\<lambda>f. json_object [(''type'', JString (field_type_name (fd_type f))),
        (''description'', JString (fd_description f))]) (List.find (\<lambda>f. fd_name f = k) (sm_fields s))"
    using assms by (simp add: to_provider_schema_def json_object_get map_of_fields)
  then show "js_member (to_provider_schema s) k v \<longleftrightarrow>
      (case List.find (\<lambda>f. fd_name f = k) (sm_fields s) of Some f \<Rightarrow> type_matches (fd_type f) v | None \<Rightarrow> False)"
    by (auto simp: js_member_def get js_type_def json_object_get type_name_matches split: option.split)
qed

text \<open>C37. The manifest and the validation cannot disagree: for every schema that builds, the rendered
  provider schema, read as JSON Schema, accepts exactly the argument objects that validation lets
  through, whatever the order of the members.\<close>

theorem manifest_agrees_with_validation:
  assumes "schema_build tool fs = Ok s" and "distinct (map fst args)"
  shows "js_accepts (to_provider_schema s) args \<longleftrightarrow> schema_validate s args = Ok ()"
proof -
  have s: "sm_fields s = fs" "distinct (map fd_name fs)" using assms(1) by (auto simp: schema_build_Ok)
  then have dist: "distinct (map fd_name (sm_fields s))" by simp
  have found: "List.find (\<lambda>g. fd_name g = fd_name f) fs = Some f" if "f \<in> set fs" for f
    using that s(2) by (induction fs) (auto simp: image_iff)
  have find: "List.find (\<lambda>f. fd_name f = k) fs = Some f \<longleftrightarrow> f \<in> set fs \<and> fd_name f = k" for k f
    using found find_SomeD [of "\<lambda>f. fd_name f = k" fs f] by auto
  have none: "List.find (\<lambda>f. fd_name f = k) fs = None \<longleftrightarrow> k \<notin> fd_name ` set fs" for k
    by (auto simp: find_None_iff)
  have mem: "(k, v) \<in> set args \<longleftrightarrow> map_of args k = Some v" for k v
    using assms(2) by (simp add: map_of_eq_Some_iff)
  have members: "(\<forall>(k, v) \<in> set args. js_member (to_provider_schema s) k v) \<longleftrightarrow>
      fst ` set args \<subseteq> fd_name ` set fs \<and>
      (\<forall>f \<in> set fs. \<forall>v. map_of args (fd_name f) = Some v \<longrightarrow> type_matches (fd_type f) v)"
    (is "?L \<longleftrightarrow> ?R")
  proof
    assume L: ?L
    have L': "k \<in> fd_name ` set fs \<and> (\<forall>f \<in> set fs. fd_name f = k \<longrightarrow> type_matches (fd_type f) v)"
      if kv: "(k, v) \<in> set args" for k v
    proof -
      obtain f where f: "List.find (\<lambda>f. fd_name f = k) fs = Some f" "type_matches (fd_type f) v"
        using bspec [OF L kv] by (auto simp: provider_schema_parts(3) [OF dist] s(1) split: option.splits)
      moreover have "g = f" if "g \<in> set fs" "fd_name g = k" for g using found [OF that(1)] that(2) f(1) by simp
      moreover have "f \<in> set fs" "fd_name f = k" using iffD1 [OF find f(1)] by simp_all
      ultimately show ?thesis using f(2) by (intro conjI ballI impI) (blast, metis)
    qed
    have "fst ` set args \<subseteq> fd_name ` set fs" using L' by auto
    moreover have "type_matches (fd_type f) v" if "f \<in> set fs" "map_of args (fd_name f) = Some v" for f v
      using L' [OF map_of_SomeD [OF that(2)]] that(1) by simp
    ultimately show ?R by blast
  next
    assume R: ?R
    have "js_member (to_provider_schema s) k v" if "(k, v) \<in> set args" for k v
    proof -
      have "k \<in> fst ` set args" using imageI [OF that, of fst] by simp
      then have "k \<in> fd_name ` set fs" using conjunct1 [OF R] by blast
      then obtain f where f: "f \<in> set fs" "fd_name f = k" by blast
      then have "List.find (\<lambda>f. fd_name f = k) fs = Some f" using find by blast
      moreover have "type_matches (fd_type f) v" using R f that mem by auto
      ultimately show ?thesis by (simp add: provider_schema_parts(3) [OF dist] s(1))
    qed
    then show ?L by auto
  qed
  have required: "js_required (to_provider_schema s) \<subseteq> fst ` set args \<longleftrightarrow>
      (\<forall>f \<in> set fs. fd_required f \<longrightarrow> map_of args (fd_name f) \<noteq> None)"
    by (auto simp: provider_schema_parts(2) [OF dist] s(1) map_of_eq_None_iff)
  show ?thesis
    using members required
    by (auto simp: js_accepts_def provider_schema_parts(1) [OF dist] schema_validate_Ok schema_accepts_def
        field_accepts_def s(1) split: option.splits)
qed


definition edit_fields :: "field list" where
  "edit_fields =
     [\<lparr> fd_name = ''path'', fd_type = Text, fd_required = True, fd_description = ''the file'' \<rparr>,
      \<lparr> fd_name = ''line'', fd_type = Number, fd_required = False, fd_description = ''where'' \<rparr>]"

lemma edit_schema: "schema_build ''edit_file'' edit_fields = Ok \<lparr> sm_tool = ''edit_file'', sm_fields = edit_fields \<rparr>"
  by (simp add: schema_build_def edit_fields_def trim_is_empty_def code_def)

lemma manifest_agrees_with_validation_witness:
  "js_accepts (to_provider_schema \<lparr> sm_tool = ''edit_file'', sm_fields = edit_fields \<rparr>) [(''path'', JString ''a'')] \<and>
   \<not> js_accepts (to_provider_schema \<lparr> sm_tool = ''edit_file'', sm_fields = edit_fields \<rparr>) [(''pathh'', JString ''a'')]"
proof -
  have "schema_validate \<lparr> sm_tool = ''edit_file'', sm_fields = edit_fields \<rparr> [(''path'', JString ''a'')] = Ok ()"
    "schema_validate \<lparr> sm_tool = ''edit_file'', sm_fields = edit_fields \<rparr> [(''pathh'', JString ''a'')] \<noteq> Ok ()"
    by (simp_all add: schema_validate_def edit_fields_def)
  then show ?thesis
    using manifest_agrees_with_validation [OF edit_schema, of "[(''path'', JString ''a'')]"]
      manifest_agrees_with_validation [OF edit_schema, of "[(''pathh'', JString ''a'')]"] by simp
qed

section \<open>Which invocations pass\<close>

text \<open>What an invocation must satisfy, with the value its text stands for.\<close>

definition invocable :: "registry \<Rightarrow> string \<Rightarrow> json \<Rightarrow> session_facts \<Rightarrow> tool \<Rightarrow> json_map \<Rightarrow> bool" where
  "invocable r name v facts t m \<longleftrightarrow>
     map_of (rg_tools r) name = Some t \<and> name \<notin> rg_disabled r \<and> v = JObject m \<and> check v [] = Ok () \<and>
     schema_accepts (tl_schema t) m \<and> check_precondition t m facts = Ok ()"

lemma available_tool_Ok: "available_tool r name = Ok t \<longleftrightarrow> map_of (rg_tools r) name = Some t \<and> name \<notin> rg_disabled r"
  by (auto simp: available_tool_def split: option.splits)

lemma from_canonical_Ok: "from_canonical c = Ok x \<longleftrightarrow> c = Ok x"
  by (cases c) (auto simp: from_canonical_def)

lemma finish_invocation_Ok:
  "finish_invocation t name v canonical facts = Ok iv \<longleftrightarrow>
     (\<exists>m. v = JObject m \<and> schema_accepts (tl_schema t) m \<and> check_precondition t m facts = Ok () \<and>
        iv = \<lparr> iv_tool = name, iv_class = tl_class t, iv_arguments = canonical, iv_effect = tl_resolver t m \<rparr>)"
  by (auto simp: finish_invocation_def bind_outcome_Ok_iff schema_validate_Ok split: json.splits)

lemma canonicalize_value_Ok: "canonicalize_value esc v = Ok c \<longleftrightarrow> check v [] = Ok () \<and> c = json_emit esc v"
  by (auto simp: canonicalize_value_def bind_outcome_Ok_iff)

lemma invoke_value_Ok:
  "invoke_value esc r name v facts = Ok iv \<longleftrightarrow>
     (\<exists>t m. invocable r name v facts t m \<and>
        iv = \<lparr> iv_tool = name, iv_class = tl_class t, iv_arguments = json_emit esc v, iv_effect = tl_resolver t m \<rparr>)"
  by (auto simp: invoke_value_def bind_outcome_Ok_iff available_tool_Ok from_canonical_Ok canonicalize_value_Ok
      finish_invocation_Ok invocable_def)

lemma reject_duplicates_total: "reject_duplicates s \<noteq> None"
proof -
  have "scan_value (scan_fuel s) s 0 \<noteq> None" by (rule scan_total(1)) (simp_all add: scan_fuel_def)
  then show ?thesis by (simp add: reject_duplicates_def scan_run_def after_None)
qed

lemma parse_strict_total: "\<exists>x. parse_strict parse s = Some x"
proof -
  have "parse_strict parse s \<noteq> None" using reject_duplicates_total [of s] by (simp add: parse_strict_def after_None)
  then show ?thesis by simp
qed

text \<open>C38. An invocation passes exactly when its name is registered and enabled, the text repeats no key,
  parses to an object that holds no float anywhere and that the schema and the precondition accept;
  what passes carries the canonical text, the class and the effect of the registered tool, exactly as
  if the value had been given parsed. (The fuel of the scan for repeated keys suffices on every text;
  the native stack, which that scan can exhaust on deep nesting, is not modelled.)\<close>

theorem invocation_passes_iff:
  "registry_invoke parse esc r name arguments facts \<noteq> None \<and>
   (registry_invoke parse esc r name arguments facts = Some (Ok iv) \<longleftrightarrow>
     reject_duplicates arguments = Some (Ok ()) \<and>
     (\<exists>v t m. parse arguments = Ok v \<and> invocable r name v facts t m \<and>
        iv = \<lparr> iv_tool = name, iv_class = tl_class t, iv_arguments = json_emit esc v, iv_effect = tl_resolver t m \<rparr> \<and>
        invoke_value esc r name v facts = Ok iv))"
proof -
  obtain x where x: "parse_strict parse arguments = Some x" using parse_strict_total by blast
  have strict: "parse_strict parse arguments = Some (Ok v) \<longleftrightarrow>
      reject_duplicates arguments = Some (Ok ()) \<and> parse arguments = Ok v" for v
    by (auto simp: parse_strict_def after_Ok invalid_def split: outcome.splits)
  have canon: "canonicalize parse esc arguments = Some (bind_outcome x (canonicalize_value esc))"
    by (cases x; cases "\<exists>v. x = Ok v \<and> is_Ok (check v [])")
      (auto simp: canonicalize_def x canonicalize_value_def split: outcome.splits elim!: is_Ok.elims)
  have invoke: "registry_invoke parse esc r name arguments facts =
      Some (bind_outcome (available_tool r name) (\<lambda>t.
        bind_outcome (from_canonical (bind_outcome x (canonicalize_value esc))) (\<lambda>canonical.
          bind_outcome (from_canonical x) (\<lambda>v. finish_invocation t name v canonical facts))))"
    by (simp add: registry_invoke_def canon x split: outcome.split)
  have passes: "registry_invoke parse esc r name arguments facts = Some (Ok iv) \<longleftrightarrow>
      (\<exists>v. x = Ok v \<and> invoke_value esc r name v facts = Ok iv)"
    by (auto simp: invoke bind_outcome_Ok_iff from_canonical_Ok invoke_value_def)
  have parsed: "x = Ok v \<longleftrightarrow> reject_duplicates arguments = Some (Ok ()) \<and> parse arguments = Ok v" for v
    using strict [of v] by (simp add: x)
  show ?thesis
  proof (intro conjI)
    show "registry_invoke parse esc r name arguments facts \<noteq> None" by (simp add: invoke)
  next
    show "registry_invoke parse esc r name arguments facts = Some (Ok iv) \<longleftrightarrow>
      reject_duplicates arguments = Some (Ok ()) \<and>
      (\<exists>v t m. parse arguments = Ok v \<and> invocable r name v facts t m \<and>
        iv = \<lparr> iv_tool = name, iv_class = tl_class t, iv_arguments = json_emit esc v, iv_effect = tl_resolver t m \<rparr> \<and>
        invoke_value esc r name v facts = Ok iv)"
      unfolding passes parsed using invoke_value_Ok [of esc r name _ facts iv] by meson
  qed
qed


section \<open>A registry only grows\<close>

datatype registry_op = Register tool | Disable string

fun registry_apply :: "registry_op \<Rightarrow> registry \<Rightarrow> (registry, tool_error) outcome" where
  "registry_apply (Register t) r = registry_register t r"
| "registry_apply (Disable n) r = registry_disable n r"

text \<open>A refused operation leaves the registry as it was.\<close>

definition registry_run :: "registry_op list \<Rightarrow> registry \<Rightarrow> registry" where
  "registry_run ops r = fold (\<lambda>op r. case registry_apply op r of Ok r' \<Rightarrow> r' | _ \<Rightarrow> r) ops r"

definition registry_wf :: "registry \<Rightarrow> bool" where
  "registry_wf r \<longleftrightarrow> bt_sorted (rg_tools r) \<and> rg_disabled r \<subseteq> fst ` set (rg_tools r) \<and>
     (\<forall>(n, t) \<in> set (rg_tools r). tl_name t = n)"


lemma registry_new_wf: "registry_wf registry_new"
  by (simp add: registry_wf_def registry_new_def bt_sorted_def)

lemma registry_register_Ok:
  "registry_register t r = Ok r' \<longleftrightarrow>
     tl_name t \<notin> fst ` set (rg_tools r) \<and> r' = r\<lparr> rg_tools := bt_insert (tl_name t) t (rg_tools r) \<rparr>"
  by (auto simp: registry_register_def map_of_eq_None_iff)

lemma registry_disable_Ok:
  "registry_disable n r = Ok r' \<longleftrightarrow>
     n \<in> fst ` set (rg_tools r) \<and> r' = r\<lparr> rg_disabled := insert n (rg_disabled r) \<rparr>"
  by (auto simp: registry_disable_def map_of_eq_None_iff)

lemma bt_insert_new_mem: "k \<notin> fst ` set m \<Longrightarrow> set (bt_insert k v m) = insert (k, v) (set m)"
  by (induction k v m rule: bt_insert.induct) (auto simp: insert_commute)

text \<open>What every accepted operation keeps and never takes back.\<close>

definition registry_extends :: "registry \<Rightarrow> registry \<Rightarrow> bool" where
  "registry_extends r r' \<longleftrightarrow>
     map_of (rg_tools r) \<subseteq>\<^sub>m map_of (rg_tools r') \<and> rg_disabled r \<subseteq> rg_disabled r'"

lemma registry_extends_refl: "registry_extends r r"
  by (simp add: registry_extends_def)

lemma registry_extends_trans: "registry_extends r s \<Longrightarrow> registry_extends s u \<Longrightarrow> registry_extends r u"
  unfolding registry_extends_def by (meson map_le_trans subset_trans)

lemma registry_apply_step:
  assumes "registry_apply op r = Ok r'" and "registry_wf r"
  shows "registry_wf r' \<and> registry_extends r r'"
proof (cases op)
  case (Register t)
  then have new: "tl_name t \<notin> fst ` set (rg_tools r)"
    and r': "r' = r\<lparr> rg_tools := bt_insert (tl_name t) t (rg_tools r) \<rparr>"
    using assms(1) by (simp_all add: registry_register_Ok)
  have "map_of (rg_tools r) (tl_name t) = None" using new by (simp add: map_of_eq_None_iff)
  then have "map_of (rg_tools r) \<subseteq>\<^sub>m map_of (bt_insert (tl_name t) t (rg_tools r))"
    by (auto simp: bt_insert_get map_le_def)
  then show ?thesis using assms(2) new
    by (auto simp: r' registry_wf_def registry_extends_def bt_insert_sorted bt_insert_new_mem)
next
  case (Disable n)
  then show ?thesis using assms by (auto simp: registry_disable_Ok registry_wf_def registry_extends_def)
qed

lemma registry_run_Cons:
  "registry_run (op # ops) r = registry_run ops (case registry_apply op r of Ok r' \<Rightarrow> r' | _ \<Rightarrow> r)"
  by (simp add: registry_run_def)

lemma registry_run_append: "registry_run (xs @ ys) r = registry_run ys (registry_run xs r)"
  by (simp add: registry_run_def)

lemma registry_run_keeps: "registry_wf r \<Longrightarrow> registry_wf (registry_run ops r) \<and> registry_extends r (registry_run ops r)"
proof (induction ops arbitrary: r)
  case Nil
  then show ?case by (simp add: registry_run_def registry_extends_refl)
next
  case (Cons op ops)
  let ?s = "case registry_apply op r of Ok r' \<Rightarrow> r' | _ \<Rightarrow> r"
  have "registry_wf ?s \<and> registry_extends r ?s"
    using registry_apply_step [of op r] Cons.prems by (cases "registry_apply op r") (simp_all add: registry_extends_refl)
  then show ?case using Cons.IH [of ?s] registry_extends_trans by (auto simp: registry_run_Cons)
qed

lemma registry_disable_keeps_manifest:
  "registry_manifest d (registry_run (map Disable ns) r) = registry_manifest d r"
proof (induction ns arbitrary: r)
  case Nil
  show ?case by (simp add: registry_run_def)
next
  case (Cons n ns)
  have "registry_manifest d (case registry_disable n r of Ok r' \<Rightarrow> r' | _ \<Rightarrow> r) = registry_manifest d r"
    by (simp add: registry_disable_def registry_manifest_def)
  then show ?case by (simp add: registry_run_Cons Cons.IH)
qed

text \<open>C39. The registry is frozen in the sense the code means: along any sequence of registrations and
  disablings, whatever is registered stays registered as the same tool, whatever is disabled
  stays disabled and is refused by name ever after; only registered names are disabled; the names are listed
  once each, in order; and disabling changes no byte of the manifest.\<close>

theorem registry_is_frozen:
  "let r = registry_run past registry_new; r' = registry_run (past @ later) registry_new in
     map_of (rg_tools r) \<subseteq>\<^sub>m map_of (rg_tools r') \<and> rg_disabled r \<subseteq> rg_disabled r' \<and>
     rg_disabled r \<subseteq> {n. available_tool r' n = Err (ToolDisabled n)} \<and>
     rg_disabled r' \<subseteq> set (registry_names r') \<and> sorted_wrt (<) (registry_names r') \<and>
     registry_manifest d (registry_run (past @ map Disable ns) registry_new) = registry_manifest d r"
proof -
  let ?r = "registry_run past registry_new" and ?r' = "registry_run later (registry_run past registry_new)"
  have wf: "registry_wf ?r" using registry_run_keeps [OF registry_new_wf] by blast
  have keeps: "registry_wf ?r'" "registry_extends ?r ?r'" using registry_run_keeps [OF wf] by blast+
  have refused: "available_tool ?r' n = Err (ToolDisabled n)" if n: "n \<in> rg_disabled ?r" for n
  proof -
    have n': "n \<in> rg_disabled ?r'" using n keeps(2) by (auto simp: registry_extends_def)
    then have "n \<in> fst ` set (rg_tools ?r')" using keeps(1) by (auto simp: registry_wf_def)
    then obtain t where "map_of (rg_tools ?r') n = Some t" by (metis map_of_eq_None_iff not_None_eq)
    then show ?thesis using n' by (simp add: available_tool_def)
  qed
  show ?thesis
    using keeps refused registry_disable_keeps_manifest [of d ns ?r]
    by (auto simp: Let_def registry_run_append registry_extends_def registry_wf_def registry_names_def bt_sorted_def)
qed

text \<open>An invocation of an editing tool that passes names a file the session has read.\<close>

lemma edits_follow_reads:
  assumes "invocable r name v facts t m" and "tl_precondition t = Some read_before_edit"
    and "f \<in> set (sm_fields (tl_schema t))" and "fd_name f = ''path''" and "fd_type f = Text" and "fd_required f"
  obtains p where "map_of m ''path'' = Some (JString p)" and "p \<in> files_read facts"
proof -
  have "field_accepts m f" using assms(1,3) by (auto simp: invocable_def schema_accepts_def)
  then obtain x where x: "map_of m ''path'' = Some x" "type_matches Text x"
    using assms(4-6) by (auto simp: field_accepts_def split: option.splits)
  then obtain p where p: "x = JString p" by (cases x) auto
  then have "p \<in> files_read facts"
    using assms(1,2) x by (auto simp: invocable_def check_precondition_def read_before_edit_def split: if_splits)
  then show ?thesis using that x p by blast
qed

end
