(* ===== verification/Llm_Wire.thy ===== *)
theory Llm_Wire
  imports Canonical Cache_Plan Config_Load
begin

text \<open>
  \<open>crates/supra_llm/src/client.rs\<close> and \<open>error.rs\<close>, the request side: content blocks and their wire
  form, requests, the client and the bodies it renders for the three providers. \<open>parse\<close> and \<open>esc\<close>
  are the parser and the string writer of \<open>serde_json\<close>.
\<close>

section \<open>Blocks, messages and completions\<close>

datatype llm_role = By_User | By_Assistant

record thinking =
  budget_tokens :: nat

definition thinking_enabled :: "thinking \<Rightarrow> bool" where
  "thinking_enabled t \<longleftrightarrow> budget_tokens t > 0"

datatype content_block =
    TextBlock string "json list"
  | ThinkingBlock string string
  | RedactedBlock string
  | ToolUseBlock string string json
  | ToolResultBlock string json bool
  | UnknownBlock json

definition text_block :: "string \<Rightarrow> content_block" where
  "text_block s = TextBlock s []"

fun wire_value :: "content_block \<Rightarrow> json" where
  "wire_value (TextBlock s citations) =
     (let m = bt_of_list [(''type'', JString ''text''), (''text'', JString s)] in
      JObject (if citations \<noteq> [] then bt_insert ''citations'' (JArray citations) m else m))"
| "wire_value (ThinkingBlock s signature) = json_object
     [(''type'', JString ''thinking''), (''thinking'', JString s), (''signature'', JString signature)]"
| "wire_value (RedactedBlock payload) = json_object
     [(''type'', JString ''redacted_thinking''), (''data'', JString payload)]"
| "wire_value (ToolUseBlock i name input) = json_object
     [(''type'', JString ''tool_use''), (''id'', JString i), (''name'', JString name), (''input'', input)]"
| "wire_value (ToolResultBlock i content is_error) =
     (let m = bt_of_list [(''type'', JString ''tool_result''), (''tool_use_id'', JString i), (''content'', content)] in
      JObject (if is_error then bt_insert ''is_error'' (JBool True) m else m))"
| "wire_value (UnknownBlock raw) = raw"

datatype wire_fault = NoStringType | NoStringField string string

definition wire_string :: "json \<Rightarrow> string \<Rightarrow> string \<Rightarrow> (string, wire_fault) outcome" where
  "wire_string v kind name =
     (case Option.bind (json_get name v) as_str of Some s \<Rightarrow> Ok s | None \<Rightarrow> Err (NoStringField kind name))"

definition get_or :: "json \<Rightarrow> string \<Rightarrow> json \<Rightarrow> json" where
  "get_or d name v = (case json_get name v of Some x \<Rightarrow> x | None \<Rightarrow> d)"

definition get_array :: "string \<Rightarrow> json \<Rightarrow> json list" where
  "get_array name v = (case Option.bind (json_get name v) as_array of Some xs \<Rightarrow> xs | None \<Rightarrow> [])"

definition from_wire_value :: "json \<Rightarrow> (content_block, wire_fault) outcome" where
  "from_wire_value v =
     (case Option.bind (json_get ''type'' v) as_str of
        None \<Rightarrow> Err NoStringType
      | Some kind \<Rightarrow>
          if kind = ''text'' then
            bind_outcome (wire_string v kind ''text'') (\<lambda>s. Ok (TextBlock s (get_array ''citations'' v)))
          else if kind = ''thinking'' then
            bind_outcome (wire_string v kind ''thinking'') (\<lambda>s.
            bind_outcome (wire_string v kind ''signature'') (\<lambda>signature. Ok (ThinkingBlock s signature)))
          else if kind = ''redacted_thinking'' then
            bind_outcome (wire_string v kind ''data'') (\<lambda>payload. Ok (RedactedBlock payload))
          else if kind = ''tool_use'' then
            bind_outcome (wire_string v kind ''id'') (\<lambda>i.
            bind_outcome (wire_string v kind ''name'') (\<lambda>name. Ok (ToolUseBlock i name (get_or JNull ''input'' v))))
          else if kind = ''tool_result'' then
            bind_outcome (wire_string v kind ''tool_use_id'') (\<lambda>i.
              Ok (ToolResultBlock i (get_or (JString []) ''content'' v)
                (case Option.bind (json_get ''is_error'' v) as_bool of Some b \<Rightarrow> b | None \<Rightarrow> False)))
          else Ok (UnknownBlock v))"

record llm_message =
  ms_role :: llm_role
  ms_content :: "content_block list"

definition message_of_text :: "llm_role \<Rightarrow> string \<Rightarrow> llm_message" where
  "message_of_text r s = \<lparr> ms_role = r, ms_content = [text_block s] \<rparr>"

fun visible_text :: "content_block list \<Rightarrow> string" where
  "visible_text [] = []"
| "visible_text (TextBlock s _ # bs) = s @ visible_text bs"
| "visible_text (_ # bs) = visible_text bs"

definition text_content :: "llm_message \<Rightarrow> string" where
  "text_content m = visible_text (ms_content m)"

record usage =
  input_tokens :: nat
  output_tokens :: nat
  cached_tokens :: nat

definition usage_default :: usage where
  "usage_default = \<lparr> input_tokens = 0, output_tokens = 0, cached_tokens = 0 \<rparr>"

datatype stop_reason =
    EndTurn | StopToolUse | MaxTokens | StopSequence | PauseTurn | Refusal | ModelContextWindowExceeded
  | ContentFilter | OtherReason string

record completion =
  cm_content :: "content_block list"
  cm_stop_reason :: stop_reason
  cm_stop_sequence :: "string option"
  cm_model :: string
  cm_request_id :: "string option"
  cm_usage :: "usage option"
  cm_thinking :: thinking

definition completion_text :: "completion \<Rightarrow> string" where
  "completion_text c = visible_text (cm_content c)"

definition completion_end_turn :: "string \<Rightarrow> usage option \<Rightarrow> thinking \<Rightarrow> completion" where
  "completion_end_turn s u t = \<lparr> cm_content = [text_block s], cm_stop_reason = EndTurn, cm_stop_sequence = None,
     cm_model = [], cm_request_id = None, cm_usage = u, cm_thinking = t \<rparr>"

section \<open>Errors\<close>

text \<open>What a detail text says is the constructor of the reason; texts of other crates stay texts.\<close>

datatype google_fault = NoMatchingCall string | ToolsRefused canonical_error | ToolsNotArray | ToolNotObject

datatype render_fault = NotCanonicalBody canonical_error | GoogleRefuses google_fault

datatype stream_fault =
    MessageStartNoMessage | DuplicateIndex nat | TooManyBlocks | NoContentBlock | NoDelta
  | UnopenedDelta nat | UnopenedStop nat | DeltaMismatch string string | ProviderSays string
  | UnknownEvent string | NoIndex | IndexTooLarge nat | BadToolInput string | BadUnknownInput string
  | CallWithoutName

datatype bad_response =
    HttpRefused nat string
  | BodyNotCanonical render_fault
  | StreamFault stream_fault
  | StreamTooLong | EventTooLong | EventNotUtf8 | ManyDataLines | EventNotJson string
  | EndedInsideEvent | NoMessageStop | BlockLeftOpen | NoStopReason | NoEvents | NoTerminal
  | NotReplayable string string | EmptyMessage string | ToolNotCanonical canonical_error
  | ToolNotJson string | NoChoices | SdkSays string | SdkStream string | SdkDecode string string

datatype transport_fault = Failed string | HttpFailed nat string

datatype llm_error =
    UnknownProvider string
  | ProviderMismatch string string
  | Unauthorized string string
  | UnauthorizedHttp string nat
  | RateLimited string nat
  | Transport string transport_fault
  | BadResponse string bad_response
  | ThinkingTooLow string nat nat
  | Credential config_error

section \<open>Requests\<close>

record llm_request =
  rq_provider :: provider_kind
  rq_model :: string
  rq_messages :: "llm_message list"
  rq_tools :: "string list"
  rq_thinking :: thinking
  rq_breakpoints :: "breakpoint list"

definition request_check :: "llm_request \<Rightarrow> (unit, llm_error) outcome" where
  "request_check r =
     (let p = policy_for_kind (rq_provider r) in
      if \<not> thinking_allowed p (budget_tokens (rq_thinking r))
      then Err (ThinkingTooLow (provider_name (rq_provider r)) (budget_tokens (rq_thinking r)) (cp_min_thinking_tokens p))
      else Ok ())"

definition effective_breakpoints :: "llm_request \<Rightarrow> breakpoint list" where
  "effective_breakpoints r = take (cp_max_breakpoints (policy_for_kind (rq_provider r))) (rq_breakpoints r)"

section \<open>The client\<close>

definition DEFAULT_OPENAI_MODEL :: string where "DEFAULT_OPENAI_MODEL = ''gpt-4o-mini''"
definition DEFAULT_ANTHROPIC_MODEL :: string where "DEFAULT_ANTHROPIC_MODEL = ''claude-haiku-4-5-20251001''"

record client =
  cn_policy :: cache_policy
  cn_endpoint :: string
  cn_model :: string
  cn_thinking :: thinking

definition client_new :: "string \<Rightarrow> string \<Rightarrow> string \<Rightarrow> nat \<Rightarrow> (client, llm_error) outcome" where
  "client_new name endpoint model thinking_budget =
     (case provider_parse name of
        None \<Rightarrow> Err (UnknownProvider name)
      | Some kind \<Rightarrow>
          let p = policy_for_kind kind in
          if \<not> thinking_allowed p thinking_budget
          then Err (ThinkingTooLow (provider_name kind) thinking_budget (cp_min_thinking_tokens p))
          else Ok \<lparr> cn_policy = p, cn_endpoint = endpoint,
            cn_model = (if trim_is_empty model then
                (case kind of Anthropic \<Rightarrow> DEFAULT_ANTHROPIC_MODEL | OpenAI \<Rightarrow> DEFAULT_OPENAI_MODEL | Google \<Rightarrow> model)
              else model),
            cn_thinking = \<lparr> budget_tokens = thinking_budget \<rparr> \<rparr>)"

definition client_from_config :: "config \<Rightarrow> string \<Rightarrow> (client, llm_error) outcome" where
  "client_from_config c name =
     (if provider_parse name = None then Err (UnknownProvider name)
      else let entry = map_of (cf_providers c) name in
        client_new name
          (case Option.bind entry pr_endpoint of Some e \<Rightarrow> e | None \<Rightarrow> [])
          (case Option.bind entry pr_model of Some m \<Rightarrow> m | None \<Rightarrow> [])
          (cf_thinking_budget c))"

definition check_provider :: "client \<Rightarrow> llm_request \<Rightarrow> (unit, llm_error) outcome" where
  "check_provider c r =
     (if rq_provider r = cp_kind (cn_policy c) then Ok ()
      else Err (ProviderMismatch (provider_name (cp_kind (cn_policy c))) (provider_name (rq_provider r))))"

text \<open>The empty text pins no endpoint.\<close>

definition sdk_endpoint :: "string \<Rightarrow> string option" where
  "sdk_endpoint endpoint = (if trim_is_empty endpoint then None else Some endpoint)"


section \<open>Rendering a body\<close>

type_synonym body = "(string, json) btree"

fun tools_parse :: "(string \<Rightarrow> (json, string) outcome) \<Rightarrow> string list \<Rightarrow> (json list, canonical_error) outcome" where
  "tools_parse parse [] = Ok []"
| "tools_parse parse (t # ts) =
     (case parse t of
        Err e \<Rightarrow> Err (C_Invalid e)
      | Panic \<Rightarrow> Panic
      | Ok v \<Rightarrow> bind_outcome (tools_parse parse ts) (\<lambda>vs. Ok (v # vs)))"

definition tools_value :: "(string \<Rightarrow> (json, string) outcome) \<Rightarrow> llm_request \<Rightarrow> (json, canonical_error) outcome" where
  "tools_value parse r = bind_outcome (tools_parse parse (rq_tools r)) (\<lambda>vs. Ok (JArray vs))"

definition role_name :: "llm_role \<Rightarrow> string" where
  "role_name r = (case r of By_User \<Rightarrow> ''user'' | By_Assistant \<Rightarrow> ''assistant'')"

definition message_value :: "llm_message \<Rightarrow> json" where
  "message_value m = json_object
     [(''role'', JString (role_name (ms_role m))), (''content'', JArray (map wire_value (ms_content m)))]"

definition messages_value :: "llm_request \<Rightarrow> json" where
  "messages_value r = JArray (map message_value (rq_messages r))"

text \<open>The part of the body shared by two providers: tools that do not parse are left out.\<close>

definition with_tools :: "(string \<Rightarrow> (json, string) outcome) \<Rightarrow> llm_request \<Rightarrow> body \<Rightarrow> body" where
  "with_tools parse r m =
     (if rq_tools r \<noteq> [] then
        (case tools_value parse r of Ok tools \<Rightarrow> bt_insert ''tools'' tools m | _ \<Rightarrow> m)
      else m)"

definition to_ascii_lowercase :: "string \<Rightarrow> string" where
  "to_ascii_lowercase s = map ascii_lower s"

definition ascii_alnum :: "char \<Rightarrow> bool" where
  "ascii_alnum c \<longleftrightarrow> is_digit c \<or> 65 \<le> code c \<and> code c \<le> 90 \<or> 97 \<le> code c \<and> code c \<le> 122"

text \<open>\<open>match_indices\<close>: the matches of a text that is not empty, from left to right, without overlap.\<close>

fun match_from :: "nat \<Rightarrow> string \<Rightarrow> string \<Rightarrow> nat \<Rightarrow> nat list" where
  "match_from 0 p s i = []"
| "match_from (Suc n) p s i =
     (if length s < i + length p then []
      else if take (length p) (drop i s) = p then i # match_from n p s (i + length p)
      else match_from n p s (i + 1))"

definition match_indices :: "string \<Rightarrow> string \<Rightarrow> nat list" where
  "match_indices p s = match_from (length s + 1) p s 0"

definition model_family_matches :: "string \<Rightarrow> string \<Rightarrow> bool" where
  "model_family_matches model family =
     list_ex (\<lambda>start.
       \<not> (start > 0 \<and> ascii_alnum (model ! (start - 1))) \<and>
       \<not> (start + length family < length model \<and> ascii_alnum (model ! (start + length family))))
     (match_indices family model)"

definition ADAPTIVE_FAMILIES :: "string list" where
  "ADAPTIVE_FAMILIES = [''claude-opus-5'', ''claude-sonnet-5'', ''claude-fable-5'', ''claude-opus-4-8'',
     ''claude-opus-4-7'', ''claude-opus-4-6'', ''claude-sonnet-4-6'']"

definition anthropic_supports_adaptive_thinking :: "string \<Rightarrow> bool" where
  "anthropic_supports_adaptive_thinking model =
     list_ex (model_family_matches (to_ascii_lowercase model)) ADAPTIVE_FAMILIES"

fun map_last :: "('a \<Rightarrow> 'a) \<Rightarrow> 'a list \<Rightarrow> 'a list" where
  "map_last f [] = []"
| "map_last f [x] = [f x]"
| "map_last f (x # y # xs) = x # map_last f (y # xs)"

fun object_insert :: "string \<Rightarrow> json \<Rightarrow> json \<Rightarrow> json" where
  "object_insert k v (JObject m) = JObject (bt_insert k v m)"
| "object_insert k v j = j"

definition ttl_text :: "cache_ttl \<Rightarrow> string" where
  "ttl_text t = (case t of OneHour \<Rightarrow> ''1h'' | FiveMinutes \<Rightarrow> ''5m'')"

definition cache_control :: "breakpoint \<Rightarrow> json" where
  "cache_control bp = json_object
     [(''type'', JString ''ephemeral''), (''ttl'', JString (ttl_text (ttl_for policy_anthropic bp)))]"

definition mark_tools :: "json \<Rightarrow> body \<Rightarrow> body" where
  "mark_tools control m =
     (case Option.bind (map_of m ''tools'') as_array of
        None \<Rightarrow> m
      | Some tools \<Rightarrow> bt_insert ''tools'' (JArray (map_last (object_insert ''cache_control'' control) tools)) m)"

definition mark_message :: "json \<Rightarrow> json \<Rightarrow> json" where
  "mark_message control message =
     (case Option.bind (json_get ''content'' message) as_array of
        None \<Rightarrow> message
      | Some content \<Rightarrow>
          object_insert ''content'' (JArray (map_last (object_insert ''cache_control'' control) content)) message)"

definition mark_previous_turn :: "json \<Rightarrow> body \<Rightarrow> body" where
  "mark_previous_turn control m =
     (case Option.bind (map_of m ''messages'') as_array of
        None \<Rightarrow> m
      | Some messages \<Rightarrow> bt_insert ''messages'' (JArray (map_last (mark_message control) messages)) m)"

definition apply_breakpoint :: "body \<Rightarrow> breakpoint \<Rightarrow> body" where
  "apply_breakpoint m bp =
     (case bp of
        Bp1Tools \<Rightarrow> mark_tools (cache_control bp) m
      | Bp2System \<Rightarrow> m
      | Bp3MemoryIndex \<Rightarrow> m
      | Bp4PreviousTurn \<Rightarrow> mark_previous_turn (cache_control bp) m)"

definition apply_anthropic_cache_controls :: "llm_request \<Rightarrow> body \<Rightarrow> body" where
  "apply_anthropic_cache_controls r m = foldl apply_breakpoint m (effective_breakpoints r)"

definition thinking_value :: "string \<Rightarrow> thinking \<Rightarrow> json" where
  "thinking_value model t =
     (if anthropic_supports_adaptive_thinking model then json_object [(''type'', JString ''adaptive'')]
      else json_object [(''type'', JString ''enabled''), (''budget_tokens'', JNumber (PosInt (budget_tokens t)))])"

definition render_anthropic :: "(string \<Rightarrow> (json, string) outcome) \<Rightarrow> llm_request \<Rightarrow> body \<Rightarrow> body" where
  "render_anthropic parse r m =
     (let m = bt_insert ''max_tokens'' (JNumber (PosInt 32000)) m;
          m = bt_insert ''stream'' (JBool True) m;
          m = bt_insert ''messages'' (messages_value r) m;
          m = with_tools parse r m;
          model = (case Option.bind (map_of m ''model'') as_str of Some s \<Rightarrow> s | None \<Rightarrow> []);
          m = (if thinking_enabled (rq_thinking r) then bt_insert ''thinking'' (thinking_value model (rq_thinking r)) m else m)
      in apply_anthropic_cache_controls r m)"

definition render_openai :: "(string \<Rightarrow> (json, string) outcome) \<Rightarrow> llm_request \<Rightarrow> body \<Rightarrow> body" where
  "render_openai parse r m =
     (let m = bt_insert ''messages'' (messages_value r) m;
          m = with_tools parse r m;
          m = (if thinking_enabled (rq_thinking r) then bt_insert ''reasoning_effort'' (JString ''medium'') m else m)
      in bt_insert ''prompt_cache_key'' (JString ''supra-prefix'') m)"

text \<open>The names of the calls of the assistant, the last one of an id wins.\<close>

fun block_function :: "content_block \<Rightarrow> (string \<times> string) list" where
  "block_function (ToolUseBlock i name _) = [(i, name)]"
| "block_function _ = []"

definition function_names :: "llm_message list \<Rightarrow> (string, string) btree" where
  "function_names messages = bt_of_list
     (concat (map (\<lambda>m. concat (map block_function (ms_content m))) (filter (\<lambda>m. ms_role m = By_Assistant) messages)))"

definition with_id :: "string \<Rightarrow> (string, json) btree \<Rightarrow> json" where
  "with_id i m = JObject (if i \<noteq> [] then bt_insert ''id'' (JString i) m else m)"

text \<open>The parts of one block: none for what Google does not take back.\<close>

fun google_parts :: "(string, string) btree \<Rightarrow> content_block \<Rightarrow> (json list, string) outcome" where
  "google_parts names (TextBlock s _) = Ok [json_object [(''text'', JString s)]]"
| "google_parts names (ToolUseBlock i name input) =
     Ok [json_object [(''functionCall'', with_id i (bt_of_list [(''name'', JString name), (''args'', input)]))]]"
| "google_parts names (ToolResultBlock i content _) =
     (case map_of names i of
        None \<Rightarrow> Err i
      | Some name \<Rightarrow> Ok [json_object [(''functionResponse'',
          with_id i (bt_of_list [(''name'', JString name), (''response'', content)]))]])"
| "google_parts names (ThinkingBlock _ _) = Ok []"
| "google_parts names (RedactedBlock _) = Ok []"
| "google_parts names (UnknownBlock _) = Ok []"

fun collect_outcome :: "('a \<Rightarrow> ('b, 'e) outcome) \<Rightarrow> 'a list \<Rightarrow> ('b list, 'e) outcome" where
  "collect_outcome f [] = Ok []"
| "collect_outcome f (x # xs) =
     bind_outcome (f x) (\<lambda>y. bind_outcome (collect_outcome f xs) (\<lambda>ys. Ok (y # ys)))"

definition google_content :: "(string, string) btree \<Rightarrow> llm_message \<Rightarrow> (json, string) outcome" where
  "google_content names m =
     bind_outcome (collect_outcome (google_parts names) (ms_content m)) (\<lambda>parts.
       Ok (json_object [(''role'', JString (case ms_role m of By_User \<Rightarrow> ''user'' | By_Assistant \<Rightarrow> ''model'')),
                        (''parts'', JArray (concat parts))]))"

fun google_declaration :: "json \<Rightarrow> (json, google_fault) outcome" where
  "google_declaration (JObject m) =
     Ok (case map_of m ''input_schema'' of
           None \<Rightarrow> JObject m
         | Some s \<Rightarrow> JObject (bt_insert ''parameters'' s (bt_remove ''input_schema'' m)))"
| "google_declaration _ = Err ToolNotObject"

definition google_tools_value :: "(string \<Rightarrow> (json, string) outcome) \<Rightarrow> llm_request \<Rightarrow> (json, google_fault) outcome" where
  "google_tools_value parse r =
     bind_outcome (map_err ToolsRefused (tools_value parse r)) (\<lambda>v.
       case v of
         JArray ds \<Rightarrow> bind_outcome (collect_outcome google_declaration ds) (\<lambda>ds. Ok (JArray ds))
       | _ \<Rightarrow> Err ToolsNotArray)"

definition render_google :: "(string \<Rightarrow> (json, string) outcome) \<Rightarrow> llm_request \<Rightarrow> body \<Rightarrow> (body, google_fault) outcome" where
  "render_google parse r m =
     bind_outcome (map_err NoMatchingCall
         (collect_outcome (google_content (function_names (rq_messages r))) (rq_messages r))) (\<lambda>contents.
     let m = bt_insert ''contents'' (JArray contents) m in
     bind_outcome
       (if rq_tools r \<noteq> [] then
          bind_outcome (google_tools_value parse r) (\<lambda>declarations.
            Ok (bt_insert ''tools'' (JArray [json_object [(''functionDeclarations'', declarations)]]) m))
        else Ok m) (\<lambda>m.
     Ok (if thinking_enabled (rq_thinking r) then
           bt_insert ''generationConfig'' (json_object [(''thinkingConfig'',
             json_object [(''thinkingBudget'', JNumber (PosInt (budget_tokens (rq_thinking r))))])]) m
         else m)))"

definition client_body ::
  "(string \<Rightarrow> (json, string) outcome) \<Rightarrow> (string \<Rightarrow> string) \<Rightarrow> client \<Rightarrow> llm_request \<Rightarrow> (string, render_fault) outcome" where
  "client_body parse esc c r =
     (let m = [(''model'', JString (cn_model c))] in
      bind_outcome
        (case cp_kind (cn_policy c) of
           Anthropic \<Rightarrow> Ok (render_anthropic parse r m)
         | OpenAI \<Rightarrow> Ok (render_openai parse r m)
         | Google \<Rightarrow> map_err GoogleRefuses (render_google parse r m)) (\<lambda>m.
      map_err NotCanonicalBody (canonicalize_value esc (JObject m))))"


section \<open>Blocks survive the wire\<close>

definition KNOWN_KINDS :: "string list" where
  "KNOWN_KINDS = [''text'', ''thinking'', ''redacted_thinking'', ''tool_use'', ''tool_result'']"

text \<open>A block that is not interpreted must not spell one of the kinds that are.\<close>

fun replayable :: "content_block \<Rightarrow> bool" where
  "replayable (UnknownBlock raw) \<longleftrightarrow>
     (case Option.bind (json_get ''type'' raw) as_str of Some kind \<Rightarrow> kind \<notin> set KNOWN_KINDS | None \<Rightarrow> False)"
| "replayable _ \<longleftrightarrow> True"

lemma json_get_object [simp]: "json_get k (json_object kvs) = map_of (rev kvs) k"
  by (simp add: json_object_def bt_of_list_get)

lemma from_wire_unknown: "from_wire_value raw = Ok (UnknownBlock raw) \<longleftrightarrow> replayable (UnknownBlock raw)"
proof (cases "Option.bind (json_get ''type'' raw) as_str")
  case None
  then show ?thesis by (simp add: from_wire_value_def)
next
  case (Some kind)
  show ?thesis
    by (simp add: from_wire_value_def Some KNOWN_KINDS_def bind_outcome_Ok_iff)
qed

lemma from_wire_known:
  assumes "\<forall>raw. b \<noteq> UnknownBlock raw"
  shows "from_wire_value (wire_value b) = Ok b"
proof (cases b)
  case (TextBlock s citations)
  then show ?thesis
    by (simp add: from_wire_value_def wire_string_def get_array_def bt_of_list_get bt_insert_get Let_def)
next
  case (ToolResultBlock i content is_error)
  then show ?thesis
    by (cases is_error) (simp_all add: from_wire_value_def wire_string_def get_or_def bt_of_list_get bt_insert_get Let_def)
qed (use assms in \<open>simp_all add: from_wire_value_def wire_string_def get_or_def\<close>)

lemma from_wire_replayable: "replayable b \<Longrightarrow> from_wire_value (wire_value b) = Ok b"
  using from_wire_unknown from_wire_known [of b] by (cases b) auto

text \<open>A content block read back from its wire form is the same block, exactly when it is not an
  uninterpreted block that spells the type of an interpreted one (or has no type at all).\<close>

theorem wire_roundtrip: "from_wire_value (wire_value b) = Ok b \<longleftrightarrow> replayable b"
proof (cases "\<exists>raw. b = UnknownBlock raw")
  case True
  then show ?thesis using from_wire_unknown by auto
next
  case False
  moreover have "replayable b" using False by (cases b) auto
  ultimately show ?thesis using from_wire_known [of b] by simp
qed

section \<open>What a rendered body carries\<close>

text \<open>What the receiver of a body reads back: every message with its blocks.\<close>

definition read_role :: "string \<Rightarrow> llm_role option" where
  "read_role s = (if s = ''user'' then Some By_User else if s = ''assistant'' then Some By_Assistant else None)"

definition read_message :: "json \<Rightarrow> llm_message option" where
  "read_message v =
     (case (Option.bind (Option.bind (json_get ''role'' v) as_str) read_role,
            Option.bind (json_get ''content'' v) as_array) of
        (Some r, Some blocks) \<Rightarrow>
          (case collect_outcome from_wire_value blocks of
             Ok bs \<Rightarrow> Some \<lparr> ms_role = r, ms_content = bs \<rparr> | _ \<Rightarrow> None)
      | _ \<Rightarrow> None)"

definition read_messages :: "body \<Rightarrow> llm_message option list" where
  "read_messages m = (case Option.bind (map_of m ''messages'') as_array of Some vs \<Rightarrow> map read_message vs | None \<Rightarrow> [])"

lemma collect_outcome_Ok: "collect_outcome f xs = Ok ys \<longleftrightarrow> map f xs = map Ok ys"
proof (induction xs arbitrary: ys)
  case Nil
  show ?case by auto
next
  case (Cons x xs)
  show ?case by (cases ys) (auto simp: bind_outcome_Ok_iff Cons.IH)
qed

lemma read_message_value:
  "list_all replayable (ms_content m) \<Longrightarrow> read_message (message_value m) = Some m"
proof -
  assume "list_all replayable (ms_content m)"
  then have "collect_outcome from_wire_value (map wire_value (ms_content m)) = Ok (ms_content m)"
    by (simp add: collect_outcome_Ok list_all_iff from_wire_replayable)
  then show ?thesis
    by (simp add: read_message_def message_value_def read_role_def role_name_def split: llm_role.split)
qed

text \<open>A cache mark on a block that is interpreted does not change what is read.\<close>

fun interpreted :: "content_block \<Rightarrow> bool" where
  "interpreted (UnknownBlock _) \<longleftrightarrow> False"
| "interpreted _ \<longleftrightarrow> True"

lemma object_insert_get:
  "json_get k (object_insert j v x) = (if is_object x \<and> k = j then Some v else json_get k x)"
  by (cases x) (simp_all add: bt_insert_get)

lemma from_wire_marked:
  assumes "from_wire_value v = Ok b" and "interpreted b"
  shows "from_wire_value (object_insert ''cache_control'' c v) = Ok b"
proof -
  let ?v = "object_insert ''cache_control'' c v"
  have get: "json_get k ?v = json_get k v" if "k \<noteq> ''cache_control''" for k
    using that by (simp add: object_insert_get)
  obtain kind where kind: "Option.bind (json_get ''type'' v) as_str = Some kind"
    using assms(1) by (cases "Option.bind (json_get ''type'' v) as_str") (simp_all add: from_wire_value_def)
  have "kind \<in> set KNOWN_KINDS"
  proof (rule ccontr)
    assume "kind \<notin> set KNOWN_KINDS"
    then have "from_wire_value v = Ok (UnknownBlock v)" by (simp add: from_wire_value_def kind KNOWN_KINDS_def)
    then show False using assms by simp
  qed
  then have "from_wire_value ?v = from_wire_value v"
    by (simp add: from_wire_value_def get kind KNOWN_KINDS_def wire_string_def get_or_def get_array_def) auto
  then show ?thesis using assms(1) by simp
qed

lemma map_last_append: "map_last f (xs @ [x]) = xs @ [f x]"
  by (induction f xs rule: map_last.induct) simp_all

lemma map_last_snoc: "xs \<noteq> [] \<Longrightarrow> map_last f xs = butlast xs @ [f (last xs)]"
  using map_last_append [of f "butlast xs" "last xs"] by simp


lemma read_message_Some:
  "read_message v = Some m \<longleftrightarrow>
     (\<exists>r blocks bs. Option.bind (Option.bind (json_get ''role'' v) as_str) read_role = Some r \<and>
        Option.bind (json_get ''content'' v) as_array = Some blocks \<and>
        map from_wire_value blocks = map Ok bs \<and> m = \<lparr> ms_role = r, ms_content = bs \<rparr>)"
  by (auto simp: read_message_def collect_outcome_Ok [symmetric] split: option.splits outcome.splits)

text \<open>
  What a cache mark does to a block as it is read back: nothing to a block that is interpreted, but
  the object of an uninterpreted one, kept as it came, gets the mark as a member.
\<close>

fun marked_block :: "json \<Rightarrow> content_block \<Rightarrow> content_block" where
  "marked_block c (UnknownBlock raw) = UnknownBlock (object_insert ''cache_control'' c raw)"
| "marked_block c b = b"

definition marked_message :: "json \<Rightarrow> llm_message \<Rightarrow> llm_message" where
  "marked_message c m = m\<lparr> ms_content := map_last (marked_block c) (ms_content m) \<rparr>"

lemma from_wire_mark:
  assumes "from_wire_value v = Ok b"
  shows "from_wire_value (object_insert ''cache_control'' c v) = Ok (marked_block c b)"
proof (cases "interpreted b")
  case True
  then have "marked_block c b = b" by (cases b) simp_all
  then show ?thesis using from_wire_marked [OF assms True] by simp
next
  case False
  then obtain raw where b: "b = UnknownBlock raw" by (cases b) simp_all
  have raw: "raw = v" using assms unfolding b
    by (auto simp: from_wire_value_def bind_outcome_Ok_iff split: option.splits if_splits)
  have "json_get ''type'' (object_insert ''cache_control'' c v) = json_get ''type'' v" by (simp add: object_insert_get)
  then show ?thesis using assms unfolding b raw
    by (auto simp: from_wire_value_def bind_outcome_Ok_iff split: option.splits if_splits)
qed

lemma is_object_get: "json_get k v = Some x \<Longrightarrow> is_object v"
  by (cases v) auto

lemma map_last_blocks:
  assumes "map from_wire_value blocks = map Ok bs"
  shows "map from_wire_value (map_last (object_insert ''cache_control'' c) blocks) = map Ok (map_last (marked_block c) bs)"
proof (cases "blocks = []")
  case False
  then obtain bl b where blocks: "blocks = bl @ [b]" by (metis rev_exhaust)
  have "bs \<noteq> []" using assms blocks by auto
  then obtain bs' x where bs: "bs = bs' @ [x]" by (metis rev_exhaust)
  have "map from_wire_value bl = map Ok bs'" "from_wire_value b = Ok x" using assms(1) by (simp_all add: blocks bs)
  then show ?thesis using from_wire_mark by (simp add: blocks bs map_last_append)
qed (use assms in simp)

lemma read_marked_message:
  assumes "read_message v = Some m"
  shows "read_message (mark_message c v) = Some (marked_message c m)"
proof -
  from assms(1) obtain r blocks bs where r: "Option.bind (Option.bind (json_get ''role'' v) as_str) read_role = Some r"
    and content: "Option.bind (json_get ''content'' v) as_array = Some blocks"
    and blocks: "map from_wire_value blocks = map Ok bs" and m: "m = \<lparr> ms_role = r, ms_content = bs \<rparr>"
    by (auto simp: read_message_Some)
  have obj: "is_object v" using content is_object_get by (auto simp: Option.bind_eq_Some_conv)
  show ?thesis
    using r content obj map_last_blocks [OF blocks]
    by (simp add: mark_message_def read_message_Some object_insert_get m marked_message_def)
qed

lemma read_marked_turn:
  assumes "read_messages m = map Some ms"
  shows "read_messages (mark_previous_turn c m) = map Some (map_last (marked_message c) ms)"
proof (cases "Option.bind (map_of m ''messages'') as_array")
  case None
  then show ?thesis using assms(1) by (simp add: mark_previous_turn_def read_messages_def)
next
  case (Some vs)
  have vs: "map read_message vs = map Some ms" using assms(1) by (simp add: read_messages_def Some)
  have "map read_message (map_last (mark_message c) vs) = map Some (map_last (marked_message c) ms)"
  proof (cases "vs = []")
    case True
    then show ?thesis using vs by simp
  next
    case False
    then obtain us v where us: "vs = us @ [v]" by (metis rev_exhaust)
    have "ms \<noteq> []" using vs us by auto
    then obtain ns n where ns: "ms = ns @ [n]" by (metis rev_exhaust)
    have "map read_message us = map Some ns" "read_message v = Some n" using vs by (simp_all add: us ns)
    then show ?thesis using read_marked_message [of v n c] by (simp add: us ns map_last_append)
  qed
  then show ?thesis by (simp add: mark_previous_turn_def read_messages_def Some bt_insert_get)
qed

lemma bt_insert_again: "bt_insert k v (bt_insert k v m) = bt_insert k v m"
  by (induction m) auto

lemma marked_again: "marked_message c (marked_message c m) = marked_message c m"
proof (cases "ms_content m = []")
  case False
  have "object_insert k c (object_insert k c v) = object_insert k c v" for k v by (cases v) (simp_all add: bt_insert_again)
  then have "marked_block c (marked_block c b) = marked_block c b" for b by (cases b) simp_all
  then show ?thesis using False by (simp add: marked_message_def map_last_snoc)
qed (simp add: marked_message_def)

lemma marked_last_again: "map_last (marked_message c) (map_last (marked_message c) ms) = map_last (marked_message c) ms"
  by (cases "ms = []") (simp_all add: map_last_snoc marked_again)

lemma read_messages_insert: "k \<noteq> ''messages'' \<Longrightarrow> read_messages (bt_insert k v m) = read_messages m"
  by (simp add: read_messages_def bt_insert_get)

text \<open>What is read back of a body that is marked: only the last block of the last message may have changed.\<close>

definition replayed :: "breakpoint list \<Rightarrow> llm_message list \<Rightarrow> llm_message list" where
  "replayed bps ms =
     (if Bp4PreviousTurn \<in> set bps then map_last (marked_message (cache_control Bp4PreviousTurn)) ms else ms)"

lemma read_marked_body:
  assumes "read_messages m = map Some ms"
  shows "read_messages (foldl apply_breakpoint m bps) = map Some (replayed bps ms)"
  using assms(1)
proof (induction bps arbitrary: m ms)
  case Nil
  then show ?case by (simp add: replayed_def)
next
  case (Cons bp bps)
  show ?case
  proof (cases "bp = Bp4PreviousTurn")
    case True
    let ?ms = "map_last (marked_message (cache_control bp)) ms"
    have "read_messages (apply_breakpoint m bp) = map Some ?ms"
      using read_marked_turn [OF Cons.prems] True by (simp add: apply_breakpoint_def)
    from Cons.IH [OF this] show ?thesis using True by (simp add: replayed_def marked_last_again)
  next
    case False
    have "read_messages (apply_breakpoint m bp) = map Some ms"
    proof (cases bp)
      case Bp1Tools
      then have "read_messages (apply_breakpoint m bp) = read_messages m"
        by (cases "Option.bind (map_of m ''tools'') as_array")
          (simp_all add: apply_breakpoint_def mark_tools_def read_messages_insert)
      then show ?thesis using Cons.prems by simp
    qed (use Cons.prems False in \<open>simp_all add: apply_breakpoint_def\<close>)
    from Cons.IH [OF this] show ?thesis using False by (simp add: replayed_def)
  qed
qed

text \<open>C27. What the provider replays from a rendered body are the messages of the request, roles and
  blocks in order, with reasoning blocks and their signatures unchanged, whatever the tools and
  the breakpoints; the mark at the previous turn adds its member to the last block of the last
  message when that block is one the client does not interpret, and changes nothing else that is read.
  The blocks are those that have a wire form of their own: an uninterpreted one is an object whose
  type is none of the interpreted ones.\<close>

theorem anthropic_body_replays:
  assumes "list_all (\<lambda>m. list_all replayable (ms_content m)) (rq_messages r)"
  shows "read_messages (render_anthropic parse r m) = map Some (replayed (effective_breakpoints r) (rq_messages r))"
proof -
  have "map read_message (map message_value (rq_messages r)) = map Some (rq_messages r)"
    using assms(1) by (auto simp: list_all_iff intro!: read_message_value)
  then have base: "read_messages (bt_insert ''messages'' (messages_value r) m') = map Some (rq_messages r)" for m'
    by (simp add: read_messages_def messages_value_def bt_insert_get)
  have tools: "read_messages (with_tools parse r m') = read_messages m'" for m'
    by (simp add: with_tools_def read_messages_insert split: outcome.split)
  show ?thesis
    unfolding render_anthropic_def Let_def apply_anthropic_cache_controls_def
    by (rule read_marked_body) (simp add: read_messages_insert tools base)
qed

lemma marks_spare_interpreted:
  "ms \<noteq> [] \<Longrightarrow> ms_content (last ms) \<noteq> [] \<Longrightarrow> interpreted (last (ms_content (last ms))) \<Longrightarrow> replayed bps ms = ms"
proof -
  assume ne: "ms \<noteq> []" "ms_content (last ms) \<noteq> []" and i: "interpreted (last (ms_content (last ms)))"
  have "marked_block c (last (ms_content (last ms))) = last (ms_content (last ms))" for c
    using i by (cases "last (ms_content (last ms))") simp_all
  then have "marked_message c (last ms) = last ms" for c
    by (simp add: marked_message_def map_last_snoc [OF ne(2)] append_butlast_last_id [OF ne(2)])
  then show ?thesis using ne(1) by (simp add: replayed_def map_last_snoc append_butlast_last_id)
qed

lemma anthropic_body_replays_witness:
  "let signed = ThinkingBlock ''why'' ''sig''; call = ToolUseBlock ''t1'' ''read_file'' (json_object [(''path'', JString ''a'')]);
       r = \<lparr> rq_provider = Anthropic, rq_model = [],
         rq_messages = [\<lparr> ms_role = By_User, ms_content = [text_block ''hi''] \<rparr>,
           \<lparr> ms_role = By_Assistant, ms_content = [signed, UnknownBlock (json_object [(''type'', JString ''server'')]), call] \<rparr>,
           \<lparr> ms_role = By_User, ms_content = [ToolResultBlock ''t1'' (JString ''no'') True] \<rparr>],
         rq_tools = [], rq_thinking = \<lparr> budget_tokens = 2048 \<rparr>, rq_breakpoints = BREAKPOINT_ALL \<rparr> in
   read_messages (render_anthropic (\<lambda>_. Err []) r []) = map Some (replayed (effective_breakpoints r) (rq_messages r)) \<and>
   replayed (effective_breakpoints r) (rq_messages r) = rq_messages r"
  unfolding Let_def
  by (intro conjI anthropic_body_replays marks_spare_interpreted) (simp_all add: text_block_def KNOWN_KINDS_def)

end
