(* ===== verification/Utf8.thy ===== *)
theory Utf8
  imports Json
begin

text \<open>
  What the standard library does with bytes that should be UTF-8: \<open>from_utf8\<close> and
  \<open>from_utf8_lossy\<close>. Used by the readers of streams and of update bundles.
\<close>

text \<open>
  How many bytes follow a first byte, which second bytes it allows, and how many of the bytes
  that follow belong to it.
\<close>

definition utf8_need :: "nat \<Rightarrow> nat option" where
  "utf8_need a =
     (if a < 0x80 then Some 0 else if 0xC2 \<le> a \<and> a \<le> 0xDF then Some 1
      else if 0xE0 \<le> a \<and> a \<le> 0xEF then Some 2 else if 0xF0 \<le> a \<and> a \<le> 0xF4 then Some 3 else None)"

definition second_ok :: "nat \<Rightarrow> nat \<Rightarrow> bool" where
  "second_ok a b \<longleftrightarrow>
     (if a = 0xE0 then 0xA0 \<le> b \<and> b \<le> 0xBF else if a = 0xED then 0x80 \<le> b \<and> b \<le> 0x9F
      else if a = 0xF0 then 0x90 \<le> b \<and> b \<le> 0xBF else if a = 0xF4 then 0x80 \<le> b \<and> b \<le> 0x8F
      else 0x80 \<le> b \<and> b \<le> 0xBF)"

definition utf8_tail :: "nat \<Rightarrow> nat \<Rightarrow> string \<Rightarrow> nat" where
  "utf8_tail a n s =
     (if n = 0 \<or> s = [] \<or> \<not> second_ok a (code (hd s)) then 0
      else 1 + length (takeWhile (\<lambda>c. 0x80 \<le> code c \<and> code c \<le> 0xBF) (take (n - 1) (tl s))))"

function utf8_valid :: "string \<Rightarrow> bool" where
  "utf8_valid [] = True"
| "utf8_valid (c # s) =
     (case utf8_need (code c) of
        None \<Rightarrow> False
      | Some n \<Rightarrow> if utf8_tail (code c) n s = n then utf8_valid (drop n s) else False)"
  by pat_completeness auto
termination by (relation "measure length") auto

text \<open>\<open>from_utf8_lossy\<close>: each maximal broken prefix becomes one replacement character.\<close>

function utf8_lossy :: "string \<Rightarrow> string" where
  "utf8_lossy [] = []"
| "utf8_lossy (c # s) =
     (case utf8_need (code c) of
        None \<Rightarrow> [CHR 0xEF, CHR 0xBF, CHR 0xBD] @ utf8_lossy s
      | Some n \<Rightarrow>
          if utf8_tail (code c) n s = n then c # take n s @ utf8_lossy (drop n s)
          else [CHR 0xEF, CHR 0xBF, CHR 0xBD] @ utf8_lossy (drop (utf8_tail (code c) n s) s))"
  by pat_completeness auto
termination by (relation "measure length") auto

end
