(* ===== verification/Llm_Stream.thy ===== *)
theory Llm_Stream
  imports Llm_Wire Utf8
begin

text \<open>
  The answers of two providers. \<open>crates/supra_llm/src/providers.rs\<close>: the state machine over
  Anthropic's stream events and the reader of its server-sent events; \<open>client.rs\<close>: the reader of
  Google's stream, the credential headers and the legacy transport. A response is its status,
  its headers, the chunks of its body as they arrive (or the failure of one) and the body read
  as one text; \<open>parse\<close> is the parser of \<open>serde_json\<close>.
\<close>

section \<open>Server-sent events\<close>

definition LF :: char where "LF = CHR 0x0A"
definition CR :: char where "CR = CHR 0x0D"

definition find_event_end :: "string \<Rightarrow> nat option" where
  "find_event_end buffer = map_option (\<lambda>i. i + 2) (find_text [LF, LF] buffer)"

definition find_sse_event_end :: "string \<Rightarrow> nat option" where
  "find_sse_event_end buffer =
     (case (map_option (\<lambda>i. i + 2) (find_text [LF, LF] buffer), map_option (\<lambda>i. i + 4) (find_text [CR, LF, CR, LF] buffer)) of
        (Some left, Some right) \<Rightarrow> Some (min left right)
      | (None, right) \<Rightarrow> right
      | (left, None) \<Rightarrow> left)"

fun data_line :: "string \<Rightarrow> (string option, bad_response) outcome \<Rightarrow> (string option, bad_response) outcome" where
  "data_line line (Ok found) =
     (case strip_prefix ''data:'' line of
        None \<Rightarrow> Ok found
      | Some v \<Rightarrow> (case found of Some _ \<Rightarrow> Err ManyDataLines | None \<Rightarrow> Ok (Some (trim v))))"
| "data_line line r = r"

definition sse_payload :: "string \<Rightarrow> (string option, bad_response) outcome" where
  "sse_payload event =
     (if \<not> utf8_valid event then Err EventNotUtf8 else fold data_line (text_lines event) (Ok None))"

definition MAX_ANTHROPIC_STREAM_BYTES :: nat where "MAX_ANTHROPIC_STREAM_BYTES = 16 * 1024 * 1024"
definition MAX_ANTHROPIC_EVENT_BYTES :: nat where "MAX_ANTHROPIC_EVENT_BYTES = 1024 * 1024"
definition MAX_ANTHROPIC_BLOCKS :: nat where "MAX_ANTHROPIC_BLOCKS = 4096"

section \<open>A block as it arrives\<close>

datatype open_block =
    OpenText string "json list"
  | OpenThinking string string
  | OpenRedacted string
  | OpenToolUse string string json string
  | OpenUnknown json string

definition get_string :: "string \<Rightarrow> json \<Rightarrow> string" where
  "get_string name v = (case Option.bind (json_get name v) as_str of Some s \<Rightarrow> s | None \<Rightarrow> [])"

definition block_start :: "json \<Rightarrow> open_block" where
  "block_start raw =
     (let kind = get_string ''type'' raw in
      if kind = ''text'' then OpenText (get_string ''text'' raw) (get_array ''citations'' raw)
      else if kind = ''thinking'' then OpenThinking (get_string ''thinking'' raw) (get_string ''signature'' raw)
      else if kind = ''redacted_thinking'' then OpenRedacted (get_string ''data'' raw)
      else if kind = ''tool_use'' then
        OpenToolUse (get_string ''id'' raw) (get_string ''name'' raw) (get_or JNull ''input'' raw) []
      else OpenUnknown raw [])"

fun block_kind :: "open_block \<Rightarrow> string" where
  "block_kind (OpenText _ _) = ''text''"
| "block_kind (OpenThinking _ _) = ''thinking''"
| "block_kind (OpenRedacted _) = ''redacted_thinking''"
| "block_kind (OpenToolUse _ _ _ _) = ''tool_use''"
| "block_kind (OpenUnknown _ _) = ''unknown''"

definition apply_delta :: "json \<Rightarrow> open_block \<Rightarrow> (open_block, stream_fault) outcome" where
  "apply_delta d b =
     (let kind = get_string ''type'' d; refused = Err (DeltaMismatch kind (block_kind b)) in
      case b of
        OpenText s citations \<Rightarrow>
          if kind = ''text_delta'' then Ok (OpenText (s @ get_string ''text'' d) citations)
          else if kind = ''citations_delta'' \<or> kind = ''citation_delta'' then
            Ok (OpenText s (case json_get ''citation'' d of Some c \<Rightarrow> citations @ [c] | None \<Rightarrow> citations))
          else refused
      | OpenThinking s signature \<Rightarrow>
          if kind = ''thinking_delta'' then Ok (OpenThinking (s @ get_string ''thinking'' d) signature)
          else if kind = ''signature_delta'' then Ok (OpenThinking s (signature @ get_string ''signature'' d))
          else refused
      | OpenToolUse i name input partial \<Rightarrow>
          if kind = ''input_json_delta'' then Ok (OpenToolUse i name input (partial @ get_string ''partial_json'' d))
          else refused
      | OpenUnknown raw partial \<Rightarrow>
          if kind = ''input_json_delta'' then Ok (OpenUnknown raw (partial @ get_string ''partial_json'' d))
          else refused
      | OpenRedacted _ \<Rightarrow> refused)"

text \<open>
  Assigning to a member of a value: a null becomes an object, anything else that is not an
  object aborts.
\<close>

fun json_assign :: "string \<Rightarrow> json \<Rightarrow> json \<Rightarrow> (json, 'e) outcome" where
  "json_assign k v (JObject m) = Ok (JObject (bt_insert k v m))"
| "json_assign k v JNull = Ok (JObject [(k, v)])"
| "json_assign k v _ = Panic"

fun block_finish :: "(string \<Rightarrow> (json, string) outcome) \<Rightarrow> open_block \<Rightarrow> (content_block, stream_fault) outcome" where
  "block_finish parse (OpenText s citations) = Ok (TextBlock s citations)"
| "block_finish parse (OpenThinking s signature) = Ok (ThinkingBlock s signature)"
| "block_finish parse (OpenRedacted payload) = Ok (RedactedBlock payload)"
| "block_finish parse (OpenToolUse i name input partial) =
     (if partial = [] then Ok (ToolUseBlock i name input)
      else bind_outcome (map_err BadToolInput (parse partial)) (\<lambda>v. Ok (ToolUseBlock i name v)))"
| "block_finish parse (OpenUnknown raw partial) =
     (if partial = [] then Ok (UnknownBlock raw)
      else bind_outcome (map_err BadUnknownInput (parse partial)) (\<lambda>v.
           bind_outcome (json_assign ''input'' v raw) (\<lambda>raw. Ok (UnknownBlock raw))))"

section \<open>The state machine over events\<close>

record anthropic_stream =
  as_open :: "(nat, open_block) btree"
  as_complete :: "(nat, content_block) btree"
  as_stop_reason :: "stop_reason option"
  as_stop_sequence :: "string option"
  as_model :: string
  as_request_id :: "string option"
  as_usage :: "usage option"
  as_saw_message_stop :: bool

definition anthropic_stream_default :: anthropic_stream where
  "anthropic_stream_default = \<lparr> as_open = [], as_complete = [], as_stop_reason = None, as_stop_sequence = None,
     as_model = [], as_request_id = None, as_usage = None, as_saw_message_stop = False \<rparr>"

definition ensure_block_capacity :: "anthropic_stream \<Rightarrow> (unit, stream_fault) outcome" where
  "ensure_block_capacity st =
     (if length (as_open st) + length (as_complete st) \<ge> MAX_ANTHROPIC_BLOCKS then Err TooManyBlocks else Ok ())"

definition insert_complete :: "nat \<Rightarrow> content_block \<Rightarrow> anthropic_stream \<Rightarrow> (anthropic_stream, stream_fault) outcome" where
  "insert_complete i b st =
     bind_outcome (ensure_block_capacity st) (\<lambda>_.
       if map_of (as_complete st) i \<noteq> None then Err (DuplicateIndex i)
       else Ok (st\<lparr> as_complete := bt_insert i b (as_complete st) \<rparr>))"

definition merge_usage :: "json \<Rightarrow> anthropic_stream \<Rightarrow> anthropic_stream" where
  "merge_usage v st =
     (case json_get ''usage'' v of
        None \<Rightarrow> st
      | Some reported \<Rightarrow>
          let pick = (\<lambda>name old. case Option.bind (json_get name reported) as_u64 of Some n \<Rightarrow> n | None \<Rightarrow> old);
              u = (case as_usage st of Some u \<Rightarrow> u | None \<Rightarrow> usage_default)
          in st\<lparr> as_usage := Some \<lparr> input_tokens = pick ''input_tokens'' (input_tokens u),
               output_tokens = pick ''output_tokens'' (output_tokens u),
               cached_tokens = pick ''cache_read_input_tokens'' (cached_tokens u) \<rparr> \<rparr>)"

definition event_index :: "json \<Rightarrow> (nat, stream_fault) outcome" where
  "event_index ev =
     (case Option.bind (json_get ''index'' ev) as_u64 of
        None \<Rightarrow> Err NoIndex
      | Some i \<Rightarrow> if i \<le> u32_max then Ok i else Err (IndexTooLarge i))"

definition anthropic_stop_reason :: "string \<Rightarrow> stop_reason" where
  "anthropic_stop_reason reason =
     (if reason = ''end_turn'' then EndTurn
      else if reason = ''tool_use'' then StopToolUse
      else if reason = ''max_tokens'' then MaxTokens
      else if reason = ''stop_sequence'' then StopSequence
      else if reason = ''pause_turn'' then PauseTurn
      else if reason = ''refusal'' then Refusal
      else if reason = ''model_context_window_exceeded'' then ModelContextWindowExceeded
      else OtherReason reason)"

fun insert_blocks ::
  "(string \<Rightarrow> (json, string) outcome) \<Rightarrow> nat \<Rightarrow> json list \<Rightarrow> anthropic_stream \<Rightarrow> (anthropic_stream, stream_fault) outcome" where
  "insert_blocks parse i [] st = Ok st"
| "insert_blocks parse i (raw # raws) st =
     (if u32_max < i then Err (IndexTooLarge i)
      else bind_outcome (block_finish parse (block_start raw)) (\<lambda>b.
           bind_outcome (insert_complete i b st) (insert_blocks parse (i + 1) raws)))"

definition on_message_start ::
  "(string \<Rightarrow> (json, string) outcome) \<Rightarrow> json \<Rightarrow> anthropic_stream \<Rightarrow> (anthropic_stream, stream_fault) outcome" where
  "on_message_start parse ev st =
     (case json_get ''message'' ev of
        None \<Rightarrow> Err MessageStartNoMessage
      | Some message \<Rightarrow>
          let st = st\<lparr> as_model := get_string ''model'' message,
                       as_request_id := Option.bind (json_get ''id'' message) as_str \<rparr>;
              st = merge_usage message st
          in case Option.bind (json_get ''content'' message) as_array of
               Some blocks \<Rightarrow> insert_blocks parse 0 blocks st
             | None \<Rightarrow> Ok st)"

definition on_block_start :: "json \<Rightarrow> anthropic_stream \<Rightarrow> (anthropic_stream, stream_fault) outcome" where
  "on_block_start ev st =
     bind_outcome (event_index ev) (\<lambda>i.
       if map_of (as_open st) i \<noteq> None \<or> map_of (as_complete st) i \<noteq> None then Err (DuplicateIndex i)
       else bind_outcome (ensure_block_capacity st) (\<lambda>_.
         case json_get ''content_block'' ev of
           None \<Rightarrow> Err NoContentBlock
         | Some raw \<Rightarrow> Ok (st\<lparr> as_open := bt_insert i (block_start raw) (as_open st) \<rparr>)))"

definition on_block_delta :: "json \<Rightarrow> anthropic_stream \<Rightarrow> (anthropic_stream, stream_fault) outcome" where
  "on_block_delta ev st =
     bind_outcome (event_index ev) (\<lambda>i.
       case json_get ''delta'' ev of
         None \<Rightarrow> Err NoDelta
       | Some d \<Rightarrow>
           (case map_of (as_open st) i of
              None \<Rightarrow> Err (UnopenedDelta i)
            | Some b \<Rightarrow> bind_outcome (apply_delta d b) (\<lambda>b. Ok (st\<lparr> as_open := bt_insert i b (as_open st) \<rparr>))))"

definition on_block_stop ::
  "(string \<Rightarrow> (json, string) outcome) \<Rightarrow> json \<Rightarrow> anthropic_stream \<Rightarrow> (anthropic_stream, stream_fault) outcome" where
  "on_block_stop parse ev st =
     bind_outcome (event_index ev) (\<lambda>i.
       case map_of (as_open st) i of
         None \<Rightarrow> Err (UnopenedStop i)
       | Some b \<Rightarrow> bind_outcome (block_finish parse b) (\<lambda>b.
           insert_complete i b (st\<lparr> as_open := bt_remove i (as_open st) \<rparr>)))"

definition on_message_delta :: "json \<Rightarrow> anthropic_stream \<Rightarrow> (anthropic_stream, stream_fault) outcome" where
  "on_message_delta ev st =
     (case json_get ''delta'' ev of
        None \<Rightarrow> Err NoDelta
      | Some d \<Rightarrow>
          let st = (case Option.bind (json_get ''stop_reason'' d) as_str of
                      Some reason \<Rightarrow> st\<lparr> as_stop_reason := Some (anthropic_stop_reason reason) \<rparr> | None \<Rightarrow> st);
              st = st\<lparr> as_stop_sequence := Option.bind (json_get ''stop_sequence'' d) as_str \<rparr>
          in Ok (merge_usage ev st))"

definition stream_event ::
  "(string \<Rightarrow> (json, string) outcome) \<Rightarrow> json \<Rightarrow> anthropic_stream \<Rightarrow> (anthropic_stream, stream_fault) outcome" where
  "stream_event parse ev st =
     (let kind = get_string ''type'' ev in
      if kind = ''message_start'' then on_message_start parse ev st
      else if kind = ''content_block_start'' then on_block_start ev st
      else if kind = ''content_block_delta'' then on_block_delta ev st
      else if kind = ''content_block_stop'' then on_block_stop parse ev st
      else if kind = ''message_delta'' then on_message_delta ev st
      else if kind = ''message_stop'' then Ok (st\<lparr> as_saw_message_stop := True \<rparr>)
      else if kind = ''ping'' then Ok st
      else if kind = ''error'' then
        Err (ProviderSays (case Option.bind (Option.bind (json_get ''error'' ev) (json_get ''message'')) as_str of
          Some s \<Rightarrow> s | None \<Rightarrow> ''the provider sent an error event''))
      else Err (UnknownEvent kind))"


section \<open>Reading Anthropic's stream\<close>

lemma find_text_bound: "find_text p s = Some n \<Longrightarrow> n + length p \<le> length s"
  by (induction p s arbitrary: n rule: find_text.induct)
    (auto simp: strip_prefix_def split: if_splits dest: arg_cong [where f = length])

lemma sse_end_bounds: "find_sse_event_end b = Some e \<Longrightarrow> 0 < e \<and> e \<le> length b"
  using find_text_bound [of "[LF, LF]" b] find_text_bound [of "[CR, LF, CR, LF]" b]
  by (auto simp: find_sse_event_end_def split: option.splits)

lemma event_end_bounds: "find_event_end b = Some e \<Longrightarrow> 0 < e \<and> e \<le> length b"
  using find_text_bound [of "[LF, LF]" b] by (auto simp: find_event_end_def)

definition sse_event ::
  "(string \<Rightarrow> (json, string) outcome) \<Rightarrow> string \<Rightarrow> anthropic_stream \<Rightarrow> (anthropic_stream, bad_response) outcome" where
  "sse_event parse event st =
     bind_outcome (sse_payload event) (\<lambda>found.
       case found of
         None \<Rightarrow> Ok st
       | Some payload \<Rightarrow>
           if payload = ''[DONE]'' then Ok (st\<lparr> as_saw_message_stop := True \<rparr>)
           else bind_outcome (map_err EventNotJson (parse payload)) (\<lambda>ev. map_err StreamFault (stream_event parse ev st)))"

function drain_events ::
  "(string \<Rightarrow> (json, string) outcome) \<Rightarrow> string \<Rightarrow> anthropic_stream \<Rightarrow> (string \<times> anthropic_stream, bad_response) outcome" where
  "drain_events parse buffer st =
     (case find_sse_event_end buffer of
        None \<Rightarrow> Ok (buffer, st)
      | Some e \<Rightarrow>
          if e > MAX_ANTHROPIC_EVENT_BYTES then Err EventTooLong
          else (case sse_event parse (take e buffer) st of
                  Ok st \<Rightarrow> drain_events parse (drop e buffer) st
                | Err f \<Rightarrow> Err f
                | Panic \<Rightarrow> Panic))"
  by pat_completeness auto
termination
  by (relation "measure (\<lambda>(_, b, _). length b)") (auto dest: sse_end_bounds)

declare drain_events.simps [simp del]

definition sat_add :: "nat \<Rightarrow> nat \<Rightarrow> nat" where
  "sat_add a b = min (a + b) u64_max"

text \<open>What arrives is a list of chunks, the last of which may be a failure of the transport.\<close>

fun read_chunks ::
  "(string \<Rightarrow> (json, string) outcome) \<Rightarrow> nat \<Rightarrow> string \<Rightarrow> anthropic_stream \<Rightarrow> (string + string) list \<Rightarrow>
     (string \<times> anthropic_stream, transport_fault + bad_response) outcome" where
  "read_chunks parse received buffer st [] = Ok (buffer, st)"
| "read_chunks parse received buffer st (Inr failure # _) = Err (Inl (Failed failure))"
| "read_chunks parse received buffer st (Inl chunk # chunks) =
     (let received = sat_add received (length chunk) in
      if received > MAX_ANTHROPIC_STREAM_BYTES then Err (Inr StreamTooLong)
      else bind_outcome (map_err Inr (drain_events parse (buffer @ chunk) st)) (\<lambda>(buffer, st).
        if length buffer > MAX_ANTHROPIC_EVENT_BYTES then Err (Inr EventTooLong)
        else read_chunks parse received buffer st chunks))"

definition ascii_white :: "char \<Rightarrow> bool" where
  "ascii_white c \<longleftrightarrow> code c \<in> {9, 10, 12, 13, 32}"

definition finish_stream ::
  "string option \<Rightarrow> thinking \<Rightarrow> string \<Rightarrow> anthropic_stream \<Rightarrow> (completion, bad_response) outcome" where
  "finish_stream header_request_id t buffer st =
     (if \<not> list_all ascii_white buffer then Err EndedInsideEvent
      else if \<not> as_saw_message_stop st then Err NoMessageStop
      else if as_open st \<noteq> [] then Err BlockLeftOpen
      else case as_stop_reason st of
        None \<Rightarrow> Err NoStopReason
      | Some reason \<Rightarrow> Ok \<lparr> cm_content = map snd (as_complete st), cm_stop_reason = reason,
          cm_stop_sequence = as_stop_sequence st, cm_model = as_model st,
          cm_request_id = (case header_request_id of Some i \<Rightarrow> Some i | None \<Rightarrow> as_request_id st),
          cm_usage = as_usage st, cm_thinking = t \<rparr>)"

text \<open>
  A response: a header is by its name, with no value where it is not a text; \<open>hs_text\<close> is the
  body read as one text.
\<close>

type_synonym headers = "string \<rightharpoonup> string option"

record http_response =
  hs_status :: nat
  hs_headers :: headers
  hs_host :: "string option"
  hs_chunks :: "(string + string) list"
  hs_text :: string

definition refused_by :: "provider_kind \<Rightarrow> transport_fault + bad_response \<Rightarrow> llm_error" where
  "refused_by kind f = (case f of Inl t \<Rightarrow> Transport (provider_name kind) t | Inr b \<Rightarrow> BadResponse (provider_name kind) b)"

definition response_request_id :: "headers \<Rightarrow> string option" where
  "response_request_id headers =
     (case (case headers ''request-id'' of Some v \<Rightarrow> Some v | None \<Rightarrow> headers ''x-request-id'') of
        Some (Some i) \<Rightarrow> Some i | _ \<Rightarrow> None)"

definition read_anthropic_sse ::
  "(string \<Rightarrow> (json, string) outcome) \<Rightarrow> http_response \<Rightarrow> thinking \<Rightarrow> (completion, llm_error) outcome" where
  "read_anthropic_sse parse response t =
     map_err (refused_by Anthropic)
       (bind_outcome (read_chunks parse 0 [] anthropic_stream_default (hs_chunks response)) (\<lambda>(buffer, st).
          map_err Inr (finish_stream (response_request_id (hs_headers response)) t buffer st)))"

section \<open>Sending\<close>

type_synonym http_post = "string \<Rightarrow> (string \<times> string) list \<Rightarrow> string \<Rightarrow> http_response + string"

definition parse_header :: "string \<Rightarrow> headers \<Rightarrow> nat option" where
  "parse_header name headers = (case headers name of Some (Some v) \<Rightarrow> parse_unsigned u64_max (trim v) | _ \<Rightarrow> None)"

definition provider_retry_after_ms :: "headers \<Rightarrow> nat" where
  "provider_retry_after_ms headers =
     (case parse_header ''retry-after'' headers of
        Some seconds \<Rightarrow> min (seconds * 1000) u64_max
      | None \<Rightarrow> (case parse_header ''retry-after-ms'' headers of Some ms \<Rightarrow> ms | None \<Rightarrow> 60000))"

definition retry_after_ms :: "headers \<Rightarrow> nat" where
  "retry_after_ms headers =
     (case parse_header ''retry-after'' headers of
        Some seconds \<Rightarrow> min (seconds * 1000) u64_max
      | None \<Rightarrow> (case parse_header ''retry-after-ms'' headers of Some millis \<Rightarrow> millis | None \<Rightarrow> 60000))"

definition trim_end_slashes :: "string \<Rightarrow> string" where
  "trim_end_slashes s = rev (dropWhile (\<lambda>c. c = CHR ''/'') (rev s))"

definition anthropic_messages_endpoint :: "string option \<Rightarrow> string" where
  "anthropic_messages_endpoint base =
     (let base = trim_end_slashes (case base of Some b \<Rightarrow> b | None \<Rightarrow> ''https://api.anthropic.com'') in
      if strip_suffix ''/v1/messages'' base \<noteq> None then base else base @ ''/v1/messages'')"

definition anthropic_body ::
  "(string \<Rightarrow> (json, string) outcome) \<Rightarrow> (string \<Rightarrow> string) \<Rightarrow> llm_request \<Rightarrow> string \<Rightarrow> (string, llm_error) outcome" where
  "anthropic_body parse esc r model =
     bind_outcome (client_new (provider_name Anthropic) [] model (budget_tokens (rq_thinking r))) (\<lambda>renderer.
       map_err (\<lambda>e. BadResponse (provider_name Anthropic) (BodyNotCanonical e)) (client_body parse esc renderer r))"

definition send_anthropic ::
  "(string \<Rightarrow> (json, string) outcome) \<Rightarrow> (string \<Rightarrow> string) \<Rightarrow> http_post \<Rightarrow> llm_request \<Rightarrow> string option \<Rightarrow>
     string \<Rightarrow> thinking \<Rightarrow> string \<Rightarrow> (completion, llm_error) outcome" where
  "send_anthropic parse esc post r endpoint model t credential =
     (let provider = provider_name Anthropic in
      bind_outcome (anthropic_body parse esc r model) (\<lambda>body.
        case post (anthropic_messages_endpoint endpoint)
            [(''content-type'', ''application/json''), (''accept'', ''text/event-stream''),
             (''x-api-key'', credential), (''anthropic-version'', ''2023-06-01'')] body of
          Inr e \<Rightarrow> Err (Transport provider (Failed e))
        | Inl response \<Rightarrow>
            let status = hs_status response in
            if status = 401 \<or> status = 403 then Err (UnauthorizedHttp provider status)
            else if status = 429 then Err (RateLimited provider (provider_retry_after_ms (hs_headers response)))
            else if \<not> (200 \<le> status \<and> status < 300) then Err (BadResponse provider (HttpRefused status (hs_text response)))
            else read_anthropic_sse parse response t))"


section \<open>Google's stream\<close>

record google_stream =
  gs_content :: "content_block list"
  gs_stop_reason :: "stop_reason option"
  gs_model :: string
  gs_request_id :: "string option"
  gs_usage :: "usage option"
  gs_saw_tool_use :: bool

definition google_stream_default :: google_stream where
  "google_stream_default = \<lparr> gs_content = [], gs_stop_reason = None, gs_model = [], gs_request_id = None,
     gs_usage = None, gs_saw_tool_use = False \<rparr>"

definition parse_stop_reason :: "string \<Rightarrow> stop_reason" where
  "parse_stop_reason reason =
     (if reason \<in> set [''end_turn'', ''stop'', ''STOP''] then EndTurn
      else if reason \<in> set [''tool_use'', ''tool_calls'', ''function_call''] then StopToolUse
      else if reason \<in> set [''max_tokens'', ''length'', ''MAX_TOKENS''] then MaxTokens
      else if reason = ''stop_sequence'' then StopSequence
      else if reason = ''pause_turn'' then PauseTurn
      else if reason = ''refusal'' then Refusal
      else if reason = ''model_context_window_exceeded'' then ModelContextWindowExceeded
      else if reason \<in> set [''content_filter'', ''safety'', ''SAFETY'', ''RECITATION'', ''BLOCKLIST'',
          ''PROHIBITED_CONTENT'', ''SPII'', ''IMAGE_SAFETY''] then ContentFilter
      else OtherReason reason)"

definition or_else :: "'a option \<Rightarrow> 'a option \<Rightarrow> 'a option" where
  "or_else x y = (case x of Some v \<Rightarrow> Some v | None \<Rightarrow> y)"

definition parse_usage :: "json \<Rightarrow> usage option" where
  "parse_usage j =
     Option.bind (or_else (json_get ''usage'' j) (json_get ''usageMetadata'' j)) (\<lambda>u.
     Option.bind (Option.bind (or_else (or_else (json_get ''input_tokens'' u) (json_get ''prompt_tokens'' u))
         (json_get ''promptTokenCount'' u)) as_u64) (\<lambda>input.
     Option.bind (Option.bind (or_else (or_else (json_get ''output_tokens'' u) (json_get ''completion_tokens'' u))
         (json_get ''candidatesTokenCount'' u)) as_u64) (\<lambda>output.
     Some \<lparr> input_tokens = input, output_tokens = output,
       cached_tokens = (case Option.bind (or_else (or_else (json_get ''cache_read_input_tokens'' u)
             (json_get ''cachedContentTokenCount'' u))
             (Option.bind (json_get ''prompt_tokens_details'' u) (json_get ''cached_tokens''))) as_u64 of
           Some n \<Rightarrow> n | None \<Rightarrow> 0) \<rparr>)))"

text \<open>\<open>get(0)\<close> and \<open>first\<close> of an array.\<close>

definition json_first :: "json \<Rightarrow> json option" where
  "json_first v = (case as_array v of Some (x # _) \<Rightarrow> Some x | _ \<Rightarrow> None)"

definition google_part :: "json \<Rightarrow> google_stream \<Rightarrow> (google_stream, stream_fault) outcome" where
  "google_part part st =
     (let st = (case Option.bind (json_get ''text'' part) as_str of
                  Some s \<Rightarrow> st\<lparr> gs_content := gs_content st @ [text_block s] \<rparr> | None \<Rightarrow> st)
      in case json_get ''functionCall'' part of
           None \<Rightarrow> Ok st
         | Some call \<Rightarrow>
             (case Option.bind (json_get ''name'' call) as_str of
                None \<Rightarrow> Err CallWithoutName
              | Some name \<Rightarrow> Ok (st\<lparr> gs_content := gs_content st @
                    [ToolUseBlock (get_string ''id'' call) name (get_or (JObject []) ''args'' call)],
                  gs_saw_tool_use := True \<rparr>)))"

fun google_parts_in :: "json list \<Rightarrow> google_stream \<Rightarrow> (google_stream, stream_fault) outcome" where
  "google_parts_in [] st = Ok st"
| "google_parts_in (p # ps) st = bind_outcome (google_part p st) (google_parts_in ps)"

definition google_candidate :: "json \<Rightarrow> google_stream \<Rightarrow> (google_stream, stream_fault) outcome" where
  "google_candidate candidate st =
     bind_outcome
       (case Option.bind (Option.bind (json_get ''content'' candidate) (json_get ''parts'')) as_array of
          Some parts \<Rightarrow> google_parts_in parts st | None \<Rightarrow> Ok st) (\<lambda>st.
     Ok (case Option.bind (json_get ''finishReason'' candidate) as_str of
           None \<Rightarrow> st
         | Some reason \<Rightarrow> st\<lparr> gs_stop_reason := Some
             (if gs_saw_tool_use st \<and> parse_stop_reason reason = EndTurn then StopToolUse
              else parse_stop_reason reason) \<rparr>))"

definition google_delta :: "json \<Rightarrow> google_stream \<Rightarrow> google_stream" where
  "google_delta j st =
     (let choice = Option.bind (json_get ''choices'' j) json_first;
          st = (case or_else
                  (Option.bind (Option.bind (json_get ''delta'' j) (json_get ''text'')) as_str)
                  (Option.bind (Option.bind (Option.bind choice (json_get ''delta'')) (json_get ''content'')) as_str) of
                Some s \<Rightarrow> st\<lparr> gs_content := gs_content st @ [text_block s] \<rparr> | None \<Rightarrow> st)
      in case or_else (Option.bind (json_get ''stop_reason'' j) as_str)
                (Option.bind (Option.bind choice (json_get ''finish_reason'')) as_str) of
           Some reason \<Rightarrow> st\<lparr> gs_stop_reason := Some (parse_stop_reason reason) \<rparr> | None \<Rightarrow> st)"

definition google_apply_event :: "json \<Rightarrow> google_stream \<Rightarrow> (google_stream, stream_fault) outcome" where
  "google_apply_event j st =
     bind_outcome
       (case Option.bind (json_get ''candidates'' j) json_first of
          Some candidate \<Rightarrow> google_candidate candidate st | None \<Rightarrow> Ok (google_delta j st)) (\<lambda>st.
     let st = (case Option.bind (or_else (json_get ''modelVersion'' j) (json_get ''model'' j)) as_str of
                 Some m \<Rightarrow> st\<lparr> gs_model := m \<rparr> | None \<Rightarrow> st);
         st = (case Option.bind (or_else (json_get ''responseId'' j) (json_get ''id'' j)) as_str of
                 Some i \<Rightarrow> st\<lparr> gs_request_id := Some i \<rparr> | None \<Rightarrow> st)
     in Ok (case parse_usage j of Some u \<Rightarrow> st\<lparr> gs_usage := Some u \<rparr> | None \<Rightarrow> st))"

definition into_completion :: "google_stream \<Rightarrow> stop_reason \<Rightarrow> thinking \<Rightarrow> completion" where
  "into_completion st reason t = \<lparr> cm_content = gs_content st, cm_stop_reason = reason, cm_stop_sequence = None,
     cm_model = gs_model st, cm_request_id = gs_request_id st, cm_usage = gs_usage st, cm_thinking = t \<rparr>"

text \<open>What one line, one event or all buffered events leave: the state, or the finished state.\<close>

datatype google_step = Going google_stream | Finished google_stream

definition error_message :: "string \<Rightarrow> json \<Rightarrow> string" where
  "error_message d j = (case Option.bind (Option.bind (json_get ''error'' j) (json_get ''message'')) as_str of
     Some s \<Rightarrow> s | None \<Rightarrow> d)"

definition google_line ::
  "(string \<Rightarrow> (json, string) outcome) \<Rightarrow> string \<Rightarrow> google_stream \<Rightarrow> (google_step, bad_response) outcome" where
  "google_line parse line st =
     (case strip_prefix ''data:'' line of
        None \<Rightarrow> Ok (Going st)
      | Some v \<Rightarrow>
          let payload = trim v in
          if payload = ''[DONE]'' then Ok (Finished st)
          else bind_outcome (map_err (\<lambda>_. EventNotJson payload) (parse payload)) (\<lambda>j.
            if Option.bind (json_get ''type'' j) as_str = Some ''error'' then
              Err (StreamFault (ProviderSays (error_message ''the provider sent an error event'' j)))
            else if json_get ''error'' j \<noteq> None \<and> json_get ''choices'' j = None then
              Err (StreamFault (ProviderSays (error_message ''the provider sent an error object'' j)))
            else map_err StreamFault (bind_outcome (google_apply_event j st) (\<lambda>st. Ok (Going st)))))"

fun google_lines ::
  "(string \<Rightarrow> (json, string) outcome) \<Rightarrow> string list \<Rightarrow> google_stream \<Rightarrow> (google_step, bad_response) outcome" where
  "google_lines parse [] st = Ok (Going st)"
| "google_lines parse (l # ls) st =
     (case google_line parse l st of
        Ok (Going st) \<Rightarrow> google_lines parse ls st
      | r \<Rightarrow> r)"

function google_drain ::
  "(string \<Rightarrow> (json, string) outcome) \<Rightarrow> string \<Rightarrow> google_stream \<Rightarrow> (string \<times> google_step, bad_response) outcome" where
  "google_drain parse buffer st =
     (case find_event_end buffer of
        None \<Rightarrow> Ok (buffer, Going st)
      | Some e \<Rightarrow>
          (case google_lines parse (text_lines (utf8_lossy (take e buffer))) st of
             Ok (Going st) \<Rightarrow> google_drain parse (drop e buffer) st
           | Ok (Finished st) \<Rightarrow> Ok (drop e buffer, Finished st)
           | Err f \<Rightarrow> Err f
           | Panic \<Rightarrow> Panic))"
  by pat_completeness auto
termination
  by (relation "measure (\<lambda>(_, b, _). length b)") (auto dest: event_end_bounds)

declare google_drain.simps [simp del]

fun google_chunks ::
  "(string \<Rightarrow> (json, string) outcome) \<Rightarrow> string \<Rightarrow> google_stream \<Rightarrow> (string + string) list \<Rightarrow>
     (google_step, transport_fault + bad_response) outcome" where
  "google_chunks parse buffer st [] = Ok (Going st)"
| "google_chunks parse buffer st (Inr failure # _) = Err (Inl (Failed failure))"
| "google_chunks parse buffer st (Inl chunk # chunks) =
     bind_outcome (map_err Inr (google_drain parse (buffer @ chunk) st)) (\<lambda>(buffer, step).
       case step of
         Finished st \<Rightarrow> Ok (Finished st)
       | Going st \<Rightarrow> google_chunks parse buffer st chunks)"

definition google_outcome :: "thinking \<Rightarrow> google_step \<Rightarrow> (completion, bad_response) outcome" where
  "google_outcome t step =
     (case step of
        Finished st \<Rightarrow> Ok (into_completion st
          (case gs_stop_reason st of Some r \<Rightarrow> r | None \<Rightarrow> if gs_saw_tool_use st then StopToolUse else EndTurn) t)
      | Going st \<Rightarrow>
          (case gs_stop_reason st of
             Some r \<Rightarrow> Ok (into_completion st r t)
           | None \<Rightarrow> Err (if gs_content st = [] then NoEvents else NoTerminal)))"

text \<open>The errors of this reader name the host that answered.\<close>

definition read_google_sse ::
  "(string \<Rightarrow> (json, string) outcome) \<Rightarrow> http_response \<Rightarrow> thinking \<Rightarrow> (completion, llm_error) outcome" where
  "read_google_sse parse response t =
     (let provider = (case hs_host response of Some h \<Rightarrow> h | None \<Rightarrow> ''unknown'') in
      map_err (\<lambda>f. case f of Inl e \<Rightarrow> Transport provider e | Inr b \<Rightarrow> BadResponse provider b)
        (bind_outcome (google_chunks parse [] google_stream_default (hs_chunks response)) (\<lambda>step.
           map_err Inr (google_outcome t step))))"

text \<open>\<open>header_ok\<close> tells which texts may be header values.\<close>

definition auth_headers :: "(string \<Rightarrow> bool) \<Rightarrow> provider_kind \<Rightarrow> string \<Rightarrow> (string \<times> string) list" where
  "auth_headers header_ok kind credential =
     (case kind of
        Anthropic \<Rightarrow> [(''x-api-key'', if header_ok credential then credential else ''invalid-credential''),
                      (''anthropic-version'', ''2023-06-01'')]
      | _ \<Rightarrow> if header_ok (''Bearer '' @ credential) then [(''authorization'', ''Bearer '' @ credential)] else [])"

definition send_legacy ::
  "(string \<Rightarrow> (json, string) outcome) \<Rightarrow> (string \<Rightarrow> string) \<Rightarrow> (string \<Rightarrow> bool) \<Rightarrow> http_post \<Rightarrow> client \<Rightarrow>
     llm_request \<Rightarrow> string \<Rightarrow> (completion, llm_error) outcome" where
  "send_legacy parse esc header_ok post c r credential =
     (let kind = cp_kind (cn_policy c); provider = provider_name kind in
      bind_outcome (map_err (\<lambda>e. BadResponse provider (BodyNotCanonical e)) (client_body parse esc c r)) (\<lambda>body.
        case post (cn_endpoint c)
            ([(''content-type'', ''application/json''), (''accept'', ''text/event-stream'')] @
             auth_headers header_ok kind credential) body of
          Inr e \<Rightarrow> Err (Transport provider (Failed e))
        | Inl response \<Rightarrow>
            let status = hs_status response in
            if status = 401 \<or> status = 403 then Err (UnauthorizedHttp provider status)
            else if status = 429 then Err (RateLimited provider (retry_after_ms (hs_headers response)))
            else if \<not> (200 \<le> status \<and> status < 300) then
              Err (if 500 \<le> status \<and> status < 600 then Transport provider (HttpFailed status (hs_text response))
                   else BadResponse provider (HttpRefused status (hs_text response)))
            else read_google_sse parse response (rq_thinking r)))"


section \<open>Chunks do not matter\<close>

lemma find_text_prefix: "find_text p s = Some n \<Longrightarrow> find_text p (s @ t) = Some n"
proof (induction p s arbitrary: n rule: find_text.induct)
  case (1 p)
  then show ?case by (cases t) (auto simp: strip_prefix_def split: if_splits)
next
  case (2 p c s)
  show ?case
  proof (cases "strip_prefix p (c # s) = None")
    case True
    then obtain m where m: "find_text p s = Some m" "n = Suc m" using 2(2) by auto
    moreover have "strip_prefix p (c # s @ t) = None"
    proof -
      have "length p \<le> length s" using find_text_bound [OF m(1)] by simp
      then have "take (length p) (c # s @ t) = take (length p) (c # s)" by (cases p) auto
      then show ?thesis using True by (simp add: strip_prefix_def split: if_splits)
    qed
    ultimately show ?thesis using 2(1) [OF _ m(1)] True by simp
  next
    case False
    then have p: "take (length p) (c # s) = p" "n = 0" using 2(2) by (auto simp: strip_prefix_def split: if_splits)
    then have "length p \<le> length (c # s)" by (metis length_take min.cobounded1)
    then have "take (length p) ((c # s) @ t) = p" using p(1) by (simp only: take_append) simp
    then show ?thesis using p(2) by (simp add: strip_prefix_def)
  qed
qed

lemma find_text_later: "find_text p s = None \<Longrightarrow> find_text p (s @ t) = Some n \<Longrightarrow> length s < n + length p"
proof (induction p s arbitrary: n rule: find_text.induct)
  case (1 p)
  then show ?case by (auto split: if_splits)
next
  case (2 p c s)
  have none: "take (length p) (c # s) \<noteq> p" "find_text p s = None"
    using 2(2) by (auto simp: strip_prefix_def split: if_splits)
  show ?case
  proof (cases "take (length p) (c # s @ t) = p")
    case True
    have "\<not> length p \<le> length (c # s)"
    proof
      assume "length p \<le> length (c # s)"
      then have "take (length p) ((c # s) @ t) = take (length p) (c # s)" by (simp only: take_append) simp
      then show False using True none(1) by simp
    qed
    then show ?thesis by simp
  next
    case False
    then obtain m where m: "find_text p (s @ t) = Some m" "n = Suc m"
      using 2(3) by (auto simp: strip_prefix_def)
    have "strip_prefix p (c # s) = None" using none(1) by (simp add: strip_prefix_def)
    then show ?thesis using 2(1) [OF _ none(2) m(1)] m(2) by simp
  qed
qed

lemma sse_end_prefix:
  assumes "find_sse_event_end b = Some e"
  shows "find_sse_event_end (b @ t) = Some e"
proof -
  have unix: "find_text [LF, LF] b = Some i \<Longrightarrow> find_text [LF, LF] (b @ t) = Some i \<and> i + 2 \<le> length b" for i
    using find_text_prefix [of "[LF, LF]" b i t] find_text_bound [of "[LF, LF]" b i] by simp
  have windows: "find_text [CR, LF, CR, LF] b = Some i \<Longrightarrow>
      find_text [CR, LF, CR, LF] (b @ t) = Some i \<and> i + 4 \<le> length b" for i
    using find_text_prefix [of "[CR, LF, CR, LF]" b i t] find_text_bound [of "[CR, LF, CR, LF]" b i] by simp
  have late: "find_text [LF, LF] b = None \<Longrightarrow> find_text [LF, LF] (b @ t) = Some i \<Longrightarrow> length b < i + 2"
    "find_text [CR, LF, CR, LF] b = None \<Longrightarrow> find_text [CR, LF, CR, LF] (b @ t) = Some i \<Longrightarrow> length b < i + 4" for i
    using find_text_later [of "[LF, LF]" b t i] find_text_later [of "[CR, LF, CR, LF]" b t i] by simp_all
  show ?thesis
  proof (cases "find_text [LF, LF] b")
    case None
    then obtain i where "find_text [CR, LF, CR, LF] b = Some i" "e = i + 4"
      using assms by (auto simp: find_sse_event_end_def split: option.splits)
    then show ?thesis using windows [of i] late(1) [OF None]
      by (cases "find_text [LF, LF] (b @ t)") (auto simp: find_sse_event_end_def)
  next
    case (Some i)
    show ?thesis
    proof (cases "find_text [CR, LF, CR, LF] b")
      case None
      then have "e = i + 2" using assms Some by (simp add: find_sse_event_end_def)
      then show ?thesis using unix [OF Some] late(2) [OF None]
        by (cases "find_text [CR, LF, CR, LF] (b @ t)") (auto simp: find_sse_event_end_def)
    next
      fix j assume j: "find_text [CR, LF, CR, LF] b = Some j"
      then show ?thesis using assms unix [OF Some] windows [OF j] Some by (simp add: find_sse_event_end_def)
    qed
  qed
qed

lemma sse_end_later:
  assumes "find_sse_event_end b = None" and "find_sse_event_end (b @ t) = Some e"
  shows "length b < e"
proof -
  have none: "find_text [LF, LF] b = None" "find_text [CR, LF, CR, LF] b = None"
    using assms(1) by (auto simp: find_sse_event_end_def split: option.splits)
  show ?thesis
    using assms(2) find_text_later [OF none(1), of t] find_text_later [OF none(2), of t]
    by (auto simp: find_sse_event_end_def min_def split: option.splits)
qed

text \<open>Draining a prefix first is draining in one go, as long as it succeeds.\<close>

lemma drain_step:
  "find_sse_event_end b = Some e \<Longrightarrow> drain_events parse b st = Ok r \<longleftrightarrow>
     e \<le> MAX_ANTHROPIC_EVENT_BYTES \<and> (\<exists>st'. sse_event parse (take e b) st = Ok st' \<and> drain_events parse (drop e b) st' = Ok r)"
  by (subst drain_events.simps) (auto split: outcome.splits)

lemma drain_none: "find_sse_event_end b = None \<Longrightarrow> drain_events parse b st = Ok (b, st)"
  by (subst drain_events.simps) simp

lemma drain_rest: "drain_events parse b st = Ok (rest, st') \<Longrightarrow> find_sse_event_end rest = None"
proof (induction b arbitrary: st rule: length_induct)
  case (1 b)
  show ?case
  proof (cases "find_sse_event_end b")
    case None
    then show ?thesis using 1(2) drain_none [OF None, of parse st] by simp
  next
    case (Some e)
    then obtain st1 where "drain_events parse (drop e b) st1 = Ok (rest, st')"
      using 1(2) drain_step [OF Some] by auto
    moreover have "length (drop e b) < length b" using sse_end_bounds [OF Some] by auto
    ultimately show ?thesis using 1(1) by blast
  qed
qed

lemma drain_append:
  "drain_events parse (b @ t) st = Ok r \<longleftrightarrow>
     (\<exists>rest st'. drain_events parse b st = Ok (rest, st') \<and> drain_events parse (rest @ t) st' = Ok r)"
proof (induction b arbitrary: st rule: length_induct)
  case (1 b)
  show ?case
  proof (cases "find_sse_event_end b")
    case None
    then show ?thesis using drain_none [OF None, of parse st] by simp
  next
    case (Some e)
    have e: "0 < e" "e \<le> length b" using sse_end_bounds [OF Some] by simp_all
    then have less: "length (drop e b) < length b" by simp
    have "drain_events parse (b @ t) st = Ok r \<longleftrightarrow>
        e \<le> MAX_ANTHROPIC_EVENT_BYTES \<and> (\<exists>st'. sse_event parse (take e b) st = Ok st' \<and>
          drain_events parse (drop e b @ t) st' = Ok r)"
      using e drain_step [OF sse_end_prefix [OF Some, of t], of parse st r] by simp
    also have "\<dots> \<longleftrightarrow> e \<le> MAX_ANTHROPIC_EVENT_BYTES \<and> (\<exists>st'. sse_event parse (take e b) st = Ok st' \<and>
        (\<exists>rest st''. drain_events parse (drop e b) st' = Ok (rest, st'') \<and> drain_events parse (rest @ t) st'' = Ok r))"
      using 1 less by blast
    also have "\<dots> \<longleftrightarrow> (\<exists>rest st''. drain_events parse b st = Ok (rest, st'') \<and> drain_events parse (rest @ t) st'' = Ok r)"
      using drain_step [OF Some, of parse st] by blast
    finally show ?thesis .
  qed
qed

lemma drain_short:
  assumes "find_sse_event_end b = None" and "drain_events parse (b @ t) st = Ok (rest, st')"
    and "length rest \<le> MAX_ANTHROPIC_EVENT_BYTES"
  shows "length b \<le> MAX_ANTHROPIC_EVENT_BYTES"
proof (cases "find_sse_event_end (b @ t)")
  case None
  then show ?thesis using assms(2,3) drain_none [OF None, of parse st] by auto
next
  case (Some e)
  then show ?thesis using sse_end_later [OF assms(1) Some] assms(2) drain_step [OF Some] by auto
qed


text \<open>A successful read of chunks is a successful drain of what they make up.\<close>

lemma bind_err_Ok: "bind_outcome (map_err f r) g = Ok y \<longleftrightarrow> (\<exists>x. r = Ok x \<and> g x = Ok y)"
  by (cases r) simp_all

lemma sat_add_le:
  "a \<le> MAX_ANTHROPIC_STREAM_BYTES \<Longrightarrow>
     sat_add a b \<le> MAX_ANTHROPIC_STREAM_BYTES \<longleftrightarrow> a + b \<le> MAX_ANTHROPIC_STREAM_BYTES"
  "sat_add a b \<le> MAX_ANTHROPIC_STREAM_BYTES \<Longrightarrow> sat_add a b = a + b"
  by (auto simp: sat_add_def MAX_ANTHROPIC_STREAM_BYTES_def u64_max_def)

lemma read_chunks_Ok:
  assumes "find_sse_event_end buffer = None" and "length buffer \<le> MAX_ANTHROPIC_EVENT_BYTES"
    and "received \<le> MAX_ANTHROPIC_STREAM_BYTES"
  shows "read_chunks parse received buffer st (map Inl cs) = Ok (rest, st') \<longleftrightarrow>
     received + length (concat cs) \<le> MAX_ANTHROPIC_STREAM_BYTES \<and>
     drain_events parse (buffer @ concat cs) st = Ok (rest, st') \<and> length rest \<le> MAX_ANTHROPIC_EVENT_BYTES"
  using assms
proof (induction cs arbitrary: received buffer st)
  case Nil
  then show ?case using drain_none [of buffer parse st] by auto
next
  case (Cons c cs)
  let ?received = "sat_add received (length c)"
  have split: "drain_events parse (buffer @ concat (c # cs)) st = Ok (rest, st') \<longleftrightarrow>
      (\<exists>b s. drain_events parse (buffer @ c) st = Ok (b, s) \<and> drain_events parse (b @ concat cs) s = Ok (rest, st'))"
    using drain_append [of parse "buffer @ c" "concat cs" st "(rest, st')"] by simp
  have step: "read_chunks parse received buffer st (map Inl (c # cs)) = Ok (rest, st') \<longleftrightarrow>
      ?received \<le> MAX_ANTHROPIC_STREAM_BYTES \<and>
      (\<exists>b s. drain_events parse (buffer @ c) st = Ok (b, s) \<and> length b \<le> MAX_ANTHROPIC_EVENT_BYTES \<and>
        read_chunks parse ?received b s (map Inl cs) = Ok (rest, st'))"
  proof (cases "drain_events parse (buffer @ c) st")
    case (Ok r)
    then show ?thesis by (cases r) (simp add: Let_def not_less)
  qed (simp_all add: Let_def)
  have IH: "read_chunks parse ?received b s (map Inl cs) = Ok (rest, st') \<longleftrightarrow>
      received + length c + length (concat cs) \<le> MAX_ANTHROPIC_STREAM_BYTES \<and>
      drain_events parse (b @ concat cs) s = Ok (rest, st') \<and> length rest \<le> MAX_ANTHROPIC_EVENT_BYTES"
    if "drain_events parse (buffer @ c) st = Ok (b, s)" "length b \<le> MAX_ANTHROPIC_EVENT_BYTES"
      "?received \<le> MAX_ANTHROPIC_STREAM_BYTES" for b s
    using Cons.IH [OF drain_rest [OF that(1)] that(2,3), of s] sat_add_le(2) [OF that(3)] by simp
  show ?case
  proof
    assume "read_chunks parse received buffer st (map Inl (c # cs)) = Ok (rest, st')"
    then obtain b s where b: "?received \<le> MAX_ANTHROPIC_STREAM_BYTES"
      "drain_events parse (buffer @ c) st = Ok (b, s)" "length b \<le> MAX_ANTHROPIC_EVENT_BYTES"
      "read_chunks parse ?received b s (map Inl cs) = Ok (rest, st')"
      using step by blast
    then show "received + length (concat (c # cs)) \<le> MAX_ANTHROPIC_STREAM_BYTES \<and>
        drain_events parse (buffer @ concat (c # cs)) st = Ok (rest, st') \<and> length rest \<le> MAX_ANTHROPIC_EVENT_BYTES"
      using IH [OF b(2,3,1)] split by auto
  next
    assume a: "received + length (concat (c # cs)) \<le> MAX_ANTHROPIC_STREAM_BYTES \<and>
        drain_events parse (buffer @ concat (c # cs)) st = Ok (rest, st') \<and> length rest \<le> MAX_ANTHROPIC_EVENT_BYTES"
    then obtain b s where b: "drain_events parse (buffer @ c) st = Ok (b, s)"
      "drain_events parse (b @ concat cs) s = Ok (rest, st')"
      using split by blast
    have r: "?received \<le> MAX_ANTHROPIC_STREAM_BYTES" using a sat_add_le(1) [OF Cons.prems(3)] by simp
    have short: "length b \<le> MAX_ANTHROPIC_EVENT_BYTES" using drain_short [OF drain_rest [OF b(1)] b(2)] a by blast
    show "read_chunks parse received buffer st (map Inl (c # cs)) = Ok (rest, st')"
      using step r b short IH [OF b(1) short r] a by auto
  qed
qed

lemma find_sse_event_end_Nil: "find_sse_event_end [] = None"
  by (simp add: find_sse_event_end_def)

text \<open>C23. Whether a stream is read, and what it says, does not depend on how the transport cuts it: the
  chunks give a completion exactly when their concatenation in one piece does, and the same one;
  boundaries may fall inside a character, a line ending or an event.\<close>

theorem chunking_is_invisible:
  "(read_anthropic_sse parse (response\<lparr> hs_chunks := map Inl cs \<rparr>) t = Ok c) =
   (read_anthropic_sse parse (response\<lparr> hs_chunks := [Inl (concat cs)] \<rparr>) t = Ok c)"
proof -
  have "read_chunks parse 0 [] anthropic_stream_default (map Inl cs) = Ok (b, st) \<longleftrightarrow>
      read_chunks parse 0 [] anthropic_stream_default (map Inl [concat cs]) = Ok (b, st)" for b st
    using read_chunks_Ok [OF find_sse_event_end_Nil, of 0 parse anthropic_stream_default cs b st]
      read_chunks_Ok [OF find_sse_event_end_Nil, of 0 parse anthropic_stream_default "[concat cs]" b st]
    by simp
  then have chunks: "read_chunks parse 0 [] anthropic_stream_default (map Inl cs) = Ok r \<longleftrightarrow>
      read_chunks parse 0 [] anthropic_stream_default [Inl (concat cs)] = Ok r" for r
    by (cases r) simp
  have parts: "hs_chunks (response\<lparr> hs_chunks := xs \<rparr>) = xs" "hs_headers (response\<lparr> hs_chunks := xs \<rparr>) = hs_headers response" for xs
    by simp_all
  show ?thesis
    by (simp only: read_anthropic_sse_def map_err_Ok_iff bind_outcome_Ok_iff parts chunks)
qed


section \<open>A streamed message is read without loss\<close>

text \<open>
  How a provider streams one block: its fragments, in order. The events are those of the
  Messages API; a tool call opens with an empty object and spells its input in fragments.
\<close>

datatype script =
    SayText "string list" "json list"
  | SayThinking "string list" "string list"
  | SayRedacted string
  | SayToolUse string string "string list"
  | SayUnknown json

definition start_event :: "nat \<Rightarrow> json \<Rightarrow> json" where
  "start_event i raw = json_object
     [(''type'', JString ''content_block_start''), (''index'', JNumber (PosInt i)), (''content_block'', raw)]"

definition delta_event :: "nat \<Rightarrow> string \<Rightarrow> string \<Rightarrow> json \<Rightarrow> json" where
  "delta_event i kind name v = json_object
     [(''type'', JString ''content_block_delta''), (''index'', JNumber (PosInt i)),
      (''delta'', json_object [(''type'', JString kind), (name, v)])]"

definition stop_event :: "nat \<Rightarrow> json" where
  "stop_event i = json_object [(''type'', JString ''content_block_stop''), (''index'', JNumber (PosInt i))]"

fun script_events :: "nat \<Rightarrow> script \<Rightarrow> json list" where
  "script_events i (SayText fs cs) =
     start_event i (json_object [(''type'', JString ''text''), (''text'', JString [])]) #
     map (\<lambda>f. delta_event i ''text_delta'' ''text'' (JString f)) fs @
     map (delta_event i ''citations_delta'' ''citation'') cs @ [stop_event i]"
| "script_events i (SayThinking fs gs) =
     start_event i (json_object [(''type'', JString ''thinking''), (''thinking'', JString []), (''signature'', JString [])]) #
     map (\<lambda>f. delta_event i ''thinking_delta'' ''thinking'' (JString f)) fs @
     map (\<lambda>g. delta_event i ''signature_delta'' ''signature'' (JString g)) gs @ [stop_event i]"
| "script_events i (SayRedacted payload) =
     [start_event i (json_object [(''type'', JString ''redacted_thinking''), (''data'', JString payload)]), stop_event i]"
| "script_events i (SayToolUse call name fs) =
     start_event i (json_object [(''type'', JString ''tool_use''), (''id'', JString call), (''name'', JString name),
       (''input'', JObject [])]) #
     map (\<lambda>f. delta_event i ''input_json_delta'' ''partial_json'' (JString f)) fs @ [stop_event i]"
| "script_events i (SayUnknown raw) = [start_event i raw, stop_event i]"

fun script_block :: "(string \<Rightarrow> (json, string) outcome) \<Rightarrow> script \<Rightarrow> content_block" where
  "script_block parse (SayText fs cs) = TextBlock (concat fs) cs"
| "script_block parse (SayThinking fs gs) = ThinkingBlock (concat fs) (concat gs)"
| "script_block parse (SayRedacted payload) = RedactedBlock payload"
| "script_block parse (SayToolUse call name fs) = ToolUseBlock call name
     (if concat fs = [] then JObject [] else case parse (concat fs) of Ok v \<Rightarrow> v | _ \<Rightarrow> JNull)"
| "script_block parse (SayUnknown raw) = UnknownBlock raw"

fun script_ok :: "(string \<Rightarrow> (json, string) outcome) \<Rightarrow> script \<Rightarrow> bool" where
  "script_ok parse (SayToolUse call name fs) \<longleftrightarrow> concat fs = [] \<or> is_Ok (parse (concat fs))"
| "script_ok parse (SayUnknown raw) \<longleftrightarrow>
     get_string ''type'' raw \<notin> set [''text'', ''thinking'', ''redacted_thinking'', ''tool_use'']"
| "script_ok parse _ \<longleftrightarrow> True"

fun stream_events ::
  "(string \<Rightarrow> (json, string) outcome) \<Rightarrow> json list \<Rightarrow> anthropic_stream \<Rightarrow> (anthropic_stream, stream_fault) outcome" where
  "stream_events parse [] st = Ok st"
| "stream_events parse (ev # evs) st = bind_outcome (stream_event parse ev st) (stream_events parse evs)"

lemma stream_events_append:
  "stream_events parse (xs @ ys) st = bind_outcome (stream_events parse xs st) (stream_events parse ys)"
proof (induction xs arbitrary: st)
  case (Cons x xs)
  then show ?case by (cases "stream_event parse x st") simp_all
qed simp

lemma event_index_event:
  "i \<le> u32_max \<Longrightarrow> event_index (start_event i raw) = Ok i"
  "i \<le> u32_max \<Longrightarrow> event_index (delta_event i kind name v) = Ok i"
  "i \<le> u32_max \<Longrightarrow> event_index (stop_event i) = Ok i"
  by (simp_all add: event_index_def start_event_def delta_event_def stop_event_def)

lemma start_step:
  assumes "i \<le> u32_max" and "as_open st = []" and "map_of (as_complete st) i = None"
    and "length (as_complete st) < MAX_ANTHROPIC_BLOCKS"
  shows "stream_event parse (start_event i raw) st = Ok (st\<lparr> as_open := [(i, block_start raw)] \<rparr>)"
proof -
  have "stream_event parse (start_event i raw) st = on_block_start (start_event i raw) st"
    by (simp add: stream_event_def get_string_def start_event_def)
  moreover have "json_get ''content_block'' (start_event i raw) = Some raw" by (simp add: start_event_def)
  ultimately show ?thesis
    using assms by (simp add: on_block_start_def event_index_event ensure_block_capacity_def)
qed

lemma delta_step:
  assumes "i \<le> u32_max" and "as_open st = [(i, b)]"
    and "apply_delta (json_object [(''type'', JString kind), (name, v)]) b = Ok b'"
  shows "stream_event parse (delta_event i kind name v) st = Ok (st\<lparr> as_open := [(i, b')] \<rparr>)"
proof -
  have "stream_event parse (delta_event i kind name v) st = on_block_delta (delta_event i kind name v) st"
    by (simp add: stream_event_def get_string_def delta_event_def)
  moreover have "json_get ''delta'' (delta_event i kind name v) = Some (json_object [(''type'', JString kind), (name, v)])"
    by (simp add: delta_event_def)
  ultimately show ?thesis using assms by (simp add: on_block_delta_def event_index_event)
qed

lemma stop_step:
  assumes "i \<le> u32_max" and "as_open st = [(i, b)]" and "block_finish parse b = Ok c"
    and "map_of (as_complete st) i = None" and "length (as_complete st) < MAX_ANTHROPIC_BLOCKS"
  shows "stream_event parse (stop_event i) st = Ok (st\<lparr> as_open := [], as_complete := bt_insert i c (as_complete st) \<rparr>)"
proof -
  have "stream_event parse (stop_event i) st = on_block_stop parse (stop_event i) st"
    by (simp add: stream_event_def get_string_def stop_event_def)
  then show ?thesis
    using assms by (simp add: on_block_stop_def event_index_event insert_complete_def ensure_block_capacity_def)
qed

text \<open>A run of deltas of one kind, each of which extends the block the same way.\<close>

lemma delta_run:
  assumes "i \<le> u32_max"
    and "\<And>x b. apply_delta (json_object [(''type'', JString kind), (name, v x)]) (blk b) = Ok (blk (ext b x))"
    and "as_open st = [(i, blk b)]"
  shows "stream_events parse (map (\<lambda>x. delta_event i kind name (v x)) xs) st =
     Ok (st\<lparr> as_open := [(i, blk (foldl ext b xs))] \<rparr>)"
  using assms(3)
proof (induction xs arbitrary: b st)
  case Nil
  then show ?case by simp
next
  case (Cons x xs)
  show ?case using delta_step [OF assms(1) Cons.prems assms(2), of parse x] Cons.IH [of "st\<lparr> as_open := [(i, blk (ext b x))] \<rparr>" "ext b x"]
    by simp
qed

lemma foldl_append_concat: "foldl (@) s fs = s @ concat fs"
  by (induction fs arbitrary: s) simp_all

lemma foldl_snoc: "foldl (\<lambda>cs c. cs @ [c]) s cs = s @ cs"
  by (induction cs arbitrary: s) simp_all

lemma script_step:
  assumes i: "i \<le> u32_max" and st: "as_open st = []" "map_of (as_complete st) i = None"
      "length (as_complete st) < MAX_ANTHROPIC_BLOCKS"
    and ok: "script_ok parse s"
  shows "stream_events parse (script_events i s) st =
     Ok (st\<lparr> as_open := [], as_complete := bt_insert i (script_block parse s) (as_complete st) \<rparr>)"
proof (cases s)
  case (SayText fs cs)
  have says: "apply_delta (json_object [(''type'', JString ''text_delta''), (''text'', JString f)]) (OpenText b []) =
      Ok (OpenText (b @ f) [])" for f b
    by (simp add: apply_delta_def get_string_def)
  have cite: "apply_delta (json_object [(''type'', JString ''citations_delta''), (''citation'', c)]) (OpenText (concat fs) b) =
      Ok (OpenText (concat fs) (b @ [c]))" for c b
    by (simp add: apply_delta_def get_string_def)
  have raw: "block_start (json_object [(''type'', JString ''text''), (''text'', JString [])]) = OpenText [] []"
    by (simp add: block_start_def get_string_def get_array_def)
  show ?thesis
    by (simp add: SayText stream_events_append start_step [OF i st] raw
        delta_run [where blk = "\<lambda>b. OpenText b []" and ext = "(@)" and v = JString and b = "[]", OF i says]
        delta_run [where blk = "OpenText (concat fs)" and ext = "\<lambda>b c. b @ [c]" and v = "\<lambda>c. c" and b = "[]", OF i cite]
        foldl_append_concat foldl_snoc stop_step [OF i] st)
next
  case (SayThinking fs gs)
  have think: "apply_delta (json_object [(''type'', JString ''thinking_delta''), (''thinking'', JString f)]) (OpenThinking b []) =
      Ok (OpenThinking (b @ f) [])" for f b
    by (simp add: apply_delta_def get_string_def)
  have sign: "apply_delta (json_object [(''type'', JString ''signature_delta''), (''signature'', JString g)])
      (OpenThinking (concat fs) b) = Ok (OpenThinking (concat fs) (b @ g))" for g b
    by (simp add: apply_delta_def get_string_def)
  have raw: "block_start (json_object [(''type'', JString ''thinking''), (''thinking'', JString []), (''signature'', JString [])]) =
      OpenThinking [] []"
    by (simp add: block_start_def get_string_def)
  show ?thesis
    by (simp add: SayThinking stream_events_append start_step [OF i st] raw
        delta_run [where blk = "\<lambda>b. OpenThinking b []" and ext = "(@)" and v = JString and b = "[]", OF i think]
        delta_run [where blk = "OpenThinking (concat fs)" and ext = "(@)" and v = JString and b = "[]", OF i sign]
        foldl_append_concat stop_step [OF i] st)
next
  case (SayRedacted payload)
  have raw: "block_start (json_object [(''type'', JString ''redacted_thinking''), (''data'', JString payload)]) = OpenRedacted payload"
    by (simp add: block_start_def get_string_def)
  show ?thesis by (simp add: SayRedacted start_step [OF i st] raw stop_step [OF i] st)
next
  case (SayToolUse call name fs)
  have spell: "apply_delta (json_object [(''type'', JString ''input_json_delta''), (''partial_json'', JString f)])
      (OpenToolUse call name (JObject []) b) = Ok (OpenToolUse call name (JObject []) (b @ f))" for f b
    by (simp add: apply_delta_def get_string_def)
  have raw: "block_start (json_object [(''type'', JString ''tool_use''), (''id'', JString call), (''name'', JString name),
      (''input'', JObject [])]) = OpenToolUse call name (JObject []) []"
    by (simp add: block_start_def get_string_def get_or_def)
  have finish: "block_finish parse (OpenToolUse call name (JObject []) (concat fs)) = Ok (script_block parse s)"
    using ok by (auto simp: SayToolUse is_Ok_iff simp del: concat_eq_Nil_conv)
  show ?thesis
    using finish by (simp add: SayToolUse stream_events_append start_step [OF i st] raw
        delta_run [where blk = "OpenToolUse call name (JObject [])" and ext = "(@)" and v = JString and b = "[]", OF i spell]
        foldl_append_concat stop_step [OF i] st del: concat_eq_Nil_conv block_finish.simps)
next
  case (SayUnknown raw)
  have raw: "block_start raw = OpenUnknown raw []" using ok by (simp add: SayUnknown block_start_def)
  show ?thesis by (simp add: SayUnknown start_step [OF i st] raw stop_step [OF i] st)
qed


lemma bt_insert_last: "\<forall>k \<in> set (map fst m). k < j \<Longrightarrow> bt_insert j v m = m @ [(j, v)]"
  by (induction j v m rule: bt_insert.induct) auto

lemma insert_enumerate: "bt_insert (length bs) b (enumerate 0 bs) = enumerate 0 (bs @ [b])"
proof -
  have "\<forall>k \<in> set (map fst (enumerate 0 bs)). k < length bs" by (auto simp: in_set_enumerate_eq)
  then show ?thesis by (simp add: bt_insert_last enumerate_append_eq)
qed

lemma map_of_enumerate_None: "map_of (enumerate 0 bs) (length bs) = None"
  by (auto simp: map_of_eq_None_iff in_set_enumerate_eq)

definition message_events :: "nat \<Rightarrow> script list \<Rightarrow> json list" where
  "message_events n ss = concat (map (\<lambda>(i, s). script_events i s) (enumerate n ss))"

lemma message_run:
  assumes "as_open st = []" and "as_complete st = enumerate 0 done_blocks"
    and "length done_blocks + length ss \<le> MAX_ANTHROPIC_BLOCKS" and "list_all (script_ok parse) ss"
  shows "stream_events parse (message_events (length done_blocks) ss) st =
     Ok (st\<lparr> as_open := [], as_complete := enumerate 0 (done_blocks @ map (script_block parse) ss) \<rparr>)"
  using assms
proof (induction ss arbitrary: st done_blocks)
  case Nil
  then show ?case by (simp add: message_events_def)
next
  case (Cons s ss)
  let ?n = "length done_blocks"
  let ?st = "st\<lparr> as_open := [], as_complete := enumerate 0 (done_blocks @ [script_block parse s]) \<rparr>"
  have "?n \<le> u32_max" using Cons.prems(3) by (simp add: MAX_ANTHROPIC_BLOCKS_def u32_max_def)
  then have "stream_events parse (script_events ?n s) st = Ok ?st"
    using script_step [of ?n st parse s] Cons.prems
    by (simp add: map_of_enumerate_None insert_enumerate)
  moreover have "stream_events parse (message_events (length (done_blocks @ [script_block parse s])) ss) ?st =
      Ok (?st\<lparr> as_open := [], as_complete := enumerate 0 ((done_blocks @ [script_block parse s]) @ map (script_block parse) ss) \<rparr>)"
    by (rule Cons.IH) (use Cons.prems in simp_all)
  ultimately show ?case by (simp add: message_events_def stream_events_append)
qed

definition message_start_event :: "string \<Rightarrow> string \<Rightarrow> json" where
  "message_start_event model i = json_object [(''type'', JString ''message_start''),
     (''message'', json_object [(''model'', JString model), (''id'', JString i), (''content'', JArray [])])]"

definition message_delta_event :: "string \<Rightarrow> json" where
  "message_delta_event reason = json_object [(''type'', JString ''message_delta''),
     (''delta'', json_object [(''stop_reason'', JString reason)])]"

definition message_stop_event :: json where
  "message_stop_event = json_object [(''type'', JString ''message_stop'')]"

lemma message_start_step:
  "stream_event parse (message_start_event model i) st = Ok (st\<lparr> as_model := model, as_request_id := Some i \<rparr>)"
  by (simp add: stream_event_def get_string_def message_start_event_def on_message_start_def merge_usage_def Let_def)

lemma message_delta_step:
  "stream_event parse (message_delta_event reason) st =
     Ok (st\<lparr> as_stop_reason := Some (anthropic_stop_reason reason), as_stop_sequence := None \<rparr>)"
  by (simp add: stream_event_def get_string_def message_delta_event_def on_message_delta_def merge_usage_def Let_def)

lemma message_stop_step: "stream_event parse message_stop_event st = Ok (st\<lparr> as_saw_message_stop := True \<rparr>)"
  by (simp add: stream_event_def get_string_def message_stop_event_def)

text \<open>C24. A message streamed in fragments is read without loss: whatever its blocks (texts with
  citations, signed and redacted reasoning, tool calls, blocks of types this version does not know)
  and however their texts, signatures and inputs are cut, the completion has exactly these blocks in
  their order, up to the 4096 blocks the reader allows, with the reason, model and id it was sent with.\<close>

theorem stream_is_lossless:
  assumes "list_all (script_ok parse) ss" and "length ss \<le> MAX_ANTHROPIC_BLOCKS"
  shows "bind_outcome
       (map_err StreamFault (stream_events parse
         (message_start_event model i # message_events 0 ss @ [message_delta_event reason, message_stop_event])
         anthropic_stream_default))
       (finish_stream None t []) =
     Ok \<lparr> cm_content = map (script_block parse) ss, cm_stop_reason = anthropic_stop_reason reason,
       cm_stop_sequence = None, cm_model = model, cm_request_id = Some i, cm_usage = None, cm_thinking = t \<rparr>"
proof -
  let ?st = "anthropic_stream_default\<lparr> as_model := model, as_request_id := Some i \<rparr>"
  have "stream_events parse (message_events (length ([] :: content_block list)) ss) ?st =
      Ok (?st\<lparr> as_open := [], as_complete := enumerate 0 ([] @ map (script_block parse) ss) \<rparr>)"
    by (rule message_run) (use assms in \<open>simp_all add: anthropic_stream_default_def\<close>)
  then show ?thesis
    by (simp add: message_start_step stream_events_append message_delta_step message_stop_step finish_stream_def
        anthropic_stream_default_def)
qed

lemma stream_is_lossless_witness:
  "let parse = (\<lambda>s. if s = ''{}'' then Ok (JObject []) else Err []);
       ss = [SayThinking [''a'', ''b''] [''sig''], SayText [''x'', [], ''y''] [JNull], SayUnknown (json_object []),
         SayToolUse ''t1'' ''grep'' [''{'', ''}'']] in
   \<exists>c. bind_outcome
     (map_err StreamFault (stream_events parse
       (message_start_event ''m'' ''r'' # message_events 0 ss @ [message_delta_event ''tool_use'', message_stop_event])
       anthropic_stream_default))
     (finish_stream None \<lparr> budget_tokens = 0 \<rparr> []) = Ok c \<and>
     cm_content c = [ThinkingBlock ''ab'' ''sig'', TextBlock ''xy'' [JNull], UnknownBlock (json_object []),
       ToolUseBlock ''t1'' ''grep'' (JObject [])]"
  unfolding Let_def
  by (subst stream_is_lossless) (simp_all add: MAX_ANTHROPIC_BLOCKS_def get_string_def)

section \<open>What goes wrong\<close>

text \<open>An unknown block that is not an object, given a fragment of input, aborts the reader.\<close>

lemma scalar_block_aborts:
  assumes "i \<le> u32_max" and "parse ''{}'' = Ok v"
  shows "stream_events parse
     [start_event i (JString ''x''), delta_event i ''input_json_delta'' ''partial_json'' (JString ''{}''), stop_event i]
     anthropic_stream_default = Panic"
proof -
  let ?st = "anthropic_stream_default"
  have raw: "block_start (JString ''x'') = OpenUnknown (JString ''x'') []" by (simp add: block_start_def get_string_def)
  have s: "stream_event parse (start_event i (JString ''x'')) ?st = Ok (?st\<lparr> as_open := [(i, OpenUnknown (JString ''x'') [])] \<rparr>)"
    using start_step [of i ?st parse "JString ''x''"] assms(1) raw
    by (simp add: anthropic_stream_default_def MAX_ANTHROPIC_BLOCKS_def)
  let ?st1 = "?st\<lparr> as_open := [(i, OpenUnknown (JString ''x'') [])] \<rparr>"
  let ?st2 = "?st\<lparr> as_open := [(i, OpenUnknown (JString ''x'') ''{}'')] \<rparr>"
  have d: "stream_event parse (delta_event i ''input_json_delta'' ''partial_json'' (JString ''{}'')) ?st1 = Ok ?st2"
    using delta_step [OF assms(1), of ?st1 _ "''input_json_delta''" "''partial_json''" "JString ''{}''"]
    by (simp add: apply_delta_def get_string_def)
  have "stream_event parse (stop_event i) ?st2 = Panic"
    using assms by (simp add: stream_event_def get_string_def stop_event_def on_block_stop_def event_index_event [unfolded stop_event_def])
  then show ?thesis by (simp add: s d)
qed

text \<open>The wait after a refusal can be zero.\<close>

lemma zero_wait: "retry_after_ms [''retry-after'' \<mapsto> Some ''0''] = 0"
proof -
  have "trim ''0'' = ''0''" "read_nat ''0'' = 0" "list_all is_digit ''0''" "strip_prefix ''+'' ''0'' = None" by code_simp+
  then show ?thesis by (simp add: retry_after_ms_def parse_header_def parse_unsigned_def)
qed

text \<open>What follows the last blank line of a stream of Google's is dropped, whatever it says.\<close>

lemma google_drops_tail:
  assumes "find_event_end tail = None"
  shows "google_chunks parse [] st [Inl tail] = Ok (Going st)"
  using assms by (simp add: google_drain.simps [of parse tail])

end
