(* ===== verification/Llm_Replay.thy ===== *)
theory Llm_Replay
  imports Llm_Stream
begin

text \<open>
  \<open>crates/supra_llm/src/providers.rs\<close>, the OpenAI path, and the dispatch of \<open>client.rs\<close>. The types of
  the SDK are the members the code reads and writes; what the SDK answers to a blocking and to a
  streaming call are parameters.
\<close>

section \<open>Messages for the SDK\<close>

datatype oa_message =
    OA_User string
  | OA_Assistant "string option" "(string \<times> string \<times> string) list option"
  | OA_Tool string string

record oa_function =
  fn_name :: string
  fn_description :: "string option"
  fn_parameters :: "json option"

record oa_request =
  or_messages :: "oa_message list"
  or_model :: string
  or_prompt_cache_key :: "string option"
  or_reasoning_effort :: "string option"
  or_tools :: "oa_function list option"
  or_include_usage :: bool

definition openai_refuses :: "bad_response \<Rightarrow> llm_error" where
  "openai_refuses b = BadResponse (provider_name OpenAI) b"

fun block_name :: "content_block \<Rightarrow> string" where
  "block_name (TextBlock _ _) = ''text with citations''"
| "block_name (ThinkingBlock _ _) = ''thinking''"
| "block_name (RedactedBlock _) = ''redacted thinking''"
| "block_name (ToolUseBlock _ _ _) = ''tool use''"
| "block_name (ToolResultBlock _ _ _) = ''tool result''"
| "block_name (UnknownBlock _) = ''unknown''"

definition non_replayable_openai_block :: "string \<Rightarrow> content_block \<Rightarrow> llm_error" where
  "non_replayable_openai_block r b = openai_refuses (NotReplayable (block_name b) r)"

definition empty_openai_message :: "string \<Rightarrow> llm_error" where
  "empty_openai_message r = openai_refuses (EmptyMessage r)"

definition canonical_tool_value :: "(string \<Rightarrow> string) \<Rightarrow> json \<Rightarrow> (string, llm_error) outcome" where
  "canonical_tool_value esc v = map_err (\<lambda>e. openai_refuses (ToolNotCanonical e)) (canonicalize_value esc v)"

definition tool_result_text :: "(string \<Rightarrow> string) \<Rightarrow> json \<Rightarrow> (string, llm_error) outcome" where
  "tool_result_text esc content =
     (case content of JString s \<Rightarrow> Ok s | v \<Rightarrow> canonical_tool_value esc v)"

fun assistant_blocks ::
  "(string \<Rightarrow> string) \<Rightarrow> content_block list \<Rightarrow> string \<Rightarrow> (string \<times> string \<times> string) list \<Rightarrow>
     (string \<times> (string \<times> string \<times> string) list, llm_error) outcome" where
  "assistant_blocks esc [] s calls = Ok (s, calls)"
| "assistant_blocks esc (TextBlock part [] # bs) s calls = assistant_blocks esc bs (s @ part) calls"
| "assistant_blocks esc (ToolUseBlock i name input # bs) s calls =
     bind_outcome (canonical_tool_value esc input) (\<lambda>arguments.
       assistant_blocks esc bs s (calls @ [(i, name, arguments)]))"
| "assistant_blocks esc (b # bs) s calls = Err (non_replayable_openai_block ''assistant'' b)"

definition openai_assistant_message :: "(string \<Rightarrow> string) \<Rightarrow> llm_message \<Rightarrow> (oa_message, llm_error) outcome" where
  "openai_assistant_message esc m =
     bind_outcome (assistant_blocks esc (ms_content m) [] []) (\<lambda>(s, calls).
       if s = [] \<and> calls = [] then Err (empty_openai_message ''assistant'')
       else Ok (OA_Assistant (if s \<noteq> [] then Some s else None) (if calls \<noteq> [] then Some calls else None)))"

fun user_blocks ::
  "(string \<Rightarrow> string) \<Rightarrow> content_block list \<Rightarrow> string \<Rightarrow> oa_message list \<Rightarrow> (string \<times> oa_message list, llm_error) outcome" where
  "user_blocks esc [] s ms = Ok (s, ms)"
| "user_blocks esc (TextBlock part [] # bs) s ms = user_blocks esc bs (s @ part) ms"
| "user_blocks esc (ToolResultBlock i content _ # bs) s ms =
     (let ms = (if s \<noteq> [] then ms @ [OA_User s] else ms) in
      bind_outcome (tool_result_text esc content) (\<lambda>answer. user_blocks esc bs [] (ms @ [OA_Tool answer i])))"
| "user_blocks esc (b # bs) s ms = Err (non_replayable_openai_block ''user'' b)"

definition openai_user_messages :: "(string \<Rightarrow> string) \<Rightarrow> llm_message \<Rightarrow> (oa_message list, llm_error) outcome" where
  "openai_user_messages esc m =
     bind_outcome (user_blocks esc (ms_content m) [] []) (\<lambda>(s, ms).
       let ms = (if s \<noteq> [] then ms @ [OA_User s] else ms) in
       if ms = [] then Err (empty_openai_message ''user'') else Ok ms)"

definition openai_message :: "(string \<Rightarrow> string) \<Rightarrow> llm_message \<Rightarrow> (oa_message list, llm_error) outcome" where
  "openai_message esc m =
     (case ms_role m of
        By_Assistant \<Rightarrow> bind_outcome (openai_assistant_message esc m) (\<lambda>a. Ok [a])
      | By_User \<Rightarrow> openai_user_messages esc m)"

definition reasoning_effort :: "llm_request \<Rightarrow> string option" where
  "reasoning_effort r = (if thinking_enabled (rq_thinking r) then Some ''medium'' else None)"

definition openai_function :: "json \<Rightarrow> oa_function" where
  "openai_function parsed = \<lparr>
     fn_name = (case Option.bind (json_get ''name'' parsed) as_str of Some n \<Rightarrow> n | None \<Rightarrow> ''tool''),
     fn_description = Option.bind (json_get ''description'' parsed) as_str,
     fn_parameters = or_else (json_get ''input_schema'' parsed) (json_get ''parameters'' parsed) \<rparr>"

definition openai_tools ::
  "(string \<Rightarrow> (json, string) outcome) \<Rightarrow> llm_request \<Rightarrow> (oa_function list option, llm_error) outcome" where
  "openai_tools parse r =
     (if rq_tools r = [] then Ok None
      else bind_outcome (collect_outcome (\<lambda>t. map_err (\<lambda>e. openai_refuses (ToolNotJson e)) (parse t)) (rq_tools r))
        (\<lambda>vs. Ok (Some (map openai_function vs))))"

definition openai_request ::
  "(string \<Rightarrow> (json, string) outcome) \<Rightarrow> (string \<Rightarrow> string) \<Rightarrow> llm_request \<Rightarrow> string \<Rightarrow> string option \<Rightarrow>
     (oa_request, llm_error) outcome" where
  "openai_request parse esc r model key =
     bind_outcome (collect_outcome (openai_message esc) (rq_messages r)) (\<lambda>mss.
     bind_outcome (openai_tools parse r) (\<lambda>tools.
       Ok \<lparr> or_messages = concat mss, or_model = model, or_prompt_cache_key = key,
         or_reasoning_effort = reasoning_effort r, or_tools = tools, or_include_usage = True \<rparr>))"

text \<open>The base the SDK is given, when there is one.\<close>

definition openai_base :: "string \<Rightarrow> string" where
  "openai_base base =
     (let trimmed = trim_end_slashes base in
      case strip_suffix ''/v1'' trimmed of Some _ \<Rightarrow> trimmed | None \<Rightarrow> trimmed @ ''/v1'')"

section \<open>Answers of the SDK\<close>

datatype finish_reason = F_Stop | F_Length | F_ToolCalls | F_FunctionCall | F_ContentFilter

fun openai_stop_reason :: "finish_reason \<Rightarrow> stop_reason" where
  "openai_stop_reason F_Stop = EndTurn"
| "openai_stop_reason F_Length = MaxTokens"
| "openai_stop_reason F_ToolCalls = StopToolUse"
| "openai_stop_reason F_FunctionCall = StopToolUse"
| "openai_stop_reason F_ContentFilter = ContentFilter"

datatype oa_call = FunctionCall string string string | CustomCall string string string

record oa_choice =
  oc_content :: "string option"
  oc_tool_calls :: "oa_call list option"
  oc_finish :: "finish_reason option"

record oa_usage =
  ou_prompt :: nat
  ou_completion :: nat
  ou_cached :: "nat option"

record oa_response =
  op_id :: string
  op_model :: string
  op_choices :: "oa_choice list"
  op_usage :: "oa_usage option"

definition openai_usage :: "oa_usage \<Rightarrow> usage" where
  "openai_usage u = \<lparr> input_tokens = ou_prompt u, output_tokens = ou_completion u,
     cached_tokens = (case ou_cached u of Some n \<Rightarrow> n | None \<Rightarrow> 0) \<rparr>"

text \<open>Arguments that do not parse stay a text.\<close>

definition parse_or_text :: "(string \<Rightarrow> (json, string) outcome) \<Rightarrow> string \<Rightarrow> json" where
  "parse_or_text parse s = (case parse s of Ok v \<Rightarrow> v | _ \<Rightarrow> JString s)"

fun openai_tool_call :: "(string \<Rightarrow> (json, string) outcome) \<Rightarrow> oa_call \<Rightarrow> content_block" where
  "openai_tool_call parse (FunctionCall i name arguments) = ToolUseBlock i name (parse_or_text parse arguments)"
| "openai_tool_call parse (CustomCall i name input) = ToolUseBlock i name (JString input)"

definition take_choice ::
  "(string \<Rightarrow> (json, string) outcome) \<Rightarrow> oa_choice \<Rightarrow> content_block list \<times> stop_reason \<Rightarrow> content_block list \<times> stop_reason" where
  "take_choice parse c = (\<lambda>(content, reason).
     (content @ (case oc_content c of Some part \<Rightarrow> [text_block part] | None \<Rightarrow> [])
              @ (case oc_tool_calls c of Some calls \<Rightarrow> map (openai_tool_call parse) calls | None \<Rightarrow> []),
      case oc_finish c of Some f \<Rightarrow> openai_stop_reason f | None \<Rightarrow> reason))"

definition blocking_completion ::
  "(string \<Rightarrow> (json, string) outcome) \<Rightarrow> oa_response \<Rightarrow> thinking \<Rightarrow> (completion, llm_error) outcome" where
  "blocking_completion parse response t =
     (if op_choices response = [] then Err (openai_refuses NoChoices)
      else let (content, reason) = fold (take_choice parse) (op_choices response) ([], EndTurn) in
        Ok \<lparr> cm_content = content, cm_stop_reason = reason, cm_stop_sequence = None, cm_model = op_model response,
          cm_request_id = Some (op_id response), cm_usage = map_option openai_usage (op_usage response), cm_thinking = t \<rparr>)"

datatype oa_error =
    ApiError nat string | Reqwest string | StreamError string | JSONDeserialize string string
  | InvalidArgument string | OtherSdk string

fun blocks_streaming :: "oa_error \<Rightarrow> bool" where
  "blocks_streaming (ApiError _ _) = False"
| "blocks_streaming (InvalidArgument _) = False"
| "blocks_streaming _ = True"

fun map_openai :: "oa_error \<Rightarrow> llm_error" where
  "map_openai (ApiError status detail) =
     (let provider = provider_name OpenAI in
      if status = 401 \<or> status = 403 then Unauthorized provider detail
      else if status = 429 then RateLimited provider 60000
      else if 400 \<le> status \<and> status < 500 then BadResponse provider (HttpRefused status detail)
      else Transport provider (HttpFailed status detail))"
| "map_openai (Reqwest e) = Transport (provider_name OpenAI) (Failed e)"
| "map_openai (StreamError e) = BadResponse (provider_name OpenAI) (SdkStream e)"
| "map_openai (JSONDeserialize e content) = BadResponse (provider_name OpenAI) (SdkDecode e content)"
| "map_openai (InvalidArgument detail) = BadResponse (provider_name OpenAI) (SdkSays detail)"
| "map_openai (OtherSdk e) = Transport (provider_name OpenAI) (Failed e)"

section \<open>The streaming answer\<close>

record oa_tool_delta =
  od_index :: nat
  od_id :: "string option"
  od_function :: "(string option \<times> string option) option"

record oa_delta =
  oe_content :: "string option"
  oe_tool_calls :: "oa_tool_delta list option"
  oe_finish :: "finish_reason option"

record oa_chunk =
  ok_id :: string
  ok_model :: string
  ok_choices :: "oa_delta list"
  ok_usage :: "oa_usage option"

record oa_tool_call =
  ot_id :: string
  ot_name :: string
  ot_arguments :: string

definition oa_tool_call_default :: oa_tool_call where
  "oa_tool_call_default = \<lparr> ot_id = [], ot_name = [], ot_arguments = [] \<rparr>"

record oa_stream =
  os_content :: "content_block list"
  os_calls :: "(nat, oa_tool_call) btree"
  os_usage :: "usage option"
  os_stop_reason :: "stop_reason option"
  os_model :: string
  os_request_id :: "string option"

definition oa_stream_default :: oa_stream where
  "oa_stream_default = \<lparr> os_content = [], os_calls = [], os_usage = None, os_stop_reason = None, os_model = [],
     os_request_id = None \<rparr>"

definition extend_call :: "oa_tool_delta \<Rightarrow> oa_tool_call \<Rightarrow> oa_tool_call" where
  "extend_call d call =
     (let call = (case od_id d of Some i \<Rightarrow> call\<lparr> ot_id := i \<rparr> | None \<Rightarrow> call) in
      case od_function d of
        None \<Rightarrow> call
      | Some (name, arguments) \<Rightarrow> call\<lparr>
          ot_name := ot_name call @ (case name of Some n \<Rightarrow> n | None \<Rightarrow> []),
          ot_arguments := ot_arguments call @ (case arguments of Some a \<Rightarrow> a | None \<Rightarrow> []) \<rparr>)"

definition take_tool_delta :: "oa_tool_delta \<Rightarrow> (nat, oa_tool_call) btree \<Rightarrow> (nat, oa_tool_call) btree" where
  "take_tool_delta d calls = bt_insert (od_index d)
     (extend_call d (case map_of calls (od_index d) of Some c \<Rightarrow> c | None \<Rightarrow> oa_tool_call_default)) calls"

definition take_delta :: "oa_delta \<Rightarrow> oa_stream \<Rightarrow> oa_stream" where
  "take_delta d st =
     (let st = (case oe_content d of Some part \<Rightarrow> st\<lparr> os_content := os_content st @ [text_block part] \<rparr> | None \<Rightarrow> st);
          st = (case oe_tool_calls d of Some ds \<Rightarrow> st\<lparr> os_calls := fold take_tool_delta ds (os_calls st) \<rparr> | None \<Rightarrow> st)
      in case oe_finish d of Some f \<Rightarrow> st\<lparr> os_stop_reason := Some (openai_stop_reason f) \<rparr> | None \<Rightarrow> st)"

definition take_chunk :: "oa_chunk \<Rightarrow> oa_stream \<Rightarrow> oa_stream" where
  "take_chunk k st =
     (let st = fold take_delta (ok_choices k) (st\<lparr> os_model := ok_model k, os_request_id := Some (ok_id k) \<rparr>)
      in case ok_usage k of Some u \<Rightarrow> st\<lparr> os_usage := Some (openai_usage u) \<rparr> | None \<Rightarrow> st)"

fun take_chunks :: "(oa_chunk + oa_error) list \<Rightarrow> oa_stream \<Rightarrow> (oa_stream, llm_error) outcome" where
  "take_chunks [] st = Ok st"
| "take_chunks (Inr e # _) st = Err (map_openai e)"
| "take_chunks (Inl k # ks) st = take_chunks ks (take_chunk k st)"

definition call_block :: "(string \<Rightarrow> (json, string) outcome) \<Rightarrow> oa_tool_call \<Rightarrow> content_block" where
  "call_block parse call = ToolUseBlock (ot_id call) (ot_name call) (parse_or_text parse (ot_arguments call))"

definition stream_openai ::
  "(string \<Rightarrow> (json, string) outcome) \<Rightarrow> (oa_chunk + oa_error) list + oa_error \<Rightarrow> thinking \<Rightarrow>
     (completion, llm_error) outcome" where
  "stream_openai parse answer t =
     (case answer of
        Inr e \<Rightarrow> Err (map_openai e)
      | Inl chunks \<Rightarrow>
          bind_outcome (take_chunks chunks oa_stream_default) (\<lambda>st.
            case os_stop_reason st of
              None \<Rightarrow> Err (openai_refuses (if os_content st = [] then NoEvents else NoTerminal))
            | Some reason \<Rightarrow> Ok \<lparr> cm_content = os_content st @ map (\<lambda>kv. call_block parse (snd kv)) (os_calls st),
                cm_stop_reason = reason, cm_stop_sequence = None, cm_model = os_model st,
                cm_request_id = os_request_id st, cm_usage = os_usage st, cm_thinking = t \<rparr>))"

section \<open>Sending\<close>

text \<open>What the SDK does with a base, a credential and a request.\<close>

record oa_sdk =
  sdk_create :: "string option \<Rightarrow> string \<Rightarrow> oa_request \<Rightarrow> oa_response + oa_error"
  sdk_stream :: "string option \<Rightarrow> string \<Rightarrow> oa_request \<Rightarrow> (oa_chunk + oa_error) list + oa_error"

definition send_openai ::
  "(string \<Rightarrow> (json, string) outcome) \<Rightarrow> (string \<Rightarrow> string) \<Rightarrow> oa_sdk \<Rightarrow> llm_request \<Rightarrow> string option \<Rightarrow> string \<Rightarrow>
     thinking \<Rightarrow> string option \<Rightarrow> string \<Rightarrow> (completion, llm_error) outcome" where
  "send_openai parse esc sdk r endpoint model t key credential =
     (let base = map_option openai_base endpoint in
      bind_outcome (openai_request parse esc r model key) (\<lambda>rq.
        case sdk_create sdk base credential rq of
          Inl response \<Rightarrow> blocking_completion parse response t
        | Inr e \<Rightarrow> if blocks_streaming e then stream_openai parse (sdk_stream sdk base credential rq) t
                   else Err (map_openai e)))"

definition client_send ::
  "(string \<Rightarrow> (json, string) outcome) \<Rightarrow> (string \<Rightarrow> string) \<Rightarrow> (string \<Rightarrow> bool) \<Rightarrow> http_post \<Rightarrow> oa_sdk \<Rightarrow> client \<Rightarrow>
     llm_request \<Rightarrow> string \<Rightarrow> (completion, llm_error) outcome" where
  "client_send parse esc header_ok post sdk c r credential =
     bind_outcome (check_provider c r) (\<lambda>_.
     bind_outcome (request_check r) (\<lambda>_.
       case cp_kind (cn_policy c) of
         Anthropic \<Rightarrow> send_anthropic parse esc post r (sdk_endpoint (cn_endpoint c)) (cn_model c) (rq_thinking r) credential
       | OpenAI \<Rightarrow> send_openai parse esc sdk r (sdk_endpoint (cn_endpoint c)) (cn_model c) (rq_thinking r)
                   (Some ''supra-prefix'') credential
       | Google \<Rightarrow> send_legacy parse esc header_ok post c r credential))"

definition send_with_config ::
  "(string \<Rightarrow> string option) \<Rightarrow> (string \<Rightarrow> string \<Rightarrow> string + string) \<Rightarrow>
     (string \<Rightarrow> (json, string) outcome) \<Rightarrow> (string \<Rightarrow> string) \<Rightarrow> (string \<Rightarrow> bool) \<Rightarrow> http_post \<Rightarrow> oa_sdk \<Rightarrow>
     client \<Rightarrow> config \<Rightarrow> llm_request \<Rightarrow> (completion, llm_error) outcome" where
  "send_with_config var keyring parse esc header_ok post sdk c cfg r =
     bind_outcome (check_provider c r) (\<lambda>_.
     bind_outcome (map_err Credential (provider_secret var keyring cfg (provider_name (cp_kind (cn_policy c)))))
       (client_send parse esc header_ok post sdk c r))"


section \<open>What a replayed message keeps\<close>

fun user_text :: "oa_message \<Rightarrow> string" where
  "user_text (OA_User s) = s"
| "user_text _ = []"

fun answered :: "oa_message \<Rightarrow> string list" where
  "answered (OA_Tool _ i) = [i]"
| "answered _ = []"

fun result_id :: "content_block \<Rightarrow> string list" where
  "result_id (ToolResultBlock i _ _) = [i]"
| "result_id _ = []"

lemma user_blocks_keep:
  "user_blocks esc bs s ms = Ok (s', ms') \<Longrightarrow>
     concat (map user_text ms') @ s' = concat (map user_text ms) @ s @ visible_text bs \<and>
     concat (map answered ms') = concat (map answered ms) @ concat (map result_id bs) \<and>
     (OA_User [] \<notin> set ms \<longrightarrow> OA_User [] \<notin> set ms')"
proof (induction esc bs s ms rule: user_blocks.induct)
  case (3 esc i content e bs s ms)
  obtain a where a: "tool_result_text esc content = Ok a"
    and rest: "user_blocks esc bs [] ((if s \<noteq> [] then ms @ [OA_User s] else ms) @ [OA_Tool a i]) = Ok (s', ms')"
    using 3(2) by (auto simp: Let_def bind_outcome_Ok_iff)
  show ?case using 3(1) [OF refl, of a] rest by (auto split: if_splits)
qed auto

lemma user_replay_keeps:
  assumes "openai_user_messages esc m = Ok ms"
  shows "concat (map user_text ms) = text_content m \<and>
    concat (map answered ms) = concat (map result_id (ms_content m)) \<and> OA_User [] \<notin> set ms \<and> ms \<noteq> []"
proof -
  obtain s ms' where b: "user_blocks esc (ms_content m) [] [] = Ok (s, ms')"
    and ms: "ms = (if s \<noteq> [] then ms' @ [OA_User s] else ms')" "ms \<noteq> []"
    using assms by (auto simp: openai_user_messages_def bind_outcome_Ok_iff Let_def split: if_splits)
  show ?thesis using user_blocks_keep [OF b] ms by (auto simp: text_content_def split: if_splits)
qed

section \<open>Streamed or not, the same answer\<close>

text \<open>An answer as the provider has it: text, calls with id, name and arguments, and how it is cut.\<close>

record oa_answer =
  aw_text :: "string list"
  aw_calls :: "(string \<times> string \<times> string list) list"
  aw_finish :: finish_reason
  aw_usage :: oa_usage

definition whole_response :: "string \<Rightarrow> string \<Rightarrow> oa_answer \<Rightarrow> oa_response" where
  "whole_response i model a = \<lparr> op_id = i, op_model = model,
     op_choices = [\<lparr> oc_content = (if aw_text a = [] then None else Some (concat (aw_text a))),
       oc_tool_calls = (if aw_calls a = [] then None
         else Some (map (\<lambda>(c, name, fs). FunctionCall c name (concat fs)) (aw_calls a))),
       oc_finish = Some (aw_finish a) \<rparr>],
     op_usage = Some (aw_usage a) \<rparr>"

definition one_delta :: "string \<Rightarrow> string \<Rightarrow> oa_delta \<Rightarrow> oa_chunk" where
  "one_delta i model d = \<lparr> ok_id = i, ok_model = model, ok_choices = [d], ok_usage = None \<rparr>"

definition text_delta :: "string \<Rightarrow> oa_delta" where
  "text_delta f = \<lparr> oe_content = Some f, oe_tool_calls = None, oe_finish = None \<rparr>"

definition call_delta :: "nat \<Rightarrow> string option \<Rightarrow> string option \<times> string option \<Rightarrow> oa_delta" where
  "call_delta k call f = \<lparr> oe_content = None,
     oe_tool_calls = Some [\<lparr> od_index = k, od_id = call, od_function = Some f \<rparr>], oe_finish = None \<rparr>"

fun call_deltas :: "nat \<times> string \<times> string \<times> string list \<Rightarrow> oa_delta list" where
  "call_deltas (k, call, name, fs) =
     call_delta k (Some call) (Some name, None) # map (\<lambda>f. call_delta k None (None, Some f)) fs"

definition answer_chunks :: "string \<Rightarrow> string \<Rightarrow> oa_answer \<Rightarrow> oa_chunk list" where
  "answer_chunks i model a =
     map (one_delta i model)
       (map text_delta (aw_text a) @ concat (map call_deltas (enumerate 0 (aw_calls a))) @
        [\<lparr> oe_content = None, oe_tool_calls = None, oe_finish = Some (aw_finish a) \<rparr>]) @
     [\<lparr> ok_id = i, ok_model = model, ok_choices = [], ok_usage = Some (aw_usage a) \<rparr>]"

lemma take_chunks_Ok: "take_chunks (map Inl ks) st = Ok (fold take_chunk ks st)"
  by (induction ks arbitrary: st) simp_all

lemma fold_one_delta:
  assumes "os_model st = model" and "os_request_id st = Some i"
  shows "fold take_chunk (map (one_delta i model) ds) st = fold take_delta ds st"
  using assms
proof (induction ds arbitrary: st)
  case (Cons d ds)
  have same: "st\<lparr> os_model := model, os_request_id := Some i \<rparr> = st" using Cons.prems by simp
  have "take_chunk (one_delta i model d) st = take_delta d st"
    by (simp add: take_chunk_def one_delta_def same)
  moreover have "os_model (take_delta d st) = model" "os_request_id (take_delta d st) = Some i"
    using Cons.prems by (simp_all add: take_delta_def Let_def split: option.splits)
  ultimately show ?case using Cons.IH [of "take_delta d st"] by simp
qed simp

lemma fold_text:
  "fold take_delta (map text_delta fs) st = st\<lparr> os_content := os_content st @ map text_block fs \<rparr>"
  by (induction fs arbitrary: st) (simp_all add: take_delta_def text_delta_def)

definition call_of :: "string \<times> string \<times> string list \<Rightarrow> oa_tool_call" where
  "call_of c = \<lparr> ot_id = fst c, ot_name = fst (snd c), ot_arguments = concat (snd (snd c)) \<rparr>"

lemma bt_insert_replace_last: "bt_insert (length cs) v (enumerate 0 (cs @ [c])) = enumerate 0 (cs @ [v])"
proof -
  have "bt_insert k v (m @ [(k, c)]) = m @ [(k, v)]" if "\<forall>j \<in> set (map fst m). j < k" for k :: nat and m
    using that by (induction k v m rule: bt_insert.induct) auto
  then show ?thesis by (auto simp: enumerate_append_eq in_set_enumerate_eq)
qed

lemma map_of_enumerate_last: "map_of (enumerate 0 (cs @ [c])) (length cs) = Some c"
  by (simp add: enumerate_append_eq map_of_enumerate_None map_add_def)

lemma fold_arguments:
  assumes "os_calls st = enumerate 0 (cs @ [\<lparr> ot_id = call, ot_name = name, ot_arguments = s \<rparr>])"
  shows "fold take_delta (map (\<lambda>f. call_delta (length cs) None (None, Some f)) fs) st =
     st\<lparr> os_calls := enumerate 0 (cs @ [\<lparr> ot_id = call, ot_name = name, ot_arguments = s @ concat fs \<rparr>]) \<rparr>"
  using assms
proof (induction fs arbitrary: s st)
  case Nil
  then show ?case by simp
next
  case (Cons f fs)
  let ?st = "st\<lparr> os_calls := enumerate 0 (cs @ [\<lparr> ot_id = call, ot_name = name, ot_arguments = s @ f \<rparr>]) \<rparr>"
  have "take_delta (call_delta (length cs) None (None, Some f)) st = ?st"
    using Cons.prems by (simp add: take_delta_def call_delta_def take_tool_delta_def extend_call_def
        map_of_enumerate_last bt_insert_replace_last)
  then show ?case using Cons.IH [of ?st "s @ f"] by simp
qed

lemma fold_call:
  assumes "os_calls st = enumerate 0 cs"
  shows "fold take_delta (call_deltas (length cs, c)) st = st\<lparr> os_calls := enumerate 0 (cs @ [call_of c]) \<rparr>"
proof -
  obtain call name fs where c: "c = (call, name, fs)" by (cases c) auto
  let ?first = "\<lparr> ot_id = call, ot_name = name, ot_arguments = [] \<rparr>"
  have "take_delta (call_delta (length cs) (Some call) (Some name, None)) st = st\<lparr> os_calls := enumerate 0 (cs @ [?first]) \<rparr>"
    using assms by (simp add: take_delta_def call_delta_def take_tool_delta_def extend_call_def oa_tool_call_default_def
        map_of_enumerate_None insert_enumerate)
  then show ?thesis
    using fold_arguments [of "st\<lparr> os_calls := enumerate 0 (cs @ [?first]) \<rparr>" cs call name "[]" fs]
    by (simp add: c call_of_def)
qed

lemma fold_calls:
  assumes "os_calls st = enumerate 0 cs"
  shows "fold take_delta (concat (map call_deltas (enumerate (length cs) xs))) st =
     st\<lparr> os_calls := enumerate 0 (cs @ map call_of xs) \<rparr>"
  using assms
proof (induction xs arbitrary: cs st)
  case Nil
  then show ?case by simp
next
  case (Cons x xs)
  show ?case
    using fold_call [OF Cons.prems, of x] Cons.IH [of "st\<lparr> os_calls := enumerate 0 (cs @ [call_of x]) \<rparr>" "cs @ [call_of x]"]
    by simp
qed

lemma visible_text_append: "visible_text (xs @ ys) = visible_text xs @ visible_text ys"
  by (induction xs rule: visible_text.induct) simp_all

lemma visible_texts: "visible_text (map text_block fs) = concat fs"
  by (induction fs) (simp_all add: text_block_def)

lemma visible_calls: "(\<And>x. x \<in> set xs \<Longrightarrow> \<exists>i n v. f x = ToolUseBlock i n v) \<Longrightarrow> visible_text (map f xs) = []"
proof (induction xs)
  case (Cons x xs)
  then obtain i n v where "f x = ToolUseBlock i n v" by fastforce
  then show ?case using Cons by simp
qed simp

definition tool_uses :: "content_block list \<Rightarrow> content_block list" where
  "tool_uses bs = filter (\<lambda>b. \<exists>i n v. b = ToolUseBlock i n v) bs"

text \<open>C26. An answer of OpenAI reads the same whether it came in one piece or as a stream, however its
  text and the arguments of its calls were cut: the same text, the same calls with the same inputs
  in the same order, and the same reason, model, id and usage. (The blocks themselves differ: a stream
  leaves one text block for each fragment.)\<close>

theorem streamed_reads_like_blocking:
  "\<exists>b s. blocking_completion parse (whole_response i model a) t = Ok b \<and>
     stream_openai parse (Inl (map Inl (answer_chunks i model a))) t = Ok s \<and>
     completion_text s = completion_text b \<and> tool_uses (cm_content s) = tool_uses (cm_content b) \<and>
     s\<lparr> cm_content := [] \<rparr> = b\<lparr> cm_content := [] \<rparr>"
proof -
  let ?calls = "map (\<lambda>c. call_block parse (call_of c)) (aw_calls a)"
  have calls_use: "\<exists>i n v. call_block parse (call_of c) = ToolUseBlock i n v" for c by (simp add: call_block_def)
  have whole: "openai_tool_call parse (case c of (c, name, fs) \<Rightarrow> FunctionCall c name (concat fs)) =
      call_block parse (call_of c)" for c
    by (cases c) (simp add: call_block_def call_of_def)
  let ?head = "if aw_text a = [] then [] else [text_block (concat (aw_text a))]"
  let ?rest = "\<lparr> cm_content = [], cm_stop_reason = openai_stop_reason (aw_finish a), cm_stop_sequence = None,
    cm_model = model, cm_request_id = Some i, cm_usage = Some (openai_usage (aw_usage a)), cm_thinking = t \<rparr>"
  have b: "blocking_completion parse (whole_response i model a) t = Ok (?rest\<lparr> cm_content := ?head @ ?calls \<rparr>)"
    by (simp add: blocking_completion_def whole_response_def take_choice_def whole comp_def)
  let ?st = "oa_stream_default\<lparr> os_model := model, os_request_id := Some i \<rparr>"
  let ?ds = "map text_delta (aw_text a) @ concat (map call_deltas (enumerate 0 (aw_calls a))) @
        [\<lparr> oe_content = None, oe_tool_calls = None, oe_finish = Some (aw_finish a) \<rparr>]"
  have first: "fold take_chunk (map (one_delta i model) ?ds) oa_stream_default = fold take_delta ?ds ?st"
  proof -
    have "take_chunk (one_delta i model d) oa_stream_default = take_chunk (one_delta i model d) ?st" for d
      by (simp add: take_chunk_def one_delta_def)
    then have start: "fold take_chunk (map (one_delta i model) ds) oa_stream_default = fold take_chunk (map (one_delta i model) ds) ?st"
      if "ds \<noteq> []" for ds
      using that by (cases ds) simp_all
    have "?ds \<noteq> []" by simp
    show ?thesis unfolding start [OF \<open>?ds \<noteq> []\<close>] by (rule fold_one_delta) simp_all
  qed
  have deltas: "fold take_delta ?ds ?st = ?st\<lparr> os_content := map text_block (aw_text a),
      os_calls := enumerate 0 (map call_of (aw_calls a)), os_stop_reason := Some (openai_stop_reason (aw_finish a)) \<rparr>"
    using fold_calls [of "?st\<lparr> os_content := map text_block (aw_text a) \<rparr>" "[]" "aw_calls a"]
    by (simp add: fold_text oa_stream_default_def take_delta_def)
  have calls: "map (\<lambda>kv. call_block parse (snd kv)) (enumerate n (map call_of xs)) = map (\<lambda>c. call_block parse (call_of c)) xs" for n xs
    by (induction xs arbitrary: n) simp_all
  have folded: "fold take_chunk (answer_chunks i model a) oa_stream_default =
      \<lparr> os_content = map text_block (aw_text a), os_calls = enumerate 0 (map call_of (aw_calls a)),
        os_usage = Some (openai_usage (aw_usage a)), os_stop_reason = Some (openai_stop_reason (aw_finish a)),
        os_model = model, os_request_id = Some i \<rparr>"
    unfolding answer_chunks_def fold_append comp_apply trans [OF first deltas]
    by (simp add: take_chunk_def oa_stream_default_def)
  have s: "stream_openai parse (Inl (map Inl (answer_chunks i model a))) t =
      Ok (?rest\<lparr> cm_content := map text_block (aw_text a) @ ?calls \<rparr>)"
    unfolding stream_openai_def sum.case take_chunks_Ok folded by (simp add: calls)
  have "visible_text ?calls = []" by (rule visible_calls) (simp add: call_block_def)
  moreover have "tool_uses (map text_block fs) = []" for fs by (induction fs) (simp_all add: tool_uses_def text_block_def)
  moreover have "tool_uses [text_block f] = []" for f by (simp add: tool_uses_def text_block_def)
  ultimately show ?thesis using b s
    by (auto simp: completion_text_def visible_text_append visible_texts tool_uses_def text_block_def)
qed


section \<open>Credentials stay with their provider\<close>

text \<open>C40. A request can only draw on the credential of the provider it names: the outcome of sending it
  depends on the configuration, the environment and the secret store through the entry of that provider,
  its variable and its keyring account alone; and a client of another provider refuses it before
  any credential is looked up.\<close>

theorem credential_confined:
  assumes "map_of (cf_providers cfg) (provider_name (rq_provider r)) = Some p"
    and "map_of (cf_providers cfg') (provider_name (rq_provider r)) = Some p"
    and "map_option var (pr_api_key_env p) = map_option var' (pr_api_key_env p)"
    and "map_option (keyring KEYRING_SERVICE) (pr_api_key_keyring p) = map_option (keyring' KEYRING_SERVICE) (pr_api_key_keyring p)"
  shows "send_with_config var keyring parse esc header_ok post sdk c cfg r =
      send_with_config var' keyring' parse esc header_ok post sdk c cfg' r \<and>
    (rq_provider r = cp_kind (cn_policy c) \<or>
     send_with_config var keyring parse esc header_ok post sdk c cfg r =
       Err (ProviderMismatch (provider_name (cp_kind (cn_policy c))) (provider_name (rq_provider r))))"
proof (cases "rq_provider r = cp_kind (cn_policy c)")
  case True
  have "provider_secret var keyring cfg (provider_name (rq_provider r)) =
      provider_secret var' keyring' cfg' (provider_name (rq_provider r))"
    using assms by (auto simp: provider_secret_def split: option.split)
  then show ?thesis using True by (simp add: send_with_config_def)
next
  case False
  then show ?thesis by (simp add: send_with_config_def check_provider_def)
qed

lemma credential_confined_witness:
  "\<forall>cfg parse esc header_ok post sdk c secret.
     let google = \<lparr> pr_endpoint = None, pr_model = None, pr_api_key_env = Some ''G'', pr_api_key_keyring = None \<rparr>;
         openai = \<lparr> pr_endpoint = None, pr_model = None, pr_api_key_env = Some ''O'', pr_api_key_keyring = None \<rparr>;
         r = \<lparr> rq_provider = Google, rq_model = [], rq_messages = [], rq_tools = [], rq_thinking = \<lparr> budget_tokens = 0 \<rparr>,
           rq_breakpoints = [] \<rparr> in
     send_with_config (\<lambda>_. Some ''key'') (\<lambda>_ _. Inr []) parse esc header_ok post sdk c
       (cfg\<lparr> cf_providers := [(''google'', google)] \<rparr>) r =
     send_with_config [''G'' \<mapsto> ''key'', ''O'' \<mapsto> secret] (\<lambda>_ _. Inl secret) parse esc header_ok post sdk c
       (cfg\<lparr> cf_providers := [(''google'', google), (''openai'', openai)] \<rparr>) r"
  unfolding Let_def
  by (intro allI conjunct1 [OF credential_confined [where p = "\<lparr> pr_endpoint = None, pr_model = None,
      pr_api_key_env = Some ''G'', pr_api_key_keyring = None \<rparr>"]]) simp_all

section \<open>How a refusal is classified\<close>

text \<open>A failure of the server is retryable for two providers and final for the third.\<close>

lemma server_failure_classes:
  assumes "status = 500" and "anthropic_body parse esc r model = Ok body"
    and "\<And>url hs b. post url hs b = Inl \<lparr> hs_status = status, hs_headers = h, hs_host = None, hs_chunks = [], hs_text = e \<rparr>"
    and "client_body parse esc c r = Ok body'" and "cp_kind (cn_policy c) = Google"
  shows "send_anthropic parse esc post r endpoint model t credential = Err (BadResponse ''anthropic'' (HttpRefused status e))"
    and "send_legacy parse esc header_ok post c r credential = Err (Transport ''google'' (HttpFailed status e))"
    and "map_openai (ApiError status e) = Transport ''openai'' (HttpFailed status e)"
  using assms by (simp_all add: send_anthropic_def send_legacy_def)

end
