(* ===== verification/Update.thy ===== *)
theory Update
  imports Config Hashing Utf8
begin

text \<open>
  \<open>crates/supra_update/src/lib.rs\<close>: verification of a signed local release and its atomic
  installation on Unix. Signatures (\<open>minisign_verify\<close>), versions (\<open>semver\<close>), the digest (\<open>sha2\<close>), the
  archive format (\<open>tar\<close>, \<open>flate2\<close>) and the parsing of the manifest's text are other crates: they
  are the parameters \<open>crypto\<close> and the entries an archive is read as. The file system is a store
  for what is written and a list of answers for what is only read.
\<close>

section \<open>Paths\<close>

text \<open>The components of \<open>std::path\<close> on Unix; a path is known by them.\<close>

datatype component = RootDir | CurDir | ParentDir | Normal string

type_synonym os_path = "component list"

definition components :: "string \<Rightarrow> os_path" where
  "components s =
     (let parts = split_on (\<lambda>c. c = CHR ''/'') s in
      (if starts_with ''/'' s then [RootDir] else if hd parts = ''.'' then [CurDir] else []) @
      map (\<lambda>p. if p = ''..'' then ParentDir else Normal p) (filter (\<lambda>p. p \<noteq> [] \<and> p \<noteq> ''.'') parts))"

definition file_name :: "os_path \<Rightarrow> string option" where
  "file_name p = (if p = [] then None else case last p of Normal n \<Rightarrow> Some n | _ \<Rightarrow> None)"

definition path_parent :: "os_path \<Rightarrow> os_path option" where
  "path_parent p = (if p = [] \<or> last p = RootDir then None else Some (butlast p))"

section \<open>Errors and data\<close>

datatype manifest_fault =
    NotTheSchema string | UnsupportedSchema nat | NotCanonicalVersion | NotOneFilename string | NotPortablePath
  | PathTraversal | NotADigest string | ArchiveSizeBound | ExecutableSizeBound | NotATarget
  | NoUtf8Filename | FileNotUtf8

datatype archive_fault =
    TooManyEntries | MemberNotUtf8 | DuplicateMember string | NonRegularMember string | ExtraMember string
  | ExecutableTwice | ExceedsSignedSize | MemberAbsent | NonPortableMember string | TraversingMember string

datatype destination_fault =
    NotRegular | NoParent | ParentNotDirectory | NoFilename | IdentityChanged | NoStagingName

datatype signature_fault = NoKeyLine | SignatureSays string

datatype subject = ArchiveSubject | ExecutableSubject | InputSubject

datatype update_error =
    BadSignature signature_fault
  | BadVersion string string
  | TargetMismatch string string
  | ArchiveMismatch string string
  | DigestMismatch subject string string
  | SizeMismatch subject nat nat
  | MalformedManifest manifest_fault
  | UnsafeArchive archive_fault
  | UnsafeDestination destination_fault
  | UpdateIo string

definition MAX_ARCHIVE_BYTES :: nat where "MAX_ARCHIVE_BYTES = 128 * 1024 * 1024"
definition MAX_EXECUTABLE_BYTES :: nat where "MAX_EXECUTABLE_BYTES = 128 * 1024 * 1024"
definition MAX_ARCHIVE_ENTRIES :: nat where "MAX_ARCHIVE_ENTRIES = 64"

record manifest_wire =
  mw_schema :: nat
  mw_version :: string
  mw_target :: string
  mw_archive :: string
  mw_archive_size :: nat
  mw_archive_sha256 :: string
  mw_executable_path :: string
  mw_executable_size :: nat
  mw_executable_sha256 :: string

record 'v verified_manifest =
  vm_version :: 'v
  vm_target :: string
  vm_archive :: string
  vm_archive_size :: nat
  vm_archive_sha256 :: string
  vm_executable_path :: string
  vm_executable_size :: nat
  vm_executable_sha256 :: string

text \<open>
  What the other crates do: keys and signatures are read and checked, versions are read and
  printed, the manifest's text is read as its strict schema, bytes are hashed.
\<close>

record ('v, 'k, 's) crypto =
  key_from_base64 :: "string \<Rightarrow> 'k + string"
  signature_decode :: "string \<Rightarrow> 's + string"
  key_verify :: "'k \<Rightarrow> string \<Rightarrow> 's \<Rightarrow> string option"
  semver_parse :: "string \<Rightarrow> 'v + string"
  semver_show :: "'v \<Rightarrow> string"
  wire_parse :: "string \<Rightarrow> manifest_wire + string"
  sha256 :: "string \<Rightarrow> byte list"

section \<open>The manifest\<close>

fun from_sum :: "('e \<Rightarrow> 'f) \<Rightarrow> 'a + 'e \<Rightarrow> ('a, 'f) outcome" where
  "from_sum f (Inl x) = Ok x"
| "from_sum f (Inr e) = Err (f e)"

definition verify :: "('v, 'k, 's) crypto \<Rightarrow> string \<Rightarrow> string \<Rightarrow> string \<Rightarrow> (unit, update_error) outcome" where
  "verify cr payload public_key signature =
     (case List.find (starts_with ''RW'') (map trim (text_lines public_key)) of
        None \<Rightarrow> Err (BadSignature NoKeyLine)
      | Some key_text \<Rightarrow>
          bind_outcome (from_sum (BadSignature \<circ> SignatureSays) (key_from_base64 cr key_text)) (\<lambda>key.
          bind_outcome (from_sum (BadSignature \<circ> SignatureSays) (signature_decode cr (trim signature))) (\<lambda>sig.
            case key_verify cr key payload sig of None \<Rightarrow> Ok () | Some e \<Rightarrow> Err (BadSignature (SignatureSays e)))))"

definition parse_version :: "('v, 'k, 's) crypto \<Rightarrow> string \<Rightarrow> ('v, update_error) outcome" where
  "parse_version cr raw =
     from_sum (BadVersion raw) (semver_parse cr (case strip_prefix ''v'' raw of Some r \<Rightarrow> r | None \<Rightarrow> raw))"

definition validate_filename :: "string \<Rightarrow> string \<Rightarrow> (unit, update_error) outcome" where
  "validate_filename v name =
     (if v = [] \<or> length v > 255 \<or> file_name (components v) \<noteq> Some v \<or> length (components v) \<noteq> 1
      then Err (MalformedManifest (NotOneFilename name)) else Ok ())"

definition is_normal :: "component \<Rightarrow> bool" where
  "is_normal c \<longleftrightarrow> (case c of Normal _ \<Rightarrow> True | _ \<Rightarrow> False)"

definition backslash :: char where "backslash = CHR 0x5C"

definition validate_member_path :: "string \<Rightarrow> (unit, update_error) outcome" where
  "validate_member_path v =
     (if v = [] \<or> length v > 512 \<or> backslash \<in> set v \<or> starts_with ''/'' v
      then Err (MalformedManifest NotPortablePath)
      else if list_ex (\<lambda>c. \<not> is_normal c) (components v) then Err (MalformedManifest PathTraversal)
      else Ok ())"

definition is_lower_hex :: "char \<Rightarrow> bool" where
  "is_lower_hex c \<longleftrightarrow> is_digit c \<or> 97 \<le> code c \<and> code c \<le> 102"

definition validate_digest :: "string \<Rightarrow> string \<Rightarrow> (unit, update_error) outcome" where
  "validate_digest v name =
     (if length v \<noteq> 64 \<or> \<not> list_all is_lower_hex v then Err (MalformedManifest (NotADigest name)) else Ok ())"

definition is_target_byte :: "char \<Rightarrow> bool" where
  "is_target_byte c \<longleftrightarrow> is_digit c \<or> 65 \<le> code c \<and> code c \<le> 90 \<or> 97 \<le> code c \<and> code c \<le> 122 \<or>
     c \<in> {CHR ''-'', CHR ''_'', CHR ''.''}"

definition parse_manifest :: "('v, 'k, 's) crypto \<Rightarrow> string \<Rightarrow> ('v verified_manifest, update_error) outcome" where
  "parse_manifest cr bytes =
     bind_outcome (from_sum (MalformedManifest \<circ> NotTheSchema) (wire_parse cr bytes)) (\<lambda>wire.
     if mw_schema wire \<noteq> 1 then Err (MalformedManifest (UnsupportedSchema (mw_schema wire)))
     else
     bind_outcome (parse_version cr (mw_version wire)) (\<lambda>version.
     if mw_version wire \<noteq> semver_show cr version then Err (MalformedManifest NotCanonicalVersion)
     else
     bind_outcome (validate_filename (mw_archive wire) ''archive'') (\<lambda>_.
     bind_outcome (validate_member_path (mw_executable_path wire)) (\<lambda>_.
     bind_outcome (validate_digest (mw_archive_sha256 wire) ''archive_sha256'') (\<lambda>_.
     bind_outcome (validate_digest (mw_executable_sha256 wire) ''executable.sha256'') (\<lambda>_.
     if mw_archive_size wire = 0 \<or> mw_archive_size wire > MAX_ARCHIVE_BYTES then Err (MalformedManifest ArchiveSizeBound)
     else if mw_executable_size wire = 0 \<or> mw_executable_size wire > MAX_EXECUTABLE_BYTES
     then Err (MalformedManifest ExecutableSizeBound)
     else if mw_target wire = [] \<or> length (mw_target wire) > 128 \<or> \<not> list_all is_target_byte (mw_target wire)
     then Err (MalformedManifest NotATarget)
     else Ok \<lparr> vm_version = version, vm_target = mw_target wire, vm_archive = mw_archive wire,
       vm_archive_size = mw_archive_size wire, vm_archive_sha256 = mw_archive_sha256 wire,
       vm_executable_path = mw_executable_path wire, vm_executable_size = mw_executable_size wire,
       vm_executable_sha256 = mw_executable_sha256 wire \<rparr>))))))"

section \<open>Reading files\<close>

datatype file_kind = RegularFile | DirectoryFile | OtherFile

text \<open>
  What the system answers about a path: its metadata (kind and length), its bytes up to one past a
  bound, and the entries its bytes unpack to.
\<close>

record tar_entry =
  te_path :: "string + string"
  te_is_file :: bool
  te_size :: nat
  te_chunks :: "(string + string) list"

record answers =
  an_meta :: "os_path \<Rightarrow> (file_kind \<times> nat) + string"
  an_bytes :: "os_path \<Rightarrow> nat \<Rightarrow> string + string"
  an_entries :: "os_path \<Rightarrow> (tar_entry + string) list + string"

definition lower_hex :: "byte list \<Rightarrow> string" where
  "lower_hex bs = concat (map byte_hex bs)"

definition digest_sha256 :: "('v, 'k, 's) crypto \<Rightarrow> string \<Rightarrow> string" where
  "digest_sha256 cr bs = lower_hex (sha256 cr bs)"

definition read_bounded :: "answers \<Rightarrow> os_path \<Rightarrow> nat \<Rightarrow> (string, update_error) outcome" where
  "read_bounded os path bound =
     bind_outcome (from_sum UpdateIo (an_meta os path)) (\<lambda>(kind, len).
     if kind \<noteq> RegularFile then Err (UnsafeDestination NotRegular)
     else if len > bound then Err (SizeMismatch InputSubject len bound)
     else bind_outcome (from_sum UpdateIo (an_bytes os path (bound + 1))) (\<lambda>bytes.
       let bytes = take (bound + 1) bytes in
       if length bytes > bound then Err (SizeMismatch InputSubject (length bytes) bound) else Ok bytes))"

definition read_text_bounded :: "answers \<Rightarrow> os_path \<Rightarrow> nat \<Rightarrow> (string, update_error) outcome" where
  "read_text_bounded os path bound =
     bind_outcome (read_bounded os path bound) (\<lambda>bytes.
       if utf8_valid bytes then Ok bytes else Err (MalformedManifest FileNotUtf8))"

definition regular_filename :: "os_path \<Rightarrow> (string, update_error) outcome" where
  "regular_filename path =
     (case file_name path of
        Some n \<Rightarrow> if utf8_valid n then Ok n else Err (MalformedManifest NoUtf8Filename)
      | None \<Rightarrow> Err (MalformedManifest NoUtf8Filename))"

definition verify_file_binding ::
  "('v, 'k, 's) crypto \<Rightarrow> answers \<Rightarrow> os_path \<Rightarrow> nat \<Rightarrow> string \<Rightarrow> nat \<Rightarrow> subject \<Rightarrow> (unit, update_error) outcome" where
  "verify_file_binding cr os path pinned_size pinned_digest bound subj =
     bind_outcome (from_sum UpdateIo (an_meta os path)) (\<lambda>(kind, len).
     if kind \<noteq> RegularFile then Err (UnsafeDestination NotRegular)
     else if len \<noteq> pinned_size then Err (SizeMismatch subj len pinned_size)
     else if len > bound then Err (SizeMismatch subj len bound)
     else bind_outcome (read_bounded os path bound) (\<lambda>bytes.
       let computed = digest_sha256 cr bytes in
       if computed \<noteq> pinned_digest then Err (DigestMismatch subj computed pinned_digest) else Ok ()))"

section \<open>The archive\<close>

definition validate_archive_path :: "string \<Rightarrow> (unit, update_error) outcome" where
  "validate_archive_path v =
     (if backslash \<in> set v \<or> starts_with ''/'' v then Err (UnsafeArchive (NonPortableMember v))
      else if list_ex (\<lambda>c. \<not> is_normal c) (components v) then Err (UnsafeArchive (TraversingMember v))
      else Ok ())"

text \<open>
  The loop over the pieces of a member: an empty piece is the end. Each piece is hashed and, with
  a sink, written, which may fail; the second result is what has been written.
\<close>

fun copy_entry ::
  "nat \<Rightarrow> (nat \<Rightarrow> string option) option \<Rightarrow> string \<Rightarrow> string \<Rightarrow> (string + string) list \<Rightarrow>
     (string, update_error) outcome \<times> string" where
  "copy_entry pinned sink acc written [] = (Ok acc, written)"
| "copy_entry pinned sink acc written (Inr e # _) = (Err (UpdateIo e), written)"
| "copy_entry pinned sink acc written (Inl piece # pieces) =
     (if piece = [] then (Ok acc, written)
      else let acc = acc @ piece in
        if length acc > pinned \<or> length acc > MAX_EXECUTABLE_BYTES then (Err (UnsafeArchive ExceedsSignedSize), written)
        else case sink of
          None \<Rightarrow> copy_entry pinned sink acc written pieces
        | Some fails \<Rightarrow>
            (case fails (length written) of
               Some e \<Rightarrow> (Err (UpdateIo e), written)
             | None \<Rightarrow> copy_entry pinned sink acc (written @ piece) pieces))"

definition inspect_member ::
  "('v, 'k, 's) crypto \<Rightarrow> 'v verified_manifest \<Rightarrow> (nat \<Rightarrow> string option) option \<Rightarrow> string \<Rightarrow> tar_entry \<Rightarrow>
     (unit, update_error) outcome \<times> string" where
  "inspect_member cr m sink written e =
     (if te_size e \<noteq> vm_executable_size m
      then (Err (SizeMismatch ExecutableSubject (te_size e) (vm_executable_size m)), written)
      else let (copied, written) = copy_entry (vm_executable_size m) sink [] written (te_chunks e) in
        (bind_outcome copied (\<lambda>bytes.
           if length bytes \<noteq> vm_executable_size m
           then Err (SizeMismatch ExecutableSubject (length bytes) (vm_executable_size m))
           else let computed = digest_sha256 cr bytes in
             if computed \<noteq> vm_executable_sha256 m
             then Err (DigestMismatch ExecutableSubject computed (vm_executable_sha256 m)) else Ok ()), written))"

fun inspect_entries ::
  "('v, 'k, 's) crypto \<Rightarrow> 'v verified_manifest \<Rightarrow> (nat \<Rightarrow> string option) option \<Rightarrow> nat \<Rightarrow> string set \<Rightarrow> bool \<Rightarrow> string \<Rightarrow>
     (tar_entry + string) list \<Rightarrow> (unit, update_error) outcome \<times> string" where
  "inspect_entries cr m sink i seen found written [] =
     (if found then Ok () else Err (UnsafeArchive MemberAbsent), written)"
| "inspect_entries cr m sink i seen found written (item # items) =
     (if i \<ge> MAX_ARCHIVE_ENTRIES then (Err (UnsafeArchive TooManyEntries), written)
      else case item of
        Inr e \<Rightarrow> (Err (UpdateIo e), written)
      | Inl e \<Rightarrow>
          (case te_path e of
             Inr f \<Rightarrow> (Err (UpdateIo f), written)
           | Inl path \<Rightarrow>
               if \<not> utf8_valid path then (Err (UnsafeArchive MemberNotUtf8), written)
               else case validate_archive_path path of
                 Err f \<Rightarrow> (Err f, written)
               | Panic \<Rightarrow> (Panic, written)
               | Ok _ \<Rightarrow>
                   if path \<in> seen then (Err (UnsafeArchive (DuplicateMember path)), written)
                   else if \<not> te_is_file e then (Err (UnsafeArchive (NonRegularMember path)), written)
                   else if path \<noteq> vm_executable_path m then (Err (UnsafeArchive (ExtraMember path)), written)
                   else if found then (Err (UnsafeArchive ExecutableTwice), written)
                   else case inspect_member cr m sink written e of
                     (Ok _, written) \<Rightarrow> inspect_entries cr m sink (i + 1) (insert path seen) True written items
                   | (Err f, written) \<Rightarrow> (Err f, written)
                   | (Panic, written) \<Rightarrow> (Panic, written)))"

definition inspect_archive ::
  "('v, 'k, 's) crypto \<Rightarrow> answers \<Rightarrow> os_path \<Rightarrow> 'v verified_manifest \<Rightarrow> (nat \<Rightarrow> string option) option \<Rightarrow>
     (unit, update_error) outcome \<times> string" where
  "inspect_archive cr os path m sink =
     (case an_entries os path of
        Inr e \<Rightarrow> (Err (UpdateIo e), [])
      | Inl items \<Rightarrow> inspect_entries cr m sink 0 {} False [] items)"

section \<open>Checking a local bundle\<close>

record local_update =
  lu_archive :: os_path
  lu_manifest :: os_path
  lu_signature :: os_path
  lu_public_key :: os_path
  lu_expected_target :: string

definition check_local ::
  "('v, 'k, 's) crypto \<Rightarrow> answers \<Rightarrow> local_update \<Rightarrow> ('v verified_manifest, update_error) outcome" where
  "check_local cr os input =
     bind_outcome (read_bounded os (lu_manifest input) (64 * 1024)) (\<lambda>manifest_bytes.
     bind_outcome (read_text_bounded os (lu_signature input) (64 * 1024)) (\<lambda>signature.
     bind_outcome (read_text_bounded os (lu_public_key input) (16 * 1024)) (\<lambda>public_key.
     bind_outcome (verify cr manifest_bytes public_key signature) (\<lambda>_.
     bind_outcome (parse_manifest cr manifest_bytes) (\<lambda>m.
     if vm_target m \<noteq> lu_expected_target input then Err (TargetMismatch (vm_target m) (lu_expected_target input))
     else
     bind_outcome (regular_filename (lu_archive input)) (\<lambda>actual_name.
     if vm_archive m \<noteq> actual_name then Err (ArchiveMismatch (vm_archive m) actual_name)
     else
     bind_outcome (verify_file_binding cr os (lu_archive input) (vm_archive_size m) (vm_archive_sha256 m)
         MAX_ARCHIVE_BYTES ArchiveSubject) (\<lambda>_.
     bind_outcome (fst (inspect_archive cr os (lu_archive input) m None)) (\<lambda>_. Ok m))))))))"


section \<open>Installing\<close>

text \<open>
  What is written: a store of nodes by path. \<open>fault\<close> lets any step fail; \<open>others\<close> is what other
  processes change between the staging and the second look at the destination.
\<close>

record up_node =
  un_kind :: file_kind
  un_ident :: "nat \<times> nat"
  un_mode :: nat
  un_data :: string

type_synonym up_store = "os_path \<rightharpoonup> up_node"

datatype up_step =
    StatParent | OpenLock | TakeLock | StatBefore | CreateStaged | Chmod | SyncStaged | StatAfter | RenameStaged
  | SyncParent | RemoveStaged

record up_env =
  ue_fault :: "up_step \<Rightarrow> string option"
  ue_write :: "nat \<Rightarrow> string option"
  ue_others :: "os_path \<rightharpoonup> up_node option"
  ue_pid :: nat
  ue_lock_ident :: "nat \<times> nat"
  ue_staged_ident :: "nat \<times> nat"

definition meddle :: "up_env \<Rightarrow> up_store \<Rightarrow> up_store" where
  "meddle env st = (\<lambda>p. case ue_others env p of Some n \<Rightarrow> n | None \<Rightarrow> st p)"

definition destination_identity ::
  "string option \<Rightarrow> up_store \<Rightarrow> os_path \<Rightarrow> ((nat \<times> nat) option, update_error) outcome" where
  "destination_identity fault st path =
     (case fault of
        Some e \<Rightarrow> Err (UpdateIo e)
      | None \<Rightarrow>
          (case st path of
             None \<Rightarrow> Ok None
           | Some n \<Rightarrow> if un_kind n = RegularFile then Ok (Some (un_ident n)) else Err (UnsafeDestination NotRegular)))"

definition lock_path :: "os_path \<Rightarrow> string \<Rightarrow> os_path" where
  "lock_path parent name = parent @ [Normal (''.'' @ name @ ''.update.lock'')]"

definition staging_path :: "up_env \<Rightarrow> os_path \<Rightarrow> string \<Rightarrow> nat \<Rightarrow> os_path" where
  "staging_path env parent name nonce =
     parent @ [Normal (''.'' @ name @ ''.update.'' @ show_nat (ue_pid env) @ ''.'' @ show_nat nonce)]"

definition create_staging_path :: "up_env \<Rightarrow> up_store \<Rightarrow> os_path \<Rightarrow> string \<Rightarrow> (os_path, update_error) outcome" where
  "create_staging_path env st parent name =
     (case List.find (\<lambda>p. st p = None) (map (staging_path env parent name) [0..<128]) of
        Some p \<Rightarrow> Ok p | None \<Rightarrow> Err (UnsafeDestination NoStagingName))"

text \<open>The part between the creation of the staged file and the end, which may fail anywhere.\<close>

definition stage_and_swap ::
  "('v, 'k, 's) crypto \<Rightarrow> answers \<Rightarrow> up_env \<Rightarrow> os_path \<Rightarrow> 'v verified_manifest \<Rightarrow> os_path \<Rightarrow> os_path \<Rightarrow>
     (nat \<times> nat) option \<Rightarrow> up_store \<Rightarrow> (unit, update_error) outcome \<times> up_store" where
  "stage_and_swap cr os env archive m install staged was st =
     (let (inspected, written) = inspect_archive cr os archive m (Some (ue_write env));
          file = (\<lambda>mode. \<lparr> un_kind = RegularFile, un_ident = ue_staged_ident env, un_mode = mode, un_data = written \<rparr>);
          st = st(staged \<mapsto> file 0x180) in
      case inspected of
        Err e \<Rightarrow> (Err e, st)
      | Panic \<Rightarrow> (Panic, st)
      | Ok _ \<Rightarrow>
          (case ue_fault env Chmod of
             Some e \<Rightarrow> (Err (UpdateIo e), st)
           | None \<Rightarrow>
               let st = st(staged \<mapsto> file 0x1ED) in
               case ue_fault env SyncStaged of
                 Some e \<Rightarrow> (Err (UpdateIo e), st)
               | None \<Rightarrow>
                   let st = meddle env st in
                   case destination_identity (ue_fault env StatAfter) st install of
                     Err e \<Rightarrow> (Err e, st)
                   | Panic \<Rightarrow> (Panic, st)
                   | Ok now \<Rightarrow>
                       if was \<noteq> now then (Err (UnsafeDestination IdentityChanged), st)
                       else case ue_fault env RenameStaged of
                         Some e \<Rightarrow> (Err (UpdateIo e), st)
                       | None \<Rightarrow>
                           let st = st(install := st staged, staged := None) in
                           case ue_fault env SyncParent of
                             Some e \<Rightarrow> (Err (UpdateIo e), st)
                           | None \<Rightarrow> (Ok (), st)))"

text \<open>What happens once the lock file is there.\<close>

definition apply_locked ::
  "('v, 'k, 's) crypto \<Rightarrow> answers \<Rightarrow> up_env \<Rightarrow> os_path \<Rightarrow> 'v verified_manifest \<Rightarrow> os_path \<Rightarrow> os_path \<Rightarrow> string \<Rightarrow>
     up_store \<Rightarrow> (unit, update_error) outcome \<times> up_store" where
  "apply_locked cr os env archive m install parent name st =
     (case ue_fault env TakeLock of
        Some e \<Rightarrow> (Err (UpdateIo e), st)
      | None \<Rightarrow>
          (case destination_identity (ue_fault env StatBefore) st install of
             Err e \<Rightarrow> (Err e, st)
           | Panic \<Rightarrow> (Panic, st)
           | Ok was \<Rightarrow>
               (case create_staging_path env st parent name of
                  Err e \<Rightarrow> (Err e, st)
                | Panic \<Rightarrow> (Panic, st)
                | Ok staged \<Rightarrow>
                    (case ue_fault env CreateStaged of
                       Some e \<Rightarrow> (Err (UpdateIo e), st)
                     | None \<Rightarrow>
                         let (result, st) = stage_and_swap cr os env archive m install staged was st in
                         (result,
                          if is_Ok result \<or> ue_fault env RemoveStaged \<noteq> None then st
                          else st(staged := None))))))"

definition with_lock :: "up_env \<Rightarrow> os_path \<Rightarrow> up_store \<Rightarrow> up_store" where
  "with_lock env lock st =
     (if st lock = None
      then st(lock \<mapsto> \<lparr> un_kind = RegularFile, un_ident = ue_lock_ident env, un_mode = 0x180, un_data = [] \<rparr>) else st)"

definition apply_verified ::
  "('v, 'k, 's) crypto \<Rightarrow> answers \<Rightarrow> up_env \<Rightarrow> os_path \<Rightarrow> 'v verified_manifest \<Rightarrow> os_path \<Rightarrow> up_store \<Rightarrow>
     (unit, update_error) outcome \<times> up_store" where
  "apply_verified cr os env archive m install st =
     (case path_parent install of
        None \<Rightarrow> (Err (UnsafeDestination NoParent), st)
      | Some parent \<Rightarrow>
          if parent = [] then (Err (UnsafeDestination NoParent), st)
          else case (ue_fault env StatParent, st parent) of
            (Some e, _) \<Rightarrow> (Err (UpdateIo e), st)
          | (None, None) \<Rightarrow> (Err (UpdateIo ''not found''), st)
          | (None, Some n) \<Rightarrow>
              if un_kind n \<noteq> DirectoryFile then (Err (UnsafeDestination ParentNotDirectory), st)
              else case file_name install of
                None \<Rightarrow> (Err (UnsafeDestination NoFilename), st)
              | Some name \<Rightarrow>
                  if \<not> utf8_valid name then (Err (UnsafeDestination NoFilename), st)
                  else case ue_fault env OpenLock of
                    Some e \<Rightarrow> (Err (UpdateIo e), st)
                  | None \<Rightarrow> apply_locked cr os env archive m install parent name
                              (with_lock env (lock_path parent name) st))"

text \<open>The bundle is read a second time when it is applied: the answers may then be others.\<close>

definition apply_local ::
  "('v, 'k, 's) crypto \<Rightarrow> answers \<Rightarrow> answers \<Rightarrow> up_env \<Rightarrow> local_update \<Rightarrow> os_path \<Rightarrow> up_store \<Rightarrow>
     ('v, update_error) outcome \<times> up_store" where
  "apply_local cr os os' env input install st =
     (case check_local cr os input of
        Err e \<Rightarrow> (Err e, st)
      | Panic \<Rightarrow> (Panic, st)
      | Ok m \<Rightarrow>
          let (result, st) = apply_verified cr os' env (lu_archive input) m install st in
          (bind_outcome result (\<lambda>_. Ok (vm_version m)), st))"


section \<open>What an accepted archive is\<close>

text \<open>The bytes of a member: the pieces up to the first empty one, none of which fails.\<close>

fun member_bytes :: "(string + string) list \<Rightarrow> string option" where
  "member_bytes [] = Some []"
| "member_bytes (Inr e # _) = None"
| "member_bytes (Inl piece # pieces) = (if piece = [] then Some [] else map_option ((@) piece) (member_bytes pieces))"

lemma copy_entry_Ok:
  "copy_entry n sink acc w ps = (Ok bytes, w') \<Longrightarrow>
     \<exists>b. member_bytes ps = Some b \<and> bytes = acc @ b \<and> w' = (if sink = None then w else w @ b) \<and>
       (b \<noteq> [] \<longrightarrow> length bytes \<le> n \<and> length bytes \<le> MAX_EXECUTABLE_BYTES)"
proof (induction n sink acc w ps rule: copy_entry.induct)
  case (3 n sink acc w piece ps)
  show ?case
  proof (cases "piece = []")
    case True
    then show ?thesis using 3(3) by auto
  next
    case False
    let ?acc = "acc @ piece"
    have fits: "\<not> (length ?acc > n \<or> length ?acc > MAX_EXECUTABLE_BYTES)"
      using 3(3) False by (auto simp: Let_def split: if_splits)
    show ?thesis
    proof (cases sink)
      case None
      then have "copy_entry n sink ?acc w ps = (Ok bytes, w')" using 3(3) False fits by (simp add: Let_def)
      from 3(1) [OF False refl fits None this] show ?thesis using False fits None by auto
    next
      case (Some fails)
      then have "fails (length w) = None" and "copy_entry n sink ?acc (w @ piece) ps = (Ok bytes, w')"
        using 3(3) False fits by (auto simp: Let_def split: option.splits)
      from 3(2) [OF False refl fits Some this] show ?thesis using False fits Some by auto
    qed
  qed
qed auto

lemma copy_entry_complete:
  assumes "member_bytes ps = Some b" and "length (acc @ b) \<le> n" and "length (acc @ b) \<le> MAX_EXECUTABLE_BYTES"
  shows "copy_entry n None acc w ps = (Ok (acc @ b), w)"
  using assms
proof (induction ps arbitrary: acc b)
  case (Cons p ps)
  then obtain piece where p: "p = Inl piece" by (cases p) auto
  show ?case
  proof (cases "piece = []")
    case True
    then show ?thesis using Cons.prems(1) by (simp add: p)
  next
    case False
    then obtain b' where b': "member_bytes ps = Some b'" "b = piece @ b'" using Cons.prems(1) by (auto simp: p)
    have fits: "\<not> (length (acc @ piece) > n \<or> length (acc @ piece) > MAX_EXECUTABLE_BYTES)"
      using Cons.prems(2,3) by (simp add: b'(2))
    show ?thesis using Cons.IH [OF b'(1), of "acc @ piece"] Cons.prems(2,3) False fits by (simp add: p b'(2) Let_def)
  qed
qed simp

text \<open>The signed executable and nothing else.\<close>

definition signed_member :: "('v, 'k, 's) crypto \<Rightarrow> 'v verified_manifest \<Rightarrow> tar_entry \<Rightarrow> string \<Rightarrow> bool" where
  "signed_member cr m e b \<longleftrightarrow>
     te_path e = Inl (vm_executable_path m) \<and> te_is_file e \<and> te_size e = vm_executable_size m \<and>
     member_bytes (te_chunks e) = Some b \<and> length b = vm_executable_size m \<and>
     digest_sha256 cr b = vm_executable_sha256 m"

definition portable :: "string \<Rightarrow> bool" where
  "portable p \<longleftrightarrow> utf8_valid p \<and> validate_archive_path p = Ok ()"

lemma validate_archive_path_cases: "validate_archive_path p = Ok () \<or> (\<exists>f. validate_archive_path p = Err f)"
  by (simp add: validate_archive_path_def)

lemma nothing_more:
  "inspect_entries cr m sink i {vm_executable_path m} True w (item # items) \<noteq> (Ok (), w')"
proof (cases item)
  case (Inl e)
  show ?thesis
  proof (cases "te_path e")
    case (Inl path)
    then show ?thesis using validate_archive_path_cases [of path] \<open>item = Inl e\<close> by auto
  qed (simp add: Inl)
qed simp

lemma inspect_entries_first:
  "inspect_entries cr m sink 0 {} False w items = (Ok (), w') \<longleftrightarrow>
     (\<exists>e. items = [Inl e] \<and> te_path e = Inl (vm_executable_path m) \<and> portable (vm_executable_path m) \<and>
        te_is_file e \<and> inspect_member cr m sink w e = (Ok (), w'))"
proof (cases items)
  case (Cons item rest)
  show ?thesis
  proof (cases item)
    case e: (Inl e)
    show ?thesis
    proof (cases "\<exists>path. te_path e = Inl path \<and> portable path \<and> te_is_file e \<and> path = vm_executable_path m")
      case True
      obtain r w1 where r: "inspect_member cr m sink w e = (r, w1)" by fastforce
      have "inspect_entries cr m sink (Suc 0) {vm_executable_path m} True w1 rest = (Ok (), w') \<longleftrightarrow> rest = [] \<and> w1 = w'"
        using nothing_more [of cr m sink "Suc 0" w1 _ _ w'] by (cases rest) auto
      then show ?thesis using True r by (cases r) (auto simp: Cons e portable_def MAX_ARCHIVE_ENTRIES_def)
    next
      case False
      show ?thesis
      proof (cases "te_path e")
        case (Inl path)
        then show ?thesis using False validate_archive_path_cases [of path]
          by (auto simp: Cons e portable_def MAX_ARCHIVE_ENTRIES_def)
      qed (simp add: Cons e)
    qed
  qed (simp add: Cons)
qed simp

lemma inspect_member_Ok:
  assumes "inspect_member cr m sink w e = (Ok (), w')"
  obtains b where "te_size e = vm_executable_size m" and "member_bytes (te_chunks e) = Some b"
    and "length b = vm_executable_size m" and "digest_sha256 cr b = vm_executable_sha256 m"
    and "w' = (if sink = None then w else w @ b)"
proof -
  obtain copied w1 where c: "copy_entry (vm_executable_size m) sink [] w (te_chunks e) = (copied, w1)" by fastforce
  obtain bytes where bytes: "copied = Ok bytes" "length bytes = vm_executable_size m"
    "digest_sha256 cr bytes = vm_executable_sha256 m" "w1 = w'" "te_size e = vm_executable_size m"
    using assms c by (auto simp: inspect_member_def Let_def bind_outcome_Ok_iff split: if_splits)
  then show ?thesis using copy_entry_Ok [OF c [unfolded bytes(1)]] that by auto
qed

text \<open>An archive is accepted exactly when it holds the signed executable and nothing else: one
  entry, a regular file at the signed path, whose size and digest are the signed ones and within the bound.\<close>

theorem archive_accepted_iff:
  "fst (inspect_entries cr m None 0 {} False [] items) = Ok () \<longleftrightarrow>
     portable (vm_executable_path m) \<and>
     (\<exists>e b. items = [Inl e] \<and> signed_member cr m e b \<and> length b \<le> MAX_EXECUTABLE_BYTES)"
proof -
  have member: "(\<exists>w'. inspect_member cr m None [] e = (Ok (), w')) \<longleftrightarrow>
      te_size e = vm_executable_size m \<and>
      (\<exists>b. member_bytes (te_chunks e) = Some b \<and> length b = vm_executable_size m \<and> length b \<le> MAX_EXECUTABLE_BYTES \<and>
         digest_sha256 cr b = vm_executable_sha256 m)" (is "?L \<longleftrightarrow> ?R") for e
  proof
    assume ?L
    then obtain w' where w': "inspect_member cr m None [] e = (Ok (), w')" by blast
    obtain copied w1 where c: "copy_entry (vm_executable_size m) None [] [] (te_chunks e) = (copied, w1)" by fastforce
    obtain bytes where bytes: "copied = Ok bytes" "length bytes = vm_executable_size m"
      "digest_sha256 cr bytes = vm_executable_sha256 m" "te_size e = vm_executable_size m"
      using w' c by (auto simp: inspect_member_def Let_def bind_outcome_Ok_iff split: if_splits)
    then show ?R using copy_entry_Ok [OF c [unfolded bytes(1)]] by (cases "bytes = []") auto
  next
    assume ?R
    then obtain b where "te_size e = vm_executable_size m" and b: "member_bytes (te_chunks e) = Some b"
      "length b = vm_executable_size m" "length b \<le> MAX_EXECUTABLE_BYTES" "digest_sha256 cr b = vm_executable_sha256 m"
      by blast
    then show ?L using copy_entry_complete [OF b(1), of "[]" "vm_executable_size m" "[]"] by (simp add: inspect_member_def)
  qed
  have "fst (inspect_entries cr m None 0 {} False [] items) = Ok () \<longleftrightarrow>
      (\<exists>w'. inspect_entries cr m None 0 {} False [] items = (Ok (), w'))"
    by (cases "inspect_entries cr m None 0 {} False [] items") auto
  also have "\<dots> \<longleftrightarrow> (\<exists>e. items = [Inl e] \<and> te_path e = Inl (vm_executable_path m) \<and> portable (vm_executable_path m) \<and>
      te_is_file e \<and> (\<exists>w'. inspect_member cr m None [] e = (Ok (), w')))"
    by (auto simp: inspect_entries_first)
  finally show ?thesis unfolding member by (auto simp: signed_member_def)
qed


section \<open>What an installation leaves\<close>

lemma inspect_archive_Ok:
  assumes "inspect_archive cr os path m sink = (Ok (), w)" and "sink \<noteq> None"
  obtains e where "signed_member cr m e w"
proof -
  obtain items where "inspect_entries cr m sink 0 {} False [] items = (Ok (), w)"
    using assms(1) by (auto simp: inspect_archive_def split: sum.splits)
  then obtain e where e: "te_path e = Inl (vm_executable_path m)" "te_is_file e" "inspect_member cr m sink [] e = (Ok (), w)"
    unfolding inspect_entries_first by blast
  from inspect_member_Ok [OF e(3)] obtain b where "te_size e = vm_executable_size m" "member_bytes (te_chunks e) = Some b"
    "length b = vm_executable_size m" "digest_sha256 cr b = vm_executable_sha256 m" "w = b"
    using assms(2) by auto
  then show ?thesis using that [of e] e by (simp add: signed_member_def)
qed

lemma last_staging: "last (staging_path env parent name nonce) = Normal (''.'' @ name @ ''.update.'' @ show_nat (ue_pid env) @ ''.'' @ show_nat nonce)"
  by (simp add: staging_path_def)

lemma staging_not_lock: "staging_path env parent name nonce \<noteq> lock_path parent name"
proof
  assume "staging_path env parent name nonce = lock_path parent name"
  then have eq: "show_nat (ue_pid env) @ ''.'' @ show_nat nonce = ''lock''"
    by (simp add: staging_path_def lock_path_def)
  obtain c cs where "show_nat (ue_pid env) = c # cs" by (cases "show_nat (ue_pid env)") auto
  moreover have "is_digit c" using show_nat_digits [of "ue_pid env"] calculation by simp
  ultimately show False using eq by (auto simp: is_digit_def)
qed

lemma not_install:
  assumes "path_parent install = Some parent" and "file_name install = Some name"
  shows "staging_path env parent name nonce \<noteq> install" and "lock_path parent name \<noteq> install"
proof -
  have "install \<noteq> []" "last install = Normal name"
    using assms(2) by (auto simp: file_name_def split: if_splits component.splits)
  then show "staging_path env parent name nonce \<noteq> install" "lock_path parent name \<noteq> install"
    by (auto simp: staging_path_def lock_path_def)
qed

lemma copy_entry_no_panic: "fst (copy_entry n sink acc w ps) \<noteq> Panic"
proof (induction n sink acc w ps rule: copy_entry.induct)
  case (3 n sink acc w piece ps)
  then show ?case by (auto simp: Let_def split: option.split)
qed simp_all

lemma inspect_member_no_panic: "fst (inspect_member cr m sink w e) \<noteq> Panic"
  using copy_entry_no_panic [of "vm_executable_size m" sink "[]" w "te_chunks e"]
  by (cases "copy_entry (vm_executable_size m) sink [] w (te_chunks e)"; cases "fst (copy_entry (vm_executable_size m) sink [] w (te_chunks e))")
    (auto simp: inspect_member_def Let_def)

lemma inspect_entries_no_panic: "fst (inspect_entries cr m sink i seen found w items) \<noteq> Panic"
proof (induction items arbitrary: i seen found w)
  case (Cons item items)
  show ?case
  proof (cases item)
    case (Inl e)
    show ?thesis
    proof (cases "te_path e")
      fix path assume path: "te_path e = Inl path"
      show ?thesis
        using Cons.IH validate_archive_path_cases [of path] inspect_member_no_panic [of cr m sink w e]
        by (cases "inspect_member cr m sink w e"; cases "fst (inspect_member cr m sink w e)")
          (auto simp: Inl path)
    qed (simp add: Inl)
  qed simp
qed simp

lemma inspect_archive_no_panic: "fst (inspect_archive cr os path m sink) \<noteq> Panic"
  by (cases "an_entries os path") (simp_all add: inspect_archive_def inspect_entries_no_panic)

text \<open>What the part that may fail does to the destination.\<close>

lemma stage_and_swap_effect:
  assumes "stage_and_swap cr os env archive m install staged was st = (r, st')"
    and "staged \<noteq> install" and "ue_others env staged = None"
  shows "r \<noteq> Panic \<and>
    (r = Ok () \<longrightarrow> (\<exists>e n. st' install = Some n \<and> un_kind n = RegularFile \<and> un_mode n = 0x1ED \<and>
        signed_member cr m e (un_data n) \<and> st' staged = None)) \<and>
    (r \<noteq> Ok () \<longrightarrow> st' install \<in> {st install, meddle env st install} \<or>
        ue_fault env SyncParent \<noteq> None \<and> (\<exists>e n. st' install = Some n \<and> un_kind n = RegularFile \<and> un_mode n = 0x1ED \<and>
          signed_member cr m e (un_data n))) \<and>
    (\<forall>p. p \<notin> {install, staged} \<longrightarrow> st' p \<in> {st p, meddle env st p})"
proof -
  obtain inspected written where ins: "inspect_archive cr os archive m (Some (ue_write env)) = (inspected, written)" by fastforce
  have no_panic: "inspected \<noteq> Panic"
    using ins inspect_archive_no_panic [of cr os archive m "Some (ue_write env)"] by simp
  let ?file = "\<lambda>mode. \<lparr> un_kind = RegularFile, un_ident = ue_staged_ident env, un_mode = mode, un_data = written \<rparr>"
  show ?thesis
  proof (cases inspected)
    case (Ok u)
    then obtain e where e: "signed_member cr m e written" using inspect_archive_Ok [of cr os archive m _ written] ins by auto
    have meddled: "meddle env (st(staged \<mapsto> x)) staged = Some x" "meddle env (st(staged \<mapsto> x)) p = meddle env st p" if "p \<noteq> staged" for x p
      using assms(3) that by (simp_all add: meddle_def split: option.split)
    show ?thesis
    proof (cases "destination_identity (ue_fault env StatAfter) (meddle env (st(staged \<mapsto> ?file 0x1ED))) install")
      case Panic
      then show ?thesis by (simp add: destination_identity_def split: option.splits if_splits)
    qed (use assms(1,2) ins Ok e meddled [of install] meddled in
        \<open>auto simp: stage_and_swap_def Let_def split: option.splits if_splits\<close>)
  qed (use assms(1,2) ins no_panic in \<open>auto simp: stage_and_swap_def Let_def\<close>)
qed


lemma create_staging_path_Ok:
  assumes "create_staging_path env st parent name = Ok staged"
  obtains nonce where "staged = staging_path env parent name nonce" and "nonce < 128" and "st staged = None"
proof -
  have "List.find (\<lambda>p. st p = None) (map (staging_path env parent name) [0..<128]) = Some staged"
    using assms by (auto simp: create_staging_path_def split: option.splits)
  then have "staged \<in> set (map (staging_path env parent name) [0..<128])" "st staged = None"
    using find_SomeD by fastforce+
  then show ?thesis using that by auto
qed

lemma create_staging_path_no_panic: "create_staging_path env st parent name \<noteq> Panic"
  by (simp add: create_staging_path_def split: option.split)

lemma destination_identity_no_panic: "destination_identity fault st path \<noteq> Panic"
  by (simp add: destination_identity_def split: option.split)

text \<open>The names the updater uses beside the destination: its lock and its staging names.\<close>

definition own_names :: "up_env \<Rightarrow> os_path \<Rightarrow> os_path set" where
  "own_names env install =
     (case (path_parent install, file_name install) of
        (Some parent, Some name) \<Rightarrow> insert (lock_path parent name) (staging_path env parent name ` {..<128})
      | _ \<Rightarrow> {})"

definition installed :: "('v, 'k, 's) crypto \<Rightarrow> 'v verified_manifest \<Rightarrow> up_node option \<Rightarrow> bool" where
  "installed cr m n \<longleftrightarrow>
     (\<exists>e f. n = Some f \<and> un_kind f = RegularFile \<and> un_mode f = 0x1ED \<and> signed_member cr m e (un_data f))"

lemma apply_verified_effect:
  assumes "apply_verified cr os env archive m install st = (r, st')"
    and "\<forall>p \<in> own_names env install. ue_others env p = None"
  shows "r \<noteq> Panic \<and> (r = Ok () \<longrightarrow> installed cr m (st' install)) \<and>
    (r \<noteq> Ok () \<longrightarrow> st' install \<in> {st install, meddle env st install} \<or>
        ue_fault env SyncParent \<noteq> None \<and> installed cr m (st' install)) \<and>
    (\<forall>p. p \<notin> insert install (own_names env install) \<longrightarrow> st' p \<in> {st p, meddle env st p})"
proof (cases "\<exists>parent name dir. path_parent install = Some parent \<and> parent \<noteq> [] \<and> file_name install = Some name \<and>
    ue_fault env StatParent = None \<and> st parent = Some dir \<and> un_kind dir = DirectoryFile \<and> utf8_valid name \<and> ue_fault env OpenLock = None")
  case False
  then show ?thesis using assms(1) by (auto simp: apply_verified_def split: option.splits if_splits)
next
  case True
  then obtain parent name dir where path: "path_parent install = Some parent" "parent \<noteq> []" "file_name install = Some name"
    and start: "ue_fault env StatParent = None" "st parent = Some dir" "un_kind dir = DirectoryFile" "utf8_valid name"
      "ue_fault env OpenLock = None" by blast
  let ?lock = "lock_path parent name"
  define st1 where "st1 = with_lock env ?lock st"
  have lock: "lock_path parent name \<noteq> install" using not_install(2) [OF path(1,3)] .
  have own: "own_names env install = insert (lock_path parent name) (staging_path env parent name ` {..<128})"
    by (simp add: own_names_def path)
  have st1: "st1 p = st p" if "p \<noteq> lock_path parent name" for p using that by (simp add: st1_def with_lock_def)
  have meddle1: "meddle env st1 p = meddle env st p" if "p \<noteq> lock_path parent name" for p
    using that by (simp add: meddle_def st1 split: option.split)
  have run: "apply_locked cr os env archive m install parent name st1 = (r, st')"
    using assms(1) start path by (simp add: apply_verified_def st1_def)
  show ?thesis
  proof (cases "\<exists>was staged. ue_fault env TakeLock = None \<and> destination_identity (ue_fault env StatBefore) st1 install = Ok was \<and>
      create_staging_path env st1 parent name = Ok staged \<and> ue_fault env CreateStaged = None")
    case False
    then have "r \<noteq> Ok () \<and> r \<noteq> Panic \<and> st' = st1"
      using destination_identity_no_panic [of "ue_fault env StatBefore" st1 install]
        create_staging_path_no_panic [of env st1 parent name]
        run by (auto simp: apply_locked_def split: option.splits outcome.splits)
    then show ?thesis using st1 lock by (auto simp: own)
  next
    case True
    then obtain was staged where steps: "ue_fault env TakeLock = None"
      "destination_identity (ue_fault env StatBefore) st1 install = Ok was"
      "create_staging_path env st1 parent name = Ok staged" "ue_fault env CreateStaged = None" by blast
    obtain nonce where staged: "staged = staging_path env parent name nonce" "nonce < 128"
      using create_staging_path_Ok [OF steps(3)] by blast
    have mine: "staged \<in> own_names env install" "staged \<noteq> install" "staged \<noteq> lock_path parent name"
      using staged not_install(1) [OF path(1,3)] staging_not_lock by (auto simp: own)
    obtain result st2 where swap: "stage_and_swap cr os env archive m install staged was st1 = (result, st2)" by fastforce
    have effect: "result \<noteq> Panic \<and>
      (result = Ok () \<longrightarrow> (\<exists>e n. st2 install = Some n \<and> un_kind n = RegularFile \<and> un_mode n = 0x1ED \<and>
        signed_member cr m e (un_data n) \<and> st2 staged = None)) \<and>
      (result \<noteq> Ok () \<longrightarrow> st2 install \<in> {st1 install, meddle env st1 install} \<or>
        ue_fault env SyncParent \<noteq> None \<and> (\<exists>e n. st2 install = Some n \<and> un_kind n = RegularFile \<and> un_mode n = 0x1ED \<and>
          signed_member cr m e (un_data n))) \<and>
      (\<forall>p. p \<notin> {install, staged} \<longrightarrow> st2 p \<in> {st1 p, meddle env st1 p})"
      by (rule stage_and_swap_effect [OF swap mine(2) bspec [OF assms(2) mine(1)]])
    have out: "r = result" "st' = (if is_Ok result \<or> ue_fault env RemoveStaged \<noteq> None then st2 else st2(staged := None))"
      using run by (auto simp: apply_locked_def steps swap)
    have same: "st' p = st2 p" if "p \<noteq> staged" for p using that by (simp add: out)
    have inst: "st' install = st2 install" using same mine(2) by metis
    have outside: "st' p \<in> {st p, meddle env st p}" if "p \<notin> insert install (own_names env install)" for p
    proof -
      have "p \<noteq> staged" "p \<noteq> install" "p \<noteq> lock_path parent name" using that mine(1) by (auto simp: own)
      then show ?thesis using effect same [of p] st1 [of p] meddle1 [of p] by auto
    qed
    show ?thesis
      using effect outside inst st1 [of install] meddle1 [of install] lock
      by (auto simp: out(1) installed_def)
  qed
qed


text \<open>What the check of a bundle establishes.\<close>

definition bundle_verified ::
  "('v, 'k, 's) crypto \<Rightarrow> answers \<Rightarrow> local_update \<Rightarrow> 'v verified_manifest \<Rightarrow> bool" where
  "bundle_verified cr os input m \<longleftrightarrow>
     (\<exists>payload public_key signature.
        read_bounded os (lu_manifest input) (64 * 1024) = Ok payload \<and>
        read_text_bounded os (lu_public_key input) (16 * 1024) = Ok public_key \<and>
        read_text_bounded os (lu_signature input) (64 * 1024) = Ok signature \<and>
        verify cr payload public_key signature = Ok () \<and> parse_manifest cr payload = Ok m \<and>
        vm_target m = lu_expected_target input)"

lemma check_local_Ok: "check_local cr os input = Ok m \<Longrightarrow> bundle_verified cr os input m"
  by (auto simp: check_local_def bundle_verified_def bind_outcome_Ok_iff split: if_splits)

text \<open>C16. What an update installs is what was signed, provided nobody else writes the updater's own lock and
  staging names: when it succeeds, the destination is an executable file whose bytes have the size and
  digest that a manifest pins which verified under the public key and names the expected target, whatever
  the archive became after it was checked; when it reports an error, the destination is as it was or as
  others made it meanwhile, except that an error of the final sync of the directory is reported although
  the signed executable is already in place; either way only the destination, the lock and the staging
  names are touched.\<close>

theorem update_installs_signed:
  assumes "\<forall>p \<in> own_names env install. ue_others env p = None"
  shows "case apply_local cr os os' env input install st of
      (Ok version, st') \<Rightarrow>
        (\<exists>m. bundle_verified cr os input m \<and> version = vm_version m \<and> installed cr m (st' install)) \<and>
        (\<forall>p. p \<in> insert install (own_names env install) \<or> st' p = st p \<or> st' p = meddle env st p)
    | (_, st') \<Rightarrow>
        (st' install = st install \<or> st' install = meddle env st install \<or>
          ue_fault env SyncParent \<noteq> None \<and> (\<exists>m. bundle_verified cr os input m \<and> installed cr m (st' install))) \<and>
        (\<forall>p. p \<in> insert install (own_names env install) \<or> st' p = st p \<or> st' p = meddle env st p)"
proof (cases "check_local cr os input")
  case (Ok m)
  obtain r st' where run: "apply_verified cr os' env (lu_archive input) m install st = (r, st')" by fastforce
  note effect = apply_verified_effect [OF run assms]
  show ?thesis
    using effect check_local_Ok [OF Ok] by (cases r) (auto simp: apply_local_def Ok run)
qed (simp_all add: apply_local_def)


section \<open>A run\<close>

text \<open>A bundle whose checks pass, and its installation beside an older executable.\<close>

definition sample_crypto :: "(unit, unit, unit) crypto" where
  "sample_crypto = \<lparr> key_from_base64 = (\<lambda>_. Inl ()), signature_decode = (\<lambda>_. Inl ()), key_verify = (\<lambda>_ _ _. None),
     semver_parse = (\<lambda>_. Inl ()), semver_show = (\<lambda>_. ''1.0.0''),
     wire_parse = (\<lambda>_. Inl \<lparr> mw_schema = 1, mw_version = ''1.0.0'', mw_target = ''t'', mw_archive = ''a'', mw_archive_size = 1,
       mw_archive_sha256 = replicate 64 (CHR ''0''), mw_executable_path = ''x'', mw_executable_size = 3,
       mw_executable_sha256 = replicate 64 (CHR ''0'') \<rparr>),
     sha256 = (\<lambda>_. replicate 32 0) \<rparr>"

definition sample_manifest :: "unit verified_manifest" where
  "sample_manifest = \<lparr> vm_version = (), vm_target = ''t'', vm_archive = ''a'', vm_archive_size = 1,
     vm_archive_sha256 = replicate 64 (CHR ''0''), vm_executable_path = ''x'', vm_executable_size = 3,
     vm_executable_sha256 = replicate 64 (CHR ''0'') \<rparr>"

definition sample_answers :: answers where
  "sample_answers = \<lparr> an_meta = (\<lambda>_. Inl (RegularFile, 1)), an_bytes = (\<lambda>p n. Inl (if p = [Normal ''k''] then ''RW'' else ''a'')),
     an_entries = (\<lambda>_. Inl [Inl \<lparr> te_path = Inl ''x'', te_is_file = True, te_size = 3, te_chunks = [Inl ''ne'', Inl ''w''] \<rparr>]) \<rparr>"

definition sample_update :: local_update where
  "sample_update = \<lparr> lu_archive = [Normal ''a''], lu_manifest = [Normal ''m''], lu_signature = [Normal ''s''],
     lu_public_key = [Normal ''k''], lu_expected_target = ''t'' \<rparr>"

definition sample_env :: up_env where
  "sample_env = \<lparr> ue_fault = (\<lambda>_. None), ue_write = (\<lambda>_. None), ue_others = (\<lambda>_. None), ue_pid = 7,
     ue_lock_ident = (1, 2), ue_staged_ident = (1, 3) \<rparr>"

definition sample_store :: up_store where
  "sample_store = [[RootDir] \<mapsto> \<lparr> un_kind = DirectoryFile, un_ident = (1, 0), un_mode = 0, un_data = [] \<rparr>,
     [RootDir, Normal ''supra''] \<mapsto> \<lparr> un_kind = RegularFile, un_ident = (1, 1), un_mode = 0x1ED, un_data = ''old'' \<rparr>]"

lemma sample_zeros: "lower_hex (replicate n 0) = replicate (2 * n) (CHR ''0'')"
proof (induction n)
  case (Suc n)
  have "byte_hex 0 = [CHR ''0'', CHR ''0'']" by (simp add: byte_hex_def hex_digit_def) code_simp
  then show ?case using Suc by (simp add: lower_hex_def)
qed (simp add: lower_hex_def)

lemma sample_checks:
  "check_local sample_crypto sample_answers sample_update = Ok sample_manifest"
proof -
  have reads: "read_bounded sample_answers p n = Ok (take (n + 1) (if p = [Normal ''k''] then ''RW'' else ''a''))" if "n \<ge> 2" for p n
    using that by (simp add: read_bounded_def sample_answers_def)
  have texts: "utf8_valid ''RW''" "utf8_valid ''a''" "utf8_valid ''x''" by code_simp+
  have key: "List.find (starts_with ''RW'') (map trim (text_lines ''RW'')) = Some ''RW''" by code_simp
  have names: "validate_filename ''a'' n = Ok ()" "validate_member_path ''x'' = Ok ()" "validate_archive_path ''x'' = Ok ()" for n
    by (simp_all add: validate_filename_def validate_member_path_def validate_archive_path_def) code_simp+
  have digests: "list_all is_lower_hex (replicate 64 (CHR ''0''))" by code_simp
  have target: "list_all is_target_byte ''t''" by code_simp
  have version: "strip_prefix ''v'' ''1.0.0'' = None" by code_simp
  have parsed: "parse_manifest sample_crypto p = Ok sample_manifest" for p
    using names digests target version
    by (simp add: parse_manifest_def sample_crypto_def parse_version_def validate_digest_def MAX_ARCHIVE_BYTES_def
        MAX_EXECUTABLE_BYTES_def sample_manifest_def)
  have signed: "verify sample_crypto p ''RW'' s = Ok ()" for p s
    using key by (simp add: verify_def sample_crypto_def)
  have hashed: "digest_sha256 sample_crypto b = replicate 64 (CHR ''0'')" for b
    using sample_zeros [of 32] by (simp add: digest_sha256_def sample_crypto_def)
  have kind: "an_meta sample_answers p = Inl (RegularFile, 1)" for p by (simp add: sample_answers_def)
  have bound: "verify_file_binding sample_crypto sample_answers [Normal ''a''] 1 (replicate 64 (CHR ''0'')) MAX_ARCHIVE_BYTES
      ArchiveSubject = Ok ()"
    by (simp add: verify_file_binding_def kind hashed reads MAX_ARCHIVE_BYTES_def)
  have archive: "fst (inspect_archive sample_crypto sample_answers [Normal ''a''] sample_manifest None) = Ok ()"
    using texts names
    by (simp add: inspect_archive_def sample_answers_def inspect_member_def hashed MAX_ARCHIVE_ENTRIES_def MAX_EXECUTABLE_BYTES_def Let_def
        sample_manifest_def)
  have name: "regular_filename [Normal ''a''] = Ok ''a''" using texts by (simp add: regular_filename_def file_name_def)
  show ?thesis
    using texts bound archive
    by (simp add: sample_manifest_def check_local_def reads sample_update_def read_text_bounded_def signed parsed name)
qed


lemma update_installs_signed_witness:
  "\<exists>st'. apply_local sample_crypto sample_answers sample_answers sample_env sample_update [RootDir, Normal ''supra''] sample_store =
     (Ok (), st') \<and> (\<exists>f. st' [RootDir, Normal ''supra''] = Some f \<and> un_data f = ''new'') \<and>
     (\<exists>m. bundle_verified sample_crypto sample_answers sample_update m \<and> installed sample_crypto m (st' [RootDir, Normal ''supra'']))"
proof -
  let ?install = "[RootDir, Normal ''supra'']"
  have others: "\<forall>p \<in> own_names sample_env ?install. ue_others sample_env p = None" by (simp add: sample_env_def)
  have texts: "utf8_valid ''x''" "utf8_valid ''supra''" by code_simp+
  have path: "validate_archive_path ''x'' = Ok ()" by (simp add: validate_archive_path_def) code_simp
  have hashed: "digest_sha256 sample_crypto b = replicate 64 (CHR ''0'')" for b
    using sample_zeros [of 32] by (simp add: digest_sha256_def sample_crypto_def)
  have archive: "inspect_archive sample_crypto sample_answers [Normal ''a''] sample_manifest (Some (ue_write sample_env)) = (Ok (), ''new'')"
    using texts path
    by (simp add: inspect_archive_def sample_answers_def sample_env_def inspect_member_def hashed MAX_ARCHIVE_ENTRIES_def
        MAX_EXECUTABLE_BYTES_def Let_def sample_manifest_def)
  have parts: "path_parent ?install = Some [RootDir]" "file_name ?install = Some ''supra''"
    by (simp_all add: path_parent_def file_name_def)
  have free: "with_lock sample_env (lock_path [RootDir] ''supra'') sample_store (staging_path sample_env [RootDir] ''supra'' n) = None" for n
    using staging_not_lock [of sample_env "[RootDir]" "''supra''" n]
    by (simp add: with_lock_def sample_store_def staging_path_def sample_env_def)
  let ?staged = "staging_path sample_env [RootDir] ''supra'' 0"
  have "map (staging_path sample_env [RootDir] ''supra'') [0..<128] = ?staged # map (staging_path sample_env [RootDir] ''supra'') [1..<128]"
    by (simp add: upt_conv_Cons)
  then have create: "create_staging_path sample_env (with_lock sample_env (lock_path [RootDir] ''supra'') sample_store) [RootDir] ''supra'' =
      Ok ?staged"
    using free [of 0] by (simp add: create_staging_path_def del: upt_rec_numeral)
  have lock: "with_lock sample_env (lock_path [RootDir] ''supra'') sample_store ?install = sample_store ?install"
    by (simp add: with_lock_def lock_path_def)
  have meddled: "meddle sample_env s = s" for s by (simp add: meddle_def sample_env_def)
  have fault: "ue_fault sample_env s = None" for s by (simp add: sample_env_def)
  have old: "destination_identity None s ?install = Ok (Some (1, 1))" if "s ?install = sample_store ?install" for s
    using that by (simp add: destination_identity_def sample_store_def)
  have staged: "?staged \<noteq> ?install" using not_install(1) [OF parts] .
  let ?st = "with_lock sample_env (lock_path [RootDir] ''supra'') sample_store"
  obtain st2 where swap: "stage_and_swap sample_crypto sample_answers sample_env [Normal ''a''] sample_manifest ?install ?staged (Some (1, 1)) ?st = (Ok (), st2)"
    and new: "\<exists>f. st2 ?install = Some f \<and> un_data f = ''new''"
    using staged by (simp add: stage_and_swap_def archive fault meddled old lock Let_def)
  have locked: "apply_locked sample_crypto sample_answers sample_env [Normal ''a''] sample_manifest ?install [RootDir] ''supra'' ?st = (Ok (), st2)"
    by (simp add: apply_locked_def fault old lock create swap del: One_nat_def)
  have root: "sample_store [RootDir] = Some \<lparr> un_kind = DirectoryFile, un_ident = (1, 0), un_mode = 0, un_data = [] \<rparr>"
    by (simp add: sample_store_def)
  have applied: "apply_verified sample_crypto sample_answers sample_env [Normal ''a''] sample_manifest ?install sample_store = (Ok (), st2)"
    using texts(2) by (simp add: apply_verified_def parts fault root locked del: utf8_valid.simps)
  have "apply_local sample_crypto sample_answers sample_answers sample_env sample_update ?install sample_store = (Ok (), st2)"
    using sample_checks applied by (simp add: apply_local_def sample_update_def)
  then show ?thesis
    using update_installs_signed [OF others, where cr = sample_crypto and os = sample_answers and os' = sample_answers and
        input = sample_update and st = sample_store] new by simp
qed

end
