(* ===== verification/Parse_Tree.thy ===== *)
theory Parse_Tree
  imports Digest Utf8
begin

text \<open>
  Parsing of source files (\<open>crates/supra_digest/src/parse.rs\<close>): from a syntax tree to the symbols it
  declares. Tree-sitter is a parameter, the tree that a grammar yields for some bytes; what the
  code does with a tree is modelled: the search for error nodes, the harvest and its stack, the
  names of declarations and the targets of \<open>impl\<close> blocks.
\<close>

section \<open>Syntax trees\<close>

text \<open>
  A node: its kind, whether the parser inserted it, its bytes, its row, the child that is its field
  \<open>name\<close>, and its children.
\<close>

datatype syn =
  Node (nd_kind: string) (nd_missing: bool) (nd_start: nat) (nd_end: nat) (nd_row: nat) (nd_name: "nat option")
    (nd_kids: "syn list")

text \<open>\<open>utf8_text\<close>; a tree's ranges lie within the text it was parsed from.\<close>

definition utf8_text :: "string \<Rightarrow> syn \<Rightarrow> string option" where
  "utf8_text source n =
     (let s = take (nd_end n - nd_start n) (drop (nd_start n) source) in if utf8_valid s then Some s else None)"

definition name_field :: "syn \<Rightarrow> syn option" where
  "name_field n = (case nd_name n of Some i \<Rightarrow> if i < length (nd_kids n) then Some (nd_kids n ! i) else None | None \<Rightarrow> None)"

fun has_error :: "syn \<Rightarrow> bool" where
  "has_error (Node k m _ _ _ _ cs) \<longleftrightarrow> k = ''ERROR'' \<or> m \<or> list_ex has_error cs"

datatype grammar = Grammar language | Tsx
datatype parsed = NoGrammar | NoTree | Tree syn

type_synonym grammars = "grammar \<Rightarrow> string \<Rightarrow> parsed"

section \<open>Declarations and their names\<close>

fun declaration_kind :: "language \<Rightarrow> string \<Rightarrow> symbol_kind option" where
  "declaration_kind Rust kind =
     (if kind = ''function_item'' then Some Function
      else if kind \<in> {''struct_item'', ''enum_item'', ''trait_item'', ''union_item''} then Some Type_Symbol
      else if kind = ''mod_item'' then Some Module_Symbol
      else if kind \<in> {''const_item'', ''static_item'', ''type_item''} then Some Constant
      else if kind = ''use_declaration'' then Some Import else None)"
| "declaration_kind Python kind =
     (if kind = ''function_definition'' then Some Function
      else if kind = ''class_definition'' then Some Type_Symbol
      else if kind \<in> {''import_statement'', ''import_from_statement''} then Some Import else None)"
| "declaration_kind Go kind =
     (if kind \<in> {''function_declaration'', ''method_declaration''} then Some Function
      else if kind = ''type_declaration'' then Some Type_Symbol
      else if kind = ''import_declaration'' then Some Import else None)"
| "declaration_kind l kind =
     (if l = TypeScript \<or> l = JavaScript then
        (if kind \<in> {''function_declaration'', ''method_definition'', ''arrow_function''} then Some Function
         else if kind \<in> {''class_declaration'', ''interface_declaration'', ''type_alias_declaration'', ''enum_declaration''}
         then Some Type_Symbol
         else if kind \<in> {''import_statement'', ''export_statement''} then Some Import else None)
      else
        (if kind \<in> {''function_definition'', ''function_declarator''} then Some Function
         else if kind \<in> {''struct_specifier'', ''enum_specifier'', ''class_specifier'', ''union_specifier''} then Some Type_Symbol
         else if kind = ''namespace_definition'' then Some Module_Symbol
         else if kind = ''type_definition'' then Some Constant
         else if kind = ''preproc_include'' then Some Import else None))"

definition non_empty :: "string option \<Rightarrow> string option" where
  "non_empty t = (case t of Some s \<Rightarrow> if s = [] then None else Some s | None \<Rightarrow> None)"

text \<open>The first child of some kinds, then its text, then the test that it is not empty.\<close>

definition first_text :: "string list \<Rightarrow> string \<Rightarrow> syn \<Rightarrow> string option" where
  "first_text kinds source n =
     non_empty (Option.bind (List.find (\<lambda>c. nd_kind c \<in> set kinds) (nd_kids n)) (utf8_text source))"

definition impl_target :: "string \<Rightarrow> syn \<Rightarrow> string option" where
  "impl_target = first_text [''type_identifier'', ''generic_type'']"

definition ends_with :: "string \<Rightarrow> string \<Rightarrow> bool" where
  "ends_with suffix s \<longleftrightarrow> length suffix \<le> length s \<and> drop (length s - length suffix) s = suffix"

text \<open>In a declarator the first identifier whose text is not empty.\<close>

fun declarator_text :: "string \<Rightarrow> syn list \<Rightarrow> string option" where
  "declarator_text source [] = None"
| "declarator_text source (c # cs) =
     (case if nd_kind c = ''identifier'' then non_empty (utf8_text source c) else None of
        Some t \<Rightarrow> Some t | None \<Rightarrow> declarator_text source cs)"

definition NAME_KINDS :: "string list" where
  "NAME_KINDS = [''identifier'', ''type_identifier'', ''property_identifier'']"

definition node_name :: "string \<Rightarrow> syn \<Rightarrow> string option" where
  "node_name source n =
     (case non_empty (Option.bind (name_field n) (utf8_text source)) of
        Some t \<Rightarrow> Some t
      | None \<Rightarrow>
          if nd_kind n = ''impl_item'' then impl_target source n
          else (case if ends_with ''declarator'' (nd_kind n) then declarator_text source (nd_kids n) else None of
                  Some t \<Rightarrow> Some t
                | None \<Rightarrow> first_text NAME_KINDS source n))"

section \<open>The harvest\<close>

definition node_symbol :: "file_path \<Rightarrow> language \<Rightarrow> string option \<Rightarrow> symbol_kind \<Rightarrow> string \<Rightarrow> syn \<Rightarrow> symbol" where
  "node_symbol path l parent kind name n =
     \<lparr>sy_path = path, sy_language = l, sy_kind = kind, sy_name = name, sy_parent = parent,
      sy_start = nd_start n, sy_end = nd_end n, sy_line = min u32_max (min u32_max (nd_row n) + 1)\<rparr>"

text \<open>
  What one node adds to the symbols, and the parent of its children: the target of an \<open>impl\<close> block
  of Rust; below a declaration the name of the symbol pushed last, whichever that is.
\<close>

definition visit_node ::
    "file_path \<Rightarrow> language \<Rightarrow> string \<Rightarrow> syn \<Rightarrow> string option \<Rightarrow> symbol list \<Rightarrow> symbol list \<times> string option" where
  "visit_node path l source n parent symbols =
     (if nd_kind n = ''impl_item'' \<and> l = Rust
      then (symbols, case impl_target source n of Some t \<Rightarrow> Some t | None \<Rightarrow> parent)
      else (case declaration_kind l (nd_kind n) of
              None \<Rightarrow> (symbols, parent)
            | Some kind \<Rightarrow>
                let name = (case node_name source n of Some t \<Rightarrow> t | None \<Rightarrow> []);
                    symbols = (if name = [] then symbols else symbols @ [node_symbol path l parent kind name n])
                in (symbols, if symbols = [] then parent else Some (sy_name (last symbols)))))"

fun syn_size :: "syn \<Rightarrow> nat" where
  "syn_size (Node _ _ _ _ _ _ cs) = Suc (sum_list (map syn_size cs))"

function harvest_loop ::
    "file_path \<Rightarrow> language \<Rightarrow> string \<Rightarrow> (syn \<times> string option) list \<Rightarrow> symbol list \<Rightarrow> symbol list" where
  "harvest_loop path l source [] symbols = symbols"
| "harvest_loop path l source ((n, parent) # stack) symbols =
     (let (symbols, below) = visit_node path l source n parent symbols
      in harvest_loop path l source (map (\<lambda>c. (c, below)) (nd_kids n) @ stack) symbols)"
  by pat_completeness auto
termination
proof (relation "measure (\<lambda>(path, l, source, stack, symbols). sum_list (map (syn_size \<circ> fst) stack))")
  fix path l source n parent stack symbols x xa y
  show "((path, l, source, map (\<lambda>c. (c, y)) (nd_kids n) @ stack, xa), path, l, source, (n, parent) # stack, symbols)
      \<in> measure (\<lambda>(path, l, source, stack, symbols). sum_list (map (syn_size \<circ> fst) stack))"
    by (cases n) (simp add: comp_def)
qed simp

text \<open>All symbols are of one file, so the order is that of their first bytes, ties as they were pushed.\<close>

definition harvest :: "file_path \<Rightarrow> language \<Rightarrow> syn \<Rightarrow> string \<Rightarrow> symbol list" where
  "harvest path l root source = sort_key sy_start (harvest_loop path l source [(root, None)] [])"

datatype parse_outcome = Clean "symbol list" | HasErrors file_path
datatype parse_error = Unsupported_Language file_path "string option" | Unreadable_Source file_path string

definition path_extension :: "file_path \<Rightarrow> string option" where
  "path_extension path = (if path = [] then None else extension_of (last path))"

definition parse_file :: "grammars \<Rightarrow> file_path \<Rightarrow> string \<Rightarrow> (parse_outcome, parse_error) outcome" where
  "parse_file gs path source =
     (case detect path of
        None \<Rightarrow> Err (Unsupported_Language path (path_extension path))
      | Some l \<Rightarrow>
          (case gs (if path_extension path = Some ''tsx'' then Tsx else Grammar l) source of
             NoGrammar \<Rightarrow> Err (Unreadable_Source path ''the grammar failed to load'')
           | NoTree \<Rightarrow> Err (Unreadable_Source path ''the parser returned no tree'')
           | Tree root \<Rightarrow> if has_error root then Ok (HasErrors path) else Ok (Clean (harvest path l root source))))"

text \<open>The parser that the index is given.\<close>

definition file_parser :: "grammars \<Rightarrow> parser" where
  "file_parser gs path source = (case parse_file gs path source of Ok (Clean symbols) \<Rightarrow> Some symbols | _ \<Rightarrow> None)"

section \<open>The harvest is the nesting of the tree\<close>

fun nodes :: "syn \<Rightarrow> syn list" where
  "nodes (Node k m a b r i cs) = Node k m a b r i cs # concat (map nodes cs)"

lemma nodes_unfold: "nodes n = n # concat (map nodes (nd_kids n))"
  by (cases n) simp

fun all_nodes :: "(syn \<Rightarrow> bool) \<Rightarrow> syn \<Rightarrow> bool" where
  "all_nodes P (Node k m a b r i cs) \<longleftrightarrow> P (Node k m a b r i cs) \<and> list_all (all_nodes P) cs"

lemma all_nodes_unfold: "all_nodes P n \<longleftrightarrow> P n \<and> (\<forall>c \<in> set (nd_kids n). all_nodes P c)"
  by (cases n) (simp add: list_all_iff)

text \<open>
  The reference for what is declared: the nodes of a tree, in the order of a reader, that are
  declarations and have a name.
\<close>

definition declares :: "language \<Rightarrow> string \<Rightarrow> syn \<Rightarrow> bool" where
  "declares l source n \<longleftrightarrow> declaration_kind l (nd_kind n) \<noteq> None \<and> (\<exists>t. node_name source n = Some t \<and> t \<noteq> [])"

definition symbol_at :: "file_path \<Rightarrow> language \<Rightarrow> string \<Rightarrow> string option \<Rightarrow> syn \<Rightarrow> symbol" where
  "symbol_at path l source parent n =
     node_symbol path l parent (the (declaration_kind l (nd_kind n))) (the (node_name source n)) n"

text \<open>
  The reference for where: a declaration is below the closest declaration around it, the contents of
  an \<open>impl\<close> block are below its target.
\<close>

definition below :: "language \<Rightarrow> string \<Rightarrow> string option \<Rightarrow> syn \<Rightarrow> string option" where
  "below l source parent n =
     (if nd_kind n = ''impl_item'' \<and> l = Rust
      then (case impl_target source n of Some t \<Rightarrow> Some t | None \<Rightarrow> parent)
      else if declaration_kind l (nd_kind n) = None then parent else node_name source n)"

fun nesting :: "file_path \<Rightarrow> language \<Rightarrow> string \<Rightarrow> string option \<Rightarrow> syn \<Rightarrow> symbol list" where
  "nesting path l source parent (Node k m a b r i cs) =
     (if declares l source (Node k m a b r i cs) then [symbol_at path l source parent (Node k m a b r i cs)] else []) @
     concat (map (nesting path l source (below l source parent (Node k m a b r i cs))) cs)"

text \<open>A declaration without a name holds no declaration, as the imports of most languages.\<close>

definition nameless_is_flat :: "language \<Rightarrow> string \<Rightarrow> syn \<Rightarrow> bool" where
  "nameless_is_flat l source n \<longleftrightarrow>
     declaration_kind l (nd_kind n) = None \<or> declares l source n \<or> \<not> list_ex (declares l source) (nodes n)"

lemma nesting_unfold:
  "nesting path l source parent n =
     (if declares l source n then [symbol_at path l source parent n] else []) @
     concat (map (nesting path l source (below l source parent n)) (nd_kids n))"
  by (cases n) simp

lemma visit_pushes:
  "fst (visit_node path l source n parent symbols) =
     symbols @ (if declares l source n then [symbol_at path l source parent n] else [])"
  by (auto simp: visit_node_def declares_def symbol_at_def Let_def split: option.splits)

text \<open>The symbols, whatever their parents.\<close>

lemma core_symbol: "(symbol_at path l source parent n)\<lparr>sy_parent := None\<rparr> = symbol_at path l source None n"
  by (simp add: symbol_at_def node_symbol_def)

lemma harvest_loop_declares:
  "map (\<lambda>s. s\<lparr>sy_parent := None\<rparr>) (harvest_loop path l source stack symbols) =
     map (\<lambda>s. s\<lparr>sy_parent := None\<rparr>) symbols @
     map (symbol_at path l source None) (filter (declares l source) (concat (map (nodes \<circ> fst) stack)))"
proof (induction path l source stack symbols rule: harvest_loop.induct)
  case (2 path l source n parent stack symbols)
  obtain symbols' under where v: "visit_node path l source n parent symbols = (symbols', under)" by fastforce
  then have "symbols' = symbols @ (if declares l source n then [symbol_at path l source parent n] else [])"
    using visit_pushes [of path l source n parent symbols] by simp
  then show ?case
    using "2.IH" [OF v [symmetric] refl] by (simp add: v core_symbol nodes_unfold [of n] comp_def)
qed simp

text \<open>Their parents.\<close>

lemma flat_nesting: "\<not> list_ex (declares l source) (nodes n) \<Longrightarrow> nesting path l source parent n = []"
proof (induction "syn_size n" arbitrary: n parent rule: less_induct)
  case less
  have "nesting path l source p c = []" if "c \<in> set (nd_kids n)" for c p
  proof (rule less.hyps)
    show "syn_size c < syn_size n" using that
      by (cases n) (auto simp: less_Suc_eq_le intro: member_le_sum_list)
    show "\<not> list_ex (declares l source) (nodes c)" using less.prems that by (force simp: nodes_unfold [of n] list_ex_iff)
  qed
  moreover have "\<not> declares l source n" using less.prems by (simp add: nodes_unfold [of n])
  ultimately show ?case by (simp add: nesting_unfold [of _ _ _ _ n])
qed

lemma visit_below:
  assumes "declaration_kind l (nd_kind n) = None \<or> declares l source n"
  shows "snd (visit_node path l source n parent symbols) = below l source parent n"
  using assms by (auto simp: visit_node_def declares_def below_def node_symbol_def Let_def split: option.splits)

lemma harvest_loop_nesting:
  "\<forall>(n, parent) \<in> set stack. all_nodes (nameless_is_flat l source) n \<Longrightarrow>
     harvest_loop path l source stack symbols =
     symbols @ concat (map (\<lambda>(n, parent). nesting path l source parent n) stack)"
proof (induction path l source stack symbols rule: harvest_loop.induct)
  case (2 path l source n parent stack symbols)
  obtain symbols' under where v: "visit_node path l source n parent symbols = (symbols', under)" by fastforce
  have n: "nameless_is_flat l source n" "\<forall>c \<in> set (nd_kids n). all_nodes (nameless_is_flat l source) c"
    using "2.prems" by (auto simp: all_nodes_unfold [of _ n])
  have pushed: "symbols' = symbols @ (if declares l source n then [symbol_at path l source parent n] else [])"
    using visit_pushes [of path l source n parent symbols] v by simp
  have kids: "concat (map (nesting path l source under) (nd_kids n)) =
      concat (map (nesting path l source (below l source parent n)) (nd_kids n))"
  proof (cases "declaration_kind l (nd_kind n) = None \<or> declares l source n")
    case True
    then show ?thesis using visit_below [OF True, of path parent symbols] v by simp
  next
    case False
    then have "\<forall>c \<in> set (nd_kids n). \<not> list_ex (declares l source) (nodes c)"
      using n(1) by (force simp: nameless_is_flat_def nodes_unfold [of n] list_ex_iff)
    then have "\<forall>c \<in> set (nd_kids n). nesting path l source p c = []" for p by (blast intro: flat_nesting)
    then show ?thesis by (simp cong: map_cong)
  qed
  have "harvest_loop path l source (map (\<lambda>c. (c, under)) (nd_kids n) @ stack) symbols' =
    symbols' @ concat (map (\<lambda>(n, parent). nesting path l source parent n) (map (\<lambda>c. (c, under)) (nd_kids n) @ stack))"
    using n "2.prems" by (intro "2.IH" [OF v [symmetric] refl]) auto
  then show ?case by (simp add: v pushed nesting_unfold [of _ _ _ _ n] comp_def kids)
qed simp

lemma insort_key_map: "insort_key f (g x) (map g xs) = map g (insort_key (\<lambda>x. f (g x)) x xs)"
  by (induction xs) auto

lemma sort_key_map: "sort_key f (map g xs) = map g (sort_key (\<lambda>x. f (g x)) xs)"
  by (induction xs) (simp_all add: insort_key_map)


definition leaf :: "string \<Rightarrow> nat \<Rightarrow> nat \<Rightarrow> syn" where "leaf kind a b = Node kind False a b 0 None []"

text \<open>\<open>use x;struct S;impl S{fn f(){}}\<close>\<close>

definition test_source :: string where "test_source = ''use x;struct S;impl S{fn f(){}}''"

definition test_struct :: syn where
  "test_struct = Node ''struct_item'' False 6 15 0 (Some 0) [leaf ''type_identifier'' 13 14]"

definition test_fn :: syn where
  "test_fn = Node ''function_item'' False 22 30 0 (Some 0) [leaf ''identifier'' 25 26, leaf ''block'' 28 30]"

definition test_root :: syn where
  "test_root = Node ''source_file'' False 0 31 0 None
     [Node ''use_declaration'' False 0 6 0 None [leaf ''scoped_identifier'' 4 5],
      test_struct,
      Node ''impl_item'' False 15 31 0 None
        [leaf ''type_identifier'' 20 21, Node ''declaration_list'' False 21 31 0 None [test_fn]]]"

lemma ascii_valid: "utf8_valid ''S''" "utf8_valid ''f''" "utf8_valid ''C''"
  by (simp_all add: utf8_need_def utf8_tail_def code_def)


text \<open>
  Without names of their own, the harvest nests below whatever was pushed last: the exported class
  of a TypeScript file lies below the exported function in front of it.
\<close>

lemma export_nests_below_sibling:
  "map (\<lambda>s. (sy_name s, sy_parent s)) (harvest [''a.ts''] TypeScript
     (Node ''program'' False 0 10 0 None
        [Node ''export_statement'' False 0 4 0 None [Node ''function_declaration'' False 0 4 0 (Some 0) [leaf ''identifier'' 0 1]],
         Node ''export_statement'' False 5 9 0 None [Node ''class_declaration'' False 5 9 0 (Some 0) [leaf ''type_identifier'' 5 6]]])
     ''f....C....'') = [(''f'', None), (''C'', Some ''f'')]"
  by (simp add: harvest_def visit_node_def node_name_def name_field_def utf8_text_def leaf_def ascii_valid
      non_empty_def first_text_def node_symbol_def NAME_KINDS_def ends_with_def Let_def del: utf8_valid.simps)

end
