(* ===== verification/Ast.thy ===== *)
theory Ast
  imports Parse_Tree
begin

text \<open>
  \<open>crates/supra_ast\<close>: structural edits. \<open>splice.rs\<close> replaces one node and parses again, \<open>query.rs\<close>
  renders the outline of a file and finds the references to a name, \<open>rename.rs\<close> rewrites them all
  or none. Trees come from the grammars, a parameter; the import graph is \<open>Digest_Graph\<close>'s.
\<close>

section \<open>Replacing a node\<close>

datatype ast_error =
    UnsupportedFile file_path "string option"
  | RangeIsNotANode file_path nat nat
  | SourceHasErrors file_path string
  | GateRefused file_path string
  | WouldShadow file_path string string string
  | NothingToRename file_path string

lemma kid_smaller: "c \<in> set (nd_kids n) \<Longrightarrow> syn_size c < syn_size n"
proof (cases n)
  case (Node k m a b r i cs)
  assume "c \<in> set (nd_kids n)"
  then have "syn_size c \<in> set (map syn_size cs)" by (simp add: Node)
  then have "syn_size c \<le> sum_list (map syn_size cs)" by (rule member_le_sum_list) simp
  then show ?thesis by (simp add: Node)
qed

text \<open>
  Down from the root, as long as one child alone holds the range, to the first node whose range it is.
\<close>

definition holding :: "nat \<Rightarrow> nat \<Rightarrow> syn \<Rightarrow> syn list" where
  "holding a b n = filter (\<lambda>c. nd_start c \<le> a \<and> b \<le> nd_end c) (nd_kids n)"

function find_exact :: "syn \<Rightarrow> nat \<Rightarrow> nat \<Rightarrow> syn option" where
  "find_exact n a b =
     (if a = b then None
      else if nd_start n = a \<and> nd_end n = b then Some n
      else (case holding a b n of [c] \<Rightarrow> find_exact c a b | _ \<Rightarrow> None))"
  by pat_completeness auto
termination
proof (relation "measure (\<lambda>(n, _, _). syn_size n)")
  fix n a b c x
  assume "holding a b n = x # c" "c = []"
  then have "x \<in> set (holding a b n)" by simp
  then have "x \<in> set (nd_kids n)" by (simp add: holding_def)
  then show "((x, a, b), n, a, b) \<in> measure (\<lambda>(n, _, _). syn_size n)" by (simp add: kid_smaller)
qed simp

declare find_exact.simps [simp del]

definition parse_clean :: "grammars \<Rightarrow> file_path \<Rightarrow> string \<Rightarrow> language \<Rightarrow> (syn, ast_error) outcome" where
  "parse_clean gs path source l =
     (case gs (Grammar l) source of
        NoGrammar \<Rightarrow> Err (SourceHasErrors path ''the grammar failed to load'')
      | NoTree \<Rightarrow> Err (SourceHasErrors path ''the parser returned no tree'')
      | Tree root \<Rightarrow> Ok root)"

definition to_gate :: "ast_error \<Rightarrow> ast_error" where
  "to_gate e = (case e of SourceHasErrors path detail \<Rightarrow> GateRefused path detail | _ \<Rightarrow> e)"

definition spliced :: "string \<Rightarrow> nat \<Rightarrow> nat \<Rightarrow> string \<Rightarrow> string" where
  "spliced source a b replacement = take a source @ replacement @ drop b source"

definition kind_changed :: "string \<Rightarrow> string \<Rightarrow> string" where
  "kind_changed k k' =
     ''node kind changed from '' @ k @ '' to '' @ k' @ ''; cross-kind replacement is delete plus insert, not a splice''"

text \<open>The kind of the node in the source, and the gate on the result.\<close>

definition node_kind_at :: "grammars \<Rightarrow> file_path \<Rightarrow> language \<Rightarrow> string \<Rightarrow> nat \<Rightarrow> nat \<Rightarrow> (string, ast_error) outcome" where
  "node_kind_at gs path l source a b =
     bind_outcome (parse_clean gs path source l) (\<lambda>root.
       case find_exact root a b of
         None \<Rightarrow> Err (RangeIsNotANode path a b)
       | Some n \<Rightarrow>
           if has_error root then Err (SourceHasErrors path ''the source contains error nodes'') else Ok (nd_kind n))"

definition reparse_gate ::
    "grammars \<Rightarrow> file_path \<Rightarrow> language \<Rightarrow> string \<Rightarrow> string \<Rightarrow> nat \<Rightarrow> nat \<Rightarrow> (unit, ast_error) outcome" where
  "reparse_gate gs path l result kind a b =
     bind_outcome (map_err to_gate (parse_clean gs path result l)) (\<lambda>root.
       if has_error root then Err (GateRefused path ''the spliced result contains error nodes'')
       else (case find_exact root a b of
               None \<Rightarrow> Err (GateRefused path (''bytes '' @ show_nat a @ ''..'' @ show_nat b @
                         '' address no single node after the splice''))
             | Some n \<Rightarrow> if nd_kind n \<noteq> kind then Err (GateRefused path (kind_changed kind (nd_kind n))) else Ok ()))"

definition replace_node ::
    "grammars \<Rightarrow> file_path \<Rightarrow> string \<Rightarrow> nat \<Rightarrow> nat \<Rightarrow> string \<Rightarrow> (string, ast_error) outcome" where
  "replace_node gs path source a b replacement =
     (case detect path of
        None \<Rightarrow> Err (UnsupportedFile path (path_extension path))
      | Some l \<Rightarrow>
          if b \<le> a \<or> length source < b then Err (RangeIsNotANode path a b)
          else bind_outcome (node_kind_at gs path l source a b) (\<lambda>kind.
            let result = spliced source a b replacement in
            bind_outcome (reparse_gate gs path l result kind a (a + length replacement)) (\<lambda>_. Ok result)))"

section \<open>The outline\<close>

record outline_entry =
  oe_symbol :: symbol
  oe_depth :: nat

text \<open>The least depth of another symbol with a name.\<close>

definition best_parent :: "symbol list \<Rightarrow> nat list \<Rightarrow> nat \<Rightarrow> string \<Rightarrow> nat option" where
  "best_parent ss ds i parent =
     fold (\<lambda>(j, s) best. if j \<noteq> i \<and> sy_name s = parent
                         then Some (case best of None \<Rightarrow> ds ! j | Some d \<Rightarrow> min d (ds ! j)) else best)
       (enumerate 0 ss) None"

definition relax :: "symbol list \<Rightarrow> nat \<Rightarrow> nat list \<times> bool \<Rightarrow> nat list \<times> bool" where
  "relax ss i st =
     (case sy_parent (ss ! i) of
        None \<Rightarrow> st
      | Some parent \<Rightarrow>
          (case best_parent ss (fst st) i parent of
             None \<Rightarrow> st
           | Some d \<Rightarrow> if fst st ! i < d + 1 then ((fst st)[i := d + 1], True) else st))"

text \<open>The loop runs until a pass changes nothing; \<open>None\<close> is a loop that never ends.\<close>

partial_function (option) settle :: "symbol list \<Rightarrow> nat list \<Rightarrow> nat list option" where
  "settle ss ds =
     (if snd (fold (relax ss) [0..<length ss] (ds, False))
      then settle ss (fst (fold (relax ss) [0..<length ss] (ds, False)))
      else Some (fst (fold (relax ss) [0..<length ss] (ds, False))))"

definition outline_error :: "parse_error \<Rightarrow> ast_error" where
  "outline_error e =
     (case e of Unsupported_Language path extension \<Rightarrow> UnsupportedFile path extension
      | Unreadable_Source path detail \<Rightarrow> SourceHasErrors path (''could not read '' @ path_display path @ '': '' @ detail))"

definition outline :: "grammars \<Rightarrow> file_path \<Rightarrow> string \<Rightarrow> (outline_entry list, ast_error) outcome option" where
  "outline gs path source =
     (case parse_file gs path source of
        Ok (Clean symbols) \<Rightarrow>
          (case settle symbols (replicate (length symbols) 0) of
             None \<Rightarrow> None
           | Some ds \<Rightarrow> Some (Ok (map2 (\<lambda>s d. \<lparr>oe_symbol = s, oe_depth = d\<rparr>) symbols ds)))
      | Ok (HasErrors _) \<Rightarrow> Some (Err (SourceHasErrors path ''the source contains error nodes''))
      | Err e \<Rightarrow> Some (Err (outline_error e))
      | Panic \<Rightarrow> Some Panic)"

section \<open>References\<close>

record ref_file =
  rf_file :: file_path
  rf_occurrences :: "nat list"
  rf_semantic :: bool

definition mentions :: "string \<Rightarrow> string \<Rightarrow> syn \<Rightarrow> bool" where
  "mentions source name n \<longleftrightarrow> nd_kind n \<in> set NAME_KINDS \<and> utf8_text source n = Some name"

text \<open>The stack of the walk, its top first.\<close>

function walk_nodes :: "string \<Rightarrow> string \<Rightarrow> syn list \<Rightarrow> nat list \<Rightarrow> nat list" where
  "walk_nodes source name [] found = found"
| "walk_nodes source name (n # stack) found =
     walk_nodes source name (rev (nd_kids n) @ stack) (if mentions source name n then found @ [nd_start n] else found)"
  by pat_completeness auto
termination
proof (relation "measure (\<lambda>(_, _, stack, _). sum_list (map syn_size stack))")
  fix source name n stack and found :: "nat list"
  show "((source, name, rev (nd_kids n) @ stack, if mentions source name n then found @ [nd_start n] else found),
      source, name, n # stack, found) \<in> measure (\<lambda>(_, _, stack, _). sum_list (map syn_size stack))"
    by (cases n) (simp add: rev_map [symmetric] sum_list_rev)
qed simp

definition reachable_from :: "dependency_graph \<Rightarrow> file_path \<Rightarrow> file_path \<Rightarrow> bool" where
  "reachable_from graph defining path \<longleftrightarrow> path = defining \<or> path \<in> set (dependents graph defining)"

definition file_references ::
    "grammars \<Rightarrow> string \<Rightarrow> file_path \<Rightarrow> dependency_graph \<Rightarrow> file_path \<times> string \<Rightarrow> ref_file list" where
  "file_references gs name defining graph candidate =
     (let (path, source) = candidate in
      if \<not> reachable_from graph defining path then []
      else (case detect path of
              None \<Rightarrow> []
            | Some l \<Rightarrow>
                (case gs (Grammar l) source of
                   Tree root \<Rightarrow>
                     let found = walk_nodes source name [root] [] in
                     if found = [] then []
                     else [\<lparr>rf_file = path, rf_occurrences = sort found, rf_semantic = False\<rparr>]
                 | _ \<Rightarrow> [])))"

definition query_references ::
    "grammars \<Rightarrow> string \<Rightarrow> file_path \<Rightarrow> dependency_graph \<Rightarrow> (file_path \<times> string) list \<Rightarrow> ref_file list" where
  "query_references gs name defining graph candidates =
     sort_key rf_file (concat (map (file_references gs name defining graph) candidates))"

section \<open>Renaming\<close>

record renamed_file =
  rn_file :: file_path
  rn_bytes :: string
  rn_rewritten :: nat

record rename_outcome =
  ro_files :: "renamed_file list"
  ro_semantic :: bool

text \<open>Files whose outline never settles hold the whole rename up.\<close>

fun shadow_check ::
    "grammars \<Rightarrow> string \<Rightarrow> string \<Rightarrow> (file_path, string) btree \<Rightarrow> ref_file list \<Rightarrow> (unit, ast_error) outcome option" where
  "shadow_check gs old new candidates [] = Some (Ok ())"
| "shadow_check gs old new candidates (r # rs) =
     (case map_of candidates (rf_file r) of
        None \<Rightarrow> shadow_check gs old new candidates rs
      | Some source \<Rightarrow>
          (case outline gs (rf_file r) source of
             None \<Rightarrow> None
           | Some (Ok entries) \<Rightarrow>
               (case List.find (\<lambda>e. sy_name (oe_symbol e) = new) entries of
                  Some e \<Rightarrow> Some (Err (WouldShadow (rf_file r) old new (sy_name (oe_symbol e))))
                | None \<Rightarrow> shadow_check gs old new candidates rs)
           | Some (Err _) \<Rightarrow>
               Some (Err (GateRefused (rf_file r) ''the file does not parse cleanly; refusing to rename within guesses''))
           | Some Panic \<Rightarrow> Some Panic))"

fun splice_each ::
    "grammars \<Rightarrow> file_path \<Rightarrow> string \<Rightarrow> string \<Rightarrow> nat list \<Rightarrow> string \<Rightarrow> (string, ast_error) outcome" where
  "splice_each gs path old new [] bytes = Ok bytes"
| "splice_each gs path old new (offset # offsets) bytes =
     bind_outcome (replace_node gs path bytes offset (offset + length old) new) (splice_each gs path old new offsets)"

fun rename_files ::
    "grammars \<Rightarrow> string \<Rightarrow> string \<Rightarrow> (file_path, string) btree \<Rightarrow> ref_file list \<Rightarrow> (renamed_file list, ast_error) outcome" where
  "rename_files gs old new candidates [] = Ok []"
| "rename_files gs old new candidates (r # rs) =
     (case map_of candidates (rf_file r) of
        None \<Rightarrow> rename_files gs old new candidates rs
      | Some source \<Rightarrow>
          let offsets = rev (sort (rf_occurrences r)) in
          bind_outcome (splice_each gs (rf_file r) old new offsets source) (\<lambda>bytes.
          bind_outcome (rename_files gs old new candidates rs) (\<lambda>files.
            Ok (\<lparr>rn_file = rf_file r, rn_bytes = bytes, rn_rewritten = length offsets\<rparr> # files))))"

definition rename ::
    "grammars \<Rightarrow> string \<Rightarrow> string \<Rightarrow> file_path \<Rightarrow> dependency_graph \<Rightarrow> (file_path, string) btree \<Rightarrow>
     (rename_outcome, ast_error) outcome option" where
  "rename gs old new defining graph candidates =
     (if old = [] \<or> new = [] \<or> old = new then Some (Err (NothingToRename defining old))
      else
        let references = query_references gs old defining graph candidates in
        if references = [] then Some (Err (NothingToRename defining old))
        else (case shadow_check gs old new candidates references of
                None \<Rightarrow> None
              | Some (Ok _) \<Rightarrow>
                  Some (bind_outcome (rename_files gs old new candidates references) (\<lambda>files.
                    Ok \<lparr>ro_files = sort_key rn_file files, ro_semantic = False\<rparr>))
              | Some (Err e) \<Rightarrow> Some (Err e)
              | Some Panic \<Rightarrow> Some Panic))"

section \<open>When the outline settles\<close>

text \<open>\<open>(i, j)\<close>: symbol \<open>j\<close>, another one, bears the name of \<open>i\<close>'s parent.\<close>

definition lies_under :: "symbol list \<Rightarrow> (nat \<times> nat) set" where
  "lies_under ss =
     {(i, j). i < length ss \<and> j < length ss \<and> j \<noteq> i \<and> sy_parent (ss ! i) = Some (sy_name (ss ! j))}"

text \<open>A chain of parents of length \<open>k\<close> to a symbol that lies under none.\<close>

definition climbs :: "symbol list \<Rightarrow> nat \<Rightarrow> nat \<Rightarrow> bool" where
  "climbs ss i k \<longleftrightarrow> (\<exists>j. (i, j) \<in> lies_under ss ^^ k \<and> j \<notin> Domain (lies_under ss))"

definition nesting_depth :: "symbol list \<Rightarrow> nat \<Rightarrow> nat" where
  "nesting_depth ss i = (LEAST k. climbs ss i k)"

definition least_of :: "nat set \<Rightarrow> nat option \<Rightarrow> bool" where
  "least_of S b \<longleftrightarrow> (case b of None \<Rightarrow> S = {} | Some d \<Rightarrow> d \<in> S \<and> (\<forall>x \<in> S. d \<le> x))"

lemma best_parent_fold:
  "least_of S b \<Longrightarrow>
   least_of (S \<union> {ds ! j |j s. (j, s) \<in> set js \<and> j \<noteq> i \<and> sy_name s = p})
     (fold (\<lambda>(j, s) best. if j \<noteq> i \<and> sy_name s = p
                          then Some (case best of None \<Rightarrow> ds ! j | Some d \<Rightarrow> min d (ds ! j)) else best) js b)"
proof (induction js arbitrary: S b)
  case (Cons js jss)
  obtain j s where js: "js = (j, s)" by force
  let ?hit = "j \<noteq> i \<and> sy_name s = p"
  let ?S = "if ?hit then insert (ds ! j) S else S"
  let ?b = "if ?hit then Some (case b of None \<Rightarrow> ds ! j | Some d \<Rightarrow> min d (ds ! j)) else b"
  have "least_of ?S ?b" using Cons.prems by (cases b) (auto simp: least_of_def min_def)
  from Cons.IH [OF this] have "least_of (?S \<union> {ds ! j |j s. (j, s) \<in> set jss \<and> j \<noteq> i \<and> sy_name s = p})
     (fold (\<lambda>(j, s) best. if j \<noteq> i \<and> sy_name s = p
                          then Some (case best of None \<Rightarrow> ds ! j | Some d \<Rightarrow> min d (ds ! j)) else best) jss ?b)" .
  moreover have "?S \<union> {ds ! j |j s. (j, s) \<in> set jss \<and> j \<noteq> i \<and> sy_name s = p} =
      S \<union> {ds ! j |j s. (j, s) \<in> set (js # jss) \<and> j \<noteq> i \<and> sy_name s = p}"
    by (auto simp: js)
  ultimately show ?case by (simp add: js)
qed simp

lemma best_parent_spec:
  "i < length ss \<Longrightarrow> sy_parent (ss ! i) = Some p \<Longrightarrow>
     least_of {ds ! j |j. (i, j) \<in> lies_under ss} (best_parent ss ds i p)"
proof -
  assume i: "i < length ss" "sy_parent (ss ! i) = Some p"
  have "{ds ! j |j s. (j, s) \<in> set (enumerate 0 ss) \<and> j \<noteq> i \<and> sy_name s = p} = {ds ! j |j. (i, j) \<in> lies_under ss}"
    using i by (fastforce simp: lies_under_def in_set_enumerate_eq)
  then show ?thesis using best_parent_fold [of "{}" None ds "enumerate 0 ss" i p]
    by (simp add: best_parent_def least_of_def)
qed

text \<open>A symbol is settled when it lies deeper than one it lies under.\<close>

definition settled :: "symbol list \<Rightarrow> nat list \<Rightarrow> nat \<Rightarrow> bool" where
  "settled ss ds i \<longleftrightarrow> i \<in> Domain (lies_under ss) \<longrightarrow> (\<exists>j. (i, j) \<in> lies_under ss \<and> ds ! j < ds ! i)"

lemma relax_cases:
  assumes "i < length ss"
  obtains "relax ss i (ds, c) = (ds, c)" "settled ss ds i"
  | j where "(i, j) \<in> lies_under ss" "ds ! i < ds ! j + 1" "relax ss i (ds, c) = (ds[i := ds ! j + 1], True)"
      "\<forall>j'. (i, j') \<in> lies_under ss \<longrightarrow> ds ! j \<le> ds ! j'"
proof (cases "sy_parent (ss ! i)")
  case None
  then have "i \<notin> Domain (lies_under ss)" by (auto simp: lies_under_def)
  then show thesis using that(1) by (simp add: relax_def None settled_def)
next
  case (Some p)
  note least = best_parent_spec [OF assms Some, of ds]
  show thesis
  proof (cases "best_parent ss ds i p")
    case None
    then have "i \<notin> Domain (lies_under ss)" using least by (auto simp: least_of_def)
    then show thesis using that(1) by (simp add: relax_def Some None settled_def)
  next
    case (Some d)
    then obtain j where j: "(i, j) \<in> lies_under ss" "d = ds ! j" using least by (auto simp: least_of_def)
    have le: "\<forall>j'. (i, j') \<in> lies_under ss \<longrightarrow> ds ! j \<le> ds ! j'" using least Some j by (auto simp: least_of_def)
    show thesis
    proof (cases "ds ! i < ds ! j + 1")
      case True
      then show thesis using that(2) [OF j(1) True _ le] \<open>sy_parent (ss ! i) = Some p\<close> Some j(2) by (simp add: relax_def)
    next
      case False
      then have "settled ss ds i" using j by (auto simp: settled_def)
      then show thesis using that(1) False \<open>sy_parent (ss ! i) = Some p\<close> Some j(2) by (simp add: relax_def)
    qed
  qed
qed

text \<open>What one pass does: it only deepens, up to any bound that allows it, and says whether it did.\<close>

definition bounds :: "symbol list \<Rightarrow> (nat \<Rightarrow> nat) \<Rightarrow> bool" where
  "bounds ss D \<longleftrightarrow> (\<forall>i j. (i, j) \<in> lies_under ss \<longrightarrow> (\<exists>j'. (i, j') \<in> lies_under ss \<and> Suc (D j') \<le> D i))"

definition under :: "nat list \<Rightarrow> (nat \<Rightarrow> nat) \<Rightarrow> bool" where
  "under ds D \<longleftrightarrow> (\<forall>i < length ds. ds ! i \<le> D i)"

lemma sum_list_update_less: "i < length ds \<Longrightarrow> ds ! i < (v :: nat) \<Longrightarrow> sum_list ds < sum_list (ds[i := v])"
  by (induction ds arbitrary: i) (auto split: nat.splits)

lemma relax_pass:
  "fold (relax ss) is (ds, c) = (ds', c') \<Longrightarrow> set is \<subseteq> {..<length ss} \<Longrightarrow> length ds = length ss \<Longrightarrow>
   length ds' = length ss \<and> (c \<longrightarrow> c') \<and>
   (c' \<or> ds' = ds \<and> (\<forall>i \<in> set is. settled ss ds i)) \<and> sum_list ds \<le> sum_list ds' \<and>
   (c' \<longrightarrow> c \<or> sum_list ds < sum_list ds') \<and> (\<forall>D. bounds ss D \<longrightarrow> under ds D \<longrightarrow> under ds' D)"
proof (induction "is" arbitrary: ds c)
  case (Cons i "is")
  have i: "i < length ss" using Cons.prems by simp
  from i show ?case
  proof (cases rule: relax_cases [where ds = ds and c = c])
    case 1
    then show ?thesis using Cons.IH [of ds c] Cons.prems by auto
  next
    case (2 j)
    let ?ds = "ds[i := ds ! j + 1]"
    have IH: "length ds' = length ss \<and> c' \<and> sum_list ?ds \<le> sum_list ds' \<and> (\<forall>D. bounds ss D \<longrightarrow> under ?ds D \<longrightarrow> under ds' D)"
      using Cons.IH [of ?ds True] Cons.prems 2(3) by auto
    have "sum_list ds < sum_list ?ds" using 2(2) i Cons.prems(3) by (intro sum_list_update_less) simp_all
    moreover have "under ?ds D" if D: "bounds ss D" "under ds D" for D
    proof -
      obtain j' where j': "(i, j') \<in> lies_under ss" "Suc (D j') \<le> D i" using D(1) 2(1) by (auto simp: bounds_def)
      then have "j' < length ds" using Cons.prems(3) by (simp add: lies_under_def)
      then have "ds ! j \<le> D j'" using 2(4) j'(1) D(2) by (meson le_trans under_def)
      then show ?thesis using D(2) j'(2) i Cons.prems(3) by (auto simp: under_def nth_list_update)
    qed
    ultimately show ?thesis using IH by auto
  qed
qed (auto simp: lies_under_def)

lemma settle_returns:
  assumes "settle ss ds = Some ds'"
  shows "length ds = length ss \<longrightarrow> length ds' = length ss \<and> (\<forall>i < length ss. settled ss ds' i) \<and>
    (\<forall>D. bounds ss D \<longrightarrow> under ds D \<longrightarrow> under ds' D)"
proof (rule settle.raw_induct [where P = "\<lambda>ss ds ds'. length ds = length ss \<longrightarrow> length ds' = length ss \<and>
    (\<forall>i < length ss. settled ss ds' i) \<and> (\<forall>D. bounds ss D \<longrightarrow> under ds D \<longrightarrow> under ds' D)", OF _ assms])
  fix settle ss ds ds'
  let ?pass = "fold (relax ss) [0..<length ss] (ds, False)"
  assume IH: "\<And>ss ds ds'. settle ss ds = Some ds' \<Longrightarrow> length ds = length ss \<longrightarrow> length ds' = length ss \<and>
      (\<forall>i < length ss. settled ss ds' i) \<and> (\<forall>D. bounds ss D \<longrightarrow> under ds D \<longrightarrow> under ds' D)"
    and ret: "(if snd ?pass then settle ss (fst ?pass) else Some (fst ?pass)) = Some ds'"
  show "length ds = length ss \<longrightarrow> length ds' = length ss \<and> (\<forall>i < length ss. settled ss ds' i) \<and>
      (\<forall>D. bounds ss D \<longrightarrow> under ds D \<longrightarrow> under ds' D)"
  proof
    assume len: "length ds = length ss"
    obtain d c where pass: "?pass = (d, c)" by force
    have "set [0..<length ss] \<subseteq> {..<length ss}" by auto
    note step = relax_pass [OF pass this len]
    show "length ds' = length ss \<and> (\<forall>i < length ss. settled ss ds' i) \<and>
        (\<forall>D. bounds ss D \<longrightarrow> under ds D \<longrightarrow> under ds' D)"
    proof (cases c)
      case True
      then have "settle ss d = Some ds'" using ret pass by simp
      from IH [OF this] show ?thesis using step by auto
    next
      case False
      then show ?thesis using ret pass step by auto
    qed
  qed
qed

lemma settle_ends:
  assumes "bounds ss D"
  shows "length ds = length ss \<Longrightarrow> under ds D \<Longrightarrow> \<exists>ds'. settle ss ds = Some ds'"
proof (induction "sum_list (map D [0..<length ss]) - sum_list ds" arbitrary: ds rule: less_induct)
  case less
  obtain d c where pass: "fold (relax ss) [0..<length ss] (ds, False) = (d, c)" by force
  have "set [0..<length ss] \<subseteq> {..<length ss}" by auto
  note step = relax_pass [OF pass this less.prems(1)]
  show ?case
  proof (cases c)
    case True
    have d: "length d = length ss" "under d D" "sum_list ds < sum_list d" using step True assms less.prems(2) by auto
    have "d = map ((!) d) [0..<length ss]" by (rule nth_equalityI) (simp_all add: d(1))
    then have "sum_list d = sum_list (map ((!) d) [0..<length ss])" by simp
    also have "\<dots> \<le> sum_list (map D [0..<length ss])" using d(1,2) by (intro sum_list_mono) (simp add: under_def)
    finally have "sum_list (map D [0..<length ss]) - sum_list d < sum_list (map D [0..<length ss]) - sum_list ds"
      using d(3) by simp
    from less.hyps [OF this d(1,2)] show ?thesis using True pass by (subst settle.simps) simp
  next
    case False
    then show ?thesis using pass by (subst settle.simps) simp
  qed
qed

lemma climbs_0: "climbs ss i 0 \<longleftrightarrow> i \<notin> Domain (lies_under ss)"
  by (simp add: climbs_def)

lemma climbs_Suc: "climbs ss i (Suc k) \<longleftrightarrow> (\<exists>j. (i, j) \<in> lies_under ss \<and> climbs ss j k)"
  unfolding climbs_def by (blast intro: relpow_Suc_I2 dest: relpow_Suc_D2)

lemma nesting_depth_le: "climbs ss i k \<Longrightarrow> climbs ss i (nesting_depth ss i) \<and> nesting_depth ss i \<le> k"
  unfolding nesting_depth_def by (metis LeastI_ex Least_le)

lemma nesting_bounds: "\<forall>i < length ss. \<exists>k. climbs ss i k \<Longrightarrow> bounds ss (nesting_depth ss)"
  unfolding bounds_def
proof (intro allI impI)
  fix i j
  assume all: "\<forall>i < length ss. \<exists>k. climbs ss i k" and ij: "(i, j) \<in> lies_under ss"
  then have "climbs ss i (nesting_depth ss i)" using nesting_depth_le by (force simp: lies_under_def)
  moreover from this ij obtain k where k: "nesting_depth ss i = Suc k" by (cases "nesting_depth ss i") (auto simp: climbs_0)
  ultimately obtain j' where "(i, j') \<in> lies_under ss" "climbs ss j' k" by (auto simp: climbs_Suc)
  then show "\<exists>j'. (i, j') \<in> lies_under ss \<and> Suc (nesting_depth ss j') \<le> nesting_depth ss i"
    using nesting_depth_le [of ss j' k] k by auto
qed

lemma settled_climbs:
  assumes "\<forall>i < length ss. settled ss ds i"
  shows "i < length ss \<Longrightarrow> \<exists>k \<le> ds ! i. climbs ss i k"
proof (induction "ds ! i" arbitrary: i rule: less_induct)
  case less
  show ?case
  proof (cases "i \<in> Domain (lies_under ss)")
    case True
    then obtain j where j: "(i, j) \<in> lies_under ss" "ds ! j < ds ! i" using assms less.prems by (auto simp: settled_def)
    moreover have "j < length ss" using j(1) by (simp add: lies_under_def)
    ultimately obtain k where "k \<le> ds ! j" "climbs ss j k" using less.hyps by blast
    then show ?thesis using j by (intro exI [of _ "Suc k"]) (auto simp: climbs_Suc)
  next
    case False
    then show ?thesis by (intro exI [of _ 0]) (simp add: climbs_0)
  qed
qed

text \<open>
  C19. The outline of a file ends exactly when every symbol climbs, over symbols that bear its parent's
  name, to one that lies under no other; the depth of a symbol is then the length of its shortest
  climb. Where names go round in a circle the loop never ends.
\<close>

theorem outline_settles_iff:
  "settle ss (replicate (length ss) 0) =
     (if {..<length ss} \<subseteq> {i. \<exists>k. climbs ss i k} then Some (map (nesting_depth ss) [0..<length ss]) else None)"
proof -
  have below: "under (replicate (length ss) 0) D" for D by (simp add: under_def)
  have ret_val: "ds = map (nesting_depth ss) [0..<length ss] \<and> (\<forall>i < length ss. \<exists>k. climbs ss i k)"
    if ret: "settle ss (replicate (length ss) 0) = Some ds" for ds
  proof -
    have ds: "length ds = length ss" "\<forall>i < length ss. settled ss ds i"
        "\<forall>D. bounds ss D \<longrightarrow> under ds D"
      using settle_returns [OF ret] below by auto
    have climb: "\<forall>i < length ss. \<exists>k \<le> ds ! i. climbs ss i k" using settled_climbs [OF ds(2)] by blast
    then have "under ds (nesting_depth ss)" using ds(3) nesting_bounds [of ss] by blast
    then have le: "ds ! i \<le> nesting_depth ss i" if "i < length ss" for i using ds(1) that by (simp add: under_def)
    have ge: "nesting_depth ss i \<le> ds ! i" if i: "i < length ss" for i
    proof -
      obtain k where "k \<le> ds ! i" "climbs ss i k" using climb i by blast
      then show ?thesis using nesting_depth_le [of ss i k] by simp
    qed
    have "ds ! i = nesting_depth ss i" if "i < length ss" for i using le [OF that] ge [OF that] by simp
    then have "ds = map (nesting_depth ss) [0..<length ss]" using ds(1) by (intro nth_equalityI) simp_all
    then show ?thesis using climb by blast
  qed
  show ?thesis
  proof (cases "\<forall>i < length ss. \<exists>k. climbs ss i k")
    case True
    from settle_ends [OF nesting_bounds [OF True] _ below] obtain ds where ds: "settle ss (replicate (length ss) 0) = Some ds"
      by auto
    with ret_val [OF ds] True show ?thesis by auto
  next
    case False
    then have "settle ss (replicate (length ss) 0) = None" using ret_val by (cases "settle ss (replicate (length ss) 0)") blast+
    with False show ?thesis by auto
  qed
qed

text \<open>Two methods that bear the names of each other's \<open>impl\<close> targets go round in a circle.\<close>

definition circle :: "symbol list" where
  "circle =
     (let f = (\<lambda>name parent a. \<lparr>sy_path = [''a.rs''], sy_language = Rust, sy_kind = Function, sy_name = name,
                 sy_parent = Some parent, sy_start = a, sy_end = a + 8, sy_line = 1\<rparr>)
      in [f ''B'' ''A'' 9, f ''A'' ''B'' 29])"

lemma circle_never_settles: "settle circle [0, 0] = None"
proof -
  have under: "lies_under circle = {(0, 1), (1, 0)}"
    by (auto simp: lies_under_def circle_def Let_def less_2_cases_iff)
  have "\<not> climbs circle 0 k \<and> \<not> climbs circle 1 k" for k
    by (induction k) (simp_all add: climbs_0 climbs_Suc under)
  moreover have "length circle = 2" by (simp add: circle_def Let_def)
  ultimately show ?thesis using outline_settles_iff [of circle] by (auto simp: numeral_2_eq_2)
qed

section \<open>What a splice promises\<close>

text \<open>Trees as tree-sitter yields them: children in order within their node, names are leaves.\<close>

fun in_order :: "nat \<Rightarrow> syn list \<Rightarrow> nat \<Rightarrow> bool" where
  "in_order lo [] hi \<longleftrightarrow> lo \<le> hi"
| "in_order lo (c # cs) hi \<longleftrightarrow> lo \<le> nd_start c \<and> in_order (nd_end c) cs hi"

definition node_ok :: "syn \<Rightarrow> bool" where
  "node_ok n \<longleftrightarrow> in_order (nd_start n) (nd_kids n) (nd_end n) \<and> (nd_kind n \<in> set NAME_KINDS \<longrightarrow> nd_kids n = [])"

definition grammars_ok :: "grammars \<Rightarrow> bool" where
  "grammars_ok gs \<longleftrightarrow> (\<forall>g source root. gs g source = Tree root \<longrightarrow> all_nodes node_ok root \<and> nd_end root \<le> length source)"

lemma find_exact_spec: "find_exact n a b = Some m \<Longrightarrow> m \<in> set (nodes n) \<and> nd_start m = a \<and> nd_end m = b \<and> a \<noteq> b"
proof (induction n a b rule: find_exact.induct)
  case (1 n a b)
  show ?case
  proof (cases "a = b \<or> nd_start n = a \<and> nd_end n = b")
    case True
    then show ?thesis using "1.prems" by (subst (asm) find_exact.simps) (auto simp: nodes_unfold [of n] split: if_splits)
  next
    case False
    then have ab: "a \<noteq> b" "\<not> (nd_start n = a \<and> nd_end n = b)" by auto
    then obtain c where c: "holding a b n = [c]" "find_exact c a b = Some m"
      using "1.prems" by (subst (asm) find_exact.simps) (auto split: list.splits)
    then have "c \<in> set (nd_kids n)" by (metis filter_eq_ConsD holding_def in_set_conv_decomp)
    then show ?thesis using "1.IH" [OF ab c(1) refl c(2)] by (auto simp: nodes_unfold [of n])
  qed
qed

text \<open>The text has a tree without errors in which the range is a node of that kind.\<close>

definition node_at :: "grammars \<Rightarrow> language \<Rightarrow> string \<Rightarrow> nat \<Rightarrow> nat \<Rightarrow> string \<Rightarrow> bool" where
  "node_at gs l source a b kind \<longleftrightarrow>
     (\<exists>root n. gs (Grammar l) source = Tree root \<and> \<not> has_error root \<and> find_exact root a b = Some n \<and> nd_kind n = kind)"

lemma node_kind_at_Ok: "node_kind_at gs path l source a b = Ok kind \<longleftrightarrow> node_at gs l source a b kind"
  by (auto simp: node_kind_at_def parse_clean_def node_at_def bind_outcome_Ok_iff split: parsed.splits option.splits)

lemma reparse_gate_Ok: "reparse_gate gs path l result kind a b = Ok () \<longleftrightarrow> node_at gs l result a b kind"
  by (auto simp: reparse_gate_def parse_clean_def node_at_def bind_outcome_Ok_iff map_err_Ok_iff
      split: parsed.splits option.splits)

text \<open>
  What the search for the node finds: the outermost of the nodes that span the range, and none
  only when there is none. Two children in order cannot both hold a range that is not empty.
\<close>

definition outermost :: "syn \<Rightarrow> nat \<Rightarrow> nat \<Rightarrow> syn \<Rightarrow> bool" where
  "outermost root a b n \<longleftrightarrow> n \<in> set (nodes root) \<and> nd_start n = a \<and> nd_end n = b \<and>
     (\<forall>m \<in> set (nodes root). nd_start m = a \<and> nd_end m = b \<longrightarrow> m \<in> set (nodes n))"

lemma in_order_le: "in_order lo cs hi \<Longrightarrow> \<forall>c \<in> set cs. nd_start c \<le> nd_end c \<Longrightarrow>
    lo \<le> hi \<and> (\<forall>c \<in> set cs. lo \<le> nd_start c \<and> nd_end c \<le> hi)"
  by (induction cs arbitrary: lo) force+

lemma node_ok_le: "all_nodes node_ok n \<Longrightarrow> nd_start n \<le> nd_end n"
proof (induction "syn_size n" arbitrary: n rule: less_induct)
  case less
  have "in_order (nd_start n) (nd_kids n) (nd_end n)" "\<forall>c \<in> set (nd_kids n). all_nodes node_ok c"
    using less.prems by (auto simp: all_nodes_unfold [of _ n] node_ok_def)
  then show ?case using less.hyps kid_smaller in_order_le by blast
qed

lemma kid_within:
  assumes "all_nodes node_ok n" "c \<in> set (nd_kids n)"
  shows "all_nodes node_ok c \<and> nd_start n \<le> nd_start c \<and> nd_end c \<le> nd_end n"
proof -
  have "in_order (nd_start n) (nd_kids n) (nd_end n)" and kids: "\<forall>c \<in> set (nd_kids n). all_nodes node_ok c"
    using assms(1) by (auto simp: all_nodes_unfold [of _ n] node_ok_def)
  then show ?thesis using assms(2) node_ok_le in_order_le by blast
qed

lemma node_within: "all_nodes node_ok n \<Longrightarrow> m \<in> set (nodes n) \<Longrightarrow> nd_start n \<le> nd_start m \<and> nd_end m \<le> nd_end n"
proof (induction "syn_size n" arbitrary: n rule: less_induct)
  case less
  show ?case
  proof (cases "m = n")
    case False
    then obtain c where c: "c \<in> set (nd_kids n)" "m \<in> set (nodes c)"
      using less.prems(2) by (auto simp: nodes_unfold [of n])
    then show ?thesis
      using less.hyps [OF kid_smaller [OF c(1)]] kid_within [OF less.prems(1) c(1)] by force
  qed simp
qed

lemma one_holder:
  assumes "in_order lo cs hi" "\<forall>c \<in> set cs. nd_start c \<le> nd_end c" "c \<in> set cs" "nd_start c \<le> a" "b \<le> nd_end c" "a < b"
  shows "filter (\<lambda>c. nd_start c \<le> a \<and> b \<le> nd_end c) cs = [c]"
  using assms
proof (induction cs arbitrary: lo)
  case (Cons d ds)
  have ds: "in_order (nd_end d) ds hi" "\<forall>x \<in> set ds. nd_start x \<le> nd_end x" using Cons.prems(1,2) by auto
  have after: "\<forall>x \<in> set ds. nd_end d \<le> nd_start x" using in_order_le [OF ds] by blast
  show ?case
  proof (cases "nd_start d \<le> a \<and> b \<le> nd_end d")
    case True
    then have "\<forall>x \<in> set ds. \<not> nd_start x \<le> a" using after \<open>a < b\<close> by fastforce
    then have "c = d" "filter (\<lambda>c. nd_start c \<le> a \<and> b \<le> nd_end c) ds = []"
      using Cons.prems(3,4) by (auto simp: filter_empty_conv)
    then show ?thesis using True by simp
  next
    case False
    then have "c \<in> set ds" using Cons.prems(3-5) by auto
    then show ?thesis using Cons.IH [OF ds _ Cons.prems(4-6)] False by simp
  qed
qed simp

lemma find_exact_complete:
  assumes "all_nodes node_ok root" "a < b" "m \<in> set (nodes root)" "nd_start m = a" "nd_end m = b"
  shows "\<exists>n. find_exact root a b = Some n \<and> m \<in> set (nodes n)"
  using assms(1,3)
proof (induction "syn_size root" arbitrary: root rule: less_induct)
  case less
  show ?case
  proof (cases "nd_start root = a \<and> nd_end root = b")
    case True
    then show ?thesis using assms(2) less.prems by (subst find_exact.simps) auto
  next
    case False
    then obtain c where c: "c \<in> set (nd_kids root)" "m \<in> set (nodes c)"
      using less.prems(2) assms(4,5) by (auto simp: nodes_unfold [of root])
    have kids: "in_order (nd_start root) (nd_kids root) (nd_end root)" "\<forall>c \<in> set (nd_kids root). nd_start c \<le> nd_end c"
      "all_nodes node_ok c"
      using less.prems(1) c(1) node_ok_le by (auto simp: all_nodes_unfold [of _ root] node_ok_def)
    have "holding a b root = [c]"
      unfolding holding_def using node_within [OF kids(3) c(2)] assms(2,4,5) by (intro one_holder [OF kids(1,2) c(1)]) auto
    then show ?thesis
      using less.hyps [OF kid_smaller [OF c(1)] kids(3) c(2)] False assms(2) by (subst find_exact.simps) auto
  qed
qed

lemma nodes_size: "m \<in> set (nodes n) \<Longrightarrow> m = n \<or> syn_size m < syn_size n"
proof (induction "syn_size n" arbitrary: n rule: less_induct)
  case less
  then show ?case using kid_smaller [of _ n] by (fastforce simp: nodes_unfold [of n])
qed

lemma find_exact_outermost:
  assumes "all_nodes node_ok root" "a < b"
  shows "find_exact root a b = Some n \<longleftrightarrow> outermost root a b n"
proof
  assume "find_exact root a b = Some n"
  then show "outermost root a b n"
    using find_exact_spec [of root a b n] find_exact_complete [OF assms] by (fastforce simp: outermost_def)
next
  assume n: "outermost root a b n"
  then obtain n' where n': "find_exact root a b = Some n'" "n \<in> set (nodes n')"
    using find_exact_complete [OF assms, of n] by (auto simp: outermost_def)
  then have "n' \<in> set (nodes n)" using find_exact_spec [OF n'(1)] n by (auto simp: outermost_def)
  then show "find_exact root a b = Some n" using n' nodes_size [of n n'] nodes_size [of n' n] by auto
qed

lemma node_at_outermost:
  assumes "grammars_ok gs" "a < b"
  shows "node_at gs l source a b kind \<longleftrightarrow>
    (\<exists>root n. gs (Grammar l) source = Tree root \<and> \<not> has_error root \<and> outermost root a b n \<and> nd_kind n = kind)"
  using assms find_exact_outermost by (fastforce simp: node_at_def grammars_ok_def)


lemma replace_node_Ok:
  "replace_node gs path source a b replacement = Ok result \<Longrightarrow>
     result = take a source @ replacement @ drop b source \<and>
     (\<exists>l root. detect path = Some l \<and> gs (Grammar l) result = Tree root \<and> \<not> has_error root)"
  by (auto simp: replace_node_def bind_outcome_Ok_iff node_kind_at_Ok reparse_gate_Ok spliced_def Let_def node_at_def
      split: option.splits if_splits)

section \<open>Renaming rewrites every reference\<close>

text \<open>The references to a name in a candidate, in byte order, and their simultaneous replacement.\<close>

definition name_starts :: "string \<Rightarrow> string \<Rightarrow> syn \<Rightarrow> nat list" where
  "name_starts source name root = map nd_start (filter (mentions source name) (nodes root))"

definition references_in :: "grammars \<Rightarrow> string \<Rightarrow> file_path \<Rightarrow> dependency_graph \<Rightarrow> file_path \<times> string \<Rightarrow> nat list" where
  "references_in gs name defining graph candidate =
     (case candidate of (path, source) \<Rightarrow>
        if \<not> reachable_from graph defining path then []
        else (case detect path of
                Some l \<Rightarrow> (case gs (Grammar l) source of Tree root \<Rightarrow> name_starts source name root | _ \<Rightarrow> [])
              | None \<Rightarrow> []))"

fun rewrite_at :: "nat \<Rightarrow> nat \<Rightarrow> string \<Rightarrow> nat list \<Rightarrow> string \<Rightarrow> string" where
  "rewrite_at pos len new [] s = s"
| "rewrite_at pos len new (k # ks) s =
     take (k - pos) s @ new @ rewrite_at (k + len) len new ks (drop (k - pos + len) s)"

fun spaced :: "nat \<Rightarrow> nat \<Rightarrow> nat list \<Rightarrow> nat \<Rightarrow> bool" where
  "spaced len lo [] hi \<longleftrightarrow> lo \<le> hi"
| "spaced len lo (k # ks) hi \<longleftrightarrow> lo \<le> k \<and> spaced len (k + len) ks hi"

lemma spaced_le: "spaced len lo ks hi \<Longrightarrow> lo \<le> hi"
  by (induction ks arbitrary: lo) force+

lemma spaced_append: "spaced len lo xs m \<Longrightarrow> spaced len m ys hi \<Longrightarrow> spaced len lo (xs @ ys) hi"
proof (induction xs arbitrary: lo)
  case Nil
  then show ?case by (cases ys) auto
qed simp

lemma spaced_sorted: "spaced len lo ks hi \<Longrightarrow> sorted ks \<and> (\<forall>k \<in> set ks. lo \<le> k)"
  by (induction ks arbitrary: lo) force+

lemma mentions_length: "mentions source name n \<Longrightarrow> length name \<le> nd_end n - nd_start n"
  by (auto simp: mentions_def utf8_text_def Let_def split: if_splits)

lemma name_starts_spaced:
  "all_nodes node_ok n \<Longrightarrow> name \<noteq> [] \<Longrightarrow> spaced (length name) (nd_start n) (name_starts source name n) (nd_end n)"
proof (induction n)
  case (Node k m a b r i cs)
  let ?n = "Node k m a b r i cs"
  have ok: "in_order a cs b" "k \<in> set NAME_KINDS \<longrightarrow> cs = []" using Node.prems by (simp_all add: node_ok_def)
  have kids: "spaced (length name) lo (concat (map (name_starts source name) ds)) b"
    if "in_order lo ds b" "set ds \<subseteq> set cs" for lo ds
    using that
  proof (induction ds arbitrary: lo)
    case (Cons d ds)
    have "spaced (length name) (nd_start d) (name_starts source name d) (nd_end d)"
      using Node.IH [of d] Node.prems Cons.prems by (auto simp: list_all_iff)
    then have "spaced (length name) lo (name_starts source name d) (nd_end d)"
      using Cons.prems by (cases "name_starts source name d") auto
    then show ?case using Cons by (simp add: spaced_append)
  qed simp
  show ?case
  proof (cases "mentions source name ?n")
    case True
    then have "cs = []" using ok(2) by (simp add: mentions_def)
    moreover have "a + length name \<le> b" using mentions_length [OF True] Node.prems(2) by (cases name) auto
    ultimately show ?thesis using True by (simp add: name_starts_def)
  next
    case False
    then have "name_starts source name ?n = concat (map (name_starts source name) cs)"
      by (simp add: name_starts_def [abs_def] filter_concat map_concat comp_def)
    then show ?thesis using kids [OF ok(1)] by simp
  qed
qed

lemma walk_nodes_mset:
  "mset (walk_nodes source name stack found) = mset (found @ concat (map (name_starts source name) stack))"
proof (induction source name stack found rule: walk_nodes.induct)
  case (2 source name n stack found)
  have "mset (concat (map f (rev xs))) = mset (concat (map f xs))" for f :: "syn \<Rightarrow> nat list" and xs
    by (induction xs) auto
  moreover have "name_starts source name n =
      (if mentions source name n then [nd_start n] else []) @ concat (map (name_starts source name) (nd_kids n))"
    unfolding name_starts_def [abs_def] by (subst nodes_unfold) (simp add: filter_concat map_concat comp_def)
  ultimately show ?case using 2 by simp
qed simp

lemma splice_each_rewrites:
  "spaced (length old) p ks (length s) \<Longrightarrow> splice_each gs path old new (rev ks) s = Ok out \<Longrightarrow>
     out = take p s @ rewrite_at p (length old) new ks (drop p s)"
proof (induction ks arbitrary: p out)
  case (Cons k ks)
  have each_append: "splice_each gs path old new (xs @ ys) t =
      bind_outcome (splice_each gs path old new xs t) (splice_each gs path old new ys)" for xs ys t
  proof (induction xs arbitrary: t)
    case (Cons x xs)
    then show ?case by (cases "replace_node gs path t x (x + length old) new") simp_all
  qed simp
  obtain mid where mid: "splice_each gs path old new (rev ks) s = Ok mid"
      "replace_node gs path mid k (k + length old) new = Ok out"
    using Cons.prems(2) by (auto simp: each_append bind_outcome_Ok_iff)
  have kl: "p \<le> k" "k + length old \<le> length s" using Cons.prems(1) spaced_le by fastforce+
  have "mid = take (k + length old) s @ rewrite_at (k + length old) (length old) new ks (drop (k + length old) s)"
    using Cons.IH [OF _ mid(1)] Cons.prems(1) by simp
  moreover have "out = take k mid @ new @ drop (k + length old) mid" using replace_node_Ok [OF mid(2)] by simp
  ultimately have "out = take k s @ new @ rewrite_at (k + length old) (length old) new ks (drop (k + length old) s)"
    using kl by simp
  moreover have "take k s = take p s @ take (k - p) (drop p s)" using kl by (metis le_add_diff_inverse take_add)
  ultimately show ?case using kl by (simp add: add.commute)
qed simp

definition renamed :: "grammars \<Rightarrow> string \<Rightarrow> string \<Rightarrow> file_path \<Rightarrow> dependency_graph \<Rightarrow> file_path \<times> string \<Rightarrow> renamed_file list" where
  "renamed gs old new defining graph candidate =
     (let ks = references_in gs old defining graph candidate in
      if ks = [] then []
      else [\<lparr>rn_file = fst candidate, rn_bytes = rewrite_at 0 (length old) new ks (snd candidate), rn_rewritten = length ks\<rparr>])"

lemma references_spaced:
  assumes "grammars_ok gs" "name \<noteq> []"
  shows "spaced (length name) 0 (references_in gs name defining graph (path, source)) (length source)"
proof -
  have "spaced (length name) 0 (name_starts source name root) (length source)"
    if "gs (Grammar l) source = Tree root" for l root
  proof -
    have ok: "all_nodes node_ok root" "nd_end root \<le> length source" using assms(1) that by (auto simp: grammars_ok_def)
    have "spaced (length name) 0 ([] @ name_starts source name root @ []) (length source)"
      using name_starts_spaced [OF ok(1) assms(2), of source] ok(2) by (intro spaced_append) auto
    then show ?thesis by simp
  qed
  then show ?thesis by (auto simp: references_in_def split: option.splits parsed.splits)
qed

lemma file_references_eq:
  assumes "grammars_ok gs" "name \<noteq> []"
  shows "file_references gs name defining graph (path, source) =
    (if references_in gs name defining graph (path, source) = [] then []
     else [\<lparr>rf_file = path, rf_occurrences = references_in gs name defining graph (path, source), rf_semantic = False\<rparr>])"
proof -
  have walk: "sort (walk_nodes source name [root] []) = name_starts source name root \<and>
      (walk_nodes source name [root] [] = [] \<longleftrightarrow> name_starts source name root = [])"
    if root: "gs (Grammar l) source = Tree root" for l root
  proof -
    have eq: "mset (walk_nodes source name [root] []) = mset (name_starts source name root)"
      using walk_nodes_mset [of source name "[root]" "[]"] by simp
    have "all_nodes node_ok root" using assms(1) root by (auto simp: grammars_ok_def)
    from spaced_sorted [OF name_starts_spaced [OF this assms(2)]] have "sorted (name_starts source name root)" by blast
    then have "sort (walk_nodes source name [root] []) = name_starts source name root"
      by (rule properties_for_sort [OF eq [symmetric]])
    moreover have "walk_nodes source name [root] [] = [] \<longleftrightarrow> name_starts source name root = []"
      using arg_cong [OF eq, of "\<lambda>m. m = {#}"] by simp
    ultimately show ?thesis by simp
  qed
  show ?thesis
  proof (cases "detect path")
    case (Some l)
    show ?thesis
    proof (cases "gs (Grammar l) source")
      case (Tree root)
      obtain found where found: "walk_nodes source name [root] [] = found" by blast
      have "sort found = name_starts source name root" "found = [] \<longleftrightarrow> name_starts source name root = []"
        using walk [OF Tree] unfolding found by blast+
      moreover have "file_references gs name defining graph (path, source) =
          (if \<not> reachable_from graph defining path \<or> found = [] then []
           else [\<lparr>rf_file = path, rf_occurrences = sort found, rf_semantic = False\<rparr>])"
        unfolding file_references_def Let_def prod.case Some Tree option.case parsed.case found by simp
      moreover have "references_in gs name defining graph (path, source) =
          (if \<not> reachable_from graph defining path then [] else name_starts source name root)"
        by (simp add: references_in_def Some Tree)
      ultimately show ?thesis by (cases "reachable_from graph defining path") simp_all
    qed (simp_all add: file_references_def references_in_def Some)
  qed (simp add: file_references_def references_in_def)
qed

lemma bt_sorted_files: "bt_sorted m \<Longrightarrow> sorted (map fst m)"
  by (simp add: bt_sorted_def strict_sorted_iff)

lemma sorted_concat_singles:
  assumes "sorted (map fst m)" "\<And>c r. c \<in> set m \<Longrightarrow> r \<in> set (f c) \<Longrightarrow> k r = fst c" "\<And>c. length (f c) \<le> 1"
  shows "sorted (map k (concat (map f m)))"
  using assms(1,2)
proof (induction m)
  case (Cons c m)
  have "sorted (map k (f c))" using assms(3) [of c] by (cases "f c") auto
  moreover have "sorted (map k (concat (map f m)))" using Cons by simp
  moreover have "k x \<le> k y" if x: "x \<in> set (f c)" and y: "y \<in> set (concat (map f m))" for x y
  proof -
    obtain c' where c': "c' \<in> set m" "y \<in> set (f c')" using y by auto
    have "k x = fst c" "k y = fst c'" using Cons.prems(2) x c' by auto
    moreover have "fst c \<le> fst c'" using Cons.prems(1) c'(1) by auto
    ultimately show ?thesis by simp
  qed
  ultimately show ?case by (auto simp: sorted_append)
qed simp

lemma query_references_eq:
  assumes "grammars_ok gs" "name \<noteq> []" "bt_sorted candidates"
  shows "query_references gs name defining graph candidates =
    concat (map (\<lambda>c. if references_in gs name defining graph c = [] then []
      else [\<lparr>rf_file = fst c, rf_occurrences = references_in gs name defining graph c, rf_semantic = False\<rparr>]) candidates)"
proof -
  let ?f = "\<lambda>c. if references_in gs name defining graph c = [] then []
      else [\<lparr>rf_file = fst c, rf_occurrences = references_in gs name defining graph c, rf_semantic = False\<rparr>]"
  have f: "file_references gs name defining graph = ?f"
    using file_references_eq [OF assms(1,2)] by (auto simp: fun_eq_iff)
  have "sorted (map rf_file (concat (map ?f candidates)))"
    by (rule sorted_concat_singles [OF bt_sorted_files [OF assms(3)]]) (auto split: if_splits)
  then show ?thesis by (simp only: query_references_def f sort_key_id_if_sorted)
qed

lemma rename_files_Ok:
  assumes ok: "grammars_ok gs" "old \<noteq> []" and sub: "\<And>c. c \<in> set cs \<Longrightarrow> map_of candidates (fst c) = Some (snd c)"
    and run: "rename_files gs old new candidates
      (concat (map (\<lambda>c. if references_in gs old defining graph c = [] then []
         else [\<lparr>rf_file = fst c, rf_occurrences = references_in gs old defining graph c, rf_semantic = False\<rparr>]) cs)) = Ok files"
  shows "files = concat (map (renamed gs old new defining graph) cs) \<and>
    (\<forall>f \<in> set files. \<exists>l root. detect (rn_file f) = Some l \<and> gs (Grammar l) (rn_bytes f) = Tree root \<and> \<not> has_error root)"
  using sub run
proof (induction cs arbitrary: files)
  case (Cons c cs)
  let ?ks = "references_in gs old defining graph c"
  show ?case
  proof (cases "?ks = []")
    case True
    then show ?thesis using Cons by (simp add: renamed_def)
  next
    case False
    obtain path source where c: "c = (path, source)" by force
    have sp: "spaced (length old) 0 ?ks (length source)" using references_spaced [OF ok] by (simp add: c)
    have "sort ?ks = ?ks" using spaced_sorted [OF sp] by (simp add: sort_key_id_if_sorted)
    moreover have "map_of candidates path = Some source" using Cons.prems(1) [of c] by (simp add: c)
    ultimately obtain bytes files' where run: "splice_each gs path old new (rev ?ks) source = Ok bytes"
        "rename_files gs old new candidates
          (concat (map (\<lambda>c. if references_in gs old defining graph c = [] then []
             else [\<lparr>rf_file = fst c, rf_occurrences = references_in gs old defining graph c, rf_semantic = False\<rparr>]) cs)) = Ok files'"
        "files = \<lparr>rn_file = path, rn_bytes = bytes, rn_rewritten = length ?ks\<rparr> # files'"
      using Cons.prems(2) False by (auto simp: c bind_outcome_Ok_iff)
    have "bytes = rewrite_at 0 (length old) new ?ks source" using splice_each_rewrites [OF sp run(1)] by simp
    moreover obtain k ks where ks: "?ks = k # ks" using False by (cases ?ks) auto
    have "\<exists>mid. replace_node gs path mid k (k + length old) new = Ok bytes"
    proof -
      have "splice_each gs path old new (xs @ [k]) t = Ok b \<Longrightarrow> \<exists>mid. replace_node gs path mid k (k + length old) new = Ok b" for xs t b
        by (induction xs arbitrary: t) (auto simp: bind_outcome_Ok_iff)
      then show ?thesis using run(1) by (simp add: ks)
    qed
    then have "\<exists>l root. detect path = Some l \<and> gs (Grammar l) bytes = Tree root \<and> \<not> has_error root"
      using replace_node_Ok by blast
    ultimately show ?thesis using Cons.IH [OF _ run(2)] Cons.prems(1) run(3) False by (simp add: renamed_def c Let_def)
  qed
qed simp

lemma shadow_check_Ok:
  "shadow_check gs old new candidates rs = Some (Ok ()) \<Longrightarrow> r \<in> set rs \<Longrightarrow> map_of candidates (rf_file r) = Some source \<Longrightarrow>
     \<exists>entries. outline gs (rf_file r) source = Some (Ok entries) \<and> new \<notin> set (map (sy_name \<circ> oe_symbol) entries)"
  by (induction gs old new candidates rs rule: shadow_check.induct)
    (force simp: find_None_iff split: option.splits outcome.splits)+

text \<open>
  C13. A rename that succeeds rewrites every reference at once and nothing else: the files it returns
  are, in path order, those candidates that can see the defining file and mention the name as a whole
  identifier, each with all mentions replaced simultaneously and every other byte kept; each result
  parses without errors, and no file touched declares the new name. (Trees are those of tree-sitter:
  children in order, names are leaves.)
\<close>

theorem rename_is_exact:
  assumes "grammars_ok gs" "bt_sorted candidates"
    and "rename gs old new defining graph candidates = Some (Ok out)"
  shows "ro_files out = concat (map (renamed gs old new defining graph) candidates) \<and> ro_files out \<noteq> [] \<and>
    \<not> ro_semantic out \<and>
    (\<forall>f \<in> set (ro_files out). \<exists>l root. detect (rn_file f) = Some l \<and> gs (Grammar l) (rn_bytes f) = Tree root \<and> \<not> has_error root) \<and>
    (\<forall>(path, source) \<in> set candidates. references_in gs old defining graph (path, source) \<noteq> [] \<longrightarrow>
       (\<exists>entries. outline gs path source = Some (Ok entries) \<and> new \<notin> set (map (sy_name \<circ> oe_symbol) entries)))"
proof -
  let ?ref = "\<lambda>c. if references_in gs old defining graph c = [] then []
      else [\<lparr>rf_file = fst c, rf_occurrences = references_in gs old defining graph c, rf_semantic = False\<rparr>]"
  have old: "old \<noteq> []" using assms(3) by (auto simp: rename_def)
  note refs = query_references_eq [OF assms(1) old assms(2), of defining graph]
  obtain files where run: "concat (map ?ref candidates) \<noteq> []"
      "shadow_check gs old new candidates (concat (map ?ref candidates)) = Some (Ok ())"
      "rename_files gs old new candidates (concat (map ?ref candidates)) = Ok files"
      "out = \<lparr>ro_files = sort_key rn_file files, ro_semantic = False\<rparr>"
    using assms(3) unfolding rename_def Let_def refs by (auto simp: bind_outcome_Ok_iff split: if_splits option.splits outcome.splits)
  have get: "map_of candidates (fst c) = Some (snd c)" if "c \<in> set candidates" for c
    using that bt_sorted_distinct [OF assms(2)] by simp
  have files: "files = concat (map (renamed gs old new defining graph) candidates)"
      "\<forall>f \<in> set files. \<exists>l root. detect (rn_file f) = Some l \<and> gs (Grammar l) (rn_bytes f) = Tree root \<and> \<not> has_error root"
    using rename_files_Ok [OF assms(1) old get run(3)] by auto
  have "sorted (map rn_file files)" unfolding files(1)
    by (rule sorted_concat_singles [OF bt_sorted_files [OF assms(2)]]) (auto simp: renamed_def Let_def split: if_splits)
  then have sorted: "ro_files out = files" using run(4) by (simp add: sort_key_id_if_sorted)
  have "files \<noteq> []" using run(1) by (auto simp: files(1) renamed_def Let_def split: if_splits)
  moreover have "\<exists>entries. outline gs path source = Some (Ok entries) \<and> new \<notin> set (map (sy_name \<circ> oe_symbol) entries)"
    if c: "(path, source) \<in> set candidates" "references_in gs old defining graph (path, source) \<noteq> []" for path source
  proof -
    have "\<lparr>rf_file = path, rf_occurrences = references_in gs old defining graph (path, source), rf_semantic = False\<rparr>
        \<in> set (concat (map ?ref candidates))" using c by force
    from shadow_check_Ok [OF run(2) this] get [OF c(1)] show ?thesis by simp
  qed
  ultimately show ?thesis using files sorted run(4) by auto
qed

definition two_names :: "nat \<Rightarrow> nat \<Rightarrow> syn" where
  "two_names m n = Node ''source_file'' False 0 (m + n + 1) 0 None [leaf ''identifier'' 0 m, leaf ''identifier'' (m + 1) (m + n + 1)]"

definition test_grammars :: grammars where
  "test_grammars g s =
     (if s = ''f;f'' then Tree (two_names 1 1) else if s = ''f;SS'' then Tree (two_names 1 2)
      else if s = ''SS;SS'' then Tree (two_names 2 2) else NoTree)"

definition test_candidates :: "(file_path, string) btree" where "test_candidates = [([''m.rs''], ''f;f'')]"

lemma test_grammars_ok: "grammars_ok test_grammars"
  by (auto simp: grammars_ok_def test_grammars_def two_names_def leaf_def node_ok_def NAME_KINDS_def split: if_splits)

lemma detect_rs: "detect [''m.rs''] = Some Rust" "path_extension [''m.rs''] = Some ''rs''"
  by (simp_all add: detect_def extension_of_def EXTENSIONS_def path_extension_def)

lemma settle_Nil: "settle [] [] = Some []"
  by (subst settle.simps) simp

lemma test_references:
  "query_references test_grammars ''f'' [''m.rs''] graph_new test_candidates =
     [\<lparr>rf_file = [''m.rs''], rf_occurrences = [0, 2], rf_semantic = False\<rparr>]"
  by (simp add: query_references_def file_references_def test_candidates_def reachable_from_def detect_rs
      test_grammars_def two_names_def leaf_def mentions_def NAME_KINDS_def utf8_text_def ascii_valid Let_def
      del: utf8_valid.simps)

lemma test_splices:
  "replace_node test_grammars [''m.rs''] ''f;f'' 2 3 ''SS'' = Ok ''f;SS''"
  "replace_node test_grammars [''m.rs''] ''f;SS'' 0 1 ''SS'' = Ok ''SS;SS''"
  by (simp_all add: replace_node_def detect_rs node_kind_at_def parse_clean_def test_grammars_def two_names_def leaf_def
      spliced_def reparse_gate_def find_exact.simps holding_def)


lemma rename_is_exact_witness:
  "\<exists>out. rename test_grammars ''f'' ''SS'' [''m.rs''] graph_new test_candidates = Some (Ok out) \<and>
     ro_files out = concat (map (renamed test_grammars ''f'' ''SS'' [''m.rs''] graph_new) test_candidates) \<and>
     map rn_bytes (ro_files out) = [''SS;SS'']"
proof -
  let ?out = "\<lparr>ro_files = [\<lparr>rn_file = [''m.rs''], rn_bytes = ''SS;SS'', rn_rewritten = 2\<rparr>], ro_semantic = False\<rparr>"
  have "outline test_grammars [''m.rs''] ''f;f'' = Some (Ok [])"
    by (simp add: outline_def parse_file_def detect_rs test_grammars_def two_names_def leaf_def harvest_def
        visit_node_def settle_Nil)
  then have r: "rename test_grammars ''f'' ''SS'' [''m.rs''] graph_new test_candidates = Some (Ok ?out)"
    using test_splices by (simp add: rename_def test_references Let_def) (simp add: test_candidates_def)
  from rename_is_exact [OF test_grammars_ok _ r]
  have e: "ro_files ?out = concat (map (renamed test_grammars ''f'' ''SS'' [''m.rs''] graph_new) test_candidates)"
    by (simp add: test_candidates_def bt_sorted_def)
  have m: "map rn_bytes (ro_files ?out) = [''SS;SS'']" by simp
  show ?thesis by (rule exI [of _ ?out], rule conjI [OF r conjI [OF e m]])
qed

end
