(* ===== verification/Spec2Isabelle.thy ===== *)
theory Spec2Isabelle
  imports Permission Ephemeral Evict Cache_Plan Money Guard Turn_Loop Sessions Journal Key_Scan Config_Load Anchors Vector_Index Tools Llm_Replay Update Ast
begin

text \<open>
  A verification of the core of supra, a harness that runs language models as a cohort of peers.
  All paths are below \<open>src/crates/\<close>.

  \<^bold>\<open>The program.\<close> A turn is answered by a host and its peers. \<open>supra_cohort\<close> estimates how much
  scrutiny a task needs and how many peers that is; \<open>supra_guard\<close> decides whether a peer may be
  started at all; \<open>supra_core::turn\<close> lets one peer propose an answer on the blackboard
  (\<open>supra_blackboard\<close>) and the others vote, with the arithmetic of \<open>supra_types::cohort\<close>; events of
  all of it go over the bus (\<open>supra_eventbus\<close>). An agreed answer becomes a segment
  (\<open>supra_types::segment\<close>) that is sealed into the prompt ledger (\<open>supra_prompt\<close>), from which
  cache breakpoints are planned; old turns are evicted without loss into the store
  (\<open>supra_prompt::evict\<close>, \<open>supra_store::turns\<close>). Every effect passes the permission gate
  (\<open>supra_permission\<close>); what the gate lets run because it can be undone is snapshotted first by the
  journal (\<open>supra_journal\<close>), and whole sessions are kept by \<open>supra_session\<close>. Requests to the three
  model providers are rendered and their answers read by \<open>supra_llm\<close>, tools are checked against their
  schemas by \<open>supra_tool\<close>, the configuration (\<open>supra_config\<close>) is resolved from layers. What the peers
  know of the repository comes from the digest (\<open>supra_digest\<close>) and the vector index
  (\<open>supra_vector\<close>); they edit it by structure (\<open>supra_ast\<close>). \<open>supra_update\<close> replaces the executable.

  \<^bold>\<open>Theories, code and what is shown.\<close>
  \<^item> \<open>Supra_Prelude\<close>: outcomes (\<open>Ok\<close>, \<open>Err\<close> and \<open>Panic\<close> for aborts), bounds of machine integers,
    sorted maps (\<open>BTreeMap\<close>) with the locale of finite maps, binary search, transition systems
    with invariants, bytes, decimal texts, identifiers.
  \<^item> \<open>Cohort\<close> (\<open>supra_types/src/cohort.rs\<close>): quorum arithmetic, admission, verdicts and the tally.
    The tally refines the two-thirds rule over vote sequences, never decides too early or
    revokes, and two quorums share an honest peer.
  \<^item> \<open>Estimate\<close> (\<open>supra_cohort/src\<close>): signals, scores, escalation and profiles.
  \<^item> \<open>Permission\<close> (\<open>supra_types/src/permission.rs\<close>, \<open>supra_permission/src\<close>): the gate, exactly when
    it runs, asks and refuses.
  \<^item> \<open>Hashing\<close>, \<open>Segments\<close> (\<open>supra_types/src/hash.rs\<close>, \<open>sealed.rs\<close>, \<open>segment.rs\<close>): the canonical writer
    and its unique readability, as one locale interpreted for every sealed type; hash preimages
    determine segments. \<open>Ephemeral\<close>: the volatile state block.
  \<^item> \<open>Ledger\<close> (\<open>supra_prompt/src/ledger.rs\<close>, \<open>generation.rs\<close>): reachable ledgers are gap free, seals
    verify exactly, snapshots restore exactly. \<open>Turn_Store\<close>, \<open>Evict\<close>: the archive is lossless, also
    through the prompt layer. \<open>Cache_Plan\<close>: breakpoints, policies and providers. \<open>Money\<close>: costs.
  \<^item> \<open>Lineage\<close>, \<open>Guard\<close> (\<open>supra_types/src/lineage.rs\<close>, \<open>supra_guard/src\<close>): no nested or self spawn;
    the seven layers and when all of them pass.
  \<^item> \<open>Topics\<close>, \<open>Bus\<close> (\<open>supra_types/src/event.rs\<close>, \<open>supra_eventbus/src\<close>): topic sets are finite sets;
    gap counts of every subscriber account for every event.
  \<^item> \<open>Blackboard\<close> (\<open>supra_blackboard/src\<close>), \<open>Turn_Loop\<close> (\<open>supra_core/src/turn.rs\<close>): claims, votes and
    their tables; a reached claim has its quorum, a restart reads the board back, and what a turn
    seals was proposed and agreed.
  \<^item> \<open>Json\<close>, \<open>Sessions\<close> (\<open>supra_session/src\<close>): checkpoints and their files; compare and swap,
    revisions that never go back, plain saves that lose nothing, resume as saved.
  \<^item> \<open>Journal\<close> (\<open>supra_journal/src\<close>): snapshots are undone exactly once, with verified bytes only.
  \<^item> \<open>Config\<close>, \<open>Endpoint\<close>, \<open>Config_Resolve\<close>, \<open>Config_Load\<close> (\<open>supra_config/src\<close>): layers and their
    validation, endpoints (plain text stays on the machine), precedence (a repository file never
    loosens the mode), discovery and loading (what loads is well formed).
  \<^item> \<open>Canonical\<close>, \<open>Key_Scan\<close> (\<open>supra_llm/src/canonical.rs\<close>): canonical texts determine their values up
    to the order of members; the scanner refuses exactly the well-formed texts with repeated keys.
  \<^item> \<open>Tools\<close> (\<open>supra_tool/src\<close>): schemas, their rendering read independently, the registry and
    what an invocation must satisfy.
  \<^item> \<open>Utf8\<close>, \<open>Llm_Wire\<close>, \<open>Llm_Stream\<close>, \<open>Llm_Replay\<close> (\<open>supra_llm/src/client.rs\<close>, \<open>providers.rs\<close>): request
    bodies read back as the messages they carry; event streams do not depend on how they are cut and
    give every block; streamed and blocking answers agree; a credential goes to its provider only.
  \<^item> \<open>Digest_Graph\<close>, \<open>Digest\<close>, \<open>Parse_Tree\<close>, \<open>Anchors\<close> (\<open>supra_digest/src\<close>): the blast radius of a file, the
    scan of a tree, the declarations of a syntax tree, anchors within their budget.
  \<^item> \<open>Ast\<close> (\<open>supra_ast/src\<close>): splices and their gate, outlines (and when they do not end), renames.
  \<^item> \<open>Vector_Codes\<close>, \<open>Vector_Search\<close>, \<open>Vector_Cache\<close>, \<open>Vector_Index\<close> (\<open>supra_vector/src\<close>): embeddings read
    back, the code table is a map, the cache evicts the least recent, and the index: opening,
    writing, two-stage search against the exhaustive one.
  \<^item> \<open>Update\<close> (\<open>supra_update/src/lib.rs\<close>): what is installed is what was signed.

  \<^bold>\<open>State and environment.\<close> A struct is a record, an enum a datatype, a table a sorted or ordered
  list of rows with its CHECK constraints. An operation takes the state and returns its result
  with the new state. Outside code is an argument: \<open>H\<close> is the hash function (BLAKE3, of 32 bytes
  where that matters; statements up to collisions say so), \<open>U\<close> the text of a ULID; the guard's
  HMAC, entropy and file lookups are fields of its environment; fresh identifiers and clock
  readings are arguments of what mints or reads them. SQLite is the faults that may strike the
  begin, a statement or the commit of a transaction; a failed transaction changes nothing.
  serde's two document shapes are a record of functions with the law that decoding reads back
  what was encoded, for the values of which this is true of serde: no floats, no optional value that
  is null, nesting up to a bound below serde's own (\<open>codec_ok\<close>, \<open>storable\<close>). File systems are maps with
  the answers of each call as faults.
  Further parameters: the TOML and JSON parsers and the writer of JSON strings, the tree that
  tree-sitter yields for a text (children in order, \<open>grammars_ok\<close>), the output of git, the embedder,
  the arithmetic of \<open>f32\<close> (its comparisons are modelled on bit patterns), SQLite's full-text match and
  its choice of a row id, Unicode tables for letters and case, the HTTP transport and the decoded
  events of the OpenAI library, minisign, semver, SHA-256 and the entries of a tar archive.

  \<^bold>\<open>Numbers and bounds.\<close> \<open>usize\<close> and \<open>u64\<close> are natural numbers; additions that the source checks, or
  that the overflow checks of the workspace turn into an abort, are written out as such.
  Loops are structural recursions or have their measures (the search of the journal for a temporary
  file tries 128 candidates, the walk over syntax trees shrinks its stack). Two exceptions: the scanner
  of \<open>Key_Scan\<close> is mutually recursive on positions and uses fuel, twice the length of the text and one,
  which is proved to be enough for every text (\<open>scan_always_ends\<close>); and the loop of the outline in
  \<open>Ast\<close>, which need not end, is a partial function whose end is characterised. Neither the native stack
  nor running out of memory is modelled.

  \<^bold>\<open>Not modelled.\<close> Terminal, FFI, process and network code (\<open>supra_tui\<close>, \<open>supra_ffi\<close>, \<open>supra_shell\<close>,
  \<open>supra_sandbox\<close>, the transports of \<open>supra_llm\<close>, \<open>supra_lsp\<close>, \<open>supra_dap\<close> and \<open>supra_mcp\<close>), the plugin
  host and the hooks, secret storage, logging with its redaction, telemetry, theming, skills, the
  introspector, the command line and its runtime, and the third-party crates all of these wrap: what
  they do is mostly what the outside does. Store opening and migrations, identifiers' base32 text
  and minting.
\<close>

end
